(* ===== verification/Prelude.thy ===== *)
theory Prelude
  imports Main "HOL-Library.Word" "HOL-Library.Sublist"
begin

text \<open>
  Shared vocabulary of the development: Rust's fixed-width integers, strings as lists of
  Unicode scalar values with their UTF-8 byte length, and the two clocks.

  \<^item> A Rust \<^verbatim>\<open>String\<close> is an \<open>rstring\<close>, the list of its code points. \<open>str_bytes\<close> is its
    UTF-8 encoding and \<open>str_len\<close> the byte count \<^verbatim>\<open>String::len\<close> answers.
  \<^item> An \<^verbatim>\<open>Instant\<close> is the number of nanoseconds since an arbitrary origin, a \<^verbatim>\<open>Duration\<close> a
    number of nanoseconds; \<^verbatim>\<open>saturating_duration_since\<close> and \<^verbatim>\<open>duration_since\<close> (which saturates
    too) are the truncating subtraction on \<open>nat\<close>.
  \<^item> A Rust \<^verbatim>\<open>Result<T, E>\<close> is \<open>E + T\<close>, \<open>Inl\<close> for the error.
\<close>

section \<open>Integers, clocks\<close>

type_synonym u8 = "8 word"
type_synonym u16 = "16 word"
type_synonym u32 = "32 word"
type_synonym u64 = "64 word"

type_synonym instant = nat
type_synonym duration = nat

definition from_nanos :: "nat \<Rightarrow> duration" where
  "from_nanos n = n"

definition from_millis :: "nat \<Rightarrow> duration" where
  "from_millis n = n * 1000000"

definition from_secs :: "nat \<Rightarrow> duration" where
  "from_secs n = n * 1000000000"

definition as_secs :: "duration \<Rightarrow> nat" where
  "as_secs d = d div 1000000000"

lemma as_secs_from_secs [simp]: "as_secs (from_secs n) = n"
  by (simp add: as_secs_def from_secs_def)

lemma as_secs_mono: "a \<le> b \<Longrightarrow> as_secs a \<le> as_secs b"
  by (simp add: as_secs_def div_le_mono)

lemma from_secs_le_iff: "from_secs n \<le> d \<longleftrightarrow> n \<le> as_secs d"
  by (simp add: from_secs_def as_secs_def less_eq_div_iff_mult_less_eq)

text \<open>\<^verbatim>\<open>u32::saturating_add\<close>.\<close>

definition saturating_add32 :: "u32 \<Rightarrow> u32 \<Rightarrow> u32" where
  "saturating_add32 a b = (if unat a + unat b < 2 ^ 32 then a + b else 4294967295)"

lemma unat_saturating_add32: "unat (saturating_add32 a b) = min (unat a + unat b) (2 ^ 32 - 1)"
  by (auto simp: saturating_add32_def unat_word_ariths)

lemma unat_less_self: "unat (w :: u32) < 2 ^ 32"
  using unsigned_less [of w] by simp

lemma of_nat_u32_less: "n < 2 ^ 32 \<Longrightarrow> (of_nat n < (limit :: u32)) = (n < unat limit)"
  by (simp add: word_less_nat_alt unsigned_of_nat take_bit_nat_eq_self)

text \<open>
  An \<^verbatim>\<open>i64\<close> is an \<open>int\<close> kept in range by the operation that made it: \<open>sat64\<close> after
  \<^verbatim>\<open>saturating_add\<close> and \<^verbatim>\<open>saturating_mul\<close>, \<open>wrap64\<close> after a plain operator or an \<^verbatim>\<open>as i64\<close> cast
  (release builds wrap).
\<close>

definition sat64 :: "int \<Rightarrow> int" where
  "sat64 x = max (- (2 ^ 63)) (min x (2 ^ 63 - 1))"

definition wrap64 :: "int \<Rightarrow> int" where
  "wrap64 x = (x + 2 ^ 63) mod 2 ^ 64 - 2 ^ 63"

definition clampi :: "int \<Rightarrow> int \<Rightarrow> int \<Rightarrow> int" where
  "clampi x lo hi = (if x < lo then lo else if hi < x then hi else x)"

lemma wrap64_id [simp]: "- (2 ^ 63) \<le> x \<Longrightarrow> x < 2 ^ 63 \<Longrightarrow> wrap64 x = x"
  by (simp add: wrap64_def)

lemma clampi_bounds: "lo \<le> hi \<Longrightarrow> lo \<le> clampi x lo hi \<and> clampi x lo hi \<le> hi"
  by (simp add: clampi_def)

section \<open>Strings\<close>

type_synonym rchar = nat
type_synonym rstring = "rchar list"

text \<open>A string literal of the source; every literal modelled here is ASCII.\<close>

definition lit :: "string \<Rightarrow> rstring" where
  "lit s = map of_char s"

lemma lit_simps [simp]: "lit [] = []" "lit (c # cs) = of_char c # lit cs"
  by (simp_all add: lit_def)

lemma length_lit [simp]: "length (lit s) = length s"
  by (simp add: lit_def)

text \<open>The UTF-8 encoding of one scalar value, and of a string.\<close>

definition utf8_bytes :: "rchar \<Rightarrow> u8 list" where
  "utf8_bytes c =
     (if c < 128 then [of_nat c]
      else if c < 2048 then [of_nat (192 + c div 64), of_nat (128 + c mod 64)]
      else if c < 65536 then
        [of_nat (224 + c div 4096), of_nat (128 + c div 64 mod 64), of_nat (128 + c mod 64)]
      else
        [of_nat (240 + c div 262144), of_nat (128 + c div 4096 mod 64),
         of_nat (128 + c div 64 mod 64), of_nat (128 + c mod 64)])"

definition str_bytes :: "rstring \<Rightarrow> u8 list" where
  "str_bytes s = concat (map utf8_bytes s)"

definition char_len :: "rchar \<Rightarrow> nat" where
  "char_len c = length (utf8_bytes c)"

definition str_len :: "rstring \<Rightarrow> nat" where
  "str_len s = length (str_bytes s)"

lemma char_len_bounds: "1 \<le> char_len c \<and> char_len c \<le> 4"
  by (simp add: char_len_def utf8_bytes_def)

lemma char_len_pos [simp]: "0 < char_len c"
  using char_len_bounds [of c] by simp

lemma str_len_simps [simp]:
  "str_len [] = 0"
  "str_len (c # cs) = char_len c + str_len cs"
  "str_len (xs @ ys) = str_len xs + str_len ys"
  by (simp_all add: str_len_def str_bytes_def char_len_def)

lemma str_bytes_simps [simp]:
  "str_bytes [] = []"
  "str_bytes (c # cs) = utf8_bytes c @ str_bytes cs"
  by (simp_all add: str_bytes_def)

lemma length_le_str_len: "length s \<le> str_len s"
proof (induction s)
  case (Cons c s)
  then show ?case using char_len_bounds [of c] by simp
qed simp

text \<open>\<^verbatim>\<open>str::is_char_boundary\<close>, and the prefix of a string that ends at a byte offset.\<close>

fun is_char_boundary :: "rstring \<Rightarrow> nat \<Rightarrow> bool" where
  "is_char_boundary [] i = (i = 0)"
| "is_char_boundary (c # cs) i =
     (i = 0 \<or> (char_len c \<le> i \<and> is_char_boundary cs (i - char_len c)))"

fun str_prefix :: "rstring \<Rightarrow> nat \<Rightarrow> rstring" where
  "str_prefix [] i = []"
| "str_prefix (c # cs) i =
     (if char_len c \<le> i then c # str_prefix cs (i - char_len c) else [])"

lemma is_char_boundary_0 [simp]: "is_char_boundary s 0"
  by (cases s) auto

lemma prefix_str_prefix: "prefix (str_prefix s i) s"
  by (induction s i rule: str_prefix.induct) auto

lemma str_len_str_prefix: "is_char_boundary s i \<Longrightarrow> str_len (str_prefix s i) = i"
  by (induction s i rule: is_char_boundary.induct) (auto simp: not_le)

lemma char_boundary_near:
  "i \<le> str_len s \<Longrightarrow> \<exists>j. j \<le> i \<and> i < j + 4 \<and> is_char_boundary s j"
proof (induction s i rule: is_char_boundary.induct)
  case (1 i)
  then show ?case by auto
next
  case (2 c cs i)
  show ?case
  proof (cases "char_len c \<le> i")
    case True
    with 2(2) have "i - char_len c \<le> str_len cs" by simp
    with 2(1) obtain j where "j \<le> i - char_len c" "i - char_len c < j + 4" "is_char_boundary cs j"
      by blast
    with True show ?thesis by (intro exI [of _ "j + char_len c"]) auto
  next
    case False
    with char_len_bounds [of c] show ?thesis by (intro exI [of _ 0]) auto
  qed
qed

subsection \<open>Character classes\<close>

text \<open>\<^verbatim>\<open>char::is_control\<close> is the Unicode category Cc; \<^verbatim>\<open>char::is_whitespace\<close> the property White\_Space.\<close>

definition is_control :: "rchar \<Rightarrow> bool" where
  "is_control c \<longleftrightarrow> c < 32 \<or> (127 \<le> c \<and> c < 160)"

definition is_whitespace :: "rchar \<Rightarrow> bool" where
  "is_whitespace c \<longleftrightarrow>
     (9 \<le> c \<and> c \<le> 13) \<or> c = 32 \<or> c = 133 \<or> c = 160 \<or> c = 5760 \<or> (8192 \<le> c \<and> c \<le> 8202)
     \<or> c = 8232 \<or> c = 8233 \<or> c = 8239 \<or> c = 8287 \<or> c = 12288"

definition is_ascii_alphanumeric :: "rchar \<Rightarrow> bool" where
  "is_ascii_alphanumeric c \<longleftrightarrow>
     (48 \<le> c \<and> c \<le> 57) \<or> (65 \<le> c \<and> c \<le> 90) \<or> (97 \<le> c \<and> c \<le> 122)"

definition to_ascii_lowercase :: "rchar \<Rightarrow> rchar" where
  "to_ascii_lowercase c = (if 65 \<le> c \<and> c \<le> 90 then c + 32 else c)"

definition eq_ignore_ascii_case :: "rstring \<Rightarrow> rstring \<Rightarrow> bool" where
  "eq_ignore_ascii_case a b \<longleftrightarrow> map to_ascii_lowercase a = map to_ascii_lowercase b"

lemma eq_ignore_ascii_case_refl [simp]: "eq_ignore_ascii_case a a"
  by (simp add: eq_ignore_ascii_case_def)

lemma eq_ignore_ascii_case_sym: "eq_ignore_ascii_case a b \<Longrightarrow> eq_ignore_ascii_case b a"
  by (simp add: eq_ignore_ascii_case_def)

text \<open>\<^verbatim>\<open>str::trim\<close>.\<close>

definition str_trim :: "rstring \<Rightarrow> rstring" where
  "str_trim s = rev (dropWhile is_whitespace (rev (dropWhile is_whitespace s)))"

section \<open>Lists\<close>

text \<open>\<^verbatim>\<open>Vec::retain(|x| x != v)\<close> followed by \<^verbatim>\<open>push(v)\<close>: move to the end.\<close>

lemma distinct_removeAll_snoc: "distinct xs \<Longrightarrow> distinct (removeAll v xs @ [v])"
  by (simp add: distinct_removeAll)

lemma length_filter_bound: "length xs \<le> n \<Longrightarrow> length (filter P xs) \<le> n"
  using length_filter_le [of P xs] by linarith

lemma filter_window_absorb:
  fixes now :: nat
  assumes "now \<le> now'"
  shows "filter (\<lambda>t. now' - t < w) (filter (\<lambda>t. now - t < w) ts) = filter (\<lambda>t. now' - t < w) ts"
  using assms by (induction ts) auto

lemma in_map_filter: "y \<in> set (List.map_filter f xs) \<longleftrightarrow> (\<exists>x \<in> set xs. f x = Some y)"
  by (force simp: List.map_filter_def)

text \<open>A loop that appends each element not yet present: first occurrences, in order.\<close>

fun push_new :: "'a list \<Rightarrow> 'a list \<Rightarrow> 'a list" where
  "push_new acc [] = acc"
| "push_new acc (x # xs) = push_new (if x \<in> set acc then acc else acc @ [x]) xs"

lemma set_push_new [simp]: "set (push_new acc xs) = set acc \<union> set xs"
  by (induction acc xs rule: push_new.induct) auto

lemma distinct_push_new [simp]: "distinct (push_new acc xs) = distinct acc"
  by (induction acc xs rule: push_new.induct) auto

lemma push_new_prefix: "prefix acc (push_new acc xs)"
proof (induction acc xs rule: push_new.induct)
  case (2 acc x xs)
  show ?case
  proof (cases "x \<in> set acc")
    case False
    with 2 have "prefix (acc @ [x]) (push_new acc (x # xs))" by simp
    then show ?thesis by (rule append_prefixD)
  qed (use 2 in simp)
qed simp

lemma push_new_fresh: "distinct (acc @ xs) \<Longrightarrow> push_new acc xs = acc @ xs"
  by (induction acc xs rule: push_new.induct) auto

lemma push_new_absorb: "set xs \<subseteq> set acc \<Longrightarrow> push_new acc xs = acc"
  by (induction acc xs rule: push_new.induct) auto

end
