(* ===== verification/Ordered_Map.thy ===== *)
theory Ordered_Map
  imports Prelude
begin

text \<open>
  Rust's \<^verbatim>\<open>BTreeMap\<close> as its iteration sequence: an association list with strictly
  increasing keys. The interface a client relies on (lookup after insert and remove, the
  order of iteration) is the locale \<open>ordered_map\<close>, interpreted below on these functions;
  its client lemma says what a linear search over the entries finds.
\<close>

fun bt_insert :: "'k::linorder \<Rightarrow> 'v \<Rightarrow> ('k \<times> 'v) list \<Rightarrow> ('k \<times> 'v) list" where
  "bt_insert k v [] = [(k, v)]"
| "bt_insert k v ((k', v') # m) =
     (if k < k' then (k, v) # (k', v') # m
      else if k = k' then (k, v) # m
      else (k', v') # bt_insert k v m)"

definition bt_remove :: "'k \<Rightarrow> ('k \<times> 'v) list \<Rightarrow> ('k \<times> 'v) list" where
  "bt_remove k m = filter (\<lambda>(k', _). k' \<noteq> k) m"

definition bt_wf :: "('k::linorder \<times> 'v) list \<Rightarrow> bool" where
  "bt_wf m \<longleftrightarrow> sorted_wrt (<) (map fst m)"

definition bt_find :: "('v \<Rightarrow> bool) \<Rightarrow> ('k \<times> 'v) list \<Rightarrow> 'k option" where
  "bt_find p m = map_option fst (find (\<lambda>(_, v). p v) m)"

lemma set_fst_bt_insert: "fst ` set (bt_insert k v m) = insert k (fst ` set m)"
  by (induction k v m rule: bt_insert.induct) auto

lemma bt_wf_Nil [simp]: "bt_wf []"
  by (simp add: bt_wf_def)

lemma bt_wf_insert: "bt_wf m \<Longrightarrow> bt_wf (bt_insert k v m)"
proof (induction k v m rule: bt_insert.induct)
  case (2 k v k' v' m)
  then show ?case
    using set_fst_bt_insert [of k v m] by (force simp: bt_wf_def)
qed (simp add: bt_wf_def)

lemma bt_wf_remove: "bt_wf m \<Longrightarrow> bt_wf (bt_remove k m)"
  by (induction m) (auto simp: bt_wf_def bt_remove_def)

lemma map_of_bt_insert: "bt_wf m \<Longrightarrow> map_of (bt_insert k v m) = (map_of m)(k \<mapsto> v)"
  by (induction k v m rule: bt_insert.induct) (auto simp: bt_wf_def fun_eq_iff)

lemma map_of_bt_remove: "map_of (bt_remove k m) = (map_of m)(k := None)"
  by (induction m) (auto simp: bt_remove_def fun_eq_iff)

locale ordered_map =
  fixes get :: "'m \<Rightarrow> 'k::linorder \<Rightarrow> 'v option"
    and put :: "'k \<Rightarrow> 'v \<Rightarrow> 'm \<Rightarrow> 'm"
    and del :: "'k \<Rightarrow> 'm \<Rightarrow> 'm"
    and search :: "('v \<Rightarrow> bool) \<Rightarrow> 'm \<Rightarrow> 'k option"
    and wf :: "'m \<Rightarrow> bool"
  assumes get_put: "wf m \<Longrightarrow> get (put k v m) = (get m)(k \<mapsto> v)"
    and get_del: "wf m \<Longrightarrow> get (del k m) = (get m)(k := None)"
    and wf_put: "wf m \<Longrightarrow> wf (put k v m)"
    and wf_del: "wf m \<Longrightarrow> wf (del k m)"
    and search_Some: "wf m \<Longrightarrow> search p m = Some k \<Longrightarrow> \<exists>v. get m k = Some v \<and> p v"
    and search_None: "wf m \<Longrightarrow> search p m = None \<Longrightarrow> get m k = Some v \<Longrightarrow> \<not> p v"
begin

lemma search_unique:
  assumes "wf m" "get m k = Some v" "p v"
    and "\<And>k' v'. get m k' = Some v' \<Longrightarrow> p v' \<Longrightarrow> k' = k"
  shows "search p m = Some k"
proof (cases "search p m")
  case None
  with assms(1,2,3) show ?thesis using search_None by blast
next
  case (Some k')
  with assms(1) obtain v' where "get m k' = Some v'" "p v'" using search_Some by blast
  with assms(4) Some show ?thesis by blast
qed

lemma search_put_fresh:
  assumes "wf m" "get m k = None" "p v" "\<And>k' v'. get m k' = Some v' \<Longrightarrow> \<not> p v'"
  shows "search p (put k v m) = Some k"
  using assms by (intro search_unique) (auto simp: get_put wf_put split: if_splits)

lemma search_del:
  assumes "wf m" "search p m = Some k" "\<And>k' v'. get m k' = Some v' \<Longrightarrow> p v' \<Longrightarrow> k' = k"
  shows "search p (del k m) = None"
proof (cases "search p (del k m)")
  case (Some k')
  with assms(1) obtain v' where "get (del k m) k' = Some v'" "p v'"
    using search_Some wf_del by blast
  with assms(1,3) show ?thesis by (auto simp: get_del split: if_splits)
qed

end

interpretation bt: ordered_map map_of bt_insert bt_remove bt_find bt_wf
proof (unfold_locales, goal_cases)
  case (5 m p k)
  then obtain v where "(k, v) \<in> set m" "p v"
    by (auto simp: bt_find_def find_Some_iff) (metis nth_mem prod.collapse)
  moreover from 5(1) have "distinct (map fst m)"
    by (simp add: bt_wf_def strict_sorted_iff)
  ultimately show ?case by auto
next
  case (6 m p k v)
  then show ?case by (auto simp: bt_find_def find_None_iff dest: map_of_SomeD)
qed (simp_all add: map_of_bt_insert map_of_bt_remove bt_wf_insert bt_wf_remove)

end
