(* ===== verification/Unix_Path.thy ===== *)
theory Unix_Path
  imports Prelude
begin

text \<open>
  What the sources use of \<^verbatim>\<open>std::path\<close> on Unix: a path is its text, read as a sequence of
  components by \<^verbatim>\<open>Path::components\<close>, which ignores repeated and trailing separators and every
  \<^verbatim>\<open>.\<close> except a leading one.
\<close>

text \<open>\<^verbatim>\<open>Path::join\<close> on Unix.\<close>

definition path_join :: "rstring \<Rightarrow> rstring \<Rightarrow> rstring" where
  "path_join base part =
     (if part \<noteq> [] \<and> hd part = 47 then part
      else if base = [] \<or> last base = 47 then base @ part
      else base @ [47] @ part)"

fun split_on :: "rchar \<Rightarrow> rstring \<Rightarrow> rstring list" where
  "split_on sep [] = [[]]"
| "split_on sep (c # cs) = (if c = sep then [] # split_on sep cs
     else case split_on sep cs of [] \<Rightarrow> [[c]] | s # ss \<Rightarrow> (c # s) # ss)"

datatype path_component = RootDir | CurDir | ParentDir | Normal rstring

definition segment :: "rstring \<Rightarrow> path_component list" where
  "segment s = (if s = [] \<or> s = [46] then [] else if s = [46, 46] then [ParentDir] else [Normal s])"

definition leading :: "rstring \<Rightarrow> path_component list" where
  "leading p = (if p \<noteq> [] \<and> hd p = 47 then [RootDir] else if hd (split_on 47 p) = [46] then [CurDir] else [])"

definition path_components :: "rstring \<Rightarrow> path_component list" where
  "path_components p = leading p @ concat (map segment (split_on 47 p))"

definition file_name :: "rstring \<Rightarrow> rstring option" where
  "file_name p =
     (let cs = path_components p
      in if cs = [] then None else case last cs of Normal n \<Rightarrow> Some n | _ \<Rightarrow> None)"

definition path_starts_with :: "rstring \<Rightarrow> rstring \<Rightarrow> bool" where
  "path_starts_with p base \<longleftrightarrow> prefix (path_components base) (path_components p)"

lemma split_on_not_Nil [simp]: "split_on sep p \<noteq> []"
  by (induction p) (auto split: list.split)

lemma split_on_plain [simp]: "sep \<notin> set p \<Longrightarrow> split_on sep p = [p]"
  by (induction p) auto

lemma split_on_append: "split_on sep (p @ sep # q) = split_on sep p @ split_on sep q"
  by (induction p) (auto split: list.split)

lemma split_on_segments: "s \<in> set (split_on sep p) \<Longrightarrow> sep \<notin> set s"
  by (induction p arbitrary: s) (auto split: list.splits if_splits)

lemma split_on_sub: "s \<in> set (split_on sep p) \<Longrightarrow> set s \<subseteq> set p"
  by (induction p arbitrary: s) (fastforce split: list.splits if_splits)+

text \<open>A plain name is what one component can be: not empty, no separator, neither \<^verbatim>\<open>.\<close> nor \<^verbatim>\<open>..\<close>.\<close>

definition plain_name :: "rstring \<Rightarrow> bool" where
  "plain_name n \<longleftrightarrow> n \<noteq> [] \<and> 47 \<notin> set n \<and> n \<noteq> [46] \<and> n \<noteq> [46, 46]"

lemma components_plain_name [simp]: "plain_name n \<Longrightarrow> path_components n = [Normal n]"
  by (cases n) (auto simp: plain_name_def path_components_def leading_def segment_def)

lemma component_plain: "Normal n \<in> set (path_components p) \<Longrightarrow> plain_name n \<and> set n \<subseteq> set p"
  using split_on_segments [of n 47 p] split_on_sub [of n 47 p]
  by (auto simp: path_components_def leading_def segment_def plain_name_def split: if_splits)

lemma hd_split_append: "p \<noteq> [] \<Longrightarrow> hd (split_on sep (p @ sep # q)) = hd (split_on sep p)"
  by (simp add: split_on_append)

lemma leading_append: "p \<noteq> [] \<Longrightarrow> leading (p @ 47 # q) = leading p"
  by (simp add: leading_def hd_split_append)

lemma path_components_join:
  assumes "plain_name n"
  shows "path_components (path_join base n) = path_components base @ [Normal n]"
proof -
  have n: "n \<noteq> []" "hd n \<noteq> 47" "47 \<notin> set n" "segment n = [Normal n]"
    using assms by (cases n; auto simp: plain_name_def segment_def)+
  consider "base = []" | "base \<noteq> []" "last base = 47" | "base \<noteq> []" "last base \<noteq> 47" by blast
  then show ?thesis
  proof cases
    case 1
    moreover have "path_components [] = []" by (simp add: path_components_def leading_def segment_def)
    ultimately show ?thesis using assms n by (simp add: path_join_def)
  next
    case 2
    then obtain b where b: "base = b @ [47]" by (metis append_butlast_last_id)
    have "leading (b @ 47 # n) = leading (b @ [47])"
    proof (cases "b = []")
      case False
      then show ?thesis using leading_append [of b n] leading_append [of b "[]"] by simp
    qed (simp add: leading_def)
    with b n show ?thesis
      by (simp add: path_join_def path_components_def split_on_append [of 47 b] segment_def)
  next
    case 3
    with n show ?thesis
      by (simp add: path_join_def path_components_def leading_append split_on_append)
  qed
qed

end
