(* ===== verification/Pane_Identity.thy ===== *)
theory Pane_Identity
  imports Ordered_Map Unix_Path
begin

text \<open>
  Pane slots and their identity: \<^verbatim>\<open>src/backend/identity.rs\<close> (tokens, generations, the hub's
  runtime directory) and \<^verbatim>\<open>src/backend/slot.rs\<close> (the slot table, and the command line a
  relaunch runs). The operating system's random source, the environment and the home
  directory are arguments.
\<close>

unbundle bit_operations_syntax

section \<open>Hexadecimal text\<close>

definition hexdig :: "nat \<Rightarrow> rchar" where
  "hexdig n = (if n < 10 then 48 + n else 87 + n)"

text \<open>\<^verbatim>\<open>{:0kx}\<close>: the low \<open>k\<close> hexadecimal digits, zero padded.\<close>

fun hex_fixed :: "nat \<Rightarrow> nat \<Rightarrow> rstring" where
  "hex_fixed 0 n = []"
| "hex_fixed (Suc k) n = hex_fixed k (n div 16) @ [hexdig (n mod 16)]"

lemma length_hex_fixed [simp]: "length (hex_fixed k n) = k"
  by (induction k arbitrary: n) auto

lemma hexdig_inj: "hexdig (a mod 16) = hexdig (b mod 16) \<Longrightarrow> a mod 16 = b mod 16"
  by (auto simp: hexdig_def split: if_splits)

lemma hex_fixed_inj: "hex_fixed k a = hex_fixed k b \<Longrightarrow> a mod 16 ^ k = b mod 16 ^ k"
proof (induction k arbitrary: a b)
  case (Suc k)
  then have "hex_fixed k (a div 16) = hex_fixed k (b div 16)" "hexdig (a mod 16) = hexdig (b mod 16)"
    by simp_all
  from Suc.IH [OF this(1)] hexdig_inj [OF this(2)] show ?case by (simp add: mod_mult2_eq)
qed simp

lemma hexdig_alphanumeric: "is_ascii_alphanumeric (hexdig (n mod 16))"
proof -
  have "n mod 16 < 16" by simp
  then show ?thesis by (auto simp: hexdig_def is_ascii_alphanumeric_def)
qed

lemma hex_fixed_alphanumeric: "c \<in> set (hex_fixed k n) \<Longrightarrow> is_ascii_alphanumeric c"
  by (induction k arbitrary: n) (auto simp: hexdig_alphanumeric)

section \<open>Identity\<close>

type_synonym pane_id = u32
type_synonym pane_generation = u32

definition TOKEN_BYTES :: nat where
  "TOKEN_BYTES = 16"

datatype pane_token = PaneToken (as_str: rstring)

datatype rng_error = RngUnavailable

text \<open>
  \<open>fill\<close> is the answer of \<^verbatim>\<open>getrandom::fill\<close> for a buffer of \<open>TOKEN_BYTES\<close> bytes.
\<close>

definition hex_of_bytes :: "u8 list \<Rightarrow> rstring" where
  "hex_of_bytes bytes = concat (map (\<lambda>b. hex_fixed 2 (unat b)) bytes)"

definition pane_token_new :: "u8 list option \<Rightarrow> rng_error + pane_token" where
  "pane_token_new fill =
     (case fill of
        None \<Rightarrow> Inl RngUnavailable
      | Some bytes \<Rightarrow> Inr (PaneToken (hex_of_bytes bytes)))"

definition FIRST_GENERATION :: pane_generation where
  "FIRST_GENERATION = 1"

record pane_identity =
  id_token :: pane_token
  id_generation :: pane_generation

definition pane_identity_new :: "u8 list option \<Rightarrow> rng_error + pane_identity" where
  "pane_identity_new fill =
     (case pane_token_new fill of
        Inl e \<Rightarrow> Inl e
      | Inr t \<Rightarrow> Inr \<lparr>id_token = t, id_generation = FIRST_GENERATION\<rparr>)"

definition advance :: "pane_identity \<Rightarrow> pane_identity" where
  "advance i = i\<lparr>id_generation := saturating_add32 (id_generation i) 1\<rparr>"

text \<open>The runtime directory of a hub: FNV-1a over the bytes of its path, as 16 hex digits.\<close>

definition FNV_OFFSET :: u64 where
  "FNV_OFFSET = 0xcbf29ce484222325"

definition FNV_PRIME :: u64 where
  "FNV_PRIME = 0x00000100000001b3"

definition fnv_step :: "u64 \<Rightarrow> u8 \<Rightarrow> u64" where
  "fnv_step h b = (h XOR ucast b) * FNV_PRIME"

definition hub_key :: "rstring \<Rightarrow> rstring" where
  "hub_key cwd = hex_fixed 16 (unat (foldl fnv_step FNV_OFFSET (str_bytes cwd)))"

definition plugin_runtime_dir :: "rstring option \<Rightarrow> rstring option \<Rightarrow> rstring \<Rightarrow> rstring option" where
  "plugin_runtime_dir xdg_runtime_dir home_dir cwd =
     (let base = (case xdg_runtime_dir of
                    Some dir \<Rightarrow> if dir \<noteq> [] then Some (path_join dir (lit ''nightcrow'')) else
                        map_option (\<lambda>h. path_join (path_join h (lit ''.nightcrow'')) (lit ''run'')) home_dir
                  | None \<Rightarrow>
                      map_option (\<lambda>h. path_join (path_join h (lit ''.nightcrow'')) (lit ''run'')) home_dir)
      in map_option (\<lambda>b. path_join b (hub_key cwd)) base)"

section \<open>Slots\<close>

record pane_slot =
  slot_identity :: pane_identity
  slot_command :: "rstring option"
  slot_last_output :: instant

type_synonym pane_slots = "(pane_id \<times> pane_slot) list"

definition idle_for :: "pane_slot \<Rightarrow> instant \<Rightarrow> duration" where
  "idle_for s now = now - slot_last_output s"

definition slots_insert ::
  "pane_id \<Rightarrow> pane_identity \<Rightarrow> rstring option \<Rightarrow> instant \<Rightarrow> pane_slots \<Rightarrow> pane_slots" where
  "slots_insert i ident command now m =
     bt_insert i \<lparr>slot_identity = ident, slot_command = command, slot_last_output = now\<rparr> m"

definition slots_remove :: "pane_id \<Rightarrow> pane_slots \<Rightarrow> pane_slots" where
  "slots_remove i m = bt_remove i m"

definition slots_get :: "pane_slots \<Rightarrow> pane_id \<Rightarrow> pane_slot option" where
  "slots_get m i = map_of m i"

definition mark_output :: "pane_id \<Rightarrow> instant \<Rightarrow> pane_slots \<Rightarrow> pane_slots" where
  "mark_output i now m =
     (case map_of m i of
        Some s \<Rightarrow> bt_insert i (s\<lparr>slot_last_output := now\<rparr>) m
      | None \<Rightarrow> m)"

definition find_by_token :: "pane_slots \<Rightarrow> pane_token \<Rightarrow> pane_id option" where
  "find_by_token m t = bt_find (\<lambda>s. id_token (slot_identity s) = t) m"

section \<open>The command line of a relaunch\<close>

definition MAX_RESUME_ARGS :: nat where
  "MAX_RESUME_ARGS = 6"

definition MAX_RESUME_ARG_LEN :: nat where
  "MAX_RESUME_ARG_LEN = 256"

definition is_safe_arg_char :: "rchar \<Rightarrow> bool" where
  "is_safe_arg_char c \<longleftrightarrow> is_ascii_alphanumeric c \<or> c \<in> set (lit ''._-:/=@+'')"

datatype resume_error =
    NoStartupCommand
  | TooManyArgs nat
  | EmptyArg
  | ArgTooLong nat
  | ArgBadChars rstring
  | ArgNotAllowed rstring

definition requires_approval :: "nat \<Rightarrow> rstring \<Rightarrow> bool" where
  "requires_approval index arg \<longleftrightarrow> index = 0 \<or> (arg \<noteq> [] \<and> (hd arg = 45 \<or> hd arg = 47))"

definition check_arg :: "rstring list \<Rightarrow> nat \<Rightarrow> rstring \<Rightarrow> resume_error option" where
  "check_arg allowed index arg =
     (if arg = [] then Some EmptyArg
      else if str_len arg > MAX_RESUME_ARG_LEN then Some (ArgTooLong (str_len arg))
      else if \<not> list_all is_safe_arg_char arg then Some (ArgBadChars arg)
      else if requires_approval index arg \<and> arg \<notin> set allowed then Some (ArgNotAllowed arg)
      else None)"

fun append_args :: "rstring list \<Rightarrow> nat \<Rightarrow> rstring \<Rightarrow> rstring list \<Rightarrow> resume_error + rstring" where
  "append_args allowed index line [] = Inr line"
| "append_args allowed index line (arg # args) =
     (case check_arg allowed index arg of
        Some e \<Rightarrow> Inl e
      | None \<Rightarrow> append_args allowed (Suc index) (line @ [32] @ arg) args)"

definition resume_command_line ::
  "rstring option \<Rightarrow> rstring list \<Rightarrow> rstring list \<Rightarrow> resume_error + rstring" where
  "resume_command_line base resume_args allowed =
     (case base of
        None \<Rightarrow> Inl NoStartupCommand
      | Some b \<Rightarrow>
          if resume_args = [] then Inr b
          else if length resume_args > MAX_RESUME_ARGS then Inl (TooManyArgs (length resume_args))
          else append_args allowed 0 b resume_args)"

section \<open>Tokens and generations\<close>

lemma length_hex_of_bytes: "length (hex_of_bytes bytes) = 2 * length bytes"
  by (induction bytes) (auto simp: hex_of_bytes_def)

lemma hex_of_bytes_inj: "hex_of_bytes xs = hex_of_bytes ys \<Longrightarrow> length xs = length ys \<Longrightarrow> xs = ys"
proof (induction xs ys rule: list_induct2')
  case (4 x xs y ys)
  then have hex: "hex_fixed 2 (unat x) = hex_fixed 2 (unat y)" and tl: "hex_of_bytes xs = hex_of_bytes ys"
    by (simp_all add: hex_of_bytes_def append_eq_append_conv)
  have "unat x mod 16 ^ 2 = unat y mod 16 ^ 2" using hex by (rule hex_fixed_inj)
  moreover have "unat x < 256" "unat y < 256"
    using unsigned_less [of x] unsigned_less [of y] by simp_all
  ultimately have "x = y" by (simp add: word_unat_eq_iff)
  with 4 tl show ?case by simp
qed simp_all

lemma hex_of_bytes_alphanumeric: "c \<in> set (hex_of_bytes bytes) \<Longrightarrow> is_ascii_alphanumeric c"
  by (auto simp: hex_of_bytes_def hex_fixed_alphanumeric)

text \<open>
  No entropy is lost in minting a token: two tokens minted from full buffers are equal only if
  the operating system returned the same bytes, and a token is 32 lower-case hexadecimal
  characters, so it needs no quoting in an environment variable or a log line.
\<close>

theorem pane_token_faithful:
  assumes "length a = TOKEN_BYTES" "length b = TOKEN_BYTES"
    and "pane_token_new (Some a) = Inr s" "pane_token_new (Some b) = Inr t"
  shows "(s = t \<longleftrightarrow> a = b) \<and> length (as_str s) = 32 \<and> list_all is_ascii_alphanumeric (as_str s)"
proof -
  have "s = PaneToken (hex_of_bytes a)" "t = PaneToken (hex_of_bytes b)"
    using assms(3,4) by (simp_all add: pane_token_new_def)
  then show ?thesis
    using assms(1,2) hex_of_bytes_inj [of a b]
    by (auto simp: length_hex_of_bytes TOKEN_BYTES_def list_all_iff hex_of_bytes_alphanumeric)
qed

theorem pane_token_faithful_witness:
  "length (as_str (PaneToken (hex_of_bytes (replicate 16 255)))) = 32"
  using pane_token_faithful [of "replicate 16 255" "replicate 16 255"
      "PaneToken (hex_of_bytes (replicate 16 255))" "PaneToken (hex_of_bytes (replicate 16 255))"]
  by (simp add: TOKEN_BYTES_def pane_token_new_def)

lemma unat_advance: "unat (id_generation (advance i)) = min (unat (id_generation i) + 1) (2 ^ 32 - 1)"
  by (simp add: advance_def unat_saturating_add32)

lemma advance_token [simp]: "id_token (advance i) = id_token i"
  by (simp add: advance_def)

lemma unat_advances:
  "unat (id_generation ((advance ^^ n) i)) = min (unat (id_generation i) + n) (2 ^ 32 - 1)"
proof (induction n)
  case 0
  then show ?case using unat_less_self [of "id_generation i"] by simp
next
  case (Suc n)
  then show ?case by (simp add: unat_advance)
qed

text \<open>
  A generation names one spawn of a slot: starting from a fresh identity, the generations after
  different numbers of relaunches are different, up to the point where the counter
  saturates, and the counter never moves backwards, so a command about a replaced process
  is never mistaken for a current one. The token is the same throughout.
\<close>

theorem generation_names_spawn:
  assumes "pane_identity_new fill = Inr i" "m < n" "m < 2 ^ 32 - 2"
  shows "unat (id_generation ((advance ^^ m) i)) < unat (id_generation ((advance ^^ n) i))
    \<and> id_token ((advance ^^ n) i) = id_token i"
proof -
  have "unat (id_generation i) = 1"
    using assms(1) by (auto simp: pane_identity_new_def FIRST_GENERATION_def split: sum.splits)
  moreover have "id_token ((advance ^^ n) i) = id_token i"
    by (induction n) simp_all
  ultimately show ?thesis using assms(2,3) by (simp add: unat_advances)
qed

theorem generation_names_spawn_witness:
  "unat (id_generation ((advance ^^ 0) \<lparr>id_token = PaneToken [], id_generation = 1\<rparr>))
     < unat (id_generation ((advance ^^ 3) \<lparr>id_token = PaneToken [], id_generation = 1\<rparr>))"
  using generation_names_spawn
    [of "Some []" "\<lparr>id_token = PaneToken [], id_generation = 1\<rparr>" 0 3]
  by (simp add: pane_identity_new_def pane_token_new_def hex_of_bytes_def FIRST_GENERATION_def)

lemma length_hub_key: "length (hub_key cwd) = 16"
  by (simp add: hub_key_def)

section \<open>The slot table\<close>

definition tokens_distinct :: "pane_slots \<Rightarrow> bool" where
  "tokens_distinct m \<longleftrightarrow> (\<forall>i j s t. slots_get m i = Some s \<longrightarrow> slots_get m j = Some t \<longrightarrow>
     id_token (slot_identity s) = id_token (slot_identity t) \<longrightarrow> i = j)"

definition slots_wf :: "pane_slots \<Rightarrow> bool" where
  "slots_wf m \<longleftrightarrow> bt_wf m \<and> tokens_distinct m"

lemma find_by_token_iff:
  assumes "slots_wf m"
  shows "find_by_token m t = Some i \<longleftrightarrow>
    (\<exists>s. slots_get m i = Some s \<and> id_token (slot_identity s) = t)"
proof
  assume "find_by_token m t = Some i"
  with assms show "\<exists>s. slots_get m i = Some s \<and> id_token (slot_identity s) = t"
    unfolding find_by_token_def slots_get_def slots_wf_def by (auto dest: bt.search_Some)
next
  assume "\<exists>s. slots_get m i = Some s \<and> id_token (slot_identity s) = t"
  with assms show "find_by_token m t = Some i"
    unfolding find_by_token_def slots_get_def slots_wf_def tokens_distinct_def
    by (auto intro!: bt.search_unique)
qed

lemma slots_wf_insert:
  assumes "slots_wf m" "\<And>j s. slots_get m j = Some s \<Longrightarrow> j \<noteq> i \<Longrightarrow> id_token (slot_identity s) \<noteq> id_token ident"
  shows "slots_wf (slots_insert i ident cmd now m)"
  using assms
  by (fastforce simp: slots_wf_def tokens_distinct_def slots_insert_def slots_get_def bt.get_put bt.wf_put)

lemma slots_wf_remove: "slots_wf m \<Longrightarrow> slots_wf (slots_remove i m)"
  by (auto simp: slots_wf_def tokens_distinct_def slots_remove_def slots_get_def bt.get_del bt.wf_del
      split: if_splits)

lemma slots_get_mark_output:
  "slots_wf m \<Longrightarrow> slots_get (mark_output i now m) j =
     (if i = j then map_option (slot_last_output_update (\<lambda>_. now)) (slots_get m j) else slots_get m j)"
  by (auto simp: mark_output_def slots_get_def slots_wf_def bt.get_put split: option.splits)

lemma slots_wf_mark_output: "slots_wf m \<Longrightarrow> slots_wf (mark_output i now m)"
  using slots_get_mark_output [of m i now]
  by (auto simp: slots_wf_def tokens_distinct_def mark_output_def bt.wf_put split: option.splits if_splits)

text \<open>
  Output from a pane never changes which pane a token names, and it restarts that pane's quiet
  period and no other's.
\<close>

theorem mark_output_effect:
  assumes "slots_wf m" "slots_get m i = Some s"
  shows "find_by_token (mark_output i now m) = find_by_token m
    \<and> map_option (\<lambda>s. idle_for s now) (slots_get (mark_output i now m) i) = Some 0
    \<and> (\<forall>j. j \<noteq> i \<longrightarrow> slots_get (mark_output i now m) j = slots_get m j)"
proof -
  have "find_by_token (mark_output i now m) t = find_by_token m t" for t
  proof -
    have "find_by_token (mark_output i now m) t = Some j \<longleftrightarrow> find_by_token m t = Some j" for j
      using assms(1)
      by (auto simp: find_by_token_iff slots_wf_mark_output slots_get_mark_output split: if_splits)
    then show ?thesis by (metis not_None_eq)
  qed
  with assms show ?thesis by (auto simp: slots_get_mark_output idle_for_def)
qed

theorem mark_output_effect_witness:
  "(let m = slots_insert 1 \<lparr>id_token = PaneToken [65], id_generation = 1\<rparr> None 5 []
    in find_by_token (mark_output 1 9 m) (PaneToken [65]) = find_by_token m (PaneToken [65]))"
proof -
  let ?m = "slots_insert 1 \<lparr>id_token = PaneToken [65], id_generation = 1\<rparr> None 5 []"
  have "slots_wf ?m" by (rule slots_wf_insert) (simp_all add: slots_wf_def tokens_distinct_def slots_get_def)
  moreover have "slots_get ?m 1 = Some \<lparr>slot_identity = \<lparr>id_token = PaneToken [65], id_generation = 1\<rparr>,
      slot_command = None, slot_last_output = 5\<rparr>"
    by (simp add: slots_get_def slots_insert_def)
  ultimately show ?thesis using mark_output_effect [of ?m 1] by (simp add: Let_def)
qed

section \<open>What a relaunch may run\<close>

definition arg_ok :: "rstring list \<Rightarrow> nat \<Rightarrow> rstring \<Rightarrow> bool" where
  "arg_ok allowed index arg \<longleftrightarrow> arg \<noteq> [] \<and> str_len arg \<le> MAX_RESUME_ARG_LEN
     \<and> list_all is_safe_arg_char arg \<and> (requires_approval index arg \<longrightarrow> arg \<in> set allowed)"

lemma check_arg_None: "check_arg allowed index arg = None \<longleftrightarrow> arg_ok allowed index arg"
  by (auto simp: check_arg_def arg_ok_def)

lemma append_args_Inr:
  "append_args allowed index line args = Inr out \<longleftrightarrow>
     (\<forall>i < length args. arg_ok allowed (index + i) (args ! i)) \<and> out = line @ concat (map (\<lambda>a. 32 # a) args)"
proof (induction allowed index line args rule: append_args.induct)
  case (2 allowed index line arg args)
  show ?case
  proof (cases "check_arg allowed index arg")
    case None
    moreover from None have "arg_ok allowed index arg" by (simp add: check_arg_None)
    ultimately show ?thesis using 2 by (auto simp: All_less_Suc2)
  next
    case (Some e)
    moreover from Some have "\<not> arg_ok allowed index arg" by (simp flip: check_arg_None)
    ultimately show ?thesis by (auto simp: All_less_Suc2)
  qed
qed auto

lemma resume_line_Inr:
  "resume_command_line base args allowed = Inr line \<longleftrightarrow>
     (\<exists>b. base = Some b \<and> length args \<le> MAX_RESUME_ARGS
        \<and> (\<forall>i < length args. arg_ok allowed i (args ! i))
        \<and> line = b @ concat (map (\<lambda>a. 32 # a) args))"
  by (auto simp: resume_command_line_def append_args_Inr split: option.splits)

text \<open>
  \<^bold>\<open>C26\<close>. The exact condition under which a relaunch is given a command line, and the line it
  is given: the pane's own configured command, unchanged, followed by at most six
  arguments, each separated by one space, non-empty, at most 256 bytes, made of safe
  characters only, and on the operator's list when it leads or looks like an option.
\<close>

theorem resume_command_line_iff:
  "resume_command_line base args allowed = Inr line \<longleftrightarrow>
     (\<exists>b. base = Some b \<and> length args \<le> MAX_RESUME_ARGS
        \<and> (\<forall>i < length args. arg_ok allowed i (args ! i))
        \<and> line = b @ concat (map (\<lambda>a. 32 # a) args))"
  by (rule resume_line_Inr)

theorem resume_command_line_iff_witness:
  "resume_command_line (Some (lit ''codex'')) [lit ''resume'', lit ''0a-1''] [lit ''resume'']
     = Inr (lit ''codex resume 0a-1'')"
proof -
  have "\<forall>i < length [lit ''resume'', lit ''0a-1''].
    arg_ok [lit ''resume''] i ([lit ''resume'', lit ''0a-1''] ! i)"
    by (simp add: All_less_Suc2 arg_ok_def MAX_RESUME_ARG_LEN_def char_len_def utf8_bytes_def
        is_safe_arg_char_def is_ascii_alphanumeric_def requires_approval_def)
  then show ?thesis
    using resume_command_line_iff [of "Some (lit ''codex'')" "[lit ''resume'', lit ''0a-1'']" "[lit ''resume'']"]
    by (simp add: MAX_RESUME_ARGS_def)
qed

text \<open>
  The characters a POSIX shell gives a meaning of their own, by code point: double and single
  quote, dollar, backtick, semicolon, pipe, ampersand, angle brackets, parentheses, braces,
  star, question mark, exclamation mark, tilde, hash, backslash, and the line ends and NUL.
\<close>

definition shell_syntax :: "rchar set" where
  "shell_syntax = {34, 39, 36, 96, 59, 124, 38, 60, 62, 40, 41, 123, 125, 42, 63, 33, 126, 35, 92, 10, 13, 0}"

text \<open>
  A relaunch cannot smuggle shell syntax: past the operator's own command, the line holds
  only letters, digits, the eight listed punctuation characters and the separating spaces,
  so no quote, dollar sign, backtick, semicolon, pipe or newline.
\<close>

theorem resume_line_no_shell_syntax:
  assumes "resume_command_line (Some b) args allowed = Inr line"
  shows "\<exists>added. line = b @ added \<and> list_all (\<lambda>c. is_safe_arg_char c \<or> c = 32) added
    \<and> set added \<inter> shell_syntax = {}"
proof -
  obtain ok: "\<forall>i < length args. arg_ok allowed i (args ! i)"
    and line: "line = b @ concat (map (\<lambda>a. 32 # a) args)"
    using assms append_args_Inr [of allowed 0 b args line]
    by (auto simp: resume_command_line_def split: if_splits)
  have "list_all is_safe_arg_char a" if "a \<in> set args" for a
    using that ok by (auto simp: in_set_conv_nth arg_ok_def)
  then have safe: "is_safe_arg_char c \<or> c = 32" if "c \<in> set (concat (map (\<lambda>a. 32 # a) args))" for c
    using that by (auto simp: list_all_iff split: if_splits)
  have "\<not> (is_safe_arg_char c \<or> c = 32)"
    if "c \<in> shell_syntax" for c
    using that by (auto simp: shell_syntax_def is_safe_arg_char_def is_ascii_alphanumeric_def)
  with safe have "list_all (\<lambda>c. is_safe_arg_char c \<or> c = 32) (concat (map (\<lambda>a. 32 # a) args))"
    "set (concat (map (\<lambda>a. 32 # a) args)) \<inter> shell_syntax = {}"
    unfolding list_all_iff by blast+
  with line show ?thesis by blast
qed

theorem resume_line_no_shell_syntax_witness:
  "\<exists>added. lit ''codex resume'' = lit ''codex'' @ added \<and> list_all (\<lambda>c. is_safe_arg_char c \<or> c = 32) added"
proof -
  have "resume_command_line (Some (lit ''codex'')) [lit ''resume''] [lit ''resume''] = Inr (lit ''codex resume'')"
    by (simp add: resume_command_line_def MAX_RESUME_ARGS_def check_arg_def MAX_RESUME_ARG_LEN_def
        char_len_def utf8_bytes_def is_safe_arg_char_def is_ascii_alphanumeric_def)
  from resume_line_no_shell_syntax [OF this] show ?thesis by blast
qed

end
