(* ===== verification/Plugin_Protocol.thy ===== *)
theory Plugin_Protocol
  imports Pane_Identity
begin

text \<open>
  The line protocol between the host and a plugin process, \<^verbatim>\<open>src/plugin/protocol.rs\<close>. JSON
  itself (\<^verbatim>\<open>serde_json\<close>) is a parameter: \<open>to_string\<close> renders an event, \<open>from_str\<close> parses a
  command. What is modelled is everything the module does around it: the size and version
  gates, blank lines, the bound on typed input, and the check that a line is one frame.
\<close>

definition PROTOCOL_VERSION :: u32 where
  "PROTOCOL_VERSION = 3"

definition MAX_LINE_BYTES :: nat where
  "MAX_LINE_BYTES = 64 * 1024"

definition MAX_INPUT_BYTES :: nat where
  "MAX_INPUT_BYTES = 8 * 1024"

datatype plugin_event =
    PaneOpened u32 pane_token pane_generation "rstring option" "rstring option" rstring
  | PaneOutput u32 pane_token pane_generation rstring
  | PaneIdle u32 pane_token pane_generation u64
  | PaneExited u32 pane_token pane_generation
  | PaneClosed u32 pane_token pane_generation
  | UserInput u32 pane_token pane_generation
  | Shutdown u32

datatype log_level = LogError | LogWarn | LogInfo | LogDebug

text \<open>Fields in the source's order: version, token, generation, then the command's own.\<close>

datatype plugin_command =
    SendInput u32 pane_token pane_generation rstring
  | Relaunch u32 pane_token pane_generation "rstring list"
  | Status u32 pane_token pane_generation rstring "rstring option" "int option" u32
  | WatchPane u32 pane_token
  | Attention u32 pane_token pane_generation
  | Log u32 log_level rstring

fun cmd_version :: "plugin_command \<Rightarrow> u32" where
  "cmd_version (SendInput v _ _ _) = v"
| "cmd_version (Relaunch v _ _ _) = v"
| "cmd_version (Status v _ _ _ _ _ _) = v"
| "cmd_version (WatchPane v _) = v"
| "cmd_version (Attention v _ _) = v"
| "cmd_version (Log v _ _) = v"

fun cmd_token :: "plugin_command \<Rightarrow> pane_token option" where
  "cmd_token (SendInput _ t _ _) = Some t"
| "cmd_token (Relaunch _ t _ _) = Some t"
| "cmd_token (Status _ t _ _ _ _ _) = Some t"
| "cmd_token (WatchPane _ t) = Some t"
| "cmd_token (Attention _ t _) = Some t"
| "cmd_token (Log _ _ _) = None"

fun cmd_generation :: "plugin_command \<Rightarrow> pane_generation option" where
  "cmd_generation (SendInput _ _ g _) = Some g"
| "cmd_generation (Relaunch _ _ g _) = Some g"
| "cmd_generation (Status _ _ g _ _ _ _) = Some g"
| "cmd_generation (Attention _ _ g) = Some g"
| "cmd_generation (WatchPane _ _) = None"
| "cmd_generation (Log _ _ _) = None"

datatype protocol_error =
    EncodeFailed
  | EventHasNewline
  | LineTooLong nat
  | BlankLine
  | Malformed
  | WrongVersion u32
  | InputOverLimit nat

fun validate :: "plugin_command \<Rightarrow> protocol_error + unit" where
  "validate (SendInput _ _ _ data) =
     (if str_len data > MAX_INPUT_BYTES then Inl (InputOverLimit (str_len data)) else Inr ())"
| "validate _ = Inr ()"

definition encode_event :: "(plugin_event \<Rightarrow> rstring option) \<Rightarrow> plugin_event \<Rightarrow> protocol_error + rstring" where
  "encode_event to_string ev =
     (case to_string ev of
        None \<Rightarrow> Inl EncodeFailed
      | Some line \<Rightarrow> if 10 \<in> set line then Inl EventHasNewline else Inr line)"

definition is_blank_line :: "rstring \<Rightarrow> bool" where
  "is_blank_line line \<longleftrightarrow> list_all is_whitespace line"

definition decode_command ::
  "(rstring \<Rightarrow> plugin_command option) \<Rightarrow> rstring \<Rightarrow> protocol_error + plugin_command" where
  "decode_command from_str line =
     (if str_len line > MAX_LINE_BYTES then Inl (LineTooLong (str_len line))
      else if is_blank_line line then Inl BlankLine
      else case from_str line of
          None \<Rightarrow> Inl Malformed
        | Some command \<Rightarrow>
            if cmd_version command \<noteq> PROTOCOL_VERSION then Inl (WrongVersion (cmd_version command))
            else case validate command of
                Inl e \<Rightarrow> Inl e
              | Inr _ \<Rightarrow> Inr command)"

section \<open>What survives decoding\<close>

text \<open>How many bytes of typed input a command carries.\<close>

fun input_bytes :: "plugin_command \<Rightarrow> nat" where
  "input_bytes (SendInput _ _ _ data) = str_len data"
| "input_bytes _ = 0"

lemma validate_eq:
  "validate c = (if input_bytes c \<le> MAX_INPUT_BYTES then Inr () else Inl (InputOverLimit (input_bytes c)))"
  by (cases c) auto

text \<open>
  Exactly which lines become commands: those within 64 KiB that are not blank, that the JSON
  parser accepts, that speak this host's protocol version, and whose typed input, if any,
  is within 8 KiB. Nothing else reaches the guard, and the command is the parsed one.
\<close>

theorem decode_command_iff:
  "decode_command from_str line = Inr c \<longleftrightarrow>
     str_len line \<le> MAX_LINE_BYTES \<and> \<not> is_blank_line line \<and> from_str line = Some c
     \<and> cmd_version c = PROTOCOL_VERSION \<and> input_bytes c \<le> MAX_INPUT_BYTES"
  by (auto simp: decode_command_def validate_eq split: option.splits)

lemma encode_event_one_line: "encode_event to_string ev = Inr line \<Longrightarrow> 10 \<notin> set line"
  by (auto simp: encode_event_def split: option.splits if_splits)

end
