(* ===== verification/Contracts.thy ===== *)
theory Contracts
  imports Prelude
begin

text \<open>
  The contracts several components share, as locales.

  \<^item> \<open>event_machine\<close>: a deterministic machine whose steps keep an invariant, under a guard
    on events (a clock that does not run backwards, for instance). The client lemma lifts
    one step to every run.
  \<^item> \<open>rate_window\<close>: an admission check over a sliding window. Whatever the limiter stores,
    the law is that an admission is refused once \<open>cap\<close> recorded entries are inside the
    window and that recording never forgets an admission that could still matter. The
    client lemma is the bound the operator cares about: in no interval of the window's
    length are more than \<open>cap\<close> requests admitted.
\<close>

section \<open>Machines with an invariant\<close>

fun run_ok :: "('s \<Rightarrow> 'e \<Rightarrow> bool) \<Rightarrow> ('s \<Rightarrow> 'e \<Rightarrow> 's) \<Rightarrow> 's \<Rightarrow> 'e list \<Rightarrow> bool" where
  "run_ok ok step s [] = True"
| "run_ok ok step s (e # es) = (ok s e \<and> run_ok ok step (step s e) es)"

definition run :: "('s \<Rightarrow> 'e \<Rightarrow> 's) \<Rightarrow> 's \<Rightarrow> 'e list \<Rightarrow> 's" where
  "run step s es = foldl step s es"

lemma run_simps [simp]:
  "run step s [] = s"
  "run step s (e # es) = run step (step s e) es"
  "run step s (es @ fs) = run step (run step s es) fs"
  by (simp_all add: run_def)

lemma run_ok_append:
  "run_ok ok step s (es @ fs) \<longleftrightarrow> run_ok ok step s es \<and> run_ok ok step (run step s es) fs"
  by (induction es arbitrary: s) auto

lemma run_ok_True [simp]: "run_ok (\<lambda>_ _. True) step s es"
  by (induction es arbitrary: s) auto

locale event_machine =
  fixes ok :: "'s \<Rightarrow> 'e \<Rightarrow> bool"
    and step :: "'s \<Rightarrow> 'e \<Rightarrow> 's"
    and inv :: "'s \<Rightarrow> bool"
  assumes step_inv: "inv s \<Longrightarrow> ok s e \<Longrightarrow> inv (step s e)"
begin

lemma run_inv: "inv s \<Longrightarrow> run_ok ok step s es \<Longrightarrow> inv (run step s es)"
  by (induction es arbitrary: s) (auto intro: step_inv)

end

section \<open>Sliding-window admission\<close>

definition in_window :: "nat \<Rightarrow> nat \<Rightarrow> nat list \<Rightarrow> nat" where
  "in_window w now ts = length (filter (\<lambda>t. now - t < w) ts)"

definition in_interval :: "nat \<Rightarrow> nat \<Rightarrow> nat list \<Rightarrow> nat" where
  "in_interval w from ts = length (filter (\<lambda>t. from \<le> t \<and> t < from + w) ts)"

lemma in_window_simps [simp]:
  "in_window w now [] = 0"
  "in_window w now (ts @ us) = in_window w now ts + in_window w now us"
  "in_window w now [t] = (if now - t < w then 1 else 0)"
  by (simp_all add: in_window_def)

lemma in_interval_simps [simp]:
  "in_interval w from [] = 0"
  "in_interval w from (ts @ us) = in_interval w from ts + in_interval w from us"
  "in_interval w from [t] = (if from \<le> t \<and> t < from + w then 1 else 0)"
  by (simp_all add: in_interval_def)

lemma in_interval_le_in_window:
  assumes "now < from + w" "\<forall>t \<in> set ts. t \<le> now"
  shows "in_interval w from ts \<le> in_window w now ts"
  using assms(2)
proof (induction ts)
  case (Cons t ts)
  then show ?case using assms(1) by (auto simp: in_interval_def in_window_def)
qed simp

lemma in_window_retain [simp]:
  "now \<le> now' \<Longrightarrow> in_window w now' (filter (\<lambda>t. now - t < w) ts) = in_window w now' ts"
  by (simp only: in_window_def filter_window_absorb)

text \<open>The times at which a run of requests was admitted.\<close>

fun approvals :: "('s \<Rightarrow> nat \<Rightarrow> bool \<times> 's) \<Rightarrow> 's \<Rightarrow> nat list \<Rightarrow> nat list" where
  "approvals admit s [] = []"
| "approvals admit s (now # ts) =
     (case admit s now of (ok, s') \<Rightarrow>
        if ok then now # approvals admit s' ts else approvals admit s' ts)"

locale rate_window =
  fixes admit :: "'s \<Rightarrow> nat \<Rightarrow> bool \<times> 's"
    and seen :: "'s \<Rightarrow> nat list"
    and inv :: "'s \<Rightarrow> nat \<Rightarrow> bool"
    and w :: nat
    and cap :: nat
  assumes admit_below: "inv s t \<Longrightarrow> t \<le> now \<Longrightarrow> fst (admit s now) \<Longrightarrow> in_window w now (seen s) < cap"
    and remembers: "inv s t \<Longrightarrow> t \<le> now \<Longrightarrow> now \<le> now' \<Longrightarrow>
      min cap (in_window w now' (seen s) + (if fst (admit s now) \<and> now' - now < w then 1 else 0))
        \<le> in_window w now' (seen (snd (admit s now)))"
    and inv_admit: "inv s t \<Longrightarrow> t \<le> now \<Longrightarrow> inv (snd (admit s now)) now"
begin

definition covers :: "nat list \<Rightarrow> 's \<Rightarrow> nat \<Rightarrow> bool" where
  "covers h s t \<longleftrightarrow> inv s t \<and> (\<forall>u \<in> set h. u \<le> t) \<and>
     (\<forall>now \<ge> t. min cap (in_window w now h) \<le> in_window w now (seen s)) \<and>
     (\<forall>from. in_interval w from h \<le> cap)"

lemma covers_refuse:
  assumes "covers h s t" "t \<le> now" "\<not> fst (admit s now)"
  shows "covers h (snd (admit s now)) now"
proof -
  have "min cap (in_window w now' h) \<le> in_window w now' (seen (snd (admit s now)))"
    if "now \<le> now'" for now'
  proof -
    have "min cap (in_window w now' h) \<le> in_window w now' (seen s)"
      using assms(1,2) that by (auto simp: covers_def)
    moreover have "min cap (in_window w now' (seen s)) \<le> in_window w now' (seen (snd (admit s now)))"
      using remembers [of s t now now'] assms that by (auto simp: covers_def)
    ultimately show ?thesis by linarith
  qed
  moreover have "inv (snd (admit s now)) now"
    using assms by (auto simp: covers_def intro: inv_admit)
  ultimately show ?thesis
    using assms(1,2) by (auto simp: covers_def intro: order_trans)
qed

lemma covers_admit:
  assumes "covers h s t" "t \<le> now" "fst (admit s now)"
  shows "covers (h @ [now]) (snd (admit s now)) now"
proof -
  have le: "\<forall>u \<in> set h. u \<le> now"
    using assms(1,2) by (auto simp: covers_def)
  have room: "in_window w now h < cap"
    using admit_below [of s t now] assms by (force simp: covers_def)
  have "in_interval w from (h @ [now]) \<le> cap" for "from"
  proof (cases "from \<le> now \<and> now < from + w")
    case True
    then show ?thesis
      using in_interval_le_in_window [OF _ le, of "from" w] room by simp
  next
    case False
    then have "in_interval w from (h @ [now]) = in_interval w from h" by auto
    with assms(1) show ?thesis by (simp add: covers_def)
  qed
  moreover have "min cap (in_window w now' (h @ [now])) \<le> in_window w now' (seen (snd (admit s now)))"
    if "now \<le> now'" for now'
  proof -
    have "min cap (in_window w now' h) \<le> in_window w now' (seen s)"
      using assms(1,2) that by (auto simp: covers_def)
    moreover have "min cap (in_window w now' (seen s) + (if now' - now < w then 1 else 0))
      \<le> in_window w now' (seen (snd (admit s now)))"
      using remembers [of s t now now'] assms that by (simp add: covers_def)
    ultimately show ?thesis by (simp split: if_splits)
  qed
  moreover have "inv (snd (admit s now)) now"
    using assms by (auto simp: covers_def intro: inv_admit)
  ultimately show ?thesis using le by (auto simp: covers_def)
qed

lemma covers_bound:
  "covers h s t \<Longrightarrow> sorted (t # ts) \<Longrightarrow> in_interval w from (h @ approvals admit s ts) \<le> cap"
proof (induction ts arbitrary: h s t)
  case Nil
  then show ?case by (simp add: covers_def)
next
  case (Cons now ts)
  obtain ok s' where a: "admit s now = (ok, s')" by fastforce
  from Cons.prems have t: "t \<le> now" and ts: "sorted (now # ts)" by auto
  show ?case
  proof (cases ok)
    case True
    with Cons.prems(1) a t have "covers (h @ [now]) s' now"
      using covers_admit [of h s t now] by simp
    from Cons.IH [OF this ts] a True show ?thesis by simp
  next
    case False
    with Cons.prems(1) a t have "covers h s' now"
      using covers_refuse [of h s t now] by simp
    from Cons.IH [OF this ts] a False show ?thesis by simp
  qed
qed

lemma rate_bound:
  assumes "inv s t" "sorted (t # ts)"
  shows "in_interval w from (approvals admit s ts) \<le> cap"
proof -
  from assms(1) have "covers [] s t" by (simp add: covers_def)
  from covers_bound [OF this assms(2)] show ?thesis by simp
qed

end

end
