(* ===== verification/Plugin_Guard.thy ===== *)
theory Plugin_Guard
  imports Plugin_Protocol Contracts
begin

text \<open>
  The trust boundary between an untrusted plugin and the panes: \<^verbatim>\<open>src/plugin/guard.rs\<close> and
  its parts \<^verbatim>\<open>guard_budget.rs\<close> (sliding-window budgets per slot), \<^verbatim>\<open>guard_watch.rs\<close> (the one
  rule that widens what a plugin may see), \<^verbatim>\<open>guard_text.rs\<close> (control characters, log
  truncation) and \<^verbatim>\<open>guard_refusal.rs\<close> (the reasons for a refusal, as values; their rendering
  as log text is not modelled, and \<open>ResumeArgsRejected\<close> carries the error itself rather than
  its text). The guard's state is the record \<open>guard\<close>; \<open>judge\<close> is \<^verbatim>\<open>Guard::judge\<close>.
\<close>

section \<open>Text\<close>

definition MAX_LOG_MESSAGE_BYTES :: nat where
  "MAX_LOG_MESSAGE_BYTES = 2 * 1024"

definition is_forbidden_control :: "rchar \<Rightarrow> bool" where
  "is_forbidden_control c \<longleftrightarrow> is_control c \<and> c \<notin> {13, 10, 9}"

fun back_to_boundary :: "rstring \<Rightarrow> nat \<Rightarrow> nat" where
  "back_to_boundary s 0 = 0"
| "back_to_boundary s (Suc e) = (if is_char_boundary s (Suc e) then Suc e else back_to_boundary s e)"

definition truncate_message :: "rstring \<Rightarrow> rstring" where
  "truncate_message message =
     (if str_len message \<le> MAX_LOG_MESSAGE_BYTES then message
      else str_prefix message (back_to_boundary message MAX_LOG_MESSAGE_BYTES))"

section \<open>Budgets\<close>

record rate_limits =
  max_sends_per_window :: u32
  max_relaunches_per_window :: u32
  rl_window :: duration

definition DEFAULT_RATE_WINDOW :: duration where
  "DEFAULT_RATE_WINDOW = from_secs 60"

definition DEFAULT_MAX_SENDS :: u32 where
  "DEFAULT_MAX_SENDS = 5"

definition DEFAULT_MAX_RELAUNCHES :: u32 where
  "DEFAULT_MAX_RELAUNCHES = 3"

definition default_rate_limits :: rate_limits where
  "default_rate_limits =
     \<lparr>max_sends_per_window = DEFAULT_MAX_SENDS, max_relaunches_per_window = DEFAULT_MAX_RELAUNCHES,
      rl_window = DEFAULT_RATE_WINDOW\<rparr>"

datatype rate_action = RaSendInput | RaRelaunch

record pane_budget =
  pb_sends :: "instant list"
  pb_relaunches :: "instant list"

type_synonym budgets = "pane_token \<rightharpoonup> pane_budget"

definition budget_default :: pane_budget where
  "budget_default = \<lparr>pb_sends = [], pb_relaunches = []\<rparr>"

definition limit_of :: "rate_action \<Rightarrow> rate_limits \<Rightarrow> u32" where
  "limit_of a l = (case a of RaSendInput \<Rightarrow> max_sends_per_window l | RaRelaunch \<Rightarrow> max_relaunches_per_window l)"

definition stamps_of :: "rate_action \<Rightarrow> pane_budget \<Rightarrow> instant list" where
  "stamps_of a b = (case a of RaSendInput \<Rightarrow> pb_sends b | RaRelaunch \<Rightarrow> pb_relaunches b)"

definition set_stamps :: "rate_action \<Rightarrow> instant list \<Rightarrow> pane_budget \<Rightarrow> pane_budget" where
  "set_stamps a ts b = (case a of RaSendInput \<Rightarrow> b\<lparr>pb_sends := ts\<rparr> | RaRelaunch \<Rightarrow> b\<lparr>pb_relaunches := ts\<rparr>)"

text \<open>
  The body of \<^verbatim>\<open>try_spend\<close> on one list of stamps: prune, compare the length as a \<^verbatim>\<open>u32\<close>
  against the limit, push.
\<close>

definition charge :: "u32 \<Rightarrow> duration \<Rightarrow> instant list \<Rightarrow> instant \<Rightarrow> bool \<times> instant list" where
  "charge limit window stamps now =
     (let kept = filter (\<lambda>at. now - at < window) stamps
      in if (of_nat (length kept) :: u32) \<ge> limit then (False, kept) else (True, kept @ [now]))"

definition try_spend ::
  "pane_token \<Rightarrow> rate_action \<Rightarrow> rate_limits \<Rightarrow> instant \<Rightarrow> budgets \<Rightarrow> bool \<times> budgets" where
  "try_spend token action limits now m =
     (let budget = (case m token of None \<Rightarrow> budget_default | Some b \<Rightarrow> b);
          (ok, stamps) = charge (limit_of action limits) (rl_window limits) (stamps_of action budget) now
      in (ok, m(token \<mapsto> set_stamps action stamps budget)))"

definition clear :: "pane_token \<Rightarrow> budgets \<Rightarrow> budgets" where
  "clear token m = m(token := None)"

section \<open>Refusals and approvals\<close>

datatype refused =
    UnknownPane pane_token
  | NotOptedIn pane_id pane_token
  | StaleGeneration pane_id pane_generation pane_generation
  | PaneNotRunning pane_id
  | PaneBusy pane_id duration duration
  | InputTooLarge pane_id nat nat
  | ControlCharacter pane_id rchar
  | PaneStillRunning pane_id
  | NoLaunchCommand pane_id
  | ResumeArgsRejected pane_id resume_error
  | WatchNotAllowed pane_id pane_token
  | PaneWatchedByAnother pane_id
  | RateLimited pane_id rate_action u32 duration

datatype approved =
    OkSendInput pane_id "u8 list"
  | OkRelaunch pane_id "rstring list" rstring
  | OkStatus pane_id rstring "rstring option" "int option" u32
  | OkWatchPane pane_id
  | OkAttention pane_id
  | OkLog log_level rstring

record pane_facts =
  pf_pane :: pane_id
  pf_generation :: pane_generation
  pf_opted_in :: bool
  pf_watched_by_another :: bool
  pf_may_watch_on_signal :: bool
  pf_alive :: bool
  pf_idle :: duration
  pf_launch_command :: "rstring option"

record guard =
  g_min_idle :: duration
  g_limits :: rate_limits
  g_budgets :: budgets

definition guard_new :: "duration \<Rightarrow> rate_limits \<Rightarrow> guard" where
  "guard_new min_idle limits = \<lparr>g_min_idle = min_idle, g_limits = limits, g_budgets = Map.empty\<rparr>"

definition cancel :: "pane_token \<Rightarrow> guard \<Rightarrow> guard" where
  "cancel token g = g\<lparr>g_budgets := clear token (g_budgets g)\<rparr>"

definition spend ::
  "pane_token \<Rightarrow> pane_id \<Rightarrow> rate_action \<Rightarrow> rate_limits \<Rightarrow> instant \<Rightarrow> budgets \<Rightarrow> budgets \<times> (refused + unit)" where
  "spend token pane action limits now m =
     (let (ok, m') = try_spend token action limits now m
      in (m', if ok then Inr ()
              else Inl (RateLimited pane action (limit_of action limits) (rl_window limits))))"

section \<open>The rules\<close>

definition pane_facts_rule :: "pane_token \<Rightarrow> pane_generation \<Rightarrow> pane_facts option \<Rightarrow> refused + pane_facts" where
  "pane_facts_rule token generation facts =
     (case facts of
        None \<Rightarrow> Inl (UnknownPane token)
      | Some f \<Rightarrow>
          if \<not> pf_opted_in f then Inl (NotOptedIn (pf_pane f) token)
          else if generation \<noteq> pf_generation f
            then Inl (StaleGeneration (pf_pane f) generation (pf_generation f))
          else Inr f)"

definition judge_watch :: "pane_token \<Rightarrow> pane_facts option \<Rightarrow> refused + approved" where
  "judge_watch token facts =
     (case facts of
        None \<Rightarrow> Inl (UnknownPane token)
      | Some f \<Rightarrow>
          if \<not> pf_may_watch_on_signal f then Inl (WatchNotAllowed (pf_pane f) token)
          else if pf_watched_by_another f then Inl (PaneWatchedByAnother (pf_pane f))
          else if \<not> pf_alive f then Inl (PaneNotRunning (pf_pane f))
          else Inr (OkWatchPane (pf_pane f)))"

definition charged ::
  "guard \<Rightarrow> pane_token \<Rightarrow> pane_id \<Rightarrow> rate_action \<Rightarrow> instant \<Rightarrow> approved \<Rightarrow> guard \<times> (refused + approved)" where
  "charged g token pane action now ok =
     (let (m, r) = spend token pane action (g_limits g) now (g_budgets g)
      in (g\<lparr>g_budgets := m\<rparr>, case r of Inl e \<Rightarrow> Inl e | Inr _ \<Rightarrow> Inr ok))"

definition judge_send_input ::
  "guard \<Rightarrow> pane_token \<Rightarrow> pane_facts \<Rightarrow> rstring \<Rightarrow> instant \<Rightarrow> guard \<times> (refused + approved)" where
  "judge_send_input g token facts data now =
     (let pane = pf_pane facts
      in if \<not> pf_alive facts then (g, Inl (PaneNotRunning pane))
         else if pf_idle facts < g_min_idle g then (g, Inl (PaneBusy pane (pf_idle facts) (g_min_idle g)))
         else if str_len data > MAX_INPUT_BYTES
           then (g, Inl (InputTooLarge pane (str_len data) MAX_INPUT_BYTES))
         else case find is_forbidden_control data of
             Some bad \<Rightarrow> (g, Inl (ControlCharacter pane bad))
           | None \<Rightarrow> charged g token pane RaSendInput now (OkSendInput pane (str_bytes data)))"

definition judge_relaunch ::
  "guard \<Rightarrow> pane_token \<Rightarrow> pane_facts \<Rightarrow> rstring list \<Rightarrow> rstring list \<Rightarrow> instant \<Rightarrow> guard \<times> (refused + approved)" where
  "judge_relaunch g token facts resume_args allowed now =
     (let pane = pf_pane facts
      in if pf_alive facts then (g, Inl (PaneStillRunning pane))
         else if pf_launch_command facts = None then (g, Inl (NoLaunchCommand pane))
         else case resume_command_line (pf_launch_command facts) resume_args allowed of
             Inl e \<Rightarrow> (g, Inl (ResumeArgsRejected pane e))
           | Inr line \<Rightarrow> charged g token pane RaRelaunch now (OkRelaunch pane resume_args line))"

definition with_facts ::
  "guard \<Rightarrow> refused + pane_facts \<Rightarrow> (pane_facts \<Rightarrow> guard \<times> (refused + approved)) \<Rightarrow> guard \<times> (refused + approved)" where
  "with_facts g r k = (case r of Inl e \<Rightarrow> (g, Inl e) | Inr f \<Rightarrow> k f)"

fun judge ::
  "guard \<Rightarrow> plugin_command \<Rightarrow> pane_facts option \<Rightarrow> rstring list \<Rightarrow> instant \<Rightarrow> guard \<times> (refused + approved)" where
  "judge g (Log _ level message) facts allowed now = (g, Inr (OkLog level (truncate_message message)))"
| "judge g (SendInput _ token generation data) facts allowed now =
     with_facts g (pane_facts_rule token generation facts) (\<lambda>f. judge_send_input g token f data now)"
| "judge g (Relaunch _ token generation resume_args) facts allowed now =
     with_facts g (pane_facts_rule token generation facts)
       (\<lambda>f. judge_relaunch g token f resume_args allowed now)"
| "judge g (WatchPane _ token) facts allowed now = (g, judge_watch token facts)"
| "judge g (Attention _ token generation) facts allowed now =
     with_facts g (pane_facts_rule token generation facts) (\<lambda>f. (g, Inr (OkAttention (pf_pane f))))"
| "judge g (Status _ token generation state detail deadline attempt) facts allowed now =
     with_facts g (pane_facts_rule token generation facts)
       (\<lambda>f. (g, Inr (OkStatus (pf_pane f) state detail deadline attempt)))"

section \<open>Log messages\<close>

lemma back_to_boundary_le: "back_to_boundary s e \<le> e"
  by (induction s e rule: back_to_boundary.induct) auto

lemma back_to_boundary_ok: "is_char_boundary s (back_to_boundary s e)"
  by (induction s e rule: back_to_boundary.induct) auto

lemma back_to_boundary_greatest: "is_char_boundary s j \<Longrightarrow> j \<le> e \<Longrightarrow> j \<le> back_to_boundary s e"
  by (induction s e rule: back_to_boundary.induct) (auto simp: le_Suc_eq)

text \<open>
  A plugin's log line is kept to 2 KiB without breaking a character: the result is a
  prefix of the message, never longer than the limit, the message itself when it fits, and
  otherwise within three bytes of the limit.
\<close>

theorem truncate_message_bounds:
  "prefix (truncate_message m) m \<and> str_len (truncate_message m) \<le> MAX_LOG_MESSAGE_BYTES
   \<and> (if str_len m \<le> MAX_LOG_MESSAGE_BYTES then truncate_message m = m
      else MAX_LOG_MESSAGE_BYTES < str_len (truncate_message m) + 4)"
proof (cases "str_len m \<le> MAX_LOG_MESSAGE_BYTES")
  case True
  then show ?thesis by (simp add: truncate_message_def)
next
  case False
  let ?e = "back_to_boundary m MAX_LOG_MESSAGE_BYTES"
  have len: "str_len (truncate_message m) = ?e"
    using False by (simp add: truncate_message_def str_len_str_prefix back_to_boundary_ok)
  obtain j where "j \<le> MAX_LOG_MESSAGE_BYTES" "MAX_LOG_MESSAGE_BYTES < j + 4" "is_char_boundary m j"
    using char_boundary_near [of MAX_LOG_MESSAGE_BYTES m] False by auto
  then have "MAX_LOG_MESSAGE_BYTES < ?e + 4"
    using back_to_boundary_greatest by fastforce
  with False len back_to_boundary_le [of m MAX_LOG_MESSAGE_BYTES] show ?thesis
    by (simp add: truncate_message_def prefix_str_prefix)
qed

section \<open>Budgets are sliding windows\<close>

lemma charge_below:
  assumes "length stamps \<le> unat limit"
  shows "fst (charge limit window stamps now) \<longleftrightarrow> in_window window now stamps < unat limit"
proof -
  have "in_window window now stamps \<le> unat limit"
    using assms by (simp add: in_window_def length_filter_bound)
  with unat_less_self [of limit] have "in_window window now stamps < 2 ^ 32" by linarith
  then show ?thesis
    using of_nat_u32_less [of "in_window window now stamps" limit]
    by (auto simp: charge_def Let_def in_window_def not_le)
qed

lemma snd_charge:
  "snd (charge limit window stamps now) =
     filter (\<lambda>at. now - at < window) stamps @ (if fst (charge limit window stamps now) then [now] else [])"
  by (simp add: charge_def Let_def)

lemma length_charge:
  assumes "length stamps \<le> unat limit"
  shows "length (snd (charge limit window stamps now)) \<le> unat limit"
  using charge_below [OF assms, of window now] assms
  by (auto simp: snd_charge in_window_def length_filter_bound)

interpretation charge: rate_window "charge limit window" "\<lambda>stamps. stamps"
  "\<lambda>stamps _. length stamps \<le> unat limit" window "unat limit" for limit window
proof (unfold_locales, goal_cases)
  case (1 s t now)
  then show ?case by (simp add: charge_below)
next
  case (2 s t now now')
  then show ?case by (simp add: snd_charge)
next
  case (3 s t now)
  then show ?case by (simp add: length_charge)
qed

text \<open>The stamps a token's budget holds for an action; an absent entry is an empty budget.\<close>

definition token_stamps :: "rate_action \<Rightarrow> pane_token \<Rightarrow> guard \<Rightarrow> instant list" where
  "token_stamps a tk g = stamps_of a (case g_budgets g tk of None \<Rightarrow> budget_default | Some b \<Rightarrow> b)"

lemma stamps_set_stamps: "stamps_of a (set_stamps b ts p) = (if a = b then ts else stamps_of a p)"
  by (cases a; cases b) (simp_all add: stamps_of_def set_stamps_def)

definition charge_of :: "rate_action \<Rightarrow> guard \<Rightarrow> instant list \<Rightarrow> instant \<Rightarrow> bool \<times> instant list" where
  "charge_of a g = charge (limit_of a (g_limits g)) (rl_window (g_limits g))"

definition admits :: "rate_action \<Rightarrow> pane_token \<Rightarrow> guard \<Rightarrow> instant \<Rightarrow> bool" where
  "admits a tk g now \<longleftrightarrow> fst (charge_of a g (token_stamps a tk g) now)"

definition spent_guard :: "rate_action \<Rightarrow> pane_token \<Rightarrow> guard \<Rightarrow> instant \<Rightarrow> guard" where
  "spent_guard a tk g now = g\<lparr>g_budgets := snd (try_spend tk a (g_limits g) now (g_budgets g))\<rparr>"

lemma charged_eq:
  "charged g tk pane a now ok =
     (spent_guard a tk g now,
      if admits a tk g now then Inr ok
      else Inl (RateLimited pane a (limit_of a (g_limits g)) (rl_window (g_limits g))))"
  by (auto simp: charged_def spend_def try_spend_def spent_guard_def admits_def charge_of_def
      token_stamps_def Let_def split: prod.splits)

lemma spent_guard_limits [simp]: "g_limits (spent_guard a tk g now) = g_limits g"
  by (simp add: spent_guard_def)

lemma token_stamps_spent:
  "token_stamps b t (spent_guard a tk g now) =
     (if b = a \<and> t = tk then snd (charge_of a g (token_stamps a tk g) now) else token_stamps b t g)"
  by (auto simp: token_stamps_def spent_guard_def try_spend_def charge_of_def Let_def stamps_set_stamps
      split: prod.splits)

lemma token_stamps_cancel:
  "token_stamps a t (cancel tk g) = (if t = tk then [] else token_stamps a t g)"
  by (cases a) (simp_all add: token_stamps_def cancel_def clear_def budget_default_def stamps_of_def)

section \<open>What the guard approves\<close>

lemma pane_facts_rule_Inr:
  "pane_facts_rule tk gen facts = Inr f \<longleftrightarrow> facts = Some f \<and> pf_opted_in f \<and> gen = pf_generation f"
  by (auto simp: pane_facts_rule_def split: option.splits)

lemma with_facts_Inr:
  "with_facts g r k = (g', Inr ok) \<longleftrightarrow> (\<exists>f. r = Inr f \<and> k f = (g', Inr ok))"
  by (auto simp: with_facts_def split: sum.splits)

lemma judge_send_input_Inr:
  "judge_send_input g tk f data now = (g', Inr ok) \<longleftrightarrow>
     pf_alive f \<and> g_min_idle g \<le> pf_idle f \<and> str_len data \<le> MAX_INPUT_BYTES
     \<and> \<not> list_ex is_forbidden_control data \<and> admits RaSendInput tk g now
     \<and> g' = spent_guard RaSendInput tk g now \<and> ok = OkSendInput (pf_pane f) (str_bytes data)"
proof (cases "find is_forbidden_control data")
  case None
  then have "\<not> list_ex is_forbidden_control data" by (auto simp: find_None_iff list_ex_iff)
  with None show ?thesis by (auto simp: judge_send_input_def charged_eq Let_def)
next
  case (Some c)
  then have "list_ex is_forbidden_control data" by (auto simp: find_Some_iff list_ex_iff)
  with Some show ?thesis by (auto simp: judge_send_input_def Let_def)
qed

lemma judge_relaunch_Inr:
  "judge_relaunch g tk f args allowed now = (g', Inr ok) \<longleftrightarrow>
     \<not> pf_alive f \<and> (\<exists>line. resume_command_line (pf_launch_command f) args allowed = Inr line
       \<and> admits RaRelaunch tk g now \<and> g' = spent_guard RaRelaunch tk g now
       \<and> ok = OkRelaunch (pf_pane f) args line)"
  by (auto simp: judge_relaunch_def charged_eq Let_def resume_command_line_def
      split: sum.splits option.splits)


text \<open>
  Exactly when a plugin may relaunch a pane, and what then runs: the pane is this
  plugin's, the command is about its last process, that process has exited, and the line is
  the pane's own configured command followed by approved arguments. A live pane, a bare
  shell and an argument off the operator's list are refused.
\<close>

theorem judge_relaunch_iff:
  "judge g (Relaunch v tk gen args) facts allowed now = (g', Inr ok) \<longleftrightarrow>
     (\<exists>f b. facts = Some f \<and> pf_opted_in f \<and> gen = pf_generation f \<and> \<not> pf_alive f
        \<and> pf_launch_command f = Some b \<and> length args \<le> MAX_RESUME_ARGS
        \<and> list_all (\<lambda>(i, a). arg_ok allowed i a) (enumerate 0 args)
        \<and> admits RaRelaunch tk g now \<and> g' = spent_guard RaRelaunch tk g now
        \<and> ok = OkRelaunch (pf_pane f) args (b @ concat (map (\<lambda>a. 32 # a) args)))"
proof -
  have "list_all (\<lambda>(i, a). arg_ok allowed i a) (enumerate 0 args)
    \<longleftrightarrow> (\<forall>i < length args. arg_ok allowed i (args ! i))"
    by (auto simp: list_all_length nth_enumerate_eq)
  then show ?thesis
    by (auto simp: with_facts_Inr pane_facts_rule_Inr judge_relaunch_Inr resume_line_Inr)
qed

text \<open>The pane an approved action touches, if it touches one.\<close>

fun approved_pane :: "approved \<Rightarrow> pane_id option" where
  "approved_pane (OkSendInput p _) = Some p"
| "approved_pane (OkRelaunch p _ _) = Some p"
| "approved_pane (OkStatus p _ _ _ _) = Some p"
| "approved_pane (OkWatchPane p) = Some p"
| "approved_pane (OkAttention p) = Some p"
| "approved_pane (OkLog _ _) = None"


section \<open>Runs of the guard\<close>

datatype guard_event =
    Judge plugin_command "pane_facts option" "rstring list" instant
  | Cancel pane_token

fun guard_step :: "guard \<Rightarrow> guard_event \<Rightarrow> guard" where
  "guard_step g (Judge c facts allowed now) = fst (judge g c facts allowed now)"
| "guard_step g (Cancel tk) = cancel tk g"

fun consumes :: "rate_action \<Rightarrow> pane_token \<Rightarrow> plugin_command \<Rightarrow> bool" where
  "consumes RaSendInput tk (SendInput _ t _ _) = (t = tk)"
| "consumes RaRelaunch tk (Relaunch _ t _ _) = (t = tk)"
| "consumes _ _ _ = False"

text \<open>When, along a run, an action on a slot was approved.\<close>

fun approved_times :: "rate_action \<Rightarrow> pane_token \<Rightarrow> guard \<Rightarrow> guard_event list \<Rightarrow> instant list" where
  "approved_times a tk g [] = []"
| "approved_times a tk g (Judge c facts allowed now # es) =
     (if consumes a tk c \<and> \<not> isl (snd (judge g c facts allowed now)) then [now] else [])
     @ approved_times a tk (guard_step g (Judge c facts allowed now)) es"
| "approved_times a tk g (Cancel t # es) = approved_times a tk (guard_step g (Cancel t)) es"

fun clock_ok :: "instant \<Rightarrow> guard_event list \<Rightarrow> bool" where
  "clock_ok t [] = True"
| "clock_ok t (Judge _ _ _ now # es) = (t \<le> now \<and> clock_ok now es)"
| "clock_ok t (Cancel _ # es) = clock_ok t es"

lemma judge_charges:
  "(token_stamps a tk (fst (judge g c facts allowed now)) = token_stamps a tk g
     \<and> \<not> (consumes a tk c \<and> \<not> isl (snd (judge g c facts allowed now))))
   \<or> (consumes a tk c
     \<and> token_stamps a tk (fst (judge g c facts allowed now)) = snd (charge_of a g (token_stamps a tk g) now)
     \<and> \<not> isl (snd (judge g c facts allowed now)) = fst (charge_of a g (token_stamps a tk g) now))"
  by (cases c; cases a)
    (auto simp: with_facts_def judge_send_input_def judge_relaunch_def charged_eq Let_def
      token_stamps_spent admits_def split: sum.splits option.splits)

lemma judge_limits [simp]: "g_limits (fst (judge g c facts allowed now)) = g_limits g"
  by (cases c)
    (auto simp: with_facts_def judge_send_input_def judge_relaunch_def charged_eq Let_def
      split: sum.splits option.splits)

lemma cancel_limits [simp]: "g_limits (cancel tk g) = g_limits g"
  by (simp add: cancel_def)

text \<open>
  The invariant of the budgets: no list of stamps is longer than its limit, which is also
  why reading a length as a \<^verbatim>\<open>u32\<close> loses nothing.
\<close>

definition budgets_ok :: "guard \<Rightarrow> bool" where
  "budgets_ok g \<longleftrightarrow> (\<forall>a tk. length (token_stamps a tk g) \<le> unat (limit_of a (g_limits g)))"

lemma budgets_ok_new: "budgets_ok (guard_new min_idle limits)"
  by (simp add: budgets_ok_def guard_new_def token_stamps_def budget_default_def stamps_of_def
      split: rate_action.split)

lemma budgets_ok_step: "budgets_ok g \<Longrightarrow> budgets_ok (guard_step g e)"
proof (cases e)
  case (Judge c facts allowed now)
  assume ok: "budgets_ok g"
  have "length (token_stamps a tk (guard_step g e)) \<le> unat (limit_of a (g_limits g))" for a tk
    using judge_charges [of a tk g c facts allowed now] ok
      length_charge [of "token_stamps a tk g" "limit_of a (g_limits g)" "rl_window (g_limits g)" now]
    by (auto simp: Judge budgets_ok_def charge_of_def)
  with Judge show ?thesis by (simp add: budgets_ok_def)
next
  case (Cancel tk)
  assume "budgets_ok g"
  with Cancel show ?thesis by (simp add: budgets_ok_def token_stamps_cancel)
qed

interpretation guard_machine: event_machine "\<lambda>_ _. True" guard_step budgets_ok
  by unfold_locales (rule budgets_ok_step)

text \<open>A slot's approvals are those of its own window, asked at the times it was charged.\<close>

lemma approved_times_charge:
  assumes "clock_ok t es" "Cancel tk \<notin> set es"
  shows "\<exists>ts. sorted (t # ts) \<and>
    approved_times a tk g es = approvals (charge_of a g) (token_stamps a tk g) ts"
  using assms
proof (induction a tk g es arbitrary: t rule: approved_times.induct)
  case (1 a tk g)
  then show ?case by (intro exI [of _ "[]"]) simp
next
  case (2 a tk g c facts allowed now es)
  let ?g = "guard_step g (Judge c facts allowed now)"
  have "charge_of a ?g = charge_of a g" by (simp add: charge_of_def)
  with "2.IH" [of now] "2.prems" obtain ts where ts: "sorted (now # ts)"
    "approved_times a tk ?g es = approvals (charge_of a g) (token_stamps a tk ?g) ts"
    by auto
  show ?case
    using judge_charges [of a tk g c facts allowed now]
  proof (elim disjE)
    assume "token_stamps a tk (fst (judge g c facts allowed now)) = token_stamps a tk g
      \<and> \<not> (consumes a tk c \<and> \<not> isl (snd (judge g c facts allowed now)))"
    with ts "2.prems" show ?thesis by (intro exI [of _ ts]) auto
  next
    assume "consumes a tk c
      \<and> token_stamps a tk (fst (judge g c facts allowed now)) = snd (charge_of a g (token_stamps a tk g) now)
      \<and> \<not> isl (snd (judge g c facts allowed now)) = fst (charge_of a g (token_stamps a tk g) now)"
    with ts "2.prems" show ?thesis
      by (intro exI [of _ "now # ts"]) (auto split: prod.splits)
  qed
next
  case (3 a tk g t' es)
  have "charge_of a (guard_step g (Cancel t')) = charge_of a g" by (simp add: charge_of_def)
  with "3.IH" [of t] "3.prems" obtain ts where "sorted (t # ts)"
    "approved_times a tk (guard_step g (Cancel t')) es
       = approvals (charge_of a g) (token_stamps a tk (guard_step g (Cancel t'))) ts"
    by auto
  with "3.prems" show ?case by (auto simp: token_stamps_cancel)
qed

text \<open>
  \<^bold>\<open>C3\<close>. A plugin's effect on a pane is bounded whatever it sends: starting from a new guard and over any
  history of commands with a clock that does not run backwards, in no stretch of time as
  long as the window are more than the configured number of inputs (or of relaunches)
  approved for one slot, as long as no human took the pane back in between. The slot's
  token is the key, so a relaunch, which changes the pane id, does not refill the budget.
\<close>

theorem guard_rate_bound:
  assumes "run guard_step (guard_new min_idle limits) past = g"
    and "clock_ok t es" "Cancel tk \<notin> set es"
  shows "in_interval (rl_window (g_limits g)) from (approved_times a tk g es)
    \<le> unat (limit_of a (g_limits g))"
proof -
  have "budgets_ok g"
    using guard_machine.run_inv [OF budgets_ok_new] assms(1) by auto
  moreover obtain ts where "sorted (t # ts)"
    "approved_times a tk g es = approvals (charge_of a g) (token_stamps a tk g) ts"
    using approved_times_charge [OF assms(2,3)] by blast
  ultimately show ?thesis
    using charge.rate_bound [of "token_stamps a tk g" "limit_of a (g_limits g)" t ts]
    by (simp add: budgets_ok_def charge_of_def)
qed

theorem guard_rate_bound_witness:
  "in_interval (from_secs 60) 0
     (approved_times RaSendInput (PaneToken []) (guard_new 0 default_rate_limits)
        [Judge (SendInput 3 (PaneToken []) 1 [97])
           (Some \<lparr>pf_pane = 1, pf_generation = 1, pf_opted_in = True, pf_watched_by_another = False,
             pf_may_watch_on_signal = False, pf_alive = True, pf_idle = 0, pf_launch_command = None\<rparr>) [] 5])
     \<le> 5"
  using guard_rate_bound [of 0 default_rate_limits "[]" "guard_new 0 default_rate_limits" 0
      "[Judge (SendInput 3 (PaneToken []) 1 [97])
           (Some \<lparr>pf_pane = 1, pf_generation = 1, pf_opted_in = True, pf_watched_by_another = False,
             pf_may_watch_on_signal = False, pf_alive = True, pf_idle = 0, pf_launch_command = None\<rparr>) [] 5]"
      "PaneToken []" 0 RaSendInput]
  by (simp add: guard_new_def default_rate_limits_def limit_of_def DEFAULT_RATE_WINDOW_def DEFAULT_MAX_SENDS_def)

text \<open>
  A refusal costs nothing and an approval costs one: at any later time, the number of
  stamps that still count against a slot's action is unchanged by a refused command and one
  higher after an approved one of that action; other slots and the other action are never
  touched.
\<close>

theorem judge_budget_accounting:
  assumes "judge g c facts allowed now = (g', r)" "now \<le> later"
  shows "in_window (rl_window (g_limits g)) later (token_stamps a tk g') =
    in_window (rl_window (g_limits g)) later (token_stamps a tk g)
    + (if consumes a tk c \<and> \<not> isl r \<and> later - now < rl_window (g_limits g) then 1 else 0)"
  using judge_charges [of a tk g c facts allowed now] assms
  by (auto simp: charge_of_def snd_charge)

theorem judge_budget_accounting_witness:
  "in_window (from_secs 60) 9 (token_stamps RaRelaunch (PaneToken [])
      (fst (judge (guard_new 0 default_rate_limits) (Attention 3 (PaneToken []) 1) None [] 7))) = 0"
  using judge_budget_accounting [of "guard_new 0 default_rate_limits" "Attention 3 (PaneToken []) 1" None "[]" 7
      "guard_new 0 default_rate_limits" "Inl (UnknownPane (PaneToken []))" 9 RaRelaunch "PaneToken []"]
  by (simp add: guard_new_def with_facts_def pane_facts_rule_def token_stamps_def budget_default_def
      stamps_of_def default_rate_limits_def DEFAULT_RATE_WINDOW_def)


end
