(* ===== verification/Codec.thy ===== *)
theory Codec
  imports Prelude
begin

text \<open>
  Encodings of the Rust standard library the components use: \<^verbatim>\<open>u32\<close> as four bytes in either
  order, unsigned integers as decimal text and back, and bounded channels. The interface a
  wire format offers its reader is the locale \<open>codec\<close>: what was encoded decodes to itself
  and the rest of the input is left alone.
\<close>

section \<open>Four-byte integers\<close>

definition to_le_bytes :: "u32 \<Rightarrow> u8 list" where
  "to_le_bytes w = [of_nat (unat w), of_nat (unat w div 256), of_nat (unat w div 65536), of_nat (unat w div 16777216)]"

fun from_le_bytes :: "u8 list \<Rightarrow> u32 option" where
  "from_le_bytes [a, b, c, d] = Some (of_nat (unat a + unat b * 256 + unat c * 65536 + unat d * 16777216))"
| "from_le_bytes _ = None"

definition to_be_bytes :: "u32 \<Rightarrow> u8 list" where
  "to_be_bytes w = rev (to_le_bytes w)"

definition from_be_bytes :: "u8 list \<Rightarrow> u32 option" where
  "from_be_bytes bs = from_le_bytes (rev bs)"

lemma length_to_bytes [simp]: "length (to_le_bytes w) = 4" "length (to_be_bytes w) = 4"
  by (simp_all add: to_le_bytes_def to_be_bytes_def)

lemma unat_of_nat_u8: "unat (of_nat n :: u8) = n mod 256"
  by (simp add: unsigned_of_nat take_bit_eq_mod)

lemma base256_digits:
  fixes n :: nat
  assumes "n < 2 ^ 32"
  shows "n mod 256 + n div 256 mod 256 * 256 + n div 65536 mod 256 * 65536 + n div 16777216 mod 256 * 16777216 = n"
proof -
  have "n div 256 = 256 * (n div 65536) + n div 256 mod 256"
    using mult_div_mod_eq [of 256 "n div 256"] by (simp flip: div_mult2_eq)
  moreover have "n div 65536 = 256 * (n div 16777216) + n div 65536 mod 256"
    using mult_div_mod_eq [of 256 "n div 65536"] by (simp flip: div_mult2_eq)
  moreover have "n div 16777216 mod 256 = n div 16777216"
    using assms by simp
  ultimately show ?thesis
    using mult_div_mod_eq [of 256 n] by linarith
qed

lemma from_le_to_le [simp]: "from_le_bytes (to_le_bytes w) = Some w"
proof -
  have "from_le_bytes (to_le_bytes w) = Some (of_nat (unat w))"
    by (simp only: to_le_bytes_def from_le_bytes.simps unat_of_nat_u8 base256_digits [OF unat_less_self])
  then show ?thesis by simp
qed

lemma from_be_to_be [simp]: "from_be_bytes (to_be_bytes w) = Some w"
  by (simp add: from_be_bytes_def to_be_bytes_def)

lemma from_le_bytes_Some: "length bs = 4 \<Longrightarrow> \<exists>w. from_le_bytes bs = Some w"
  by (cases bs rule: from_le_bytes.cases) auto

lemma base256_unique:
  fixes a b c d :: nat
  assumes "a < 256" "b < 256" "c < 256" "d < 256"
  defines "n \<equiv> a + b * 256 + c * 65536 + d * 16777216"
  shows "n < 2 ^ 32" "n mod 256 = a" "n div 256 mod 256 = b" "n div 65536 mod 256 = c" "n div 16777216 mod 256 = d"
proof -
  have 1: "n = a + 256 * (b + 256 * (c + 256 * d))" by (simp add: n_def)
  have 2: "n div 256 = b + 256 * (c + 256 * d)" "n mod 256 = a"
    using assms(1) unfolding 1 by (simp_all only: div_mult_self2 mod_mult_self2 div_less mod_less)
  have 3: "n div 65536 = c + 256 * d" using assms(2) 2(1) div_mult2_eq [of n 256 256] by simp
  have 4: "n div 16777216 = d" using assms(3) 3 div_mult2_eq [of n 65536 256] by simp
  show "n < 2 ^ 32" using assms by simp
  show "n mod 256 = a" by (rule 2)
  show "n div 256 mod 256 = b" unfolding 2 using assms(2) by (simp only: mod_mult_self2 mod_less)
  show "n div 65536 mod 256 = c" unfolding 3 using assms(3) by (simp only: mod_mult_self2 mod_less)
  show "n div 16777216 mod 256 = d" unfolding 4 using assms(4) by simp
qed

lemma unat_of_nat_u32: "n < 2 ^ 32 \<Longrightarrow> unat (of_nat n :: u32) = n"
  by (simp add: unsigned_of_nat take_bit_nat_eq_self)

lemma u8_less: "unat (a :: u8) < 256"
  using unsigned_less [of a] by simp

lemma to_le_from_le: "from_le_bytes bs = Some w \<Longrightarrow> to_le_bytes w = bs"
proof (cases bs rule: from_le_bytes.cases)
  case (1 a b c d)
  let ?n = "unat a + unat b * 256 + unat c * 65536 + unat d * 16777216"
  note u = base256_unique [OF u8_less u8_less u8_less u8_less, of a b c d]
  assume "from_le_bytes bs = Some w"
  with 1 have "w = of_nat ?n" by simp
  with u(1) have "unat w = ?n" by (simp only: unat_of_nat_u32)
  then show ?thesis
    unfolding 1 to_le_bytes_def by (simp only: word_unat_eq_iff unat_of_nat_u8 u list.inject)
qed simp_all

lemma to_be_from_be: "from_be_bytes bs = Some w \<Longrightarrow> to_be_bytes w = bs"
  using to_le_from_le [of "rev bs"] by (simp add: from_be_bytes_def to_be_bytes_def)

section \<open>Decimal text\<close>

fun dec_str :: "nat \<Rightarrow> rstring" where
  "dec_str n = (if n < 10 then [48 + n] else dec_str (n div 10) @ [48 + n mod 10])"

declare dec_str.simps [simp del]

text \<open>\<^verbatim>\<open>str::parse::<u64>\<close>: an optional plus sign, at least one digit, no overflow.\<close>

definition is_digit :: "rchar \<Rightarrow> bool" where
  "is_digit c \<longleftrightarrow> 48 \<le> c \<and> c \<le> 57"

definition digits_value :: "rstring \<Rightarrow> nat" where
  "digits_value s = foldl (\<lambda>n c. n * 10 + (c - 48)) 0 s"

definition parse_u64 :: "rstring \<Rightarrow> nat option" where
  "parse_u64 s =
     (let ds = (case s of c # cs \<Rightarrow> if c = 43 then cs else s | [] \<Rightarrow> [])
      in if ds \<noteq> [] \<and> list_all is_digit ds \<and> digits_value ds < 2 ^ 64 then Some (digits_value ds) else None)"

lemma dec_str_digits: "list_all is_digit (dec_str n)"
proof (induction n rule: dec_str.induct)
  case (1 n)
  show ?case
  proof (cases "n < 10")
    case True
    then show ?thesis by (subst dec_str.simps) (simp add: is_digit_def)
  next
    case False
    moreover have "is_digit (48 + n mod 10)" by (simp add: is_digit_def)
    ultimately show ?thesis using 1 by (subst dec_str.simps) simp
  qed
qed

lemma dec_str_not_Nil [simp]: "dec_str n \<noteq> []"
  by (subst dec_str.simps) simp

lemma digits_value_snoc: "digits_value (s @ [c]) = digits_value s * 10 + (c - 48)"
  by (simp add: digits_value_def)

lemma digits_value_dec_str [simp]: "digits_value (dec_str n) = n"
proof (induction n rule: dec_str.induct)
  case (1 n)
  then show ?case
    by (subst dec_str.simps) (auto simp: digits_value_snoc, simp add: digits_value_def)
qed

lemma dec_str_inj: "dec_str a = dec_str b \<Longrightarrow> a = b"
  by (metis digits_value_dec_str)

lemma parse_dec_str: "n < 2 ^ 64 \<Longrightarrow> parse_u64 (dec_str n) = Some n"
proof -
  assume n: "n < 2 ^ 64"
  obtain c cs where s: "dec_str n = c # cs" by (cases "dec_str n") auto
  with dec_str_digits [of n] have "c \<noteq> 43" by (auto simp: is_digit_def)
  with s n dec_str_digits [of n] digits_value_dec_str [of n] show ?thesis
    by (auto simp: parse_u64_def Let_def)
qed

section \<open>Bounded channels\<close>

text \<open>
  The sending half of \<^verbatim>\<open>std::sync::mpsc::sync_channel\<close>: what is queued, how much fits, and
  whether the receiver still exists. \<^verbatim>\<open>try_send\<close> never waits.
\<close>

record 'f chan =
  ch_queue :: "'f list"
  ch_cap :: nat
  ch_open :: bool

datatype send_error = SendFull | SendDisconnected

definition try_send :: "'f \<Rightarrow> 'f chan \<Rightarrow> 'f chan \<times> (send_error + unit)" where
  "try_send f ch =
     (if \<not> ch_open ch then (ch, Inl SendDisconnected)
      else if length (ch_queue ch) < ch_cap ch then (ch\<lparr>ch_queue := ch_queue ch @ [f]\<rparr>, Inr ())
      else (ch, Inl SendFull))"

lemma try_send_cap: "length (ch_queue ch) \<le> ch_cap ch \<Longrightarrow> length (ch_queue (fst (try_send f ch))) \<le> ch_cap ch"
  by (simp add: try_send_def)

section \<open>Wire formats\<close>

datatype ('e, 'a) decoded =
    Eof
  | Broken 'e
  | Item 'a "u8 list"

fun decode_many :: "(u8 list \<Rightarrow> ('e, 'a) decoded) \<Rightarrow> nat \<Rightarrow> u8 list \<Rightarrow> 'a list \<times> ('e, 'a) decoded" where
  "decode_many dec 0 bs = ([], dec bs)"
| "decode_many dec (Suc n) bs =
     (case dec bs of
        Item x rest \<Rightarrow> (case decode_many dec n rest of (xs, r) \<Rightarrow> (x # xs, r))
      | r \<Rightarrow> ([], r))"

locale codec =
  fixes enc :: "'a \<Rightarrow> u8 list"
    and dec :: "u8 list \<Rightarrow> ('e, 'a) decoded"
    and fits :: "'a \<Rightarrow> bool"
  assumes dec_enc: "fits x \<Longrightarrow> dec (enc x @ rest) = Item x rest"
    and dec_Nil: "dec [] = Eof"
begin

lemma dec_stream: "list_all fits xs \<Longrightarrow> decode_many dec (length xs) (concat (map enc xs)) = (xs, Eof)"
  by (induction xs) (simp_all add: dec_Nil dec_enc)

lemma enc_inj: "fits x \<Longrightarrow> fits y \<Longrightarrow> enc x = enc y \<Longrightarrow> x = y"
  using dec_enc [of x "[]"] dec_enc [of y "[]"] by simp

end

end
