(* ===== verification/Terminal_Frame.thy ===== *)
theory Terminal_Frame
  imports Pane_Identity Codec
begin

text \<open>
  The messages of the shared terminal session, \<^verbatim>\<open>src/session/terminal/frame.rs\<close>, with the
  size limits of \<^verbatim>\<open>src/session/limits.rs\<close>: what a client may ask, what the hub tells it, how a
  requested pane size is clamped, and the binary form of an output frame.
\<close>

definition MAX_PTYS_PER_REPO :: nat where
  "MAX_PTYS_PER_REPO = 8"

definition MIN_PANE_DIMENSION :: u16 where
  "MIN_PANE_DIMENSION = 1"

definition MAX_PANE_ROWS :: u16 where
  "MAX_PANE_ROWS = 500"

definition MAX_PANE_COLS :: u16 where
  "MAX_PANE_COLS = 1100"

definition MAX_TERMINAL_SCROLLBACK_BYTES :: nat where
  "MAX_TERMINAL_SCROLLBACK_BYTES = 256 * 1024"

definition MAX_PANE_TITLE_CHARS :: nat where
  "MAX_PANE_TITLE_CHARS = 256"

record pane_size =
  ps_rows :: u16
  ps_cols :: u16

record clear_key_facts =
  ck_trusted :: bool
  ck_repeat :: bool
  ck_code :: rstring
  ck_since_ms :: u32

datatype client_message =
    CmCreate u16 u16
  | CmInput pane_id rstring
  | CmResize pane_id u16 u16
  | CmClose pane_id
  | CmReorder "pane_id list"
  | CmZoom "pane_id option"
  | CmClaimSize
  | CmCancelRecovery pane_id
  | CmStart "pane_size list"
  | CmClearKeyReport pane_id "clear_key_facts option"

datatype server_message =
    SmCreated pane_id u16 u16 "u64 option" "rstring option"
  | SmExited pane_id
  | SmResized pane_id u16 u16
  | SmHello u64 nat
  | SmReplayComplete
  | SmSizeOwner bool rstring
  | SmError rstring
  | SmReordered "pane_id list"
  | SmZoomed "pane_id option"
  | SmPending nat
  | SmAttention pane_id "rstring option"
  | SmRecovery pane_id rstring "rstring option" "int option" u32

datatype terminal_frame =
    Output pane_id "u8 list"
  | Control rstring

definition clamp16 :: "u16 \<Rightarrow> u16 \<Rightarrow> u16 \<Rightarrow> u16" where
  "clamp16 x lo hi = (if x < lo then lo else if hi < x then hi else x)"

definition clamped :: "pane_size \<Rightarrow> pane_size" where
  "clamped s = \<lparr>ps_rows = clamp16 (ps_rows s) MIN_PANE_DIMENSION MAX_PANE_ROWS,
     ps_cols = clamp16 (ps_cols s) MIN_PANE_DIMENSION MAX_PANE_COLS\<rparr>"

definition encode_output :: "pane_id \<Rightarrow> u8 list \<Rightarrow> u8 list" where
  "encode_output pane data = to_le_bytes pane @ data"

definition decode_output :: "u8 list \<Rightarrow> (pane_id \<times> u8 list) option" where
  "decode_output frame =
     (if length frame < 4 then None
      else map_option (\<lambda>pane. (pane, drop 4 frame)) (from_le_bytes (take 4 frame)))"

text \<open>
  One socket carries every pane's output without loss: decoding an encoded output frame
  gives back the pane id and exactly the bytes, whatever they are, and no two different
  frames have the same encoding.
\<close>

theorem output_frame_roundtrip:
  "decode_output (encode_output pane data) = Some (pane, data)
   \<and> (encode_output pane data = encode_output pane' data' \<longleftrightarrow> pane = pane' \<and> data = data')"
proof -
  have dec: "decode_output (encode_output p d) = Some (p, d)" for p d
    by (simp add: decode_output_def encode_output_def)
  then show ?thesis by (metis option.inject prod.inject)
qed

text \<open>
  A size a client sends is brought within the session's bounds before it reaches a PTY, a size
  already within them is left alone, and clamping twice changes nothing.
\<close>

theorem clamped_bounds:
  "1 \<le> ps_rows (clamped s) \<and> ps_rows (clamped s) \<le> 500 \<and> 1 \<le> ps_cols (clamped s) \<and> ps_cols (clamped s) \<le> 1100
   \<and> clamped (clamped s) = clamped s
   \<and> (clamped s = s \<longleftrightarrow> 1 \<le> ps_rows s \<and> ps_rows s \<le> 500 \<and> 1 \<le> ps_cols s \<and> ps_cols s \<le> 1100)"
proof -
  have "1 \<le> clamp16 x 1 hi \<and> clamp16 x 1 hi \<le> hi \<and> clamp16 (clamp16 x 1 hi) 1 hi = clamp16 x 1 hi
    \<and> (clamp16 x 1 hi = x \<longleftrightarrow> 1 \<le> x \<and> x \<le> hi)" if "1 \<le> hi" for x hi
    using that by (auto simp: clamp16_def word_le_nat_alt word_less_nat_alt word_unat_eq_iff)
  from this [of 500 "ps_rows s"] this [of 1100 "ps_cols s"] show ?thesis
    by (cases s) (simp add: clamped_def MIN_PANE_DIMENSION_def MAX_PANE_ROWS_def MAX_PANE_COLS_def)
qed

end
