(* ===== verification/Pty_Backend.thy ===== *)
theory Pty_Backend
  imports Pane_Identity Terminal_Frame Contracts
begin

text \<open>
  The processes behind the panes, \<^verbatim>\<open>src/backend/pty.rs\<close>, \<^verbatim>\<open>pty_spawn.rs\<close>, \<^verbatim>\<open>pty_drain.rs\<close>, \<^verbatim>\<open>pty_io.rs\<close> and
  \<^verbatim>\<open>pty_wakeup.rs\<close>: the bounded queue of input for each PTY and the thread that writes it, the drain of
  queued output under its per-window budget, and the table of panes and slots with spawning and relaunching.

  \<^item> The channel from a pane's reader and waiter threads is \<open>pp_rx\<close>, what has been sent and not yet received.
  \<^item> The local variable of the writer thread, the message it has taken and not yet written, is \<open>iq_writing\<close>.
  \<^item> A subtraction that would underflow has no value.
  \<^item> Everything the operating system decides (whether a PTY opens and the shell starts, the random
    bytes of a token) is an argument. The handles a pane owns are not modelled: dropping the pane releases them.
\<close>

section \<open>Input\<close>

definition INPUT_BYTE_LIMIT :: nat where
  "INPUT_BYTE_LIMIT = 4 * 1024 * 1024"

definition INPUT_MESSAGE_LIMIT :: nat where
  "INPUT_MESSAGE_LIMIT = 256"

datatype input_error = WriterFailed | QueueClosed | QueueFull

record input_queue =
  iq_queue :: "u8 list list"
  iq_bytes :: nat
  iq_messages :: nat
  iq_closed :: bool
  iq_failed :: bool
  iq_writing :: "u8 list option"

definition input_new :: input_queue where
  "input_new = \<lparr>iq_queue = [], iq_bytes = 0, iq_messages = 0, iq_closed = False, iq_failed = False, iq_writing = None\<rparr>"

definition minus_checked :: "nat \<Rightarrow> nat \<Rightarrow> nat option" where
  "minus_checked a b = (if b \<le> a then Some (a - b) else None)"

definition enqueue :: "u8 list \<Rightarrow> input_queue \<Rightarrow> input_queue \<times> (input_error + unit)" where
  "enqueue data q =
     (if iq_failed q then (q, Inl WriterFailed)
      else if iq_closed q then (q, Inl QueueClosed)
      else if data = [] then (q, Inr ())
      else if length data > INPUT_BYTE_LIMIT \<or> iq_messages q \<ge> INPUT_MESSAGE_LIMIT
              \<or> iq_bytes q + length data > INPUT_BYTE_LIMIT then (q, Inl QueueFull)
      else (q\<lparr>iq_queue := iq_queue q @ [data], iq_bytes := iq_bytes q + length data,
              iq_messages := iq_messages q + 1\<rparr>, Inr ()))"

text \<open>What \<^verbatim>\<open>close\<close> and a failed write share: everything still queued is given up.\<close>

definition drop_queued :: "input_queue \<Rightarrow> input_queue option" where
  "drop_queued q =
     (case (minus_checked (iq_bytes q) (sum_list (map length (iq_queue q))),
            minus_checked (iq_messages q) (length (iq_queue q))) of
        (Some b, Some n) \<Rightarrow> Some (q\<lparr>iq_bytes := b, iq_messages := n, iq_queue := []\<rparr>)
      | _ \<Rightarrow> None)"

definition input_close :: "input_queue \<Rightarrow> input_queue option" where
  "input_close q = drop_queued (q\<lparr>iq_closed := True\<rparr>)"

text \<open>The writer thread: take the next message when there is one and nothing has ended; then write it.\<close>

definition writer_take :: "input_queue \<Rightarrow> input_queue" where
  "writer_take q =
     (if iq_writing q \<noteq> None \<or> iq_closed q \<or> iq_failed q then q
      else case iq_queue q of [] \<Rightarrow> q | data # rest \<Rightarrow> q\<lparr>iq_queue := rest, iq_writing := Some data\<rparr>)"

definition writer_wrote :: "bool \<Rightarrow> input_queue \<Rightarrow> input_queue option" where
  "writer_wrote ok q =
     (case iq_writing q of
        None \<Rightarrow> Some q
      | Some data \<Rightarrow>
          (case (minus_checked (iq_bytes q) (length data), minus_checked (iq_messages q) 1) of
             (Some b, Some n) \<Rightarrow>
               let q = q\<lparr>iq_bytes := b, iq_messages := n, iq_writing := None\<rparr>
               in if ok then Some q else map_option (\<lambda>q. q\<lparr>iq_failed := True\<rparr>) (drop_queued q)
           | _ \<Rightarrow> None))"

text \<open>The queue between its owner and its writer, with what was accepted and what reached the PTY.\<close>

record input_run =
  ir_queue :: input_queue
  ir_accepted :: "u8 list"
  ir_written :: "u8 list"

datatype input_event = Enqueue "u8 list" | CloseInput | Take | Wrote bool

definition in_flight :: "input_queue \<Rightarrow> u8 list" where
  "in_flight q = (case iq_writing q of None \<Rightarrow> [] | Some d \<Rightarrow> d)"

fun input_step :: "input_run option \<Rightarrow> input_event \<Rightarrow> input_run option" where
  "input_step None e = None"
| "input_step (Some r) (Enqueue data) =
     (case enqueue data (ir_queue r) of
        (q, Inr _) \<Rightarrow> Some (r\<lparr>ir_queue := q, ir_accepted := ir_accepted r @ data\<rparr>)
      | (q, Inl _) \<Rightarrow> Some (r\<lparr>ir_queue := q\<rparr>))"
| "input_step (Some r) CloseInput = map_option (\<lambda>q. r\<lparr>ir_queue := q\<rparr>) (input_close (ir_queue r))"
| "input_step (Some r) Take = Some (r\<lparr>ir_queue := writer_take (ir_queue r)\<rparr>)"
| "input_step (Some r) (Wrote ok) =
     map_option (\<lambda>q. r\<lparr>ir_queue := q, ir_written := ir_written r @ (if ok then in_flight (ir_queue r) else [])\<rparr>)
       (writer_wrote ok (ir_queue r))"

definition input_inv :: "input_run option \<Rightarrow> bool" where
  "input_inv s =
     (case s of
        None \<Rightarrow> False
      | Some r \<Rightarrow>
          let q = ir_queue r
          in iq_bytes q = length (concat (iq_queue q)) + length (in_flight q)
             \<and> iq_messages q = length (iq_queue q) + (if iq_writing q = None then 0 else 1)
             \<and> iq_bytes q \<le> INPUT_BYTE_LIMIT \<and> iq_messages q \<le> INPUT_MESSAGE_LIMIT
             \<and> ((iq_closed q \<or> iq_failed q) \<longrightarrow> iq_queue q = [])
             \<and> (\<not> iq_closed q \<and> \<not> iq_failed q \<longrightarrow> ir_accepted r = ir_written r @ in_flight q @ concat (iq_queue q))
             \<and> prefix (ir_written r @ (if iq_failed q then [] else in_flight q)) (ir_accepted r)
             \<and> (iq_failed q \<longrightarrow> iq_writing q = None))"

lemma concat_lengths: "sum_list (map length xs) = length (concat xs)"
  by (simp add: length_concat)

lemma input_inv_step: "input_inv s \<Longrightarrow> input_inv (input_step s e)"
proof (cases s)
  case (Some r)
  assume i: "input_inv s"
  show ?thesis
  proof (cases e)
    case (Enqueue data)
    then show ?thesis using i Some
      by (auto simp: input_inv_def enqueue_def in_flight_def Let_def split: option.splits if_splits)
  next
    case CloseInput
    then show ?thesis using i Some
      by (auto simp: input_inv_def input_close_def drop_queued_def minus_checked_def in_flight_def Let_def concat_lengths
          split: option.splits if_splits)
  next
    case Take
    then show ?thesis using i Some
      by (auto simp: input_inv_def writer_take_def in_flight_def Let_def split: option.splits if_splits list.splits)
  next
    case (Wrote ok)
    then show ?thesis using i Some
      by (auto simp: input_inv_def writer_wrote_def drop_queued_def minus_checked_def in_flight_def Let_def concat_lengths
          split: option.splits if_splits dest: append_prefixD)
  qed
qed (simp add: input_inv_def)

interpretation input_machine: event_machine "\<lambda>_ _. True" input_step input_inv
  by unfold_locales (rule input_inv_step)

definition input_start :: "input_run option" where
  "input_start = Some \<lparr>ir_queue = input_new, ir_accepted = [], ir_written = []\<rparr>"

text \<open>
  \<^bold>\<open>C15\<close>. However typing, writing, closing and write failures interleave, the bookkeeping of a PTY's input queue
  never underflows, at most 4 MiB in at most 256 messages are pending, and what reaches the PTY is what was
  accepted, in order and with nothing skipped; while the queue is open and the writer has not failed, what was accepted and not yet written is exactly
  the message in the writer's hands and the queue.
\<close>

theorem pty_input_exact:
  "\<exists>r. run input_step input_start es = Some r
     \<and> iq_bytes (ir_queue r) \<le> INPUT_BYTE_LIMIT \<and> iq_messages (ir_queue r) \<le> INPUT_MESSAGE_LIMIT
     \<and> prefix (ir_written r) (ir_accepted r)
     \<and> (iq_closed (ir_queue r) \<or> iq_failed (ir_queue r)
        \<or> ir_accepted r = ir_written r @ in_flight (ir_queue r) @ concat (iq_queue (ir_queue r)))"
proof -
  have "input_inv input_start" by (simp add: input_inv_def input_start_def input_new_def in_flight_def)
  then have "input_inv (run input_step input_start es)" by (rule input_machine.run_inv) simp
  then show ?thesis by (auto simp: input_inv_def Let_def dest: append_prefixD split: option.splits)
qed

section \<open>Output\<close>

definition PER_PANE_DRAIN_BUDGET :: nat where
  "PER_PANE_DRAIN_BUDGET = 64"

definition DRAIN_WINDOW :: duration where
  "DRAIN_WINDOW = from_millis 8"

definition EXIT_DRAIN_GRACE :: duration where
  "EXIT_DRAIN_GRACE = from_millis 50"

datatype pty_event = PtyOutput "u8 list" | ChildExited | PtyExited

datatype exit_phase = Running | Draining instant | Reported

record drain_window =
  dw_start :: instant
  dw_used :: nat

definition window_end :: "drain_window \<Rightarrow> instant" where
  "window_end w = dw_start w + DRAIN_WINDOW"

text \<open>\<open>pp_line\<close> is what the shell was started with; the code hands it to the child and keeps no copy.\<close>

record pty_pane =
  pp_rx :: "pty_event list"
  pp_exit :: exit_phase
  pp_window :: "drain_window option"
  pp_input :: input_queue
  pp_line :: "rstring option"

datatype backend_event =
    BeCreated pane_id u16 u16 bool "rstring option"
  | BeOutput pane_id "u8 list"
  | BeReplayOutput pane_id "u8 list"
  | BeReplayComplete
  | BeExited pane_id
  | BeResized pane_id u16 u16
  | BeReordered "pane_id list"
  | BeSizeOwnership bool
  | BeAttention pane_id
  | BeRecovery pane_id rstring "rstring option" "int option" u32

text \<open>One pane's turn: the budget left, the pane, the slots with their output stamps, and what is reported.\<close>

fun drain_loop ::
  "nat \<Rightarrow> instant \<Rightarrow> pane_id \<Rightarrow> pty_pane \<Rightarrow> pane_slots \<Rightarrow> nat \<times> pty_pane \<times> pane_slots \<times> backend_event list" where
  "drain_loop 0 now i p slots = (0, p, slots, [])"
| "drain_loop (Suc budget) now i p slots =
     (case pp_rx p of
        PtyOutput data # rest \<Rightarrow>
          let (left, p, slots, evs) = drain_loop budget now i (p\<lparr>pp_rx := rest\<rparr>) (mark_output i now slots)
          in (left, p, slots, BeOutput i data # evs)
      | ChildExited # rest \<Rightarrow>
          drain_loop budget now i
            (p\<lparr>pp_rx := rest, pp_exit := (if pp_exit p = Running then Draining now else pp_exit p)\<rparr>) slots
      | PtyExited # rest \<Rightarrow>
          (Suc budget, p\<lparr>pp_rx := rest, pp_exit := Reported\<rparr>, slots, if pp_exit p \<noteq> Reported then [BeExited i] else [])
      | [] \<Rightarrow>
          (case pp_exit p of
             Draining since \<Rightarrow>
               if now - since \<ge> EXIT_DRAIN_GRACE then (Suc budget, p\<lparr>pp_exit := Reported\<rparr>, slots, [BeExited i])
               else (Suc budget, p, slots, [])
           | _ \<Rightarrow> (Suc budget, p, slots, [])))"

definition open_window :: "instant \<Rightarrow> pty_pane \<Rightarrow> drain_window" where
  "open_window now p =
     (case pp_window p of
        Some w \<Rightarrow> if now < window_end w then w else \<lparr>dw_start = now, dw_used = 0\<rparr>
      | None \<Rightarrow> \<lparr>dw_start = now, dw_used = 0\<rparr>)"

definition drain_pane ::
  "bool \<Rightarrow> instant \<Rightarrow> pane_id \<Rightarrow> pty_pane \<Rightarrow> pane_slots \<Rightarrow> pty_pane \<times> pane_slots \<times> backend_event list" where
  "drain_pane paced now i p slots =
     (let w = open_window now p;
          p = (if paced then p\<lparr>pp_window := Some w\<rparr> else p);
          allowed = PER_PANE_DRAIN_BUDGET - (if paced then dw_used w else 0)
      in if allowed = 0 then (p, slots, [])
         else
           let (left, p, slots, evs) = drain_loop allowed now i p slots
           in (p\<lparr>pp_window := map_option (\<lambda>w. w\<lparr>dw_used := dw_used w + (allowed - left)\<rparr>) (pp_window p)\<rparr>, slots, evs))"

fun drain_panes ::
  "bool \<Rightarrow> instant \<Rightarrow> (pane_id \<times> pty_pane) list \<Rightarrow> pane_slots \<Rightarrow> (pane_id \<times> pty_pane) list \<times> pane_slots \<times> backend_event list" where
  "drain_panes paced now [] slots = ([], slots, [])"
| "drain_panes paced now ((i, p) # ps) slots =
     (let (p, slots, evs) = drain_pane paced now i p slots;
          (ps, slots, evs') = drain_panes paced now ps slots
      in ((i, p) # ps, slots, evs @ evs'))"

section \<open>One pane over time\<close>

text \<open>
  \<open>dr_arrived\<close> is everything the pane's threads have sent, \<open>dr_reported\<close> what the drains reported, and
  \<open>dr_burst\<close> how many output events were reported since the current window opened.
\<close>

record drain_run =
  dr_pane :: pty_pane
  dr_arrived :: "pty_event list"
  dr_reported :: "backend_event list"
  dr_burst :: nat

datatype drain_event = Arrive pty_event | Pass instant

fun outputs_in :: "pty_event list \<Rightarrow> u8 list list" where
  "outputs_in [] = []"
| "outputs_in (PtyOutput d # es) = d # outputs_in es"
| "outputs_in (_ # es) = outputs_in es"

fun outputs_out :: "backend_event list \<Rightarrow> u8 list list" where
  "outputs_out [] = []"
| "outputs_out (BeOutput i d # es) = d # outputs_out es"
| "outputs_out (_ # es) = outputs_out es"

fun exits_out :: "backend_event list \<Rightarrow> nat" where
  "exits_out [] = 0"
| "exits_out (BeExited i # es) = Suc (exits_out es)"
| "exits_out (_ # es) = exits_out es"

fun drain_step :: "pane_id \<Rightarrow> drain_run \<Rightarrow> drain_event \<Rightarrow> drain_run" where
  "drain_step i r (Arrive e) =
     r\<lparr>dr_pane := (dr_pane r)\<lparr>pp_rx := pp_rx (dr_pane r) @ [e]\<rparr>, dr_arrived := dr_arrived r @ [e]\<rparr>"
| "drain_step i r (Pass now) =
     (let (p, slots, evs) = drain_pane True now i (dr_pane r) [];
          fresh = (pp_window (dr_pane r) \<noteq> Some (open_window now (dr_pane r)))
      in r\<lparr>dr_pane := p, dr_reported := dr_reported r @ evs,
           dr_burst := (if fresh then 0 else dr_burst r) + length (outputs_out evs)\<rparr>)"

lemma outputs_append [simp]:
  "outputs_in (as @ bs) = outputs_in as @ outputs_in bs"
  "outputs_out (xs @ ys) = outputs_out xs @ outputs_out ys"
  "exits_out (xs @ ys) = exits_out xs + exits_out ys"
  by (induction as rule: outputs_in.induct; simp) (induction xs rule: outputs_out.induct; simp)+

definition drained :: "nat \<Rightarrow> pty_pane \<Rightarrow> nat \<Rightarrow> pty_pane \<Rightarrow> backend_event list \<Rightarrow> bool" where
  "drained budget p left p' evs \<longleftrightarrow>
     outputs_in (pp_rx p) = outputs_out evs @ outputs_in (pp_rx p')
     \<and> left \<le> budget \<and> length (outputs_out evs) \<le> budget - left \<and> pp_window p' = pp_window p \<and> pp_input p' = pp_input p
     \<and> exits_out evs = (if pp_exit p \<noteq> Reported \<and> pp_exit p' = Reported then 1 else 0)
     \<and> (pp_exit p = Reported \<longrightarrow> pp_exit p' = Reported)
     \<and> (pp_exit p = Running \<longrightarrow> pp_exit p' \<noteq> Running \<longrightarrow> {ChildExited, PtyExited} \<inter> set (pp_rx p) \<noteq> {})
     \<and> set (pp_rx p') \<subseteq> set (pp_rx p)"

lemma drained_output:
  assumes "pp_rx p = PtyOutput data # rest" "drained budget (p\<lparr>pp_rx := rest\<rparr>) left p' evs"
  shows "drained (Suc budget) p left p' (BeOutput i data # evs)"
  using assms by (auto simp: drained_def)

lemma drained_child:
  assumes "pp_rx p = ChildExited # rest"
    "drained budget (p\<lparr>pp_rx := rest, pp_exit := (if pp_exit p = Running then Draining now else pp_exit p)\<rparr>) left p' evs"
  shows "drained (Suc budget) p left p' evs"
  using assms by (auto simp: drained_def split: if_splits)

lemma drain_loop_spec:
  "drain_loop budget now i p slots = (left, p', slots', evs) \<Longrightarrow> drained budget p left p' evs"
proof (induction budget now i p slots arbitrary: left p' slots' evs rule: drain_loop.induct)
  case (1 now i p slots)
  then show ?case by (simp add: drained_def)
next
  case (2 budget now i p slots)
  consider (dry) "pp_rx p = []" | (out) data rest where "pp_rx p = PtyOutput data # rest"
    | (child) rest where "pp_rx p = ChildExited # rest" | (ended) rest where "pp_rx p = PtyExited # rest"
    by (metis list.exhaust pty_event.exhaust)
  then show ?case
  proof cases
    case dry
    with 2(3) show ?thesis by (auto simp: drained_def split: exit_phase.splits if_splits)
  next
    case out
    obtain l q sl es where r: "drain_loop budget now i (p\<lparr>pp_rx := rest\<rparr>) (mark_output i now slots) = (l, q, sl, es)"
      by (metis prod_cases4)
    with 2(3) out have "left = l" "p' = q" "evs = BeOutput i data # es" by auto
    with drained_output [OF out 2(1) [OF out refl r]] show ?thesis by simp
  next
    case child
    with 2(3) have "drain_loop budget now i
      (p\<lparr>pp_rx := rest, pp_exit := (if pp_exit p = Running then Draining now else pp_exit p)\<rparr>) slots = (left, p', slots', evs)" by simp
    from drained_child [OF child 2(2) [OF child refl this]] show ?thesis .
  next
    case ended
    with 2(3) show ?thesis by (auto simp: drained_def)
  qed
qed

definition drain_inv :: "drain_run \<Rightarrow> bool" where
  "drain_inv r \<longleftrightarrow>
     outputs_in (dr_arrived r) = outputs_out (dr_reported r) @ outputs_in (pp_rx (dr_pane r))
     \<and> exits_out (dr_reported r) = (if pp_exit (dr_pane r) = Reported then 1 else 0)
     \<and> (pp_exit (dr_pane r) \<noteq> Running \<longrightarrow> {ChildExited, PtyExited} \<inter> set (dr_arrived r) \<noteq> {})
     \<and> set (pp_rx (dr_pane r)) \<subseteq> set (dr_arrived r)
     \<and> (case pp_window (dr_pane r) of
          None \<Rightarrow> dr_burst r = 0 \<and> dr_reported r = []
        | Some w \<Rightarrow> dr_burst r \<le> dw_used w \<and> dw_used w \<le> PER_PANE_DRAIN_BUDGET)"

lemma drain_inv_step:
  assumes "drain_inv r"
  shows "drain_inv (drain_step i r e)"
proof (cases e)
  case (Arrive ev)
  have "outputs_in [ev] = (case ev of PtyOutput d \<Rightarrow> [d] | _ \<Rightarrow> [])" by (cases ev) auto
  with assms Arrive show ?thesis by (auto simp: drain_inv_def split: option.splits)
next
  case (Pass now)
  let ?p = "dr_pane r" and ?w = "open_window now (dr_pane r)"
  let ?p1 = "?p\<lparr>pp_window := Some ?w\<rparr>" and ?allowed = "PER_PANE_DRAIN_BUDGET - dw_used ?w"
  let ?base = "if pp_window ?p \<noteq> Some ?w then 0 else dr_burst r"
  have used: "dw_used ?w \<le> PER_PANE_DRAIN_BUDGET" "?base \<le> dw_used ?w"
    using assms by (auto simp: drain_inv_def open_window_def split: option.splits if_splits)
  show ?thesis
  proof (cases "?allowed = 0")
    case True
    then have "drain_step i r (Pass now) = r\<lparr>dr_pane := ?p1, dr_reported := dr_reported r, dr_burst := ?base\<rparr>"
      by (simp add: drain_pane_def Let_def)
    with assms used show ?thesis unfolding Pass by (auto simp: drain_inv_def)
  next
    case False
    obtain left p' sl evs where d: "drain_loop ?allowed now i ?p1 [] = (left, p', sl, evs)" by (metis prod_cases4)
    note sp = drain_loop_spec [OF d]
    let ?w' = "?w\<lparr>dw_used := dw_used ?w + (?allowed - left)\<rparr>"
    have "pp_window p' = Some ?w" using sp by (simp add: drained_def)
    then have "drain_step i r (Pass now) =
      r\<lparr>dr_pane := p'\<lparr>pp_window := Some ?w'\<rparr>, dr_reported := dr_reported r @ evs, dr_burst := ?base + length (outputs_out evs)\<rparr>"
      using d False by (simp add: drain_pane_def Let_def)
    moreover have "length (outputs_out evs) \<le> ?allowed - left" "left \<le> ?allowed" using sp by (simp_all add: drained_def)
    moreover have "outputs_in (dr_arrived r) = outputs_out (dr_reported r @ evs) @ outputs_in (pp_rx p')"
      using assms sp by (simp add: drain_inv_def drained_def)
    moreover have "exits_out (dr_reported r @ evs) = (if pp_exit p' = Reported then 1 else 0)"
      using assms sp by (auto simp: drain_inv_def drained_def)
    moreover have "pp_exit p' \<noteq> Running \<longrightarrow> {ChildExited, PtyExited} \<inter> set (dr_arrived r) \<noteq> {}"
      using assms sp by (cases "pp_exit ?p") (auto simp: drain_inv_def drained_def)
    moreover have "set (pp_rx p') \<subseteq> set (dr_arrived r)" using assms sp by (auto simp: drain_inv_def drained_def)
    ultimately show ?thesis using used unfolding Pass drain_inv_def by simp
  qed
qed

interpretation drain_machine: event_machine "\<lambda>_ _. True" "drain_step i" drain_inv for i
  by unfold_locales (rule drain_inv_step)

definition pane_started :: "rstring option \<Rightarrow> pty_pane" where
  "pane_started line = \<lparr>pp_rx = [], pp_exit = Running, pp_window = None, pp_input = input_new, pp_line = line\<rparr>"

definition drain_start :: "rstring option \<Rightarrow> drain_run" where
  "drain_start line = \<lparr>dr_pane = pane_started line, dr_arrived = [], dr_reported = [], dr_burst = 0\<rparr>"

text \<open>
  \<^bold>\<open>C16\<close>. Over any interleaving of a pane's threads and its owner's passes: the output reported is the
  output sent, in order, and the rest is still queued, so the budget delays output and loses none; at most
  64 events are reported within one 8 ms window; the exit is reported at most once, and never without the child or the
  reader having said so.
\<close>

theorem pty_drain_exact:
  fixes es :: "drain_event list" and i :: pane_id and line :: "rstring option"
  defines "r \<equiv> run (drain_step i) (drain_start line) es"
  shows "outputs_out (dr_reported r) @ outputs_in (pp_rx (dr_pane r)) = outputs_in (dr_arrived r)
    \<and> dr_burst r \<le> PER_PANE_DRAIN_BUDGET \<and> exits_out (dr_reported r) \<le> 1
    \<and> (exits_out (dr_reported r) = 0 \<or> ChildExited \<in> set (dr_arrived r) \<or> PtyExited \<in> set (dr_arrived r))"
proof -
  have "drain_inv (drain_start line)" by (simp add: drain_inv_def drain_start_def pane_started_def)
  then have "drain_inv r" unfolding r_def by (rule drain_machine.run_inv) simp
  then show ?thesis by (auto simp: drain_inv_def split: option.splits)
qed

section \<open>The backend\<close>

datatype backend_error = NoSlot | ResumeRefused resume_error | SpawnFailed | IdOverflow | NoToken rng_error
  | NoPane | InputRefused input_error

record pty_backend =
  pb_panes :: "(pane_id \<times> pty_pane) list"
  pb_slots :: pane_slots
  pb_next :: pane_id
  pb_created :: "backend_event list"

definition backend_new :: pty_backend where
  "backend_new = \<lparr>pb_panes = [], pb_slots = [], pb_next = 1, pb_created = []\<rparr>"

definition backend_slot :: "pty_backend \<Rightarrow> pane_id \<Rightarrow> pane_slot option" where
  "backend_slot b i = slots_get (pb_slots b) i"

definition pane_for_token :: "pty_backend \<Rightarrow> pane_token \<Rightarrow> pane_id option" where
  "pane_for_token b t = find_by_token (pb_slots b) t"

definition is_process_alive :: "pty_backend \<Rightarrow> pane_id \<Rightarrow> bool" where
  "is_process_alive b i \<longleftrightarrow> map_of (pb_panes b) i \<noteq> None"

definition release_process :: "pane_id \<Rightarrow> pty_backend \<Rightarrow> pty_backend" where
  "release_process i b = b\<lparr>pb_panes := bt_remove i (pb_panes b)\<rparr>"

definition retire_slot :: "pane_id \<Rightarrow> pty_backend \<Rightarrow> pty_backend" where
  "retire_slot i b = b\<lparr>pb_slots := slots_remove i (pb_slots b)\<rparr>"

definition destroy_pane :: "pane_id \<Rightarrow> pty_backend \<Rightarrow> pty_backend" where
  "destroy_pane i b = b\<lparr>pb_panes := bt_remove i (pb_panes b), pb_slots := slots_remove i (pb_slots b)\<rparr>"

text \<open>\<open>started\<close>: every step of the operating system up to the reader and the writer succeeded.\<close>

definition spawn_pane ::
  "bool \<Rightarrow> instant \<Rightarrow> rstring option \<Rightarrow> pane_identity \<Rightarrow> rstring option \<Rightarrow> pty_backend \<Rightarrow> pty_backend \<times> (backend_error + pane_id)" where
  "spawn_pane started now line ident launch b =
     (if \<not> started then (b, Inl SpawnFailed)
      else if pb_next b = 4294967295 then (b, Inl IdOverflow)
      else
        let i = pb_next b
        in (b\<lparr>pb_next := i + 1, pb_panes := bt_insert i (pane_started line) (pb_panes b),
              pb_slots := slots_insert i ident launch now (pb_slots b)\<rparr>, Inr i))"

definition open_pane ::
  "u8 list option \<Rightarrow> bool \<Rightarrow> instant \<Rightarrow> rstring option \<Rightarrow> pty_backend \<Rightarrow> pty_backend \<times> (backend_error + pane_id)" where
  "open_pane fill started now command b =
     (case pane_identity_new fill of
        Inl e \<Rightarrow> (b, Inl (NoToken e))
      | Inr ident \<Rightarrow> spawn_pane started now command ident command b)"

definition relaunch_pane ::
  "bool \<Rightarrow> instant \<Rightarrow> pane_id \<Rightarrow> rstring list \<Rightarrow> rstring list \<Rightarrow> pty_backend \<Rightarrow> pty_backend \<times> (backend_error + pane_id)" where
  "relaunch_pane started now i resume_args allowed b =
     (case backend_slot b i of
        None \<Rightarrow> (b, Inl NoSlot)
      | Some slot \<Rightarrow>
          (case resume_command_line (slot_command slot) resume_args allowed of
             Inl e \<Rightarrow> (b, Inl (ResumeRefused e))
           | Inr line \<Rightarrow>
               spawn_pane started now (Some line) (advance (slot_identity slot)) (slot_command slot)
                 (b\<lparr>pb_panes := bt_remove i (pb_panes b), pb_slots := slots_remove i (pb_slots b)\<rparr>)))"

definition create_pane ::
  "u8 list option \<Rightarrow> bool \<Rightarrow> instant \<Rightarrow> u16 \<Rightarrow> u16 \<Rightarrow> rstring option \<Rightarrow> pty_backend \<Rightarrow> pty_backend \<times> (backend_error + unit)" where
  "create_pane fill started now rows cols command b =
     (case open_pane fill started now command b of
        (b, Inl e) \<Rightarrow> (b, Inl e)
      | (b, Inr i) \<Rightarrow> (b\<lparr>pb_created := pb_created b @ [BeCreated i rows cols True None]\<rparr>, Inr ()))"

definition send_input :: "pane_id \<Rightarrow> u8 list \<Rightarrow> pty_backend \<Rightarrow> pty_backend \<times> (backend_error + unit)" where
  "send_input i data b =
     (case map_of (pb_panes b) i of
        None \<Rightarrow> (b, Inl NoPane)
      | Some p \<Rightarrow>
          (case enqueue data (pp_input p) of
             (q, Inr _) \<Rightarrow> (b\<lparr>pb_panes := bt_insert i (p\<lparr>pp_input := q\<rparr>) (pb_panes b)\<rparr>, Inr ())
           | (q, Inl e) \<Rightarrow> (b, Inl (InputRefused e))))"

definition drain_queued :: "bool \<Rightarrow> instant \<Rightarrow> pty_backend \<Rightarrow> pty_backend \<times> backend_event list" where
  "drain_queued paced now b =
     (let (ps, slots, evs) = drain_panes paced now (pb_panes b) (pb_slots b)
      in (b\<lparr>pb_panes := ps, pb_slots := slots, pb_created := []\<rparr>, pb_created b @ evs))"

definition pane_deadlines :: "pty_pane \<Rightarrow> instant list" where
  "pane_deadlines p =
     (case pp_exit p of Draining since \<Rightarrow> [since + EXIT_DRAIN_GRACE] | _ \<Rightarrow> [])
     @ (case pp_window p of
          Some w \<Rightarrow> if dw_used w \<ge> PER_PANE_DRAIN_BUDGET then [window_end w] else []
        | None \<Rightarrow> [])"

definition least :: "instant list \<Rightarrow> instant option" where
  "least ts = (case ts of [] \<Rightarrow> None | t # ts \<Rightarrow> Some (foldl min t ts))"

definition backend_deadline :: "pty_backend \<Rightarrow> instant option" where
  "backend_deadline b = least (concat (map (\<lambda>(_, p). pane_deadlines p) (pb_panes b)))"

end
