(* ===== verification/Stream_Boundary.thy ===== *)
theory Stream_Boundary
  imports Prelude
begin

text \<open>
  Whether a pane's byte stream stands between two sequences, \<^verbatim>\<open>src/runtime/emulator/boundary.rs\<close>: the states of the
  terminal parser that matter for splicing a snapshot into a replay. A byte range of a Rust
  pattern is \<open>within\<close>.
\<close>

datatype bstate =
    Ground
  | Escape
  | EscapeIntermediate
  | Csi
  | Osc
  | OscEsc
  | Str
  | StrEsc
  | Utf8 u8

definition within :: "nat \<Rightarrow> nat \<Rightarrow> u8 \<Rightarrow> bool" where
  "within lo hi b \<longleftrightarrow> lo \<le> unat b \<and> unat b \<le> hi"

text \<open>One turn of the loop in \<^verbatim>\<open>step\<close>: the next state, and whether the byte is dispatched again from it.\<close>

fun dispatch :: "bstate \<Rightarrow> u8 \<Rightarrow> bstate \<times> bool" where
  "dispatch Ground b =
     (if b = 0x1b then (Escape, False)
      else if within 0xc2 0xdf b then (Utf8 1, False)
      else if within 0xe0 0xef b then (Utf8 2, False)
      else if within 0xf0 0xf4 b then (Utf8 3, False)
      else (Ground, False))"
| "dispatch (Utf8 left) b =
     (if within 0x80 0xbf b \<and> left = 1 then (Ground, False)
      else if within 0x80 0xbf b then (Utf8 (left - 1), False)
      else (Ground, True))"
| "dispatch Escape b =
     (if b = 0x5b then (Csi, False)
      else if b = 0x5d then (Osc, False)
      else if b \<in> {0x50, 0x58, 0x5e, 0x5f} then (Str, False)
      else if within 0x20 0x2f b then (EscapeIntermediate, False)
      else if b = 0x18 \<or> b = 0x1a then (Ground, False)
      else if b = 0x1b then (Escape, False)
      else if within 0x30 0x7e b then (Ground, False)
      else (Escape, False))"
| "dispatch EscapeIntermediate b =
     (if within 0x20 0x2f b then (EscapeIntermediate, False)
      else if within 0x30 0x7e b \<or> b = 0x18 \<or> b = 0x1a then (Ground, False)
      else if b = 0x1b then (Escape, False)
      else (EscapeIntermediate, False))"
| "dispatch Csi b =
     (if within 0x40 0x7e b \<or> b = 0x18 \<or> b = 0x1a then (Ground, False)
      else if b = 0x1b then (Escape, False)
      else (Csi, False))"
| "dispatch Osc b =
     (if b = 0x07 \<or> b = 0x18 \<or> b = 0x1a then (Ground, False)
      else if b = 0x1b then (OscEsc, False)
      else (Osc, False))"
| "dispatch OscEsc b = (if b = 0x5c then (Ground, False) else (Escape, True))"
| "dispatch Str b =
     (if b = 0x18 \<or> b = 0x1a then (Ground, False)
      else if b = 0x1b then (StrEsc, False)
      else (Str, False))"
| "dispatch StrEsc b = (if b = 0x5c then (Ground, False) else (Escape, True))"

fun pending :: "bstate \<Rightarrow> nat" where
  "pending (Utf8 _) = 1"
| "pending OscEsc = 1"
| "pending StrEsc = 1"
| "pending _ = 0"

lemma dispatch_again: "dispatch s b = (s', True) \<Longrightarrow> pending s' < pending s"
  by (cases s) (auto split: if_splits)

function step :: "bstate \<Rightarrow> u8 \<Rightarrow> bstate" where
  "step s b = (case dispatch s b of (s', again) \<Rightarrow> if again then step s' b else s')"
  by pat_completeness auto
termination
  by (relation "measure (\<lambda>(s, _). pending s)") (auto dest!: sym [of "(_, _)"] intro: dispatch_again)

declare step.simps [simp del]

definition feed :: "bstate \<Rightarrow> u8 list \<Rightarrow> bstate" where
  "feed s bytes = foldl step s bytes"

definition at_boundary :: "bstate \<Rightarrow> bool" where
  "at_boundary s \<longleftrightarrow> s = Ground"

lemma feed_simps [simp]: "feed s [] = s" "feed s (b # bs) = feed (step s b) bs" "feed s (xs @ ys) = feed (feed s xs) ys"
  by (simp_all add: feed_def)

lemma step_plain: "dispatch s b = (s', False) \<Longrightarrow> step s b = s'"
  by (subst step.simps) simp

section \<open>Whole sequences\<close>

text \<open>What a terminal stream is made of: characters and the escape sequences, each complete.\<close>

datatype item =
    Char rchar
  | EscSeq "u8 list" u8
  | CsiSeq "u8 list" u8
  | OscSeq "u8 list" bool
  | StrSeq u8 "u8 list"

fun item_bytes :: "item \<Rightarrow> u8 list" where
  "item_bytes (Char c) = utf8_bytes c"
| "item_bytes (EscSeq mids f) = 0x1b # mids @ [f]"
| "item_bytes (CsiSeq params f) = 0x1b # 0x5b # params @ [f]"
| "item_bytes (OscSeq body bel) = 0x1b # 0x5d # body @ (if bel then [0x07] else [0x1b, 0x5c])"
| "item_bytes (StrSeq k body) = 0x1b # k # body @ [0x1b, 0x5c]"

fun item_ok :: "item \<Rightarrow> bool" where
  "item_ok (Char c) = (c < 0x110000 \<and> c \<noteq> 27)"
| "item_ok (EscSeq mids f) =
     (list_all (within 0x20 0x2f) mids \<and> within 0x30 0x7e f
      \<and> (mids = [] \<longrightarrow> f \<notin> {0x5b, 0x5d, 0x50, 0x58, 0x5e, 0x5f}))"
| "item_ok (CsiSeq params f) =
     (list_all (\<lambda>b. \<not> within 0x40 0x7e b \<and> b \<notin> {0x18, 0x1a, 0x1b}) params \<and> within 0x40 0x7e f)"
| "item_ok (OscSeq body bel) = list_all (\<lambda>b. b \<notin> {0x07, 0x18, 0x1a, 0x1b}) body"
| "item_ok (StrSeq k body) = (k \<in> {0x50, 0x58, 0x5e, 0x5f} \<and> list_all (\<lambda>b. b \<notin> {0x18, 0x1a, 0x1b}) body)"

text \<open>\<open>inside s bs\<close>: from \<open>s\<close> the bytes are mid-sequence until the last of them closes it.\<close>

fun inside :: "bstate \<Rightarrow> u8 list \<Rightarrow> bool" where
  "inside s [] = (s = Ground)"
| "inside s (b # bs) = (s \<noteq> Ground \<and> inside (step s b) bs)"

lemma inside_feed: "inside s bs \<Longrightarrow> feed s bs = Ground"
  by (induction bs arbitrary: s) auto

lemma inside_open: "inside s bs \<Longrightarrow> k < length bs \<Longrightarrow> feed s (take k bs) \<noteq> Ground"
  by (induction bs arbitrary: s k) (auto simp: take_Cons split: nat.split)

lemma inside_stay:
  "s \<noteq> Ground \<Longrightarrow> list_all (\<lambda>b. step s b = s) body \<Longrightarrow> inside s (body @ rest) = inside s rest"
  by (induction body) auto

definition whole :: "u8 list \<Rightarrow> bool" where
  "whole bs \<longleftrightarrow> (case bs of [] \<Rightarrow> False | b # rest \<Rightarrow> inside (step Ground b) rest)"

lemma within_numeral:
  "within lo hi (numeral n) \<longleftrightarrow> lo \<le> unat (numeral n :: u8) \<and> unat (numeral n :: u8) \<le> hi"
  by (simp add: within_def)

lemma step_Ground_Esc: "step Ground 0x1b = Escape"
  by (rule step_plain) simp

lemma unat_byte: "n < 256 \<Longrightarrow> unat (of_nat n :: u8) = n"
  by (simp add: unsigned_of_nat take_bit_nat_eq_self)

lemma byte_eq: "n < 256 \<Longrightarrow> m < 256 \<Longrightarrow> (of_nat n :: u8) = of_nat m \<longleftrightarrow> n = m"
  by (metis unat_byte)

lemma step_lead:
  assumes "n < 256" "n \<noteq> 27"
  shows "step Ground (of_nat n) =
    (if 0xc2 \<le> n \<and> n \<le> 0xdf then Utf8 1 else if 0xe0 \<le> n \<and> n \<le> 0xef then Utf8 2
     else if 0xf0 \<le> n \<and> n \<le> 0xf4 then Utf8 3 else Ground)"
proof -
  have "(of_nat n :: u8) \<noteq> 0x1b" using byte_eq [of n 27] assms by simp
  then show ?thesis using assms(1) by (intro step_plain) (simp add: within_def unat_byte)
qed

lemma step_continuation:
  "step (Utf8 left) (of_nat (128 + n mod 64)) = (if left = 1 then Ground else Utf8 (left - 1))"
proof -
  have "128 + n mod 64 \<le> 191" using mod_less_divisor [of 64 n] by linarith
  then have "unat (of_nat (128 + n mod 64) :: u8) = 128 + n mod 64" by (intro unat_byte) linarith
  with \<open>128 + n mod 64 \<le> 191\<close> have "within 0x80 0xbf (of_nat (128 + n mod 64))" by (simp add: within_def del: of_nat_add)
  then show ?thesis by (intro step_plain) (simp del: of_nat_add)
qed

lemma whole_char:
  assumes "c < 0x110000" "c \<noteq> 27"
  shows "whole (utf8_bytes c)"
proof -
  consider "c < 128" | "128 \<le> c" "c < 2048" | "2048 \<le> c" "c < 65536" | "65536 \<le> c" by linarith
  then show ?thesis
  proof cases
    case 1
    with assms step_lead [of c] show ?thesis by (simp add: whole_def utf8_bytes_def)
  next
    case 2
    then have "2 \<le> c div 64" "c div 64 < 32" by (auto simp: less_mult_imp_div_less)
    with step_lead [of "192 + c div 64"] have "step Ground (of_nat (192 + c div 64)) = Utf8 1" by simp
    with 2 step_continuation [of 1 c] show ?thesis by (simp only: whole_def utf8_bytes_def) simp
  next
    case 3
    then have "c div 4096 < 16" by (auto simp: less_mult_imp_div_less)
    with step_lead [of "224 + c div 4096"] have "step Ground (of_nat (224 + c div 4096)) = Utf8 2" by simp
    with 3 step_continuation [of 2 "c div 64"] step_continuation [of 1 c] show ?thesis
      by (simp only: whole_def utf8_bytes_def) simp
  next
    case 4
    then have "c div 262144 < 5" using assms by (auto simp: less_mult_imp_div_less)
    with step_lead [of "240 + c div 262144"] have "step Ground (of_nat (240 + c div 262144)) = Utf8 3" by simp
    with 4 step_continuation [of 3 "c div 4096"] step_continuation [of 2 "c div 64"] step_continuation [of 1 c]
    show ?thesis by (simp only: whole_def utf8_bytes_def) simp
  qed
qed

lemma within_edges: "within lo hi b \<Longrightarrow> n < lo \<or> hi < n \<Longrightarrow> n < 256 \<Longrightarrow> b \<noteq> of_nat n"
  by (auto simp: within_def unat_byte)

lemma step_stays:
  "within 0x20 0x2f b \<Longrightarrow> step EscapeIntermediate b = EscapeIntermediate"
  "\<not> within 0x40 0x7e b \<and> b \<notin> {0x18, 0x1a, 0x1b} \<Longrightarrow> step Csi b = Csi"
  "b \<notin> {0x07, 0x18, 0x1a, 0x1b} \<Longrightarrow> step Osc b = Osc"
  "b \<notin> {0x18, 0x1a, 0x1b} \<Longrightarrow> step Str b = Str"
  by (rule step_plain; simp)+

lemma step_body:
  "list_all (within 0x20 0x2f) bs \<Longrightarrow> list_all (\<lambda>b. step EscapeIntermediate b = EscapeIntermediate) bs"
  "list_all (\<lambda>b. \<not> within 0x40 0x7e b \<and> b \<notin> {0x18, 0x1a, 0x1b}) bs \<Longrightarrow> list_all (\<lambda>b. step Csi b = Csi) bs"
  "list_all (\<lambda>b. b \<notin> {0x07, 0x18, 0x1a, 0x1b}) bs \<Longrightarrow> list_all (\<lambda>b. step Osc b = Osc) bs"
  "list_all (\<lambda>b. b \<notin> {0x18, 0x1a, 0x1b}) bs \<Longrightarrow> list_all (\<lambda>b. step Str b = Str) bs"
  by (erule list.pred_mono_strong, rule step_stays, assumption)+

lemma whole_esc:
  assumes "item_ok (EscSeq mids f)"
  shows "whole (item_bytes (EscSeq mids f))"
proof -
  have f: "within 0x30 0x7e f" using assms by simp
  have ne: "f \<noteq> 0x18" "f \<noteq> 0x1a" "f \<noteq> 0x1b" "\<not> within 0x20 0x2f f"
    using f by (auto simp: within_def)
  have end_mid: "step EscapeIntermediate f = Ground" using f ne by (intro step_plain) simp
  show ?thesis
  proof (cases mids)
    case Nil
    have "step Escape f = Ground" using Nil assms f ne by (intro step_plain) auto
    with Nil show ?thesis by (simp add: whole_def step_Ground_Esc)
  next
    case (Cons m ms)
    have m: "within 0x20 0x2f m" "list_all (within 0x20 0x2f) ms" using assms Cons by simp_all
    then have "m \<notin> {0x5b, 0x5d, 0x50, 0x58, 0x5e, 0x5f}" by (auto simp: within_def)
    with m(1) have "step Escape m = EscapeIntermediate" by (intro step_plain) auto
    with Cons end_mid step_body(1) [OF m(2)] show ?thesis
      by (simp add: whole_def step_Ground_Esc inside_stay)
  qed
qed

lemma step_closers:
  "step Escape 0x5b = Csi" "step Escape 0x5d = Osc" "step Osc 0x07 = Ground" "step Osc 0x1b = OscEsc"
  "step OscEsc 0x5c = Ground" "step Str 0x1b = StrEsc" "step StrEsc 0x5c = Ground"
  "within 0x40 0x7e f \<Longrightarrow> step Csi f = Ground"
  "k \<in> {0x50, 0x58, 0x5e, 0x5f} \<Longrightarrow> step Escape k = Str"
  by (rule step_plain; force)+

lemma whole_item: "item_ok it \<Longrightarrow> whole (item_bytes it)"
proof (cases it)
  case (Char c)
  assume "item_ok it"
  with Char show ?thesis by (simp add: whole_char)
next
  case (EscSeq mids f)
  assume "item_ok it"
  with EscSeq show ?thesis by (simp only: whole_esc)
next
  case (CsiSeq params f)
  assume "item_ok it"
  with CsiSeq show ?thesis by (simp add: whole_def step_Ground_Esc step_closers inside_stay step_body)
next
  case (OscSeq body bel)
  assume "item_ok it"
  with OscSeq step_body(3) [of body] show ?thesis by (simp add: whole_def step_Ground_Esc step_closers inside_stay)
next
  case (StrSeq k body)
  assume "item_ok it"
  with StrSeq step_body(4) [of body] step_closers(9) [of k] show ?thesis
    by (simp add: whole_def step_Ground_Esc step_closers inside_stay)
qed

lemma whole_feed:
  assumes "whole bs"
  shows "bs \<noteq> []" "feed Ground bs = Ground" "0 < k \<Longrightarrow> k < length bs \<Longrightarrow> feed Ground (take k bs) \<noteq> Ground"
proof -
  obtain b rest where bs: "bs = b # rest" and i: "inside (step Ground b) rest"
    using assms by (auto simp: whole_def split: list.splits)
  show "bs \<noteq> []" "feed Ground bs = Ground" using bs inside_feed [OF i] by auto
  assume "0 < k" "k < length bs"
  then show "feed Ground (take k bs) \<noteq> Ground"
    using inside_open [OF i, of "k - 1"] bs by (cases k) auto
qed

lemma boundary_edges:
  "list_all whole xs \<Longrightarrow> n \<le> length (concat xs) \<Longrightarrow>
   feed Ground (take n (concat xs)) = Ground \<longleftrightarrow> (\<exists>k \<le> length xs. n = length (concat (take k xs)))"
proof (induction xs arbitrary: n)
  case (Cons x xs)
  then have x: "whole x" and xs: "list_all whole xs" by simp_all
  note w = whole_feed [OF x]
  consider "n = 0" | "0 < n" "n < length x" | "length x \<le> n" by linarith
  then show ?case
  proof cases
    case 1
    then show ?thesis by (auto intro: exI [of _ 0])
  next
    case 2
    have "n \<noteq> length (concat (take k (x # xs)))" for k using 2 by (cases k) auto
    with 2 w(3) show ?thesis by auto
  next
    case 3
    have "feed Ground (take n (concat (x # xs))) = feed Ground (take (n - length x) (concat xs))"
      using 3 w(2) by simp
    also have "\<dots> = Ground \<longleftrightarrow> (\<exists>k \<le> length xs. n - length x = length (concat (take k xs)))"
      using Cons.IH [OF xs, of "n - length x"] Cons.prems(2) by simp
    also have "\<dots> \<longleftrightarrow> (\<exists>k \<le> length (x # xs). n = length (concat (take k (x # xs))))"
    proof
      assume "\<exists>k \<le> length xs. n - length x = length (concat (take k xs))"
      then obtain k where "k \<le> length xs" "n - length x = length (concat (take k xs))" by blast
      with 3 show "\<exists>k \<le> length (x # xs). n = length (concat (take k (x # xs)))" by (intro exI [of _ "Suc k"]) simp
    next
      assume "\<exists>k \<le> length (x # xs). n = length (concat (take k (x # xs)))"
      then obtain k where k: "k \<le> length (x # xs)" "n = length (concat (take k (x # xs)))" by blast
      with 3 w(1) obtain j where "k = Suc j" by (cases k) auto
      with k show "\<exists>k \<le> length xs. n - length x = length (concat (take k xs))" by auto
    qed
    finally show ?thesis .
  qed
qed simp

text \<open>
  \<^bold>\<open>C36\<close>. The tracker is exact on well-formed output: feed it any stream of characters and complete escape sequences, cut
  off anywhere, and it reports a boundary exactly when the cut falls between two of them. So a
  snapshot is never spliced into the middle of a character or a sequence, and one is possible
  after every whole one. And from any state whatever, a \<^verbatim>\<open>CAN\<close> or \<^verbatim>\<open>SUB\<close> byte closes what is open.
\<close>

theorem boundary_exact:
  "(list_all item_ok items \<and> n \<le> length (concat (map item_bytes items)) \<longrightarrow>
      (at_boundary (feed Ground (take n (concat (map item_bytes items)))) \<longleftrightarrow>
       (\<exists>k \<le> length items. n = length (concat (map item_bytes (take k items))))))
   \<and> at_boundary (step s 0x18) \<and> at_boundary (step s 0x1a)"
proof -
  have "at_boundary (step s 0x18)" "at_boundary (step s 0x1a)"
    unfolding at_boundary_def by (cases s; subst step.simps; simp add: within_def; subst step.simps; simp add: within_def)+
  moreover have "list_all whole (map item_bytes items)" if "list_all item_ok items"
    using that whole_item by (auto simp: list_all_iff)
  ultimately show ?thesis using boundary_edges [of "map item_bytes items" n] by (simp add: at_boundary_def take_map)
qed

lemma sample_items:
  "list_all item_ok [Char 233, Char 97, CsiSeq [51, 49] 109]"
  "map item_bytes [Char 233, Char 97, CsiSeq [51, 49] 109] = [[195, 169], [97], [27, 91, 51, 49, 109]]"
  by (simp_all add: within_def utf8_bytes_def)

lemma upto_3: "(\<exists>k \<le> 3. P k) \<longleftrightarrow> P 0 \<or> P 1 \<or> P 2 \<or> P (3 :: nat)"
  by (auto simp: numeral_eq_Suc le_Suc_eq)

theorem boundary_exact_witness:
  "at_boundary (feed Ground (take 4 (concat (map item_bytes [Char 233, Char 97, CsiSeq [51, 49] 109])))) = False
   \<and> at_boundary (feed Ground (take 3 (concat (map item_bytes [Char 233, Char 97, CsiSeq [51, 49] 109])))) = True"
proof -
  let ?it = "[Char 233, Char 97, CsiSeq [51, 49] 109]"
  have len: "length (concat (map item_bytes (take k ?it))) = length (concat (take k (map item_bytes ?it)))" for k
    by (simp only: take_map)
  have three: "length ?it = 3" by simp
  have ends: "(\<exists>k \<le> length ?it. n = length (concat (map item_bytes (take k ?it)))) \<longleftrightarrow> n \<in> {0, 2, 3, 8}" for n
    unfolding len sample_items three upto_3 by (simp add: numeral_eq_Suc)
  have "length (concat (map item_bytes ?it)) = 8" unfolding sample_items by simp
  with boundary_exact [of ?it 4 Ground] boundary_exact [of ?it 3 Ground] sample_items(1)
  show ?thesis unfolding ends by simp
qed

end
