(* ===== verification/Output_Text.thy ===== *)
theory Output_Text
  imports Stream_Boundary
begin

text \<open>
  The text of a chunk of output, \<^verbatim>\<open>src/runtime/terminal/escape.rs\<close>, with what it uses of the standard library:
  \<^verbatim>\<open>String::from_utf8_lossy\<close> replaces every maximal invalid run by one U+FFFD.
\<close>

section \<open>Lossy decoding\<close>

definition byte_at :: "u8 list \<Rightarrow> nat \<Rightarrow> u8" where
  "byte_at bs i = (if i < length bs then bs ! i else 0)"

definition continuation :: "u8 \<Rightarrow> bool" where
  "continuation b = within 0x80 0xbf b"

definition tail_bits :: "u8 \<Rightarrow> nat" where
  "tail_bits b = unat b mod 64"

definition replacement :: rchar where
  "replacement = 0xfffd"

text \<open>The character at the front of a non-empty sequence and how many bytes it takes.\<close>

definition utf8_front :: "u8 list \<Rightarrow> rchar \<times> nat" where
  "utf8_front bs =
     (let b = byte_at bs 0; b1 = byte_at bs 1; b2 = byte_at bs 2; b3 = byte_at bs 3
      in if within 0 0x7f b then (unat b, 1)
         else if within 0xc2 0xdf b
         then (if continuation b1 then (unat b mod 32 * 64 + tail_bits b1, 2) else (replacement, 1))
         else if within 0xe0 0xef b
         then (if (b = 0xe0 \<and> within 0xa0 0xbf b1) \<or> (within 0xe1 0xec b \<and> continuation b1)
                  \<or> (b = 0xed \<and> within 0x80 0x9f b1) \<or> (within 0xee 0xef b \<and> continuation b1)
               then (if continuation b2
                     then (unat b mod 16 * 4096 + tail_bits b1 * 64 + tail_bits b2, 3)
                     else (replacement, 2))
               else (replacement, 1))
         else if within 0xf0 0xf4 b
         then (if (b = 0xf0 \<and> within 0x90 0xbf b1) \<or> (within 0xf1 0xf3 b \<and> continuation b1)
                  \<or> (b = 0xf4 \<and> within 0x80 0x8f b1)
               then (if continuation b2
                     then (if continuation b3
                           then (unat b mod 8 * 262144 + tail_bits b1 * 4096 + tail_bits b2 * 64 + tail_bits b3, 4)
                           else (replacement, 3))
                     else (replacement, 2))
               else (replacement, 1))
         else (replacement, 1))"

lemma utf8_front_pos: "0 < snd (utf8_front bs)"
  by (simp add: utf8_front_def Let_def)

function from_utf8_lossy :: "u8 list \<Rightarrow> rstring" where
  "from_utf8_lossy bs =
     (if bs = [] then []
      else fst (utf8_front bs) # from_utf8_lossy (drop (snd (utf8_front bs)) bs))"
  by pat_completeness auto
termination
  by (relation "measure length") (use utf8_front_pos in auto)

declare from_utf8_lossy.simps [simp del]

section \<open>Strict decoding\<close>

text \<open>A Unicode scalar value, what a Rust \<^verbatim>\<open>char\<close> can be.\<close>

definition is_scalar :: "rchar \<Rightarrow> bool" where
  "is_scalar c \<longleftrightarrow> c < 0xd800 \<or> (0xdfff < c \<and> c < 0x110000)"

lemma within_byte: "n < 256 \<Longrightarrow> within lo hi (of_nat n :: u8) \<longleftrightarrow> lo \<le> n \<and> n \<le> hi"
  by (simp add: within_def unat_byte)

lemma byte_eq_word: "n < 256 \<Longrightarrow> (of_nat n :: u8) = w \<longleftrightarrow> n = unat w"
  using unat_byte [of n] by auto

lemma mod_shift: "x < m \<Longrightarrow> (k * m + x) mod m = x" for x m k :: nat
  by simp

lemma base64: "c = c div 4096 * 4096 + c div 64 mod 64 * 64 + c mod 64" for c :: nat
proof -
  have "c = c div 64 * 64 + c mod 64" "c div 64 = c div 64 div 64 * 64 + c div 64 mod 64" by simp_all
  moreover have "c div 64 div 64 = c div 4096" by (simp add: div_mult2_eq [symmetric])
  ultimately show ?thesis by linarith
qed

lemma base64_4: "c = c div 262144 * 262144 + c div 4096 mod 64 * 4096 + c div 64 mod 64 * 64 + c mod 64" for c :: nat
proof -
  have "c div 4096 = c div 4096 div 64 * 64 + c div 4096 mod 64" by simp
  moreover have "c div 4096 div 64 = c div 262144" by (simp add: div_mult2_eq [symmetric])
  ultimately show ?thesis using base64 [of c] by linarith
qed

lemma byte_at_simps [simp]:
  "byte_at (b # bs) 0 = b" "byte_at (b # bs) (Suc 0) = byte_at bs 0" "byte_at (b # bs) 2 = byte_at bs 1" "byte_at (b # bs) 3 = byte_at bs 2"
  by (simp_all add: byte_at_def numeral_eq_Suc)

lemmas front_eval = Let_def utf8_front_def utf8_bytes_def char_len_def within_byte unat_byte byte_eq_word continuation_def tail_bits_def

lemma utf8_front_char:
  assumes "is_scalar c"
  shows "utf8_front (utf8_bytes c @ rest) = (c, char_len c)"
proof -
  consider "c < 0x80" | "0x80 \<le> c" "c < 0x800" | "0x800 \<le> c" "c < 0x10000" | "0x10000 \<le> c" by linarith
  then show ?thesis
  proof cases
    case 1
    then show ?thesis by (simp add: front_eval)
  next
    case 2
    define a d where "a = c div 64" and "d = c mod 64"
    have c: "c = a * 64 + d" "d < 64" by (simp_all add: a_def d_def)
    with 2 have "2 \<le> a" "a < 32" by auto
    then have "(192 + a) mod 32 = a" "(128 + d) mod 64 = d" using mod_shift [of a 32 6] mod_shift [of d 64 2] c \<open>a < 32\<close> by simp_all
    then show ?thesis using 2 c \<open>2 \<le> a\<close> \<open>a < 32\<close> by (simp add: front_eval del: of_nat_add flip: a_def d_def)
  next
    case 3
    define a b d where "a = c div 4096" and "b = c div 64 mod 64" and "d = c mod 64"
    have c: "c = a * 4096 + b * 64 + d" "b < 64" "d < 64" using base64 [of c] by (simp_all add: a_def b_def d_def)
    with 3 have a: "a < 16" by linarith
    have "a = 0 \<Longrightarrow> 32 \<le> b" "a = 13 \<Longrightarrow> b < 32" using 3 c assms unfolding is_scalar_def by linarith+
    moreover have "(224 + a) mod 16 = a" "(128 + b) mod 64 = b" "(128 + d) mod 64 = d"
      using mod_shift [of a 16 14] mod_shift [of b 64 2] mod_shift [of d 64 2] a c by simp_all
    moreover have "a = 0 \<or> (1 \<le> a \<and> a \<le> 12) \<or> a = 13 \<or> (14 \<le> a \<and> a \<le> 15)" using a by linarith
    ultimately show ?thesis using 3 a c(2,3) by (auto simp: front_eval c(1) [symmetric] simp del: of_nat_add simp flip: a_def b_def d_def)
  next
    case 4
    define a b d e where "a = c div 262144" and "b = c div 4096 mod 64" and "d = c div 64 mod 64" and "e = c mod 64"
    have c: "c = a * 262144 + b * 4096 + d * 64 + e" "b < 64" "d < 64" "e < 64" using base64_4 [of c] by (simp_all add: a_def b_def d_def e_def)
    with 4 assms have a: "a < 5" unfolding is_scalar_def by linarith
    have "a = 0 \<Longrightarrow> 16 \<le> b" "a = 4 \<Longrightarrow> b < 16" using 4 c assms unfolding is_scalar_def by linarith+
    moreover have "(240 + a) mod 8 = a" "(128 + b) mod 64 = b" "(128 + d) mod 64 = d" "(128 + e) mod 64 = e"
      using mod_shift [of a 8 30] mod_shift [of b 64 2] mod_shift [of d 64 2] mod_shift [of e 64 2] a c by simp_all
    moreover have "a = 0 \<or> (1 \<le> a \<and> a \<le> 3) \<or> a = 4" using a by linarith
    ultimately show ?thesis using 4 a c(2-4) by (auto simp: front_eval c(1) [symmetric] simp del: of_nat_add simp flip: a_def b_def d_def e_def)
  qed
qed

text \<open>Strict decoding: a sequence is UTF-8 exactly when decoding it and encoding the result gives it back.\<close>

definition from_utf8 :: "u8 list \<Rightarrow> rstring option" where
  "from_utf8 bs = (let s = from_utf8_lossy bs in if str_bytes s = bs then Some s else None)"

lemma from_utf8_lossy_str_bytes: "list_all is_scalar s \<Longrightarrow> from_utf8_lossy (str_bytes s) = s"
proof (induction s)
  case (Cons c s)
  have "utf8_bytes c \<noteq> []" by (simp add: utf8_bytes_def)
  with Cons show ?case
    by (simp add: from_utf8_lossy.simps [of "utf8_bytes c @ str_bytes s"] utf8_front_char char_len_def)
qed (simp add: from_utf8_lossy.simps)

lemma from_utf8_str_bytes [simp]: "list_all is_scalar s \<Longrightarrow> from_utf8 (str_bytes s) = Some s"
  by (simp add: from_utf8_def from_utf8_lossy_str_bytes)

section \<open>Stripping escape sequences\<close>

fun consume_csi :: "rstring \<Rightarrow> rstring" where
  "consume_csi [] = []"
| "consume_csi (c # cs) =
     (if c < 0x20 then c # cs
      else if c = 0x7f then consume_csi cs
      else if 0x40 \<le> c \<and> c \<le> 0x7e then cs
      else consume_csi cs)"

fun consume_osc :: "rstring \<Rightarrow> rstring" where
  "consume_osc [] = []"
| "consume_osc (c # cs) =
     (if c = 0x07 then cs
      else if c = 0x1b \<and> cs \<noteq> [] \<and> hd cs = 0x5c then tl cs
      else consume_osc cs)"

definition consume_ss3 :: "rstring \<Rightarrow> rstring" where
  "consume_ss3 cs = (case cs of [] \<Rightarrow> [] | c # rest \<Rightarrow> if 0x40 \<le> c \<and> c \<le> 0x7e then rest else cs)"

definition consume_escape_sequence :: "rstring \<Rightarrow> rstring" where
  "consume_escape_sequence cs =
     (case cs of
        [] \<Rightarrow> []
      | c # rest \<Rightarrow>
          if c = 0x5b then consume_csi rest
          else if c = 0x5d then consume_osc rest
          else if c = 0x4f then consume_ss3 rest
          else if c \<in> {0x28, 0x29, 0x2a, 0x2b, 0x2d, 0x2e, 0x2f, 0x23} then drop 1 rest
          else cs)"

lemma length_consume:
  "length (consume_csi cs) \<le> length cs" "length (consume_osc cs) \<le> length cs"
  "length (consume_ss3 cs) \<le> length cs" "length (consume_escape_sequence cs) \<le> length cs"
proof -
  show a: "length (consume_csi cs) \<le> length cs" for cs by (induction cs rule: consume_csi.induct) auto
  show b: "length (consume_osc cs) \<le> length cs" for cs by (induction cs rule: consume_osc.induct) auto
  show c: "length (consume_ss3 cs) \<le> length cs" for cs by (auto simp: consume_ss3_def split: list.split)
  have "length (f rest) \<le> Suc (length rest)" if "\<And>cs. length (f cs) \<le> length cs" for f :: "rstring \<Rightarrow> rstring" and rest
    using that [of rest] by linarith
  from this [OF a] this [OF b] this [OF c] show "length (consume_escape_sequence cs) \<le> length cs"
    by (auto simp: consume_escape_sequence_def split: list.split)
qed

function strip_text :: "rstring \<Rightarrow> rstring" where
  "strip_text [] = []"
| "strip_text (c # cs) =
     (if c = 0x1b then strip_text (consume_escape_sequence cs)
      else if c \<in> {0x0d, 0x0a, 0x08, 0x7f} \<or> \<not> is_control c then c # strip_text cs
      else strip_text cs)"
  by pat_completeness auto
termination
  by (relation "measure length") (use length_consume in \<open>auto simp: less_Suc_eq_le\<close>)

definition strip_escape_sequences :: "u8 list \<Rightarrow> rstring" where
  "strip_escape_sequences data = strip_text (from_utf8_lossy data)"

definition keeps_char :: "rchar \<Rightarrow> bool" where
  "keeps_char c \<longleftrightarrow> c \<in> {0x0d, 0x0a, 0x08, 0x7f} \<or> \<not> is_control c"

lemma strip_text_keeps: "list_all keeps_char (strip_text cs)"
  by (induction cs rule: strip_text.induct) (auto simp: keeps_char_def)

lemma consume_csi_whole:
  "list_all (\<lambda>c. 0x20 \<le> c \<and> c < 0x40) ps \<Longrightarrow> 0x40 \<le> f \<Longrightarrow> f \<le> 0x7e \<Longrightarrow> consume_csi (ps @ f # rest) = rest"
  by (induction ps) auto

lemma consume_osc_whole:
  "list_all (\<lambda>c. c \<noteq> 0x07 \<and> c \<noteq> 0x1b) ps \<Longrightarrow> consume_osc (ps @ 0x07 # rest) = rest"
  by (induction ps) auto

lemma strip_text_plain: "0x1b \<notin> set cs \<Longrightarrow> strip_text (cs @ rest) = filter keeps_char cs @ strip_text rest"
  by (induction cs) (auto simp: keeps_char_def)

text \<open>
  \<^bold>\<open>C34\<close>. The text handed to a plugin contains no escape character and no other control character than carriage
  return, newline, backspace and delete; text without an escape character keeps everything else; and a
  complete CSI sequence, or an OSC string ended by BEL, disappears with nothing around it touched.
\<close>

theorem strip_escape_sequences_clean:
  "list_all keeps_char (strip_escape_sequences data) \<and> \<not> keeps_char 0x1b
   \<and> (0x1b \<in> set cs \<or> strip_text (cs @ rest) = filter keeps_char cs @ strip_text rest)
   \<and> (list_ex (\<lambda>c. c < 0x20 \<or> 0x40 \<le> c) ps \<or> f < 0x40 \<or> 0x7e < f
      \<or> strip_text (0x1b # 0x5b # ps @ f # rest) = strip_text rest)
   \<and> (list_ex (\<lambda>c. c = 0x07 \<or> c = 0x1b) ps \<or> strip_text (0x1b # 0x5d # ps @ 0x07 # rest) = strip_text rest)"
proof -
  have "strip_text (0x1b # 0x5b # ps @ f # rest) = strip_text rest"
    if "\<not> list_ex (\<lambda>c. c < 0x20 \<or> 0x40 \<le> c) ps" "\<not> f < 0x40" "\<not> 0x7e < f"
    using that consume_csi_whole [of ps f rest]
    by (simp add: consume_escape_sequence_def list_all_iff list_ex_iff not_less not_le)
  moreover have "strip_text (0x1b # 0x5d # ps @ 0x07 # rest) = strip_text rest"
    if "\<not> list_ex (\<lambda>c. c = 0x07 \<or> c = 0x1b) ps"
    using that consume_osc_whole [of ps rest]
    by (simp add: consume_escape_sequence_def list_all_iff list_ex_iff)
  moreover have "\<not> keeps_char 0x1b" by code_simp
  ultimately show ?thesis
    unfolding strip_escape_sequences_def using strip_text_keeps strip_text_plain by blast
qed

end
