(* ===== verification/Daemon_Frame.thy ===== *)
theory Daemon_Frame
  imports Codec Contracts
begin

text \<open>
  Framing on the daemon socket, \<^verbatim>\<open>src/daemon/frame.rs\<close>. A reader is what its socket will deliver: runs of bytes,
  interrupted calls, failures, then the end of the stream; a single \<^verbatim>\<open>read\<close> hands over at most
  what was asked for and at most one run. A writer is how many bytes each of its next calls will
  accept. So a frame may be split anywhere in either direction. The fallback for a message that
  cannot be rendered (\<^verbatim>\<open>encode_server\<close>) has \<^verbatim>\<open>serde_json\<close> as a parameter.
\<close>

definition MAX_FRAME_BYTES :: nat where
  "MAX_FRAME_BYTES = 4 * 1024 * 1024"

definition COALESCE_FRAME_BYTES :: nat where
  "COALESCE_FRAME_BYTES = 4096"

datatype frame_kind = FkControl | FkTerminal

datatype frame_error =
    UnknownKind u8
  | OverLimit nat
  | EndedAfter nat nat
  | EndedInBody nat
  | WriteZero
  | IoFailed

fun kind_byte :: "frame_kind \<Rightarrow> u8" where
  "kind_byte FkControl = 1"
| "kind_byte FkTerminal = 2"

definition from_byte :: "u8 \<Rightarrow> frame_error + frame_kind" where
  "from_byte b = (if b = 1 then Inr FkControl else if b = 2 then Inr FkTerminal else Inl (UnknownKind b))"

record frame =
  fr_kind :: frame_kind
  fr_payload :: "u8 list"

definition encode_server :: "('m \<Rightarrow> u8 list option) \<Rightarrow> ('s \<Rightarrow> 'm) \<Rightarrow> u8 list \<Rightarrow> 'm \<Rightarrow> 's \<Rightarrow> frame" where
  "encode_server to_vec error_message last_resort message fallback_message =
     \<lparr>fr_kind = FkControl,
      fr_payload = (case to_vec message of
        Some json \<Rightarrow> json
      | None \<Rightarrow> (case to_vec (error_message fallback_message) of Some json \<Rightarrow> json | None \<Rightarrow> last_resort))\<rparr>"

section \<open>Writing\<close>

datatype write_outcome = Accept nat | WInterrupted | WFailed

record writer =
  wr_sink :: "u8 list"
  wr_next :: "write_outcome list"

fun advance_slices :: "nat \<Rightarrow> u8 list list \<Rightarrow> u8 list list" where
  "advance_slices n [] = []"
| "advance_slices n (b # bufs) =
     (if length b \<le> n then advance_slices (n - length b) bufs else drop n b # bufs)"

text \<open>One \<^verbatim>\<open>write_vectored\<close>: a prefix of what was offered. With its outcomes used up the writer takes all.\<close>

fun write_loop :: "u8 list \<Rightarrow> write_outcome list \<Rightarrow> u8 list list \<Rightarrow> (frame_error + unit) \<times> writer" where
  "write_loop sink next [] = (Inr (), \<lparr>wr_sink = sink, wr_next = next\<rparr>)"
| "write_loop sink [] bufs =
     (if concat bufs = [] then (Inl WriteZero, \<lparr>wr_sink = sink, wr_next = []\<rparr>)
      else (Inr (), \<lparr>wr_sink = sink @ concat bufs, wr_next = []\<rparr>))"
| "write_loop sink (WInterrupted # next) bufs = write_loop sink next bufs"
| "write_loop sink (WFailed # next) bufs = (Inl IoFailed, \<lparr>wr_sink = sink, wr_next = next\<rparr>)"
| "write_loop sink (Accept n # next) bufs =
     (if min n (length (concat bufs)) = 0 then (Inl WriteZero, \<lparr>wr_sink = sink, wr_next = next\<rparr>)
      else write_loop (sink @ take n (concat bufs)) next (advance_slices (min n (length (concat bufs))) bufs))"

definition write_all_vectored :: "u8 list list \<Rightarrow> writer \<Rightarrow> (frame_error + unit) \<times> writer" where
  "write_all_vectored bufs w = write_loop (wr_sink w) (wr_next w) bufs"

definition frame_header :: "frame \<Rightarrow> u8 list" where
  "frame_header f = kind_byte (fr_kind f) # to_be_bytes (of_nat (length (fr_payload f)))"

definition write_frame :: "frame \<Rightarrow> writer \<Rightarrow> (frame_error + unit) \<times> writer" where
  "write_frame f w =
     (if length (fr_payload f) > MAX_FRAME_BYTES then (Inl (OverLimit (length (fr_payload f))), w)
      else if length (fr_payload f) \<le> COALESCE_FRAME_BYTES
      then write_all_vectored [frame_header f @ fr_payload f] w
      else write_all_vectored [frame_header f, fr_payload f] w)"

section \<open>Reading\<close>

datatype read_event = Bytes "u8 list" | RInterrupted | RFailed

type_synonym reader = "read_event list"

datatype read_result = Got "u8 list" | GotInterrupted | GotError

fun read :: "nat \<Rightarrow> reader \<Rightarrow> read_result \<times> reader" where
  "read n [] = (Got [], [])"
| "read n (Bytes bs # r) =
     (if bs = [] then read n r
      else if length bs \<le> n then (Got bs, r)
      else (Got (take n bs), Bytes (drop n bs) # r))"
| "read n (RInterrupted # r) = (GotInterrupted, r)"
| "read n (RFailed # r) = (GotError, r)"

fun reader_size :: "reader \<Rightarrow> nat" where
  "reader_size [] = 0"
| "reader_size (Bytes bs # r) = Suc (length bs) + reader_size r"
| "reader_size (_ # r) = Suc (reader_size r)"

lemma read_progress:
  "0 < n \<Longrightarrow> read n r = (res, r') \<Longrightarrow> res \<noteq> Got [] \<Longrightarrow> reader_size r' < reader_size r"
  by (induction n r rule: read.induct) (auto split: if_splits)

function read_loop :: "nat \<Rightarrow> u8 list \<Rightarrow> reader \<Rightarrow> (frame_error + u8 list option) \<times> reader" where
  "read_loop len filled r =
     (if len \<le> length filled then (Inr (Some filled), r)
      else case read (len - length filled) r of
             (GotInterrupted, r) \<Rightarrow> read_loop len filled r
           | (GotError, r) \<Rightarrow> (Inl IoFailed, r)
           | (Got bs, r) \<Rightarrow>
               if bs = [] then
                 (if filled = [] then (Inr None, r) else (Inl (EndedAfter (length filled) len), r))
               else read_loop len (filled @ bs) r)"
  by pat_completeness auto
termination
  by (relation "measure (\<lambda>(_, _, r). reader_size r)") (auto, (erule read_progress [rotated, OF sym]; simp)+)

declare read_loop.simps [simp del]

definition read_exact_or_eof :: "nat \<Rightarrow> reader \<Rightarrow> (frame_error + u8 list option) \<times> reader" where
  "read_exact_or_eof len r = (if len = 0 then (Inr (Some []), r) else read_loop len [] r)"

definition read_body :: "frame_kind \<Rightarrow> nat \<Rightarrow> reader \<Rightarrow> (frame_error + frame option) \<times> reader" where
  "read_body kind len r =
     (if len > MAX_FRAME_BYTES then (Inl (OverLimit len), r)
      else case read_exact_or_eof len r of
             (Inl e, r) \<Rightarrow> (Inl e, r)
           | (Inr None, r) \<Rightarrow> (Inl (EndedInBody len), r)
           | (Inr (Some payload), r) \<Rightarrow> (Inr (Some \<lparr>fr_kind = kind, fr_payload = payload\<rparr>), r))"

definition be_len :: "u8 list \<Rightarrow> nat" where
  "be_len bs = (case from_be_bytes bs of None \<Rightarrow> 0 | Some n \<Rightarrow> unat n)"

definition read_frame :: "reader \<Rightarrow> (frame_error + frame option) \<times> reader" where
  "read_frame r =
     (case read_exact_or_eof 5 r of
        (Inl e, r) \<Rightarrow> (Inl e, r)
      | (Inr None, r) \<Rightarrow> (Inr None, r)
      | (Inr (Some header), r) \<Rightarrow>
          case from_byte (hd header) of
            Inl e \<Rightarrow> (Inl e, r)
          | Inr kind \<Rightarrow> read_body kind (be_len (tl header)) r)"

section \<open>What a writer puts on the wire\<close>

definition encode_frame :: "frame \<Rightarrow> u8 list" where
  "encode_frame f = frame_header f @ fr_payload f"

fun moves :: "write_outcome \<Rightarrow> bool" where
  "moves (Accept n) = (0 < n)"
| "moves WInterrupted = True"
| "moves WFailed = False"

lemma concat_advance: "concat (advance_slices n bufs) = drop n (concat bufs)"
  by (induction n bufs rule: advance_slices.induct) auto

lemma advance_done: "length (concat bufs) \<le> n \<Longrightarrow> advance_slices n bufs = []"
  by (induction n bufs rule: advance_slices.induct) auto

lemma take_min_drop: "take n c @ take k (drop (min n (length c)) c) = take (min n (length c) + k) c"
  by (cases "n \<le> length c") (simp_all add: take_add min_def)

lemma write_loop_prefix:
  "\<exists>k. wr_sink (snd (write_loop sink next bufs)) = sink @ take k (concat bufs)
     \<and> (fst (write_loop sink next bufs) = Inr () \<longrightarrow> length (concat bufs) \<le> k)"
proof (induction sink "next" bufs rule: write_loop.induct)
  case (5 sink n "next" b bufs)
  let ?c = "concat (b # bufs)" and ?m = "min n (length (concat (b # bufs)))"
  show ?case
  proof (cases "?m = 0")
    case False
    obtain k where k: "wr_sink (snd (write_loop (sink @ take n ?c) next (advance_slices ?m (b # bufs)))) =
        (sink @ take n ?c) @ take k (concat (advance_slices ?m (b # bufs)))"
      "fst (write_loop (sink @ take n ?c) next (advance_slices ?m (b # bufs))) = Inr () \<longrightarrow>
        length (concat (advance_slices ?m (b # bufs))) \<le> k"
      using 5 False by blast
    have step: "write_loop sink (Accept n # next) (b # bufs) =
        write_loop (sink @ take n ?c) next (advance_slices ?m (b # bufs))"
      using False by (simp only: write_loop.simps if_False)
    have "sink @ take (?m + k) ?c = (sink @ take n ?c) @ take k (drop ?m ?c)"
      using take_min_drop [of n ?c k] by (simp only: append_assoc)
    moreover have "length ?c - ?m \<le> k \<Longrightarrow> length ?c \<le> ?m + k" by linarith
    ultimately show ?thesis
      using k unfolding step concat_advance length_drop by (intro exI [of _ "?m + k"]) simp
  qed (auto intro: exI [of _ 0])
next
  case (2 sink b bufs)
  show ?case
    by (cases "concat (b # bufs) = []") (auto intro: exI [of _ 0] exI [of _ "length (concat (b # bufs))"])
qed (auto intro: exI [of _ 0])

lemma write_loop_success:
  "list_all moves next \<Longrightarrow> bufs = [] \<or> concat bufs \<noteq> [] \<Longrightarrow> fst (write_loop sink next bufs) = Inr ()"
proof (induction sink "next" bufs rule: write_loop.induct)
  case (5 sink n "next" b bufs)
  let ?c = "concat (b # bufs)" and ?m = "min n (length (concat (b # bufs)))"
  have m: "?m \<noteq> 0" using 5 by auto
  have "advance_slices ?m (b # bufs) = [] \<or> concat (advance_slices ?m (b # bufs)) \<noteq> []"
    using advance_done [of "b # bufs" ?m] by (auto simp: concat_advance min_def simp del: advance_slices.simps concat.simps)
  with 5 m show ?case by simp
qed auto

lemma write_loop_encodes:
  assumes "concat bufs = encode_frame f"
  shows "\<exists>k. wr_sink (snd (write_loop sink next bufs)) = sink @ take k (encode_frame f)
     \<and> (fst (write_loop sink next bufs) = Inr () \<longrightarrow> wr_sink (snd (write_loop sink next bufs)) = sink @ encode_frame f)"
  using write_loop_prefix [of sink "next" bufs] unfolding assms by fastforce

lemma write_frame_prefix:
  "\<exists>k. wr_sink (snd (write_frame f w)) = wr_sink w @ take k (encode_frame f)
     \<and> (fst (write_frame f w) = Inr () \<longrightarrow> wr_sink (snd (write_frame f w)) = wr_sink w @ encode_frame f)"
  using write_loop_encodes [of "[frame_header f @ fr_payload f]" f "wr_sink w" "wr_next w"]
    write_loop_encodes [of "[frame_header f, fr_payload f]" f "wr_sink w" "wr_next w"]
  by (simp add: write_frame_def write_all_vectored_def encode_frame_def [of f] del: write_loop.simps)
    (auto intro: exI [of _ 0])

lemma write_frame_success:
  assumes "length (fr_payload f) \<le> MAX_FRAME_BYTES" "list_all moves (wr_next w)"
  shows "fst (write_frame f w) = Inr ()"
  using assms by (auto simp: write_frame_def write_all_vectored_def frame_header_def intro!: write_loop_success)

text \<open>
  However the socket cuts a write, what reaches it is always a prefix of the frame: header and payload in order,
  nothing twice and nothing skipped. A success means the whole frame, an error means the peer
  sees at most a truncated one; and a frame within the limit is refused by nothing but the
  socket itself.
\<close>

theorem write_frame_exact:
  "(\<exists>k. wr_sink (snd (write_frame f w)) = wr_sink w @ take k (encode_frame f))
   \<and> (fst (write_frame f w) = Inr () \<longrightarrow> wr_sink (snd (write_frame f w)) = wr_sink w @ encode_frame f)
   \<and> (length (fr_payload f) > MAX_FRAME_BYTES \<longrightarrow> write_frame f w = (Inl (OverLimit (length (fr_payload f))), w))
   \<and> (length (fr_payload f) \<le> MAX_FRAME_BYTES \<and> list_all moves (wr_next w) \<longrightarrow> fst (write_frame f w) = Inr ())"
  using write_frame_prefix [of f w] write_frame_success [of f w]
  by (auto simp: write_frame_def)

theorem write_frame_exact_witness:
  "wr_sink (snd (write_frame \<lparr>fr_kind = FkTerminal, fr_payload = [104, 105]\<rparr>
     \<lparr>wr_sink = [], wr_next = [Accept 3, WInterrupted, Accept 1]\<rparr>)) = [2, 0, 0, 0, 2, 104, 105]"
proof -
  let ?f = "\<lparr>fr_kind = FkTerminal, fr_payload = [104, 105]\<rparr>"
  let ?w = "\<lparr>wr_sink = [], wr_next = [Accept 3, WInterrupted, Accept 1]\<rparr>"
  have "length (fr_payload ?f) \<le> MAX_FRAME_BYTES \<and> list_all moves (wr_next ?w)" by (simp add: MAX_FRAME_BYTES_def)
  with write_frame_exact [of ?f ?w] have "wr_sink (snd (write_frame ?f ?w)) = wr_sink ?w @ encode_frame ?f" by blast
  moreover have "encode_frame ?f = [2, 0, 0, 0, 2, 104, 105]"
    by (simp add: encode_frame_def frame_header_def to_be_bytes_def to_le_bytes_def)
  ultimately show ?thesis by simp
qed

section \<open>What a reader makes of the wire\<close>

text \<open>The format alone, without a socket: the specification the reader refines.\<close>

definition decode_frame :: "u8 list \<Rightarrow> (frame_error, frame) decoded" where
  "decode_frame bs =
     (if bs = [] then Eof
      else if length bs < 5 then Broken (EndedAfter (length bs) 5)
      else case from_byte (hd bs) of
             Inl e \<Rightarrow> Broken e
           | Inr kind \<Rightarrow>
               let len = be_len (take 4 (tl bs)); body = drop 5 bs
               in if len > MAX_FRAME_BYTES then Broken (OverLimit len)
                  else if len \<le> length body then Item \<lparr>fr_kind = kind, fr_payload = take len body\<rparr> (drop len body)
                  else if body = [] then Broken (EndedInBody len)
                  else Broken (EndedAfter (length body) len))"

fun reader_bytes :: "reader \<Rightarrow> u8 list" where
  "reader_bytes [] = []"
| "reader_bytes (Bytes bs # r) = bs @ reader_bytes r"
| "reader_bytes (_ # r) = reader_bytes r"

definition unfailing :: "reader \<Rightarrow> bool" where
  "unfailing r \<longleftrightarrow> RFailed \<notin> set r"

lemma unfailing_simps [simp]:
  "unfailing []" "unfailing (e # r) \<longleftrightarrow> e \<noteq> RFailed \<and> unfailing r"
  by (auto simp: unfailing_def)

lemma read_spec:
  assumes "0 < n" "unfailing r"
  shows "case read n r of (res, r') \<Rightarrow> unfailing r' \<and>
     (case res of Got bs \<Rightarrow> length bs \<le> n \<and> reader_bytes r = bs @ reader_bytes r' \<and> (bs = [] \<longrightarrow> reader_bytes r = [])
      | GotInterrupted \<Rightarrow> reader_bytes r' = reader_bytes r
      | GotError \<Rightarrow> False)"
  using assms by (induction n r rule: read.induct) (auto split: read_result.splits)

lemma read_loop_spec:
  assumes "unfailing r" "length filled \<le> len" "0 < len"
  shows "unfailing (snd (read_loop len filled r)) \<and>
    (let all = filled @ reader_bytes r
     in if len \<le> length all
        then fst (read_loop len filled r) = Inr (Some (take len all))
          \<and> reader_bytes (snd (read_loop len filled r)) = drop len all
        else fst (read_loop len filled r) =
            (if all = [] then Inr None else Inl (EndedAfter (length all) len)))"
  using assms
proof (induction len filled r rule: read_loop.induct)
  case (1 len filled r)
  show ?case
  proof (cases "len \<le> length filled")
    case True
    with 1 show ?thesis by (subst (1 2 3 4) read_loop.simps) simp
  next
    case False
    obtain res r' where rd: "read (len - length filled) r = (res, r')" by fastforce
    have spec: "unfailing r'" "case res of
        Got bs \<Rightarrow> length bs \<le> len - length filled \<and> reader_bytes r = bs @ reader_bytes r' \<and> (bs = [] \<longrightarrow> reader_bytes r = [])
      | GotInterrupted \<Rightarrow> reader_bytes r' = reader_bytes r | GotError \<Rightarrow> False"
      using read_spec [of "len - length filled" r] False 1(3) rd by auto
    show ?thesis
    proof (cases res)
      case (Got bs)
      show ?thesis
      proof (cases "bs = []")
        case True
        with Got rd False have step: "read_loop len filled r =
            (if filled = [] then (Inr None, r') else (Inl (EndedAfter (length filled) len), r'))"
          by (subst read_loop.simps) simp
        from True Got spec have "reader_bytes r = []" by auto
        with spec(1) False show ?thesis unfolding step by (simp add: Let_def)
      next
        case ne: False
        then have step: "read_loop len filled r = read_loop len (filled @ bs) r'"
          using False rd Got by (subst read_loop.simps) simp
        from spec Got False have a: "length (filled @ bs) \<le> len" "reader_bytes r = bs @ reader_bytes r'" by auto
        from 1(1) [OF False rd [symmetric] Got ne spec(1) a(1) 1(5)] show ?thesis
          unfolding step a(2) by (simp only: append_assoc)
      qed
    next
      case GotInterrupted
      then have step: "read_loop len filled r = read_loop len filled r'"
        using False rd by (subst read_loop.simps) simp
      from 1(2) [OF False rd [symmetric] GotInterrupted] spec GotInterrupted 1(4,5) show ?thesis
        unfolding step by simp
    next
      case GotError
      with spec show ?thesis by simp
    qed
  qed
qed

lemma read_exact_spec:
  assumes "unfailing r"
  shows "unfailing (snd (read_exact_or_eof len r)) \<and>
    (if len \<le> length (reader_bytes r)
     then fst (read_exact_or_eof len r) = Inr (Some (take len (reader_bytes r)))
       \<and> reader_bytes (snd (read_exact_or_eof len r)) = drop len (reader_bytes r)
     else fst (read_exact_or_eof len r) =
         (if reader_bytes r = [] then Inr None else Inl (EndedAfter (length (reader_bytes r)) len)))"
  using read_loop_spec [of r "[]" len] assms by (simp add: read_exact_or_eof_def Let_def)

lemma read_frame_spec:
  assumes "unfailing r"
  shows "unfailing (snd (read_frame r)) \<and>
    (case decode_frame (reader_bytes r) of
       Eof \<Rightarrow> fst (read_frame r) = Inr None
     | Broken e \<Rightarrow> fst (read_frame r) = Inl e
     | Item f rest \<Rightarrow> fst (read_frame r) = Inr (Some f) \<and> reader_bytes (snd (read_frame r)) = rest)"
proof -
  let ?bs = "reader_bytes r"
  obtain res r1 where h: "read_exact_or_eof 5 r = (res, r1)" by fastforce
  note hs = read_exact_spec [OF assms, of 5, unfolded h]
  show ?thesis
  proof (cases "5 \<le> length ?bs")
    case False
    with hs h show ?thesis by (auto simp: read_frame_def decode_frame_def)
  next
    case True
    with hs have r1: "res = Inr (Some (take 5 ?bs))" "reader_bytes r1 = drop 5 ?bs" "unfailing r1" by auto
    have ne: "?bs \<noteq> []" "hd (take 5 ?bs) = hd ?bs" "tl (take 5 ?bs) = take 4 (tl ?bs)"
      using True by (cases ?bs; simp)+
    show ?thesis
    proof (cases "from_byte (hd ?bs)")
      case (Inl e)
      with h r1 ne True show ?thesis by (simp add: read_frame_def decode_frame_def)
    next
      case (Inr kind)
      define len where "len = be_len (take 4 (tl ?bs))"
      obtain res2 r2 where b: "read_exact_or_eof len r1 = (res2, r2)" by fastforce
      have frame: "read_frame r = read_body kind len r1"
        using h r1 ne Inr by (simp add: read_frame_def len_def)
      have spec: "decode_frame ?bs =
        (if len > MAX_FRAME_BYTES then Broken (OverLimit len)
         else if len \<le> length (drop 5 ?bs)
         then Item \<lparr>fr_kind = kind, fr_payload = take len (drop 5 ?bs)\<rparr> (drop len (drop 5 ?bs))
         else if drop 5 ?bs = [] then Broken (EndedInBody len) else Broken (EndedAfter (length (drop 5 ?bs)) len))"
        unfolding decode_frame_def len_def Let_def using True ne Inr by simp
      from read_exact_spec [OF r1(3), of len, unfolded b r1(2)] r1(3) show ?thesis
        unfolding frame spec by (auto simp: read_body_def b)
    qed
  qed
qed

definition fits :: "frame \<Rightarrow> bool" where
  "fits f \<longleftrightarrow> length (fr_payload f) \<le> MAX_FRAME_BYTES"

lemma length_encode [simp]: "length (encode_frame f) = 5 + length (fr_payload f)"
  by (simp add: encode_frame_def frame_header_def)

lemma be_len_header: "n \<le> MAX_FRAME_BYTES \<Longrightarrow> be_len (to_be_bytes (of_nat n)) = n"
  by (simp add: be_len_def MAX_FRAME_BYTES_def unsigned_of_nat take_bit_nat_eq_self)

lemma decode_encode:
  assumes "fits f"
  shows "decode_frame (encode_frame f @ rest) = Item f rest"
proof -
  let ?h = "to_be_bytes (of_nat (length (fr_payload f)))"
  have parts: "encode_frame f @ rest = kind_byte (fr_kind f) # ?h @ fr_payload f @ rest"
    by (simp add: encode_frame_def frame_header_def)
  have kind: "from_byte (kind_byte (fr_kind f)) = Inr (fr_kind f)"
    by (cases "fr_kind f") (simp_all add: from_byte_def)
  have "take 4 (?h @ fr_payload f @ rest) = ?h" "drop 4 (?h @ fr_payload f @ rest) = fr_payload f @ rest"
    by simp_all
  then show ?thesis
    using assms be_len_header [of "length (fr_payload f)"] kind
    unfolding parts by (simp add: decode_frame_def fits_def Let_def)
qed

lemma kind_byte_from_byte: "from_byte b = Inr k \<Longrightarrow> kind_byte k = b"
  by (auto simp: from_byte_def split: if_splits)

lemma decode_Eof: "decode_frame bs = Eof \<longleftrightarrow> bs = []"
  by (auto simp: decode_frame_def Let_def split: sum.split)

lemma decode_Item:
  assumes "decode_frame bs = Item f rest"
  shows "bs = encode_frame f @ rest" "length (fr_payload f) \<le> MAX_FRAME_BYTES"
proof -
  let ?h = "take 4 (tl bs)" and ?body = "drop 5 bs"
  from assms have long: "5 \<le> length bs" by (auto simp: decode_frame_def split: if_splits)
  then obtain b t where bs: "bs = b # t" and t: "4 \<le> length t" by (cases bs) auto
  from assms long obtain kind where kind: "from_byte b = Inr kind"
    and len: "be_len ?h \<le> MAX_FRAME_BYTES" "be_len ?h \<le> length ?body"
    and f: "f = \<lparr>fr_kind = kind, fr_payload = take (be_len ?h) ?body\<rparr>" "rest = drop (be_len ?h) ?body"
    by (auto simp: decode_frame_def Let_def bs split: if_splits sum.splits)
  obtain w where w: "from_be_bytes ?h = Some w"
    using from_le_bytes_Some [of "rev ?h"] t by (auto simp: from_be_bytes_def bs)
  then have "to_be_bytes (of_nat (be_len ?h)) = ?h" by (simp add: be_len_def to_be_from_be)
  moreover have "length (fr_payload f) = be_len ?h" using len f by simp
  ultimately have "encode_frame f @ rest = b # ?h @ (take (be_len ?h) ?body @ drop (be_len ?h) ?body)"
    using f kind_byte_from_byte [OF kind] by (simp add: encode_frame_def frame_header_def)
  also have "\<dots> = b # ?h @ ?body" by (simp only: append_take_drop_id)
  also have "\<dots> = bs" by (simp add: bs)
  finally show "bs = encode_frame f @ rest" ..
  show "length (fr_payload f) \<le> MAX_FRAME_BYTES" using len f by simp
qed

interpretation wire: codec encode_frame decode_frame fits
  by unfold_locales (simp_all add: decode_encode, simp add: decode_frame_def)

text \<open>The receiving loop of a connection: frames until the stream ends or breaks.\<close>

fun read_frames :: "nat \<Rightarrow> reader \<Rightarrow> frame list \<times> (frame_error + frame option)" where
  "read_frames 0 r = ([], fst (read_frame r))"
| "read_frames (Suc n) r =
     (case read_frame r of
        (Inr (Some f), r) \<Rightarrow> (case read_frames n r of (fs, end) \<Rightarrow> (f # fs, end))
      | (end, r) \<Rightarrow> ([], end))"

fun ended :: "(frame_error, frame) decoded \<Rightarrow> frame_error + frame option" where
  "ended Eof = Inr None"
| "ended (Broken e) = Inl e"
| "ended (Item f rest) = Inr (Some f)"

lemma read_frames_spec:
  "unfailing r \<Longrightarrow> read_frames n r =
     (case decode_many decode_frame n (reader_bytes r) of (fs, stop) \<Rightarrow> (fs, ended stop))"
proof (induction n arbitrary: r)
  case 0
  then show ?case using read_frame_spec [of r] by (auto split: decoded.splits)
next
  case (Suc n)
  obtain res r1 where rf: "read_frame r = (res, r1)" by fastforce
  from read_frame_spec [OF Suc.prems] rf Suc.IH [of r1] show ?case
    by (cases "decode_frame (reader_bytes r)") (auto split: prod.splits)
qed

text \<open>
  \<^bold>\<open>C28\<close>. What one end of the daemon socket sends the other receives: take any list of frames within the limit, and let the
  transport cut their bytes into any pieces and interrupt any calls. Reading gives exactly those
  frames, in order, with their bytes untouched, and then the clean end of the stream.
\<close>

theorem daemon_stream_roundtrip:
  assumes "list_all fits fs" "unfailing r" "reader_bytes r = concat (map encode_frame fs)"
  shows "read_frames (length fs) r = (fs, Inr None)"
  using read_frames_spec [OF assms(2)] wire.dec_stream [OF assms(1)] assms(3) by simp

theorem daemon_stream_roundtrip_witness:
  "read_frames 2 [Bytes [1, 0], RInterrupted, Bytes [0, 0, 1, 65, 2, 0, 0], Bytes [0, 0]]
     = ([\<lparr>fr_kind = FkControl, fr_payload = [65]\<rparr>, \<lparr>fr_kind = FkTerminal, fr_payload = []\<rparr>], Inr None)"
  using daemon_stream_roundtrip [of "[\<lparr>fr_kind = FkControl, fr_payload = [65]\<rparr>, \<lparr>fr_kind = FkTerminal, fr_payload = []\<rparr>]"
      "[Bytes [1, 0], RInterrupted, Bytes [0, 0, 1, 65, 2, 0, 0], Bytes [0, 0]]"]
  by (simp add: fits_def MAX_FRAME_BYTES_def encode_frame_def frame_header_def to_be_bytes_def to_le_bytes_def numeral_2_eq_2)

text \<open>
  A cut message is never taken for a detach: the reader answers a clean end exactly when not one byte more was
  sent. A length over the limit is refused before anything of the body is read, so a payload is at most 4 MiB, and the reader
  always returns, whatever the peer sends.
\<close>

theorem read_frame_classifies:
  assumes "unfailing r"
  shows "(fst (read_frame r) = Inr None \<longleftrightarrow> reader_bytes r = [])
    \<and> (\<forall>f. fst (read_frame r) = Inr (Some f) \<longrightarrow>
         reader_bytes r = encode_frame f @ reader_bytes (snd (read_frame r)) \<and> length (fr_payload f) \<le> MAX_FRAME_BYTES)"
proof (intro conjI allI impI)
  note spec = read_frame_spec [OF assms]
  show "fst (read_frame r) = Inr None \<longleftrightarrow> reader_bytes r = []"
    using spec decode_Eof [of "reader_bytes r"] by (cases "decode_frame (reader_bytes r)") auto
  fix f assume f: "fst (read_frame r) = Inr (Some f)"
  then have "decode_frame (reader_bytes r) = Item f (reader_bytes (snd (read_frame r)))"
    using spec by (auto split: decoded.splits)
  from decode_Item [OF this] show "reader_bytes r = encode_frame f @ reader_bytes (snd (read_frame r))"
    "length (fr_payload f) \<le> MAX_FRAME_BYTES" by simp_all
qed

theorem read_frame_classifies_witness:
  "fst (read_frame [Bytes [1, 0, 0], RInterrupted, Bytes [0, 9]]) \<noteq> Inr None"
  using read_frame_classifies [of "[Bytes [1, 0, 0], RInterrupted, Bytes [0, 9]]"] by simp

end
