(* ===== verification/Replay_Chunks.thy ===== *)
theory Replay_Chunks
  imports Terminal_Frame Daemon_Frame
begin

text \<open>
  Composing a replay record into the frames that carry it, \<^verbatim>\<open>src/session/terminal/hub_replay_record.rs\<close> and
  the queue of \<^verbatim>\<open>src/session/terminal/hub_replay.rs\<close>. A chunk is allocated uninitialised and filled in
  place: a byte not written yet is \<open>None\<close>, and reading one back (\<^verbatim>\<open>assume_init\<close>) is undefined
  behaviour, an error of its own. The write loop may in principle index past the chunks
  (a panic) or make no progress, so it is a partial function: \<open>None\<close> is a loop that never
  ends. A \<^verbatim>\<open>VecDeque\<close> is the list of its bytes; where its two slices meet is an argument.
\<close>

definition CLIENT_QUEUE_DEPTH :: nat where
  "CLIENT_QUEUE_DEPTH = 256"

definition REPLAY_CHUNK_BYTES :: nat where
  "REPLAY_CHUNK_BYTES = 1024 * 1024"

record chunks =
  ck_chunks :: "u8 option list list"
  ck_open :: nat
  ck_filled :: nat
  ck_written :: nat

datatype chunk_fault =
    IndexOutOfBounds
  | LengthMismatch
  | Uninitialised

function chunk_lens :: "nat \<Rightarrow> nat list" where
  "chunk_lens remaining =
     (if remaining > 0
      then (let len = min remaining REPLAY_CHUNK_BYTES in len # chunk_lens (remaining - len))
      else [])"
  by pat_completeness auto
termination
  by (relation "measure id") (auto simp: REPLAY_CHUNK_BYTES_def Let_def)

declare chunk_lens.simps [simp del]

definition chunks_new :: "nat \<Rightarrow> chunks" where
  "chunks_new size_of =
     \<lparr>ck_chunks = map (\<lambda>len. replicate len None) (chunk_lens size_of), ck_open = 0, ck_filled = 0, ck_written = 0\<rparr>"

definition chunk_fill :: "nat \<Rightarrow> u8 list \<Rightarrow> u8 option list \<Rightarrow> u8 option list" where
  "chunk_fill at bytes chunk = take at chunk @ map Some bytes @ drop (at + length bytes) chunk"

text \<open>One turn of the loop: the chunks after it, and the bytes still to write.\<close>

definition write_turn :: "chunks \<Rightarrow> u8 list \<Rightarrow> chunks \<times> u8 list" where
  "write_turn c bytes =
     (let chunk = ck_chunks c ! ck_open c;
          capacity = length chunk;
          n = min (capacity - ck_filled c) (length bytes);
          filled = ck_filled c + n
      in (c\<lparr>ck_chunks := (ck_chunks c)[ck_open c := chunk_fill (ck_filled c) (take n bytes) chunk],
            ck_open := (if filled = capacity then ck_open c + 1 else ck_open c),
            ck_filled := (if filled = capacity then 0 else filled),
            ck_written := ck_written c + n\<rparr>,
          drop n bytes))"

partial_function (option) chunks_write :: "chunks \<Rightarrow> u8 list \<Rightarrow> (chunk_fault + chunks) option" where
  "chunks_write c bytes =
     (if bytes = [] then Some (Inr c)
      else if length (ck_chunks c) \<le> ck_open c then Some (Inl IndexOutOfBounds)
      else chunks_write (fst (write_turn c bytes)) (snd (write_turn c bytes)))"

definition assume_init :: "u8 option list \<Rightarrow> chunk_fault + u8 list" where
  "assume_init chunk = (if None \<in> set chunk then Inl Uninitialised else Inr (map the chunk))"

fun init_all :: "u8 option list list \<Rightarrow> chunk_fault + u8 list list" where
  "init_all [] = Inr []"
| "init_all (c # cs) =
     (case assume_init c of
        Inl e \<Rightarrow> Inl e
      | Inr bs \<Rightarrow> (case init_all cs of Inl e \<Rightarrow> Inl e | Inr bss \<Rightarrow> Inr (bs # bss)))"

definition chunks_finish :: "chunks \<Rightarrow> chunk_fault + u8 list list" where
  "chunks_finish c =
     (if ck_written c = sum_list (map length (ck_chunks c)) then init_all (ck_chunks c) else Inl LengthMismatch)"

text \<open>A record composed of several writes: allocated for \<open>size_of\<close> bytes, written in order, finished.\<close>

fun write_each :: "chunks \<Rightarrow> u8 list list \<Rightarrow> (chunk_fault + chunks) option" where
  "write_each c [] = Some (Inr c)"
| "write_each c (bs # bss) =
     (case chunks_write c bs of
        None \<Rightarrow> None
      | Some (Inl e) \<Rightarrow> Some (Inl e)
      | Some (Inr c') \<Rightarrow> write_each c' bss)"

definition composed :: "nat \<Rightarrow> u8 list list \<Rightarrow> (chunk_fault + u8 list list) option" where
  "composed size_of writes =
     (case write_each (chunks_new size_of) writes of
        None \<Rightarrow> None
      | Some (Inl e) \<Rightarrow> Some (Inl e)
      | Some (Inr c) \<Rightarrow> Some (chunks_finish c))"

text \<open>\<^verbatim>\<open>push_ring\<close>: the writes that hand the bytes \<open>start..end\<close> of a deque to the sink, one per slice.\<close>

definition push_ring :: "nat \<Rightarrow> u8 list \<Rightarrow> nat \<Rightarrow> nat \<Rightarrow> u8 list list" where
  "push_ring split ring range_start range_end =
     (let front = take split ring;
          back = drop split ring;
          start = min range_start (length ring);
          stop = max (min range_end (length ring)) start
      in (if start < length front then [drop start (take (min stop (length front)) front)] else [])
         @ (if stop > length front
            then [drop (start - length front) (take (stop - length front) back)] else []))"

section \<open>The cut\<close>

text \<open>What \<^verbatim>\<open>data.chunks(REPLAY_CHUNK_BYTES)\<close> would cut, the specification of the frames.\<close>

fun cut :: "nat list \<Rightarrow> 'a list \<Rightarrow> 'a list list" where
  "cut [] xs = []"
| "cut (n # ns) xs = take n xs # cut ns (drop n xs)"

fun locate :: "nat list \<Rightarrow> nat \<Rightarrow> nat \<times> nat" where
  "locate [] n = (0, n)"
| "locate (l # ls) n = (if n < l then (0, n) else (let (i, f) = locate ls (n - l) in (Suc i, f)))"

lemma sum_chunk_lens: "sum_list (chunk_lens n) = n"
proof (induction n rule: chunk_lens.induct)
  case (1 n)
  then show ?case by (subst chunk_lens.simps) (simp add: Let_def)
qed

lemma chunk_lens_step:
  "0 < n \<Longrightarrow> chunk_lens n = min n REPLAY_CHUNK_BYTES # chunk_lens (n - min n REPLAY_CHUNK_BYTES)"
  by (subst chunk_lens.simps) (simp only: Let_def if_True)

lemma chunk_lens_0: "chunk_lens 0 = []"
  by (subst chunk_lens.simps) simp

lemma chunk_lens_bounds: "l \<in> set (chunk_lens n) \<Longrightarrow> 0 < l \<and> l \<le> REPLAY_CHUNK_BYTES"
proof (induction n rule: less_induct)
  case (less n)
  have pos: "0 < REPLAY_CHUNK_BYTES" by (simp add: REPLAY_CHUNK_BYTES_def)
  have n: "0 < n" using less.prems by (cases n) (simp_all add: chunk_lens_0)
  from less.prems n consider "l = min n REPLAY_CHUNK_BYTES" | "l \<in> set (chunk_lens (n - min n REPLAY_CHUNK_BYTES))"
    by (simp only: chunk_lens_step list.set insert_iff) blast
  then show ?case
  proof cases
    case 1
    with n pos show ?thesis by simp
  next
    case 2
    have "n - min n REPLAY_CHUNK_BYTES < n" using n pos by (intro diff_less) simp_all
    then show ?thesis using less.IH 2 by (simp only:)
  qed
qed

lemma length_cut [simp]: "length (cut ns xs) = length ns"
  by (induction ns xs rule: cut.induct) auto

lemma concat_cut: "length xs \<le> sum_list ns \<Longrightarrow> concat (cut ns xs) = xs"
  by (induction ns xs rule: cut.induct) auto

lemma lengths_cut: "length xs = sum_list ns \<Longrightarrow> map length (cut ns xs) = ns"
  by (induction ns xs rule: cut.induct) auto

lemma map_cut: "map (map f) (cut ns xs) = cut ns (map f xs)"
  by (induction ns xs rule: cut.induct) (auto simp: take_map drop_map)

lemma cut_replicate: "cut ns (replicate (sum_list ns) x) = map (\<lambda>n. replicate n x) ns"
  by (induction ns) (auto simp: replicate_add)

lemma locate_bound:
  "n < sum_list ns \<Longrightarrow> \<forall>l \<in> set ns. 0 < l \<Longrightarrow>
   fst (locate ns n) < length ns \<and> snd (locate ns n) < ns ! fst (locate ns n)"
  by (induction ns n rule: locate.induct) (auto simp: case_prod_beta)

text \<open>Filling a chunk at its fill mark fills the flat record at the number of bytes written.\<close>

lemma cut_fill:
  assumes "length xs = sum_list ns" "locate ns n = (i, f)" "n < sum_list ns" "length bs \<le> ns ! i - f"
    "\<forall>l \<in> set ns. 0 < l"
  shows "(cut ns xs)[i := chunk_fill f bs (cut ns xs ! i)] = cut ns (chunk_fill n bs xs)"
  using assms
proof (induction ns arbitrary: xs n i)
  case (Cons l ls)
  show ?case
  proof (cases "n < l")
    case True
    with Cons.prems have "i = 0" "f = n" "n + length bs \<le> l" "l \<le> length xs" by auto
    with True show ?thesis by (simp add: chunk_fill_def min_def drop_take)
  next
    case False
    with Cons.prems(2) obtain j where j: "locate ls (n - l) = (j, f)" "i = Suc j"
      by (auto simp: case_prod_beta) (metis prod.collapse)
    have "chunk_fill (n - l) bs (drop l xs) = drop l (chunk_fill n bs xs)"
      using False Cons.prems(1) by (simp add: chunk_fill_def drop_take)
    moreover have "take l (chunk_fill n bs xs) = take l xs"
      using False Cons.prems(1,3) by (simp add: chunk_fill_def min_def)
    ultimately show ?thesis
      using Cons.IH [of "drop l xs" "n - l" j] Cons.prems False j by simp
  qed
qed simp

lemma locate_advance:
  "n < sum_list ns \<Longrightarrow> \<forall>l \<in> set ns. 0 < l \<Longrightarrow> locate ns n = (i, f) \<Longrightarrow> k \<le> ns ! i - f \<Longrightarrow>
   locate ns (n + k) = (if f + k = ns ! i then (Suc i, 0) else (i, f + k))"
proof (induction ns n arbitrary: i rule: locate.induct)
  case (2 l ls n)
  show ?case
  proof (cases "n < l")
    case True
    with 2 have "i = 0" "f = n" by auto
    with True 2 show ?thesis by (cases ls) auto
  next
    case False
    with 2(4) obtain j where j: "locate ls (n - l) = (j, f)" "i = Suc j"
      by (auto simp: case_prod_beta) (metis prod.collapse)
    have "locate ls (n - l + k) = (if f + k = ls ! j then (Suc j, 0) else (j, f + k))"
    proof (rule 2(1) [OF False _ _ j(1)])
      show "n - l < sum_list ls" "\<forall>l \<in> set ls. 0 < l" "k \<le> ls ! j - f" using 2(2,3,5) False j(2) by simp_all
    qed
    moreover have "n + k - l = n - l + k" "\<not> n + k < l" using False by linarith+
    ultimately have "locate (l # ls) (n + k) = (let (i, f) = (if f + k = ls ! j then (Suc j, 0) else (j, f + k)) in (Suc i, f))"
      by (simp only: locate.simps if_False)
    then show ?thesis unfolding j(2) nth_Cons_Suc by (simp split: if_splits)
  qed
qed simp

section \<open>The write loop\<close>

definition state_of :: "nat list \<Rightarrow> u8 list \<Rightarrow> chunks" where
  "state_of ns W =
     \<lparr>ck_chunks = cut ns (map Some W @ replicate (sum_list ns - length W) None),
      ck_open = fst (locate ns (length W)), ck_filled = snd (locate ns (length W)), ck_written = length W\<rparr>"

lemma locate_room:
  "n < sum_list ns \<Longrightarrow> n + (ns ! fst (locate ns n) - snd (locate ns n)) \<le> sum_list ns"
proof (induction ns n rule: locate.induct)
  case (2 l ls n)
  show ?case
  proof (cases "n < l")
    case False
    with 2 have "n - l + (ls ! fst (locate ls (n - l)) - snd (locate ls (n - l))) \<le> sum_list ls" by auto
    with False show ?thesis by (auto simp: case_prod_beta)
  qed auto
qed simp

lemma locate_end: "locate ns (sum_list ns) = (length ns, 0)"
  by (induction ns) auto

lemma chunk_fill_append:
  "length bs \<le> r \<Longrightarrow>
   chunk_fill (length W) bs (map Some W @ replicate r None) = map Some (W @ bs) @ replicate (r - length bs) None"
  by (simp add: chunk_fill_def)

lemma write_turn_state:
  assumes "length W < sum_list ns" "\<forall>l \<in> set ns. 0 < l" "bytes \<noteq> []"
  shows "\<exists>k. 0 < k \<and> k \<le> length bytes \<and> length W + k \<le> sum_list ns
    \<and> write_turn (state_of ns W) bytes = (state_of ns (W @ take k bytes), drop k bytes)"
proof -
  obtain i f where l: "locate ns (length W) = (i, f)" by fastforce
  have i: "i < length ns" "f < ns ! i" using locate_bound [OF assms(1,2)] l by simp_all
  let ?xs = "map Some W @ replicate (sum_list ns - length W) None"
  let ?k = "min (ns ! i - f) (length bytes)"
  have xs: "length ?xs = sum_list ns" using assms(1) by simp
  have cap: "length (cut ns ?xs ! i) = ns ! i"
    using lengths_cut [OF xs] i(1) nth_map [of i "cut ns ?xs" length] by simp
  have k: "0 < ?k" "?k \<le> length bytes" "length W + ?k \<le> sum_list ns"
    using i assms(3) locate_room [OF assms(1)] l by (auto simp: min_def)
  have "(cut ns ?xs)[i := chunk_fill f (take ?k bytes) (cut ns ?xs ! i)]
      = cut ns (map Some (W @ take ?k bytes) @ replicate (sum_list ns - length W - length (take ?k bytes)) None)"
    using cut_fill [OF xs l assms(1) _ assms(2), of "take ?k bytes"]
      chunk_fill_append [of "take ?k bytes" "sum_list ns - length W" W] k(3) by simp
  moreover have "locate ns (length (W @ take ?k bytes)) = (if f + ?k = ns ! i then (Suc i, 0) else (i, f + ?k))"
    using locate_advance [OF assms(1,2) l, of ?k] k(2) by simp
  ultimately have "write_turn (state_of ns W) bytes = (state_of ns (W @ take ?k bytes), drop ?k bytes)"
    using l cap by (simp add: write_turn_def state_of_def Let_def)
  with k show ?thesis by blast
qed

lemma chunks_write_exact:
  assumes "\<forall>l \<in> set ns. 0 < l"
  shows "length W \<le> sum_list ns \<Longrightarrow>
    chunks_write (state_of ns W) bytes =
      Some (if length W + length bytes \<le> sum_list ns then Inr (state_of ns (W @ bytes)) else Inl IndexOutOfBounds)"
proof (induction "length bytes" arbitrary: W bytes rule: less_induct)
  case less
  consider "bytes = []" | "bytes \<noteq> []" "length W = sum_list ns" | "bytes \<noteq> []" "length W < sum_list ns"
    using less.prems by linarith
  then show ?case
  proof cases
    case 1
    with less.prems show ?thesis by (subst chunks_write.simps) simp
  next
    case 2
    then have "ck_open (state_of ns W) = length (ck_chunks (state_of ns W))" by (simp add: state_of_def locate_end)
    with 2 show ?thesis by (subst chunks_write.simps) simp
  next
    case 3
    obtain k where k: "0 < k" "k \<le> length bytes" "length W + k \<le> sum_list ns"
      and t: "write_turn (state_of ns W) bytes = (state_of ns (W @ take k bytes), drop k bytes)"
      using write_turn_state [OF 3(2) assms 3(1)] by blast
    have "ck_open (state_of ns W) < length (ck_chunks (state_of ns W))"
      using locate_bound [OF 3(2) assms] by (simp add: state_of_def)
    with 3(1) t have "chunks_write (state_of ns W) bytes = chunks_write (state_of ns (W @ take k bytes)) (drop k bytes)"
      by (subst chunks_write.simps) simp
    also have "\<dots> = Some (if length W + length bytes \<le> sum_list ns then Inr (state_of ns (W @ bytes)) else Inl IndexOutOfBounds)"
      using less.hyps [of "drop k bytes" "W @ take k bytes"] k by simp
    finally show ?thesis .
  qed
qed

lemma write_each_exact:
  assumes "\<forall>l \<in> set ns. 0 < l"
  shows "length W \<le> sum_list ns \<Longrightarrow>
    write_each (state_of ns W) ws =
      Some (if length W + length (concat ws) \<le> sum_list ns then Inr (state_of ns (W @ concat ws)) else Inl IndexOutOfBounds)"
proof (induction ws arbitrary: W)
  case (Cons b ws)
  then show ?case
    using chunks_write_exact [OF assms Cons.prems, of b] Cons.IH [of "W @ b"] by simp
qed simp

lemma chunks_new_state: "chunks_new n = state_of (chunk_lens n) []"
proof -
  have "locate ns 0 = (0, 0)" if "\<forall>l \<in> set ns. 0 < l" for ns using that by (cases ns) auto
  then have "locate (chunk_lens n) 0 = (0, 0)" using chunk_lens_bounds by blast
  then show ?thesis by (simp add: chunks_new_def state_of_def cut_replicate)
qed

lemma init_all_Some: "init_all (map (map Some) bss) = Inr bss"
  by (induction bss) (auto simp: assume_init_def comp_def)

lemma chunks_finish_state:
  assumes "length W \<le> sum_list ns"
  shows "chunks_finish (state_of ns W) = (if length W = sum_list ns then Inr (cut ns W) else Inl LengthMismatch)"
proof -
  let ?xs = "map Some W @ replicate (sum_list ns - length W) None"
  have "sum_list (map length (cut ns ?xs)) = sum_list ns" using lengths_cut [of ?xs ns] assms by simp
  moreover have "init_all (cut ns ?xs) = Inr (cut ns W)" if "length W = sum_list ns"
    using init_all_Some [of "cut ns W"] that by (simp add: map_cut)
  ultimately show ?thesis by (simp add: chunks_finish_def state_of_def)
qed

lemma composed_exact:
  "composed n writes =
     Some (if length (concat writes) = n then Inr (cut (chunk_lens n) (concat writes))
           else if length (concat writes) > n then Inl IndexOutOfBounds else Inl LengthMismatch)"
proof -
  have pos: "\<forall>l \<in> set (chunk_lens n). 0 < l" using chunk_lens_bounds by blast
  have "write_each (chunks_new n) writes =
      Some (if length (concat writes) \<le> n then Inr (state_of (chunk_lens n) (concat writes)) else Inl IndexOutOfBounds)"
    using write_each_exact [OF pos, of "[]" writes] by (simp add: chunks_new_state sum_chunk_lens)
  then show ?thesis
    using chunks_finish_state [of "concat writes" "chunk_lens n"] by (auto simp: composed_def sum_chunk_lens)
qed

text \<open>
  \<^bold>\<open>C18\<close>. The replay composer is memory safe and total: for every sequence of writes it ends, never
  reads a byte it has not written, and answers exactly the cut of the written bytes into
  full frames of one mebibyte with the rest in the last one, each within the daemon's frame
  limit. A record sized for another length is caught: too many bytes stop at the index
  check, too few at the final comparison.
\<close>

theorem replay_chunks_total:
  "composed n writes =
     Some (if length (concat writes) = n then Inr (cut (chunk_lens n) (concat writes))
           else if length (concat writes) > n then Inl IndexOutOfBounds else Inl LengthMismatch)
   \<and> (length (concat writes) = n \<longrightarrow> concat (cut (chunk_lens n) (concat writes)) = concat writes)
   \<and> (\<forall>l \<in> set (chunk_lens n). 0 < l \<and> l \<le> REPLAY_CHUNK_BYTES \<and> l \<le> MAX_FRAME_BYTES)"
proof -
  have "REPLAY_CHUNK_BYTES \<le> MAX_FRAME_BYTES" by (simp add: REPLAY_CHUNK_BYTES_def MAX_FRAME_BYTES_def)
  then have "\<forall>l \<in> set (chunk_lens n). 0 < l \<and> l \<le> REPLAY_CHUNK_BYTES \<and> l \<le> MAX_FRAME_BYTES"
    using chunk_lens_bounds le_trans by blast
  then show ?thesis
    using composed_exact [of n writes] concat_cut [of "concat writes" "chunk_lens n"] by (simp add: sum_chunk_lens)
qed

lemma chunk_lens_small: "0 < n \<Longrightarrow> n \<le> REPLAY_CHUNK_BYTES \<Longrightarrow> chunk_lens n = [n]"
  by (simp only: chunk_lens_step min_absorb1 diff_self_eq_0 chunk_lens_0)

theorem replay_chunks_total_witness:
  "composed 3 [[1, 2], [3]] = Some (Inr [[1, 2, 3]]) \<and> composed 2 [[1, 2], [3]] = Some (Inl IndexOutOfBounds)
   \<and> concat (cut (chunk_lens 3) (concat [[1, 2], [3 :: u8]])) = [1, 2, 3]
   \<and> 3 \<le> REPLAY_CHUNK_BYTES \<and> 3 \<le> MAX_FRAME_BYTES"
proof -
  have 3: "chunk_lens 3 = [3]" by (rule chunk_lens_small) (simp_all add: REPLAY_CHUNK_BYTES_def)
  show ?thesis
    using replay_chunks_total [of 3 "[[1, 2], [3]]"] replay_chunks_total [of 2 "[[1, 2], [3]]"] unfolding 3 by simp
qed

section \<open>The ring and the queue\<close>

lemma slices_join:
  assumes "a \<le> b"
  shows "(if a < length F then drop a (take (min b (length F)) F) else [])
      @ (if b > length F then drop (a - length F) (take (b - length F) B) else [])
    = drop a (take b (F @ B))"
proof (cases "b \<le> length F")
  case True
  then show ?thesis using assms by (auto simp: min_def)
next
  case False
  then show ?thesis by (simp add: min_def)
qed

lemma push_ring_concat: "concat (push_ring split ring a b) = drop (min a (length ring)) (take b ring)"
proof -
  let ?a = "min a (length ring)" and ?b = "max (min b (length ring)) (min a (length ring))"
  have "concat (push_ring split ring a b) = drop ?a (take ?b (take split ring @ drop split ring))"
    unfolding slices_join [OF max.cobounded2, symmetric] push_ring_def Let_def by (simp only: concat.simps concat_append if_distrib [of concat] append_Nil2)
  also have "\<dots> = drop ?a (take b ring)"
    by (cases "min b (length ring) \<le> ?a") (auto simp: max_def min_def split: if_splits)
  finally show ?thesis .
qed

end
