(* ===== verification/Pane_Emulator.thy ===== *)
theory Pane_Emulator
  imports Stream_Boundary Terminal_Frame
begin

text \<open>
  The per-pane terminal emulator, \<^verbatim>\<open>src/runtime/emulator/mod.rs\<close> with \<^verbatim>\<open>construct.rs\<close>, \<^verbatim>\<open>sync.rs\<close> and
  \<^verbatim>\<open>modes.rs\<close>. The terminal library behind it (\<^verbatim>\<open>alacritty_terminal\<close>: the grid, the escape
  sequence processor, its constants) is the parameter \<open>vt\<close>, a record of the operations the code calls; the
  serialisation of its grid, \<^verbatim>\<open>screen_snapshot\<close>, is one of them. What the emulator adds, the event
  proxy, the stream boundary and the mode flags, is modelled.
\<close>

datatype vt_event =
    EvTitle rstring
  | EvPtyWrite rstring
  | EvBell
  | EvOther

datatype term_mode =
    ALT_SCREEN
  | APP_CURSOR
  | BRACKETED_PASTE
  | SHOW_CURSOR
  | LINE_WRAP
  | MOUSE_REPORT_CLICK
  | MOUSE_DRAG
  | MOUSE_MOTION
  | SGR_MOUSE
  | UTF8_MOUSE
  | ALTERNATE_SCROLL
  | FOCUS_IN_OUT

record 'v vt_ops =
  vt_open :: "u16 \<Rightarrow> u16 \<Rightarrow> nat \<Rightarrow> 'v"
  vt_advance :: "u8 list \<Rightarrow> 'v \<Rightarrow> 'v \<times> vt_event list"
  vt_resize :: "u16 \<Rightarrow> u16 \<Rightarrow> 'v \<Rightarrow> 'v"
  vt_mode :: "'v \<Rightarrow> term_mode \<Rightarrow> bool"
  vt_sync_bytes :: "'v \<Rightarrow> nat"
  vt_sync_timeout :: "'v \<Rightarrow> instant option"
  vt_stop_sync :: "'v \<Rightarrow> 'v \<times> vt_event list"
  vt_display_offset :: "'v \<Rightarrow> nat"
  vt_scroll :: "int \<Rightarrow> 'v \<Rightarrow> 'v"
  vt_snapshot :: "'v \<Rightarrow> u8 list"
  vt_min_lines :: u16
  vt_min_columns :: u16

record emulator_events =
  ee_title :: "rstring option"
  ee_bell :: bool
  ee_pty_writes :: "u8 list"

record proxy_state =
  px_title :: "rstring option"
  px_bell :: bool
  px_pty_writes :: "u8 list"
  px_suppress :: bool

record pane_modes =
  pm_alt_screen :: bool
  pm_app_cursor :: bool
  pm_bracketed_paste :: bool
  pm_show_cursor :: bool
  pm_line_wrap :: bool
  pm_mouse_click :: bool
  pm_mouse_drag :: bool
  pm_mouse_motion :: bool
  pm_sgr_mouse :: bool
  pm_utf8_mouse :: bool
  pm_alternate_scroll :: bool
  pm_focus_in_out :: bool

record 'v pane_emulator =
  pe_term :: 'v
  pe_proxy :: proxy_state
  pe_boundary :: "bstate option"

datatype scroll_sink = MouseWheel | ArrowKeys | Scrollback

definition effective_size :: "'v vt_ops \<Rightarrow> u16 \<Rightarrow> u16 \<Rightarrow> u16 \<times> u16" where
  "effective_size vt rows cols = (max rows (vt_min_lines vt), max cols (vt_min_columns vt))"

definition proxy_default :: proxy_state where
  "proxy_default = \<lparr>px_title = None, px_bell = False, px_pty_writes = [], px_suppress = False\<rparr>"

definition emulator_create :: "'v vt_ops \<Rightarrow> u16 \<Rightarrow> u16 \<Rightarrow> nat \<Rightarrow> bstate option \<Rightarrow> 'v pane_emulator" where
  "emulator_create vt rows cols scrollback_lines boundary =
     (let (rows, cols) = effective_size vt rows cols
      in \<lparr>pe_term = vt_open vt rows cols scrollback_lines, pe_proxy = proxy_default, pe_boundary = boundary\<rparr>)"

definition emulator_new :: "'v vt_ops \<Rightarrow> u16 \<Rightarrow> u16 \<Rightarrow> nat \<Rightarrow> 'v pane_emulator" where
  "emulator_new vt rows cols scrollback_lines = emulator_create vt rows cols scrollback_lines (Some Ground)"

definition without_boundary_tracking :: "'v vt_ops \<Rightarrow> u16 \<Rightarrow> u16 \<Rightarrow> nat \<Rightarrow> 'v pane_emulator" where
  "without_boundary_tracking vt rows cols scrollback_lines = emulator_create vt rows cols scrollback_lines None"

fun send_event :: "proxy_state \<Rightarrow> vt_event \<Rightarrow> proxy_state" where
  "send_event p (EvTitle title) =
     (let trimmed = str_trim (filter (\<lambda>c. \<not> is_control c) title)
      in if trimmed = [] then p else p\<lparr>px_title := Some trimmed\<rparr>)"
| "send_event p (EvPtyWrite text) =
     (if px_suppress p then p else p\<lparr>px_pty_writes := px_pty_writes p @ str_bytes text\<rparr>)"
| "send_event p EvBell = p\<lparr>px_bell := True\<rparr>"
| "send_event p EvOther = p"

definition take_events :: "'v pane_emulator \<Rightarrow> 'v pane_emulator \<times> emulator_events" where
  "take_events e =
     (let p = pe_proxy e
      in (e\<lparr>pe_proxy := p\<lparr>px_title := None, px_bell := False, px_pty_writes := []\<rparr>\<rparr>,
          \<lparr>ee_title = px_title p, ee_bell = px_bell p, ee_pty_writes = px_pty_writes p\<rparr>))"

definition emulator_process :: "'v vt_ops \<Rightarrow> u8 list \<Rightarrow> 'v pane_emulator \<Rightarrow> 'v pane_emulator \<times> emulator_events" where
  "emulator_process vt bytes e =
     (let e = e\<lparr>pe_boundary := map_option (\<lambda>b. feed b bytes) (pe_boundary e)\<rparr>;
          (term', evs) = vt_advance vt bytes (pe_term e)
      in take_events (e\<lparr>pe_term := term', pe_proxy := foldl send_event (pe_proxy e) evs\<rparr>))"

definition suppress_pty_replies :: "bool \<Rightarrow> 'v pane_emulator \<Rightarrow> 'v pane_emulator" where
  "suppress_pty_replies suppress e = e\<lparr>pe_proxy := (pe_proxy e)\<lparr>px_suppress := suppress\<rparr>\<rparr>"

definition emulator_resize :: "'v vt_ops \<Rightarrow> u16 \<Rightarrow> u16 \<Rightarrow> 'v pane_emulator \<Rightarrow> 'v pane_emulator" where
  "emulator_resize vt rows cols e =
     (let (rows, cols) = effective_size vt rows cols in e\<lparr>pe_term := vt_resize vt rows cols (pe_term e)\<rparr>)"

text \<open>The scroll distance is computed in \<^verbatim>\<open>i64\<close> and clamped into \<^verbatim>\<open>i32\<close>; offsets are \<^verbatim>\<open>usize\<close>.\<close>

definition set_scroll_offset :: "'v vt_ops \<Rightarrow> nat \<Rightarrow> 'v pane_emulator \<Rightarrow> 'v pane_emulator \<times> nat" where
  "set_scroll_offset vt offset e =
     (let current = vt_display_offset vt (pe_term e);
          wanted = (if offset \<le> 2 ^ 63 - 1 then int offset else 2 ^ 63 - 1);
          delta = clampi (sat64 (wanted - wrap64 (int current))) (- (2 ^ 31)) (2 ^ 31 - 1);
          e = e\<lparr>pe_term := vt_scroll vt delta (pe_term e)\<rparr>
      in (e, vt_display_offset vt (pe_term e)))"

definition screen_snapshot :: "'v vt_ops \<Rightarrow> 'v pane_emulator \<Rightarrow> u8 list" where
  "screen_snapshot vt e = vt_snapshot vt (pe_term e)"

definition screen_current :: "'v vt_ops \<Rightarrow> 'v pane_emulator \<Rightarrow> bool" where
  "screen_current vt e \<longleftrightarrow> vt_sync_bytes vt (pe_term e) = 0"

definition emulator_at_boundary :: "'v vt_ops \<Rightarrow> 'v pane_emulator \<Rightarrow> bool" where
  "emulator_at_boundary vt e =
     (case pe_boundary e of None \<Rightarrow> False | Some b \<Rightarrow> screen_current vt e \<and> at_boundary b)"

definition mouse_mode :: "'v vt_ops \<Rightarrow> 'v \<Rightarrow> bool" where
  "mouse_mode vt t \<longleftrightarrow> vt_mode vt t MOUSE_REPORT_CLICK \<or> vt_mode vt t MOUSE_MOTION \<or> vt_mode vt t MOUSE_DRAG"

definition scroll_sink_of :: "'v vt_ops \<Rightarrow> 'v pane_emulator \<Rightarrow> scroll_sink" where
  "scroll_sink_of vt e =
     (let t = pe_term e
      in if mouse_mode vt t \<and> vt_mode vt t SGR_MOUSE then MouseWheel
         else if vt_mode vt t ALT_SCREEN \<and> vt_mode vt t ALTERNATE_SCROLL then ArrowKeys
         else Scrollback)"

definition wants_mouse_buttons :: "'v vt_ops \<Rightarrow> 'v pane_emulator \<Rightarrow> bool" where
  "wants_mouse_buttons vt e \<longleftrightarrow> mouse_mode vt (pe_term e) \<and> vt_mode vt (pe_term e) SGR_MOUSE"

definition app_cursor :: "'v vt_ops \<Rightarrow> 'v pane_emulator \<Rightarrow> bool" where
  "app_cursor vt e = vt_mode vt (pe_term e) APP_CURSOR"

definition emulator_modes :: "'v vt_ops \<Rightarrow> 'v pane_emulator \<Rightarrow> pane_modes" where
  "emulator_modes vt e =
     (let mode = vt_mode vt (pe_term e)
      in \<lparr>pm_alt_screen = mode ALT_SCREEN, pm_app_cursor = mode APP_CURSOR,
          pm_bracketed_paste = mode BRACKETED_PASTE, pm_show_cursor = mode SHOW_CURSOR,
          pm_line_wrap = mode LINE_WRAP, pm_mouse_click = mode MOUSE_REPORT_CLICK,
          pm_mouse_drag = mode MOUSE_DRAG, pm_mouse_motion = mode MOUSE_MOTION,
          pm_sgr_mouse = mode SGR_MOUSE, pm_utf8_mouse = mode UTF8_MOUSE,
          pm_alternate_scroll = mode ALTERNATE_SCROLL, pm_focus_in_out = mode FOCUS_IN_OUT\<rparr>)"

definition sync_deadline :: "'v vt_ops \<Rightarrow> 'v pane_emulator \<Rightarrow> instant option" where
  "sync_deadline vt e = vt_sync_timeout vt (pe_term e)"

definition sync_expired :: "'v vt_ops \<Rightarrow> instant \<Rightarrow> 'v pane_emulator \<Rightarrow> bool" where
  "sync_expired vt now e = (case sync_deadline vt e of None \<Rightarrow> False | Some deadline \<Rightarrow> deadline \<le> now)"

definition emulator_settle_sync :: "'v vt_ops \<Rightarrow> 'v pane_emulator \<Rightarrow> 'v pane_emulator \<times> emulator_events" where
  "emulator_settle_sync vt e =
     (let (term', evs) = vt_stop_sync vt (pe_term e)
      in take_events (e\<lparr>pe_term := term', pe_proxy := foldl send_event (pe_proxy e) evs\<rparr>))"

section \<open>The mode prelude\<close>

definition modes_default :: pane_modes where
  "modes_default = \<lparr>pm_alt_screen = False, pm_app_cursor = False, pm_bracketed_paste = False,
     pm_show_cursor = True, pm_line_wrap = True, pm_mouse_click = False, pm_mouse_drag = False,
     pm_mouse_motion = False, pm_sgr_mouse = False, pm_utf8_mouse = False,
     pm_alternate_scroll = True, pm_focus_in_out = False\<rparr>"

definition prelude_modes :: "pane_modes \<Rightarrow> (nat \<times> bool) list" where
  "prelude_modes m =
     [(1049, pm_alt_screen m), (1, pm_app_cursor m), (7, pm_line_wrap m), (25, pm_show_cursor m),
      (1000, pm_mouse_click m), (1002, pm_mouse_drag m), (1003, pm_mouse_motion m),
      (1004, pm_focus_in_out m), (1005, pm_utf8_mouse m), (1006, pm_sgr_mouse m),
      (1007, pm_alternate_scroll m), (2004, pm_bracketed_paste m)]"

definition mode_sequence :: "nat \<times> bool \<Rightarrow> u8 list" where
  "mode_sequence ne = str_bytes (0x1b # lit ''[?'' @ dec_str (fst ne) @ lit (if snd ne then ''h'' else ''l''))"

definition mode_prelude :: "pane_modes \<Rightarrow> u8 list" where
  "mode_prelude m = concat (map mode_sequence (prelude_modes m))"

text \<open>What a DEC private mode set (\<^verbatim>\<open>h\<close>) or reset (\<^verbatim>\<open>l\<close>) does to the tracked flags of the terminal that reads it.\<close>

fun set_private_mode :: "pane_modes \<Rightarrow> nat \<times> bool \<Rightarrow> pane_modes" where
  "set_private_mode m (n, on) =
     (if n = 1049 then m\<lparr>pm_alt_screen := on\<rparr>
      else if n = 1 then m\<lparr>pm_app_cursor := on\<rparr>
      else if n = 7 then m\<lparr>pm_line_wrap := on\<rparr>
      else if n = 25 then m\<lparr>pm_show_cursor := on\<rparr>
      else if n = 1000 then m\<lparr>pm_mouse_click := on\<rparr>
      else if n = 1002 then m\<lparr>pm_mouse_drag := on\<rparr>
      else if n = 1003 then m\<lparr>pm_mouse_motion := on\<rparr>
      else if n = 1004 then m\<lparr>pm_focus_in_out := on\<rparr>
      else if n = 1005 then m\<lparr>pm_utf8_mouse := on\<rparr>
      else if n = 1006 then m\<lparr>pm_sgr_mouse := on\<rparr>
      else if n = 1007 then m\<lparr>pm_alternate_scroll := on\<rparr>
      else if n = 2004 then m\<lparr>pm_bracketed_paste := on\<rparr>
      else m)"

lemma str_bytes_ascii: "list_all (\<lambda>c. c < 128) s \<Longrightarrow> str_bytes s = map of_nat s"
  by (induction s) (auto simp: utf8_bytes_def)

lemma mode_sequence_item:
  "mode_sequence (n, on) = item_bytes (CsiSeq (0x3f # map of_nat (dec_str n)) (if on then 0x68 else 0x6c))"
proof -
  have d: "list_all (\<lambda>c. c < 128) (dec_str n)"
    using dec_str_digits [of n] by (auto simp: list_all_iff is_digit_def)
  show ?thesis unfolding mode_sequence_def by (subst str_bytes_ascii) (use d in auto)
qed

lemma length_mode_sequence: "length (mode_sequence (n, on)) = 4 + length (dec_str n)"
  by (simp add: mode_sequence_item)

lemma mode_sequence_ok:
  "item_ok (CsiSeq (0x3f # map of_nat (dec_str n)) (if on then 0x68 else 0x6c))"
proof -
  have "\<not> within 0x40 0x7e (of_nat c) \<and> (of_nat c :: u8) \<notin> {0x18, 0x1a, 0x1b}" if "c \<in> set (dec_str n)" for c
  proof -
    have c: "48 \<le> c" "c \<le> 57" using that dec_str_digits [of n] by (auto simp: list_all_iff is_digit_def)
    then have u: "unat (of_nat c :: u8) = c" by (simp add: unat_byte)
    have "unat (0x18 :: u8) = 24" "unat (0x1a :: u8) = 26" "unat (0x1b :: u8) = 27" by simp_all
    with c u have "(of_nat c :: u8) \<noteq> 0x18" "(of_nat c :: u8) \<noteq> 0x1a" "(of_nat c :: u8) \<noteq> 0x1b" by fastforce+
    moreover have "\<not> within 0x40 0x7e (of_nat c)" using c u by (simp add: within_def)
    ultimately show ?thesis by simp
  qed
  then show ?thesis by (auto simp: list_all_iff within_def)
qed

lemma feed_mode_sequences: "feed Ground (concat (map mode_sequence ms)) = Ground"
proof (induction ms)
  case (Cons m ms)
  obtain n on where m: "m = (n, on)" by fastforce
  have "feed Ground (mode_sequence m) = Ground"
    unfolding m mode_sequence_item by (rule whole_feed(2) [OF whole_item [OF mode_sequence_ok]])
  with Cons show ?case by simp
qed simp

lemma mode_sequence_inj: "mode_sequence a = mode_sequence b \<longleftrightarrow> a = b"
proof
  assume e: "mode_sequence a = mode_sequence b"
  obtain n on n' on' where ab: "a = (n, on)" "b = (n', on')" by fastforce
  have i: "inj_on (of_nat :: nat \<Rightarrow> u8) (set (dec_str n) \<union> set (dec_str n'))"
  proof (rule inj_onI)
    fix x y assume xy: "x \<in> set (dec_str n) \<union> set (dec_str n')" "y \<in> set (dec_str n) \<union> set (dec_str n')"
      "(of_nat x :: u8) = of_nat y"
    then have "x < 256" "y < 256"
      using dec_str_digits [of n] dec_str_digits [of n'] by (auto simp: list_all_iff is_digit_def)
    with xy(3) show "x = y" by (simp add: byte_eq)
  qed
  have "map (of_nat :: nat \<Rightarrow> u8) (dec_str n) = map of_nat (dec_str n')"
      and f: "(if on then 0x68 else 0x6c :: u8) = (if on' then 0x68 else 0x6c)"
    using e unfolding ab mode_sequence_item by simp_all
  with map_inj_on [OF _ i] dec_str_inj show "a = b" using ab by (auto split: if_splits)
qed simp

text \<open>
  The mode prelude is absolute and self-contained: whatever modes the receiving terminal has, the
  twelve sequences leave it with exactly the pane's, the alternate-screen switch comes
  first, different settings have different bytes, and the stream stands between sequences
  after them, so what follows is read as it was written.
\<close>

theorem mode_prelude_absolute:
  "foldl set_private_mode m0 (prelude_modes m) = m
   \<and> mode_prelude m = concat (map mode_sequence (prelude_modes m))
   \<and> (mode_prelude m = mode_prelude m' \<longleftrightarrow> m = m')
   \<and> fst (hd (prelude_modes m)) = 1049
   \<and> at_boundary (feed Ground (mode_prelude m))"
proof -
  have set: "foldl set_private_mode k (prelude_modes m) = m" for k m by (simp add: prelude_modes_def)
  have "mode_prelude m = mode_prelude m' \<Longrightarrow> map mode_sequence (prelude_modes m) = map mode_sequence (prelude_modes m')"
    unfolding mode_prelude_def prelude_modes_def by (erule concat_injective) (simp_all add: length_mode_sequence)
  moreover have "map mode_sequence (prelude_modes m) = map mode_sequence (prelude_modes m') \<Longrightarrow> prelude_modes m = prelude_modes m'"
    by (rule map_injective) (auto simp: inj_def mode_sequence_inj)
  ultimately have "mode_prelude m = mode_prelude m' \<longleftrightarrow> m = m'" using set by metis
  with set show ?thesis by (simp add: mode_prelude_def at_boundary_def feed_mode_sequences) (simp add: prelude_modes_def)
qed

end
