(* ===== verification/Hub_Shared.thy ===== *)
theory Hub_Shared
  imports Replay_Chunks Pane_Emulator Contracts
begin

text \<open>
  The state the hub of one repository shares between its worker and the connection threads,
  \<^verbatim>\<open>src/session/terminal\<close>: \<^verbatim>\<open>hub_helpers.rs\<close>, \<^verbatim>\<open>hub_panes.rs\<close>, \<^verbatim>\<open>hub_zoom.rs\<close>, \<^verbatim>\<open>hub_layout.rs\<close>, \<^verbatim>\<open>hub_recovery.rs\<close>,
  \<^verbatim>\<open>hub_attention.rs\<close>, the pane order of \<^verbatim>\<open>hub_relaunch.rs\<close>, \<^verbatim>\<open>hub_replay.rs\<close> and \<^verbatim>\<open>hub_connect.rs\<close>. Everything done
  under one hold of the state lock is one function on \<open>shared\<close>.

  \<^item> A client's channel and its replay gate are in its \<open>client\<close> record. A client dropped for
    being too slow has its socket shut down; \<open>sh_shut\<close> lists the clients that happened to.
  \<^item> Rendering a message as JSON is the parameter \<open>ser\<close>; where it fails the code sends nothing.
  \<^item> The repository path every notice carries is constant for a hub and left out of \<open>notice\<close>.
  \<^item> The sizing verdicts that the session's ownership puts on the same channel are an
    argument where they arrive.
\<close>

section \<open>State\<close>

record pane_state =
  pn_id :: pane_id
  pn_title :: "rstring option"
  pn_scrollback :: "u8 list"
  pn_normal_screen :: "u8 list"
  pn_covered :: nat
  pn_screen :: "u8 list"
  pn_since :: "u8 list"
  pn_rows :: u16
  pn_cols :: u16
  pn_modes :: pane_modes

record recovery_report =
  rr_state :: rstring
  rr_detail :: "rstring option"
  rr_deadline_epoch :: "int option"
  rr_attempt :: u32

record client =
  cl_id :: u64
  cl_tx :: "terminal_frame chan"
  cl_held :: "terminal_frame list option"
  cl_socket :: bool
  cl_connection :: "u64 option"

record shared =
  sh_clients :: "client list"
  sh_panes :: "pane_state list"
  sh_reserved :: nat
  sh_zoomed :: "pane_id option"
  sh_recovery :: "(pane_id \<times> recovery_report) list"
  sh_shut :: "u64 list"

definition shared_new :: shared where
  "shared_new = \<lparr>sh_clients = [], sh_panes = [], sh_reserved = 0, sh_zoomed = None, sh_recovery = [], sh_shut = []\<rparr>"

record observed =
  ob_modes :: pane_modes
  ob_title :: "rstring option"
  ob_alt_changed :: bool

record notice =
  nt_pane :: pane_id
  nt_title :: "rstring option"
  nt_message :: "rstring option"

record pane_spot =
  sp_index :: nat
  sp_rows :: u16
  sp_cols :: u16
  sp_title :: "rstring option"

section \<open>Clients\<close>

datatype queue_verdict = Kept | TooSlow | Gone

definition queue_locked :: "terminal_frame \<Rightarrow> client \<Rightarrow> client \<times> queue_verdict" where
  "queue_locked frame c =
     (case cl_held c of
        Some held \<Rightarrow>
          if length held < CLIENT_QUEUE_DEPTH then (c\<lparr>cl_held := Some (held @ [frame])\<rparr>, Kept) else (c, TooSlow)
      | None \<Rightarrow>
          (case try_send frame (cl_tx c) of
             (tx, Inr _) \<Rightarrow> (c\<lparr>cl_tx := tx\<rparr>, Kept)
           | (_, Inl SendFull) \<Rightarrow> (c, TooSlow)
           | (_, Inl SendDisconnected) \<Rightarrow> (c, Gone)))"

definition cut_off :: "client \<Rightarrow> u64 list" where
  "cut_off c = (if cl_socket c then [cl_id c] else [])"

fun broadcast_clients :: "terminal_frame \<Rightarrow> client list \<Rightarrow> client list \<times> u64 list" where
  "broadcast_clients frame [] = ([], [])"
| "broadcast_clients frame (c # cs) =
     (let (kept, shut) = broadcast_clients frame cs
      in case queue_locked frame c of
           (c', Kept) \<Rightarrow> (c' # kept, shut)
         | (c', TooSlow) \<Rightarrow> (kept, cut_off c' @ shut)
         | (c', Gone) \<Rightarrow> (kept, shut))"

definition broadcast_locked :: "terminal_frame \<Rightarrow> shared \<Rightarrow> shared" where
  "broadcast_locked frame s =
     (let (kept, shut) = broadcast_clients frame (sh_clients s)
      in s\<lparr>sh_clients := kept, sh_shut := sh_shut s @ shut\<rparr>)"

text \<open>Serialise, and broadcast what came of it: the shape of every announcement.\<close>

definition announce_all :: "(server_message \<Rightarrow> rstring option) \<Rightarrow> server_message \<Rightarrow> shared \<Rightarrow> shared" where
  "announce_all ser message s =
     (case ser message of None \<Rightarrow> s | Some json \<Rightarrow> broadcast_locked (Control json) s)"

fun queue_one :: "u64 \<Rightarrow> terminal_frame \<Rightarrow> client list \<Rightarrow> client list \<times> u64 list" where
  "queue_one i frame [] = ([], [])"
| "queue_one i frame (c # cs) =
     (if cl_id c = i
      then (case queue_locked frame c of
              (c', Kept) \<Rightarrow> (c' # cs, [])
            | (c', TooSlow) \<Rightarrow> (cs, cut_off c')
            | (c', Gone) \<Rightarrow> (cs, []))
      else (let (cs', shut) = queue_one i frame cs in (c # cs', shut)))"

definition send_to :: "(server_message \<Rightarrow> rstring option) \<Rightarrow> u64 \<Rightarrow> server_message \<Rightarrow> shared \<Rightarrow> shared" where
  "send_to ser i message s =
     (case ser message of
        None \<Rightarrow> s
      | Some json \<Rightarrow>
          let (cs, shut) = queue_one i (Control json) (sh_clients s)
          in s\<lparr>sh_clients := cs, sh_shut := sh_shut s @ shut\<rparr>)"

definition send_error_to :: "(server_message \<Rightarrow> rstring option) \<Rightarrow> u64 \<Rightarrow> rstring \<Rightarrow> shared \<Rightarrow> shared" where
  "send_error_to ser i message s = send_to ser i (SmError message) s"

section \<open>Panes\<close>

definition pane_live :: "pane_id \<Rightarrow> shared \<Rightarrow> bool" where
  "pane_live pane s \<longleftrightarrow> (\<exists>p \<in> set (sh_panes s). pn_id p = pane)"

definition pane_ids :: "shared \<Rightarrow> pane_id list" where
  "pane_ids s = map pn_id (sh_panes s)"

definition has_free_slot :: "shared \<Rightarrow> bool" where
  "has_free_slot s \<longleftrightarrow> length (sh_panes s) + sh_reserved s < MAX_PTYS_PER_REPO"

definition release_reserved :: "nat \<Rightarrow> shared \<Rightarrow> shared" where
  "release_reserved count s = s\<lparr>sh_reserved := sh_reserved s - count\<rparr>"

definition reserve_startup :: "nat \<Rightarrow> shared \<Rightarrow> nat \<times> shared" where
  "reserve_startup wanted s =
     (let free = MAX_PTYS_PER_REPO - (length (sh_panes s) + sh_reserved s);
          n = min wanted free
      in (n, s\<lparr>sh_reserved := sh_reserved s + n\<rparr>))"

definition clear_zoom_locked :: "(server_message \<Rightarrow> rstring option) \<Rightarrow> shared \<Rightarrow> shared" where
  "clear_zoom_locked ser s =
     (if sh_zoomed s = None then s else announce_all ser (SmZoomed None) (s\<lparr>sh_zoomed := None\<rparr>))"

definition set_zoom :: "(server_message \<Rightarrow> rstring option) \<Rightarrow> pane_id option \<Rightarrow> shared \<Rightarrow> shared" where
  "set_zoom ser pane s =
     (if (case pane of None \<Rightarrow> False | Some i \<Rightarrow> \<not> pane_live i s) then s
      else if sh_zoomed s = pane then s
      else announce_all ser (SmZoomed pane) (s\<lparr>sh_zoomed := pane\<rparr>))"

definition pane_new :: "pane_id \<Rightarrow> u16 \<Rightarrow> u16 \<Rightarrow> rstring option \<Rightarrow> pane_state" where
  "pane_new pane rows cols title =
     \<lparr>pn_id = pane, pn_title = title, pn_scrollback = [], pn_normal_screen = [], pn_covered = 0,
      pn_screen = [], pn_since = [], pn_rows = rows, pn_cols = cols, pn_modes = modes_default\<rparr>"

definition register_pane ::
  "(server_message \<Rightarrow> rstring option) \<Rightarrow> pane_id \<Rightarrow> u16 \<Rightarrow> u16 \<Rightarrow> u64 option \<Rightarrow> rstring option \<Rightarrow> shared \<Rightarrow> shared" where
  "register_pane ser pane rows cols client title s =
     (let s = clear_zoom_locked ser s;
          s = s\<lparr>sh_panes := sh_panes s @ [pane_new pane rows cols title]\<rparr>
      in announce_all ser (SmCreated pane rows cols client title) s)"

fun upd_pane :: "pane_id \<Rightarrow> (pane_state \<Rightarrow> pane_state) \<Rightarrow> pane_state list \<Rightarrow> pane_state list" where
  "upd_pane pane f [] = []"
| "upd_pane pane f (p # ps) = (if pn_id p = pane then f p # ps else p # upd_pane pane f ps)"

definition find_pane :: "pane_id \<Rightarrow> shared \<Rightarrow> pane_state option" where
  "find_pane pane s = List.find (\<lambda>p. pn_id p = pane) (sh_panes s)"

definition push_scrollback :: "u8 list \<Rightarrow> nat \<Rightarrow> u8 list \<Rightarrow> u8 list \<times> nat \<times> nat" where
  "push_scrollback buf covered data =
     (let buf = buf @ data;
          evicted = (if length buf > MAX_TERMINAL_SCROLLBACK_BYTES
                     then min (length buf - MAX_TERMINAL_SCROLLBACK_BYTES) covered else 0);
          buf = drop evicted buf;
          covered = covered - evicted
      in (buf, covered, length buf - covered))"

text \<open>What \<^verbatim>\<open>record_and_broadcast\<close> does to the pane it names, and how many bytes that leaves owed.\<close>

definition record_chunk :: "u8 list \<Rightarrow> observed \<Rightarrow> u8 list option \<Rightarrow> pane_state \<Rightarrow> pane_state \<times> nat" where
  "record_chunk data obs screen p =
     (let (p, owed) =
            (if pm_alt_screen (ob_modes obs)
             then (case screen of
                     Some scr \<Rightarrow> (p\<lparr>pn_screen := scr, pn_since := []\<rparr>, 0)
                   | None \<Rightarrow> (p\<lparr>pn_since := pn_since p @ data\<rparr>, length (pn_since p @ data)))
             else
               let p = (if ob_alt_changed obs then p\<lparr>pn_screen := [], pn_since := []\<rparr> else p);
                   (buf, covered, owed) = push_scrollback (pn_scrollback p) (pn_covered p) data
               in (p\<lparr>pn_scrollback := buf, pn_covered := covered\<rparr>, owed));
          p = p\<lparr>pn_modes := ob_modes obs\<rparr>
      in (case ob_title obs of None \<Rightarrow> p | Some t \<Rightarrow> p\<lparr>pn_title := Some t\<rparr>, owed))"

definition record_and_broadcast :: "pane_id \<Rightarrow> u8 list \<Rightarrow> observed \<Rightarrow> u8 list option \<Rightarrow> shared \<Rightarrow> shared \<times> nat" where
  "record_and_broadcast pane data obs screen s =
     (let owed = (case find_pane pane s of None \<Rightarrow> 0 | Some p \<Rightarrow> snd (record_chunk data obs screen p));
          s = s\<lparr>sh_panes := upd_pane pane (\<lambda>p. fst (record_chunk data obs screen p)) (sh_panes s)\<rparr>
      in (broadcast_locked (Output pane data) s, owed))"

definition settle_record :: "observed \<Rightarrow> pane_state \<Rightarrow> pane_state" where
  "settle_record obs p =
     (let p = (if ob_alt_changed obs \<and> \<not> pm_alt_screen (ob_modes obs) then p\<lparr>pn_screen := [], pn_since := []\<rparr> else p);
          p = p\<lparr>pn_modes := ob_modes obs\<rparr>
      in case ob_title obs of None \<Rightarrow> p | Some t \<Rightarrow> p\<lparr>pn_title := Some t\<rparr>)"

definition store_settled :: "pane_id \<Rightarrow> observed \<Rightarrow> shared \<Rightarrow> shared" where
  "store_settled pane obs s = s\<lparr>sh_panes := upd_pane pane (settle_record obs) (sh_panes s)\<rparr>"

definition screen_record :: "u8 list \<Rightarrow> pane_state \<Rightarrow> pane_state" where
  "screen_record screen p = p\<lparr>pn_screen := screen, pn_since := []\<rparr>"

definition store_screen :: "pane_id \<Rightarrow> u8 list \<Rightarrow> shared \<Rightarrow> shared" where
  "store_screen pane screen s = s\<lparr>sh_panes := upd_pane pane (screen_record screen) (sh_panes s)\<rparr>"

definition normal_screen_record :: "u8 list \<Rightarrow> pane_state \<Rightarrow> pane_state" where
  "normal_screen_record screen p = p\<lparr>pn_covered := length (pn_scrollback p), pn_normal_screen := screen\<rparr>"

definition store_normal_screen :: "pane_id \<Rightarrow> u8 list \<Rightarrow> shared \<Rightarrow> shared" where
  "store_normal_screen pane screen s = s\<lparr>sh_panes := upd_pane pane (normal_screen_record screen) (sh_panes s)\<rparr>"

text \<open>
  What a resize that reached the PTY does to the shared state: the recorded size, the screen
  taken at the new size if there is one, and the announcement.
\<close>

definition resize_record :: "u16 \<Rightarrow> u16 \<Rightarrow> u8 list option \<Rightarrow> pane_state \<Rightarrow> pane_state" where
  "resize_record rows cols screen p =
     (let p = p\<lparr>pn_rows := rows, pn_cols := cols\<rparr>
      in case screen of
           None \<Rightarrow> p
         | Some scr \<Rightarrow> if pm_alt_screen (pn_modes p) then screen_record scr p else normal_screen_record scr p)"

definition resize_shared ::
  "(server_message \<Rightarrow> rstring option) \<Rightarrow> pane_id \<Rightarrow> u16 \<Rightarrow> u16 \<Rightarrow> u8 list option \<Rightarrow> shared \<Rightarrow> shared" where
  "resize_shared ser pane rows cols screen s =
     announce_all ser (SmResized pane rows cols)
       (s\<lparr>sh_panes := upd_pane pane (resize_record rows cols screen) (sh_panes s)\<rparr>)"

definition remove_pane_and_announce :: "(server_message \<Rightarrow> rstring option) \<Rightarrow> pane_id \<Rightarrow> shared \<Rightarrow> shared" where
  "remove_pane_and_announce ser pane s =
     (if \<not> pane_live pane s then s
      else
        let s = s\<lparr>sh_panes := filter (\<lambda>p. pn_id p \<noteq> pane) (sh_panes s)\<rparr>;
            s = announce_all ser (SmExited pane) s
        in if sh_zoomed s = Some pane then clear_zoom_locked ser s else s)"

definition canonical_order :: "pane_id list \<Rightarrow> pane_id list \<Rightarrow> pane_id list" where
  "canonical_order current requested = push_new (push_new [] (filter (\<lambda>i. i \<in> set current) requested)) current"

text \<open>The move loop of \<^verbatim>\<open>reorder_panes\<close>: each id of the target takes its record out of the old list.\<close>

fun take_in_order :: "pane_id list \<Rightarrow> pane_state list \<Rightarrow> pane_state list" where
  "take_in_order [] old = []"
| "take_in_order (i # is) old =
     (case List.extract (\<lambda>p. pn_id p = i) old of
        Some (front, p, after) \<Rightarrow> p # take_in_order is (front @ after)
      | None \<Rightarrow> take_in_order is old)"

definition reorder_panes :: "(server_message \<Rightarrow> rstring option) \<Rightarrow> pane_id list \<Rightarrow> shared \<Rightarrow> shared" where
  "reorder_panes ser order s =
     (let current = pane_ids s; target = canonical_order current order
      in if target = current then s
         else announce_all ser (SmReordered target) (s\<lparr>sh_panes := take_in_order target (sh_panes s)\<rparr>))"

definition restore_pane_index :: "(server_message \<Rightarrow> rstring option) \<Rightarrow> pane_id \<Rightarrow> nat \<Rightarrow> shared \<Rightarrow> shared" where
  "restore_pane_index ser pane index s =
     (case List.extract (\<lambda>p. pn_id p = pane) (sh_panes s) of
        None \<Rightarrow> s
      | Some (front, entry, after) \<Rightarrow>
          let to = min index (length (sh_panes s) - 1)
          in if length front = to then s
             else
               let s = s\<lparr>sh_panes := take to (front @ after) @ entry # drop to (front @ after)\<rparr>
               in announce_all ser (SmReordered (pane_ids s)) s)"

definition pane_spot_of :: "pane_id \<Rightarrow> shared \<Rightarrow> pane_spot option" where
  "pane_spot_of pane s =
     (case List.extract (\<lambda>p. pn_id p = pane) (sh_panes s) of
        None \<Rightarrow> None
      | Some (front, p, _) \<Rightarrow>
          Some \<lparr>sp_index = length front, sp_rows = pn_rows p, sp_cols = pn_cols p, sp_title = pn_title p\<rparr>)"

section \<open>Recovery reports and attention\<close>

definition RECOVERY_CANCELLED :: rstring where
  "RECOVERY_CANCELLED = lit ''cancelled''"

definition RECOVERY_NEEDS_ATTENTION :: rstring where
  "RECOVERY_NEEDS_ATTENTION = lit ''needs_attention''"

definition publish_notice :: "pane_id \<Rightarrow> rstring option \<Rightarrow> shared \<Rightarrow> notice" where
  "publish_notice pane message s =
     \<lparr>nt_pane = pane, nt_title = (case find_pane pane s of None \<Rightarrow> None | Some p \<Rightarrow> pn_title p), nt_message = message\<rparr>"

definition broadcast_attention ::
  "(server_message \<Rightarrow> rstring option) \<Rightarrow> pane_id \<Rightarrow> rstring option \<Rightarrow> shared \<Rightarrow> shared \<times> notice option" where
  "broadcast_attention ser pane message s =
     (case ser (SmAttention pane message) of
        None \<Rightarrow> (s, None)
      | Some json \<Rightarrow>
          let s = broadcast_locked (Control json) s in (s, Some (publish_notice pane message s)))"

definition broadcast_recovery ::
  "(server_message \<Rightarrow> rstring option) \<Rightarrow> pane_id \<Rightarrow> rstring \<Rightarrow> rstring option \<Rightarrow> int option \<Rightarrow> u32 \<Rightarrow> shared
     \<Rightarrow> shared \<times> notice option" where
  "broadcast_recovery ser pane st detail deadline attempt s =
     (case ser (SmRecovery pane st detail deadline attempt) of
        None \<Rightarrow> (s, None)
      | Some json \<Rightarrow>
          let newly = (st = RECOVERY_NEEDS_ATTENTION \<and> map_option rr_state (map_of (sh_recovery s) pane) \<noteq> Some st);
              s = s\<lparr>sh_recovery :=
                (if st = RECOVERY_CANCELLED then bt_remove pane (sh_recovery s)
                 else bt_insert pane \<lparr>rr_state = st, rr_detail = detail, rr_deadline_epoch = deadline, rr_attempt = attempt\<rparr>
                        (sh_recovery s))\<rparr>;
              s = broadcast_locked (Control json) s
          in (s, if newly then Some (publish_notice pane detail s) else None))"

definition end_recovery :: "(server_message \<Rightarrow> rstring option) \<Rightarrow> pane_id \<Rightarrow> shared \<Rightarrow> shared" where
  "end_recovery ser pane s = fst (broadcast_recovery ser pane RECOVERY_CANCELLED None None 0 s)"

definition end_recovery_if_reported :: "(server_message \<Rightarrow> rstring option) \<Rightarrow> pane_id \<Rightarrow> shared \<Rightarrow> shared" where
  "end_recovery_if_reported ser pane s =
     (if map_of (sh_recovery s) pane \<noteq> None then end_recovery ser pane s else s)"

fun announce_each :: "(server_message \<Rightarrow> rstring option) \<Rightarrow> server_message list \<Rightarrow> shared \<Rightarrow> shared" where
  "announce_each ser [] s = s"
| "announce_each ser (m # ms) s = announce_each ser ms (announce_all ser m s)"

definition end_all_recoveries_locked :: "(server_message \<Rightarrow> rstring option) \<Rightarrow> shared \<Rightarrow> shared" where
  "end_all_recoveries_locked ser s =
     announce_each ser (map (\<lambda>(pane, _). SmRecovery pane RECOVERY_CANCELLED None None 0) (sh_recovery s))
       (s\<lparr>sh_recovery := []\<rparr>)"

text \<open>The end of the worker: every pane and every report is announced gone.\<close>

definition teardown :: "(server_message \<Rightarrow> rstring option) \<Rightarrow> shared \<Rightarrow> shared" where
  "teardown ser s =
     (let gone = pane_ids s;
          s = s\<lparr>sh_panes := [], sh_zoomed := None\<rparr>;
          s = announce_each ser (map SmExited gone) s
      in end_all_recoveries_locked ser s)"

section \<open>What the announcements leave alone\<close>

lemma broadcast_fields [simp]:
  "sh_panes (broadcast_locked f s) = sh_panes s"
  "sh_zoomed (broadcast_locked f s) = sh_zoomed s"
  "sh_recovery (broadcast_locked f s) = sh_recovery s"
  "sh_reserved (broadcast_locked f s) = sh_reserved s"
  by (simp_all add: broadcast_locked_def case_prod_beta)

lemma announce_fields [simp]:
  "sh_panes (announce_all ser m s) = sh_panes s"
  "sh_zoomed (announce_all ser m s) = sh_zoomed s"
  "sh_recovery (announce_all ser m s) = sh_recovery s"
  "sh_reserved (announce_all ser m s) = sh_reserved s"
  by (simp_all add: announce_all_def split: option.split)

lemma clear_zoom_fields [simp]:
  "sh_panes (clear_zoom_locked ser s) = sh_panes s" "sh_zoomed (clear_zoom_locked ser s) = None"
  "sh_recovery (clear_zoom_locked ser s) = sh_recovery s"
  by (simp_all add: clear_zoom_locked_def)

lemma panes_send_to [simp]: "sh_panes (send_to ser i m s) = sh_panes s"
  by (simp add: send_to_def case_prod_beta split: option.split)

lemma panes_recovery [simp]: "sh_panes (fst (broadcast_recovery ser p st d dl a s)) = sh_panes s"
  by (simp add: broadcast_recovery_def Let_def split: option.split)

lemma map_upd_pane: "(\<And>p. g (f p) = g p) \<Longrightarrow> map g (upd_pane i f ps) = map g ps"
  by (induction i f ps rule: upd_pane.induct) auto

lemma length_upd_pane [simp]: "length (upd_pane i f ps) = length ps"
  by (induction i f ps rule: upd_pane.induct) auto

lemma find_upd_pane:
  assumes "\<And>p. pn_id (f p) = pn_id p"
  shows "List.find (\<lambda>p. pn_id p = q) (upd_pane i f ps) =
    (if q = i then map_option f (List.find (\<lambda>p. pn_id p = q) ps) else List.find (\<lambda>p. pn_id p = q) ps)"
  by (induction ps) (auto simp: assms)

lemma find_pane_upd:
  "(\<And>p. pn_id (f p) = pn_id p) \<Longrightarrow>
   find_pane q (s\<lparr>sh_panes := upd_pane i f (sh_panes s)\<rparr>) = (if q = i then map_option f (find_pane q s) else find_pane q s)"
  by (simp add: find_pane_def find_upd_pane)

lemma find_pane_panes: "sh_panes s = sh_panes s' \<Longrightarrow> find_pane q s = find_pane q s'"
  by (simp add: find_pane_def)

lemma take_in_order_spec:
  "distinct target \<Longrightarrow> set target \<subseteq> pn_id ` set old \<Longrightarrow> distinct (map pn_id old) \<Longrightarrow>
   map pn_id (take_in_order target old) = target \<and> set (take_in_order target old) \<subseteq> set old"
proof (induction target old rule: take_in_order.induct)
  case (2 i rest old)
  obtain before p after where e: "List.extract (\<lambda>p. pn_id p = i) old = Some (before, p, after)"
    using 2(4) by (cases "List.extract (\<lambda>p. pn_id p = i) old") (auto simp: extract_None_iff image_iff)
  then have o: "old = before @ p # after" "pn_id p = i" by (auto simp: extract_Some_iff)
  then have "set rest \<subseteq> pn_id ` set (before @ after)" using 2(3,4) by auto
  moreover have "distinct (map pn_id (before @ after))" using 2(5) o by auto
  ultimately have "map pn_id (take_in_order rest (before @ after)) = rest
      \<and> set (take_in_order rest (before @ after)) \<subseteq> set (before @ after)"
    using 2(2) [OF e refl refl] 2(3) by simp
  with o e show ?case by auto
qed simp

lemma canonical_order_perm:
  "distinct current \<Longrightarrow> distinct (canonical_order current requested) \<and> set (canonical_order current requested) = set current"
  by (auto simp: canonical_order_def)

end
