(* ===== verification/Hub_Plugins.thy ===== *)
theory Hub_Plugins
  imports Plugin_Guard Pty_Backend Output_Text Hub_Shared "HOL-Library.AList"
begin

text \<open>
  The plugin side of a hub's worker: \<^verbatim>\<open>src/session/terminal/hub_plugins.rs\<close>, \<^verbatim>\<open>hub_plugins_slots.rs\<close>, \<^verbatim>\<open>hub_events.rs\<close>,
  \<^verbatim>\<open>hub_reload.rs\<close> and \<^verbatim>\<open>hub_reload_hosts.rs\<close>, with the host of one plugin child from \<^verbatim>\<open>src/plugin/host.rs\<close>.

  \<^item> A hash map is an association list with \<^const>\<open>AList.update\<close> and \<^const>\<open>AList.delete\<close>. The order in which one is iterated is
    decided by the environment: \<open>env_panes\<close> and \<open>env_names\<close> may permute it.
  \<^item> The environment also says which children launch, and renders an event as JSON.
  \<^item> A plugin host is its two queues. The pump threads and the child process behind them are not modelled:
    commands appear in \<open>ho_commands\<close>.
\<close>

definition PANE_IDLE_THRESHOLD :: duration where
  "PANE_IDLE_THRESHOLD = from_secs 10"

definition MAX_COMMANDS_PER_TICK :: nat where
  "MAX_COMMANDS_PER_TICK = 8"

definition COMMAND_DRAIN_PACE :: duration where
  "COMMAND_DRAIN_PACE = from_millis 8"

definition PENDING_RELAUNCH_TTL :: duration where
  "PENDING_RELAUNCH_TTL = from_secs (9 * 24 * 60 * 60)"

definition OUTBOUND_QUEUE_DEPTH :: nat where
  "OUTBOUND_QUEUE_DEPTH = 256"

record plugin_config =
  cfg_name :: rstring
  cfg_command :: rstring
  cfg_args :: "rstring list"
  cfg_env :: "(rstring \<times> rstring) list"
  cfg_flags :: "rstring list"
  cfg_enabled :: bool
  cfg_watch :: bool

record startup_command =
  sc_name :: "rstring option"
  sc_command :: rstring
  sc_plugin :: "rstring option"

record plugin_env =
  env_encode :: "plugin_event \<Rightarrow> rstring option"
  env_launches :: "plugin_config \<Rightarrow> bool"
  env_panes :: "pane_id list \<Rightarrow> pane_id list"
  env_names :: "rstring list \<Rightarrow> rstring list"

section \<open>One host\<close>

record plugin_host =
  ho_events :: "rstring chan option"
  ho_commands :: "plugin_command list"
  ho_dropped :: u64
  ho_shut :: bool

definition host_new :: plugin_host where
  "host_new = \<lparr>ho_events = Some \<lparr>ch_queue = [], ch_cap = OUTBOUND_QUEUE_DEPTH, ch_open = True\<rparr>, ho_commands = [],
     ho_dropped = 0, ho_shut = False\<rparr>"

definition host_send :: "(plugin_event \<Rightarrow> rstring option) \<Rightarrow> plugin_event \<Rightarrow> plugin_host \<Rightarrow> plugin_host \<times> bool" where
  "host_send encode ev h =
     (case encode_event encode ev of
        Inl _ \<Rightarrow> (h\<lparr>ho_dropped := ho_dropped h + 1\<rparr>, False)
      | Inr line \<Rightarrow>
          (case ho_events h of
             None \<Rightarrow> (h, False)
           | Some ch \<Rightarrow>
               (case try_send line ch of
                  (ch', Inr _) \<Rightarrow> (h\<lparr>ho_events := Some ch'\<rparr>, True)
                | (_, Inl SendFull) \<Rightarrow> (h\<lparr>ho_dropped := ho_dropped h + 1\<rparr>, False)
                | (_, Inl SendDisconnected) \<Rightarrow> (h, False))))"

definition host_shutdown :: "(plugin_event \<Rightarrow> rstring option) \<Rightarrow> plugin_host \<Rightarrow> plugin_host" where
  "host_shutdown encode h =
     (if ho_shut h then h
      else (fst (host_send encode (Shutdown PROTOCOL_VERSION) (h\<lparr>ho_shut := True\<rparr>)))\<lparr>ho_events := None\<rparr>)"

section \<open>State\<close>

record pending =
  pd_spot :: pane_spot
  pd_deadline :: instant

record plugins =
  pl_hosts :: "(rstring \<times> plugin_host) list"
  pl_launched :: "(rstring \<times> plugin_config) list"
  pl_owners :: "(pane_id \<times> rstring) list"
  pl_intended :: "(pane_id \<times> rstring) list"
  pl_flags :: "(rstring \<times> rstring list) list"
  pl_watch :: "rstring list"
  pl_guard :: guard
  pl_pending :: "(pane_id \<times> pending) list"
  pl_idle :: "pane_id list"
  pl_cwd :: rstring
  pl_capped :: bool

definition opted_in :: "rstring \<Rightarrow> startup_command list \<Rightarrow> bool" where
  "opted_in name startup = list_ex (\<lambda>sc. sc_plugin sc = Some name) startup"

definition set_watch_on_signal :: "rstring \<Rightarrow> bool \<Rightarrow> plugins \<Rightarrow> plugins" where
  "set_watch_on_signal name allowed p =
     p\<lparr>pl_watch := (if allowed then List.insert name (pl_watch p) else removeAll name (pl_watch p))\<rparr>"

text \<open>What launching a child leaves behind, at the start and on a reload.\<close>

definition record_host :: "plugin_config \<Rightarrow> plugins \<Rightarrow> plugins" where
  "record_host cfg p =
     p\<lparr>pl_flags := AList.update (cfg_name cfg) (cfg_flags cfg) (pl_flags p),
       pl_launched := AList.update (cfg_name cfg) cfg (pl_launched p),
       pl_hosts := AList.update (cfg_name cfg) host_new (pl_hosts p)\<rparr>"

fun start_each :: "plugin_env \<Rightarrow> startup_command list \<Rightarrow> plugin_config list \<Rightarrow> plugins \<Rightarrow> plugins" where
  "start_each env startup [] p = p"
| "start_each env startup (cfg # cfgs) p =
     start_each env startup cfgs
       (if \<not> cfg_enabled cfg \<or> \<not> (opted_in (cfg_name cfg) startup \<or> cfg_watch cfg) then p
        else if env_launches env cfg
        then (let p = record_host cfg p
              in if cfg_watch cfg then p\<lparr>pl_watch := List.insert (cfg_name cfg) (pl_watch p)\<rparr> else p)
        else p)"

definition plugins_start :: "plugin_env \<Rightarrow> rstring \<Rightarrow> plugin_config list \<Rightarrow> startup_command list \<Rightarrow> plugins" where
  "plugins_start env cwd configs startup =
     start_each env startup configs
       \<lparr>pl_hosts = [], pl_launched = [], pl_owners = [], pl_intended = [], pl_flags = [], pl_watch = [],
        pl_guard = guard_new PANE_IDLE_THRESHOLD default_rate_limits, pl_pending = [], pl_idle = [],
        pl_cwd = cwd, pl_capped = False\<rparr>"

definition adopt :: "pane_id \<Rightarrow> rstring \<Rightarrow> plugins \<Rightarrow> plugins \<times> bool" where
  "adopt pane plugin p =
     (let p = p\<lparr>pl_intended := AList.update pane plugin (pl_intended p)\<rparr>
      in if map_of (pl_hosts p) plugin = None then (p, False)
         else (p\<lparr>pl_owners := AList.update pane plugin (pl_owners p)\<rparr>, True))"

definition owner :: "pane_id \<Rightarrow> plugins \<Rightarrow> rstring option" where
  "owner pane p = map_of (pl_owners p) pane"

definition is_inert :: "plugins \<Rightarrow> bool" where
  "is_inert p \<longleftrightarrow> pl_hosts p = []"

definition plugins_shutdown :: "plugin_env \<Rightarrow> plugins \<Rightarrow> plugins" where
  "plugins_shutdown env p = p\<lparr>pl_hosts := map (\<lambda>(n, h). (n, host_shutdown (env_encode env) h)) (pl_hosts p)\<rparr>"

section \<open>Slots\<close>

definition hold_for_relaunch :: "pane_id \<Rightarrow> pane_spot \<Rightarrow> instant \<Rightarrow> plugins \<Rightarrow> plugins" where
  "hold_for_relaunch pane spot now p =
     (if owner pane p = None then p
      else p\<lparr>pl_idle := removeAll pane (pl_idle p),
             pl_pending := AList.update pane \<lparr>pd_spot = spot, pd_deadline = now + PENDING_RELAUNCH_TTL\<rparr> (pl_pending p)\<rparr>)"

definition claim_pending :: "pane_id \<Rightarrow> plugins \<Rightarrow> plugins \<times> pending option" where
  "claim_pending pane p = (p\<lparr>pl_pending := AList.delete pane (pl_pending p)\<rparr>, map_of (pl_pending p) pane)"

definition restore_pending :: "pane_id \<Rightarrow> pending \<Rightarrow> plugins \<Rightarrow> plugins" where
  "restore_pending pane held p = p\<lparr>pl_pending := AList.update pane held (pl_pending p)\<rparr>"

definition take_over :: "pane_id \<Rightarrow> pane_id \<Rightarrow> plugins \<Rightarrow> plugins" where
  "take_over old new p =
     (let p = (case owner old p of
                 None \<Rightarrow> p
               | Some plugin \<Rightarrow> p\<lparr>pl_owners := AList.update new plugin (AList.delete old (pl_owners p))\<rparr>)
      in p\<lparr>pl_idle := removeAll old (pl_idle p)\<rparr>)"

definition cancel_budget :: "pty_backend \<Rightarrow> pane_id \<Rightarrow> plugins \<Rightarrow> plugins" where
  "cancel_budget b pane p =
     (case backend_slot b pane of
        None \<Rightarrow> p
      | Some slot \<Rightarrow> p\<lparr>pl_guard := cancel (id_token (slot_identity slot)) (pl_guard p)\<rparr>)"

definition release_pane :: "pty_backend \<Rightarrow> pane_id \<Rightarrow> plugins \<Rightarrow> plugins" where
  "release_pane b pane p =
     cancel_budget b pane
       (p\<lparr>pl_owners := AList.delete pane (pl_owners p), pl_pending := AList.delete pane (pl_pending p),
          pl_idle := removeAll pane (pl_idle p)\<rparr>)"

definition forget_pane :: "pty_backend \<Rightarrow> pane_id \<Rightarrow> plugins \<Rightarrow> plugins" where
  "forget_pane b pane p =
     cancel_budget b pane
       (p\<lparr>pl_intended := AList.delete pane (pl_intended p), pl_owners := AList.delete pane (pl_owners p),
          pl_pending := AList.delete pane (pl_pending p), pl_idle := removeAll pane (pl_idle p)\<rparr>)"

fun expire_each :: "pane_id list \<Rightarrow> pty_backend \<times> plugins \<Rightarrow> pty_backend \<times> plugins" where
  "expire_each [] bp = bp"
| "expire_each (pane # ps) (b, p) = expire_each ps (retire_slot pane b, forget_pane b pane p)"

definition expire_pending :: "plugin_env \<Rightarrow> instant \<Rightarrow> pty_backend \<times> plugins \<Rightarrow> (pty_backend \<times> plugins) \<times> pane_id list" where
  "expire_pending env now bp =
     (let expired = filter (\<lambda>pane. case map_of (pl_pending (snd bp)) pane of
                                     None \<Rightarrow> False | Some held \<Rightarrow> now \<ge> pd_deadline held)
                      (env_panes env (map fst (pl_pending (snd bp))))
      in (expire_each expired bp, expired))"

section \<open>Events\<close>

definition send_for ::
  "plugin_env \<Rightarrow> pty_backend \<Rightarrow> pane_id \<Rightarrow> (pane_token \<Rightarrow> pane_generation \<Rightarrow> plugin_event) \<Rightarrow> plugins \<Rightarrow> plugins" where
  "send_for env b pane build p =
     (case owner pane p of
        None \<Rightarrow> p
      | Some name \<Rightarrow>
          (case map_of (pl_hosts p) name of
             None \<Rightarrow> p
           | Some host \<Rightarrow>
               (case backend_slot b pane of
                  None \<Rightarrow> p
                | Some slot \<Rightarrow>
                    let ev = build (id_token (slot_identity slot)) (id_generation (slot_identity slot))
                    in p\<lparr>pl_hosts := AList.update name (fst (host_send (env_encode env) ev host)) (pl_hosts p)\<rparr>)))"

definition pane_opened :: "plugin_env \<Rightarrow> pty_backend \<Rightarrow> pane_id \<Rightarrow> rstring option \<Rightarrow> plugins \<Rightarrow> plugins" where
  "pane_opened env b pane title p =
     (let command = (case backend_slot b pane of None \<Rightarrow> None | Some slot \<Rightarrow> slot_command slot)
      in send_for env b pane (\<lambda>token generation. PaneOpened PROTOCOL_VERSION token generation title command (pl_cwd p)) p)"

definition pane_output :: "plugin_env \<Rightarrow> pty_backend \<Rightarrow> pane_id \<Rightarrow> u8 list \<Rightarrow> plugins \<Rightarrow> plugins" where
  "pane_output env b pane data p =
     (if owner pane p = None then p
      else
        let p = p\<lparr>pl_idle := removeAll pane (pl_idle p)\<rparr>; text = strip_escape_sequences data
        in if text = [] then p
           else send_for env b pane (\<lambda>token generation. PaneOutput PROTOCOL_VERSION token generation text) p)"

definition pane_exited :: "plugin_env \<Rightarrow> pty_backend \<Rightarrow> pane_id \<Rightarrow> plugins \<Rightarrow> plugins" where
  "pane_exited env b pane p = send_for env b pane (PaneExited PROTOCOL_VERSION) p"

definition pane_closed :: "plugin_env \<Rightarrow> pty_backend \<Rightarrow> pane_id \<Rightarrow> plugins \<Rightarrow> plugins" where
  "pane_closed env b pane p = send_for env b pane (PaneClosed PROTOCOL_VERSION) p"

definition user_input :: "plugin_env \<Rightarrow> pty_backend \<Rightarrow> pane_id \<Rightarrow> plugins \<Rightarrow> plugins" where
  "user_input env b pane p =
     (if owner pane p = None then p
      else cancel_budget b pane (send_for env b pane (UserInput PROTOCOL_VERSION) p))"

fun announce_idle :: "plugin_env \<Rightarrow> pty_backend \<Rightarrow> (pane_id \<times> u64) list \<Rightarrow> plugins \<Rightarrow> plugins" where
  "announce_idle env b [] p = p"
| "announce_idle env b ((pane, idle_ms) # due) p =
     (let p = send_for env b pane (\<lambda>token generation. PaneIdle PROTOCOL_VERSION token generation idle_ms) p
      in announce_idle env b due (p\<lparr>pl_idle := List.insert pane (pl_idle p)\<rparr>))"

definition idle_due :: "pty_backend \<Rightarrow> instant \<Rightarrow> plugins \<Rightarrow> pane_id \<Rightarrow> (pane_id \<times> u64) option" where
  "idle_due b now p pane =
     (if pane \<in> set (pl_idle p) \<or> \<not> is_process_alive b pane then None
      else case backend_slot b pane of
             None \<Rightarrow> None
           | Some slot \<Rightarrow>
               if idle_for slot now \<ge> PANE_IDLE_THRESHOLD then Some (pane, of_nat (idle_for slot now div 1000000))
               else None)"

definition notify_idle :: "plugin_env \<Rightarrow> pty_backend \<Rightarrow> instant \<Rightarrow> plugins \<Rightarrow> plugins" where
  "notify_idle env b now p =
     (if pl_owners p = [] then p
      else announce_idle env b (List.map_filter (idle_due b now p) (env_panes env (map fst (pl_owners p)))) p)"

fun take_each :: "rstring list \<Rightarrow> plugins \<Rightarrow> plugins \<times> (rstring \<times> plugin_command) list \<times> bool" where
  "take_each [] p = (p, [], False)"
| "take_each (name # names) p =
     (case map_of (pl_hosts p) name of
        None \<Rightarrow> take_each names p
      | Some host \<Rightarrow>
          let here = take MAX_COMMANDS_PER_TICK (ho_commands host);
              p = p\<lparr>pl_hosts := AList.update name (host\<lparr>ho_commands := drop MAX_COMMANDS_PER_TICK (ho_commands host)\<rparr>) (pl_hosts p)\<rparr>;
              (p, taken, capped) = take_each names p
          in (p, map (Pair name) here @ taken, length here = MAX_COMMANDS_PER_TICK \<or> capped))"

definition take_commands :: "plugin_env \<Rightarrow> plugins \<Rightarrow> plugins \<times> (rstring \<times> plugin_command) list" where
  "take_commands env p =
     (let (p, taken, capped) = take_each (env_names env (map fst (pl_hosts p))) p in (p\<lparr>pl_capped := capped\<rparr>, taken))"

definition plugins_deadline :: "pty_backend \<Rightarrow> instant \<Rightarrow> plugins \<Rightarrow> instant option" where
  "plugins_deadline b now p =
     (if pl_hosts p = [] then None
      else least
        (map (pd_deadline \<circ> snd) (pl_pending p)
         @ List.map_filter
             (\<lambda>(pane, _). if pane \<in> set (pl_idle p) \<or> \<not> is_process_alive b pane then None
                else map_option (\<lambda>slot. slot_last_output slot + PANE_IDLE_THRESHOLD) (backend_slot b pane)) (pl_owners p)
         @ (if pl_capped p then [now + COMMAND_DRAIN_PACE] else [])))"

definition facts_for :: "rstring \<Rightarrow> pty_backend \<Rightarrow> instant \<Rightarrow> plugins \<Rightarrow> pane_token \<Rightarrow> pane_facts option" where
  "facts_for plugin b now p token =
     (case pane_for_token b token of
        None \<Rightarrow> None
      | Some pane \<Rightarrow>
          (case backend_slot b pane of
             None \<Rightarrow> None
           | Some slot \<Rightarrow>
               Some \<lparr>pf_pane = pane, pf_generation = id_generation (slot_identity slot),
                     pf_opted_in = (owner pane p = Some plugin),
                     pf_watched_by_another = (case owner pane p of None \<Rightarrow> False | Some name \<Rightarrow> name \<noteq> plugin),
                     pf_may_watch_on_signal = (plugin \<in> set (pl_watch p)),
                     pf_alive = is_process_alive b pane, pf_idle = idle_for slot now,
                     pf_launch_command = slot_command slot\<rparr>))"

definition plugins_judge ::
  "rstring \<Rightarrow> plugin_command \<Rightarrow> pty_backend \<Rightarrow> instant \<Rightarrow> plugins \<Rightarrow> plugins \<times> (refused + approved)" where
  "plugins_judge plugin command b now p =
     (let facts = (case cmd_token command of None \<Rightarrow> None | Some token \<Rightarrow> facts_for plugin b now p token);
          allowed = (case map_of (pl_flags p) plugin of None \<Rightarrow> [] | Some flags \<Rightarrow> flags);
          (g, verdict) = judge (pl_guard p) command facts allowed now
      in (p\<lparr>pl_guard := g\<rparr>, verdict))"

section \<open>Reload\<close>

record plugin_reload =
  re_started :: "rstring list"
  re_stopped :: "rstring list"
  re_restarted :: "rstring list"
  re_retired :: "pane_id list"
  re_released :: "pane_id list"

definition is_wanted :: "startup_command list \<Rightarrow> plugins \<Rightarrow> plugin_config \<Rightarrow> bool" where
  "is_wanted startup p cfg \<longleftrightarrow>
     cfg_enabled cfg \<and>
     (opted_in (cfg_name cfg) startup \<or> cfg_watch cfg \<or> list_ex (\<lambda>(_, name). name = cfg_name cfg) (pl_owners p))"

definition spec_changed :: "plugins \<Rightarrow> plugin_config \<Rightarrow> bool" where
  "spec_changed p cfg =
     (case map_of (pl_launched p) (cfg_name cfg) of
        None \<Rightarrow> False
      | Some was \<Rightarrow> cfg_command was \<noteq> cfg_command cfg \<or> cfg_args was \<noteq> cfg_args cfg \<or> cfg_env was \<noteq> cfg_env cfg)"

definition panes_of :: "plugin_env \<Rightarrow> rstring \<Rightarrow> plugins \<Rightarrow> pane_id list" where
  "panes_of env name p =
     filter (\<lambda>pane. owner pane p = Some name) (env_panes env (map fst (pl_owners p)))"

fun retire_each ::
  "pane_id list \<Rightarrow> pty_backend \<times> plugins \<times> plugin_reload \<Rightarrow> pty_backend \<times> plugins \<times> plugin_reload" where
  "retire_each [] s = s"
| "retire_each (pane # ps) (b, p, out) =
     (case claim_pending pane p of
        (p, None) \<Rightarrow> retire_each ps (b, p, out)
      | (p, Some _) \<Rightarrow>
          retire_each ps (retire_slot pane b, release_pane b pane p, out\<lparr>re_retired := re_retired out @ [pane]\<rparr>))"

definition retire_holds_of ::
  "plugin_env \<Rightarrow> rstring \<Rightarrow> pty_backend \<times> plugins \<times> plugin_reload \<Rightarrow> pty_backend \<times> plugins \<times> plugin_reload" where
  "retire_holds_of env name s = retire_each (panes_of env name (fst (snd s))) s"

fun release_each :: "pty_backend \<Rightarrow> pane_id list \<Rightarrow> plugins \<times> plugin_reload \<Rightarrow> plugins \<times> plugin_reload" where
  "release_each b [] s = s"
| "release_each b (pane # ps) (p, out) =
     release_each b ps (release_pane b pane p, out\<lparr>re_released := re_released out @ [pane]\<rparr>)"

definition abandon ::
  "plugin_env \<Rightarrow> rstring \<Rightarrow> pty_backend \<times> plugins \<times> plugin_reload \<Rightarrow> pty_backend \<times> plugins \<times> plugin_reload" where
  "abandon env name s =
     (let (b, p, out) = s;
          p = set_watch_on_signal name False (p\<lparr>pl_flags := AList.delete name (pl_flags p)\<rparr>);
          (p, out) = release_each b (panes_of env name p) (p, out)
      in (b, p, out\<lparr>re_restarted := filter (\<lambda>n. n \<noteq> name) (re_restarted out),
                     re_stopped := re_stopped out @ [name]\<rparr>))"

definition stop_host ::
  "plugin_env \<Rightarrow> rstring \<Rightarrow> bool \<Rightarrow> pty_backend \<times> plugins \<times> plugin_reload \<Rightarrow> pty_backend \<times> plugins \<times> plugin_reload" where
  "stop_host env name replaced s =
     (let (b, p, out) = s;
          p = p\<lparr>pl_hosts := AList.delete name (pl_hosts p), pl_launched := AList.delete name (pl_launched p)\<rparr>;
          (b, p, out) = retire_holds_of env name (b, p, out)
      in if replaced then (b, p, out\<lparr>re_restarted := re_restarted out @ [name]\<rparr>)
         else abandon env name (b, p, out))"

fun hand_each ::
  "plugin_env \<Rightarrow> pty_backend \<Rightarrow> rstring \<Rightarrow> (pane_id \<times> rstring option) list \<Rightarrow> pane_id list \<Rightarrow> plugins \<Rightarrow> plugins" where
  "hand_each env b name titles [] p = p"
| "hand_each env b name titles (pane # ps) p =
     (let p = p\<lparr>pl_owners := AList.update pane name (pl_owners p)\<rparr>;
          title = (case map_of titles pane of None \<Rightarrow> None | Some t \<Rightarrow> t)
      in hand_each env b name titles ps (pane_opened env b pane title p))"

definition start_host ::
  "plugin_env \<Rightarrow> plugin_config \<Rightarrow> (pane_id \<times> rstring option) list \<Rightarrow> pty_backend \<times> plugins \<times> plugin_reload
     \<Rightarrow> (pty_backend \<times> plugins \<times> plugin_reload) \<times> bool" where
  "start_host env cfg titles s =
     (let (b, p, out) = s
      in if \<not> env_launches env cfg then (s, False)
         else
           let p = set_watch_on_signal (cfg_name cfg) (cfg_watch cfg) (record_host cfg p);
               named = filter (\<lambda>pane. map_of (pl_intended p) pane = Some (cfg_name cfg) \<and> map_of titles pane \<noteq> None)
                         (env_panes env (map fst (pl_intended p)))
           in ((b, hand_each env b (cfg_name cfg) titles named p, out\<lparr>re_started := re_started out @ [cfg_name cfg]\<rparr>), True))"

fun stop_each ::
  "plugin_env \<Rightarrow> plugin_config list \<Rightarrow> rstring list \<Rightarrow> pty_backend \<times> plugins \<times> plugin_reload \<Rightarrow> pty_backend \<times> plugins \<times> plugin_reload" where
  "stop_each env wanted [] s = s"
| "stop_each env wanted (name # names) s =
     stop_each env wanted names (stop_host env name (list_ex (\<lambda>cfg. cfg_name cfg = name) wanted) s)"

definition apply_config ::
  "plugin_env \<Rightarrow> (pane_id \<times> rstring option) list \<Rightarrow> plugin_config \<Rightarrow> pty_backend \<times> plugins \<times> plugin_reload
     \<Rightarrow> pty_backend \<times> plugins \<times> plugin_reload" where
  "apply_config env titles cfg s =
     (let (b, p, out) = s
      in if map_of (pl_hosts p) (cfg_name cfg) \<noteq> None
         then (b, set_watch_on_signal (cfg_name cfg) (cfg_watch cfg)
                    (p\<lparr>pl_flags := AList.update (cfg_name cfg) (cfg_flags cfg) (pl_flags p)\<rparr>), out)
         else case start_host env cfg titles s of
                (s, True) \<Rightarrow> s
              | (s, False) \<Rightarrow> abandon env (cfg_name cfg) s)"

fun apply_each ::
  "plugin_env \<Rightarrow> (pane_id \<times> rstring option) list \<Rightarrow> plugin_config list \<Rightarrow> pty_backend \<times> plugins \<times> plugin_reload
     \<Rightarrow> pty_backend \<times> plugins \<times> plugin_reload" where
  "apply_each env titles [] s = s"
| "apply_each env titles (cfg # cfgs) s = apply_each env titles cfgs (apply_config env titles cfg s)"

definition plugins_reload ::
  "plugin_env \<Rightarrow> plugin_config list \<Rightarrow> startup_command list \<Rightarrow> (pane_id \<times> rstring option) list \<Rightarrow> pty_backend \<times> plugins
     \<Rightarrow> pty_backend \<times> plugins \<times> plugin_reload" where
  "plugins_reload env configs startup titles bp =
     (let (b, p) = bp;
          wanted = filter (is_wanted startup p) configs;
          keep = map cfg_name (filter (\<lambda>cfg. \<not> spec_changed p cfg) wanted);
          leaving = filter (\<lambda>name. name \<notin> set keep) (env_names env (map fst (pl_hosts p)));
          s = stop_each env wanted leaving
                (b, p, \<lparr>re_started = [], re_stopped = [], re_restarted = [], re_retired = [], re_released = []\<rparr>)
      in apply_each env titles wanted s)"

end
