(* ===== verification/Hub_Worker.thy ===== *)
theory Hub_Worker
  imports Hub_Plugins
begin

text \<open>
  The worker of a hub, \<^verbatim>\<open>src/session/terminal/hub_run.rs\<close>, over the shared state, the PTY backend and the plugins: closes,
  the command queue, startup batches (\<^verbatim>\<open>startup.rs\<close>, \<^verbatim>\<open>startup_run.rs\<close>), pane exits and cancelled recoveries (\<^verbatim>\<open>hub_recovery.rs\<close>),
  notices by token (\<^verbatim>\<open>hub_attention.rs\<close>), what an approved plugin command does (\<^verbatim>\<open>hub_relaunch.rs\<close>) and reloads (\<^verbatim>\<open>hub_reload.rs\<close>).
  The recording of output is in \<^verbatim>\<open>Hub_Output\<close>; here a chunk only reaches the plugin that watches its pane.

  The clock, the random bytes of a token and whether a shell starts are arguments: \<open>os\<close> gives them for the n-th
  terminal a step opens. Log lines are not modelled.
\<close>

type_synonym os = "nat \<Rightarrow> u8 list option \<times> bool \<times> instant"

record hub_worker =
  hw_shared :: shared
  hw_backend :: pty_backend
  hw_plugins :: plugins
  hw_notices :: "notice list"

record startup_pane =
  su_size :: pane_size
  su_command :: "rstring option"
  su_title :: "rstring option"
  su_plugin :: "rstring option"

definition on_hub :: "(shared \<Rightarrow> shared) \<Rightarrow> hub_worker \<Rightarrow> hub_worker" where
  "on_hub f w = w\<lparr>hw_shared := f (hw_shared w)\<rparr>"

definition on_backend :: "(pty_backend \<Rightarrow> pty_backend) \<Rightarrow> hub_worker \<Rightarrow> hub_worker" where
  "on_backend f w = w\<lparr>hw_backend := f (hw_backend w)\<rparr>"

definition on_plugins :: "(pty_backend \<Rightarrow> plugins \<Rightarrow> plugins) \<Rightarrow> hub_worker \<Rightarrow> hub_worker" where
  "on_plugins f w = w\<lparr>hw_plugins := f (hw_backend w) (hw_plugins w)\<rparr>"

definition noticed :: "shared \<times> notice option \<Rightarrow> hub_worker \<Rightarrow> hub_worker" where
  "noticed r w =
     w\<lparr>hw_shared := fst r, hw_notices := hw_notices w @ (case snd r of None \<Rightarrow> [] | Some n \<Rightarrow> [n])\<rparr>"

section \<open>Closing and ending\<close>

definition close_pane :: "(server_message \<Rightarrow> rstring option) \<Rightarrow> plugin_env \<Rightarrow> pane_id \<Rightarrow> hub_worker \<Rightarrow> hub_worker" where
  "close_pane ser env pane w =
     (if \<not> pane_live pane (hw_shared w) then w
      else
        let w = (if owner pane (hw_plugins w) \<noteq> None
                 then on_hub (end_recovery ser pane)
                        (on_backend (retire_slot pane)
                          (on_plugins (\<lambda>b. forget_pane b pane) (on_plugins (\<lambda>b. pane_closed env b pane) w)))
                 else on_hub (end_recovery_if_reported ser pane) w)
        in on_hub (remove_pane_and_announce ser pane) (on_backend (destroy_pane pane) w))"

definition is_relaunchable :: "pty_backend \<Rightarrow> pane_id \<Rightarrow> bool" where
  "is_relaunchable b pane =
     (case backend_slot b pane of None \<Rightarrow> False | Some slot \<Rightarrow> slot_command slot \<noteq> None)"

definition pane_ended :: "(server_message \<Rightarrow> rstring option) \<Rightarrow> plugin_env \<Rightarrow> instant \<Rightarrow> pane_id \<Rightarrow> hub_worker \<Rightarrow> hub_worker" where
  "pane_ended ser env now pane w =
     (if owner pane (hw_plugins w) = None
      then on_hub (remove_pane_and_announce ser pane)
             (on_backend (destroy_pane pane) (on_hub (end_recovery_if_reported ser pane) w))
      else
        let w = (case pane_spot_of pane (hw_shared w) of
                   Some spot \<Rightarrow>
                     if is_relaunchable (hw_backend w) pane
                     then on_plugins (\<lambda>b. pane_exited env b pane)
                            (on_plugins (\<lambda>b. hold_for_relaunch pane spot now) (on_backend (release_process pane) w))
                     else on_hub (end_recovery ser pane)
                            (on_backend (destroy_pane pane)
                              (on_plugins (\<lambda>b. forget_pane b pane) (on_plugins (\<lambda>b. pane_closed env b pane) w)))
                 | None \<Rightarrow>
                     on_hub (end_recovery ser pane)
                       (on_backend (destroy_pane pane)
                         (on_plugins (\<lambda>b. forget_pane b pane) (on_plugins (\<lambda>b. pane_closed env b pane) w))))
        in on_hub (remove_pane_and_announce ser pane) w)"

definition cancel_recovery :: "(server_message \<Rightarrow> rstring option) \<Rightarrow> plugin_env \<Rightarrow> pane_id \<Rightarrow> hub_worker \<Rightarrow> hub_worker" where
  "cancel_recovery ser env pane w =
     (case claim_pending pane (hw_plugins w) of
        (_, None) \<Rightarrow> w
      | (p, Some _) \<Rightarrow>
          on_hub (end_recovery ser pane)
            (on_backend (retire_slot pane)
              (on_plugins (\<lambda>b. forget_pane b pane) (on_plugins (\<lambda>b. pane_closed env b pane) (w\<lparr>hw_plugins := p\<rparr>)))))"

section \<open>Opening\<close>

definition create_pane_for ::
  "(server_message \<Rightarrow> rstring option) \<Rightarrow> os \<Rightarrow> u16 \<Rightarrow> u16 \<Rightarrow> u64 \<Rightarrow> rstring option \<Rightarrow> hub_worker \<Rightarrow> hub_worker" where
  "create_pane_for ser os rows cols client command w =
     (if \<not> has_free_slot (hw_shared w) then on_hub (send_error_to ser client (lit ''terminal limit reached'')) w
      else
        let (fill, started, now) = os 0
        in case open_pane fill started now command (hw_backend w) of
             (b, Inr pane) \<Rightarrow> on_hub (register_pane ser pane rows cols (Some client) None) (w\<lparr>hw_backend := b\<rparr>)
           | (b, Inl _) \<Rightarrow> on_hub (send_error_to ser client (lit ''could not start a terminal'')) (w\<lparr>hw_backend := b\<rparr>))"

definition startup_label :: "startup_pane \<Rightarrow> rstring" where
  "startup_label pane =
     (case su_command pane of Some command \<Rightarrow> lit ''`'' @ command @ lit ''`'' | None \<Rightarrow> lit ''a shell'')"

fun join_with :: "rstring \<Rightarrow> rstring list \<Rightarrow> rstring" where
  "join_with sep [] = []"
| "join_with sep [x] = x"
| "join_with sep (x # xs) = x @ sep @ join_with sep xs"

definition open_startup_pane ::
  "(server_message \<Rightarrow> rstring option) \<Rightarrow> plugin_env \<Rightarrow> u8 list option \<times> bool \<times> instant \<Rightarrow> u64 \<Rightarrow> startup_pane \<Rightarrow> hub_worker \<Rightarrow> hub_worker" where
  "open_startup_pane ser env o1 client pane w =
     (let (fill, started, now) = o1
      in case open_pane fill started now (su_command pane) (hw_backend w) of
           (b, Inr i) \<Rightarrow>
             let w = on_hub (register_pane ser i (ps_rows (su_size pane)) (ps_cols (su_size pane)) None (su_title pane))
                       (w\<lparr>hw_backend := b\<rparr>)
             in (case su_plugin pane of
                   None \<Rightarrow> w
                 | Some name \<Rightarrow>
                     (case adopt i name (hw_plugins w) of
                        (p, True) \<Rightarrow> on_plugins (\<lambda>b. pane_opened env b i (su_title pane)) (w\<lparr>hw_plugins := p\<rparr>)
                      | (p, False) \<Rightarrow> w\<lparr>hw_plugins := p\<rparr>))
         | (b, Inl _) \<Rightarrow>
             on_hub (send_error_to ser client (lit ''could not start '' @ startup_label pane)) (w\<lparr>hw_backend := b\<rparr>))"

fun open_startup_panes ::
  "(server_message \<Rightarrow> rstring option) \<Rightarrow> plugin_env \<Rightarrow> os \<Rightarrow> nat \<Rightarrow> u64 \<Rightarrow> nat \<Rightarrow> startup_pane list \<Rightarrow> hub_worker \<Rightarrow> hub_worker" where
  "open_startup_panes ser env os n client held [] w = on_hub (release_reserved held) w"
| "open_startup_panes ser env os n client held (pane # rest) w =
     (let (w, held) = (if held > 0 then (on_hub (release_reserved 1) w, held - 1) else (w, held))
      in if \<not> has_free_slot (hw_shared w)
         then on_hub (release_reserved held)
                (on_hub (send_error_to ser client
                   (lit ''terminal limit reached '' @ [0x2014] @ lit '' ''
                    @ join_with (lit '', '') (map startup_label (pane # rest)) @ lit '' did not start'')) w)
         else open_startup_panes ser env os (n + 1) client held rest (open_startup_pane ser env (os n) client pane w))"

text \<open>
  The offer side, on a connection's thread: the claim, the reservation and the queueing of one batch.
  \<open>queued\<close> is whether the worker's command queue took it; a refused batch hands the claim back and offers again.
\<close>

definition startup_count :: "startup_command list \<Rightarrow> bool \<Rightarrow> nat" where
  "startup_count startup auto_open =
     (if startup = [] \<and> auto_open then 1 else length startup)"

definition startup_batch :: "startup_command list \<Rightarrow> bool \<Rightarrow> pane_size list \<Rightarrow> startup_pane list" where
  "startup_batch startup auto_open sizes =
     (let configured = (if startup = [] \<and> auto_open then [None] else map Some startup)
      in map (\<lambda>(i, c).
           \<lparr>su_size = (if i < length sizes then sizes ! i else \<lparr>ps_rows = 24, ps_cols = 80\<rparr>),
            su_command = map_option sc_command c,
            su_title = map_option (\<lambda>sc. case sc_name sc of Some name \<Rightarrow> name | None \<Rightarrow> str_trim (sc_command sc)) c,
            su_plugin = (case c of None \<Rightarrow> None | Some sc \<Rightarrow> sc_plugin sc)\<rparr>) (enumerate 0 configured))"

definition broadcast_pending :: "(server_message \<Rightarrow> rstring option) \<Rightarrow> startup_command list \<Rightarrow> bool \<Rightarrow> shared \<Rightarrow> shared" where
  "broadcast_pending ser startup auto_open s =
     (if startup_count startup auto_open = 0 then s
      else announce_all ser (SmPending (startup_count startup auto_open)) s)"

definition claim_startup ::
  "(server_message \<Rightarrow> rstring option) \<Rightarrow> startup_command list \<Rightarrow> bool \<Rightarrow> pane_size list \<Rightarrow> bool \<Rightarrow> bool \<times> shared
     \<Rightarrow> (bool \<times> shared) \<times> (startup_pane list \<times> nat) option" where
  "claim_startup ser startup auto_open sizes queued st =
     (let (started, s) = st
      in if started then (st, None)
         else
           let panes = startup_batch startup auto_open sizes; (n, s) = reserve_startup (length panes) s
           in if queued then ((True, s), Some (panes, n))
              else ((False, broadcast_pending ser startup auto_open (release_reserved n s)), None))"

section \<open>Plugin commands\<close>

definition watch_pane_for_plugin :: "plugin_env \<Rightarrow> rstring \<Rightarrow> pane_id \<Rightarrow> hub_worker \<Rightarrow> hub_worker" where
  "watch_pane_for_plugin env plugin pane w =
     (let title = (case pane_spot_of pane (hw_shared w) of None \<Rightarrow> None | Some spot \<Rightarrow> sp_title spot)
      in case adopt pane plugin (hw_plugins w) of
           (p, False) \<Rightarrow> w\<lparr>hw_plugins := p\<rparr>
         | (p, True) \<Rightarrow> on_plugins (\<lambda>b. pane_opened env b pane title) (w\<lparr>hw_plugins := p\<rparr>))"

definition relaunch_for_plugin ::
  "(server_message \<Rightarrow> rstring option) \<Rightarrow> plugin_env \<Rightarrow> bool \<times> instant \<Rightarrow> rstring \<Rightarrow> pane_id \<Rightarrow> rstring list \<Rightarrow> hub_worker \<Rightarrow> hub_worker" where
  "relaunch_for_plugin ser env o1 plugin pane resume_args w =
     (case claim_pending pane (hw_plugins w) of
        (_, None) \<Rightarrow> w
      | (p, Some h) \<Rightarrow>
          if \<not> has_free_slot (hw_shared w) then w\<lparr>hw_plugins := restore_pending pane h p\<rparr>
          else
            let spot = pd_spot h;
                allowed = (case map_of (pl_flags p) plugin of None \<Rightarrow> [] | Some flags \<Rightarrow> flags)
            in case relaunch_pane (fst o1) (snd o1) pane resume_args allowed (hw_backend w) of
                 (b, Inr new) \<Rightarrow>
                   let w = w\<lparr>hw_backend := b, hw_plugins := p\<rparr>;
                       w = on_hub (register_pane ser new (sp_rows spot) (sp_cols spot) None (sp_title spot)) w;
                       w = on_hub (restore_pane_index ser new (sp_index spot)) w;
                       w = on_plugins (\<lambda>b. take_over pane new) w;
                       w = on_plugins (\<lambda>b. pane_opened env b new (sp_title spot)) w
                   in on_hub (end_recovery ser pane) w
               | (b, Inl _) \<Rightarrow> w\<lparr>hw_backend := b, hw_plugins := restore_pending pane h p\<rparr>)"

definition dispatch_one ::
  "(server_message \<Rightarrow> rstring option) \<Rightarrow> plugin_env \<Rightarrow> instant \<Rightarrow> bool \<times> instant \<Rightarrow> rstring \<times> plugin_command \<Rightarrow> hub_worker \<Rightarrow> hub_worker" where
  "dispatch_one ser env now o1 pc w =
     (let (plugin, command) = pc;
          (p, verdict) = plugins_judge plugin command (hw_backend w) now (hw_plugins w);
          w = w\<lparr>hw_plugins := p\<rparr>
      in case verdict of
           Inr (OkSendInput pane data) \<Rightarrow> on_backend (\<lambda>b. fst (send_input pane data b)) w
         | Inr (OkRelaunch pane resume_args _) \<Rightarrow> relaunch_for_plugin ser env o1 plugin pane resume_args w
         | Inr (OkStatus pane st detail deadline attempt) \<Rightarrow>
             noticed (broadcast_recovery ser pane st detail deadline attempt (hw_shared w)) w
         | Inr (OkAttention pane) \<Rightarrow> noticed (broadcast_attention ser pane None (hw_shared w)) w
         | Inr (OkWatchPane pane) \<Rightarrow> watch_pane_for_plugin env plugin pane w
         | Inr (OkLog _ _) \<Rightarrow> w
         | Inl _ \<Rightarrow> w)"

fun dispatch_each ::
  "(server_message \<Rightarrow> rstring option) \<Rightarrow> plugin_env \<Rightarrow> instant \<Rightarrow> os \<Rightarrow> nat \<Rightarrow> (rstring \<times> plugin_command) list \<Rightarrow> hub_worker \<Rightarrow> hub_worker" where
  "dispatch_each ser env now os n [] w = w"
| "dispatch_each ser env now os n (pc # pcs) w =
     dispatch_each ser env now os (n + 1) pcs (dispatch_one ser env now (snd (os n)) pc w)"

definition dispatch_plugin_commands ::
  "(server_message \<Rightarrow> rstring option) \<Rightarrow> plugin_env \<Rightarrow> instant \<Rightarrow> os \<Rightarrow> hub_worker \<Rightarrow> hub_worker" where
  "dispatch_plugin_commands ser env now os w =
     (let (p, taken) = take_commands env (hw_plugins w) in dispatch_each ser env now os 0 taken (w\<lparr>hw_plugins := p\<rparr>))"

fun end_each :: "(server_message \<Rightarrow> rstring option) \<Rightarrow> pane_id list \<Rightarrow> shared \<Rightarrow> shared" where
  "end_each ser [] s = s"
| "end_each ser (pane # ps) s = end_each ser ps (end_recovery ser pane s)"

fun end_each_reported :: "(server_message \<Rightarrow> rstring option) \<Rightarrow> pane_id list \<Rightarrow> shared \<Rightarrow> shared" where
  "end_each_reported ser [] s = s"
| "end_each_reported ser (pane # ps) s = end_each_reported ser ps (end_recovery_if_reported ser pane s)"

text \<open>The plugin half of a pass.\<close>

definition plugin_pass ::
  "(server_message \<Rightarrow> rstring option) \<Rightarrow> plugin_env \<Rightarrow> instant \<Rightarrow> os \<Rightarrow> hub_worker \<Rightarrow> hub_worker" where
  "plugin_pass ser env now os w =
     (if is_inert (hw_plugins w) then w
      else
        let w = on_plugins (\<lambda>b. notify_idle env b now) w;
            w = dispatch_plugin_commands ser env now os w;
            ((b, p), expired) = expire_pending env now (hw_backend w, hw_plugins w)
        in on_hub (end_each ser expired) (w\<lparr>hw_backend := b, hw_plugins := p\<rparr>))"

section \<open>Commands and events\<close>

definition reload_hub_plugins ::
  "(server_message \<Rightarrow> rstring option) \<Rightarrow> plugin_env \<Rightarrow> startup_command list \<Rightarrow> plugin_config list \<Rightarrow> hub_worker \<Rightarrow> hub_worker" where
  "reload_hub_plugins ser env startup configs w =
     (let titles = map (\<lambda>p. (pn_id p, pn_title p)) (sh_panes (hw_shared w));
          (b, p, out) = plugins_reload env configs startup titles (hw_backend w, hw_plugins w)
      in on_hub (end_each_reported ser (re_released out))
           (on_hub (end_each ser (re_retired out)) (w\<lparr>hw_backend := b, hw_plugins := p\<rparr>)))"

definition notify_by_token ::
  "(server_message \<Rightarrow> rstring option) \<Rightarrow> pane_token \<Rightarrow> rstring option \<Rightarrow> hub_worker \<Rightarrow> hub_worker \<times> bool" where
  "notify_by_token ser token message w =
     (case pane_for_token (hw_backend w) token of
        Some pane \<Rightarrow>
          if pane_live pane (hw_shared w)
          then (noticed (broadcast_attention ser pane message (hw_shared w)) w, True) else (w, False)
      | None \<Rightarrow> (w, False))"

definition input_pane ::
  "(server_message \<Rightarrow> rstring option) \<Rightarrow> plugin_env \<Rightarrow> pane_id \<Rightarrow> u8 list \<Rightarrow> u64 \<Rightarrow> hub_worker \<Rightarrow> hub_worker" where
  "input_pane ser env pane data client w =
     (if \<not> pane_live pane (hw_shared w) then w
      else
        let w = on_plugins (\<lambda>b. user_input env b pane) w
        in case send_input pane data (hw_backend w) of
             (b, Inr _) \<Rightarrow> w\<lparr>hw_backend := b\<rparr>
           | (b, Inl _) \<Rightarrow> on_hub (send_error_to ser client (lit ''terminal input could not be sent'')) (w\<lparr>hw_backend := b\<rparr>))"

fun backend_events ::
  "(server_message \<Rightarrow> rstring option) \<Rightarrow> plugin_env \<Rightarrow> instant \<Rightarrow> backend_event list \<Rightarrow> hub_worker \<Rightarrow> hub_worker" where
  "backend_events ser env now [] w = w"
| "backend_events ser env now (BeOutput pane data # evs) w =
     backend_events ser env now evs (on_plugins (\<lambda>b. pane_output env b pane data) w)"
| "backend_events ser env now (BeExited pane # evs) w = backend_events ser env now evs (pane_ended ser env now pane w)"
| "backend_events ser env now (_ # evs) w = backend_events ser env now evs w"

text \<open>The drain reads the clock once; a pane that ended is held from the moment it is dealt with, \<open>later\<close>.\<close>

definition drain_pass :: "(server_message \<Rightarrow> rstring option) \<Rightarrow> plugin_env \<Rightarrow> instant \<Rightarrow> instant \<Rightarrow> hub_worker \<Rightarrow> hub_worker" where
  "drain_pass ser env now later w =
     (let (b, evs) = drain_queued True now (hw_backend w)
      in backend_events ser env later evs (w\<lparr>hw_backend := b\<rparr>))"

definition pty_sends :: "pane_id \<Rightarrow> pty_event \<Rightarrow> pty_backend \<Rightarrow> pty_backend" where
  "pty_sends pane ev b =
     (case map_of (pb_panes b) pane of
        None \<Rightarrow> b
      | Some p \<Rightarrow> b\<lparr>pb_panes := bt_insert pane (p\<lparr>pp_rx := pp_rx p @ [ev]\<rparr>) (pb_panes b)\<rparr>)"

text \<open>
  The pumps of a plugin child (\<^verbatim>\<open>host_pump.rs\<close>): one takes the next event line off the queue and writes it, the other
  queues a decoded command, and waits while the queue is full.
\<close>

definition INBOUND_QUEUE_DEPTH :: nat where
  "INBOUND_QUEUE_DEPTH = 256"

definition write_event :: "rstring \<Rightarrow> plugins \<Rightarrow> plugins" where
  "write_event name p =
     (case map_of (pl_hosts p) name of
        None \<Rightarrow> p
      | Some host \<Rightarrow>
          p\<lparr>pl_hosts := AList.update name
               (host\<lparr>ho_events := map_option (\<lambda>ch. ch\<lparr>ch_queue := tl (ch_queue ch)\<rparr>) (ho_events host)\<rparr>) (pl_hosts p)\<rparr>)"

definition read_command :: "rstring \<Rightarrow> plugin_command \<Rightarrow> plugins \<Rightarrow> plugins" where
  "read_command name command p =
     (case map_of (pl_hosts p) name of
        None \<Rightarrow> p
      | Some host \<Rightarrow>
          if length (ho_commands host) \<ge> INBOUND_QUEUE_DEPTH then p
          else p\<lparr>pl_hosts := AList.update name (host\<lparr>ho_commands := ho_commands host @ [command]\<rparr>) (pl_hosts p)\<rparr>)"

datatype worker_event =
    WClose pane_id
  | WCreate os u16 u16 u64 "rstring option"
  | WStartup os "startup_pane list" u64 nat
  | WInput pane_id "u8 list" u64
  | WReorder "pane_id list"
  | WCancel pane_id
  | WReload "plugin_config list"
  | WNotify pane_token "rstring option"
  | WSends pane_id pty_event
  | WTells rstring
  | WSays rstring plugin_command
  | WDrain instant instant
  | WPlugins instant os

fun worker_step ::
  "(server_message \<Rightarrow> rstring option) \<Rightarrow> startup_command list \<Rightarrow> hub_worker \<Rightarrow> plugin_env \<times> worker_event \<Rightarrow> hub_worker" where
  "worker_step ser startup w (env, WClose pane) = close_pane ser env pane w"
| "worker_step ser startup w (env, WCreate os rows cols client command) = create_pane_for ser os rows cols client command w"
| "worker_step ser startup w (env, WStartup os panes client reserved) = open_startup_panes ser env os 0 client reserved panes w"
| "worker_step ser startup w (env, WInput pane data client) = input_pane ser env pane data client w"
| "worker_step ser startup w (env, WReorder order) = on_hub (reorder_panes ser order) w"
| "worker_step ser startup w (env, WCancel pane) = cancel_recovery ser env pane w"
| "worker_step ser startup w (env, WReload configs) = reload_hub_plugins ser env startup configs w"
| "worker_step ser startup w (env, WNotify token message) = fst (notify_by_token ser token message w)"
| "worker_step ser startup w (env, WSends pane ev) = on_backend (pty_sends pane ev) w"
| "worker_step ser startup w (env, WTells name) = on_plugins (\<lambda>_. write_event name) w"
| "worker_step ser startup w (env, WSays name command) = on_plugins (\<lambda>_. read_command name command) w"
| "worker_step ser startup w (env, WDrain now later) = drain_pass ser env now later w"
| "worker_step ser startup w (env, WPlugins now os) = plugin_pass ser env now os w"

definition worker_new :: "plugin_env \<Rightarrow> rstring \<Rightarrow> plugin_config list \<Rightarrow> startup_command list \<Rightarrow> hub_worker" where
  "worker_new env cwd configs startup =
     \<lparr>hw_shared = shared_new, hw_backend = backend_new, hw_plugins = plugins_start env cwd configs startup, hw_notices = []\<rparr>"

end
