(* ===== verification/Worker_Invariant.thy ===== *)
theory Worker_Invariant
  imports Hub_Worker "HOL-Library.Multiset"
begin

text \<open>
  What the worker's three books say of each other: the panes the clients see (\<open>live\<close>), the processes and the slots of the
  backend (\<open>procs\<close>, \<open>slotted\<close>), and the panes plugins watch and hold (\<open>watched\<close>, \<open>held\<close>).
\<close>

section \<open>The books\<close>

definition live :: "shared \<Rightarrow> pane_id set" where
  "live s = set (pane_ids s)"

definition procs :: "pty_backend \<Rightarrow> pane_id set" where
  "procs b = dom (map_of (pb_panes b))"

definition slotted :: "pty_backend \<Rightarrow> pane_id set" where
  "slotted b = dom (map_of (pb_slots b))"

definition watched :: "plugins \<Rightarrow> pane_id set" where
  "watched p = dom (map_of (pl_owners p))"

definition held :: "plugins \<Rightarrow> pane_id set" where
  "held p = dom (map_of (pl_pending p))"

definition hosted :: "plugins \<Rightarrow> rstring set" where
  "hosted p = dom (map_of (pl_hosts p))"

definition reported :: "shared \<Rightarrow> pane_id set" where
  "reported s = dom (map_of (sh_recovery s))"

definition owners_of :: "plugins \<Rightarrow> rstring set" where
  "owners_of p = ran (map_of (pl_owners p))"

lemma dom_bt_insert: "dom (map_of (bt_insert k v m)) = insert k (dom (map_of m))"
  by (simp add: dom_map_of_conv_image_fst set_fst_bt_insert)

lemma dom_bt_remove: "dom (map_of (bt_remove k m)) = dom (map_of m) - {k}"
  by (auto simp: map_of_bt_remove)

subsection \<open>The backend\<close>

lemma backend_books [simp]:
  "procs (release_process i b) = procs b - {i}" "slotted (release_process i b) = slotted b"
  "procs (retire_slot i b) = procs b" "slotted (retire_slot i b) = slotted b - {i}"
  "procs (destroy_pane i b) = procs b - {i}" "slotted (destroy_pane i b) = slotted b - {i}"
  "pb_next (release_process i b) = pb_next b" "pb_next (retire_slot i b) = pb_next b" "pb_next (destroy_pane i b) = pb_next b"
  by (simp_all add: procs_def slotted_def release_process_def retire_slot_def destroy_pane_def slots_remove_def dom_bt_remove)

lemma send_input_books [simp]:
  "procs (fst (send_input i data b)) = procs b" "slotted (fst (send_input i data b)) = slotted b"
  "pb_next (fst (send_input i data b)) = pb_next b"
  by (auto simp: send_input_def procs_def slotted_def dom_bt_insert split: option.splits prod.splits sum.splits)

lemma pty_sends_books [simp]:
  "procs (pty_sends i ev b) = procs b" "slotted (pty_sends i ev b) = slotted b" "pb_next (pty_sends i ev b) = pb_next b"
  by (auto simp: pty_sends_def procs_def slotted_def dom_bt_insert split: option.splits)

lemma dom_mark_output: "dom (map_of (mark_output i now m)) = dom (map_of m)"
  by (auto simp: mark_output_def dom_bt_insert split: option.splits)

lemma drain_loop_slots:
  "drain_loop n now i p slots = (left, p', slots', evs) \<Longrightarrow> dom (map_of slots') = dom (map_of slots)"
proof (induction n now i p slots arbitrary: left p' slots' evs rule: drain_loop.induct)
  case (2 budget now i p slots)
  consider (dry) "pp_rx p = []" | (out) data rest where "pp_rx p = PtyOutput data # rest"
    | (child) rest where "pp_rx p = ChildExited # rest" | (ended) rest where "pp_rx p = PtyExited # rest"
    by (metis list.exhaust pty_event.exhaust)
  then show ?case
  proof cases
    case dry
    with 2(3) show ?thesis by (auto split: exit_phase.splits if_splits)
  next
    case out
    obtain l q sl es where r: "drain_loop budget now i (p\<lparr>pp_rx := rest\<rparr>) (mark_output i now slots) = (l, q, sl, es)"
      by (metis prod_cases4)
    with 2(3) out have "slots' = sl" by auto
    with 2(1) [OF out refl r] show ?thesis by (simp add: dom_mark_output)
  next
    case child
    with 2(3) 2(2) [OF child refl] show ?thesis by simp
  next
    case ended
    with 2(3) show ?thesis by auto
  qed
qed simp

lemma drain_pane_slots: "drain_pane paced now i p slots = (p', slots', evs) \<Longrightarrow> dom (map_of slots') = dom (map_of slots)"
  unfolding drain_pane_def Let_def
  by (clarsimp split: if_splits prod.splits; drule drain_loop_slots; simp)

lemma drain_panes_books:
  "drain_panes paced now ps slots = (ps', slots', evs) \<Longrightarrow>
   dom (map_of slots') = dom (map_of slots) \<and> map fst ps' = map fst ps"
proof (induction paced now ps slots arbitrary: ps' slots' evs rule: drain_panes.induct)
  case (2 paced now i p ps slots)
  obtain q sl es where a: "drain_pane paced now i p slots = (q, sl, es)" by (metis prod_cases3)
  obtain qs sl' es' where b: "drain_panes paced now ps sl = (qs, sl', es')" by (metis prod_cases3)
  from 2(2) a b have "ps' = (i, q) # qs" "slots' = sl'" by simp_all
  with 2(1) [OF a [symmetric] refl refl b] drain_pane_slots [OF a] show ?case by simp
qed simp

lemma drain_queued_books [simp]:
  "procs (fst (drain_queued paced now b)) = procs b" "slotted (fst (drain_queued paced now b)) = slotted b"
  "pb_next (fst (drain_queued paced now b)) = pb_next b"
proof -
  obtain ps sl evs where d: "drain_panes paced now (pb_panes b) (pb_slots b) = (ps, sl, evs)" by (metis prod_cases3)
  then have "dom (map_of ps) = dom (map_of (pb_panes b))"
    using drain_panes_books [OF d] by (simp add: dom_map_of_conv_image_fst) (metis list.set_map)
  then show "procs (fst (drain_queued paced now b)) = procs b" "slotted (fst (drain_queued paced now b)) = slotted b"
    "pb_next (fst (drain_queued paced now b)) = pb_next b"
    using d drain_panes_books [OF d] by (simp_all add: drain_queued_def procs_def slotted_def)
qed

lemma spawn_books:
  assumes "spawn_pane started now line ident launch b = (b', Inr i)"
  shows "i = pb_next b" "procs b' = insert i (procs b)" "slotted b' = insert i (slotted b)" "i < pb_next b'"
    "j < i \<Longrightarrow> j < pb_next b'" "backend_slot b' i \<noteq> None"
proof -
  have s: "pb_next b \<noteq> 4294967295" "i = pb_next b"
    "b' = b\<lparr>pb_next := i + 1, pb_panes := bt_insert i (pane_started line) (pb_panes b),
              pb_slots := slots_insert i ident launch now (pb_slots b)\<rparr>"
    using assms by (auto simp: spawn_pane_def Let_def split: if_splits)
  have "unat (pb_next b) \<noteq> 4294967295" using s(1) by (simp add: word_unat_eq_iff)
  then have "unat (i + 1) = unat i + 1" using s(2) unat_less_self [of i] by (simp add: unat_word_ariths)
  then have lt: "i < i + 1" "j < i \<Longrightarrow> j < i + 1" by (simp_all add: word_less_nat_alt)
  show "i = pb_next b" "procs b' = insert i (procs b)" "slotted b' = insert i (slotted b)" "i < pb_next b'"
    using s lt by (simp_all add: procs_def slotted_def slots_insert_def dom_bt_insert)
  show "j < i \<Longrightarrow> j < pb_next b'" using s(3) lt(2) by simp
  have "i \<in> slotted b'" using s by (simp add: slotted_def slots_insert_def dom_bt_insert)
  then show "backend_slot b' i \<noteq> None" by (auto simp: backend_slot_def slots_get_def slotted_def)
qed

lemma spawn_failed: "spawn_pane started now line ident launch b = (b', Inl e) \<Longrightarrow> b' = b"
  by (auto simp: spawn_pane_def Let_def split: if_splits)

lemma open_failed: "open_pane fill started now command b = (b', Inl e) \<Longrightarrow> b' = b"
  by (auto simp: open_pane_def split: sum.splits dest: spawn_failed)

lemma open_books:
  assumes "open_pane fill started now command b = (b', Inr i)"
  shows "i = pb_next b" "procs b' = insert i (procs b)" "slotted b' = insert i (slotted b)" "i < pb_next b'"
    "\<And>j. j < i \<Longrightarrow> j < pb_next b'"
  using assms by (auto simp: open_pane_def split: sum.splits dest: spawn_books)

subsection \<open>The plugins\<close>

text \<open>The fields that keep no book.\<close>

lemma books_pl_idle [simp]:
  "watched (p\<lparr>pl_idle := x\<rparr>) = watched p" "held (p\<lparr>pl_idle := x\<rparr>) = held p" "hosted (p\<lparr>pl_idle := x\<rparr>) = hosted p"
  "owners_of (p\<lparr>pl_idle := x\<rparr>) = owners_of p" "owner q (p\<lparr>pl_idle := x\<rparr>) = owner q p"
  by (simp_all add: watched_def held_def hosted_def owners_of_def owner_def)

lemma books_pl_guard [simp]:
  "watched (p\<lparr>pl_guard := x\<rparr>) = watched p" "held (p\<lparr>pl_guard := x\<rparr>) = held p" "hosted (p\<lparr>pl_guard := x\<rparr>) = hosted p"
  "owners_of (p\<lparr>pl_guard := x\<rparr>) = owners_of p" "owner q (p\<lparr>pl_guard := x\<rparr>) = owner q p"
  by (simp_all add: watched_def held_def hosted_def owners_of_def owner_def)

lemma books_pl_capped [simp]:
  "watched (p\<lparr>pl_capped := x\<rparr>) = watched p" "held (p\<lparr>pl_capped := x\<rparr>) = held p" "hosted (p\<lparr>pl_capped := x\<rparr>) = hosted p"
  "owners_of (p\<lparr>pl_capped := x\<rparr>) = owners_of p" "owner q (p\<lparr>pl_capped := x\<rparr>) = owner q p"
  by (simp_all add: watched_def held_def hosted_def owners_of_def owner_def)

lemma books_pl_intended [simp]:
  "watched (p\<lparr>pl_intended := x\<rparr>) = watched p" "held (p\<lparr>pl_intended := x\<rparr>) = held p" "hosted (p\<lparr>pl_intended := x\<rparr>) = hosted p"
  "owners_of (p\<lparr>pl_intended := x\<rparr>) = owners_of p" "owner q (p\<lparr>pl_intended := x\<rparr>) = owner q p"
  by (simp_all add: watched_def held_def hosted_def owners_of_def owner_def)

lemma books_pl_flags [simp]:
  "watched (p\<lparr>pl_flags := x\<rparr>) = watched p" "held (p\<lparr>pl_flags := x\<rparr>) = held p" "hosted (p\<lparr>pl_flags := x\<rparr>) = hosted p"
  "owners_of (p\<lparr>pl_flags := x\<rparr>) = owners_of p" "owner q (p\<lparr>pl_flags := x\<rparr>) = owner q p"
  by (simp_all add: watched_def held_def hosted_def owners_of_def owner_def)

lemma books_pl_watch [simp]:
  "watched (p\<lparr>pl_watch := x\<rparr>) = watched p" "held (p\<lparr>pl_watch := x\<rparr>) = held p" "hosted (p\<lparr>pl_watch := x\<rparr>) = hosted p"
  "owners_of (p\<lparr>pl_watch := x\<rparr>) = owners_of p" "owner q (p\<lparr>pl_watch := x\<rparr>) = owner q p"
  by (simp_all add: watched_def held_def hosted_def owners_of_def owner_def)

lemma books_pl_launched [simp]:
  "watched (p\<lparr>pl_launched := x\<rparr>) = watched p" "held (p\<lparr>pl_launched := x\<rparr>) = held p" "hosted (p\<lparr>pl_launched := x\<rparr>) = hosted p"
  "owners_of (p\<lparr>pl_launched := x\<rparr>) = owners_of p" "owner q (p\<lparr>pl_launched := x\<rparr>) = owner q p"
  by (simp_all add: watched_def held_def hosted_def owners_of_def owner_def)

lemma owner_watched: "(owner pane p = None) \<longleftrightarrow> pane \<notin> watched p" "owner pane p = Some n \<Longrightarrow> n \<in> owners_of p"
  by (auto simp: owner_def watched_def owners_of_def ranI)

lemma hosted_update: "map_of hs n = Some h \<Longrightarrow> dom (map_of (AList.update n h' hs)) = dom (map_of hs)"
  by (auto simp: update_conv')

lemma send_for_books [simp]:
  "watched (send_for env b pane build p) = watched p" "held (send_for env b pane build p) = held p"
  "hosted (send_for env b pane build p) = hosted p" "owners_of (send_for env b pane build p) = owners_of p"
  "pl_idle (send_for env b pane build p) = pl_idle p" "pl_intended (send_for env b pane build p) = pl_intended p"
  "owner q (send_for env b pane build p) = owner q p" "map_of (pl_pending (send_for env b pane build p)) = map_of (pl_pending p)"
  by (auto simp: send_for_def Let_def watched_def held_def hosted_def owners_of_def owner_def hosted_update split: option.split)

lemma cancel_budget_books [simp]:
  "watched (cancel_budget b pane p) = watched p" "held (cancel_budget b pane p) = held p"
  "hosted (cancel_budget b pane p) = hosted p" "owners_of (cancel_budget b pane p) = owners_of p"
  "pl_idle (cancel_budget b pane p) = pl_idle p" "pl_intended (cancel_budget b pane p) = pl_intended p"
  "owner q (cancel_budget b pane p) = owner q p" "pl_pending (cancel_budget b pane p) = pl_pending p"
  by (auto simp: cancel_budget_def watched_def held_def hosted_def owners_of_def owner_def split: option.split)

lemma event_books [simp]:
  "watched (pane_opened env b pane title p) = watched p" "held (pane_opened env b pane title p) = held p"
  "hosted (pane_opened env b pane title p) = hosted p" "owners_of (pane_opened env b pane title p) = owners_of p"
  "pl_idle (pane_opened env b pane title p) = pl_idle p"
  "watched (pane_closed env b pane p) = watched p" "held (pane_closed env b pane p) = held p"
  "hosted (pane_closed env b pane p) = hosted p" "owners_of (pane_closed env b pane p) = owners_of p"
  "pl_idle (pane_closed env b pane p) = pl_idle p"
  "watched (pane_exited env b pane p) = watched p" "held (pane_exited env b pane p) = held p"
  "hosted (pane_exited env b pane p) = hosted p" "owners_of (pane_exited env b pane p) = owners_of p"
  "pl_idle (pane_exited env b pane p) = pl_idle p"
  by (simp_all add: pane_opened_def pane_closed_def pane_exited_def Let_def)

lemma ran_delete: "ran (m(k := None)) \<subseteq> ran m"
  by (auto simp: ran_def)

lemma release_books [simp]:
  "watched (release_pane b pane p) = watched p - {pane}" "held (release_pane b pane p) = held p - {pane}"
  "hosted (release_pane b pane p) = hosted p" "set (pl_idle (release_pane b pane p)) = set (pl_idle p) - {pane}"
  "watched (forget_pane b pane p) = watched p - {pane}" "held (forget_pane b pane p) = held p - {pane}"
  "hosted (forget_pane b pane p) = hosted p" "set (pl_idle (forget_pane b pane p)) = set (pl_idle p) - {pane}"
  by (simp_all add: release_pane_def forget_pane_def)
     (simp_all add: watched_def held_def hosted_def delete_conv')

lemma release_owners:
  "owners_of (release_pane b pane p) \<subseteq> owners_of p" "owners_of (forget_pane b pane p) \<subseteq> owners_of p"
  by (simp_all add: release_pane_def forget_pane_def) (simp_all add: owners_of_def delete_conv' ran_delete)

text \<open>
  The part of the invariant that is the plugins' own: a held pane is watched, a watched pane has a running host, and
  only watched panes have been announced idle.
\<close>

definition plugins_inv :: "plugins \<Rightarrow> bool" where
  "plugins_inv p \<longleftrightarrow> held p \<subseteq> watched p \<and> owners_of p \<subseteq> hosted p \<and> set (pl_idle p) \<subseteq> watched p"

lemma plugins_inv_release: "plugins_inv p \<Longrightarrow> plugins_inv (release_pane b pane p)"
  "plugins_inv p \<Longrightarrow> plugins_inv (forget_pane b pane p)"
  using release_owners [of b pane p] by (auto simp: plugins_inv_def)

lemma watched_owner: "watched p = {q. owner q p \<noteq> None}" "owners_of p = {n. \<exists>q. owner q p = Some n}"
  by (auto simp: watched_def owners_of_def owner_def ran_def)

lemma adopt_books:
  assumes "adopt pane plugin p = (p', ok)"
  shows "ok \<longleftrightarrow> plugin \<in> hosted p" "held p' = held p" "hosted p' = hosted p" "pl_idle p' = pl_idle p"
    "owner q p' = (if ok \<and> q = pane then Some plugin else owner q p)"
  using assms by (auto simp: adopt_def Let_def hosted_def held_def owner_def update_conv' split: if_splits)

lemma plugins_inv_adopt: "plugins_inv p \<Longrightarrow> adopt pane plugin p = (p', ok) \<Longrightarrow> plugins_inv p'"
  using adopt_books [of pane plugin p p' ok]
  by (auto simp: plugins_inv_def watched_owner split: if_splits)

lemma hold_books:
  "pane \<in> watched p \<Longrightarrow> held (hold_for_relaunch pane spot now p) = insert pane (held p)"
  "watched (hold_for_relaunch pane spot now p) = watched p" "hosted (hold_for_relaunch pane spot now p) = hosted p"
  "owners_of (hold_for_relaunch pane spot now p) = owners_of p"
  "set (pl_idle (hold_for_relaunch pane spot now p)) \<subseteq> set (pl_idle p)"
  by (auto simp: hold_for_relaunch_def owner_watched watched_def held_def hosted_def owners_of_def update_conv')

lemma plugins_inv_hold: "plugins_inv p \<Longrightarrow> pane \<in> watched p \<Longrightarrow> plugins_inv (hold_for_relaunch pane spot now p)"
  using hold_books [where pane = pane and p = p and spot = spot and now = now] unfolding plugins_inv_def by auto

lemma claim_books:
  assumes "claim_pending pane p = (p', r)"
  shows "r = None \<longleftrightarrow> pane \<notin> held p" "held p' = held p - {pane}" "watched p' = watched p" "hosted p' = hosted p"
    "owners_of p' = owners_of p" "pl_idle p' = pl_idle p" "owner q p' = owner q p" "pl_flags p' = pl_flags p"
    "r = map_of (pl_pending p) pane"
  using assms by (auto simp: claim_pending_def held_def watched_def hosted_def owners_of_def owner_def delete_conv' split: if_splits)

lemma restore_books [simp]:
  "held (restore_pending pane h p) = insert pane (held p)" "watched (restore_pending pane h p) = watched p"
  "hosted (restore_pending pane h p) = hosted p" "owners_of (restore_pending pane h p) = owners_of p"
  "pl_idle (restore_pending pane h p) = pl_idle p"
  by (simp_all add: restore_pending_def held_def watched_def hosted_def owners_of_def update_conv')

lemma take_over_books:
  assumes "old \<in> watched p"
  shows "watched (take_over old new p) = insert new (watched p - {old})" "held (take_over old new p) = held p"
    "hosted (take_over old new p) = hosted p" "owners_of (take_over old new p) \<subseteq> owners_of p"
    "set (pl_idle (take_over old new p)) = set (pl_idle p) - {old}"
proof -
  obtain n where n: "owner old p = Some n" using assms by (auto simp: watched_owner)
  then have o: "owner q (take_over old new p) = (if q = new then Some n else if q = old then None else owner q p)" for q
    by (simp add: take_over_def owner_def update_conv' delete_conv')
  from n o show "watched (take_over old new p) = insert new (watched p - {old})"
    "owners_of (take_over old new p) \<subseteq> owners_of p" by (auto simp: watched_owner split: if_splits)
  show "held (take_over old new p) = held p" "hosted (take_over old new p) = hosted p"
    "set (pl_idle (take_over old new p)) = set (pl_idle p) - {old}"
    using n by (simp_all add: take_over_def held_def hosted_def)
qed

definition env_ok :: "plugin_env \<Rightarrow> bool" where
  "env_ok env \<longleftrightarrow> (\<forall>xs. set (env_panes env xs) = set xs) \<and> (\<forall>xs. set (env_names env xs) = set xs)"

lemma announce_idle_books:
  "watched (announce_idle env b due p) = watched p \<and> held (announce_idle env b due p) = held p
   \<and> hosted (announce_idle env b due p) = hosted p \<and> owners_of (announce_idle env b due p) = owners_of p
   \<and> set (pl_idle (announce_idle env b due p)) = set (pl_idle p) \<union> fst ` set due"
  by (induction env b due p rule: announce_idle.induct) (auto simp: Let_def)

lemma notify_idle_books [simp]:
  "watched (notify_idle env b now p) = watched p" "held (notify_idle env b now p) = held p"
  "hosted (notify_idle env b now p) = hosted p" "owners_of (notify_idle env b now p) = owners_of p"
  by (simp_all add: notify_idle_def announce_idle_books)

lemma plugins_inv_notify_idle:
  assumes "env_ok env" "plugins_inv p"
  shows "plugins_inv (notify_idle env b now p)"
proof -
  have "idle_due b now p q = Some (r, ms) \<Longrightarrow> r = q" for q r ms
    by (auto simp: idle_due_def split: option.splits if_splits)
  then have "fst ` set (List.map_filter (idle_due b now p) qs) \<subseteq> set qs" for qs
    by (fastforce simp: List.map_filter_def)
  moreover have "set (env_panes env (map fst (pl_owners p))) = watched p"
    using assms(1) by (simp add: env_ok_def watched_def dom_map_of_conv_image_fst)
  ultimately have "set (pl_idle (notify_idle env b now p)) \<subseteq> set (pl_idle p) \<union> watched p"
    by (auto simp: notify_idle_def announce_idle_books split: if_splits)
  with assms(2) show ?thesis by (auto simp: plugins_inv_def)
qed

lemma take_each_books:
  "take_each names p = (p', taken, capped) \<Longrightarrow>
   watched p' = watched p \<and> held p' = held p \<and> hosted p' = hosted p \<and> owners_of p' = owners_of p \<and> pl_idle p' = pl_idle p"
proof (induction names p arbitrary: p' taken capped rule: take_each.induct)
  case (2 name names p)
  show ?case
  proof (cases "map_of (pl_hosts p) name")
    case None
    with 2(1) [OF None] 2(3) show ?thesis by simp
  next
    case (Some host)
    let ?p = "p\<lparr>pl_hosts := AList.update name (host\<lparr>ho_commands := drop MAX_COMMANDS_PER_TICK (ho_commands host)\<rparr>) (pl_hosts p)\<rparr>"
    obtain q t c where r: "take_each names ?p = (q, t, c)" by (metis prod_cases3)
    with 2(3) Some have "p' = q" by (simp add: Let_def)
    moreover have "watched ?p = watched p" "held ?p = held p" "hosted ?p = hosted p" "owners_of ?p = owners_of p"
      using Some by (simp_all add: watched_def held_def hosted_def owners_of_def hosted_update)
    ultimately show ?thesis using 2(2) [OF Some refl refl r] by simp
  qed
qed simp

lemma take_commands_inv: "plugins_inv p \<Longrightarrow> take_commands env p = (p', taken) \<Longrightarrow>
    plugins_inv p' \<and> watched p' = watched p \<and> held p' = held p \<and> hosted p' = hosted p"
  unfolding take_commands_def
  by (auto simp: plugins_inv_def Let_def split: prod.splits dest!: take_each_books)

lemma user_input_books [simp]:
  "watched (user_input env b pane p) = watched p" "held (user_input env b pane p) = held p"
  "hosted (user_input env b pane p) = hosted p" "owners_of (user_input env b pane p) = owners_of p"
  "pl_idle (user_input env b pane p) = pl_idle p"
  by (simp_all add: user_input_def)

lemma pane_output_books [simp]:
  "watched (pane_output env b pane data p) = watched p" "held (pane_output env b pane data p) = held p"
  "hosted (pane_output env b pane data p) = hosted p" "owners_of (pane_output env b pane data p) = owners_of p"
  "set (pl_idle (pane_output env b pane data p)) \<subseteq> set (pl_idle p)"
  by (auto simp: pane_output_def Let_def)

lemma expire_each_books:
  "expire_each ps (b, p) = (b', p') \<Longrightarrow> plugins_inv p \<Longrightarrow>
   plugins_inv p' \<and> watched p' = watched p - set ps \<and> held p' = held p - set ps \<and> hosted p' = hosted p
   \<and> slotted b' = slotted b - set ps \<and> procs b' = procs b \<and> pb_next b' = pb_next b"
proof (induction ps arbitrary: b p)
  case (Cons pane ps)
  then have "expire_each ps (retire_slot pane b, forget_pane b pane p) = (b', p')" by simp
  from Cons(1) [OF this plugins_inv_release(2) [OF Cons(3)]] show ?case by auto
qed simp

subsection \<open>A reload\<close>

lemma owner_release: "owner q (release_pane b pane p) = (if q = pane then None else owner q p)"
  by (simp add: release_pane_def) (simp add: owner_def delete_conv')

lemma retire_each_effect:
  "retire_each ps (b, p, out) = (b', p', out') \<Longrightarrow>
   held p' = held p - set ps \<and> (\<forall>q. owner q p' = (if q \<in> set ps \<inter> held p then None else owner q p))
   \<and> hosted p' = hosted p \<and> set (pl_idle p') \<subseteq> set (pl_idle p) - (set ps \<inter> held p)
   \<and> slotted b' = slotted b - (set ps \<inter> held p) \<and> procs b' = procs b \<and> pb_next b' = pb_next b
   \<and> set (re_retired out') = set (re_retired out) \<union> (set ps \<inter> held p) \<and> re_released out' = re_released out"
proof (induction ps arbitrary: b p out)
  case (Cons pane ps)
  obtain p1 r where c: "claim_pending pane p = (p1, r)" by fastforce
  note cb = claim_books [OF c]
  show ?case
  proof (cases r)
    case None
    with Cons(2) c have "retire_each ps (b, p1, out) = (b', p', out')" by simp
    from Cons(1) [OF this] cb None show ?thesis by auto
  next
    case (Some h)
    with Cons(2) c have "retire_each ps (retire_slot pane b, release_pane b pane p1, out\<lparr>re_retired := re_retired out @ [pane]\<rparr>)
      = (b', p', out')" by simp
    from Cons(1) [OF this] cb Some show ?thesis by (auto simp: owner_release)
  qed
qed simp

lemma release_each_effect:
  "release_each b ps (p, out) = (p', out') \<Longrightarrow>
   held p' = held p - set ps \<and> (\<forall>q. owner q p' = (if q \<in> set ps then None else owner q p))
   \<and> hosted p' = hosted p \<and> set (pl_idle p') = set (pl_idle p) - set ps
   \<and> set (re_released out') = set (re_released out) \<union> set ps \<and> re_retired out' = re_retired out"
proof (induction ps arbitrary: p out)
  case (Cons pane ps)
  then have "release_each b ps (release_pane b pane p, out\<lparr>re_released := re_released out @ [pane]\<rparr>) = (p', out')" by simp
  from Cons(1) [OF this] show ?case by (auto simp: owner_release)
qed simp

text \<open>
  During a reload, with \<open>L\<close> the live panes, \<open>R\<close> the panes a recovery report stood on when it began and \<open>names\<close> the plugins
  still to be started: watched panes are live or held, slots are of live or held panes, a held pane's plugin has its host, and
  every reported pane is still watched or about to have its report ended.
\<close>

definition reload_inv :: "pane_id set \<Rightarrow> pane_id set \<Rightarrow> rstring set \<Rightarrow> pty_backend \<times> plugins \<times> plugin_reload \<Rightarrow> bool" where
  "reload_inv L R names s \<longleftrightarrow>
     (let (b, p, out) = s
      in held p \<subseteq> watched p \<and> watched p \<subseteq> L \<union> held p \<and> set (pl_idle p) \<subseteq> watched p \<and> held p \<inter> L = {}
         \<and> L \<subseteq> slotted b \<and> slotted b \<subseteq> L \<union> held p
         \<and> R \<subseteq> watched p \<union> set (re_retired out) \<union> set (re_released out)
         \<and> owners_of p \<subseteq> hosted p \<union> names
         \<and> (\<forall>q \<in> held p. \<forall>n. owner q p = Some n \<longrightarrow> n \<in> hosted p))"

lemma reload_inv_cong:
  assumes "reload_inv L R names (b, p, out)" "\<And>q. owner q p' = owner q p" "held p' = held p" "hosted p' = hosted p"
    "set (pl_idle p') = set (pl_idle p)" "re_retired out' = re_retired out" "re_released out' = re_released out"
  shows "reload_inv L R names (b, p', out')"
  using assms by (simp add: reload_inv_def watched_owner)

lemma set_panes_of: "env_ok env \<Longrightarrow> set (panes_of env name p) = {q. owner q p = Some name}"
  by (auto simp: panes_of_def env_ok_def owner_def) (metis domI dom_map_of_conv_image_fst list.set_map)

lemma watch_books [simp]:
  "watched (set_watch_on_signal name a p) = watched p" "held (set_watch_on_signal name a p) = held p"
  "hosted (set_watch_on_signal name a p) = hosted p" "owner q (set_watch_on_signal name a p) = owner q p"
  "pl_idle (set_watch_on_signal name a p) = pl_idle p" "owners_of (set_watch_on_signal name a p) = owners_of p"
  "pl_intended (set_watch_on_signal name a p) = pl_intended p"
  by (simp_all add: set_watch_on_signal_def)

lemma reload_inv_abandon:
  assumes "env_ok env" "reload_inv L R names (b, p, out)" "name \<notin> hosted p" "abandon env name (b, p, out) = (b', p', out')"
  shows "reload_inv L R (names - {name}) (b', p', out')" "b' = b" "hosted p' = hosted p"
proof -
  let ?p = "set_watch_on_signal name False (p\<lparr>pl_flags := AList.delete name (pl_flags p)\<rparr>)"
  obtain p1 out1 where r: "release_each b (panes_of env name ?p) (?p, out) = (p1, out1)" by fastforce
  note e = release_each_effect [OF r]
  from assms(4) r have d: "b' = b" "p' = p1" "re_retired out' = re_retired out1" "re_released out' = re_released out1"
    by (auto simp: abandon_def Let_def)
  have s: "set (panes_of env name ?p) = {q. owner q p = Some name}" using set_panes_of [OF assms(1), of name ?p] by simp
  then have nh: "set (panes_of env name ?p) \<inter> held p = {}" using assms(2,3) by (auto simp: reload_inv_def)
  have o: "owner q p' = (if owner q p = Some name then None else owner q p)" for q using e d s by simp
  have h: "held p' = held p" "hosted p' = hosted p" using e d nh by auto
  have idle: "set (pl_idle p') = {q \<in> set (pl_idle p). owner q p \<noteq> Some name}" using e d s by auto
  have rel: "set (re_released out') = set (re_released out) \<union> {q. owner q p = Some name}" "re_retired out' = re_retired out"
    using e d s by auto
  show "b' = b" "hosted p' = hosted p" by (fact d(1)) (fact h(2))
  from assms(2) have i: "held p \<subseteq> watched p" "watched p \<subseteq> L \<union> held p" "set (pl_idle p) \<subseteq> watched p" "held p \<inter> L = {}"
    "L \<subseteq> slotted b" "slotted b \<subseteq> L \<union> held p" "R \<subseteq> watched p \<union> set (re_retired out) \<union> set (re_released out)"
    "owners_of p \<subseteq> hosted p \<union> names" "\<forall>q \<in> held p. \<forall>n. owner q p = Some n \<longrightarrow> n \<in> hosted p" by (simp_all add: reload_inv_def)
  have w: "watched p' = {q \<in> watched p. owner q p \<noteq> Some name}" using o by (auto simp: watched_owner)
  have ow: "owners_of p' \<subseteq> owners_of p - {name}" using o by (auto simp: watched_owner split: if_splits)
  show "reload_inv L R (names - {name}) (b', p', out')"
    unfolding reload_inv_def Let_def prod.case h w idle rel d(1)
  proof (intro conjI)
    show "held p \<subseteq> {q \<in> watched p. owner q p \<noteq> Some name}" using i(1,9) assms(3) by auto
    show "{q \<in> watched p. owner q p \<noteq> Some name} \<subseteq> L \<union> held p" using i(2) by auto
    show "{q \<in> set (pl_idle p). owner q p \<noteq> Some name} \<subseteq> {q \<in> watched p. owner q p \<noteq> Some name}" using i(3) by auto
    show "R \<subseteq> {q \<in> watched p. owner q p \<noteq> Some name} \<union> set (re_retired out) \<union> (set (re_released out) \<union> {q. owner q p = Some name})"
      using i(7) by auto
    show "owners_of p' \<subseteq> hosted p \<union> (names - {name})" using i(8) ow by auto
    show "\<forall>q\<in>held p. \<forall>n. owner q p' = Some n \<longrightarrow> n \<in> hosted p" using i(9) o by simp
  qed (use i in auto)
qed

lemma reload_inv_stop:
  assumes "env_ok env" "reload_inv L R names (b, p, out)" "replaced \<longrightarrow> name \<in> names"
    "stop_host env name replaced (b, p, out) = (b', p', out')"
  shows "reload_inv L R names (b', p', out')" "procs b' = procs b" "pb_next b' = pb_next b" "hosted p' = hosted p - {name}"
proof -
  let ?p = "p\<lparr>pl_hosts := AList.delete name (pl_hosts p), pl_launched := AList.delete name (pl_launched p)\<rparr>"
  obtain b1 p1 out1 where r: "retire_holds_of env name (b, ?p, out) = (b1, p1, out1)" by (metis prod_cases3)
  have pb: "watched ?p = watched p" "held ?p = held p" "hosted ?p = hosted p - {name}" "pl_idle ?p = pl_idle p" "owner q ?p = owner q p" for q
    by (simp_all add: watched_def held_def hosted_def owner_def delete_conv')
  let ?ps = "set (panes_of env name ?p)"
  have ps: "?ps = {q. owner q p = Some name}" using set_panes_of [OF assms(1), of name ?p] pb(5) by simp
  note e = retire_each_effect [OF r [unfolded retire_holds_of_def fst_conv snd_conv], unfolded pb ps]
  from assms(2) have i: "held p \<subseteq> watched p" "watched p \<subseteq> L \<union> held p" "set (pl_idle p) \<subseteq> watched p" "held p \<inter> L = {}"
    "L \<subseteq> slotted b" "slotted b \<subseteq> L \<union> held p" "R \<subseteq> watched p \<union> set (re_retired out) \<union> set (re_released out)"
    "owners_of p \<subseteq> hosted p \<union> names" "\<forall>q \<in> held p. \<forall>n. owner q p = Some n \<longrightarrow> n \<in> hosted p" by (simp_all add: reload_inv_def)
  let ?X = "{q. owner q p = Some name} \<inter> held p"
  have w: "watched p1 = watched p - ?X" and h: "held p1 = held p - ?X" "hosted p1 = hosted p - {name}"
    and idle: "set (pl_idle p1) \<subseteq> set (pl_idle p) - ?X"
    and sl: "slotted b1 = slotted b - ?X" and rt: "set (re_retired out1) = set (re_retired out) \<union> ?X" "re_released out1 = re_released out"
    using e by (auto simp: watched_owner)
  have ow: "owners_of p1 \<subseteq> owners_of p" using e by (auto simp: watched_owner split: if_splits)
  have hi: "\<forall>q \<in> held p1. \<forall>n. owner q p1 = Some n \<longrightarrow> n \<in> hosted p1"
    using i(9) e h by auto
  have inv1: "reload_inv L R (insert name names) (b1, p1, out1)"
    unfolding reload_inv_def Let_def prod.case
  proof (intro conjI)
    show "held p1 \<subseteq> watched p1" using i(1) w h by auto
    show "watched p1 \<subseteq> L \<union> held p1" using i(2) w h by auto
    show "set (pl_idle p1) \<subseteq> watched p1" using i(3) w idle by auto
    show "held p1 \<inter> L = {}" using i(4) h by auto
    show "L \<subseteq> slotted b1" using i(4,5) sl by auto
    show "slotted b1 \<subseteq> L \<union> held p1" using i(6) sl h by auto
    show "R \<subseteq> watched p1 \<union> set (re_retired out1) \<union> set (re_released out1)" using i(7) w rt by auto
    show "owners_of p1 \<subseteq> hosted p1 \<union> insert name names" using i(8) ow h by auto
  qed (fact hi)
  have nh: "name \<notin> hosted p1" using h by simp
  have "procs b1 = procs b" "pb_next b1 = pb_next b" using e by simp_all
  have "reload_inv L R names (b', p', out') \<and> procs b' = procs b \<and> pb_next b' = pb_next b \<and> hosted p' = hosted p - {name}"
  proof (cases replaced)
    case True
    then have d: "b' = b1" "p' = p1" "out' = out1\<lparr>re_restarted := re_restarted out1 @ [name]\<rparr>"
      using assms(4) r by (simp_all add: stop_host_def)
    have "insert name names = names" using True assms(3) by auto
    with inv1 reload_inv_cong [of L R names b1 p1 out1 p1 out'] d
    show "reload_inv L R names (b', p', out') \<and> procs b' = procs b \<and> pb_next b' = pb_next b \<and> hosted p' = hosted p - {name}"
      using \<open>procs b1 = procs b\<close> \<open>pb_next b1 = pb_next b\<close> h by simp
  next
    case False
    then have "abandon env name (b1, p1, out1) = (b', p', out')" using assms(4) r by (simp add: stop_host_def)
    note a = reload_inv_abandon [OF assms(1) inv1 nh this]
    have "reload_inv L R names (b', p', out')" using a(1) by (auto simp: reload_inv_def)
    with a show "reload_inv L R names (b', p', out') \<and> procs b' = procs b \<and> pb_next b' = pb_next b \<and> hosted p' = hosted p - {name}"
      using \<open>procs b1 = procs b\<close> \<open>pb_next b1 = pb_next b\<close> h by simp
  qed
  then show "reload_inv L R names (b', p', out')" "procs b' = procs b" "pb_next b' = pb_next b" "hosted p' = hosted p - {name}"
    by simp_all
qed

lemma reload_inv_stop_each:
  "env_ok env \<Longrightarrow> reload_inv L R (cfg_name ` set wanted) (b, p, out) \<Longrightarrow> stop_each env wanted names (b, p, out) = (b', p', out') \<Longrightarrow>
   reload_inv L R (cfg_name ` set wanted) (b', p', out') \<and> procs b' = procs b \<and> pb_next b' = pb_next b"
proof (induction names arbitrary: b p out)
  case (Cons name names)
  let ?r = "list_ex (\<lambda>cfg. cfg_name cfg = name) wanted"
  obtain b1 p1 out1 where s: "stop_host env name ?r (b, p, out) = (b1, p1, out1)" by (metis prod_cases3)
  have "?r \<longrightarrow> name \<in> cfg_name ` set wanted" by (auto simp: list_ex_iff)
  note a = reload_inv_stop [OF Cons(2,3) this s]
  from Cons(4) s have "stop_each env wanted names (b1, p1, out1) = (b', p', out')" by simp
  from Cons(1) [OF Cons(2) a(1) this] a show ?case by simp
qed simp

lemma hand_each_books:
  "held (hand_each env b name titles ps p) = held p \<and> hosted (hand_each env b name titles ps p) = hosted p
   \<and> pl_idle (hand_each env b name titles ps p) = pl_idle p
   \<and> (\<forall>q. owner q (hand_each env b name titles ps p) = (if q \<in> set ps then Some name else owner q p))"
proof (induction ps arbitrary: p)
  case (Cons pane ps)
  let ?p = "p\<lparr>pl_owners := AList.update pane name (pl_owners p)\<rparr>"
  have "held ?p = held p" "hosted ?p = hosted p" "owner q ?p = (if q = pane then Some name else owner q p)" for q
    by (simp_all add: held_def hosted_def owner_def update_conv')
  moreover have "owner q (pane_opened env b pane t ?p) = owner q ?p" for q t by (simp add: pane_opened_def)
  ultimately show ?case using Cons by (simp add: Let_def)
qed simp

lemma reload_inv_apply:
  assumes "env_ok env" "reload_inv L R (insert (cfg_name cfg) names) (b, p, out)" "dom (map_of titles) = L"
    "apply_config env titles cfg (b, p, out) = (b', p', out')"
  shows "reload_inv L R names (b', p', out') \<and> procs b' = procs b \<and> pb_next b' = pb_next b"
proof -
  let ?n = "cfg_name cfg"
  from assms(2) have i: "held p \<subseteq> watched p" "watched p \<subseteq> L \<union> held p" "set (pl_idle p) \<subseteq> watched p" "held p \<inter> L = {}"
    "L \<subseteq> slotted b" "slotted b \<subseteq> L \<union> held p" "R \<subseteq> watched p \<union> set (re_retired out) \<union> set (re_released out)"
    "owners_of p \<subseteq> hosted p \<union> insert ?n names" "\<forall>q \<in> held p. \<forall>n. owner q p = Some n \<longrightarrow> n \<in> hosted p" by (simp_all add: reload_inv_def)
  consider (kept) "?n \<in> hosted p" | (failed) "?n \<notin> hosted p" "\<not> env_launches env cfg" | (started) "?n \<notin> hosted p" "env_launches env cfg"
    by blast
  then show ?thesis
  proof cases
    case kept
    then have d: "b' = b" "p' = set_watch_on_signal ?n (cfg_watch cfg) (p\<lparr>pl_flags := AList.update ?n (cfg_flags cfg) (pl_flags p)\<rparr>)" "out' = out"
      using assms(4) by (auto simp: apply_config_def hosted_def)
    have "reload_inv L R names (b, p, out)" using assms(2) kept by (auto simp: reload_inv_def)
    with d reload_inv_cong [of L R names b p out p' out] show ?thesis by simp
  next
    case failed
    then have "map_of (pl_hosts p) ?n = None" by (auto simp: hosted_def)
    then have "abandon env ?n (b, p, out) = (b', p', out')"
      using assms(4) failed(2) by (simp add: apply_config_def start_host_def)
    note a = reload_inv_abandon [OF assms(1,2) failed(1) this]
    then show ?thesis by (auto simp: reload_inv_def)
  next
    case started
    let ?p = "set_watch_on_signal ?n (cfg_watch cfg) (record_host cfg p)"
    let ?named = "filter (\<lambda>pane. map_of (pl_intended ?p) pane = Some ?n \<and> map_of titles pane \<noteq> None)
                         (env_panes env (map fst (pl_intended ?p)))"
    have n: "map_of (pl_hosts p) ?n = None" using started(1) by (auto simp: hosted_def)
    have d: "b' = b" "p' = hand_each env b ?n titles ?named ?p" "re_retired out' = re_retired out" "re_released out' = re_released out"
      using assms(4) started(2) n by (auto simp: apply_config_def start_host_def Let_def)
    have nm: "set ?named \<subseteq> L" using assms(3) by auto
    have pb: "held ?p = held p" "hosted ?p = insert ?n (hosted p)" "pl_idle ?p = pl_idle p" "owner q ?p = owner q p" for q
      by (simp_all add: record_host_def held_def hosted_def owner_def update_conv' set_watch_on_signal_def)
    note h = hand_each_books [of env b ?n titles ?named ?p, folded d(2), unfolded pb]
    have w: "watched p' = watched p \<union> set ?named" using h by (auto simp: watched_owner)
    have "reload_inv L R names (b', p', out')"
      unfolding reload_inv_def Let_def prod.case d(1,3,4)
    proof (intro conjI)
      show "held p' \<subseteq> watched p'" using i(1) h w by auto
      show "watched p' \<subseteq> L \<union> held p'" using i(2) h w nm by auto
      show "set (pl_idle p') \<subseteq> watched p'" using i(3) h w by auto
      show "held p' \<inter> L = {}" using i(4) h by auto
      show "slotted b \<subseteq> L \<union> held p'" using i(6) h by auto
      show "R \<subseteq> watched p' \<union> set (re_retired out) \<union> set (re_released out)" using i(7) w by auto
      show "owners_of p' \<subseteq> hosted p' \<union> names" using i(8) h by (auto simp: watched_owner split: if_splits)
      show "\<forall>q\<in>held p'. \<forall>n. owner q p' = Some n \<longrightarrow> n \<in> hosted p'" using i(9) h by auto
    qed (fact i(5))
    with d(1) show ?thesis by simp
  qed
qed

lemma reload_inv_apply_each:
  "env_ok env \<Longrightarrow> dom (map_of titles) = L \<Longrightarrow> reload_inv L R (cfg_name ` set cfgs) (b, p, out) \<Longrightarrow>
   apply_each env titles cfgs (b, p, out) = (b', p', out') \<Longrightarrow>
   reload_inv L R {} (b', p', out') \<and> procs b' = procs b \<and> pb_next b' = pb_next b"
proof (induction cfgs arbitrary: b p out)
  case (Cons cfg cfgs)
  obtain b1 p1 out1 where s: "apply_config env titles cfg (b, p, out) = (b1, p1, out1)" by (metis prod_cases3)
  from Cons(4) have "reload_inv L R (insert (cfg_name cfg) (cfg_name ` set cfgs)) (b, p, out)" by simp
  note a = reload_inv_apply [OF Cons(2) this Cons(3) s]
  from Cons(5) s have "apply_each env titles cfgs (b1, p1, out1) = (b', p', out')" by simp
  from Cons(1) [OF Cons(2,3) conjunct1 [OF a] this] a show ?case by simp
qed simp

lemma reload_books:
  assumes "env_ok env" "dom (map_of titles) = L" "plugins_inv p" "watched p \<subseteq> L \<union> held p" "held p \<inter> L = {}"
    "L \<subseteq> slotted b" "slotted b \<subseteq> L \<union> held p" "R \<subseteq> watched p"
    "plugins_reload env configs startup titles (b, p) = (b', p', out)"
  shows "reload_inv L R {} (b', p', out) \<and> procs b' = procs b \<and> pb_next b' = pb_next b"
proof -
  let ?wanted = "filter (is_wanted startup p) configs"
  let ?out = "\<lparr>re_started = [], re_stopped = [], re_restarted = [], re_retired = [], re_released = []\<rparr>"
  let ?leaving = "filter (\<lambda>name. name \<notin> set (map cfg_name (filter (\<lambda>cfg. \<not> spec_changed p cfg) ?wanted)))
    (env_names env (map fst (pl_hosts p)))"
  have "reload_inv L R (cfg_name ` set ?wanted) (b, p, ?out)"
    using assms by (auto simp: reload_inv_def plugins_inv_def dest: owner_watched(2))
  moreover obtain b1 p1 out1 where s: "stop_each env ?wanted ?leaving (b, p, ?out) = (b1, p1, out1)" by (metis prod_cases3)
  ultimately have 1: "reload_inv L R (cfg_name ` set ?wanted) (b1, p1, out1)" "procs b1 = procs b" "pb_next b1 = pb_next b"
    using reload_inv_stop_each [OF assms(1), of L R ?wanted b p ?out] by blast+
  have "apply_each env titles ?wanted (b1, p1, out1) = (b', p', out)"
    using assms(9) s by (simp add: plugins_reload_def Let_def)
  from reload_inv_apply_each [OF assms(1,2) 1(1) this] 1 show ?thesis by simp
qed

subsection \<open>The shared state\<close>

definition ser_total :: "(server_message \<Rightarrow> rstring option) \<Rightarrow> bool" where
  "ser_total ser \<longleftrightarrow> (\<forall>m. ser m \<noteq> None)"

lemma live_panes: "live s = pn_id ` set (sh_panes s)" "pane_live i s \<longleftrightarrow> i \<in> live s"
  by (auto simp: live_def pane_ids_def pane_live_def)

lemma books_panes:
  "sh_panes s = sh_panes s' \<Longrightarrow> live s = live s'" "sh_panes s = sh_panes s' \<Longrightarrow> pane_ids s = pane_ids s'"
  by (simp_all add: live_panes pane_ids_def)

lemma reported_recovery: "sh_recovery s = sh_recovery s' \<Longrightarrow> reported s = reported s'"
  by (simp add: reported_def)

lemma announce_books [simp]:
  "live (announce_all ser m s) = live s" "pane_ids (announce_all ser m s) = pane_ids s" "reported (announce_all ser m s) = reported s"
  by (simp_all add: live_panes pane_ids_def reported_def)

lemma send_to_recovery [simp]: "sh_recovery (send_to ser i m s) = sh_recovery s"
  by (simp add: send_to_def case_prod_beta split: option.split)

lemma send_error_books [simp]:
  "live (send_error_to ser i m s) = live s" "pane_ids (send_error_to ser i m s) = pane_ids s"
  "reported (send_error_to ser i m s) = reported s" "sh_panes (send_error_to ser i m s) = sh_panes s"
  by (simp_all add: send_error_to_def live_panes pane_ids_def reported_def)

lemma register_books [simp]:
  "pane_ids (register_pane ser i r c cl t s) = pane_ids s @ [i]" "live (register_pane ser i r c cl t s) = insert i (live s)"
  "reported (register_pane ser i r c cl t s) = reported s" "length (sh_panes (register_pane ser i r c cl t s)) = Suc (length (sh_panes s))"
  by (simp_all add: register_pane_def Let_def live_def reported_def pane_ids_def pane_new_def)

lemma panes_remove: "sh_panes (remove_pane_and_announce ser i s) = filter (\<lambda>p. pn_id p \<noteq> i) (sh_panes s)"
  by (auto simp: remove_pane_and_announce_def pane_live_def Let_def filter_id_conv)

lemma recovery_remove [simp]: "sh_recovery (remove_pane_and_announce ser i s) = sh_recovery s"
  by (simp add: remove_pane_and_announce_def Let_def)

lemma remove_books [simp]:
  "live (remove_pane_and_announce ser i s) = live s - {i}" "reported (remove_pane_and_announce ser i s) = reported s"
  "distinct (pane_ids s) \<Longrightarrow> distinct (pane_ids (remove_pane_and_announce ser i s))"
  "length (sh_panes (remove_pane_and_announce ser i s)) \<le> length (sh_panes s)"
  by (simp_all add: reported_def) (auto simp: panes_remove live_panes pane_ids_def distinct_map inj_on_def)

lemma recovery_broadcast:
  "ser_total ser \<Longrightarrow> sh_recovery (fst (broadcast_recovery ser pane st detail deadline attempt s)) =
     (if st = RECOVERY_CANCELLED then bt_remove pane (sh_recovery s)
      else bt_insert pane \<lparr>rr_state = st, rr_detail = detail, rr_deadline_epoch = deadline, rr_attempt = attempt\<rparr> (sh_recovery s))"
  unfolding ser_total_def
  by (cases "ser (SmRecovery pane st detail deadline attempt)") (metis, simp add: broadcast_recovery_def Let_def)

lemma recovery_books:
  assumes "ser_total ser" "broadcast_recovery ser pane st detail deadline attempt s = (s', n)"
  shows "reported s' = (if st = RECOVERY_CANCELLED then reported s - {pane} else insert pane (reported s))"
    "live s' = live s" "pane_ids s' = pane_ids s" "sh_panes s' = sh_panes s"
proof -
  have "sh_panes s' = sh_panes s" using panes_recovery [of ser pane st detail deadline attempt s] assms(2) by simp
  then show "live s' = live s" "pane_ids s' = pane_ids s" "sh_panes s' = sh_panes s" by (simp_all add: live_panes pane_ids_def)
  show "reported s' = (if st = RECOVERY_CANCELLED then reported s - {pane} else insert pane (reported s))"
    using recovery_broadcast [OF assms(1), of pane st detail deadline attempt s] assms(2)
    by (simp add: reported_def dom_bt_insert dom_bt_remove)
qed

lemma end_recovery_books:
  assumes "ser_total ser"
  shows "reported (end_recovery ser pane s) = reported s - {pane}" "live (end_recovery ser pane s) = live s"
    "pane_ids (end_recovery ser pane s) = pane_ids s" "sh_panes (end_recovery ser pane s) = sh_panes s"
  using recovery_books [OF assms, of pane RECOVERY_CANCELLED None None 0 s]
  by (simp_all add: end_recovery_def) (metis fst_conv surj_pair)+

lemma end_reported_books:
  assumes "ser_total ser"
  shows "reported (end_recovery_if_reported ser pane s) = reported s - {pane}" "live (end_recovery_if_reported ser pane s) = live s"
    "pane_ids (end_recovery_if_reported ser pane s) = pane_ids s" "sh_panes (end_recovery_if_reported ser pane s) = sh_panes s"
  using end_recovery_books [OF assms, of pane s] by (auto simp: end_recovery_if_reported_def reported_def)

lemma end_each_books:
  "ser_total ser \<Longrightarrow> reported (end_each ser ps s) = reported s - set ps \<and> live (end_each ser ps s) = live s
    \<and> pane_ids (end_each ser ps s) = pane_ids s \<and> sh_panes (end_each ser ps s) = sh_panes s"
  by (induction ps arbitrary: s) (auto simp: end_recovery_books)

lemma end_each_reported_books:
  "ser_total ser \<Longrightarrow> reported (end_each_reported ser ps s) = reported s - set ps \<and> live (end_each_reported ser ps s) = live s
    \<and> pane_ids (end_each_reported ser ps s) = pane_ids s \<and> sh_panes (end_each_reported ser ps s) = sh_panes s"
  by (induction ps arbitrary: s) (auto simp: end_reported_books)

lemma attention_books [simp]:
  "live (fst (broadcast_attention ser pane m s)) = live s" "pane_ids (fst (broadcast_attention ser pane m s)) = pane_ids s"
  "reported (fst (broadcast_attention ser pane m s)) = reported s" "sh_panes (fst (broadcast_attention ser pane m s)) = sh_panes s"
  by (simp_all add: broadcast_attention_def Let_def live_panes pane_ids_def reported_def split: option.split)

lemma reorder_books:
  assumes "distinct (pane_ids s)"
  shows "live (reorder_panes ser order s) = live s" "distinct (pane_ids (reorder_panes ser order s))"
    "reported (reorder_panes ser order s) = reported s" "length (sh_panes (reorder_panes ser order s)) = length (sh_panes s)"
proof -
  let ?t = "canonical_order (pane_ids s) order"
  note t = take_in_order_spec [of ?t "sh_panes s"] canonical_order_perm [OF assms, of order]
  have m: "map pn_id (take_in_order ?t (sh_panes s)) = ?t" using t assms by (auto simp: pane_ids_def)
  have ids: "pane_ids (reorder_panes ser order s) = (if ?t = pane_ids s then pane_ids s else ?t)"
    using m by (simp add: reorder_panes_def Let_def pane_ids_def)
  then show "live (reorder_panes ser order s) = live s" "distinct (pane_ids (reorder_panes ser order s))"
    using t assms by (auto simp: live_def)
  show "reported (reorder_panes ser order s) = reported s" by (simp add: reorder_panes_def Let_def reported_def)
  have "length ?t = length (pane_ids s)" using t(2) assms by (metis distinct_card)
  then show "length (sh_panes (reorder_panes ser order s)) = length (sh_panes s)"
    using ids by (metis length_map pane_ids_def)
qed

lemma mset_restore_index: "mset (sh_panes (restore_pane_index ser i n s)) = mset (sh_panes s)"
proof (cases "List.extract (\<lambda>p. pn_id p = i) (sh_panes s)")
  case (Some x)
  obtain before entry after where x: "x = (before, entry, after)" by (metis prod_cases3)
  let ?r = "before @ after" and ?to = "min n (length (sh_panes s) - 1)"
  have "mset (take ?to ?r @ entry # drop ?to ?r) = mset (before @ entry # after)"
    by (metis append_take_drop_id mset.simps(2) mset_append union_mset_add_mset_right)
  moreover have "sh_panes s = before @ entry # after" using Some x by (simp add: extract_Some_iff)
  moreover have "sh_panes (restore_pane_index ser i n s) =
    (if length before = ?to then sh_panes s else take ?to ?r @ entry # drop ?to ?r)"
    using Some x by (simp add: restore_pane_index_def Let_def)
  ultimately show ?thesis by metis
qed (simp add: restore_pane_index_def)

lemma restore_index_books [simp]:
  "live (restore_pane_index ser i n s) = live s" "reported (restore_pane_index ser i n s) = reported s"
  "distinct (pane_ids s) \<Longrightarrow> distinct (pane_ids (restore_pane_index ser i n s))"
  "length (sh_panes (restore_pane_index ser i n s)) = length (sh_panes s)"
proof -
  note m = mset_restore_index [of ser i n s]
  from m show "live (restore_pane_index ser i n s) = live s" by (metis live_panes(1) mset_eq_setD)
  from m show "length (sh_panes (restore_pane_index ser i n s)) = length (sh_panes s)" by (metis size_mset)
  show "distinct (pane_ids s) \<Longrightarrow> distinct (pane_ids (restore_pane_index ser i n s))"
    using m by (metis mset_eq_imp_distinct_iff mset_map pane_ids_def)
  show "reported (restore_pane_index ser i n s) = reported s"
    by (auto simp: restore_pane_index_def Let_def reported_def split: option.split)
qed

end
