(* ===== verification/Worker_Safety.thy ===== *)
theory Worker_Safety
  imports Worker_Invariant
begin

text \<open>
  The invariant that ties the worker's books together, kept by every step: it holds in every run of the worker, whatever the
  clients, the shells, the plugins and the configuration do.
\<close>

section \<open>The invariant\<close>

definition books :: "shared \<Rightarrow> pty_backend \<Rightarrow> plugins \<Rightarrow> bool" where
  "books s b p \<longleftrightarrow>
     distinct (pane_ids s) \<and> length (sh_panes s) \<le> MAX_PTYS_PER_REPO
     \<and> procs b = live s \<and> live s \<subseteq> slotted b \<and> slotted b \<subseteq> live s \<union> held p
     \<and> held p \<inter> live s = {} \<and> watched p \<subseteq> live s \<union> held p \<and> plugins_inv p
     \<and> reported s \<subseteq> watched p \<and> (\<forall>i \<in> live s \<union> held p. i < pb_next b)"

definition worker_inv :: "hub_worker \<Rightarrow> bool" where
  "worker_inv w \<longleftrightarrow> books (hw_shared w) (hw_backend w) (hw_plugins w)"

lemma books_D:
  assumes "books s b p"
  shows "distinct (pane_ids s)" "length (sh_panes s) \<le> MAX_PTYS_PER_REPO" "procs b = live s" "live s \<subseteq> slotted b"
    "slotted b \<subseteq> live s \<union> held p" "held p \<inter> live s = {}" "watched p \<subseteq> live s \<union> held p" "plugins_inv p"
    "reported s \<subseteq> watched p" "i \<in> live s \<Longrightarrow> i < pb_next b" "i \<in> held p \<Longrightarrow> i < pb_next b" "held p \<subseteq> watched p"
  using assms unfolding books_def plugins_inv_def by blast+

lemma books_I:
  assumes "distinct (pane_ids s)" "length (sh_panes s) \<le> MAX_PTYS_PER_REPO" "procs b = live s" "live s \<subseteq> slotted b"
    "slotted b \<subseteq> live s \<union> held p" "held p \<inter> live s = {}" "watched p \<subseteq> live s \<union> held p" "plugins_inv p"
    "reported s \<subseteq> watched p" "\<And>i. i \<in> live s \<union> held p \<Longrightarrow> i < pb_next b"
  shows "books s b p"
  using assms unfolding books_def by simp

lemma books_same:
  assumes "books s b p" "distinct (pane_ids s')" "live s' = live s" "length (sh_panes s') \<le> length (sh_panes s)"
    "reported s' \<subseteq> reported s" "procs b' = procs b" "slotted b' = slotted b" "pb_next b' = pb_next b"
    "plugins_inv p'" "watched p' = watched p" "held p' = held p"
  shows "books s' b' p'"
proof (rule books_I, unfold assms(3,6-8,10,11))
  note d = books_D [OF assms(1)]
  show "length (sh_panes s') \<le> MAX_PTYS_PER_REPO" using d(2) assms(4) by linarith
  show "reported s' \<subseteq> watched p" using d(9) assms(5) by (rule subset_trans [rotated])
  show "i < pb_next b" if "i \<in> live s \<union> held p" for i using that d(10,11) by auto
qed (use assms(2,9) books_D [OF assms(1)] in simp_all)

lemma books_gone:
  assumes "books s b p" "distinct (pane_ids s')" "live s' = live s - {i}" "length (sh_panes s') \<le> length (sh_panes s)"
    "reported s' = reported s - {i}" "procs b' = procs b - {i}" "slotted b' = slotted b - {i}" "pb_next b' = pb_next b"
    "plugins_inv p'" "watched p' = watched p - {i}" "held p' = held p - {i}"
  shows "books s' b' p'"
proof (rule books_I, unfold assms(3,5-8,10,11))
  note d = books_D [OF assms(1)]
  show "length (sh_panes s') \<le> MAX_PTYS_PER_REPO" using d(2) assms(4) by linarith
  show "procs b - {i} = live s - {i}" by (simp add: d(3))
  show "live s - {i} \<subseteq> slotted b - {i}" using d(4) by auto
  show "slotted b - {i} \<subseteq> live s - {i} \<union> (held p - {i})" using d(5) by auto
  show "(held p - {i}) \<inter> (live s - {i}) = {}" using d(6) by auto
  show "watched p - {i} \<subseteq> live s - {i} \<union> (held p - {i})" using d(7) by auto
  show "reported s - {i} \<subseteq> watched p - {i}" using d(9) by auto
  show "j < pb_next b" if "j \<in> live s - {i} \<union> (held p - {i})" for j using that d(10,11) by auto
qed (fact assms(2,9))+

lemma books_held:
  assumes "books s b p" "i \<in> live s" "i \<in> watched p" "distinct (pane_ids s')" "live s' = live s - {i}"
    "length (sh_panes s') \<le> length (sh_panes s)" "reported s' = reported s"
    "procs b' = procs b - {i}" "slotted b' = slotted b" "pb_next b' = pb_next b"
    "plugins_inv p'" "watched p' = watched p" "held p' = insert i (held p)"
  shows "books s' b' p'"
proof (rule books_I, unfold assms(5,7-10,12,13))
  note d = books_D [OF assms(1)]
  show "length (sh_panes s') \<le> MAX_PTYS_PER_REPO" using d(2) assms(6) by linarith
  show "procs b - {i} = live s - {i}" by (simp add: d(3))
  show "live s - {i} \<subseteq> slotted b" using d(4) by auto
  show "slotted b \<subseteq> live s - {i} \<union> insert i (held p)" using d(5) by auto
  show "insert i (held p) \<inter> (live s - {i}) = {}" using d(6) by auto
  show "watched p \<subseteq> live s - {i} \<union> insert i (held p)" using d(7) by auto
  show "reported s \<subseteq> watched p" by (fact d(9))
  show "j < pb_next b" if "j \<in> live s - {i} \<union> insert i (held p)" for j using that d(10,11) assms(2) by auto
qed (fact assms(4,11))+

lemma books_opened:
  assumes "books s b p" "length (sh_panes s) < MAX_PTYS_PER_REPO" "i = pb_next b" "pane_ids s' = pane_ids s @ [i]"
    "reported s' = reported s" "procs b' = insert i (procs b)" "slotted b' = insert i (slotted b)" "i < pb_next b'"
    "\<And>j. j < i \<Longrightarrow> j < pb_next b'" "plugins_inv p'" "watched p \<subseteq> watched p'" "watched p' \<subseteq> insert i (watched p)" "held p' = held p"
  shows "books s' b' p'"
proof -
  note d = books_D [OF assms(1)]
  have new: "i \<notin> live s" "i \<notin> held p" using d(10,11) [of i] assms(3) by auto
  have l: "live s' = insert i (live s)" using assms(4) by (simp add: live_def)
  show ?thesis
  proof (rule books_I, unfold assms(5-7,13) l)
    show "distinct (pane_ids s')" using new(1) d(1) assms(4) by (simp add: live_def)
    show "length (sh_panes s') \<le> MAX_PTYS_PER_REPO"
      using assms(2,4) by (metis Suc_leI length_append_singleton length_map pane_ids_def)
    show "insert i (procs b) = insert i (live s)" by (simp add: d(3))
    show "insert i (live s) \<subseteq> insert i (slotted b)" using d(4) by auto
    show "insert i (slotted b) \<subseteq> insert i (live s) \<union> held p" using d(5) by auto
    show "held p \<inter> insert i (live s) = {}" using d(6) new by auto
    show "watched p' \<subseteq> insert i (live s) \<union> held p" using d(7) assms(12) by auto
    show "reported s \<subseteq> watched p'" using d(9) assms(11) by auto
    show "j < pb_next b'" if "j \<in> insert i (live s) \<union> held p" for j
      using that d(10,11) [of j] assms(3,8) assms(9) [of j] by auto
  qed (fact assms(10))
qed

lemma plugins_inv_events [simp]:
  "plugins_inv (pane_opened env b i t p) = plugins_inv p" "plugins_inv (pane_closed env b i p) = plugins_inv p"
  "plugins_inv (pane_exited env b i p) = plugins_inv p" "plugins_inv (user_input env b i p) = plugins_inv p"
  by (simp_all add: plugins_inv_def)

lemma on_simps [simp]:
  "hw_shared (on_hub f w) = f (hw_shared w)" "hw_backend (on_hub f w) = hw_backend w" "hw_plugins (on_hub f w) = hw_plugins w"
  "hw_shared (on_backend g w) = hw_shared w" "hw_backend (on_backend g w) = g (hw_backend w)" "hw_plugins (on_backend g w) = hw_plugins w"
  "hw_shared (on_plugins h w) = hw_shared w" "hw_backend (on_plugins h w) = hw_backend w"
  "hw_plugins (on_plugins h w) = h (hw_backend w) (hw_plugins w)"
  "hw_shared (noticed r w) = fst r" "hw_backend (noticed r w) = hw_backend w" "hw_plugins (noticed r w) = hw_plugins w"
  by (simp_all add: on_hub_def on_backend_def on_plugins_def noticed_def)

section \<open>Every step keeps it\<close>

subsection \<open>Closing and ending\<close>

lemma inv_close_pane:
  assumes "ser_total ser" "worker_inv w"
  shows "worker_inv (close_pane ser env i w)"
proof -
  let ?s = "hw_shared w" and ?b = "hw_backend w" and ?p = "hw_plugins w"
  have bk: "books ?s ?b ?p" using assms(2) by (simp add: worker_inv_def)
  consider (gone) "i \<notin> live ?s" | (owned) "i \<in> live ?s" "i \<in> watched ?p" | (plain) "i \<in> live ?s" "i \<notin> watched ?p" by blast
  then show ?thesis
  proof cases
    case gone
    then show ?thesis using assms(2) by (simp add: close_pane_def live_panes)
  next
    case owned
    then show ?thesis unfolding worker_inv_def
      by (intro books_gone [OF bk, of _ i])
         (simp_all add: close_pane_def live_panes(2) owner_watched end_recovery_books [OF assms(1)] plugins_inv_release
            books_D(1,8) [OF bk] panes_remove)
  next
    case plain
    then have "watched ?p - {i} = watched ?p" "held ?p - {i} = held ?p" using bk by (auto simp: books_def plugins_inv_def)
    with plain show ?thesis unfolding worker_inv_def
      by (intro books_gone [OF bk, of _ i])
         (simp_all add: close_pane_def live_panes(2) owner_watched end_reported_books [OF assms(1)]
            books_D(1,8) [OF bk] panes_remove)
  qed
qed

lemma pane_spot_live: "pane_spot_of i s \<noteq> None \<longleftrightarrow> i \<in> live s"
proof (cases "List.extract (\<lambda>p. pn_id p = i) (sh_panes s)")
  case None
  then have "i \<notin> live s" by (auto simp: extract_None_iff live_panes)
  with None show ?thesis by (simp add: pane_spot_of_def)
next
  case (Some x)
  then have "i \<in> live s" by (cases x) (auto simp: extract_Some_iff live_panes)
  with Some show ?thesis by (cases x) (simp add: pane_spot_of_def)
qed

lemma inv_pane_ended:
  assumes "ser_total ser" "worker_inv w"
  shows "worker_inv (pane_ended ser env now i w)"
proof -
  let ?s = "hw_shared w" and ?b = "hw_backend w" and ?p = "hw_plugins w"
  have bk: "books ?s ?b ?p" using assms(2) by (simp add: worker_inv_def)
  note end_books = end_recovery_books [OF assms(1)] end_reported_books [OF assms(1)] books_D(1,8) [OF bk]
  consider (plain) "i \<notin> watched ?p" | (held) spot where "i \<in> watched ?p" "pane_spot_of i ?s = Some spot" "is_relaunchable ?b i"
    | (lost) spot where "i \<in> watched ?p" "pane_spot_of i ?s = Some spot" "\<not> is_relaunchable ?b i"
    | (away) "i \<in> watched ?p" "pane_spot_of i ?s = None" by (metis option.exhaust)
  then show ?thesis
  proof cases
    case plain
    then have "watched ?p - {i} = watched ?p" "held ?p - {i} = held ?p" using books_D(12) [OF bk] by auto
    with plain show ?thesis unfolding worker_inv_def
      by (intro books_gone [OF bk, of _ i]) (simp_all add: pane_ended_def owner_watched end_books panes_remove)
  next
    case held
    have "i \<in> live ?s" using pane_spot_live [of i ?s] held(2) by simp
    with held show ?thesis unfolding worker_inv_def
      by (intro books_held [OF bk, of i])
         (simp_all add: pane_ended_def owner_watched hold_books end_books panes_remove plugins_inv_hold)
  next
    case lost
    then show ?thesis unfolding worker_inv_def
      by (intro books_gone [OF bk, of _ i])
         (simp_all add: pane_ended_def owner_watched end_books panes_remove plugins_inv_release)
  next
    case away
    then show ?thesis unfolding worker_inv_def
      by (intro books_gone [OF bk, of _ i])
         (simp_all add: pane_ended_def owner_watched end_books panes_remove plugins_inv_release)
  qed
qed

lemma inv_cancel_recovery:
  assumes "ser_total ser" "worker_inv w"
  shows "worker_inv (cancel_recovery ser env i w)"
proof -
  let ?s = "hw_shared w" and ?b = "hw_backend w" and ?p = "hw_plugins w"
  have bk: "books ?s ?b ?p" using assms(2) by (simp add: worker_inv_def)
  obtain p r where c: "claim_pending i ?p = (p, r)" by fastforce
  note cb = claim_books [OF c]
  show ?thesis
  proof (cases r)
    case None
    with c assms(2) show ?thesis by (simp add: cancel_recovery_def)
  next
    case (Some h)
    have i: "i \<in> held ?p" using cb(1) Some by simp
    then have "live ?s - {i} = live ?s" "procs ?b - {i} = procs ?b" using books_D(3,6) [OF bk] by auto
    moreover have "plugins_inv p" using books_D(8) [OF bk] cb by (auto simp: plugins_inv_def)
    ultimately show ?thesis unfolding worker_inv_def using c Some
      by (intro books_gone [OF bk, of _ i])
         (simp_all add: cancel_recovery_def cb end_recovery_books [OF assms(1)] books_D(1) [OF bk] plugins_inv_release)
  qed
qed

subsection \<open>Opening\<close>

lemma free_slot: "has_free_slot s \<Longrightarrow> length (sh_panes s) < MAX_PTYS_PER_REPO"
  by (simp add: has_free_slot_def)

lemma reserved_books [simp]:
  "live (release_reserved n s) = live s" "pane_ids (release_reserved n s) = pane_ids s"
  "reported (release_reserved n s) = reported s" "sh_panes (release_reserved n s) = sh_panes s"
  by (simp_all add: release_reserved_def live_def pane_ids_def reported_def)

lemma inv_same_shared:
  assumes "worker_inv w" "pane_ids s = pane_ids (hw_shared w)" "reported s \<subseteq> reported (hw_shared w)"
  shows "worker_inv (w\<lparr>hw_shared := s\<rparr>)"
  using assms books_same [of "hw_shared w" "hw_backend w" "hw_plugins w" s "hw_backend w" "hw_plugins w"]
  by (simp add: worker_inv_def live_def books_D) (metis books_D(1,8) length_map order_refl pane_ids_def)

lemma inv_on_hub:
  "worker_inv w \<Longrightarrow> pane_ids (f (hw_shared w)) = pane_ids (hw_shared w) \<Longrightarrow> reported (f (hw_shared w)) \<subseteq> reported (hw_shared w) \<Longrightarrow>
   worker_inv (on_hub f w)"
  by (simp add: on_hub_def inv_same_shared)

lemma inv_create_pane_for:
  assumes "worker_inv w"
  shows "worker_inv (create_pane_for ser os rows cols client command w)"
proof -
  let ?s = "hw_shared w" and ?b = "hw_backend w" and ?p = "hw_plugins w"
  have bk: "books ?s ?b ?p" using assms by (simp add: worker_inv_def)
  obtain fill started now where o: "os 0 = (fill, started, now)" by (metis prod_cases3)
  obtain b r where c: "open_pane fill started now command ?b = (b, r)" by fastforce
  show ?thesis
  proof (cases "has_free_slot ?s")
    case False
    then show ?thesis using assms by (simp add: create_pane_for_def inv_on_hub)
  next
    case free: True
    show ?thesis
    proof (cases r)
      case (Inl e)
      then have "b = ?b" using c open_failed by simp
      then have "w\<lparr>hw_backend := b\<rparr> = w" by simp
      with free o c Inl show ?thesis using assms by (simp add: create_pane_for_def inv_on_hub)
    next
      case (Inr i)
      note ob = open_books [OF c [unfolded Inr]]
      show ?thesis unfolding worker_inv_def
        by (rule books_opened [OF bk free_slot [OF free] ob(1)])
           (simp_all add: create_pane_for_def free o c Inr ob(2-5) books_D(8) [OF bk] subset_insertI)
    qed
  qed
qed

lemma inv_open_startup_pane:
  assumes "worker_inv w" "has_free_slot (hw_shared w)"
  shows "worker_inv (open_startup_pane ser env o1 client pane w)"
proof -
  let ?s = "hw_shared w" and ?b = "hw_backend w" and ?p = "hw_plugins w"
  have bk: "books ?s ?b ?p" using assms by (simp add: worker_inv_def)
  obtain fill started now where o: "o1 = (fill, started, now)" by (metis prod_cases3)
  obtain b r where c: "open_pane fill started now (su_command pane) ?b = (b, r)" by fastforce
  show ?thesis
  proof (cases r)
    case (Inl e)
    then have "b = ?b" using c open_failed by simp
    then have "w\<lparr>hw_backend := b\<rparr> = w" by simp
    with o c Inl show ?thesis using assms by (simp add: open_startup_pane_def inv_on_hub)
  next
    case (Inr i)
    note ob = open_books [OF c [unfolded Inr]] and d = books_D(8) [OF bk]
    show ?thesis
    proof (cases "su_plugin pane")
      case None
      then show ?thesis unfolding worker_inv_def
        by (intro books_opened [OF bk free_slot [OF assms(2)] ob(1)])
           (simp_all add: open_startup_pane_def o c Inr ob(2-5) d subset_insertI)
    next
      case (Some name)
      obtain p' ok where a: "adopt i name ?p = (p', ok)" by fastforce
      note ab = adopt_books [OF a]
      have w: "watched ?p \<subseteq> watched p'" "watched p' \<subseteq> insert i (watched ?p)" using ab(5) by (auto simp: watched_owner)
      show ?thesis unfolding worker_inv_def
        by (intro books_opened [OF bk free_slot [OF assms(2)] ob(1)]; cases ok)
           (simp_all add: open_startup_pane_def o c Inr Some a ob(2-5) w ab(2) plugins_inv_adopt [OF d a])
    qed
  qed
qed

lemma inv_open_startup_panes: "worker_inv w \<Longrightarrow> worker_inv (open_startup_panes ser env os n client reserved panes w)"
proof (induction panes arbitrary: n reserved w)
  case (Cons pane rest)
  let ?w = "if reserved > 0 then on_hub (release_reserved 1) w else w"
  have w: "worker_inv ?w" using Cons(2) by (simp add: inv_on_hub)
  show ?case
  proof (cases "has_free_slot (hw_shared ?w)")
    case True
    from Cons(1) [OF inv_open_startup_pane [OF w True]] True show ?thesis by (simp split: if_splits)
  next
    case False
    with w show ?thesis by (simp add: inv_on_hub split: if_splits)
  qed
qed (simp add: inv_on_hub)

subsection \<open>Output, input and notices\<close>

lemma inv_change:
  assumes "worker_inv w" "procs b = procs (hw_backend w)" "slotted b = slotted (hw_backend w)" "pb_next b = pb_next (hw_backend w)"
    "plugins_inv p" "watched p = watched (hw_plugins w)" "held p = held (hw_plugins w)"
  shows "worker_inv (w\<lparr>hw_backend := b, hw_plugins := p\<rparr>)"
  using assms books_same [of "hw_shared w" "hw_backend w" "hw_plugins w" "hw_shared w" b p] by (simp add: worker_inv_def books_D(1))

lemma inv_on_backend:
  "worker_inv w \<Longrightarrow> procs (f (hw_backend w)) = procs (hw_backend w) \<Longrightarrow> slotted (f (hw_backend w)) = slotted (hw_backend w) \<Longrightarrow>
   pb_next (f (hw_backend w)) = pb_next (hw_backend w) \<Longrightarrow> worker_inv (on_backend f w)"
  using inv_change [of w "f (hw_backend w)" "hw_plugins w"]
  by (simp add: on_backend_def worker_inv_def books_D(8))

lemma inv_on_plugins:
  "worker_inv w \<Longrightarrow> plugins_inv (f (hw_backend w) (hw_plugins w)) \<Longrightarrow>
   watched (f (hw_backend w) (hw_plugins w)) = watched (hw_plugins w) \<Longrightarrow>
   held (f (hw_backend w) (hw_plugins w)) = held (hw_plugins w) \<Longrightarrow> worker_inv (on_plugins f w)"
  using inv_change [of w "hw_backend w" "f (hw_backend w) (hw_plugins w)"]
  by (simp add: on_plugins_def worker_inv_def)

lemma worker_inv_D: "worker_inv w \<Longrightarrow> books (hw_shared w) (hw_backend w) (hw_plugins w)" "worker_inv w \<Longrightarrow> plugins_inv (hw_plugins w)"
  by (simp_all add: worker_inv_def books_D(8))

lemma inv_backend_update:
  "worker_inv w \<Longrightarrow> procs b = procs (hw_backend w) \<Longrightarrow> slotted b = slotted (hw_backend w) \<Longrightarrow> pb_next b = pb_next (hw_backend w) \<Longrightarrow>
   worker_inv (w\<lparr>hw_backend := b\<rparr>)"
  using inv_on_backend [of w "\<lambda>_. b"] by (simp add: on_backend_def)

lemma inv_input_pane:
  assumes "worker_inv w"
  shows "worker_inv (input_pane ser env i data client w)"
proof -
  let ?w = "on_plugins (\<lambda>b. user_input env b i) w"
  obtain b r where s: "send_input i data (hw_backend w) = (b, r)" by fastforce
  have "worker_inv ?w" using assms worker_inv_D(2) [OF assms] by (simp add: inv_on_plugins)
  then have "worker_inv (?w\<lparr>hw_backend := b\<rparr>)"
    using send_input_books [of i data "hw_backend w"] s by (simp add: inv_backend_update)
  with assms s show ?thesis by (cases r) (simp_all add: input_pane_def Let_def inv_on_hub)
qed

lemma plugins_inv_output: "plugins_inv p \<Longrightarrow> plugins_inv (pane_output env b i data p)"
  using pane_output_books(5) [of env b i data p] unfolding plugins_inv_def pane_output_books(1-4) by (meson subset_trans)

lemma inv_backend_events: "ser_total ser \<Longrightarrow> worker_inv w \<Longrightarrow> worker_inv (backend_events ser env now evs w)"
  by (induction ser env now evs w rule: backend_events.induct)
     (simp_all add: inv_pane_ended inv_on_plugins plugins_inv_output worker_inv_D(2))

lemma inv_drain_pass:
  assumes "ser_total ser" "worker_inv w"
  shows "worker_inv (drain_pass ser env now later w)"
proof -
  obtain b evs where d: "drain_queued True now (hw_backend w) = (b, evs)" by fastforce
  then have "worker_inv (w\<lparr>hw_backend := b\<rparr>)"
    using drain_queued_books [of True now "hw_backend w"] assms(2) by (simp add: inv_backend_update)
  with d inv_backend_events [OF assms(1)] show ?thesis by (simp add: drain_pass_def)
qed

lemma inv_noticed: "worker_inv (w\<lparr>hw_shared := fst r\<rparr>) \<Longrightarrow> worker_inv (noticed r w)"
  by (simp add: worker_inv_def)

lemma inv_attention: "worker_inv w \<Longrightarrow> worker_inv (noticed (broadcast_attention ser i m (hw_shared w)) w)"
  by (intro inv_noticed inv_same_shared) simp_all

lemma inv_notify: "worker_inv w \<Longrightarrow> worker_inv (fst (notify_by_token ser token message w))"
  by (simp add: notify_by_token_def inv_attention split: option.split)

lemma inv_reorder: "worker_inv w \<Longrightarrow> worker_inv (on_hub (reorder_panes ser order) w)"
  using reorder_books [of "hw_shared w" ser order]
  by (simp add: worker_inv_def) (rule books_same [of "hw_shared w" "hw_backend w" "hw_plugins w"]; simp add: books_D(1,8))

subsection \<open>Plugin commands\<close>

text \<open>What an approved command says of the pane it is about.\<close>

lemma facts_for_Some:
  "facts_for plugin b now p token = Some f \<Longrightarrow>
     pane_for_token b token = Some (pf_pane f) \<and> (pf_opted_in f \<longleftrightarrow> owner (pf_pane f) p = Some plugin)
     \<and> (pf_alive f \<longleftrightarrow> pf_pane f \<in> procs b)
     \<and> (\<exists>slot. backend_slot b (pf_pane f) = Some slot \<and> pf_idle f = idle_for slot now
          \<and> pf_launch_command f = slot_command slot \<and> pf_generation f = id_generation (slot_identity slot))"
  by (auto simp: facts_for_def is_process_alive_def procs_def split: option.splits)

lemma judged_owner:
  assumes "plugins_judge plugin command b now p = (p', Inr ok)"
  shows "approved_pane ok = Some i \<Longrightarrow> (\<forall>j. ok \<noteq> OkWatchPane j) \<Longrightarrow> owner i p = Some plugin"
    "ok = OkWatchPane i \<Longrightarrow> i \<in> procs b"
  using assms
  by (cases command;
      auto simp: plugins_judge_def Let_def with_facts_Inr pane_facts_rule_Inr judge_send_input_Inr judge_relaunch_Inr
        judge_watch_def facts_for_Some dest!: facts_for_Some split: prod.splits option.splits if_splits)+

lemma relaunch_books:
  assumes "relaunch_pane started now i args allowed b = (b', r)" "i \<notin> procs b"
  shows "r = Inr new \<Longrightarrow> new = pb_next b" "r = Inr new \<Longrightarrow> procs b' = insert new (procs b)"
    "r = Inr new \<Longrightarrow> slotted b' = insert new (slotted b - {i})" "r = Inr new \<Longrightarrow> new < pb_next b'"
    "r = Inr new \<Longrightarrow> j < new \<Longrightarrow> j < pb_next b'"
    "r = Inl e \<Longrightarrow> procs b' = procs b" "r = Inl e \<Longrightarrow> slotted b - {i} \<subseteq> slotted b'" "r = Inl e \<Longrightarrow> slotted b' \<subseteq> slotted b"
    "r = Inl e \<Longrightarrow> pb_next b' = pb_next b"
proof -
  let ?b = "b\<lparr>pb_panes := bt_remove i (pb_panes b), pb_slots := slots_remove i (pb_slots b)\<rparr>"
  have cut: "procs ?b = procs b" "slotted ?b = slotted b - {i}" "pb_next ?b = pb_next b"
    using assms(2) by (auto simp: procs_def slotted_def slots_remove_def dom_bt_remove simp del: domIff)
  have "(\<exists>line ident cmd. spawn_pane started now (Some line) ident cmd ?b = (b', r)) \<or> (b' = b \<and> isl r)"
    using assms(1) by (auto simp: relaunch_pane_def split: option.splits sum.splits)
  then consider (spawn) line ident cmd where "spawn_pane started now (Some line) ident cmd ?b = (b', r)"
    | (refused) "b' = b" "isl r" by blast
  then have all: "(\<forall>new. r = Inr new \<longrightarrow> new = pb_next b \<and> procs b' = insert new (procs b) \<and> slotted b' = insert new (slotted b - {i})
      \<and> new < pb_next b' \<and> (\<forall>j. j < new \<longrightarrow> j < pb_next b'))
    \<and> (isl r \<longrightarrow> procs b' = procs b \<and> slotted b - {i} \<subseteq> slotted b' \<and> slotted b' \<subseteq> slotted b \<and> pb_next b' = pb_next b)"
  proof cases
    case spawn
    show ?thesis
    proof (cases r)
      case (Inl e)
      then have "b' = ?b" using spawn spawn_failed by blast
      with Inl cut show ?thesis by auto
    next
      case (Inr n)
      note s = spawn_books [OF spawn [unfolded Inr], unfolded cut]
      have "\<forall>j. j < n \<longrightarrow> j < pb_next b'" using s(5) by blast
      with Inr s(1-4) show ?thesis by simp
    qed
  next
    case refused
    then show ?thesis by auto
  qed
  show "r = Inr new \<Longrightarrow> new = pb_next b" "r = Inr new \<Longrightarrow> procs b' = insert new (procs b)"
    "r = Inr new \<Longrightarrow> slotted b' = insert new (slotted b - {i})" "r = Inr new \<Longrightarrow> new < pb_next b'"
    "r = Inr new \<Longrightarrow> j < new \<Longrightarrow> j < pb_next b'"
    using conjunct1 [OF all] by blast+
  show "r = Inl e \<Longrightarrow> procs b' = procs b" "r = Inl e \<Longrightarrow> slotted b - {i} \<subseteq> slotted b'" "r = Inl e \<Longrightarrow> slotted b' \<subseteq> slotted b"
    "r = Inl e \<Longrightarrow> pb_next b' = pb_next b"
    using conjunct2 [OF all] by simp_all
qed

lemma books_relaunched:
  assumes "books s b p" "length (sh_panes s) < MAX_PTYS_PER_REPO" "old \<in> held p" "new = pb_next b"
    "distinct (pane_ids s')" "live s' = insert new (live s)" "length (sh_panes s') = Suc (length (sh_panes s))"
    "reported s' = reported s - {old}" "procs b' = insert new (procs b)" "slotted b' = insert new (slotted b - {old})"
    "new < pb_next b'" "\<And>j. j < new \<Longrightarrow> j < pb_next b'" "plugins_inv p'" "watched p' = insert new (watched p - {old})" "held p' = held p - {old}"
  shows "books s' b' p'"
proof (rule books_I, unfold assms(6,8-10,14,15))
  note d = books_D [OF assms(1)]
  have new: "new \<notin> held p" using d(11) [of new] assms(4) by auto
  show "length (sh_panes s') \<le> MAX_PTYS_PER_REPO" using assms(2,7) by simp
  show "insert new (procs b) = insert new (live s)" by (simp add: d(3))
  show "insert new (live s) \<subseteq> insert new (slotted b - {old})" using d(4,6) assms(3) by auto
  show "insert new (slotted b - {old}) \<subseteq> insert new (live s) \<union> (held p - {old})" using d(5) by auto
  show "(held p - {old}) \<inter> insert new (live s) = {}" using d(6) new by auto
  show "insert new (watched p - {old}) \<subseteq> insert new (live s) \<union> (held p - {old})" using d(7) by auto
  show "reported s - {old} \<subseteq> insert new (watched p - {old})" using d(9) by auto
  show "j < pb_next b'" if "j \<in> insert new (live s) \<union> (held p - {old})" for j
    using that d(10,11) [of j] assms(4,11) assms(12) [of j] by auto
qed (fact assms(5,13))+

lemma inv_relaunch:
  assumes "ser_total ser" "worker_inv w"
  shows "worker_inv (relaunch_for_plugin ser env o1 plugin i args w)"
proof -
  let ?s = "hw_shared w" and ?b = "hw_backend w" and ?p = "hw_plugins w"
  have bk: "books ?s ?b ?p" using assms(2) by (simp add: worker_inv_def)
  note d = books_D [OF bk]
  obtain p r where c: "claim_pending i ?p = (p, r)" by fastforce
  note cb = claim_books [OF c]
  show ?thesis
  proof (cases r)
    case None
    with c assms(2) show ?thesis by (simp add: relaunch_for_plugin_def)
  next
    case (Some h)
    have i: "i \<in> held ?p" "i \<notin> procs ?b" "insert i (held ?p) = held ?p" "i \<in> watched p" using cb(1,3) Some d(3,6,12) by auto
    have pi: "plugins_inv p" using d(8) cb(2-6) unfolding plugins_inv_def by auto
    have restored: "books ?s b (restore_pending i h p)"
      if "procs b = procs ?b" "slotted ?b - {i} \<subseteq> slotted b" "slotted b \<subseteq> slotted ?b" "pb_next b = pb_next ?b" for b
    proof (rule books_I)
      show "procs b = live ?s" using that(1) d(3) by simp
      show "live ?s \<subseteq> slotted b" using that(2) d(4,6) i(1) by auto
      show "slotted b \<subseteq> live ?s \<union> held (restore_pending i h p)" using that(3) d(5) i(1) cb(2) by auto
      show "plugins_inv (restore_pending i h p)" using pi i(4) by (simp add: plugins_inv_def)
      show "j < pb_next b" if "j \<in> live ?s \<union> held (restore_pending i h p)" for j
        using that \<open>pb_next b = pb_next ?b\<close> d(10,11) [of j] i(1) cb(2) by auto
    qed (use d i cb(2,3) in auto)
    let ?allowed = "case map_of (pl_flags p) plugin of None \<Rightarrow> [] | Some flags \<Rightarrow> flags"
    obtain b q where rl: "relaunch_pane (fst o1) (snd o1) i args ?allowed ?b = (b, q)" by fastforce
    note rb = relaunch_books [OF rl i(2)]
    consider (full) "\<not> has_free_slot ?s" | (failed) e where "has_free_slot ?s" "q = Inl e" | (ok) new where "has_free_slot ?s" "q = Inr new"
      by (metis sum.exhaust)
    then show ?thesis
    proof cases
      case full
      with c Some restored [of ?b] show ?thesis by (simp add: relaunch_for_plugin_def worker_inv_def)
    next
      case failed
      with c Some rl restored [OF rb(6-9) [OF failed(2)]] show ?thesis
        by (simp add: relaunch_for_plugin_def worker_inv_def Let_def)
    next
      case ok
      note to = take_over_books [OF i(4), of new]
      have pt: "plugins_inv (take_over i new p)" using pi to cb(2) unfolding plugins_inv_def by auto
      have fresh: "new \<notin> set (pane_ids ?s)" using d(10) [of new] rb(1) [OF ok(2)] by (auto simp: live_def)
      show ?thesis unfolding worker_inv_def using fresh
        by (intro books_relaunched [OF bk free_slot [OF ok(1)] i(1) rb(1) [OF ok(2)]])
           (simp_all add: relaunch_for_plugin_def Let_def c Some ok rl rb(2-5) [OF ok(2)] to pt cb(2-4) end_recovery_books [OF assms(1)] d(1))
    qed
  qed
qed

lemma judge_books:
  assumes "plugins_judge plugin command b now p = (p', verdict)"
  shows "watched p' = watched p" "held p' = held p" "hosted p' = hosted p" "plugins_inv p' = plugins_inv p" "owner q p' = owner q p"
  using assms by (auto simp: plugins_judge_def Let_def plugins_inv_def split: prod.splits)

lemma inv_plugins_update:
  "worker_inv w \<Longrightarrow> plugins_inv p \<Longrightarrow> watched p = watched (hw_plugins w) \<Longrightarrow> held p = held (hw_plugins w) \<Longrightarrow>
   worker_inv (w\<lparr>hw_plugins := p\<rparr>)"
  using inv_on_plugins [of w "\<lambda>_ _. p"] by (simp add: on_plugins_def)

lemma inv_watch_pane:
  assumes "worker_inv w" "i \<in> procs (hw_backend w)"
  shows "worker_inv (watch_pane_for_plugin env plugin i w)"
proof -
  let ?s = "hw_shared w" and ?b = "hw_backend w" and ?p = "hw_plugins w"
  have bk: "books ?s ?b ?p" using assms(1) by (simp add: worker_inv_def)
  note d = books_D [OF bk]
  obtain p ok where a: "adopt i plugin ?p = (p, ok)" by fastforce
  note ab = adopt_books [OF a]
  have w: "watched ?p \<subseteq> watched p" "watched p \<subseteq> insert i (watched ?p)" using ab(5) by (auto simp: watched_owner)
  have "books ?s ?b p"
  proof (rule books_I, unfold ab(2))
    show "watched p \<subseteq> live ?s \<union> held ?p" using w(2) d(3,7) assms(2) by auto
    show "reported ?s \<subseteq> watched p" using d(9) w(1) by auto
    show "plugins_inv p" using d(8) a by (rule plugins_inv_adopt)
    show "j < pb_next ?b" if "j \<in> live ?s \<union> held ?p" for j using that d(10,11) by auto
  qed (use d in simp_all)
  then have p: "worker_inv (w\<lparr>hw_plugins := p\<rparr>)" by (simp add: worker_inv_def)
  with a show ?thesis
    by (cases ok) (simp_all add: watch_pane_for_plugin_def Let_def inv_on_plugins worker_inv_D(2) [OF p, simplified])
qed

lemma inv_status:
  assumes "ser_total ser" "worker_inv w" "i \<in> watched (hw_plugins w)"
  shows "worker_inv (noticed (broadcast_recovery ser i st detail deadline attempt (hw_shared w)) w)"
proof (rule inv_noticed)
  have bk: "books (hw_shared w) (hw_backend w) (hw_plugins w)" using assms(2) by (simp add: worker_inv_def)
  note d = books_D [OF bk]
  obtain s n where r: "broadcast_recovery ser i st detail deadline attempt (hw_shared w) = (s, n)" by fastforce
  note rb = recovery_books [OF assms(1) r]
  have "books s (hw_backend w) (hw_plugins w)"
  proof (rule books_I, unfold rb(2-4))
    show "reported s \<subseteq> watched (hw_plugins w)" using rb(1) d(9) assms(3) by (auto split: if_splits)
    show "j < pb_next (hw_backend w)" if "j \<in> live (hw_shared w) \<union> held (hw_plugins w)" for j using that d(10,11) by auto
  qed (use d in simp_all)
  with r show "worker_inv (w\<lparr>hw_shared := fst (broadcast_recovery ser i st detail deadline attempt (hw_shared w))\<rparr>)"
    by (simp add: worker_inv_def)
qed

lemma inv_dispatch_one:
  assumes "ser_total ser" "worker_inv w"
  shows "worker_inv (dispatch_one ser env now o1 pc w)"
proof -
  obtain plugin command where pc: "pc = (plugin, command)" by fastforce
  obtain p v where j: "plugins_judge plugin command (hw_backend w) now (hw_plugins w) = (p, v)" by fastforce
  note jb = judge_books [OF j]
  let ?w = "w\<lparr>hw_plugins := p\<rparr>"
  have w: "worker_inv ?w" using assms(2) worker_inv_D(2) [OF assms(2)] jb by (simp add: inv_plugins_update)
  show ?thesis
  proof (cases v)
    case (Inl e)
    with pc j w show ?thesis by (simp add: dispatch_one_def)
  next
    case (Inr ok)
    note o = judged_owner [OF j [unfolded Inr]]
    show ?thesis
    proof (cases ok)
      case (OkSendInput i data)
      with pc j Inr w show ?thesis by (simp add: dispatch_one_def inv_on_backend)
    next
      case (OkRelaunch i args line)
      with pc j Inr inv_relaunch [OF assms(1) w] show ?thesis by (simp add: dispatch_one_def)
    next
      case (OkStatus i st detail deadline attempt)
      then have "i \<in> watched p" using o(1) [of i] jb(1) by (simp add: watched_owner)
      with pc j Inr OkStatus inv_status [OF assms(1) w, of i] show ?thesis by (simp add: dispatch_one_def)
    next
      case (OkAttention i)
      with pc j Inr inv_attention [OF w] show ?thesis by (simp add: dispatch_one_def)
    next
      case (OkWatchPane i)
      with pc j Inr inv_watch_pane [OF w, of i] o(2) show ?thesis by (simp add: dispatch_one_def)
    next
      case (OkLog level message)
      with pc j Inr w show ?thesis by (simp add: dispatch_one_def)
    qed
  qed
qed

lemma inv_dispatch_each: "ser_total ser \<Longrightarrow> worker_inv w \<Longrightarrow> worker_inv (dispatch_each ser env now os n pcs w)"
  by (induction pcs arbitrary: n w) (simp_all add: inv_dispatch_one)

lemma expire_pending_out:
  assumes "expire_pending env now (b, p) = (bp, expired)"
  shows "expire_each expired (b, p) = bp" "set expired \<subseteq> held p"
proof -
  let ?f = "\<lambda>pane. case map_of (pl_pending p) pane of None \<Rightarrow> False | Some h \<Rightarrow> now \<ge> pd_deadline h"
  have e: "expired = filter ?f (env_panes env (map fst (pl_pending p)))" "bp = expire_each expired (b, p)"
    using assms by (auto simp: expire_pending_def Let_def)
  show "expire_each expired (b, p) = bp" using e(2) by simp
  show "set expired \<subseteq> held p" using e(1) by (auto simp: held_def split: option.splits)
qed

lemma inv_plugin_pass:
  assumes "ser_total ser" "env_ok env" "worker_inv w"
  shows "worker_inv (plugin_pass ser env now os w)"
proof (cases "is_inert (hw_plugins w)")
  case True
  with assms(3) show ?thesis by (simp add: plugin_pass_def)
next
  case False
  let ?w1 = "on_plugins (\<lambda>b. notify_idle env b now) w"
  have 1: "worker_inv ?w1"
    using assms(3) plugins_inv_notify_idle [OF assms(2) worker_inv_D(2) [OF assms(3)]] by (simp add: inv_on_plugins)
  obtain p taken where t: "take_commands env (hw_plugins ?w1) = (p, taken)" by fastforce
  have "worker_inv (?w1\<lparr>hw_plugins := p\<rparr>)"
    using take_commands_inv [OF worker_inv_D(2) [OF 1] t] 1 by (simp add: inv_plugins_update)
  from inv_dispatch_each [OF assms(1) this]
  have 2: "worker_inv (dispatch_plugin_commands ser env now os ?w1)" (is "worker_inv ?w2")
    using t by (simp add: dispatch_plugin_commands_def)
  note d = books_D [OF worker_inv_D(1) [OF 2]]
  obtain b q expired where e: "expire_pending env now (hw_backend ?w2, hw_plugins ?w2) = ((b, q), expired)" by (metis surj_pair)
  note x = expire_pending_out [OF e]
  have sub: "set expired \<subseteq> held (hw_plugins ?w2)" using x(2) .
  note eb = expire_each_books [OF x(1) d(8)] and sb = end_each_books [OF assms(1), of expired "hw_shared ?w2"]
  have "books (end_each ser expired (hw_shared ?w2)) b q"
  proof (rule books_I)
    show "live (end_each ser expired (hw_shared ?w2)) \<subseteq> slotted b" using eb sb d(4,6) sub by auto
    show "slotted b \<subseteq> live (end_each ser expired (hw_shared ?w2)) \<union> held q" using eb sb d(5) by auto
    show "held q \<inter> live (end_each ser expired (hw_shared ?w2)) = {}" using eb sb d(6) by auto
    show "watched q \<subseteq> live (end_each ser expired (hw_shared ?w2)) \<union> held q" using eb sb d(7) by auto
    show "reported (end_each ser expired (hw_shared ?w2)) \<subseteq> watched q" using eb sb d(9) by auto
    show "j < pb_next b" if "j \<in> live (end_each ser expired (hw_shared ?w2)) \<union> held q" for j
      using that eb sb d(10,11) [of j] by auto
  qed (use eb sb d in simp_all)
  with False e show ?thesis by (simp add: plugin_pass_def Let_def worker_inv_def)
qed

text \<open>A reload takes no new hold.\<close>

lemma held_abandon: "abandon env name (b, p, out) = (b', p', out') \<Longrightarrow> held p' \<subseteq> held p"
  by (auto simp: abandon_def Let_def split: prod.splits dest!: release_each_effect)

lemma held_stop: "stop_host env name replaced (b, p, out) = (b', p', out') \<Longrightarrow> held p' \<subseteq> held p"
  by (clarsimp simp: stop_host_def Let_def retire_holds_of_def split: prod.splits if_splits; drule retire_each_effect)
     (force simp: held_def dest!: held_abandon)+

lemma held_stop_each: "stop_each env wanted names (b, p, out) = (b', p', out') \<Longrightarrow> held p' \<subseteq> held p"
proof (induction names arbitrary: b p out)
  case (Cons name names)
  obtain b1 p1 out1 where s: "stop_host env name (list_ex (\<lambda>cfg. cfg_name cfg = name) wanted) (b, p, out) = (b1, p1, out1)"
    by (metis prod_cases3)
  with Cons(1) [of b1 p1 out1] Cons(2) held_stop [OF s] show ?case by simp
qed simp

lemma record_host_books [simp]:
  "held (record_host cfg p) = held p" "watched (record_host cfg p) = watched p" "pl_idle (record_host cfg p) = pl_idle p"
  "owner q (record_host cfg p) = owner q p"
  by (simp_all add: record_host_def held_def watched_def owner_def)

lemma held_apply: "apply_config env titles cfg (b, p, out) = (b', p', out') \<Longrightarrow> held p' \<subseteq> held p"
  by (auto simp: apply_config_def start_host_def Let_def hand_each_books split: if_splits prod.splits dest!: held_abandon)

lemma held_apply_each: "apply_each env titles cfgs (b, p, out) = (b', p', out') \<Longrightarrow> held p' \<subseteq> held p"
proof (induction cfgs arbitrary: b p out)
  case (Cons cfg cfgs)
  obtain b1 p1 out1 where s: "apply_config env titles cfg (b, p, out) = (b1, p1, out1)" by (metis prod_cases3)
  with Cons(1) [of b1 p1 out1] Cons(2) held_apply [OF s] show ?case by simp
qed simp

lemma reload_held:
  assumes "plugins_reload env configs startup titles (b, p) = (b', p', out)"
  shows "held p' \<subseteq> held p"
proof -
  let ?wanted = "filter (is_wanted startup p) configs"
  let ?leaving = "filter (\<lambda>name. name \<notin> set (map cfg_name (filter (\<lambda>cfg. \<not> spec_changed p cfg) ?wanted)))
    (env_names env (map fst (pl_hosts p)))"
  obtain b1 p1 out1 where s: "stop_each env ?wanted ?leaving
    (b, p, \<lparr>re_started = [], re_stopped = [], re_restarted = [], re_retired = [], re_released = []\<rparr>) = (b1, p1, out1)"
    by (metis prod_cases3)
  then have "apply_each env titles ?wanted (b1, p1, out1) = (b', p', out)" using assms by (simp add: plugins_reload_def Let_def)
  with held_stop_each [OF s] held_apply_each show ?thesis by blast
qed

lemma inv_reload:
  assumes "ser_total ser" "env_ok env" "worker_inv w"
  shows "worker_inv (reload_hub_plugins ser env startup configs w)"
proof -
  let ?s = "hw_shared w" and ?b = "hw_backend w" and ?p = "hw_plugins w"
  let ?titles = "map (\<lambda>p. (pn_id p, pn_title p)) (sh_panes ?s)"
  note d = books_D [OF worker_inv_D(1) [OF assms(3)]]
  obtain b p out where r: "plugins_reload env configs startup ?titles (?b, ?p) = (b, p, out)" by (metis prod_cases3)
  have "dom (map_of ?titles) = live ?s" by (simp add: dom_map_of_conv_image_fst live_panes image_image)
  from reload_books [OF assms(2) this d(8) d(7,6,4,5,9) r]
  have rb: "reload_inv (live ?s) (reported ?s) {} (b, p, out)" "procs b = procs ?b" "pb_next b = pb_next ?b" by simp_all
  from rb(1) have i: "held p \<subseteq> watched p" "watched p \<subseteq> live ?s \<union> held p" "set (pl_idle p) \<subseteq> watched p" "held p \<inter> live ?s = {}"
    "live ?s \<subseteq> slotted b" "slotted b \<subseteq> live ?s \<union> held p" "reported ?s \<subseteq> watched p \<union> set (re_retired out) \<union> set (re_released out)"
    "owners_of p \<subseteq> hosted p" by (simp_all add: reload_inv_def)
  let ?s1 = "end_each ser (re_retired out) ?s"
  let ?s2 = "end_each_reported ser (re_released out) ?s1"
  have sb: "live ?s2 = live ?s" "pane_ids ?s2 = pane_ids ?s" "sh_panes ?s2 = sh_panes ?s"
    "reported ?s2 = reported ?s - set (re_retired out) - set (re_released out)"
    using end_each_books [OF assms(1), of "re_retired out" ?s] end_each_reported_books [OF assms(1), of "re_released out" ?s1]
    by simp_all
  have "books ?s2 b p"
  proof (rule books_I, unfold sb rb(2,3))
    show "reported ?s - set (re_retired out) - set (re_released out) \<subseteq> watched p" using i(7) by auto
    show "plugins_inv p" using i by (simp add: plugins_inv_def)
    show "j < pb_next ?b" if "j \<in> live ?s \<union> held p" for j
      using that reload_held [OF r] d(10,11) [of j] by auto
  qed (use d i in simp_all)
  with r show ?thesis by (simp add: reload_hub_plugins_def Let_def worker_inv_def)
qed

section \<open>Runs\<close>

lemma host_pump_books [simp]:
  "watched (write_event n p) = watched p" "held (write_event n p) = held p" "hosted (write_event n p) = hosted p"
  "watched (read_command n c p) = watched p" "held (read_command n c p) = held p" "hosted (read_command n c p) = hosted p"
  "owners_of (write_event n p) = owners_of p" "owners_of (read_command n c p) = owners_of p"
  "pl_idle (write_event n p) = pl_idle p" "pl_idle (read_command n c p) = pl_idle p"
  by (simp_all add: write_event_def read_command_def watched_def held_def hosted_def owners_of_def hosted_update split: option.split)

lemma inv_host_pump:
  "worker_inv w \<Longrightarrow> worker_inv (on_plugins (\<lambda>_. write_event n) w)"
  "worker_inv w \<Longrightarrow> worker_inv (on_plugins (\<lambda>_. read_command n c) w)"
proof -
  have "plugins_inv (write_event n p) = plugins_inv p" "plugins_inv (read_command n c p) = plugins_inv p" for p
    by (simp_all add: plugins_inv_def)
  then show "worker_inv w \<Longrightarrow> worker_inv (on_plugins (\<lambda>_. write_event n) w)"
    "worker_inv w \<Longrightarrow> worker_inv (on_plugins (\<lambda>_. read_command n c) w)"
    by (simp_all add: inv_on_plugins worker_inv_D(2))
qed

fun event_ok :: "hub_worker \<Rightarrow> plugin_env \<times> worker_event \<Rightarrow> bool" where
  "event_ok w (env, e) = env_ok env"

lemma worker_step_inv:
  assumes "ser_total ser" "worker_inv w" "event_ok w e"
  shows "worker_inv (worker_step ser startup w e)"
proof -
  obtain env ev where e: "e = (env, ev)" by fastforce
  with assms(3) have env: "env_ok env" by simp
  show ?thesis using assms(1,2) env unfolding e
    by (cases ev) (simp_all add: inv_close_pane inv_create_pane_for inv_open_startup_panes inv_input_pane inv_reorder
      inv_cancel_recovery inv_reload inv_notify inv_on_backend inv_drain_pass inv_plugin_pass inv_host_pump)
qed

lemma start_each_books:
  "watched (start_each env startup cfgs p) = watched p \<and> held (start_each env startup cfgs p) = held p
   \<and> pl_idle (start_each env startup cfgs p) = pl_idle p \<and> owners_of (start_each env startup cfgs p) = owners_of p"
  by (induction cfgs arbitrary: p) (simp_all add: Let_def watched_owner(2))

lemma worker_new_inv: "worker_inv (worker_new env cwd configs startup)"
  unfolding worker_inv_def worker_new_def plugins_start_def
  by (rule books_I)
     (simp_all add: start_each_books plugins_inv_def,
      simp_all add: shared_new_def backend_new_def pane_ids_def live_def reported_def watched_def held_def owners_of_def procs_def
        slotted_def)

interpretation worker: event_machine "\<lambda>w e. ser_total ser \<and> event_ok w e" "worker_step ser startup" worker_inv
  for ser :: "server_message \<Rightarrow> rstring option" and startup
  by unfold_locales (auto intro: worker_step_inv)

lemma worker_run_inv:
  assumes "ser_total ser" "list_all (env_ok \<circ> fst) events"
  shows "worker_inv (run (worker_step ser startup) (worker_new env cwd configs startup) events)"
proof (rule worker.run_inv [OF worker_new_inv])
  show "run_ok (\<lambda>w e. ser_total ser \<and> event_ok w e) (worker_step ser startup) w events" for w
    using assms by (induction events arbitrary: w) auto
qed

end
