(* ===== verification/Worker_Properties.thy ===== *)
theory Worker_Properties
  imports Worker_Safety
begin

text \<open>
  What the worker promises: its books agree at every moment, a plugin types only into a quiet pane it was given, a relaunch
  puts a process of the next generation into the held slot, and two places where the code does less than it says.
\<close>

section \<open>A sample run\<close>

text \<open>A run in which a watched pane opens, its shell ends, and the pane is held for its plugin.\<close>

definition sample_env :: plugin_env where
  "sample_env = \<lparr>env_encode = (\<lambda>_. Some []), env_launches = (\<lambda>_. True), env_panes = rev, env_names = rev\<rparr>"

definition sample_os :: os where
  "sample_os n = (Some (replicate 16 7), True, 0)"

definition sample_plugin :: plugin_config where
  "sample_plugin = \<lparr>cfg_name = [112], cfg_command = [112], cfg_args = [], cfg_env = [], cfg_flags = [], cfg_enabled = True,
     cfg_watch = True\<rparr>"

definition sample_pane :: startup_pane where
  "sample_pane = \<lparr>su_size = \<lparr>ps_rows = 24, ps_cols = 80\<rparr>, su_command = Some [99], su_title = None, su_plugin = Some [112]\<rparr>"

definition sample_worker_events :: "(plugin_env \<times> worker_event) list" where
  "sample_worker_events =
     [(sample_env, WStartup sample_os [sample_pane] 0 0), (sample_env, WSends 1 PtyExited), (sample_env, WDrain 0 0)]"

definition sample_worker :: hub_worker where
  "sample_worker = run (worker_step (\<lambda>_. Some []) []) (worker_new sample_env [] [sample_plugin] []) sample_worker_events"

lemma drain_loop_exit:
  "pp_rx p = PtyExited # rest \<Longrightarrow> drain_loop 64 now i p slots =
     (64, p\<lparr>pp_rx := rest, pp_exit := Reported\<rparr>, slots, if pp_exit p \<noteq> Reported then [BeExited i] else [])"
  using drain_loop.simps(2) [of 63 now i p slots] by simp

lemmas worker_eval = worker_new_def plugins_start_def shared_new_def backend_new_def on_hub_def on_backend_def on_plugins_def
  has_free_slot_def MAX_PTYS_PER_REPO_def open_startup_pane_def open_pane_def pane_identity_new_def pane_token_new_def spawn_pane_def
  slots_insert_def register_pane_def announce_all_def broadcast_locked_def pane_new_def pty_sends_def Let_def pane_started_def
  clear_zoom_locked_def pane_ids_def release_reserved_def adopt_def record_host_def opted_in_def pane_opened_def send_for_def owner_def
  backend_slot_def slots_get_def drain_pass_def drain_queued_def drain_pane_def PER_PANE_DRAIN_BUDGET_def open_window_def
  pane_ended_def pane_spot_of_def extract_def is_relaunchable_def host_send_def encode_event_def host_new_def try_send_def
  OUTBOUND_QUEUE_DEPTH_def MAX_LINE_BYTES_def hold_for_relaunch_def release_process_def pane_exited_def remove_pane_and_announce_def
  pane_live_def drain_loop_exit

lemma sample_worker_eval:
  "sample_worker =
     \<lparr>hw_shared = shared_new,
      hw_backend = \<lparr>pb_panes = [], pb_slots = [(1, \<lparr>slot_identity = \<lparr>id_token = PaneToken (hex_of_bytes (replicate 16 7)), id_generation = 1\<rparr>,
        slot_command = Some [99], slot_last_output = 0\<rparr>)], pb_next = 2, pb_created = []\<rparr>,
      hw_plugins = \<lparr>pl_hosts = [([112], \<lparr>ho_events = Some \<lparr>ch_queue = [[], []], ch_cap = 256, ch_open = True\<rparr>,
          ho_commands = [], ho_dropped = 0, ho_shut = False\<rparr>)],
        pl_launched = [([112], sample_plugin)], pl_owners = [(1, [112])], pl_intended = [(1, [112])],
        pl_flags = [([112], [])], pl_watch = [[112]], pl_guard = guard_new PANE_IDLE_THRESHOLD default_rate_limits,
        pl_pending = [(1, \<lparr>pd_spot = \<lparr>sp_index = 0, sp_rows = 24, sp_cols = 80, sp_title = None\<rparr>,
          pd_deadline = PENDING_RELAUNCH_TTL\<rparr>)],
        pl_idle = [], pl_cwd = [], pl_capped = False\<rparr>,
      hw_notices = []\<rparr>"
  by (simp add: sample_worker_def sample_worker_events_def sample_env_def sample_os_def sample_plugin_def sample_pane_def worker_eval
      FIRST_GENERATION_def bt_remove_def)

lemma sample_env_ok: "ser_total (\<lambda>_. Some [])" "list_all (env_ok \<circ> fst) sample_worker_events" "env_ok sample_env"
  by (simp_all add: ser_total_def sample_worker_events_def env_ok_def sample_env_def)

text \<open>The same pane while its shell still runs, and the token it carries.\<close>

definition sample_opened :: hub_worker where
  "sample_opened =
     run (worker_step (\<lambda>_. Some []) []) (worker_new sample_env [] [sample_plugin] []) [(sample_env, WStartup sample_os [sample_pane] 0 0)]"

definition sample_token :: pane_token where
  "sample_token = PaneToken (hex_of_bytes (replicate 16 7))"

lemmas guard_eval = dispatch_one_def plugins_judge_def facts_for_def pane_for_token_def find_by_token_def bt_find_def with_facts_def
  pane_facts_rule_def FIRST_GENERATION_def is_process_alive_def idle_for_def judge_send_input_def guard_new_def
  PANE_IDLE_THRESHOLD_def MAX_INPUT_BYTES_def is_forbidden_control_def charged_def spend_def try_spend_def charge_def
  default_rate_limits_def DEFAULT_RATE_WINDOW_def DEFAULT_MAX_SENDS_def DEFAULT_MAX_RELAUNCHES_def limit_of_def stamps_of_def
  set_stamps_def budget_default_def from_secs_def send_input_def enqueue_def input_new_def INPUT_MESSAGE_LIMIT_def
  INPUT_BYTE_LIMIT_def str_bytes_def is_control_def char_len_def utf8_bytes_def

lemmas sample_eval = sample_opened_def sample_env_def sample_os_def sample_plugin_def sample_pane_def sample_token_def worker_eval

section \<open>The books agree\<close>

text \<open>
  \<^bold>\<open>C1\<close>. However clients, shells, plugins and the configuration behave, the books of a hub agree at every moment of its life:
  no two panes share an id and there are never more than the limit; the panes the clients see are exactly those with a process,
  and each of them has its slot; a slot without a process is of a pane a plugin holds, which the clients do not see; every pane a
  plugin watches is live or held and that plugin runs; a recovery shown to the clients is always of a watched pane.
\<close>

theorem worker_books:
  assumes "ser_total ser" "list_all (env_ok \<circ> fst) events"
    "run (worker_step ser startup) (worker_new env cwd configs startup) events = w"
  shows "distinct (pane_ids (hw_shared w)) \<and> length (pane_ids (hw_shared w)) \<le> MAX_PTYS_PER_REPO
    \<and> (\<forall>i. (is_process_alive (hw_backend w) i \<longleftrightarrow> pane_live i (hw_shared w))
         \<and> (pane_live i (hw_shared w) \<longrightarrow> backend_slot (hw_backend w) i \<noteq> None)
         \<and> (backend_slot (hw_backend w) i \<noteq> None \<longrightarrow> pane_live i (hw_shared w) \<or> map_of (pl_pending (hw_plugins w)) i \<noteq> None)
         \<and> (map_of (pl_pending (hw_plugins w)) i \<noteq> None \<longrightarrow> \<not> pane_live i (hw_shared w) \<and> owner i (hw_plugins w) \<noteq> None)
         \<and> (map_of (sh_recovery (hw_shared w)) i \<noteq> None \<longrightarrow> owner i (hw_plugins w) \<noteq> None)
         \<and> (\<forall>name. owner i (hw_plugins w) = Some name \<longrightarrow>
               (pane_live i (hw_shared w) \<or> map_of (pl_pending (hw_plugins w)) i \<noteq> None)
               \<and> map_of (pl_hosts (hw_plugins w)) name \<noteq> None))"
proof -
  have "books (hw_shared w) (hw_backend w) (hw_plugins w)"
    using worker_run_inv [OF assms(1,2), of startup env cwd configs] assms(3) by (simp add: worker_inv_def)
  note d = books_D [OF this]
  have "length (pane_ids (hw_shared w)) \<le> MAX_PTYS_PER_REPO" using d(2) by (simp add: pane_ids_def)
  moreover have "is_process_alive (hw_backend w) i \<longleftrightarrow> pane_live i (hw_shared w)" for i
    using d(3) by (auto simp: is_process_alive_def procs_def live_panes(2) simp del: domIff)
  moreover have "pane_live i (hw_shared w) \<longrightarrow> backend_slot (hw_backend w) i \<noteq> None" for i
    using d(4) by (auto simp: live_panes(2) backend_slot_def slots_get_def slotted_def)
  moreover have "backend_slot (hw_backend w) i \<noteq> None \<longrightarrow> pane_live i (hw_shared w) \<or> map_of (pl_pending (hw_plugins w)) i \<noteq> None" for i
    using d(5) by (auto simp: live_panes(2) backend_slot_def slots_get_def slotted_def held_def)
  moreover have "map_of (pl_pending (hw_plugins w)) i \<noteq> None \<longrightarrow> \<not> pane_live i (hw_shared w) \<and> owner i (hw_plugins w) \<noteq> None" for i
    using d(6,12) by (auto simp: live_panes(2) held_def watched_owner)
  moreover have "map_of (sh_recovery (hw_shared w)) i \<noteq> None \<longrightarrow> owner i (hw_plugins w) \<noteq> None" for i
    using d(9) by (auto simp: reported_def watched_owner)
  moreover have "owner i (hw_plugins w) = Some name \<longrightarrow>
      (pane_live i (hw_shared w) \<or> map_of (pl_pending (hw_plugins w)) i \<noteq> None) \<and> map_of (pl_hosts (hw_plugins w)) name \<noteq> None" for i name
    using d(7,8) by (auto simp: live_panes(2) held_def watched_owner plugins_inv_def hosted_def)
  ultimately show ?thesis using d(1) by blast
qed

theorem worker_books_witness:
  "\<not> pane_live 1 (hw_shared sample_worker) \<and> map_of (pl_pending (hw_plugins sample_worker)) 1 \<noteq> None
   \<and> owner 1 (hw_plugins sample_worker) = Some [112] \<and> map_of (pl_hosts (hw_plugins sample_worker)) [112] \<noteq> None"
proof -
  have "map_of (pl_pending (hw_plugins sample_worker)) 1 \<noteq> None" "owner 1 (hw_plugins sample_worker) = Some [112]"
    by (simp_all add: sample_worker_eval owner_def)
  with worker_books [OF sample_env_ok(1,2) sample_worker_def [symmetric]] show ?thesis by blast
qed

section \<open>What a plugin types\<close>

lemma judged_send:
  assumes "plugins_judge plugin command b now p = (p', Inr (OkSendInput i bytes))"
  obtains v token gen data slot where "command = SendInput v token gen data" "bytes = str_bytes data"
    "pane_for_token b token = Some i" "owner i p = Some plugin" "backend_slot b i = Some slot"
    "gen = id_generation (slot_identity slot)" "g_min_idle (pl_guard p) \<le> idle_for slot now"
    "str_len data \<le> MAX_INPUT_BYTES" "\<not> list_ex is_forbidden_control data"
  using assms
  by (cases command)
     (auto simp: plugins_judge_def Let_def with_facts_Inr pane_facts_rule_Inr judge_send_input_Inr judge_relaunch_Inr judge_watch_def
        dest!: facts_for_Some split: prod.splits option.splits if_splits)

lemma lookup_bt_insert: "map_of (bt_insert k v m) i = (if i = k then Some v else map_of m i)"
  by (induction k v m rule: bt_insert.induct) auto

lemma relaunch_panes:
  assumes "worker_inv w" "map_of (pb_panes (hw_backend w)) i = Some q"
    "map_of (pb_panes (hw_backend (relaunch_for_plugin ser env o1 plugin pane args w))) i = Some q'"
  shows "q' = q"
proof -
  have "i \<noteq> pb_next (hw_backend w)"
    using books_D(3) [OF worker_inv_D(1) [OF assms(1)]] books_D(10) [OF worker_inv_D(1) [OF assms(1)], of i] assms(2)
    by (auto simp: procs_def)
  then show ?thesis using assms(2,3)
    by (auto simp: relaunch_for_plugin_def relaunch_pane_def spawn_pane_def Let_def lookup_bt_insert map_of_bt_remove
        split: prod.splits option.splits sum.splits if_splits)
qed

lemma watch_backend: "hw_backend (watch_pane_for_plugin env plugin i w) = hw_backend w"
  by (simp add: watch_pane_for_plugin_def Let_def split: prod.split bool.split)



section \<open>Relaunches\<close>

lemma pane_spot_member:
  assumes "distinct (pane_ids s)" "p \<in> set (sh_panes s)"
  shows "map_option (\<lambda>s. (sp_rows s, sp_cols s, sp_title s)) (pane_spot_of (pn_id p) s) = Some (pn_rows p, pn_cols p, pn_title p)"
proof -
  obtain front q after where e: "List.extract (\<lambda>q. pn_id q = pn_id p) (sh_panes s) = Some (front, q, after)"
    using assms(2) by (cases "List.extract (\<lambda>q. pn_id q = pn_id p) (sh_panes s)") (auto simp: extract_None_iff)
  then have "q \<in> set (sh_panes s)" "pn_id q = pn_id p" by (auto simp: extract_Some_iff)
  with assms have "q = p" by (auto simp: pane_ids_def distinct_map inj_on_def)
  with e show ?thesis by (simp add: pane_spot_of_def)
qed

lemma relaunch_success:
  assumes "claim_pending i (hw_plugins w) = (p, Some h)" "has_free_slot (hw_shared w)"
    "relaunch_pane True now i args (case map_of (pl_flags p) name of None \<Rightarrow> [] | Some flags \<Rightarrow> flags) (hw_backend w) = (b, Inr new)"
    "relaunch_for_plugin ser env (True, now) name i args w = w'"
  shows "hw_backend w' = b" "hw_plugins w' = pane_opened env b new (sp_title (pd_spot h)) (take_over i new p)"
    "hw_shared w' = end_recovery ser i (restore_pane_index ser new (sp_index (pd_spot h))
       (register_pane ser new (sp_rows (pd_spot h)) (sp_cols (pd_spot h)) None (sp_title (pd_spot h)) (hw_shared w)))"
  using assms by (auto simp: relaunch_for_plugin_def Let_def)

lemma relaunch_slot:
  assumes "backend_slot b i = Some slot" "resume_command_line (slot_command slot) args flags = Inr line" "pb_next b \<noteq> 4294967295"
    "pb_next b \<noteq> i"
  obtains b' where "relaunch_pane True now i args flags b = (b', Inr (pb_next b))"
    "backend_slot b' (pb_next b) =
       Some \<lparr>slot_identity = advance (slot_identity slot), slot_command = slot_command slot, slot_last_output = now\<rparr>"
    "map_option pp_line (map_of (pb_panes b') (pb_next b)) = Some (Some line)" "backend_slot b' i = None"
  using assms that
  by (simp add: relaunch_pane_def spawn_pane_def Let_def backend_slot_def slots_get_def slots_insert_def slots_remove_def
      lookup_bt_insert map_of_bt_remove pane_started_def)



text \<open>
  \<^bold>\<open>C32\<close>. A relaunch whose shell does not start keeps the pane's hold but not its slot: the clients are told nothing and the recovery
  stays on their screens, yet the token no longer names anything, so every further relaunch the plugin asks for is refused as an
  unknown pane until the hold runs out.
\<close>

theorem failed_relaunch_strands_hold:
  assumes "map_of (pl_pending (hw_plugins w)) i = Some h" "has_free_slot (hw_shared w)"
    "backend_slot (hw_backend w) i = Some slot" "id_token (slot_identity slot) = token"
    "list_all (\<lambda>(j, s). id_token (slot_identity s) = token \<longrightarrow> j = i) (pb_slots (hw_backend w))"
    "map_of (pl_flags (hw_plugins w)) name = Some flags" "resume_command_line (slot_command slot) args flags = Inr line"
    "relaunch_for_plugin ser env (False, now) name i args w = w'"
  shows "map_of (pl_pending (hw_plugins w')) i = Some h \<and> hw_shared w' = hw_shared w
    \<and> backend_slot (hw_backend w') i = None
    \<and> snd (plugins_judge plugin (Relaunch v token gen args') (hw_backend w') later (hw_plugins w')) = Inl (UnknownPane token)"
proof -
  obtain p r where c: "claim_pending i (hw_plugins w) = (p, r)" by fastforce
  note cb = claim_books [OF c]
  let ?b = "(hw_backend w)\<lparr>pb_panes := bt_remove i (pb_panes (hw_backend w)), pb_slots := slots_remove i (pb_slots (hw_backend w))\<rparr>"
  have rl: "relaunch_pane False now i args flags (hw_backend w) = (?b, Inl SpawnFailed)"
    using assms(3,7) by (simp add: relaunch_pane_def spawn_pane_def)
  have w': "w' = w\<lparr>hw_backend := ?b, hw_plugins := restore_pending i h p\<rparr>"
    using assms(1,2,6,8) c rl cb(8,9) by (auto simp: relaunch_for_plugin_def Let_def)
  have gone: "backend_slot ?b i = None"
    by (simp add: backend_slot_def slots_get_def slots_remove_def map_of_bt_remove)
  have "pane_for_token ?b token = None"
    using assms(5) by (auto simp: pane_for_token_def find_by_token_def bt_find_def find_None_iff slots_remove_def bt_remove_def list_all_iff)
  then have "facts_for plugin ?b later (restore_pending i h p) token = None" by (simp add: facts_for_def)
  then have "snd (plugins_judge plugin (Relaunch v token gen args') ?b later (restore_pending i h p)) = Inl (UnknownPane token)"
    by (simp add: plugins_judge_def Let_def with_facts_def pane_facts_rule_def case_prod_beta)
  with gone w' show ?thesis by (simp add: restore_pending_def update_conv')
qed

theorem failed_relaunch_strands_hold_witness:
  "let w' = relaunch_for_plugin (\<lambda>_. Some []) sample_env (False, 5) [112] 1 [] sample_worker
   in map_of (pl_pending (hw_plugins w')) 1 \<noteq> None \<and> backend_slot (hw_backend w') 1 = None
      \<and> snd (plugins_judge [112] (Relaunch 1 sample_token 1 []) (hw_backend w') 9 (hw_plugins w')) = Inl (UnknownPane sample_token)"
  using failed_relaunch_strands_hold [where w = sample_worker and i = 1 and token = sample_token and name = "[112]" and args = "[]"
      and ser = "\<lambda>_. Some []" and env = sample_env and now = 5 and plugin = "[112]" and v = 1 and gen = 1 and args' = "[]" and later = 9
      and flags = "[]" and line = "[99]", OF _ _ _ _ _ _ _ refl]
  by (simp add: sample_worker_eval backend_slot_def slots_get_def sample_token_def has_free_slot_def shared_new_def
      MAX_PTYS_PER_REPO_def resume_command_line_def Let_def)

text \<open>
  A relaunched pane does not survive the restart of its plugin: the opt-in stays with the id that is gone, so when a reload
  launches the plugin's successor, the replacement pane still counts as its own but is never announced to it, and the successor
  starts with nothing in its queue.
\<close>

theorem relaunched_pane_unannounced:
  assumes "owner old p = Some (cfg_name cfg)" "pl_intended p = [(old, cfg_name cfg)]" "map_of titles old = None" "old \<noteq> new"
    "env_ok env" "env_launches env cfg" "start_host env cfg titles (b, take_over old new p, out) = ((b', p', out'), started)"
  shows "started \<and> owner new p' = Some (cfg_name cfg) \<and> map_of (pl_hosts p') (cfg_name cfg) = Some host_new"
proof -
  let ?p = "set_watch_on_signal (cfg_name cfg) (cfg_watch cfg) (record_host cfg (take_over old new p))"
  have i: "pl_intended ?p = [(old, cfg_name cfg)]"
    using assms(1,2) by (simp add: set_watch_on_signal_def record_host_def take_over_def)
  have "set (env_panes env [old]) = {old}" using assms(5) by (simp add: env_ok_def)
  then have "filter (\<lambda>pane. map_of (pl_intended ?p) pane = Some (cfg_name cfg) \<and> map_of titles pane \<noteq> None)
      (env_panes env (map fst (pl_intended ?p))) = []"
    unfolding i using assms(3) by (auto simp: filter_empty_conv)
  then have "started" "p' = ?p" using assms(6,7) by (auto simp: start_host_def Let_def)
  then show ?thesis using assms(1,4)
    by (simp add: set_watch_on_signal_def record_host_def take_over_def owner_def update_conv')
qed

theorem relaunched_pane_unannounced_witness:
  "let ((b, p, out), started) = start_host sample_env sample_plugin [(2, None)]
         (hw_backend sample_worker, take_over 1 2 (hw_plugins sample_worker),
          \<lparr>re_started = [], re_stopped = [], re_restarted = [], re_retired = [], re_released = []\<rparr>)
   in started \<and> owner 2 p = Some [112] \<and> map_of (pl_hosts p) [112] = Some host_new"
proof -
  let ?out = "\<lparr>re_started = [], re_stopped = [], re_restarted = [], re_retired = [], re_released = []\<rparr>"
  obtain b p out started where s: "start_host sample_env sample_plugin [(2, None)]
      (hw_backend sample_worker, take_over 1 2 (hw_plugins sample_worker), ?out) = ((b, p, out), started)" by (metis surj_pair)
  have "owner 1 (hw_plugins sample_worker) = Some (cfg_name sample_plugin)"
    "pl_intended (hw_plugins sample_worker) = [(1, cfg_name sample_plugin)]" "map_of [(2::pane_id, None)] 1 = None"
    "(1::pane_id) \<noteq> 2" "env_launches sample_env sample_plugin"
    by (simp_all add: sample_worker_eval owner_def sample_plugin_def sample_env_def)
  from relaunched_pane_unannounced [OF this(1-4) sample_env_ok(3) this(5) s] s show ?thesis by (simp add: sample_plugin_def)
qed

end
