(* ===== verification/Hub_Connect.thy ===== *)
theory Hub_Connect
  imports Hub_Shared
begin

text \<open>
  Clients coming and going, \<^verbatim>\<open>src/session/terminal/hub_connect.rs\<close>, with the replay of \<^verbatim>\<open>hub_replay.rs\<close>, the
  registration guard and the client side of the queue (\<^verbatim>\<open>session.rs\<close>). \<^verbatim>\<open>connect\<close> holds the state
  lock twice: \<open>connect_begin\<close> is the first hold (what is captured, and the client registered
  with its gate closed), \<open>replay_frames\<close> the framing in between, \<open>connect_finish\<close> the second hold.
  Where a deque's slices meet is the argument \<open>split\<close>.
\<close>

record pane_replay =
  pr_pane :: pane_id
  pr_rows :: u16
  pr_cols :: u16
  pr_title :: "rstring option"
  pr_normal_under :: "u8 list list"
  pr_prelude :: "u8 list list"
  pr_record :: "u8 list list"

definition LEAVE_ALT_SCREEN :: "u8 list" where
  "LEAVE_ALT_SCREEN = str_bytes (0x1b # lit ''[?1049l'')"

definition push_normal_record :: "(u8 list \<Rightarrow> nat) \<Rightarrow> pane_state \<Rightarrow> u8 list list" where
  "push_normal_record split p =
     push_ring (split (pn_scrollback p)) (pn_scrollback p) 0 (pn_covered p)
     @ [pn_normal_screen p]
     @ push_ring (split (pn_scrollback p)) (pn_scrollback p) (pn_covered p) (length (pn_scrollback p))"

text \<open>A composition that panics, or would not end, is no value.\<close>

definition chunked :: "nat \<Rightarrow> u8 list list \<Rightarrow> u8 list list option" where
  "chunked n writes = (case composed n writes of Some (Inr cs) \<Rightarrow> Some cs | _ \<Rightarrow> None)"

definition capture :: "(u8 list \<Rightarrow> nat) \<Rightarrow> pane_state \<Rightarrow> pane_replay option" where
  "capture split p =
     (let alt = pm_alt_screen (pn_modes p);
          normal_under =
            (if alt \<and> \<not> (pn_scrollback p = [] \<and> pn_normal_screen p = [])
             then chunked (length LEAVE_ALT_SCREEN + length (pn_scrollback p) + length (pn_normal_screen p))
                    (LEAVE_ALT_SCREEN # push_normal_record split p)
             else Some []);
          recorded =
            (if alt
             then chunked (length (pn_screen p) + length (pn_since p))
                    (pn_screen p # push_ring (split (pn_since p)) (pn_since p) 0 (length (pn_since p)))
             else chunked (length (pn_scrollback p) + length (pn_normal_screen p)) (push_normal_record split p));
          prelude = chunked (length (mode_prelude (pn_modes p))) [mode_prelude (pn_modes p)]
      in case (normal_under, recorded, prelude) of
           (Some u, Some r, Some m) \<Rightarrow>
             Some \<lparr>pr_pane = pn_id p, pr_rows = pn_rows p, pr_cols = pn_cols p, pr_title = pn_title p,
                   pr_normal_under = u, pr_prelude = m, pr_record = r\<rparr>
         | _ \<Rightarrow> None)"

section \<open>The replay queue\<close>

record replay_queue =
  rq_tx :: "terminal_frame chan"
  rq_queued :: nat

definition rq_send :: "terminal_frame \<Rightarrow> replay_queue \<Rightarrow> replay_queue \<times> bool" where
  "rq_send frame q =
     (if rq_queued q \<ge> CLIENT_QUEUE_DEPTH then (q, False)
      else case try_send frame (rq_tx q) of
             (tx, Inr _) \<Rightarrow> (q\<lparr>rq_tx := tx, rq_queued := rq_queued q + 1\<rparr>, True)
           | (_, Inl _) \<Rightarrow> (q, False))"

fun send_replay :: "pane_id \<Rightarrow> u8 list list \<Rightarrow> replay_queue \<Rightarrow> replay_queue \<times> bool" where
  "send_replay pane [] q = (q, True)"
| "send_replay pane (data # rest) q =
     (case rq_send (Output pane data) q of
        (q', True) \<Rightarrow> send_replay pane rest q'
      | (q', False) \<Rightarrow> (q', False))"

definition replay_pane ::
  "(server_message \<Rightarrow> rstring option) \<Rightarrow> pane_replay \<Rightarrow> replay_queue \<Rightarrow> replay_queue \<times> bool" where
  "replay_pane ser r q =
     (let (q, w1) = (case ser (SmCreated (pr_pane r) (pr_rows r) (pr_cols r) None (pr_title r)) of
                       Some json \<Rightarrow> rq_send (Control json) q | None \<Rightarrow> (q, True));
          (q, w2) = (if pr_normal_under r \<noteq> [] then send_replay (pr_pane r) (pr_normal_under r) q else (q, True));
          (q, w3) = send_replay (pr_pane r) (pr_prelude r) q;
          (q, w4) = send_replay (pr_pane r) (pr_record r) q
      in (q, w1 \<and> w2 \<and> w3 \<and> w4))"

section \<open>Connecting\<close>

record captured =
  cp_hello :: "rstring option"
  cp_zoomed :: "rstring option"
  cp_panes :: "pane_replay list"
  cp_recovery :: "rstring list"

definition recovery_message :: "pane_id \<times> recovery_report \<Rightarrow> server_message" where
  "recovery_message pr =
     SmRecovery (fst pr) (rr_state (snd pr)) (rr_detail (snd pr)) (rr_deadline_epoch (snd pr)) (rr_attempt (snd pr))"

definition empty_tx :: "terminal_frame chan" where
  "empty_tx = \<lparr>ch_queue = [], ch_cap = CLIENT_QUEUE_DEPTH + 1, ch_open = True\<rparr>"

definition connect_begin ::
  "(server_message \<Rightarrow> rstring option) \<Rightarrow> (u8 list \<Rightarrow> nat) \<Rightarrow> bool \<Rightarrow> u64 \<Rightarrow> bool \<Rightarrow> shared \<Rightarrow> (captured \<times> shared) option" where
  "connect_begin ser split stop i socket s =
     (let replaying = \<not> stop;
          to_replay = (if replaying then length (sh_panes s) else 0);
          hello = ser (SmHello i to_replay);
          zoomed = (if replaying then (case sh_zoomed s of None \<Rightarrow> None | Some p \<Rightarrow> ser (SmZoomed (Some p))) else None);
          panes = (if replaying then those (map (capture split) (sh_panes s)) else Some []);
          recovery = (if replaying then List.map_filter (\<lambda>pr. ser (recovery_message pr)) (sh_recovery s) else [])
      in case panes of
           None \<Rightarrow> None
         | Some ps \<Rightarrow>
             Some (\<lparr>cp_hello = hello, cp_zoomed = zoomed, cp_panes = ps, cp_recovery = recovery\<rparr>,
                   s\<lparr>sh_clients := sh_clients s @
                       [\<lparr>cl_id = i, cl_tx = empty_tx, cl_held = Some [], cl_socket = socket, cl_connection = None\<rparr>]\<rparr>))"

fun replay_panes :: "(server_message \<Rightarrow> rstring option) \<Rightarrow> pane_replay list \<Rightarrow> replay_queue \<Rightarrow> replay_queue" where
  "replay_panes ser [] q = q"
| "replay_panes ser (r # rs) q = replay_panes ser rs (fst (replay_pane ser r q))"

definition send_opt :: "rstring option \<Rightarrow> replay_queue \<Rightarrow> replay_queue" where
  "send_opt json q = (case json of None \<Rightarrow> q | Some j \<Rightarrow> fst (rq_send (Control j) q))"

text \<open>Sends whose failure is ignored.\<close>

fun try_send_each :: "terminal_frame list \<Rightarrow> terminal_frame chan \<Rightarrow> terminal_frame chan" where
  "try_send_each [] tx = tx"
| "try_send_each (f # fs) tx = try_send_each fs (fst (try_send f tx))"

text \<open>
  Framing the replay onto the client's channel. The two \<^verbatim>\<open>expect\<close>s of the completion marker
  are the cases without a value: it must serialise, and the channel must have room for it.
\<close>

definition replay_frames :: "(server_message \<Rightarrow> rstring option) \<Rightarrow> captured \<Rightarrow> terminal_frame chan \<Rightarrow> terminal_frame chan option" where
  "replay_frames ser c tx =
     (let q = send_opt (cp_zoomed c) (send_opt (cp_hello c) \<lparr>rq_tx = tx, rq_queued = 0\<rparr>);
          tx = try_send_each (map Control (cp_recovery c)) (rq_tx (replay_panes ser (cp_panes c) q))
      in case ser SmReplayComplete of
           None \<Rightarrow> None
         | Some json \<Rightarrow> (case try_send (Control json) tx of (tx', Inr _) \<Rightarrow> Some tx' | _ \<Rightarrow> None))"

text \<open>Releasing the frames held behind the replay, in order; the first refusal drops the client.\<close>

fun release_held :: "terminal_frame list \<Rightarrow> client \<Rightarrow> client \<times> queue_verdict" where
  "release_held [] c = (c, Kept)"
| "release_held (f # fs) c =
     (case queue_locked f c of
        (c', Kept) \<Rightarrow> release_held fs c'
      | (c', v) \<Rightarrow> (c', v))"

fun finish_client :: "u64 \<Rightarrow> terminal_frame chan \<Rightarrow> u64 \<Rightarrow> client list \<Rightarrow> client list \<times> u64 list" where
  "finish_client i tx connection [] = ([], [])"
| "finish_client i tx connection (c # cs) =
     (if cl_id c = i
      then (case release_held (case cl_held c of Some held \<Rightarrow> held | None \<Rightarrow> [])
                   (c\<lparr>cl_tx := tx, cl_held := None, cl_connection := Some connection\<rparr>) of
              (c', Kept) \<Rightarrow> (c' # cs, [])
            | (c', TooSlow) \<Rightarrow> (cs, cut_off c')
            | (c', Gone) \<Rightarrow> (cs, []))
      else (let (cs', shut) = finish_client i tx connection cs in (c # cs', shut)))"

definition connect_finish ::
  "u64 \<Rightarrow> terminal_frame chan \<Rightarrow> u64 \<Rightarrow> terminal_frame list \<Rightarrow> shared \<Rightarrow> shared" where
  "connect_finish i tx connection verdicts s =
     (let (cs, shut) = finish_client i (try_send_each verdicts tx) connection (sh_clients s)
      in s\<lparr>sh_clients := cs, sh_shut := sh_shut s @ shut\<rparr>)"

definition disconnect_client :: "u64 \<Rightarrow> shared \<Rightarrow> shared" where
  "disconnect_client i s = s\<lparr>sh_clients := filter (\<lambda>c. cl_id c \<noteq> i) (sh_clients s)\<rparr>"

datatype frame_wait = WFrame terminal_frame | WIdle | WClosed

definition wait_frame :: "terminal_frame chan \<Rightarrow> bool \<Rightarrow> frame_wait \<times> terminal_frame chan" where
  "wait_frame rx senders =
     (case ch_queue rx of
        f # rest \<Rightarrow> (WFrame f, rx\<lparr>ch_queue := rest\<rparr>)
      | [] \<Rightarrow> (if senders then WIdle else WClosed, rx))"

section \<open>What is replayed\<close>

lemma chunked_total: "length (concat ws) = n \<Longrightarrow> \<exists>cs. chunked n ws = Some cs \<and> concat cs = concat ws"
  using composed_exact [of n ws] concat_cut [of "concat ws" "chunk_lens n"] by (simp add: chunked_def sum_chunk_lens)

definition normal_bytes :: "pane_state \<Rightarrow> u8 list" where
  "normal_bytes p = take (pn_covered p) (pn_scrollback p) @ pn_normal_screen p @ drop (pn_covered p) (pn_scrollback p)"

lemma concat_normal_record: "concat (push_normal_record split p) = normal_bytes p"
  by (auto simp: push_normal_record_def push_ring_concat normal_bytes_def min_def)

lemma capture_total:
  "\<exists>r. capture split p = Some r \<and> pr_pane r = pn_id p \<and> pr_rows r = pn_rows p \<and> pr_cols r = pn_cols p
    \<and> concat (pr_normal_under r) =
        (if pm_alt_screen (pn_modes p) \<and> normal_bytes p \<noteq> [] then LEAVE_ALT_SCREEN @ normal_bytes p else [])
    \<and> concat (pr_prelude r) = mode_prelude (pn_modes p)
    \<and> concat (pr_record r) = (if pm_alt_screen (pn_modes p) then pn_screen p @ pn_since p else normal_bytes p)"
proof -
  have len: "length (normal_bytes p) = length (pn_scrollback p) + length (pn_normal_screen p)"
    by (simp add: normal_bytes_def)
  have none: "normal_bytes p = [] \<longleftrightarrow> pn_scrollback p = [] \<and> pn_normal_screen p = []"
    using len by (metis add_is_0 length_0_conv)
  obtain m where m: "chunked (length (mode_prelude (pn_modes p))) [mode_prelude (pn_modes p)] = Some m"
      "concat m = mode_prelude (pn_modes p)"
    using chunked_total [of "[mode_prelude (pn_modes p)]"] by auto
  obtain u where u: "chunked (length LEAVE_ALT_SCREEN + length (pn_scrollback p) + length (pn_normal_screen p))
      (LEAVE_ALT_SCREEN # push_normal_record split p) = Some u" "concat u = LEAVE_ALT_SCREEN @ normal_bytes p"
    using chunked_total [of "LEAVE_ALT_SCREEN # push_normal_record split p"] by (auto simp: concat_normal_record len add.assoc)
  obtain a where a: "chunked (length (pn_screen p) + length (pn_since p))
      (pn_screen p # push_ring (split (pn_since p)) (pn_since p) 0 (length (pn_since p))) = Some a"
      "concat a = pn_screen p @ pn_since p"
    using chunked_total [of "pn_screen p # push_ring (split (pn_since p)) (pn_since p) 0 (length (pn_since p))"]
    by (auto simp: push_ring_concat)
  obtain r where r: "chunked (length (pn_scrollback p) + length (pn_normal_screen p)) (push_normal_record split p) = Some r"
      "concat r = normal_bytes p"
    using chunked_total [of "push_normal_record split p"] by (auto simp: concat_normal_record len)
  show ?thesis using m u a r none by (auto simp: capture_def Let_def)
qed

section \<open>The queue holds the replay\<close>

definition pane_frames :: "(server_message \<Rightarrow> rstring option) \<Rightarrow> pane_replay \<Rightarrow> terminal_frame list" where
  "pane_frames ser r =
     (case ser (SmCreated (pr_pane r) (pr_rows r) (pr_cols r) None (pr_title r)) of None \<Rightarrow> [] | Some j \<Rightarrow> [Control j])
     @ map (Output (pr_pane r)) (pr_normal_under r @ pr_prelude r @ pr_record r)"

definition opt_frame :: "rstring option \<Rightarrow> terminal_frame list" where
  "opt_frame json = (case json of None \<Rightarrow> [] | Some j \<Rightarrow> [Control j])"

definition replay_list :: "(server_message \<Rightarrow> rstring option) \<Rightarrow> captured \<Rightarrow> terminal_frame list" where
  "replay_list ser c = opt_frame (cp_hello c) @ opt_frame (cp_zoomed c) @ concat (map (pane_frames ser) (cp_panes c))"

definition rq_at :: "replay_queue \<Rightarrow> terminal_frame list \<Rightarrow> bool" where
  "rq_at q Q \<longleftrightarrow> rq_tx q = empty_tx\<lparr>ch_queue := take CLIENT_QUEUE_DEPTH Q\<rparr>
     \<and> rq_queued q = length (take CLIENT_QUEUE_DEPTH Q)"

lemma rq_at_send: "rq_at q Q \<Longrightarrow> rq_at (fst (rq_send f q)) (Q @ [f]) \<and> snd (rq_send f q) = (length Q < CLIENT_QUEUE_DEPTH)"
  by (auto simp: rq_at_def rq_send_def try_send_def empty_tx_def)

lemma rq_at_beyond: "rq_at q Q \<Longrightarrow> CLIENT_QUEUE_DEPTH \<le> length Q \<Longrightarrow> rq_at q (Q @ R)"
  by (simp add: rq_at_def)

lemma rq_at_send_replay: "rq_at q Q \<Longrightarrow> rq_at (fst (send_replay pane ds q)) (Q @ map (Output pane) ds)"
proof (induction pane ds q arbitrary: Q rule: send_replay.induct)
  case (2 pane d ds q)
  note s = rq_at_send [OF 2(2), of "Output pane d"]
  show ?case
  proof (cases "snd (rq_send (Output pane d) q)")
    case True
    then obtain q' where q': "rq_send (Output pane d) q = (q', True)" by (metis prod.collapse)
    with 2(1) [OF q' [symmetric] refl, of "Q @ [Output pane d]"] s show ?thesis by simp
  next
    case False
    with s have "CLIENT_QUEUE_DEPTH \<le> length (Q @ [Output pane d])" by simp
    with s False rq_at_beyond [of "fst (rq_send (Output pane d) q)" "Q @ [Output pane d]" "map (Output pane) ds"]
    show ?thesis by (auto simp: case_prod_beta split: bool.splits)
  qed
qed simp

lemma rq_at_opt: "rq_at q Q \<Longrightarrow> rq_at (send_opt j q) (Q @ opt_frame j)"
  using rq_at_send by (auto simp: send_opt_def opt_frame_def split: option.splits)

lemma rq_at_replay_pane: "rq_at q Q \<Longrightarrow> rq_at (fst (replay_pane ser r q)) (Q @ pane_frames ser r)"
proof -
  assume q: "rq_at q Q"
  define j where "j = ser (SmCreated (pr_pane r) (pr_rows r) (pr_cols r) None (pr_title r))"
  define q1 where "q1 = (case j of Some json \<Rightarrow> rq_send (Control json) q | None \<Rightarrow> (q, True))"
  define q2 where "q2 = (if pr_normal_under r \<noteq> [] then send_replay (pr_pane r) (pr_normal_under r) (fst q1) else (fst q1, True))"
  have "rq_at (fst q1) (Q @ opt_frame j)" using rq_at_send [OF q] q by (auto simp: q1_def opt_frame_def split: option.splits)
  from rq_at_send_replay [OF this, of "pr_pane r" "pr_normal_under r"] this
  have "rq_at (fst q2) (Q @ opt_frame j @ map (Output (pr_pane r)) (pr_normal_under r))"
    by (simp add: q2_def)
  from rq_at_send_replay [OF rq_at_send_replay [OF this], of "pr_pane r" "pr_record r" "pr_pane r" "pr_prelude r"]
  have "rq_at (fst (send_replay (pr_pane r) (pr_record r) (fst (send_replay (pr_pane r) (pr_prelude r) (fst q2)))))
      (Q @ opt_frame j @ map (Output (pr_pane r)) (pr_normal_under r @ pr_prelude r @ pr_record r))"
    by simp
  moreover have "fst (replay_pane ser r q) =
      fst (send_replay (pr_pane r) (pr_record r) (fst (send_replay (pr_pane r) (pr_prelude r) (fst q2))))"
    unfolding replay_pane_def Let_def case_prod_beta j_def [symmetric] q1_def [symmetric] q2_def [symmetric] by simp
  moreover have "pane_frames ser r = opt_frame j @ map (Output (pr_pane r)) (pr_normal_under r @ pr_prelude r @ pr_record r)"
    unfolding pane_frames_def opt_frame_def j_def ..
  ultimately show ?thesis by simp
qed

lemma rq_at_replay_panes: "rq_at q Q \<Longrightarrow> rq_at (replay_panes ser rs q) (Q @ concat (map (pane_frames ser) rs))"
proof (induction ser rs q arbitrary: Q rule: replay_panes.induct)
  case (2 ser r rs q)
  from 2(1) [OF rq_at_replay_pane [OF 2(2)]] show ?case by simp
qed simp

lemma try_send_each_queue:
  "ch_open tx \<Longrightarrow> try_send_each fs tx = tx\<lparr>ch_queue := ch_queue tx @ take (ch_cap tx - length (ch_queue tx)) fs\<rparr>"
proof (induction fs tx rule: try_send_each.induct)
  case (2 f fs tx)
  show ?case
  proof (cases "length (ch_queue tx) < ch_cap tx")
    case True
    then obtain k where "ch_cap tx - length (ch_queue tx) = Suc k" by (metis Suc_diff_Suc)
    then have "ch_cap tx - Suc (length (ch_queue tx)) = k" by simp
    with True 2 \<open>ch_cap tx - length (ch_queue tx) = Suc k\<close> show ?thesis by (simp add: try_send_def)
  next
    case False
    with 2 show ?thesis by (simp add: try_send_def)
  qed
qed simp

lemma replay_frames_exact:
  "replay_frames ser c empty_tx =
     (case ser SmReplayComplete of
        None \<Rightarrow> None
      | Some json \<Rightarrow>
          if length (take CLIENT_QUEUE_DEPTH (replay_list ser c)) + length (cp_recovery c) \<le> CLIENT_QUEUE_DEPTH
          then Some (empty_tx\<lparr>ch_queue := take CLIENT_QUEUE_DEPTH (replay_list ser c) @ map Control (cp_recovery c) @ [Control json]\<rparr>)
          else None)"
proof -
  have "rq_at \<lparr>rq_tx = empty_tx, rq_queued = 0\<rparr> []" by (simp add: rq_at_def empty_tx_def)
  from rq_at_opt [OF rq_at_opt [OF this], of "cp_zoomed c" "cp_hello c"]
  have "rq_at (send_opt (cp_zoomed c) (send_opt (cp_hello c) \<lparr>rq_tx = empty_tx, rq_queued = 0\<rparr>))
      (opt_frame (cp_hello c) @ opt_frame (cp_zoomed c))" by simp
  from rq_at_replay_panes [OF this, of ser "cp_panes c"]
  have q: "rq_tx (replay_panes ser (cp_panes c) (send_opt (cp_zoomed c) (send_opt (cp_hello c) \<lparr>rq_tx = empty_tx, rq_queued = 0\<rparr>)))
      = empty_tx\<lparr>ch_queue := take CLIENT_QUEUE_DEPTH (replay_list ser c)\<rparr>"
    by (simp add: rq_at_def replay_list_def)
  show ?thesis
    unfolding replay_frames_def Let_def q
    by (subst try_send_each_queue) (auto simp: empty_tx_def try_send_def split: option.split)
qed

text \<open>
  \<^bold>\<open>C19\<close>. Connecting hands a client the whole replay, or as much of it as the queue takes: the channel then
  holds the first 256 frames of greeting, zoom and panes, the recovery reports, and the
  completion marker. The connection attempt panics exactly when the marker does not
  serialise or when the frames and the reports together fill its slot: the reports are
  not counted against the slot that the replay leaves for it.
\<close>

theorem replay_queue_exact:
  "replay_frames ser c empty_tx =
     (case ser SmReplayComplete of
        None \<Rightarrow> None
      | Some json \<Rightarrow>
          if length (take CLIENT_QUEUE_DEPTH (replay_list ser c)) + length (cp_recovery c) \<le> CLIENT_QUEUE_DEPTH
          then Some (empty_tx\<lparr>ch_queue := take CLIENT_QUEUE_DEPTH (replay_list ser c) @ map Control (cp_recovery c) @ [Control json]\<rparr>)
          else None)"
  by (rule replay_frames_exact)

end
