(* ===== verification/Hub_Output.thy ===== *)
theory Hub_Output
  imports Hub_Connect
begin

text \<open>
  What the worker keeps of a pane's output: the tracker of \<^verbatim>\<open>src/session/terminal/hub_modes.rs\<close>, one chunk of output in
  \<^verbatim>\<open>hub_output.rs\<close> and the output half of a pass in \<^verbatim>\<open>hub_run.rs\<close>. The terminal library is the
  parameter \<open>vt\<close> of \<^verbatim>\<open>Pane_Emulator\<close>. Where the code iterates over a hash map the order is an argument.
\<close>

definition NO_HISTORY :: nat where
  "NO_HISTORY = 0"

definition SNAPSHOT_INTERVAL :: duration where
  "SNAPSHOT_INTERVAL = from_millis 250"

definition SNAPSHOT_OWED_BYTES :: nat where
  "SNAPSHOT_OWED_BYTES = 64 * 1024"

definition DEFAULT_PANE_SIZE :: pane_size where
  "DEFAULT_PANE_SIZE = \<lparr>ps_rows = 24, ps_cols = 80\<rparr>"

record pace =
  pc_at :: "instant option"
  pc_owed :: nat

record 'v tracker =
  tk_emulators :: "pane_id \<rightharpoonup> 'v pane_emulator"
  tk_alt :: "pane_id \<rightharpoonup> bool"
  tk_pace :: "pane_id \<rightharpoonup> pace"

definition tracker_new :: "'v tracker" where
  "tracker_new = \<lparr>tk_emulators = Map.empty, tk_alt = Map.empty, tk_pace = Map.empty\<rparr>"

section \<open>The tracker\<close>

definition observed_as :: "pane_id \<Rightarrow> pane_modes \<Rightarrow> rstring option \<Rightarrow> 'v tracker \<Rightarrow> observed \<times> 'v tracker" where
  "observed_as pane modes title t =
     (let was_alt = (case tk_alt t pane of None \<Rightarrow> False | Some b \<Rightarrow> b)
      in (\<lparr>ob_modes = modes, ob_title = map_option (take MAX_PANE_TITLE_CHARS) title,
           ob_alt_changed = (was_alt \<noteq> pm_alt_screen modes)\<rparr>,
          t\<lparr>tk_alt := (tk_alt t)(pane \<mapsto> pm_alt_screen modes)\<rparr>))"

definition observe :: "'v vt_ops \<Rightarrow> pane_id \<Rightarrow> u8 list \<Rightarrow> u16 \<times> u16 \<Rightarrow> 'v tracker \<Rightarrow> observed \<times> 'v tracker" where
  "observe vt pane data dims t =
     (let e = (case tk_emulators t pane of
                 Some e \<Rightarrow> e
               | None \<Rightarrow> emulator_new vt (fst dims) (snd dims) NO_HISTORY);
          (e, events) = emulator_process vt data e;
          t = t\<lparr>tk_emulators := (tk_emulators t)(pane \<mapsto> e)\<rparr>
      in observed_as pane (emulator_modes vt e) (ee_title events) t)"

definition reset_pace :: "pane_id \<Rightarrow> 'v tracker \<Rightarrow> 'v tracker" where
  "reset_pace pane t = t\<lparr>tk_pace := (tk_pace t)(pane := None)\<rparr>"

definition pace_of :: "pane_id \<Rightarrow> 'v tracker \<Rightarrow> pace" where
  "pace_of pane t = (case tk_pace t pane of Some p \<Rightarrow> p | None \<Rightarrow> \<lparr>pc_at = None, pc_owed = 0\<rparr>)"

definition note_owed :: "pane_id \<Rightarrow> nat \<Rightarrow> 'v tracker \<Rightarrow> 'v tracker" where
  "note_owed pane owed t = t\<lparr>tk_pace := (tk_pace t)(pane \<mapsto> (pace_of pane t)\<lparr>pc_owed := owed\<rparr>)\<rparr>"

definition mark_stored :: "pane_id \<Rightarrow> instant \<Rightarrow> 'v tracker \<Rightarrow> 'v tracker" where
  "mark_stored pane now t = t\<lparr>tk_pace := (tk_pace t)(pane \<mapsto> \<lparr>pc_at = Some now, pc_owed = 0\<rparr>)\<rparr>"

definition tracker_snapshot :: "'v vt_ops \<Rightarrow> pane_id \<Rightarrow> 'v tracker \<Rightarrow> u8 list option" where
  "tracker_snapshot vt pane t = map_option (screen_snapshot vt) (tk_emulators t pane)"

definition tracker_at_boundary :: "'v vt_ops \<Rightarrow> pane_id \<Rightarrow> 'v tracker \<Rightarrow> bool" where
  "tracker_at_boundary vt pane t = (case tk_emulators t pane of None \<Rightarrow> True | Some e \<Rightarrow> emulator_at_boundary vt e)"

definition tracker_current :: "'v vt_ops \<Rightarrow> pane_id \<Rightarrow> 'v tracker \<Rightarrow> bool" where
  "tracker_current vt pane t = (case tk_emulators t pane of None \<Rightarrow> True | Some e \<Rightarrow> screen_current vt e)"

definition tracker_resize :: "'v vt_ops \<Rightarrow> pane_id \<Rightarrow> u16 \<Rightarrow> u16 \<Rightarrow> 'v tracker \<Rightarrow> 'v tracker" where
  "tracker_resize vt pane rows cols t =
     t\<lparr>tk_emulators := (tk_emulators t)(pane := map_option (emulator_resize vt rows cols) (tk_emulators t pane)),
       tk_pace := (tk_pace t)(pane := map_option (\<lambda>p. p\<lparr>pc_at := None\<rparr>) (tk_pace t pane))\<rparr>"

definition forget :: "pane_id \<Rightarrow> 'v tracker \<Rightarrow> 'v tracker" where
  "forget pane t =
     t\<lparr>tk_emulators := (tk_emulators t)(pane := None), tk_alt := (tk_alt t)(pane := None),
       tk_pace := (tk_pace t)(pane := None)\<rparr>"

text \<open>\<^verbatim>\<open>settle_sync\<close>: \<open>order\<close> is the order in which the expired panes come out of the hash map.\<close>

definition settle_one :: "'v vt_ops \<Rightarrow> pane_id \<Rightarrow> 'v tracker \<Rightarrow> (pane_id \<times> observed) option \<times> 'v tracker" where
  "settle_one vt pane t =
     (case tk_emulators t pane of
        None \<Rightarrow> (None, t)
      | Some e \<Rightarrow>
          let (e, events) = emulator_settle_sync vt e;
              t = t\<lparr>tk_emulators := (tk_emulators t)(pane \<mapsto> e)\<rparr>;
              (obs, t) = observed_as pane (emulator_modes vt e) (ee_title events) t
          in (Some (pane, obs), if ob_alt_changed obs then reset_pace pane t else t))"

fun settle_each :: "'v vt_ops \<Rightarrow> pane_id list \<Rightarrow> 'v tracker \<Rightarrow> (pane_id \<times> observed) list \<times> 'v tracker" where
  "settle_each vt [] t = ([], t)"
| "settle_each vt (pane # ps) t =
     (let (r, t) = settle_one vt pane t; (rs, t) = settle_each vt ps t
      in (case r of None \<Rightarrow> rs | Some x \<Rightarrow> x # rs, t))"

definition tracker_settle_sync :: "'v vt_ops \<Rightarrow> pane_id list \<Rightarrow> instant \<Rightarrow> 'v tracker \<Rightarrow> (pane_id \<times> observed) list \<times> 'v tracker" where
  "tracker_settle_sync vt order now t =
     settle_each vt
       (filter (\<lambda>p. case tk_emulators t p of None \<Rightarrow> False | Some e \<Rightarrow> sync_expired vt now e) order) t"

definition snapshot_due :: "pane_id \<Rightarrow> instant \<Rightarrow> 'v tracker \<Rightarrow> bool" where
  "snapshot_due pane now t =
     (case tk_pace t pane of
        None \<Rightarrow> True
      | Some p \<Rightarrow>
          pc_owed p > SNAPSHOT_OWED_BYTES \<or>
          (case pc_at p of None \<Rightarrow> True | Some at \<Rightarrow> now - at \<ge> SNAPSHOT_INTERVAL))"

fun settle_screens :: "'v vt_ops \<Rightarrow> pane_id list \<Rightarrow> instant \<Rightarrow> 'v tracker \<Rightarrow> (pane_id \<times> u8 list) list \<times> 'v tracker" where
  "settle_screens vt [] now t = ([], t)"
| "settle_screens vt (pane # ps) now t =
     (if \<not> snapshot_due pane now t \<or> \<not> tracker_at_boundary vt pane t then settle_screens vt ps now t
      else case tracker_snapshot vt pane t of
             None \<Rightarrow> settle_screens vt ps now t
           | Some screen \<Rightarrow>
               let (rs, t) = settle_screens vt ps now (mark_stored pane now t) in ((pane, screen) # rs, t))"

definition settle_restless ::
  "'v vt_ops \<Rightarrow> pane_id list \<Rightarrow> pane_id list \<Rightarrow> instant \<Rightarrow> 'v tracker \<Rightarrow> (pane_id \<times> u8 list) list \<times> 'v tracker" where
  "settle_restless vt order restless now t =
     (let owing = filter (\<lambda>p. case tk_pace t p of None \<Rightarrow> False | Some pc \<Rightarrow> pc_owed pc > 0) order
      in settle_screens vt (push_new restless owing) now t)"

definition opt_min :: "instant option \<Rightarrow> instant option \<Rightarrow> instant option" where
  "opt_min a b = (case (a, b) of (Some x, Some y) \<Rightarrow> Some (min x y) | (None, y) \<Rightarrow> y | (x, None) \<Rightarrow> x)"

definition tracker_deadline :: "'v vt_ops \<Rightarrow> pane_id list \<Rightarrow> 'v tracker \<Rightarrow> instant option" where
  "tracker_deadline vt order t =
     (let sync = foldr opt_min (map (\<lambda>p. case tk_emulators t p of None \<Rightarrow> None | Some e \<Rightarrow> sync_deadline vt e) order) None;
          paced = foldr opt_min (map (\<lambda>p. case tk_pace t p of
                     None \<Rightarrow> None
                   | Some pc \<Rightarrow> if pc_owed pc > 0 \<and> tracker_at_boundary vt p t
                       then map_option (\<lambda>at. at + SNAPSHOT_INTERVAL) (pc_at pc) else None) order) None
      in opt_min sync paced)"

section \<open>One chunk\<close>

definition pane_size_of :: "pane_id \<Rightarrow> shared \<Rightarrow> u16 \<times> u16" where
  "pane_size_of pane s =
     (case find_pane pane s of
        Some p \<Rightarrow> (pn_rows p, pn_cols p)
      | None \<Rightarrow> (ps_rows DEFAULT_PANE_SIZE, ps_cols DEFAULT_PANE_SIZE))"

definition record_pane_output ::
  "'v vt_ops \<Rightarrow> pane_id \<Rightarrow> u8 list \<Rightarrow> instant \<Rightarrow> shared \<times> 'v tracker \<Rightarrow> bool \<times> shared \<times> 'v tracker" where
  "record_pane_output vt pane data now st =
     (let (s, t) = st;
          (obs, t) = observe vt pane data (pane_size_of pane s) t;
          alt = pm_alt_screen (ob_modes obs);
          t = (if ob_alt_changed obs then reset_pace pane t else t);
          entry_screen = (alt \<and> ob_alt_changed obs \<and> tracker_at_boundary vt pane t);
          screen = (if entry_screen then tracker_snapshot vt pane t else None);
          (s, owed) = record_and_broadcast pane data obs screen s;
          t = (if alt then note_owed pane owed t else t)
      in if entry_screen then (False, s, mark_stored pane now t)
         else
           let crowded = (owed > MAX_TERMINAL_SCROLLBACK_BYTES);
               desperate = (owed > 2 * MAX_TERMINAL_SCROLLBACK_BYTES);
               ready = (tracker_at_boundary vt pane t \<or> (desperate \<and> tracker_current vt pane t))
           in if \<not> alt
              then (if crowded \<and> ready
                    then (case tracker_snapshot vt pane t of
                            Some screen \<Rightarrow> (False, store_normal_screen pane screen s, mark_stored pane now t)
                          | None \<Rightarrow> (False, s, t))
                    else (False, s, t))
              else if crowded \<and> ready
              then (case tracker_snapshot vt pane t of
                      Some screen \<Rightarrow> (False, store_screen pane screen s, mark_stored pane now t)
                    | None \<Rightarrow> (False, s, t))
              else (True, s, t))"

text \<open>
  A resize by the sizing owner, past the ownership check: \<open>applied\<close> is whether the PTY took the
  size, and the grid follows the PTY before its screen is read.
\<close>

definition resize_locked ::
  "'v vt_ops \<Rightarrow> (server_message \<Rightarrow> rstring option) \<Rightarrow> pane_id \<Rightarrow> u16 \<Rightarrow> u16 \<Rightarrow> bool \<Rightarrow> instant \<Rightarrow> shared \<times> 'v tracker \<Rightarrow> shared \<times> 'v tracker" where
  "resize_locked vt ser pane rows cols applied now st =
     (let (s, t) = st
      in case find_pane pane s of
           None \<Rightarrow> (s, t)
         | Some p \<Rightarrow>
             let changed = ((pn_rows p, pn_cols p) \<noteq> (rows, cols))
             in if changed \<and> \<not> applied then (s, t)
                else
                  let t = (if changed then tracker_resize vt pane rows cols t else t);
                      screen = (if changed \<and> tracker_at_boundary vt pane t then tracker_snapshot vt pane t else None);
                      t = (if screen = None then t else mark_stored pane now t)
                  in (resize_shared ser pane rows cols screen s, t))"

text \<open>The output half of a pass: every chunk, the updates that ended on the clock, the paced screens.\<close>

fun record_chunks ::
  "'v vt_ops \<Rightarrow> (pane_id \<times> u8 list) list \<Rightarrow> instant \<Rightarrow> pane_id list \<Rightarrow> shared \<times> 'v tracker \<Rightarrow> pane_id list \<times> shared \<times> 'v tracker" where
  "record_chunks vt [] now restless st = (restless, st)"
| "record_chunks vt ((pane, data) # cs) now restless st =
     (let (moved, st) = record_pane_output vt pane data now st
      in record_chunks vt cs now (if moved \<and> pane \<notin> set restless then restless @ [pane] else restless) st)"

fun store_settled_each :: "(pane_id \<times> observed) list \<Rightarrow> pane_id list \<Rightarrow> shared \<Rightarrow> pane_id list \<times> shared" where
  "store_settled_each [] restless s = (restless, s)"
| "store_settled_each ((pane, obs) # os) restless s =
     store_settled_each os
       (if pm_alt_screen (ob_modes obs) \<and> pane \<notin> set restless then restless @ [pane] else restless)
       (store_settled pane obs s)"

fun store_screens :: "(pane_id \<times> u8 list) list \<Rightarrow> shared \<Rightarrow> shared" where
  "store_screens [] s = s"
| "store_screens ((pane, screen) # rs) s = store_screens rs (store_screen pane screen s)"

definition output_pass ::
  "'v vt_ops \<Rightarrow> pane_id list \<Rightarrow> pane_id list \<Rightarrow> (pane_id \<times> u8 list) list \<Rightarrow> instant \<Rightarrow> shared \<times> 'v tracker \<Rightarrow> shared \<times> 'v tracker" where
  "output_pass vt order order' chunks now st =
     (let (restless, s, t) = record_chunks vt chunks now [] st;
          (settled, t) = tracker_settle_sync vt order now t;
          (restless, s) = store_settled_each settled restless s;
          (screens, t) = settle_restless vt order' restless now t
      in (store_screens screens s, t))"

end
