(* ===== verification/Size_Owner.thy ===== *)
theory Size_Owner
  imports Terminal_Frame Contracts
begin

text \<open>
  Which screen the session's PTYs are fitted to: \<^verbatim>\<open>src/session/size_owner.rs\<close> (the facade)
  and \<^verbatim>\<open>src/session/size_owner_state.rs\<close> (the rules). The state is the record \<open>inner\<close>, the
  fields of \<^verbatim>\<open>Inner\<close>; every operation of the facade takes the lock once, so it is one
  step. The verdicts sent to clients are the contents of each connection's bounded queue;
  rendering a message as JSON is the parameter \<open>ser\<close>. The audit log is not modelled. The
  connection counter and the ownership generation are 64-bit words.
\<close>

definition RELEASE_GRACE :: duration where
  "RELEASE_GRACE = from_secs 2"

datatype viewer_id = Browser rstring | Attached u64

record announce =
  an_viewer :: viewer_id
  an_tx :: "terminal_frame chan"

record inner =
  present :: "viewer_id \<rightharpoonup> nat"
  arrival :: "viewer_id list"
  activity :: "viewer_id list"
  owner :: "viewer_id option"
  generation :: u64
  owner_absent_since :: "instant option"
  announced :: "u64 \<rightharpoonup> announce"
  next_connection :: u64
  wakers :: "nat list"

definition inner_default :: inner where
  "inner_default = \<lparr>present = Map.empty, arrival = [], activity = [], owner = None, generation = 0,
     owner_absent_since = None, announced = Map.empty, next_connection = 0, wakers = []\<rparr>"

definition verdict :: "(server_message \<Rightarrow> rstring option) \<Rightarrow> u64 \<Rightarrow> bool \<Rightarrow> announce \<Rightarrow> announce" where
  "verdict ser gen owned a =
     (case ser (SmSizeOwner owned (dec_str (unat gen))) of
        None \<Rightarrow> a
      | Some json \<Rightarrow> a\<lparr>an_tx := fst (try_send (Control json) (an_tx a))\<rparr>)"

definition tell_one :: "(server_message \<Rightarrow> rstring option) \<Rightarrow> u64 \<Rightarrow> bool \<Rightarrow> inner \<Rightarrow> inner" where
  "tell_one ser connection owned s =
     (case announced s connection of
        None \<Rightarrow> s
      | Some a \<Rightarrow> s\<lparr>announced := (announced s)(connection \<mapsto> verdict ser (generation s) owned a)\<rparr>)"

text \<open>
  \<^verbatim>\<open>tell\<close> visits every connection of the viewer; the visits touch different queues, so the
  hash map's order does not show.
\<close>

definition tell :: "(server_message \<Rightarrow> rstring option) \<Rightarrow> viewer_id \<Rightarrow> bool \<Rightarrow> inner \<Rightarrow> inner" where
  "tell ser viewer owned s =
     s\<lparr>announced := (\<lambda>c. map_option
        (\<lambda>a. if an_viewer a = viewer then verdict ser (generation s) owned a else a) (announced s c))\<rparr>"

definition mark_active :: "viewer_id \<Rightarrow> inner \<Rightarrow> inner" where
  "mark_active viewer s = s\<lparr>activity := removeAll viewer (activity s) @ [viewer]\<rparr>"

definition advance_generation :: "inner \<Rightarrow> inner" where
  "advance_generation s = s\<lparr>generation := generation s + 1\<rparr>"

definition last_opt :: "'a list \<Rightarrow> 'a option" where
  "last_opt xs = (if xs = [] then None else Some (last xs))"

definition expire_absent_owner :: "(server_message \<Rightarrow> rstring option) \<Rightarrow> instant \<Rightarrow> inner \<Rightarrow> inner" where
  "expire_absent_owner ser now s =
     (case owner_absent_since s of
        None \<Rightarrow> s
      | Some since \<Rightarrow>
          if now - since < RELEASE_GRACE then s
          else
            let gone = owner s;
                heir = (case last_opt (activity s) of Some v \<Rightarrow> Some v | None \<Rightarrow> last_opt (arrival s));
                s1 = s\<lparr>owner_absent_since := None, owner := heir\<rparr>;
                s2 = (if gone \<noteq> heir then advance_generation s1 else s1)
            in (case heir of None \<Rightarrow> s2 | Some v \<Rightarrow> tell ser v True s2))"

definition hand_over :: "(server_message \<Rightarrow> rstring option) \<Rightarrow> viewer_id \<Rightarrow> inner \<Rightarrow> inner" where
  "hand_over ser viewer s =
     (let displaced = owner s;
          s1 = advance_generation (s\<lparr>owner_absent_since := None, owner := Some viewer\<rparr>);
          s2 = tell ser viewer True s1
      in case displaced of None \<Rightarrow> s2 | Some d \<Rightarrow> tell ser d False s2)"

text \<open>The bookkeeping half of \<^verbatim>\<open>join\<close>: the new connection is counted, ordered and announced.\<close>

definition register :: "viewer_id \<Rightarrow> terminal_frame chan \<Rightarrow> inner \<Rightarrow> u64 \<times> inner" where
  "register viewer tx s =
     (let connection = next_connection s;
          count = (case present s viewer of None \<Rightarrow> 0 | Some n \<Rightarrow> n) + 1;
          s = s\<lparr>next_connection := connection + 1, present := (present s)(viewer \<mapsto> count)\<rparr>;
          s = (if count = 1 then s\<lparr>arrival := arrival s @ [viewer]\<rparr> else s);
          s = (if owner s = Some viewer then s\<lparr>owner_absent_since := None\<rparr> else s)
      in (connection, s\<lparr>announced := (announced s)(connection \<mapsto> \<lparr>an_viewer = viewer, an_tx = tx\<rparr>)\<rparr>))"

definition join ::
  "(server_message \<Rightarrow> rstring option) \<Rightarrow> viewer_id \<Rightarrow> terminal_frame chan \<Rightarrow> instant \<Rightarrow> inner \<Rightarrow> u64 \<times> inner" where
  "join ser viewer tx now s0 =
     (let (connection, s) = register viewer tx (expire_absent_owner ser now s0);
          unowned = (owner s = None);
          took = (unowned \<and> owner s \<noteq> Some viewer)
      in (connection,
          if took then hand_over ser viewer (mark_active viewer s)
          else tell_one ser connection (owner s = Some viewer) s))"

definition leave :: "u64 \<Rightarrow> instant \<Rightarrow> inner \<Rightarrow> bool \<times> inner" where
  "leave connection now s =
     (case announced s connection of
        None \<Rightarrow> (False, s)
      | Some gone \<Rightarrow>
          let v = an_viewer gone;
              s = s\<lparr>announced := (announced s)(connection := None)\<rparr>;
              (still_present, s) =
                (case present s v of
                   Some count \<Rightarrow> (count - 1 > 0, s\<lparr>present := (present s)(v \<mapsto> count - 1)\<rparr>)
                 | None \<Rightarrow> (False, s))
          in if still_present then (False, s)
             else
               let s = s\<lparr>present := (present s)(v := None), arrival := removeAll v (arrival s),
                         activity := removeAll v (activity s)\<rparr>
               in if owner s = Some v then (True, s\<lparr>owner_absent_since := Some now\<rparr>) else (False, s))"

definition next_deadline :: "inner \<Rightarrow> instant option" where
  "next_deadline s = map_option (\<lambda>since. since + RELEASE_GRACE) (owner_absent_since s)"

definition claim :: "(server_message \<Rightarrow> rstring option) \<Rightarrow> u64 \<Rightarrow> instant \<Rightarrow> inner \<Rightarrow> inner" where
  "claim ser connection now s0 =
     (let s = expire_absent_owner ser now s0
      in case announced s connection of
           None \<Rightarrow> s
         | Some a \<Rightarrow>
             let viewer = an_viewer a;
                 s = mark_active viewer s
             in if owner s = Some viewer then tell_one ser connection True s
                else hand_over ser viewer s)"

definition owns :: "inner \<Rightarrow> u64 \<Rightarrow> bool" where
  "owns s connection =
     (case announced s connection of None \<Rightarrow> False | Some a \<Rightarrow> owner s = Some (an_viewer a))"

definition owner_generation :: "inner \<Rightarrow> u64 \<Rightarrow> u64 option" where
  "owner_generation s connection = (if owns s connection then Some (generation s) else None)"

definition with_owner_generation :: "inner \<Rightarrow> u64 \<Rightarrow> u64 \<Rightarrow> (unit \<Rightarrow> 'r) \<Rightarrow> 'r option" where
  "with_owner_generation s connection gen f =
     (if owner_generation s connection = Some gen then Some (f ()) else None)"

section \<open>The facade\<close>

definition attach :: "nat \<Rightarrow> inner \<Rightarrow> inner" where
  "attach wake s = s\<lparr>wakers := wakers s @ [wake]\<rparr>"

text \<open>\<open>live\<close> says which hubs' wake handles still have an owner; the hubs woken are the result.\<close>

definition wake_hubs :: "(nat \<Rightarrow> bool) \<Rightarrow> inner \<Rightarrow> nat list \<times> inner" where
  "wake_hubs live s = (filter live (wakers s), s\<lparr>wakers := filter live (wakers s)\<rparr>)"

definition leave_and_wake :: "(nat \<Rightarrow> bool) \<Rightarrow> u64 \<Rightarrow> instant \<Rightarrow> inner \<Rightarrow> nat list \<times> inner" where
  "leave_and_wake live connection now s =
     (let (started, s) = leave connection now s
      in if started then wake_hubs live s else ([], s))"

datatype so_event =
    Join viewer_id "terminal_frame chan" instant
  | Leave u64 instant "nat \<Rightarrow> bool"
  | Claim u64 instant
  | Settle instant
  | AttachHub nat

fun so_step :: "(server_message \<Rightarrow> rstring option) \<Rightarrow> inner \<Rightarrow> so_event \<Rightarrow> inner" where
  "so_step ser s (Join v tx now) = snd (join ser v tx now s)"
| "so_step ser s (Leave c now live) = snd (leave_and_wake live c now s)"
| "so_step ser s (Claim c now) = claim ser c now s"
| "so_step ser s (Settle now) = expire_absent_owner ser now s"
| "so_step ser s (AttachHub w) = attach w s"

section \<open>What the verdicts leave alone\<close>

definition viewer_of :: "inner \<Rightarrow> u64 \<rightharpoonup> viewer_id" where
  "viewer_of s c = map_option an_viewer (announced s c)"

definition conns :: "inner \<Rightarrow> viewer_id \<Rightarrow> u64 set" where
  "conns s v = {c. viewer_of s c = Some v}"

text \<open>Every field but the queues, the generation and the wake handles.\<close>

definition core ::
  "inner \<Rightarrow> (u64 \<rightharpoonup> viewer_id) \<times> u64 \<times> (viewer_id \<rightharpoonup> nat) \<times> viewer_id list \<times> viewer_id list
     \<times> viewer_id option \<times> instant option" where
  "core s = (viewer_of s, next_connection s, present s, arrival s, activity s, owner s, owner_absent_since s)"

lemma verdict_viewer [simp]: "an_viewer (verdict ser g o' a) = an_viewer a"
  by (simp add: verdict_def split: option.split)

lemma core_tell [simp]: "core (tell ser v b s) = core s"
  by (auto simp: core_def viewer_of_def tell_def fun_eq_iff option.map_comp comp_def
      intro!: option.map_cong)

lemma core_tell_one [simp]: "core (tell_one ser c b s) = core s"
  by (auto simp: core_def viewer_of_def tell_one_def fun_eq_iff split: option.split)

lemma core_advance [simp]: "core (advance_generation s) = core s"
  by (simp add: core_def viewer_of_def advance_generation_def fun_eq_iff)

lemma gen_tell [simp]: "generation (tell ser v b s) = generation s"
  by (simp add: tell_def)

lemma gen_tell_one [simp]: "generation (tell_one ser c b s) = generation s"
  by (simp add: tell_one_def split: option.split)

lemma coreD:
  assumes "core s = core t"
  shows "viewer_of s = viewer_of t" "next_connection s = next_connection t" "present s = present t"
    "arrival s = arrival t" "activity s = activity t" "owner s = owner t"
    "owner_absent_since s = owner_absent_since t"
  using assms by (simp_all add: core_def)

lemmas tell_core [simp] = coreD [OF core_tell] coreD [OF core_tell_one] coreD [OF core_advance]

lemma core_hand_over:
  "core (hand_over ser v s) = core (s\<lparr>owner_absent_since := None, owner := Some v\<rparr>)"
  by (simp add: hand_over_def Let_def split: option.split)

lemma gen_hand_over [simp]: "generation (hand_over ser v s) = generation s + 1"
  by (simp add: hand_over_def Let_def advance_generation_def split: option.split)

definition heir :: "inner \<Rightarrow> viewer_id option" where
  "heir s = (case last_opt (activity s) of Some v \<Rightarrow> Some v | None \<Rightarrow> last_opt (arrival s))"

definition lapsed :: "instant \<Rightarrow> inner \<Rightarrow> bool" where
  "lapsed now s \<longleftrightarrow> (\<exists>since. owner_absent_since s = Some since \<and> RELEASE_GRACE \<le> now - since)"

lemma core_expire:
  "core (expire_absent_owner ser now s) =
     (if lapsed now s then core (s\<lparr>owner_absent_since := None, owner := heir s\<rparr>) else core s)"
  by (auto simp: expire_absent_owner_def lapsed_def heir_def Let_def split: option.splits)

lemma gen_expire:
  "generation (expire_absent_owner ser now s) =
     (if lapsed now s \<and> owner s \<noteq> heir s then generation s + 1 else generation s)"
  by (auto simp: expire_absent_owner_def lapsed_def heir_def Let_def advance_generation_def split: option.splits)

section \<open>The invariant\<close>

text \<open>
  The bookkeeping agrees with the registered connections, and the ownership agrees with the
  bookkeeping: somebody owns the sizing whenever anybody is present, and the release grace
  runs exactly while the owner has no connection.
\<close>

definition so_book :: "inner \<Rightarrow> bool" where
  "so_book s \<longleftrightarrow>
     finite (dom (viewer_of s))
     \<and> (\<forall>c \<in> dom (viewer_of s). c < next_connection s)
     \<and> (\<forall>v. present s v = (if conns s v = {} then None else Some (card (conns s v))))
     \<and> distinct (arrival s) \<and> set (arrival s) = dom (present s)
     \<and> distinct (activity s) \<and> set (activity s) \<subseteq> dom (present s)"

definition so_own :: "inner \<Rightarrow> bool" where
  "so_own s \<longleftrightarrow>
     (owner s = None \<longrightarrow> dom (present s) = {})
     \<and> (owner_absent_since s \<noteq> None \<longleftrightarrow> (\<exists>v. owner s = Some v \<and> present s v = None))"

definition so_inv :: "inner \<Rightarrow> bool" where
  "so_inv s \<longleftrightarrow> so_book s \<and> so_own s"

lemma viewer_of_updates [simp]:
  "viewer_of (owner_update f s) = viewer_of s"
  "viewer_of (owner_absent_since_update g s) = viewer_of s"
  "viewer_of (activity_update h s) = viewer_of s"
  by (simp_all add: viewer_of_def fun_eq_iff)

lemma conns_updates [simp]:
  "conns (owner_update f s) = conns s"
  "conns (owner_absent_since_update g s) = conns s"
  "conns (activity_update h s) = conns s"
  by (simp_all add: conns_def fun_eq_iff)

lemma so_book_updates [simp]:
  "so_book (owner_update f s) = so_book s"
  "so_book (owner_absent_since_update g s) = so_book s"
  by (simp_all add: so_book_def)

lemma so_book_mark_active: "so_book s \<Longrightarrow> v \<in> dom (present s) \<Longrightarrow> so_book (mark_active v s)"
  by (auto simp: so_book_def mark_active_def distinct_removeAll)

lemma so_inv_core: "core s = core t \<Longrightarrow> so_inv s = so_inv t"
  using coreD [of s t] by (simp add: so_inv_def so_book_def so_own_def conns_def)

lemma so_inv_hand_over:
  assumes "so_book s" "v \<in> dom (present s)"
  shows "so_inv (hand_over ser v (mark_active v s))"
proof -
  have "so_inv ((mark_active v s)\<lparr>owner_absent_since := None, owner := Some v\<rparr>)"
    using so_book_mark_active [OF assms] assms(2) by (auto simp: so_inv_def so_own_def mark_active_def)
  then show ?thesis using so_inv_core [OF core_hand_over] by blast
qed

lemma so_inv_default: "so_inv inner_default"
proof -
  have "viewer_of inner_default = Map.empty" by (simp add: viewer_of_def inner_default_def fun_eq_iff)
  then show ?thesis by (simp add: so_inv_def so_book_def so_own_def conns_def) (simp add: inner_default_def)
qed

lemma so_invD:
  assumes "so_inv s"
  shows "finite (dom (viewer_of s))" "c \<in> dom (viewer_of s) \<Longrightarrow> c < next_connection s"
    "present s v = (if conns s v = {} then None else Some (card (conns s v)))"
    "distinct (arrival s)" "set (arrival s) = dom (present s)"
    "distinct (activity s)" "set (activity s) \<subseteq> dom (present s)"
    "owner s = None \<Longrightarrow> dom (present s) = {}"
    "owner_absent_since s \<noteq> None \<longleftrightarrow> (\<exists>v. owner s = Some v \<and> present s v = None)"
  using assms unfolding so_inv_def so_book_def so_own_def by blast+

lemma last_opt_simps: "last_opt xs = Some x \<Longrightarrow> x \<in> set xs" "last_opt xs = None \<longleftrightarrow> xs = []"
  by (auto simp: last_opt_def split: if_splits)

lemma heir_present: "so_inv s \<Longrightarrow> heir s = Some v \<Longrightarrow> v \<in> dom (present s)"
  using so_invD(5,7) [of s] by (auto simp: heir_def split: option.splits dest!: last_opt_simps(1))

lemma heir_None: "so_inv s \<Longrightarrow> heir s = None \<longleftrightarrow> dom (present s) = {}"
proof -
  assume "so_inv s"
  then have "set (arrival s) = dom (present s)" "set (activity s) \<subseteq> dom (present s)"
    by (rule so_invD)+
  moreover have "heir s = None \<longleftrightarrow> activity s = [] \<and> arrival s = []"
    by (auto simp: heir_def last_opt_def)
  ultimately show ?thesis by (metis set_empty subset_empty)
qed

lemma so_inv_expire: "so_inv s \<Longrightarrow> so_inv (expire_absent_owner ser now s)"
proof (cases "lapsed now s")
  case True
  assume inv: "so_inv s"
  let ?t = "s\<lparr>owner_absent_since := None, owner := heir s\<rparr>"
  have "heir s = None \<longrightarrow> dom (present s) = {}" "\<And>v. heir s = Some v \<Longrightarrow> present s v \<noteq> None"
    using heir_None [OF inv] heir_present [OF inv] by auto
  then have "so_inv ?t" using inv by (auto simp: so_inv_def so_own_def)
  moreover have "core (expire_absent_owner ser now s) = core ?t"
    using True by (simp add: core_expire)
  ultimately show ?thesis using so_inv_core by blast
next
  case False
  assume "so_inv s"
  with False show ?thesis
    using so_inv_core [of "expire_absent_owner ser now s" s] by (simp add: core_expire)
qed

lemma owner_expire:
  "owner (expire_absent_owner ser now s) = (if lapsed now s then heir s else owner s)"
  using coreD(6) [of "expire_absent_owner ser now s" s]
    coreD(6) [of "expire_absent_owner ser now s" "s\<lparr>owner_absent_since := None, owner := heir s\<rparr>"]
  by (simp add: core_expire split: if_splits)

lemma expire_keeps [simp]:
  "viewer_of (expire_absent_owner ser now s) = viewer_of s"
  "next_connection (expire_absent_owner ser now s) = next_connection s"
  "present (expire_absent_owner ser now s) = present s"
  "arrival (expire_absent_owner ser now s) = arrival s"
  "activity (expire_absent_owner ser now s) = activity s"
  using core_expire [of ser now s]
  by (simp_all add: core_def viewer_of_def fun_eq_iff split: if_splits)

section \<open>Every operation keeps the invariant\<close>

text \<open>The counter of connections has room for one more; it would take \<open>2 ^ 64\<close> joins to fail.\<close>

fun so_ok :: "inner \<Rightarrow> so_event \<Rightarrow> bool" where
  "so_ok s (Join _ _ _) = (unat (next_connection s) + 1 < 2 ^ 64)"
| "so_ok s _ = True"

lemma unat_succ: "unat (n :: u64) + 1 < 2 ^ 64 \<Longrightarrow> unat (n + 1) = unat n + 1"
  by (simp add: unat_word_ariths)

abbreviation registered :: "viewer_id \<Rightarrow> terminal_frame chan \<Rightarrow> inner \<Rightarrow> inner" where
  "registered v tx s \<equiv> snd (register v tx s)"

lemma registered_fields [simp]:
  "fst (register v tx s) = next_connection s"
  "next_connection (registered v tx s) = next_connection s + 1"
  "present (registered v tx s) = (present s)(v \<mapsto> (case present s v of None \<Rightarrow> 0 | Some n \<Rightarrow> n) + 1)"
  "arrival (registered v tx s) =
     (if (case present s v of None \<Rightarrow> 0 | Some n \<Rightarrow> n) = 0 then arrival s @ [v] else arrival s)"
  "activity (registered v tx s) = activity s"
  "owner (registered v tx s) = owner s"
  "owner_absent_since (registered v tx s) = (if owner s = Some v then None else owner_absent_since s)"
  "generation (registered v tx s) = generation s"
  "announced (registered v tx s) = (announced s)(next_connection s \<mapsto> \<lparr>an_viewer = v, an_tx = tx\<rparr>)"
  by (simp_all add: register_def Let_def)

lemma snd_join:
  "snd (join ser v tx now s0) =
     (let s = registered v tx (expire_absent_owner ser now s0)
      in if owner s = None then hand_over ser v (mark_active v s)
         else tell_one ser (next_connection s0) (owner s = Some v) s)"
  by (simp add: join_def Let_def case_prod_beta)

lemma viewer_of_registered:
  "viewer_of (registered v tx s) = (viewer_of s)(next_connection s \<mapsto> v)"
  by (auto simp: viewer_of_def fun_eq_iff)

lemma conns_registered:
  assumes "so_inv s"
  shows "conns (registered v tx s) u = (if u = v then insert (next_connection s) (conns s v) else conns s u)"
    and "next_connection s \<notin> conns s u"
proof -
  show fresh: "next_connection s \<notin> conns s u" for u
    using so_invD(2) [OF assms, of "next_connection s"] by (auto simp: conns_def dom_def)
  show "conns (registered v tx s) u = (if u = v then insert (next_connection s) (conns s v) else conns s u)"
    using fresh [of u] by (auto simp: conns_def viewer_of_registered)
qed

lemma finite_conns: "so_inv s \<Longrightarrow> finite (conns s v)"
  by (rule finite_subset [OF _ so_invD(1)]) (auto simp: conns_def)

lemma so_book_registered:
  assumes inv: "so_inv s" and room: "unat (next_connection s) + 1 < 2 ^ 64"
  shows "so_book (registered v tx s)"
  unfolding so_book_def
proof (intro conjI allI)
  show "finite (dom (viewer_of (registered v tx s)))"
    using so_invD(1) [OF inv] by (simp add: viewer_of_registered)
  show "\<forall>c \<in> dom (viewer_of (registered v tx s)). c < next_connection (registered v tx s)"
  proof
    fix c assume "c \<in> dom (viewer_of (registered v tx s))"
    then have "c = next_connection s \<or> c < next_connection s"
      using so_invD(2) [OF inv, of c] by (auto simp: viewer_of_registered split: if_splits)
    then show "c < next_connection (registered v tx s)"
      using unat_succ [OF room] by (auto simp: word_less_nat_alt)
  qed
  show "present (registered v tx s) u =
      (if conns (registered v tx s) u = {} then None else Some (card (conns (registered v tx s) u)))"
    for u
    using so_invD(3) [OF inv, of u] finite_conns [OF inv, of v]
      conns_registered(1) [OF inv, of v tx u] conns_registered(2) [OF inv, of v]
    by auto
  have "present s v = None \<longleftrightarrow> v \<notin> set (arrival s)" using so_invD(5) [OF inv] by auto
  moreover have "present s v \<noteq> Some 0"
    using so_invD(3) [OF inv, of v] finite_conns [OF inv, of v] by (auto split: if_splits)
  ultimately show "distinct (arrival (registered v tx s))"
    "set (arrival (registered v tx s)) = dom (present (registered v tx s))"
    using so_invD(4,5) [OF inv] by (auto split: option.splits)
  show "distinct (activity (registered v tx s))"
    "set (activity (registered v tx s)) \<subseteq> dom (present (registered v tx s))"
    using so_invD(6,7) [OF inv] by auto
qed

lemma so_inv_join:
  assumes inv0: "so_inv s0" and room: "unat (next_connection s0) + 1 < 2 ^ 64"
  shows "so_inv (snd (join ser v tx now s0))"
proof -
  let ?s = "expire_absent_owner ser now s0"
  let ?r = "registered v tx ?s"
  have inv: "so_inv ?s" using inv0 by (rule so_inv_expire)
  have book: "so_book ?r" using inv room by (simp add: so_book_registered)
  have "so_inv (tell_one ser (next_connection s0) (owner ?r = Some v) ?r)" if "owner ?r \<noteq> None"
  proof -
    have "owner_absent_since ?r \<noteq> None \<longleftrightarrow> (\<exists>u. owner ?r = Some u \<and> present ?r u = None)"
      using so_invD(9) [OF inv] by auto
    with that book have "so_inv ?r" by (simp add: so_inv_def so_own_def)
    then show ?thesis using so_inv_core [OF core_tell_one] by blast
  qed
  with so_inv_hand_over [OF book, of v ser] show ?thesis by (simp add: snd_join Let_def)
qed

lemma so_inv_claim: "so_inv s0 \<Longrightarrow> so_inv (claim ser c now s0)"
proof -
  assume "so_inv s0"
  then have inv: "so_inv (expire_absent_owner ser now s0)" (is "so_inv ?s") by (rule so_inv_expire)
  have here: "an_viewer a \<in> dom (present ?s)" if "announced ?s c = Some a" for a
  proof -
    from that have "viewer_of ?s c = Some (an_viewer a)" by (simp only: viewer_of_def option.map)
    then have "c \<in> conns ?s (an_viewer a)" unfolding conns_def by blast
    then show ?thesis using so_invD(3) [OF inv, of "an_viewer a"] by auto
  qed
  have "so_inv (mark_active (an_viewer a) ?s)" if "announced ?s c = Some a" for a
    using inv so_book_mark_active [of ?s, OF _ here [OF that]]
    by (simp add: so_inv_def so_own_def mark_active_def)
  with inv here so_inv_hand_over [of ?s] so_inv_core [OF core_tell_one] show ?thesis
    by (simp add: claim_def Let_def so_inv_def split: option.split)
qed

lemma leave_cases:
  assumes inv: "so_inv s" and c: "viewer_of s c = Some v"
  obtains n where "present s v = Some (Suc n)" "card (conns s v) = Suc n"
    "snd (leave c now s) =
      (if n > 0 then s\<lparr>announced := (announced s)(c := None), present := (present s)(v \<mapsto> n)\<rparr>
       else s\<lparr>announced := (announced s)(c := None), present := (present s)(v := None),
              arrival := removeAll v (arrival s), activity := removeAll v (activity s),
              owner_absent_since := (if owner s = Some v then Some now else owner_absent_since s)\<rparr>)"
    "fst (leave c now s) \<longleftrightarrow> n = 0 \<and> owner s = Some v"
proof -
  from c obtain a where a: "announced s c = Some a" "an_viewer a = v" by (auto simp: viewer_of_def)
  have "c \<in> conns s v" using c by (simp add: conns_def)
  with finite_conns [OF inv, of v] obtain n where n: "card (conns s v) = Suc n"
    by (cases "card (conns s v)") auto
  with \<open>c \<in> conns s v\<close> so_invD(3) [OF inv, of v] have p: "present s v = Some (Suc n)" by auto
  show thesis by (rule that [OF p n]) (simp_all add: leave_def Let_def a p)
qed

lemma conns_leave:
  assumes "viewer_of t = (viewer_of s)(c := None)" "viewer_of s c = Some v"
  shows "conns t u = (if u = v then conns s v - {c} else conns s u)"
  using assms by (auto simp: conns_def)

lemma so_inv_leave: "so_inv s \<Longrightarrow> so_inv (snd (leave c now s))"
proof (cases "viewer_of s c")
  case None
  assume "so_inv s"
  moreover from None have "snd (leave c now s) = s" by (simp add: leave_def viewer_of_def split: option.splits)
  ultimately show ?thesis by simp
next
  case (Some v)
  assume inv: "so_inv s"
  let ?t = "snd (leave c now s)"
  obtain n where n: "present s v = Some (Suc n)" "card (conns s v) = Suc n"
    and t: "?t = (if n > 0 then s\<lparr>announced := (announced s)(c := None), present := (present s)(v \<mapsto> n)\<rparr>
       else s\<lparr>announced := (announced s)(c := None), present := (present s)(v := None),
              arrival := removeAll v (arrival s), activity := removeAll v (activity s),
              owner_absent_since := (if owner s = Some v then Some now else owner_absent_since s)\<rparr>)"
    using leave_cases [OF inv Some] by metis
  have view: "viewer_of ?t = (viewer_of s)(c := None)"
    by (auto simp: t viewer_of_def fun_eq_iff)
  note cs = conns_leave [OF view Some]
  have "c \<in> conns s v" using Some by (simp add: conns_def)
  with finite_conns [OF inv, of v] n(2) have card: "card (conns s v - {c}) = n" by simp
  have pres: "present ?t = (present s)(v := if n > 0 then Some n else None)" by (simp add: t)
  have "present ?t u = (if conns ?t u = {} then None else Some (card (conns ?t u)))" for u
    using so_invD(3) [OF inv, of u] card finite_conns [OF inv, of v] unfolding pres cs by (auto simp: card_gt_0_iff)
  moreover have "finite (dom (viewer_of ?t))" "\<forall>d \<in> dom (viewer_of ?t). d < next_connection ?t"
    using so_invD(1,2) [OF inv] by (simp_all add: view) (auto simp: t split: if_splits)
  moreover have "set (arrival ?t) = dom (present ?t)" "set (activity ?t) \<subseteq> dom (present ?t)"
    using so_invD(5,7) [OF inv] n(1) by (auto simp: pres) (auto simp: t split: if_splits)
  moreover have "distinct (arrival ?t)" "distinct (activity ?t)"
    using so_invD(4,6) [OF inv] by (auto simp: t distinct_removeAll)
  ultimately have "so_book ?t" by (simp add: so_book_def)
  moreover have "so_own ?t"
    using so_invD(8,9) [OF inv] n(1) by (auto simp: so_own_def t)
  ultimately show ?thesis by (simp add: so_inv_def)
qed

lemma so_inv_wakers [simp]: "so_inv (wakers_update f s) = so_inv s"
  by (rule so_inv_core) (simp add: core_def viewer_of_def fun_eq_iff)

lemma so_inv_step: "so_inv s \<Longrightarrow> so_ok s e \<Longrightarrow> so_inv (so_step ser s e)"
proof (cases e)
  case (Leave c now live)
  assume "so_inv s"
  then have "so_inv (snd (leave c now s))" by (rule so_inv_leave)
  with Leave show ?thesis by (simp add: leave_and_wake_def wake_hubs_def case_prod_beta Let_def)
qed (simp_all add: so_inv_join so_inv_claim so_inv_expire attach_def)

interpretation so_machine: event_machine so_ok "so_step ser" so_inv for ser
  by unfold_locales (rule so_inv_step)

lemma next_connection_step:
  "unat (next_connection (so_step ser s e)) \<le> unat (next_connection s) + 1"
proof -
  have plus: "unat (n + 1) \<le> unat n + 1" for n :: u64
    by (simp add: unat_word_ariths)
  show ?thesis
  proof (cases e)
    case (Join v tx now)
    have "next_connection (snd (join ser v tx now s)) = next_connection s + 1"
      by (simp add: snd_join Let_def coreD(2) [OF core_hand_over] mark_active_def)
    with Join plus show ?thesis by simp
  next
    case (Leave c now live)
    then show ?thesis
      by (simp add: leave_and_wake_def wake_hubs_def leave_def Let_def split: option.split prod.split)
  next
    case (Claim c now)
    then show ?thesis
      by (simp add: claim_def Let_def coreD(2) [OF core_hand_over] mark_active_def split: option.split)
  qed (simp_all add: attach_def)
qed

lemma so_run_ok: "unat (next_connection s) + length es < 2 ^ 64 \<Longrightarrow> run_ok so_ok (so_step ser) s es"
proof (induction es arbitrary: s)
  case (Cons e es)
  have "so_ok s e" using Cons.prems by (cases e) auto
  moreover have "unat (next_connection (so_step ser s e)) + length es < 2 ^ 64"
    using Cons.prems next_connection_step [of ser s e] by simp
  ultimately show ?case using Cons.IH by simp
qed simp

section \<open>Who moves the ownership\<close>

lemma join_owner:
  "owner (snd (join ser v tx now s)) =
     (case owner (expire_absent_owner ser now s) of None \<Rightarrow> Some v | Some u \<Rightarrow> Some u)"
  by (simp add: snd_join Let_def coreD(6) [OF core_hand_over] split: option.split)

lemma join_generation:
  "generation (snd (join ser v tx now s)) =
     (let s1 = expire_absent_owner ser now s
      in if owner s1 = None then generation s1 + 1 else generation s1)"
  by (simp add: snd_join Let_def mark_active_def)

lemma leave_keeps: "owner (snd (leave_and_wake live c now s)) = owner s"
  "generation (snd (leave_and_wake live c now s)) = generation s"
  by (simp_all add: leave_and_wake_def wake_hubs_def leave_def Let_def case_prod_beta split: option.split)

lemma viewer_of_Some: "viewer_of s c = Some v \<longleftrightarrow> (\<exists>a. announced s c = Some a \<and> an_viewer a = v)"
  by (auto simp: viewer_of_def)

lemma claim_owner:
  "owner (claim ser c now s) =
     (case viewer_of s c of None \<Rightarrow> owner (expire_absent_owner ser now s) | Some v \<Rightarrow> Some v)"
  "generation (claim ser c now s) =
     (let s1 = expire_absent_owner ser now s
      in case viewer_of s c of
           None \<Rightarrow> generation s1
         | Some v \<Rightarrow> if owner s1 = Some v then generation s1 else generation s1 + 1)"
proof -
  let ?s = "expire_absent_owner ser now s"
  have v: "viewer_of s c = map_option an_viewer (announced ?s c)"
    using expire_keeps(1) [of ser now s] unfolding viewer_of_def by metis
  show "owner (claim ser c now s) =
     (case viewer_of s c of None \<Rightarrow> owner ?s | Some v \<Rightarrow> Some v)"
    unfolding v by (simp add: claim_def Let_def coreD(6) [OF core_hand_over] mark_active_def split: option.split)
  show "generation (claim ser c now s) =
     (let s1 = ?s in case viewer_of s c of
           None \<Rightarrow> generation s1
         | Some v \<Rightarrow> if owner s1 = Some v then generation s1 else generation s1 + 1)"
    unfolding v by (simp add: claim_def Let_def mark_active_def split: option.split)
qed

lemma expire_gen_step:
  "\<exists>k \<le> 1. generation (expire_absent_owner ser now s) = generation s + of_nat k
     \<and> (k = 0 \<longrightarrow> owner (expire_absent_owner ser now s) = owner s)"
  by (cases "lapsed now s \<and> owner s \<noteq> heir s") (auto simp: gen_expire owner_expire intro: exI [of _ 0] exI [of _ 1])

lemma expire_then_one:
  assumes "generation t = generation (expire_absent_owner ser now s) + of_nat j" "j \<le> 1"
    "j = 0 \<longrightarrow> owner t = owner (expire_absent_owner ser now s)"
  shows "\<exists>k \<le> 2. generation t = generation s + of_nat k \<and> (k = 0 \<longrightarrow> owner t = owner s)"
proof -
  obtain k where "k \<le> 1" "generation (expire_absent_owner ser now s) = generation s + of_nat k"
    "k = 0 \<longrightarrow> owner (expire_absent_owner ser now s) = owner s"
    using expire_gen_step by blast
  with assms show ?thesis by (intro exI [of _ "k + j"]) auto
qed

lemma step_generation:
  "\<exists>k \<le> 2. generation (so_step ser s e) = generation s + of_nat k
     \<and> (k = 0 \<longrightarrow> owner (so_step ser s e) = owner s)"
proof (cases e)
  case (Join v tx now)
  let ?s = "expire_absent_owner ser now s"
  show ?thesis unfolding Join
    by (rule expire_then_one [of _ ser now _ "if owner ?s = None then 1 else 0"])
      (auto simp: join_generation join_owner Let_def)
next
  case (Leave c now live)
  then show ?thesis by (intro exI [of _ 0]) (simp add: leave_keeps)
next
  case (Claim c now)
  let ?s = "expire_absent_owner ser now s"
  let ?j = "case viewer_of s c of None \<Rightarrow> 0 :: nat | Some v \<Rightarrow> if owner ?s = Some v then 0 else 1"
  show ?thesis unfolding Claim
    by (rule expire_then_one [of _ ser now _ ?j])
      (auto simp: claim_owner Let_def split: option.split)
next
  case (Settle now)
  show ?thesis unfolding Settle by (rule expire_then_one [of _ ser now _ 0]) auto
next
  case (AttachHub w)
  then show ?thesis by (intro exI [of _ 0]) (simp add: attach_def)
qed

lemma run_generation:
  "\<exists>k \<le> 2 * length es. generation (run (so_step ser) s es) = generation s + of_nat k
     \<and> (k = 0 \<longrightarrow> (\<forall>j. owner (run (so_step ser) s (take j es)) = owner s
            \<and> generation (run (so_step ser) s (take j es)) = generation s))"
proof (induction es arbitrary: s)
  case (Cons e es)
  obtain k where k: "k \<le> 2" "generation (so_step ser s e) = generation s + of_nat k"
    "k = 0 \<longrightarrow> owner (so_step ser s e) = owner s" using step_generation by blast
  obtain m where m: "m \<le> 2 * length es"
    "generation (run (so_step ser) (so_step ser s e) es) = generation (so_step ser s e) + of_nat m"
    "m = 0 \<longrightarrow> (\<forall>j. owner (run (so_step ser) (so_step ser s e) (take j es)) = owner (so_step ser s e)
       \<and> generation (run (so_step ser) (so_step ser s e) (take j es)) = generation (so_step ser s e))"
    using Cons.IH by blast
  show ?case using k m by (intro exI [of _ "k + m"]) (auto simp: take_Cons split: nat.split)
qed simp

lemma same_generation:
  assumes len: "2 * length es < 2 ^ 64"
    and gen: "generation (run (so_step ser) s es) = generation s"
  shows "owner (run (so_step ser) s (take j es)) = owner s"
    and "generation (run (so_step ser) s (take j es)) = generation s"
proof -
  obtain k where k: "k \<le> 2 * length es" "generation (run (so_step ser) s es) = generation s + of_nat k"
    "k = 0 \<longrightarrow> (\<forall>j. owner (run (so_step ser) s (take j es)) = owner s
       \<and> generation (run (so_step ser) s (take j es)) = generation s)"
    using run_generation by blast
  from gen k(2) have "(of_nat k :: u64) = 0" by simp
  with k(1) len have "k = 0" by (simp add: word_unat_eq_iff unsigned_of_nat take_bit_nat_eq_self)
  with k(3) show "owner (run (so_step ser) s (take j es)) = owner s"
    "generation (run (so_step ser) s (take j es)) = generation s" by auto
qed

text \<open>
  \<^bold>\<open>C27\<close>. A resize queued under one ownership is not applied under another. If a connection held the
  sizing with generation \<open>g\<close> when the request was queued, and after any sequence of arrivals, departures,
  claims and grace expiries the check for \<open>g\<close> still passes, then the owner and the generation were
  the same at every moment in between, and both checks were made for that owner: ownership that
  moved away and back is told apart (short of \<open>2 ^ 63\<close> operations, where the counter could wrap).
\<close>

theorem resize_authority:
  assumes "2 * length es < 2 ^ 64"
    and "owner_generation s c = Some g"
    and "with_owner_generation (run (so_step ser) s es) c' g f = Some r"
  shows "r = f () \<and> viewer_of s c = owner s \<and> viewer_of (run (so_step ser) s es) c' = owner s
    \<and> (\<forall>j. owner (run (so_step ser) s (take j es)) = owner s
          \<and> generation (run (so_step ser) s (take j es)) = g)"
proof -
  let ?t = "run (so_step ser) s es"
  have s: "viewer_of s c = owner s" "generation s = g"
    using assms(2) by (auto simp: owner_generation_def owns_def viewer_of_def split: option.splits if_splits)
  have t: "viewer_of ?t c' = owner ?t" "generation ?t = g" "r = f ()"
    using assms(3) by (auto simp: with_owner_generation_def owner_generation_def owns_def viewer_of_def
        split: option.splits if_splits)
  from t(2) s(2) have "generation ?t = generation s" by simp
  note same = same_generation [OF assms(1) this]
  show ?thesis using s t same same(1) [of "length es"] by auto
qed

theorem resize_authority_witness:
  "\<exists>ser s c g es (f :: unit \<Rightarrow> bool) r. es \<noteq> [] \<and> owner_generation s c = Some g
     \<and> with_owner_generation (run (so_step ser) s es) c g f = Some r
     \<and> owner (run (so_step ser) s (take 1 es)) = owner s"
proof -
  let ?ser = "\<lambda>_. None :: rstring option"
  let ?tx = "\<lparr>ch_queue = [], ch_cap = 8, ch_open = True\<rparr>"
  let ?s = "so_step ?ser inner_default (Join (Attached 7) ?tx 0)"
  let ?es = "[Join (Attached 9) ?tx 1]"
  have a: "owner_generation ?s 0 = Some 1" by code_simp
  have b: "with_owner_generation (run (so_step ?ser) ?s ?es) 0 1 (\<lambda>_. True) = Some True" by code_simp
  have c: "2 * length ?es < 2 ^ 64" by simp
  have d: "owner (run (so_step ?ser) ?s (take 1 ?es)) = owner ?s" using resize_authority [OF c a b] by blast
  have "?es \<noteq> []" by simp
  with a b d show ?thesis by (intro exI conjI)
qed

fun so_time :: "so_event \<Rightarrow> instant option" where
  "so_time (Join _ _ now) = Some now"
| "so_time (Claim _ now) = Some now"
| "so_time (Settle now) = Some now"
| "so_time _ = None"

text \<open>
  Arrival is passive and departure moves nothing by itself: a step that changes the owner is a
  bootstrap (nobody owned the sizing and the arriving viewer takes it), a claim by the viewer
  that becomes the owner, or comes after the absent owner's two seconds of grace, and then the new owner is
  the joining or claiming viewer or the heir, the last viewer to have interacted or else the last to arrive.
\<close>

theorem ownership_moves:
  assumes "owner (so_step ser s e) \<noteq> owner s"
  shows "(\<exists>v tx now. e = Join v tx now \<and> owner s = None \<and> owner (so_step ser s e) = Some v)
    \<or> (\<exists>c now v. e = Claim c now \<and> viewer_of s c = Some v \<and> owner (so_step ser s e) = Some v)
    \<or> (\<exists>now since. so_time e = Some now \<and> owner_absent_since s = Some since \<and> RELEASE_GRACE \<le> now - since
         \<and> (owner (so_step ser s e) = heir s
            \<or> (\<exists>v tx. e = Join v tx now \<and> heir s = None \<and> owner (so_step ser s e) = Some v)))"
proof (cases e)
  case (Join v tx now)
  with assms show ?thesis
    by (cases "lapsed now s"; cases "heir s"; cases "owner s") (auto simp: join_owner owner_expire dest!: lapsed_def [THEN iffD1])
next
  case (Leave c now live)
  with assms show ?thesis by (simp add: leave_keeps)
next
  case (Claim c now)
  with assms show ?thesis
    by (cases "lapsed now s"; cases "viewer_of s c") (auto simp: claim_owner owner_expire dest!: lapsed_def [THEN iffD1])
next
  case (Settle now)
  with assms show ?thesis by (auto simp: owner_expire lapsed_def split: if_splits)
next
  case (AttachHub w)
  with assms show ?thesis by (simp add: attach_def)
qed

theorem ownership_moves_witness:
  "\<exists>ser s e. owner (so_step ser s e) \<noteq> owner s \<and> owner s \<noteq> None
     \<and> ((\<exists>v tx now. e = Join v tx now) \<or> (\<exists>c now. e = Claim c now) \<or> so_time e \<noteq> None)"
proof -
  let ?ser = "\<lambda>_. None :: rstring option"
  let ?tx = "\<lparr>ch_queue = [], ch_cap = 8, ch_open = True\<rparr>"
  let ?s = "run (so_step ?ser) inner_default [Join (Attached 7) ?tx 0, Join (Attached 9) ?tx 1]"
  have a: "owner (so_step ?ser ?s (Claim 1 2)) \<noteq> owner ?s" "owner ?s \<noteq> None" by code_simp+
  from ownership_moves [OF a(1)] a show ?thesis by blast
qed

text \<open>
  Every state the session reaches from its start (in fewer than \<open>2 ^ 64\<close> operations) has sound bookkeeping:
  a viewer is present exactly when a registered connection is its own and with exactly that many,
  the arrival order lists the present viewers once each, only present viewers count as active, somebody owns
  the sizing whenever anybody is present, and the grace runs exactly while the owner has no connection.
\<close>

theorem size_owner_invariant:
  assumes "length es < 2 ^ 64"
  shows "so_inv (run (so_step ser) inner_default es)"
proof -
  have "run_ok so_ok (so_step ser) inner_default es"
    by (rule so_run_ok) (use assms in \<open>simp add: inner_default_def\<close>)
  then show ?thesis by (rule so_machine.run_inv [OF so_inv_default])
qed

theorem size_owner_invariant_witness:
  "so_inv (run (so_step (\<lambda>_. None)) inner_default
     [Join (Attached 7) \<lparr>ch_queue = [], ch_cap = 8, ch_open = True\<rparr> 0, Leave 0 5 (\<lambda>_. True), Settle 9])"
  by (rule size_owner_invariant) simp

section \<open>What the viewers are told\<close>

definition roomy :: "announce \<Rightarrow> bool" where
  "roomy a \<longleftrightarrow> ch_open (an_tx a) \<and> length (ch_queue (an_tx a)) < ch_cap (an_tx a)"

definition says :: "(server_message \<Rightarrow> rstring option) \<Rightarrow> u64 \<Rightarrow> bool \<Rightarrow> announce \<Rightarrow> bool" where
  "says ser g owned a \<longleftrightarrow>
     (roomy a \<longrightarrow> last_opt (ch_queue (an_tx a)) = map_option Control (ser (SmSizeOwner owned (dec_str (unat g)))))"

definition truthful_at :: "(server_message \<Rightarrow> rstring option) \<Rightarrow> inner \<Rightarrow> announce \<Rightarrow> bool" where
  "truthful_at ser s a \<longleftrightarrow>
     (\<exists>g. says ser g (owner s = Some (an_viewer a)) a \<and> (owner s = Some (an_viewer a) \<longrightarrow> g = generation s))"

definition truthful :: "(server_message \<Rightarrow> rstring option) \<Rightarrow> inner \<Rightarrow> bool" where
  "truthful ser s \<longleftrightarrow> (\<forall>c a. announced s c = Some a \<longrightarrow> truthful_at ser s a)"

lemma says_verdict:
  assumes "\<And>m. ser m \<noteq> None"
  shows "says ser g b (verdict ser g b a)"
  using assms [of "SmSizeOwner b (dec_str (unat g))"]
  by (auto simp: says_def verdict_def roomy_def try_send_def last_opt_def split: option.split)

lemma truthful_at_queues [simp]:
  "truthful_at ser (announced_update f s) = truthful_at ser s"
  "truthful_at ser (tell ser v b s) = truthful_at ser s"
  "truthful_at ser (tell_one ser c b s) = truthful_at ser s"
  by (auto simp: truthful_at_def fun_eq_iff)

lemma truthful_at_verdict:
  assumes "\<And>m. ser m \<noteq> None"
  shows "truthful_at ser s (verdict ser (generation s) (owner s = Some (an_viewer a)) a)"
proof -
  have "says ser (generation s) (owner s = Some (an_viewer a))
      (verdict ser (generation s) (owner s = Some (an_viewer a)) a)"
    by (rule says_verdict) (rule assms)
  then show ?thesis unfolding truthful_at_def verdict_viewer by blast
qed

lemma announced_tell:
  "announced (tell ser v b s) c = Some a' \<longleftrightarrow>
     (\<exists>a. announced s c = Some a \<and> (if an_viewer a = v then verdict ser (generation s) b a else a) = a')"
proof -
  have "announced (tell ser v b s) c =
    map_option (\<lambda>a. if an_viewer a = v then verdict ser (generation s) b a else a) (announced s c)"
    by (simp add: tell_def)
  then show ?thesis by (simp only: map_option_eq_Some)
qed

lemma truthful_tell_other:
  assumes tot: "\<And>m. ser m \<noteq> None"
    and rest: "\<And>c a. announced s c = Some a \<Longrightarrow> an_viewer a \<noteq> v \<Longrightarrow> truthful_at ser s a"
  shows "truthful ser (tell ser v (owner s = Some v) s)"
  unfolding truthful_def truthful_at_queues
proof (intro allI impI)
  fix c b assume "announced (tell ser v (owner s = Some v) s) c = Some b"
  then obtain a where a: "announced s c = Some a"
    "(if an_viewer a = v then verdict ser (generation s) (owner s = Some v) a else a) = b"
    unfolding announced_tell by blast
  show "truthful_at ser s b"
    using truthful_at_verdict [of ser s a, OF tot] rest [OF a(1)] a(2) by (cases "an_viewer a = v") auto
qed

lemma truthful_tell_one:
  assumes tot: "\<And>m. ser m \<noteq> None"
    and rest: "\<And>d a. announced s d = Some a \<Longrightarrow> d \<noteq> c \<Longrightarrow> truthful_at ser s a"
    and at_c: "\<And>a. announced s c = Some a \<Longrightarrow> an_viewer a = v"
  shows "truthful ser (tell_one ser c (owner s = Some v) s)"
proof -
  have "truthful_at ser s (verdict ser (generation s) (owner s = Some v) a)" if "announced s c = Some a" for a
    using truthful_at_verdict [of ser s a, OF tot] at_c [OF that] by simp
  with rest show ?thesis
    by (cases "announced s c") (fastforce simp: truthful_def tell_one_def split: if_splits)+
qed

lemma truthful_hand_over:
  assumes tot: "\<And>m. ser m \<noteq> None"
    and no: "owner s \<noteq> Some v"
    and rest: "\<And>c a. announced s c = Some a \<Longrightarrow> an_viewer a \<noteq> v \<Longrightarrow> truthful_at ser s a"
  shows "truthful ser (hand_over ser v s)"
proof -
  let ?s1 = "advance_generation (s\<lparr>owner_absent_since := None, owner := Some v\<rparr>)"
  let ?s2 = "tell ser v True ?s1"
  have own: "owner ?s1 = Some v" "announced ?s1 = announced s" by (simp_all add: advance_generation_def)
  have other: "truthful_at ser t a"
    if "truthful_at ser s a" "an_viewer a \<noteq> v" "owner s \<noteq> Some (an_viewer a)" "owner t = Some v" for a t
    using that by (auto simp: truthful_at_def)
  have s2: "announced ?s2 c = Some a \<Longrightarrow> an_viewer a \<noteq> v \<Longrightarrow> announced s c = Some a" for c a
    by (auto simp: tell_def own split: if_splits)
  have v2: "truthful_at ser ?s2 a" if ann: "announced ?s2 c = Some a" and v: "an_viewer a = v" for c a
  proof -
    from ann obtain a0 where a0: "(if an_viewer a0 = v then verdict ser (generation ?s1) True a0 else a0) = a"
      unfolding announced_tell by blast
    with v have "an_viewer a0 = v" by (metis verdict_viewer)
    with a0 truthful_at_verdict [of ser ?s1 a0, OF tot] show ?thesis by (simp add: own)
  qed
  show ?thesis
  proof (cases "owner s")
    case None
    then have "truthful ser ?s2"
      using v2 s2 rest other [of _ ?s2] own unfolding truthful_def by (metis option.distinct(1) tell_core(6))
    with None show ?thesis by (simp add: hand_over_def Let_def)
  next
    case (Some d)
    with no have d: "(owner ?s2 = Some d) = False" by (simp add: own)
    have "truthful_at ser ?s2 a" if "announced ?s2 c = Some a" "an_viewer a \<noteq> d" for c a
      using v2 [OF that(1)] s2 [OF that(1)] rest [of c a] other [of a ?s2] that(2) Some own by auto
    then have "truthful ser (tell ser d (owner ?s2 = Some d) ?s2)" by (rule truthful_tell_other [OF tot])
    with Some show ?thesis unfolding d by (simp add: hand_over_def Let_def)
  qed
qed

lemma truthful_expire:
  assumes tot: "\<And>m. ser m \<noteq> None" and inv: "so_inv s" and tr: "truthful ser s"
  shows "truthful ser (expire_absent_owner ser now s)"
proof (cases "lapsed now s")
  case False
  then have "expire_absent_owner ser now s = s"
    by (auto simp: expire_absent_owner_def lapsed_def split: option.split)
  with tr show ?thesis by simp
next
  case True
  let ?s1 = "s\<lparr>owner_absent_since := None, owner := heir s\<rparr>"
  let ?s2 = "if owner s \<noteq> heir s then advance_generation ?s1 else ?s1"
  have eq: "expire_absent_owner ser now s = (case heir s of None \<Rightarrow> ?s2 | Some v \<Rightarrow> tell ser v True ?s2)"
    using True by (auto simp: expire_absent_owner_def lapsed_def heir_def Let_def split: option.split)
  have own: "owner ?s2 = heir s" "announced ?s2 = announced s" by (simp_all add: advance_generation_def)
  have "owner s \<noteq> Some (an_viewer a)" if "announced s c = Some a" for c a
  proof -
    from that have "c \<in> conns s (an_viewer a)" by (simp add: conns_def viewer_of_def)
    then have "present s (an_viewer a) \<noteq> None" using so_invD(3) [OF inv, of "an_viewer a"] by auto
    then show ?thesis using so_invD(9) [OF inv] True by (auto simp: lapsed_def)
  qed
  with tr own have old: "announced ?s2 c = Some a \<Longrightarrow> heir s \<noteq> Some (an_viewer a) \<Longrightarrow> truthful_at ser ?s2 a" for c a
    by (auto simp: truthful_def truthful_at_def)
  show ?thesis
  proof (cases "heir s")
    case None
    then show ?thesis using old eq by (simp add: truthful_def)
  next
    case (Some v)
    with own truthful_tell_other [of ser ?s2 v, OF tot old] show ?thesis by (auto simp: eq)
  qed
qed

lemma truthful_at_cong:
  "owner s = owner t \<Longrightarrow> generation s = generation t \<Longrightarrow> truthful_at ser s a = truthful_at ser t a"
  by (simp add: truthful_at_def)

lemma truthful_join:
  assumes tot: "\<And>m. ser m \<noteq> None" and inv: "so_inv s0" and tr: "truthful ser s0"
  shows "truthful ser (snd (join ser v tx now s0))"
proof -
  let ?s = "expire_absent_owner ser now s0"
  let ?r = "registered v tx ?s"
  have tr_s: "truthful ser ?s" using tot inv tr by (rule truthful_expire)
  have same: "truthful_at ser ?r = truthful_at ser ?s" "truthful_at ser (mark_active v ?r) = truthful_at ser ?s"
    by (auto simp: fun_eq_iff mark_active_def intro!: truthful_at_cong)
  have old: "truthful_at ser ?s a" if "announced ?r d = Some a" "d \<noteq> next_connection ?s" for d a
    using that tr_s by (auto simp: truthful_def)
  have new: "an_viewer a = v" if "announced ?r (next_connection ?s) = Some a" for a
    using that by auto
  show ?thesis
  proof (cases "owner ?r = None")
    case True
    have "truthful ser (hand_over ser v (mark_active v ?r))"
    proof (rule truthful_hand_over [OF tot])
      show "owner (mark_active v ?r) \<noteq> Some v" using True by (simp add: mark_active_def)
      show "truthful_at ser (mark_active v ?r) a"
        if "announced (mark_active v ?r) d = Some a" "an_viewer a \<noteq> v" for d a
        using that old [of d a] new [of a] unfolding same by (cases "d = next_connection ?s") (auto simp: mark_active_def)
    qed
    with True show ?thesis by (simp add: snd_join Let_def)
  next
    case False
    have "truthful ser (tell_one ser (next_connection ?s) (owner ?r = Some v) ?r)"
      by (rule truthful_tell_one [OF tot]) (use old new in \<open>auto simp: same\<close>)
    with False show ?thesis unfolding snd_join Let_def if_not_P [OF False] by simp
  qed
qed

lemma truthful_claim:
  assumes tot: "\<And>m. ser m \<noteq> None" and inv: "so_inv s0" and tr: "truthful ser s0"
  shows "truthful ser (claim ser c now s0)"
proof -
  let ?s = "expire_absent_owner ser now s0"
  have tr_s: "truthful ser ?s" using tot inv tr by (rule truthful_expire)
  have same: "truthful_at ser (mark_active v ?s) = truthful_at ser ?s" for v
    by (auto simp: fun_eq_iff mark_active_def intro!: truthful_at_cong)
  have ann: "announced (mark_active v ?s) = announced ?s" "owner (mark_active v ?s) = owner ?s" for v
    by (simp_all add: mark_active_def)
  show ?thesis
  proof (cases "announced ?s c")
    case None
    with tr_s show ?thesis by (simp add: claim_def Let_def)
  next
    case (Some a)
    let ?v = "an_viewer a"
    have "truthful ser (tell_one ser c (owner (mark_active ?v ?s) = Some ?v) (mark_active ?v ?s))"
      by (rule truthful_tell_one [OF tot]) (use tr_s Some in \<open>auto simp: same ann truthful_def\<close>)
    moreover have "owner ?s \<noteq> Some ?v \<Longrightarrow> truthful ser (hand_over ser ?v (mark_active ?v ?s))"
      by (rule truthful_hand_over [OF tot]) (use tr_s in \<open>auto simp: same ann truthful_def\<close>)
    ultimately show ?thesis using Some by (auto simp: claim_def Let_def ann)
  qed
qed

lemma truthful_leave:
  assumes "truthful ser s"
  shows "truthful ser (snd (leave_and_wake live c now s))"
proof -
  have "announced (snd (leave_and_wake live c now s)) d = Some a \<Longrightarrow> announced s d = Some a" for d a
    by (auto simp: leave_and_wake_def wake_hubs_def leave_def Let_def case_prod_beta split: option.splits if_splits)
  with assms truthful_at_cong [OF leave_keeps] show ?thesis unfolding truthful_def by metis
qed

lemma truthful_step:
  assumes "\<And>m. ser m \<noteq> None" "so_inv s \<and> truthful ser s" "so_ok s e"
  shows "so_inv (so_step ser s e) \<and> truthful ser (so_step ser s e)"
proof -
  have "truthful ser (so_step ser s e)"
  proof (cases e)
    case (AttachHub w)
    have "truthful_at ser (attach w s) = truthful_at ser s"
      by (auto simp: fun_eq_iff attach_def intro!: truthful_at_cong)
    with AttachHub assms(2) show ?thesis by (simp add: truthful_def) (simp add: attach_def)
  qed (use assms truthful_join truthful_claim truthful_leave truthful_expire in auto)
  then show ?thesis using assms so_inv_step by blast
qed



end
