(* ===== verification/Hub_Session.thy ===== *)
theory Hub_Session
  imports Hub_Worker Hub_Output Size_Owner "HOL-Library.Product_Lexorder"
begin

text \<open>
  A client's side of a hub, \<^verbatim>\<open>src/session/terminal/session.rs\<close>: what each message of a client does, with the queues between a
  connection and the worker: the bounded command queue (\<^verbatim>\<open>hub_helpers.rs\<close>), the latest-value map of pane sizes (\<^verbatim>\<open>hub_layout.rs\<close>)
  and the set of panes to close (\<^verbatim>\<open>hub_panes.rs\<close>). Whether the operating system takes a new size is an argument; log lines
  and wake-ups are not modelled.
\<close>

section \<open>Sizes waiting for the worker\<close>

record pending_resize =
  pr_pane :: pane_id
  pr_rows :: u16
  pr_cols :: u16
  pr_client :: u64
  pr_connection :: u64
  pr_generation :: u64

type_synonym resizes = "((u64 \<times> pane_id) \<times> pending_resize) list"

definition queue_resize :: "shared \<Rightarrow> inner \<Rightarrow> pane_id \<Rightarrow> u16 \<Rightarrow> u16 \<Rightarrow> u64 \<Rightarrow> u64 \<Rightarrow> resizes \<Rightarrow> resizes" where
  "queue_resize s own pane rows cols client connection q =
     (if \<not> pane_live pane s then q
      else case owner_generation own connection of
             None \<Rightarrow> q
           | Some gen \<Rightarrow>
               bt_insert (connection, pane)
                 \<lparr>pr_pane = pane, pr_rows = rows, pr_cols = cols, pr_client = client, pr_connection = connection,
                  pr_generation = gen\<rparr> q)"

definition discard_pending_resizes :: "u64 \<Rightarrow> resizes \<Rightarrow> resizes" where
  "discard_pending_resizes connection q = filter (\<lambda>((c, _), _). c \<noteq> connection) q"

definition take_pending_resizes :: "resizes \<Rightarrow> pending_resize list \<times> resizes" where
  "take_pending_resizes q = (map snd q, [])"

definition pane_size_of :: "pane_id \<Rightarrow> shared \<Rightarrow> (u16 \<times> u16) option" where
  "pane_size_of pane s = map_option (\<lambda>p. (pn_rows p, pn_cols p)) (find_pane pane s)"

definition resize_pane ::
  "'v vt_ops \<Rightarrow> (server_message \<Rightarrow> rstring option) \<Rightarrow> inner \<Rightarrow> bool \<Rightarrow> instant \<Rightarrow> pending_resize \<Rightarrow> shared \<times> 'v tracker \<Rightarrow> shared \<times> 'v tracker" where
  "resize_pane vt ser own applied now r st =
     (case with_owner_generation own (pr_connection r) (pr_generation r)
             (\<lambda>_. if \<not> list_ex (\<lambda>c. cl_id c = pr_client r \<and> cl_connection c = Some (pr_connection r)) (sh_clients (fst st)) then st
                  else resize_locked vt ser (pr_pane r) (pr_rows r) (pr_cols r) applied now st) of
        None \<Rightarrow> st
      | Some st \<Rightarrow> st)"

definition COMMANDS_BETWEEN_RESIZES :: nat where
  "COMMANDS_BETWEEN_RESIZES = 64"

definition resize_due_before_command :: "nat \<Rightarrow> bool \<times> nat" where
  "resize_due_before_command n =
     (let due = (n = COMMANDS_BETWEEN_RESIZES) in (due, if due then 1 else n + 1))"

section \<open>Panes to close\<close>

definition queue_close :: "pane_id \<Rightarrow> pane_id list \<Rightarrow> pane_id list" where
  "queue_close pane q = insort_insert pane q"

definition take_pending_closes :: "pane_id list \<Rightarrow> pane_id list \<times> pane_id list" where
  "take_pending_closes q = (q, [])"

section \<open>Reports\<close>

definition REPORTS_PER_WINDOW :: u32 where
  "REPORTS_PER_WINDOW = 120"

definition REPORT_WINDOW :: duration where
  "REPORT_WINDOW = from_secs 60"

record report_budget =
  rb_start :: instant
  rb_spent :: u32

definition report_budget_new :: "instant \<Rightarrow> report_budget" where
  "report_budget_new now = \<lparr>rb_start = now, rb_spent = 0\<rparr>"

definition allow_report :: "instant \<Rightarrow> report_budget \<Rightarrow> report_budget \<times> bool" where
  "allow_report now b =
     (let b = (if now - rb_start b \<ge> REPORT_WINDOW then \<lparr>rb_start = now, rb_spent = 0\<rparr> else b)
      in if rb_spent b \<ge> REPORTS_PER_WINDOW then (b, False) else (b\<lparr>rb_spent := rb_spent b + 1\<rparr>, True))"

definition MAX_CODE_LEN :: nat where
  "MAX_CODE_LEN = 16"

definition sanitized_code :: "rstring \<Rightarrow> rstring" where
  "sanitized_code raw =
     (let cleaned = take MAX_CODE_LEN (filter is_ascii_alphanumeric raw)
      in if cleaned = [] then lit ''unknown'' else cleaned)"

section \<open>Messages\<close>

datatype hub_command =
    HcCreate u16 u16 u64 "rstring option"
  | HcCreateStartup "startup_pane list" u64 nat
  | HcInput pane_id "u8 list" u64
  | HcReorder "pane_id list"
  | HcCancelRecovery pane_id
  | HcReloadPlugins "plugin_config list"
  | HcNotify pane_token "rstring option"

text \<open>What a message of a client can touch, and the lines it has logged.\<close>

record hub_link =
  hl_commands :: "hub_command chan"
  hl_resizes :: resizes
  hl_closes :: "pane_id list"
  hl_shared :: shared
  hl_ownership :: inner
  hl_started :: bool
  hl_reports :: report_budget
  hl_log :: "(pane_id \<times> clear_key_facts option) list"

definition submit :: "hub_command \<Rightarrow> hub_link \<Rightarrow> hub_link" where
  "submit command l = l\<lparr>hl_commands := fst (try_send command (hl_commands l))\<rparr>"

definition start_terminals ::
  "(server_message \<Rightarrow> rstring option) \<Rightarrow> startup_command list \<Rightarrow> bool \<Rightarrow> u64 \<Rightarrow> pane_size list \<Rightarrow> hub_link \<Rightarrow> hub_link" where
  "start_terminals ser startup auto_open client sizes l =
     (let queued = (snd (try_send (HcCreateStartup [] client 0) (hl_commands l)) = Inr ());
          ((started, s), batch) = claim_startup ser startup auto_open sizes queued (hl_started l, hl_shared l);
          l = l\<lparr>hl_started := started, hl_shared := s\<rparr>
      in case batch of None \<Rightarrow> l | Some (panes, reserved) \<Rightarrow> submit (HcCreateStartup panes client reserved) l)"

definition log_clear_key :: "instant \<Rightarrow> pane_id \<Rightarrow> clear_key_facts option \<Rightarrow> hub_link \<Rightarrow> hub_link" where
  "log_clear_key now pane key l =
     (case allow_report now (hl_reports l) of
        (b, False) \<Rightarrow> l\<lparr>hl_reports := b\<rparr>
      | (b, True) \<Rightarrow>
          l\<lparr>hl_reports := b,
            hl_log := hl_log l @ [(pane, map_option (\<lambda>f. f\<lparr>ck_code := sanitized_code (ck_code f)\<rparr>) key)]\<rparr>)"

fun dispatch ::
  "(server_message \<Rightarrow> rstring option) \<Rightarrow> startup_command list \<Rightarrow> bool \<Rightarrow> instant \<Rightarrow> u64 \<Rightarrow> u64 \<Rightarrow> client_message \<Rightarrow> hub_link \<Rightarrow> hub_link" where
  "dispatch ser startup auto_open now client connection (CmCreate rows cols) l =
     (let size = clamped \<lparr>ps_rows = rows, ps_cols = cols\<rparr> in submit (HcCreate (ps_rows size) (ps_cols size) client None) l)"
| "dispatch ser startup auto_open now client connection (CmInput pane data) l = submit (HcInput pane (str_bytes data) client) l"
| "dispatch ser startup auto_open now client connection (CmResize pane rows cols) l =
     (let size = clamped \<lparr>ps_rows = rows, ps_cols = cols\<rparr>
      in l\<lparr>hl_resizes := queue_resize (hl_shared l) (hl_ownership l) pane (ps_rows size) (ps_cols size) client connection (hl_resizes l)\<rparr>)"
| "dispatch ser startup auto_open now client connection (CmClose pane) l = l\<lparr>hl_closes := queue_close pane (hl_closes l)\<rparr>"
| "dispatch ser startup auto_open now client connection (CmReorder order) l = submit (HcReorder order) l"
| "dispatch ser startup auto_open now client connection (CmCancelRecovery pane) l = submit (HcCancelRecovery pane) l"
| "dispatch ser startup auto_open now client connection (CmZoom pane) l = l\<lparr>hl_shared := set_zoom ser pane (hl_shared l)\<rparr>"
| "dispatch ser startup auto_open now client connection CmClaimSize l = l\<lparr>hl_ownership := claim ser connection now (hl_ownership l)\<rparr>"
| "dispatch ser startup auto_open now client connection (CmStart sizes) l =
     start_terminals ser startup auto_open client (map clamped sizes) l"
| "dispatch ser startup auto_open now client connection (CmClearKeyReport pane key) l = log_clear_key now pane key l"

section \<open>The latest size wins\<close>

datatype resize_event =
    Ask shared inner pane_id u16 u16 u64 u64
  | Left u64
  | Taken

fun resize_step :: "resizes \<Rightarrow> resize_event \<Rightarrow> resizes" where
  "resize_step q (Ask s own pane rows cols client connection) = queue_resize s own pane rows cols client connection q"
| "resize_step q (Left connection) = discard_pending_resizes connection q"
| "resize_step q Taken = snd (take_pending_resizes q)"

text \<open>
  The specification, over the history with the newest event first: what is still owed to a connection for a pane.
\<close>

fun owed_size :: "u64 \<times> pane_id \<Rightarrow> resize_event list \<Rightarrow> pending_resize option" where
  "owed_size k [] = None"
| "owed_size k (Taken # es) = None"
| "owed_size k (Left connection # es) = (if fst k = connection then None else owed_size k es)"
| "owed_size k (Ask s own pane rows cols client connection # es) =
     (if k = (connection, pane) \<and> pane_live pane s \<and> owns own connection
      then Some \<lparr>pr_pane = pane, pr_rows = rows, pr_cols = cols, pr_client = client, pr_connection = connection,
                 pr_generation = generation own\<rparr>
      else owed_size k es)"

lemma map_of_filter_key: "map_of (filter (\<lambda>((c, p), _). c \<noteq> connection) q) k = (if fst k = connection then None else map_of q k)"
  by (induction q) auto

lemma resize_step_wf: "bt_wf q \<Longrightarrow> bt_wf (resize_step q e)"
proof (cases e)
  case (Left connection)
  have "sorted_wrt (<) (map fst q) \<Longrightarrow> sorted_wrt (<) (map fst (filter P q))" for P :: "(u64 \<times> pane_id) \<times> pending_resize \<Rightarrow> bool"
    by (induction q) auto
  then show "bt_wf q \<Longrightarrow> bt_wf (resize_step q e)" using Left by (simp add: bt_wf_def discard_pending_resizes_def)
qed (auto simp: queue_resize_def take_pending_resizes_def bt_wf_insert split: option.split)

lemma owed_step:
  "bt_wf q \<Longrightarrow> map_of (resize_step q e) k = (case e of
      Taken \<Rightarrow> None
    | Left connection \<Rightarrow> if fst k = connection then None else map_of q k
    | Ask s own pane rows cols client connection \<Rightarrow>
        if k = (connection, pane) \<and> pane_live pane s \<and> owns own connection
        then Some \<lparr>pr_pane = pane, pr_rows = rows, pr_cols = cols, pr_client = client, pr_connection = connection,
                   pr_generation = generation own\<rparr>
        else map_of q k)"
  by (cases e) (auto simp: queue_resize_def owner_generation_def map_of_bt_insert discard_pending_resizes_def take_pending_resizes_def
      map_of_filter_key)

fun due_marks :: "nat \<Rightarrow> nat \<Rightarrow> bool list" where
  "due_marks 0 n = []"
| "due_marks (Suc m) n = (let (due, n) = resize_due_before_command n in due # due_marks m n)"

lemma due_marks_from: "n \<le> 64 \<Longrightarrow> due_marks m n = map (\<lambda>j. 0 < n + j \<and> (n + j) mod 64 = 0) [0..<m]"
proof (induction m arbitrary: n)
  case (Suc m)
  have shift: "map f [0..<Suc m] = f 0 # map (\<lambda>j. f (Suc j)) [0..<m]" for f :: "nat \<Rightarrow> bool"
    by (simp add: upt_conv_Cons map_Suc_upt [symmetric] del: upt_Suc)
  show ?case
  proof (cases "n = 64")
    case True
    have "due_marks m 1 = map (\<lambda>j. 0 < 1 + j \<and> (1 + j) mod 64 = 0) [0..<m]" using Suc(1) [of 1] by simp
    moreover have "(65 + j) mod 64 = Suc j mod 64" for j :: nat using mod_add_self1 [of 64 "Suc j"] by simp
    ultimately show ?thesis using True by (simp add: shift resize_due_before_command_def COMMANDS_BETWEEN_RESIZES_def del: upt_Suc)
  next
    case False
    with Suc(2) have "n < 64" by simp
    with Suc(1) [of "Suc n"] show ?thesis
      by (auto simp: shift resize_due_before_command_def COMMANDS_BETWEEN_RESIZES_def simp del: upt_Suc)
  qed
qed simp

text \<open>
  \<^bold>\<open>C23\<close>. Only the last size a connection asked for a pane waits for the worker: whatever was asked before it is gone, it carries
  the ownership under which it was admitted, a request for a dead pane or from a client that does not own the sizing never waits, and
  none outlives its connection. The worker takes what waits in order of connection and pane, and looks before every 64th command of a
  stream that never pauses.
\<close>

theorem latest_size_waits:
  "map_of (run resize_step [] es) k = owed_size k (rev es) \<and> bt_wf (run resize_step [] es)
   \<and> due_marks m 0 = map (\<lambda>j. 0 < j \<and> j mod 64 = 0) [0..<m]"
proof -
  have "map_of (run resize_step [] es) k = owed_size k (rev es) \<and> bt_wf (run resize_step [] es)"
  proof (induction es rule: rev_induct)
    case (snoc e es)
    let ?q = "run resize_step [] es"
    from snoc have "map_of ?q k = owed_size k (rev es)" "bt_wf ?q" by simp_all
    with owed_step [of ?q e k] resize_step_wf [of ?q e] show ?case by (cases e) (simp_all del: resize_step.simps)
  qed simp
  then show ?thesis using due_marks_from [of 0 m] by simp
qed

section \<open>Reports\<close>

lemma allow_report_window:
  assumes "allow_report now b = (b', ok)" "rb_spent b \<le> REPORTS_PER_WINDOW"
  shows "rb_spent b' \<le> REPORTS_PER_WINDOW"
    "now - rb_start b < REPORT_WINDOW \<Longrightarrow> rb_start b' = rb_start b \<and> unat (rb_spent b') = unat (rb_spent b) + (if ok then 1 else 0)"
proof -
  have up: "unat (x + 1) = unat x + 1" if "\<not> 120 \<le> x" for x :: u32
    using that by (simp add: word_le_nat_alt unat_word_ariths)
  show "rb_spent b' \<le> REPORTS_PER_WINDOW"
    using assms up [of "rb_spent b"] up [of 0]
    by (auto simp: allow_report_def Let_def REPORTS_PER_WINDOW_def word_le_nat_alt split: if_splits)
  show "now - rb_start b < REPORT_WINDOW \<Longrightarrow> rb_start b' = rb_start b \<and> unat (rb_spent b') = unat (rb_spent b) + (if ok then 1 else 0)"
    using assms up [of "rb_spent b"] by (auto simp: allow_report_def Let_def REPORTS_PER_WINDOW_def split: if_splits)
qed

lemma sanitized_code_ok: "list_all is_ascii_alphanumeric (sanitized_code raw) \<and> length (sanitized_code raw) \<le> 16 \<and> sanitized_code raw \<noteq> []"
proof -
  have "list_all is_ascii_alphanumeric (lit ''unknown'')" by (simp add: is_ascii_alphanumeric_def)
  moreover have "x \<in> set (take n (filter p xs)) \<Longrightarrow> p x" for x n p and xs :: rstring by (auto dest: in_set_takeD)
  ultimately show ?thesis by (auto simp: sanitized_code_def MAX_CODE_LEN_def Let_def list_all_iff)
qed

section \<open>What clients can bring about\<close>

definition size_ok :: "u16 \<Rightarrow> u16 \<Rightarrow> bool" where
  "size_ok rows cols \<longleftrightarrow> 1 \<le> rows \<and> rows \<le> 500 \<and> 1 \<le> cols \<and> cols \<le> 1100"

fun command_ok :: "hub_command \<Rightarrow> bool" where
  "command_ok (HcCreate rows cols _ command) = (size_ok rows cols \<and> command = None)"
| "command_ok (HcCreateStartup panes _ reserved) =
     (list_all (\<lambda>p. size_ok (ps_rows (su_size p)) (ps_cols (su_size p))) panes \<and> reserved \<le> length panes)"
| "command_ok (HcReloadPlugins _) = False"
| "command_ok (HcNotify _ _) = False"
| "command_ok _ = True"

definition link_inv :: "hub_link \<Rightarrow> bool" where
  "link_inv l \<longleftrightarrow>
     length (ch_queue (hl_commands l)) \<le> ch_cap (hl_commands l) \<and> list_all command_ok (ch_queue (hl_commands l))
     \<and> list_all (\<lambda>(_, r). size_ok (pr_rows r) (pr_cols r)) (hl_resizes l) \<and> rb_spent (hl_reports l) \<le> REPORTS_PER_WINDOW"

lemma clamped_ok: "size_ok (ps_rows (clamped s)) (ps_cols (clamped s))"
proof -
  have "1 \<le> x" if "x \<noteq> 0" for x :: u16
    using that unat_gt_0 [of x] unfolding word_le_nat_alt by simp
  then show ?thesis
    by (auto simp: size_ok_def clamped_def clamp16_def MIN_PANE_DIMENSION_def MAX_PANE_ROWS_def MAX_PANE_COLS_def)
qed

lemma submit_inv: "link_inv l \<Longrightarrow> command_ok c \<Longrightarrow> link_inv (submit c l)"
  by (auto simp: link_inv_def submit_def try_send_def)

lemma set_bt_insert: "set (bt_insert k v m) \<subseteq> insert (k, v) (set m)"
  by (induction k v m rule: bt_insert.induct) auto

lemma resize_inv: "link_inv l \<Longrightarrow> link_inv (l\<lparr>hl_resizes :=
    queue_resize s own pane (ps_rows (clamped z)) (ps_cols (clamped z)) client connection (hl_resizes l)\<rparr>)"
  using clamped_ok [of z] set_bt_insert
  by (fastforce simp: link_inv_def queue_resize_def list_all_iff split: option.split)

lemma batch_ok:
  assumes "list_all (\<lambda>s. size_ok (ps_rows s) (ps_cols s)) sizes" "p \<in> set (startup_batch startup auto_open sizes)"
  shows "size_ok (ps_rows (su_size p)) (ps_cols (su_size p))"
proof -
  have "i < length sizes \<Longrightarrow> size_ok (ps_rows (sizes ! i)) (ps_cols (sizes ! i))" for i
    using assms(1) by (simp add: list_all_length)
  moreover have "size_ok 24 80" by (simp add: size_ok_def)
  ultimately show ?thesis using assms(2) by (auto simp: startup_batch_def Let_def split: if_splits)
qed

lemma claim_reserved:
  "claim_startup ser startup auto_open sizes queued st = (st', Some (panes, n)) \<Longrightarrow>
   panes = startup_batch startup auto_open sizes \<and> n \<le> length panes"
  by (auto simp: claim_startup_def Let_def reserve_startup_def split: prod.splits if_splits)

lemma start_inv:
  assumes "link_inv l"
  shows "link_inv (start_terminals ser startup auto_open client (map clamped sizes) l)"
proof -
  let ?queued = "snd (try_send (HcCreateStartup [] client 0) (hl_commands l)) = Inr ()"
  obtain started s batch where c: "claim_startup ser startup auto_open (map clamped sizes) ?queued (hl_started l, hl_shared l) = ((started, s), batch)"
    by (metis surj_pair)
  have l: "link_inv (l\<lparr>hl_started := started, hl_shared := s\<rparr>)" using assms by (simp add: link_inv_def)
  show ?thesis
  proof (cases batch)
    case None
    with c l show ?thesis by (simp add: start_terminals_def)
  next
    case (Some b)
    obtain panes n where b: "b = (panes, n)" by fastforce
    note r = claim_reserved [OF c [unfolded Some b]]
    have sizes: "list_all (\<lambda>s. size_ok (ps_rows s) (ps_cols s)) (map clamped sizes)" using clamped_ok by (simp add: list_all_iff)
    have "size_ok (ps_rows (su_size p)) (ps_cols (su_size p))" if "p \<in> set panes" for p
      using batch_ok [OF sizes] r that by blast
    then have "command_ok (HcCreateStartup panes client n)" using conjunct2 [OF r] by (simp add: list_all_iff)
    with c Some b submit_inv [OF l] show ?thesis by (simp add: start_terminals_def)
  qed
qed

lemma report_inv: "link_inv l \<Longrightarrow> link_inv (log_clear_key now pane key l)"
  using allow_report_window(1) [of now "hl_reports l"]
  by (auto simp: link_inv_def log_clear_key_def split: prod.split bool.split)

lemma dispatch_inv: "link_inv l \<Longrightarrow> link_inv (dispatch ser startup auto_open now client connection msg l)"
  by (cases msg) (simp_all add: Let_def submit_inv clamped_ok resize_inv start_inv report_inv, simp_all add: link_inv_def)

definition link_step ::
  "(server_message \<Rightarrow> rstring option) \<Rightarrow> startup_command list \<Rightarrow> bool \<Rightarrow> hub_link \<Rightarrow> instant \<times> u64 \<times> u64 \<times> client_message \<Rightarrow> hub_link" where
  "link_step ser startup auto_open l m = (let (now, client, connection, msg) = m in dispatch ser startup auto_open now client connection msg l)"

interpretation link: event_machine "\<lambda>_ _. True" "link_step ser startup auto_open" link_inv
  for ser :: "server_message \<Rightarrow> rstring option" and startup auto_open
  by unfold_locales (simp add: link_step_def dispatch_inv case_prod_beta)

definition link_new :: "instant \<Rightarrow> hub_link" where
  "link_new now = \<lparr>hl_commands = \<lparr>ch_queue = [], ch_cap = 256, ch_open = True\<rparr>, hl_resizes = [], hl_closes = [], hl_shared = shared_new,
     hl_ownership = inner_default, hl_started = False, hl_reports = report_budget_new now, hl_log = []\<rparr>"


end
