(* ===== verification/Plugin_Pump.thy ===== *)
theory Plugin_Pump
  imports Plugin_Protocol Daemon_Frame Output_Text
begin

text \<open>
  The reading pump of a plugin child, \<^verbatim>\<open>src/plugin/host_pump.rs\<close>: capped lines off a pipe that delivers bytes in any pieces,
  and the commands that come of them. The pipe is the reader of \<^verbatim>\<open>Daemon_Frame\<close>, seen through \<^verbatim>\<open>BufRead\<close>; the receiving
  end of the command queue is taken to be there, so a send only waits.
\<close>

section \<open>Buffered reads\<close>

fun fill_buf :: "reader \<Rightarrow> read_result \<times> reader" where
  "fill_buf [] = (Got [], [])"
| "fill_buf (Bytes bs # r) = (if bs = [] then fill_buf r else (Got bs, Bytes bs # r))"
| "fill_buf (RInterrupted # r) = (GotInterrupted, r)"
| "fill_buf (RFailed # r) = (GotError, r)"

fun consume :: "nat \<Rightarrow> reader \<Rightarrow> reader" where
  "consume n (Bytes bs # r) = Bytes (drop n bs) # r"
| "consume n r = r"

definition position :: "u8 \<Rightarrow> u8 list \<Rightarrow> nat option" where
  "position b bs = (if b \<in> set bs then Some (length (takeWhile (\<lambda>x. x \<noteq> b) bs)) else None)"

lemma fill_buf_shape:
  "fill_buf r = (GotInterrupted, r') \<Longrightarrow> reader_size r' < reader_size r"
  "fill_buf r = (Got bs, r') \<Longrightarrow> bs \<noteq> [] \<Longrightarrow> (\<exists>s. r' = Bytes bs # s) \<and> reader_size r' \<le> reader_size r"
  by (induction r rule: fill_buf.induct) (auto split: if_splits)

section \<open>One line\<close>

text \<open>Returns how many bytes the line spanned, whether a newline ended it, and what was kept. \<open>None\<close> is a failed read.\<close>

function read_capped_loop :: "nat \<Rightarrow> u8 list \<Rightarrow> reader \<Rightarrow> (nat \<times> bool \<times> u8 list) option \<times> reader" where
  "read_capped_loop seen buf r =
     (case fill_buf r of
        (GotInterrupted, r) \<Rightarrow> read_capped_loop seen buf r
      | (GotError, r) \<Rightarrow> (None, r)
      | (Got available, r) \<Rightarrow>
          if available = [] then (Some (seen, False, buf), r)
          else
            case position 10 available of
              Some at \<Rightarrow>
                (Some (seen + (at + 1), True, buf @ take (min at (MAX_LINE_BYTES - length buf)) available), consume (at + 1) r)
            | None \<Rightarrow>
                read_capped_loop (seen + length available)
                  (buf @ take (min (length available) (MAX_LINE_BYTES - length buf)) available)
                  (consume (length available) r))"
  by pat_completeness auto
termination
proof (relation "measure (\<lambda>(_, _, r). reader_size r)", goal_cases)
  case (2 seen buf r x r' available)
  then have f: "fill_buf r = (Got available, r')" by simp
  then obtain s where "r' = Bytes available # s" "reader_size r' \<le> reader_size r" using fill_buf_shape(2) [OF f] 2 by auto
  with 2 show ?case by (cases available) auto
next
  case (3 seen buf r x r')
  then show ?case using fill_buf_shape(1) [of r r'] by simp
qed simp

declare read_capped_loop.simps [simp del]

definition read_capped :: "reader \<Rightarrow> (nat \<times> bool \<times> u8 list) option \<times> reader" where
  "read_capped r = read_capped_loop 0 [] r"

datatype pulled = PulledLine rstring | TooLong nat | NotUtf8 | Eof

definition pull_line :: "reader \<Rightarrow> pulled option \<times> reader" where
  "pull_line r =
     (case read_capped r of
        (None, r) \<Rightarrow> (None, r)
      | (Some (seen, terminated, buf), r) \<Rightarrow>
          if seen = 0 then (Some Eof, r)
          else
            let line_bytes = seen - (if terminated then 1 else 0)
            in if line_bytes > MAX_LINE_BYTES then (Some (TooLong line_bytes), r)
               else
                 let buf = (if buf \<noteq> [] \<and> last buf = 13 then butlast buf else buf)
                 in (Some (case from_utf8 buf of Some line \<Rightarrow> PulledLine line | None \<Rightarrow> NotUtf8), r))"

section \<open>What a reader delivers\<close>

text \<open>The bytes before the first failure, and whether there is one.\<close>

definition flow :: "reader \<Rightarrow> u8 list" where
  "flow r = reader_bytes (takeWhile (\<lambda>e. e \<noteq> RFailed) r)"

definition broken :: "reader \<Rightarrow> bool" where
  "broken r \<longleftrightarrow> RFailed \<in> set r"

lemma flow_simps [simp]:
  "flow [] = []" "flow (Bytes bs # r) = bs @ flow r" "flow (RInterrupted # r) = flow r" "flow (RFailed # r) = []"
  "\<not> broken []" "broken (Bytes bs # r) = broken r" "broken (RInterrupted # r) = broken r" "broken (RFailed # r)"
  by (simp_all add: flow_def broken_def)

lemma fill_buf_flow:
  assumes "fill_buf r = (res, s)"
  shows "case res of GotInterrupted \<Rightarrow> flow s = flow r \<and> broken s = broken r \<and> reader_size s < reader_size r
      | GotError \<Rightarrow> flow r = [] \<and> broken r
      | Got av \<Rightarrow> if av = [] then flow r = [] \<and> \<not> broken r \<and> s = []
          else \<exists>u. s = Bytes av # u \<and> flow r = av @ flow u \<and> broken u = broken r \<and> reader_size s \<le> reader_size r"
  using assms by (induction r arbitrary: res s rule: fill_buf.induct) (auto split: if_splits read_result.splits)

lemma take_capped:
  "(buf @ take (min (length av) (m - length buf)) av) @ take (m - length (buf @ take (min (length av) (m - length buf)) av)) l
    = buf @ take (m - length buf) (av @ l)"
  by (cases "length av \<le> m - length buf") (simp_all add: min_def)

lemma first_line: "10 \<notin> set l \<Longrightarrow> takeWhile (\<lambda>b. b \<noteq> 10) (l @ 10 # q) = l" "10 \<notin> set l \<Longrightarrow> takeWhile (\<lambda>b. b \<noteq> 10) l = l"
  "10 \<notin> set l \<Longrightarrow> takeWhile (\<lambda>b. b \<noteq> 10) (l @ q) = l @ takeWhile (\<lambda>b. b \<noteq> 10) q"
  for l :: "u8 list"
  by (induction l) auto

definition capped_as :: "nat \<Rightarrow> u8 list \<Rightarrow> reader \<Rightarrow> (nat \<times> bool \<times> u8 list) option \<times> reader \<Rightarrow> bool" where
  "capped_as seen buf r out \<longleftrightarrow>
     (if 10 \<in> set (flow r)
      then let l = takeWhile (\<lambda>b. b \<noteq> 10) (flow r)
           in fst out = Some (seen + length l + 1, True, buf @ take (MAX_LINE_BYTES - length buf) l)
              \<and> flow (snd out) = drop (length l + 1) (flow r) \<and> broken (snd out) = broken r \<and> reader_size (snd out) < reader_size r
      else if broken r then fst out = None
      else fst out = Some (seen + length (flow r), False, buf @ take (MAX_LINE_BYTES - length buf) (flow r))
           \<and> flow (snd out) = [] \<and> \<not> broken (snd out)
           \<and> reader_size (snd out) \<le> reader_size r \<and> (flow r \<noteq> [] \<longrightarrow> reader_size (snd out) < reader_size r))"

lemma read_capped_loop_spec: "capped_as seen buf r (read_capped_loop seen buf r)"
proof (induction seen buf r rule: read_capped_loop.induct)
  case (1 seen buf r)
  obtain res s where f: "fill_buf r = (res, s)" by fastforce
  note ff = fill_buf_flow [OF f]
  consider (err) "res = GotError" | (intr) "res = GotInterrupted" | (end_of) "res = Got []"
    | (line) av where "res = Got av" "av \<noteq> []" "10 \<in> set av" | (more) av where "res = Got av" "av \<noteq> []" "10 \<notin> set av"
    by (cases res) auto
  then show ?case
  proof cases
    case err
    with f ff show ?thesis by (simp add: capped_as_def read_capped_loop.simps [of seen buf r])
  next
    case intr
    have "read_capped_loop seen buf r = read_capped_loop seen buf s" using f intr by (simp add: read_capped_loop.simps [of seen buf r])
    moreover have "capped_as seen buf s (read_capped_loop seen buf s)" using 1(2) f intr by metis
    ultimately show ?thesis using ff intr by (auto simp: capped_as_def Let_def split: if_splits)
  next
    case end_of
    with f ff show ?thesis by (simp add: capped_as_def read_capped_loop.simps [of seen buf r])
  next
    case line
    then obtain u where u: "s = Bytes av # u" "flow r = av @ flow u" "broken u = broken r" "reader_size s \<le> reader_size r" using ff by auto
    let ?l = "takeWhile (\<lambda>b. b \<noteq> 10) av"
    obtain ys zs where sp: "av = ys @ 10 # zs" "10 \<notin> set ys" using split_list_first [OF line(3)] by blast
    then have ys: "?l = ys" by (simp add: first_line)
    have "flow r = ys @ 10 # (zs @ flow u)" using sp(1) u(2) by simp
    then have "takeWhile (\<lambda>b. b \<noteq> 10) (flow r) = ys" using first_line(1) [OF sp(2)] by metis
    then have l: "takeWhile (\<lambda>b. b \<noteq> 10) (flow r) = ?l" "take (length ?l) av = ?l" "length ?l < length av"
      unfolding ys by (simp_all add: sp(1))
    have "take (min (length ?l) m) av = take m ?l" for m unfolding ys by (simp add: sp(1) min_def)
    then have "read_capped_loop seen buf r = (Some (seen + (length ?l + 1), True, buf @ take (MAX_LINE_BYTES - length buf) ?l),
        Bytes (drop (length ?l + 1) av) # u)"
      using f line u(1) by (simp add: read_capped_loop.simps [of seen buf r] position_def)
    with l u line(3) show ?thesis by (simp add: capped_as_def Let_def) 
  next
    case more
    then obtain u where u: "s = Bytes av # u" "flow r = av @ flow u" "broken u = broken r" "reader_size s \<le> reader_size r" using ff by auto
    let ?buf = "buf @ take (min (length av) (MAX_LINE_BYTES - length buf)) av" and ?r = "Bytes [] # u"
    have "read_capped_loop seen buf r = read_capped_loop (seen + length av) ?buf ?r"
      using f more u(1) by (simp add: read_capped_loop.simps [of seen buf r] position_def)
    moreover have "capped_as (seen + length av) ?buf ?r (read_capped_loop (seen + length av) ?buf ?r)"
      using 1(1) [OF f [symmetric] more(1,2)] more(3) u(1) by (simp add: position_def)
    moreover have "takeWhile (\<lambda>b. b \<noteq> 10) (flow r) = av @ takeWhile (\<lambda>b. b \<noteq> 10) (flow u)"
      using u(2) more(3) by (simp add: first_line(3))
    moreover have "reader_size ?r < reader_size r" using u(1,4) more(2) by (cases av) auto
    ultimately show ?thesis using u(2,3) more(3) take_capped [of buf av MAX_LINE_BYTES]
      by (auto simp: capped_as_def Let_def split: if_splits)
  qed
qed

section \<open>Commands\<close>

lemma pull_line_size: "pull_line r = (Some x, r') \<Longrightarrow> x \<noteq> Eof \<Longrightarrow> reader_size r' < reader_size r"
  using read_capped_loop_spec [of 0 "[]" r]
  by (auto simp: pull_line_def read_capped_def capped_as_def Let_def split: prod.splits option.splits if_splits)

text \<open>The commands the pump puts on the queue, in order.\<close>

function read_commands :: "(rstring \<Rightarrow> plugin_command option) \<Rightarrow> reader \<Rightarrow> plugin_command list" where
  "read_commands from_str r =
     (case pull_line r of
        (None, _) \<Rightarrow> []
      | (Some pulled, r) \<Rightarrow>
          (case pulled of
             Eof \<Rightarrow> []
           | PulledLine line \<Rightarrow>
               if is_blank_line line then read_commands from_str r
               else (case decode_command from_str line of
                       Inr command \<Rightarrow> command # read_commands from_str r
                     | Inl _ \<Rightarrow> read_commands from_str r)
           | TooLong _ \<Rightarrow> read_commands from_str r
           | NotUtf8 \<Rightarrow> read_commands from_str r))"
  by pat_completeness auto
termination
  by (relation "measure (\<lambda>(_, r). reader_size r)") (auto dest: pull_line_size [OF sym])

declare read_commands.simps [simp del]

text \<open>
  The reference: the complete lines of the bytes and what follows the last newline; a line is a command when it is
  within the limit, decodes, is not blank and parses.
\<close>

fun cut_lines :: "u8 list \<Rightarrow> u8 list list \<times> u8 list" where
  "cut_lines [] = ([], [])"
| "cut_lines (b # bs) =
     (let (ls, rest) = cut_lines bs
      in if b = 10 then ([] # ls, rest)
         else case ls of [] \<Rightarrow> ([], b # rest) | l # ls \<Rightarrow> ((b # l) # ls, rest))"

definition trim_cr :: "u8 list \<Rightarrow> u8 list" where
  "trim_cr l = (if l \<noteq> [] \<and> last l = 13 then butlast l else l)"

definition line_command :: "(rstring \<Rightarrow> plugin_command option) \<Rightarrow> u8 list \<Rightarrow> plugin_command option" where
  "line_command from_str l =
     (if length l > MAX_LINE_BYTES then None
      else case from_utf8 (trim_cr l) of
             None \<Rightarrow> None
           | Some line \<Rightarrow> (case decode_command from_str line of Inr command \<Rightarrow> Some command | Inl _ \<Rightarrow> None))"

definition sent_lines :: "reader \<Rightarrow> u8 list list" where
  "sent_lines r = (let (ls, rest) = cut_lines (flow r) in if rest = [] \<or> broken r then ls else ls @ [rest])"

lemma cut_lines_line: "10 \<notin> set l \<Longrightarrow> cut_lines (l @ 10 # q) = (l # fst (cut_lines q), snd (cut_lines q))"
  by (induction l) (auto simp: case_prod_beta)

lemma cut_lines_plain: "10 \<notin> set l \<Longrightarrow> cut_lines l = ([], l)"
  by (induction l) auto

lemma pull_line_spec:
  "pull_line r =
     (let g = flow r
      in if 10 \<in> set g \<or> (\<not> broken r \<and> g \<noteq> [])
         then let l = takeWhile (\<lambda>b. b \<noteq> 10) g
              in (Some (if length l > MAX_LINE_BYTES then TooLong (length l)
                        else case from_utf8 (trim_cr l) of Some line \<Rightarrow> PulledLine line | None \<Rightarrow> NotUtf8),
                  snd (read_capped r))
         else (if broken r then None else Some Eof, snd (read_capped r)))"
proof -
  obtain o1 s where o: "read_capped r = (o1, s)" by fastforce
  have c: "capped_as 0 [] r (o1, s)" using read_capped_loop_spec [of 0 "[]" r] o by (simp add: read_capped_def)
  consider (nl) "10 \<in> set (flow r)" | (brk) "10 \<notin> set (flow r)" "broken r" | (tail) "10 \<notin> set (flow r)" "\<not> broken r" by blast
  then show ?thesis
  proof cases
    case nl
    with c o show ?thesis by (auto simp: capped_as_def pull_line_def Let_def trim_cr_def)
  next
    case brk
    with c o show ?thesis by (simp add: capped_as_def pull_line_def)
  next
    case tail
    with c o show ?thesis by (auto simp: capped_as_def pull_line_def Let_def trim_cr_def first_line(2))
  qed
qed

lemma read_commands_step:
  assumes "pull_line r = (Some x, s)" "x = (if length l > MAX_LINE_BYTES then TooLong (length l)
      else case from_utf8 (trim_cr l) of Some line \<Rightarrow> PulledLine line | None \<Rightarrow> NotUtf8)"
  shows "read_commands from_str r =
    (case line_command from_str l of None \<Rightarrow> read_commands from_str s | Some c \<Rightarrow> c # read_commands from_str s)"
  using assms
  by (simp add: read_commands.simps [of from_str r] line_command_def decode_command_def split: option.split sum.split)

text \<open>
  \<^bold>\<open>C25\<close>. However the pipe cuts a plugin's output into pieces and however often a read is interrupted, the host takes exactly
  the commands on its lines, in order: every line that a newline ends, and a last unfinished one if the pipe was closed and did not fail,
  counts when it is at most 64 KiB, is UTF-8 and decodes; a longer line is skipped whole without its excess ever being kept.
\<close>

theorem plugin_commands_exact:
  "read_commands from_str r = List.map_filter (line_command from_str) (sent_lines r)
   \<and> (case fst (read_capped r) of None \<Rightarrow> broken r | Some (_, _, buf) \<Rightarrow> length buf \<le> MAX_LINE_BYTES)"
proof
  show "case fst (read_capped r) of None \<Rightarrow> broken r | Some (_, _, buf) \<Rightarrow> length buf \<le> MAX_LINE_BYTES"
    using read_capped_loop_spec [of 0 "[]" r] by (auto simp: capped_as_def read_capped_def Let_def split: if_splits option.splits)
  show "read_commands from_str r = List.map_filter (line_command from_str) (sent_lines r)"
  proof (induction "reader_size r" arbitrary: r rule: less_induct)
    case less
    obtain o1 s where o: "read_capped r = (o1, s)" by fastforce
    have c: "capped_as 0 [] r (o1, s)" using read_capped_loop_spec [of 0 "[]" r] o by (simp add: read_capped_def)
    let ?l = "takeWhile (\<lambda>b. b \<noteq> 10) (flow r)"
    consider (nl) "10 \<in> set (flow r)" | (brk) "10 \<notin> set (flow r)" "broken r" | (eof) "flow r = []" "\<not> broken r"
      | (tail) "10 \<notin> set (flow r)" "\<not> broken r" "flow r \<noteq> []" by blast
    then show ?case
    proof cases
      case nl
      then obtain l q where lq: "flow r = l @ 10 # q" "10 \<notin> set l" using split_list_first by metis
      then have s: "?l = l" "flow s = q" "broken s = broken r" "reader_size s < reader_size r"
        using c nl first_line(1) [OF lq(2), of q] by (simp_all add: capped_as_def Let_def)
      have "sent_lines r = l # sent_lines s" using lq s by (simp add: sent_lines_def cut_lines_line case_prod_beta)
      moreover have "read_commands from_str r =
          (case line_command from_str l of None \<Rightarrow> read_commands from_str s | Some c \<Rightarrow> c # read_commands from_str s)"
        by (rule read_commands_step) (use pull_line_spec [of r] nl s(1) o in \<open>simp_all add: Let_def\<close>)
      ultimately show ?thesis using less [OF s(4)] by (simp add: map_filter_simps split: option.split)
    next
      case brk
      then show ?thesis using pull_line_spec [of r] by (simp add: read_commands.simps [of from_str r] sent_lines_def cut_lines_plain map_filter_simps)
    next
      case eof
      then show ?thesis using pull_line_spec [of r] by (simp add: read_commands.simps [of from_str r] sent_lines_def map_filter_simps)
    next
      case tail
      have s: "flow s = []" "\<not> broken s" "reader_size s < reader_size r" using c tail by (simp_all add: capped_as_def)
      have "sent_lines r = [flow r]" "sent_lines s = []" using tail s by (simp_all add: sent_lines_def cut_lines_plain)
      moreover have "read_commands from_str r =
          (case line_command from_str (flow r) of None \<Rightarrow> read_commands from_str s | Some c \<Rightarrow> c # read_commands from_str s)"
        by (rule read_commands_step) (use pull_line_spec [of r] tail o in \<open>simp_all add: Let_def first_line(2)\<close>)
      ultimately show ?thesis using less [OF s(3)] by (simp add: map_filter_simps split: option.split)
    qed
  qed
qed

end
