(* ===== verification/Catalog_Membership.thy ===== *)
theory Catalog_Membership
  imports Contracts Codec "HOL-Library.Multiset"
begin

text \<open>
  Which repositories the session serves, in which order and under which ids: \<^verbatim>\<open>src/session/catalog/membership.rs\<close>
  and the id assigner of \<^verbatim>\<open>src/session/catalog/catalog_ids.rs\<close>. Paths are the normalised strings the
  catalog passes in; \<^verbatim>\<open>contains\<close> and \<^verbatim>\<open>retain\<close> loops are the list functions they compute.
\<close>

record id_assigner =
  ia_next :: u64
  ia_by_path :: "rstring \<rightharpoonup> rstring"

record member =
  mb_id :: rstring
  mb_path :: rstring

record catalog_membership =
  cm_ids :: id_assigner
  cm_base :: "rstring list"
  cm_added :: "rstring list"
  cm_hidden :: "rstring list"
  cm_order :: "rstring list"

datatype add_membership = Present rstring | TooMany

definition membership_default :: catalog_membership where
  "membership_default = \<lparr>cm_ids = \<lparr>ia_next = 0, ia_by_path = Map.empty\<rparr>, cm_base = [], cm_added = [], cm_hidden = [], cm_order = []\<rparr>"

definition id_for :: "rstring \<Rightarrow> id_assigner \<Rightarrow> rstring \<times> id_assigner" where
  "id_for path a =
     (case ia_by_path a path of
        Some existing \<Rightarrow> (existing, a)
      | None \<Rightarrow>
          let next' = ia_next a + 1;
              new_id = lit ''r'' @ dec_str (unat next')
          in (new_id, a\<lparr>ia_next := next', ia_by_path := (ia_by_path a)(path \<mapsto> new_id)\<rparr>))"

definition union_paths :: "rstring list \<Rightarrow> rstring list \<Rightarrow> rstring list \<Rightarrow> rstring list \<Rightarrow> rstring list" where
  "union_paths base added hidden order =
     (let natural = push_new [] (filter (\<lambda>p. p \<notin> set hidden) (base @ added));
          result = push_new [] (filter (\<lambda>p. p \<in> set natural) order)
      in push_new result natural)"

definition served :: "catalog_membership \<Rightarrow> rstring list" where
  "served s = union_paths (cm_base s) (cm_added s) (cm_hidden s) (cm_order s)"

definition union_paths_with_visible :: "rstring \<Rightarrow> bool \<Rightarrow> catalog_membership \<Rightarrow> rstring list" where
  "union_paths_with_visible path was_hidden s =
     (let hidden = filter (\<lambda>h. \<not> was_hidden \<or> h \<noteq> path) (cm_hidden s);
          base = (if was_hidden then removeAll path (cm_base s) else cm_base s);
          added = (if path \<in> set (cm_added s) then cm_added s else cm_added s @ [path])
      in union_paths base added hidden (cm_order s))"

fun ids_for :: "rstring list \<Rightarrow> id_assigner \<Rightarrow> member list \<times> id_assigner" where
  "ids_for [] a = ([], a)"
| "ids_for (path # ps) a =
     (let (i, a) = id_for path a; (ms, a) = ids_for ps a
      in (\<lparr>mb_id = i, mb_path = path\<rparr> # ms, a))"

definition members :: "catalog_membership \<Rightarrow> member list \<times> catalog_membership" where
  "members s = (let (ms, a) = ids_for (served s) (cm_ids s) in (ms, s\<lparr>cm_ids := a\<rparr>))"

definition set_paths :: "rstring list \<Rightarrow> catalog_membership \<Rightarrow> catalog_membership" where
  "set_paths paths s = s\<lparr>cm_base := paths\<rparr>"

definition add_path :: "rstring \<Rightarrow> nat \<Rightarrow> catalog_membership \<Rightarrow> add_membership \<times> catalog_membership" where
  "add_path path limit s0 =
     (let (ms, s) = members s0
      in case List.find (\<lambda>m. mb_path m = path) ms of
           Some m \<Rightarrow> (Present (mb_id m), s)
         | None \<Rightarrow>
             let was_hidden = (path \<in> set (cm_hidden s))
             in if length (union_paths_with_visible path was_hidden s) > limit then (TooMany, s)
                else
                  let s = (if was_hidden
                           then s\<lparr>cm_hidden := removeAll path (cm_hidden s), cm_base := removeAll path (cm_base s)\<rparr>
                           else s);
                      s = (if path \<in> set (cm_added s) then s else s\<lparr>cm_added := cm_added s @ [path]\<rparr>);
                      (i, a) = id_for path (cm_ids s)
                  in (Present i, s\<lparr>cm_ids := a\<rparr>))"

definition remove_path :: "rstring \<Rightarrow> catalog_membership \<Rightarrow> catalog_membership" where
  "remove_path path s =
     s\<lparr>cm_added := removeAll path (cm_added s), cm_base := removeAll path (cm_base s),
       cm_order := removeAll path (cm_order s),
       cm_hidden := if path \<in> set (cm_hidden s) then cm_hidden s else cm_hidden s @ [path]\<rparr>"

definition reorder :: "rstring list \<Rightarrow> catalog_membership \<Rightarrow> catalog_membership" where
  "reorder desired s =
     s\<lparr>cm_order := push_new (push_new [] (filter (\<lambda>p. p \<in> set (served s)) desired)) (served s)\<rparr>"

datatype cm_event =
    SetPaths "rstring list"
  | AddPath rstring nat
  | RemovePath rstring
  | Reorder "rstring list"
  | Members

fun cm_step :: "catalog_membership \<Rightarrow> cm_event \<Rightarrow> catalog_membership" where
  "cm_step s (SetPaths ps) = set_paths ps s"
| "cm_step s (AddPath p limit) = snd (add_path p limit s)"
| "cm_step s (RemovePath p) = remove_path p s"
| "cm_step s (Reorder ps) = reorder ps s"
| "cm_step s Members = snd (members s)"

section \<open>The served list\<close>

lemma push_new_removeAll: "removeAll p (push_new acc xs) = push_new (removeAll p acc) (removeAll p xs)"
  by (induction acc xs rule: push_new.induct) auto

lemma push_new_snoc: "push_new acc (xs @ [p]) = (if p \<in> set acc \<union> set xs then push_new acc xs else push_new acc xs @ [p])"
  by (induction acc xs rule: push_new.induct) auto

lemma push_new_filter: "distinct xs \<Longrightarrow> push_new acc xs = acc @ filter (\<lambda>q. q \<notin> set acc) xs"
proof (induction acc xs rule: push_new.induct)
  case (2 acc x xs)
  then have "filter (\<lambda>q. q \<notin> set (acc @ [x])) xs = filter (\<lambda>q. q \<notin> set acc) xs"
    by (intro filter_cong) auto
  with 2 show ?case by auto
qed simp

lemma set_union_paths: "set (union_paths base added hidden order) = (set base \<union> set added) - set hidden"
  by (auto simp: union_paths_def Let_def)

lemma distinct_union_paths: "distinct (union_paths base added hidden order)"
  by (simp add: union_paths_def Let_def)

lemma filter_removeAll: "filter (\<lambda>q. q \<in> set (removeAll p xs)) (removeAll p ys) = removeAll p (filter (\<lambda>q. q \<in> set xs) ys)"
  by (induction ys) auto

lemma filter_hidden: "filter (\<lambda>q. q \<notin> insert p H) (removeAll p xs) = removeAll p (filter (\<lambda>q. q \<notin> H) xs)"
  by (induction xs) auto

lemma union_remove:
  "union_paths (removeAll p base) (removeAll p added) hidden' (removeAll p order) = removeAll p (union_paths base added hidden order)"
  if "set hidden' = insert p (set hidden)"
proof -
  let ?n = "push_new [] (filter (\<lambda>q. q \<notin> set hidden) (base @ added))"
  have "filter (\<lambda>q. q \<notin> set hidden') (removeAll p base @ removeAll p added) = removeAll p (filter (\<lambda>q. q \<notin> set hidden) (base @ added))"
    using filter_hidden [of p "set hidden" "base @ added"] that by simp
  then have "push_new [] (filter (\<lambda>q. q \<notin> set hidden') (removeAll p base @ removeAll p added)) = removeAll p ?n"
    by (simp add: push_new_removeAll)
  then show ?thesis unfolding union_paths_def Let_def push_new_removeAll filter_removeAll [symmetric] by simp
qed

lemma remove_served: "served (remove_path p s) = removeAll p (served s)"
  unfolding served_def by (simp add: remove_path_def) (auto intro!: union_remove)

lemma reorder_served:
  "served (reorder desired s) = push_new (push_new [] (filter (\<lambda>p. p \<in> set (served s)) desired)) (served s)"
proof -
  let ?n = "push_new [] (filter (\<lambda>p. p \<notin> set (cm_hidden s)) (cm_base s @ cm_added s))"
  let ?next = "push_new (push_new [] (filter (\<lambda>p. p \<in> set (served s)) desired)) (served s)"
  have n: "set ?n = set (served s)" by (auto simp: served_def set_union_paths)
  have "set ?next = set (served s)" "distinct ?next"
    using distinct_union_paths by (auto simp: served_def)
  then have "filter (\<lambda>p. p \<in> set ?n) ?next = ?next" using n by (simp add: filter_id_conv)
  moreover have "push_new [] ?next = ?next" using push_new_fresh [of "[]" ?next] \<open>distinct ?next\<close> by simp
  moreover have "push_new ?next ?n = ?next" using n \<open>set ?next = set (served s)\<close> by (simp add: push_new_absorb)
  ultimately have "union_paths (cm_base s) (cm_added s) (cm_hidden s) ?next = ?next"
    unfolding union_paths_def Let_def by (simp only:)
  moreover have "served (reorder desired s) = union_paths (cm_base s) (cm_added s) (cm_hidden s) ?next"
    unfolding reorder_def served_def [of "cm_order_update _ _"] by simp
  ultimately show ?thesis by simp
qed

lemma union_add:
  assumes F: "filter (\<lambda>q. q \<notin> set hidden') (base' @ added) = filter (\<lambda>q. q \<notin> set hidden) (base @ added)"
    and p: "p \<notin> set hidden'" "p \<notin> set (union_paths base added hidden order)"
  shows "removeAll p (union_paths base' (added @ [p]) hidden' order) = union_paths base added hidden order"
    and "p \<notin> set order \<Longrightarrow> union_paths base' (added @ [p]) hidden' order = union_paths base added hidden order @ [p]"
    and "p \<in> set (union_paths base' (added @ [p]) hidden' order)"
    and "length (union_paths base' (added @ [p]) hidden' order) = Suc (length (union_paths base added hidden order))"
proof -
  let ?u = "union_paths base added hidden order" and ?u' = "union_paths base' (added @ [p]) hidden' order"
  let ?F = "filter (\<lambda>q. q \<notin> set hidden) (base @ added)"
  have pF: "p \<notin> set ?F" using p(2) by (auto simp: set_union_paths)
  have nat': "push_new [] (filter (\<lambda>q. q \<notin> set hidden') (base' @ added @ [p])) = push_new [] ?F @ [p]"
  proof -
    have "filter (\<lambda>q. q \<notin> set hidden') (base' @ added @ [p]) = ?F @ [p]" using F p(1) by simp
    with pF show ?thesis by (simp only: push_new_snoc) simp
  qed
  have u': "?u' = push_new (push_new [] (filter (\<lambda>q. q \<in> set (push_new [] ?F @ [p])) order)) (push_new [] ?F @ [p])"
    unfolding union_paths_def Let_def using nat' by (simp only: append_assoc)
  have u: "?u = push_new (push_new [] (filter (\<lambda>q. q \<in> set (push_new [] ?F)) order)) (push_new [] ?F)"
    unfolding union_paths_def Let_def by (simp only:)
  have rem: "removeAll p (push_new [] ?F @ [p]) = push_new [] ?F" using pF by (simp add: removeAll_id)
  have "removeAll p (filter (\<lambda>q. q \<in> set (push_new [] ?F @ [p])) order) = filter (\<lambda>q. q \<in> set (push_new [] ?F)) order"
    using pF by (induction order) auto
  then show 1: "removeAll p ?u' = ?u" unfolding u u' push_new_removeAll rem by simp
  show 3: "p \<in> set ?u'" unfolding u' by simp
  show "length ?u' = Suc (length ?u)"
  proof -
    have "set ?u = set ?u' - {p}" using arg_cong [OF 1, of set] by simp
    then have "card (set ?u') = Suc (card (set ?u))" using card.remove [of "set ?u'" p] 3 by simp
    then show ?thesis by (simp add: distinct_card distinct_union_paths)
  qed
  assume "p \<notin> set order"
  then have "filter (\<lambda>q. q \<in> set (push_new [] ?F @ [p])) order = filter (\<lambda>q. q \<in> set (push_new [] ?F)) order"
    by (induction order) auto
  then show "?u' = ?u @ [p]" unfolding u u' using pF by (auto simp: push_new_snoc)
qed

section \<open>Ids\<close>

definition ids_wf :: "id_assigner \<Rightarrow> bool" where
  "ids_wf a \<longleftrightarrow> finite (dom (ia_by_path a)) \<and> ia_next a = of_nat (card (dom (ia_by_path a)))
     \<and> (card (dom (ia_by_path a)) < 2 ^ 64 \<longrightarrow>
          (\<forall>p i. ia_by_path a p = Some i \<longrightarrow> (\<exists>k \<le> card (dom (ia_by_path a)). i = lit ''r'' @ dec_str k))
          \<and> inj_on (ia_by_path a) (dom (ia_by_path a)))"

definition extends :: "id_assigner \<Rightarrow> id_assigner \<Rightarrow> bool" where
  "extends a b \<longleftrightarrow> ia_by_path a \<subseteq>\<^sub>m ia_by_path b \<and> (ids_wf a \<longrightarrow> ids_wf b)"

lemma extends_refl [simp]: "extends a a"
  by (simp add: extends_def)

lemma extends_trans [trans]: "extends a b \<Longrightarrow> extends b c \<Longrightarrow> extends a c"
  unfolding extends_def using map_le_trans by blast

lemma id_for_wf:
  assumes "ids_wf a"
  shows "ids_wf (snd (id_for path a))"
proof (cases "ia_by_path a path")
  case None
  let ?d = "dom (ia_by_path a)" and ?n = "card (dom (ia_by_path a))"
  have fin: "finite ?d" and nx: "ia_next a = of_nat ?n" using assms by (auto simp: ids_wf_def)
  let ?new = "lit ''r'' @ dec_str (unat (ia_next a + 1))"
  have a': "snd (id_for path a) = a\<lparr>ia_next := ia_next a + 1, ia_by_path := (ia_by_path a)(path \<mapsto> ?new)\<rparr>"
    using None by (simp add: id_for_def Let_def)
  have card': "card (insert path ?d) = Suc ?n" using fin None by (simp add: domIff)
  have "?new = lit ''r'' @ dec_str (Suc ?n)" if "Suc ?n < 2 ^ 64"
  proof -
    have "unat (of_nat (Suc ?n) :: u64) = Suc ?n"
      using that by (simp only: unsigned_of_nat) (simp add: take_bit_nat_eq_self del: of_nat_Suc)
    then show ?thesis using nx by (simp add: add.commute)
  qed
  moreover have old: "\<exists>k \<le> ?n. i = lit ''r'' @ dec_str k" if "ia_by_path a p = Some i" "Suc ?n < 2 ^ 64" for p i
    using assms that by (auto simp: ids_wf_def)
  moreover have "lit ''r'' @ dec_str (Suc ?n) \<noteq> i" if "ia_by_path a p = Some i" "Suc ?n < 2 ^ 64" for p i
    using old [OF that] dec_str_inj by fastforce
  moreover have "inj_on (ia_by_path a) ?d" if "Suc ?n < 2 ^ 64" using assms that by (auto simp: ids_wf_def)
  ultimately show ?thesis
    using fin nx card' unfolding a' ids_wf_def
    by (auto simp: add.commute inj_on_def le_Suc_eq split: if_splits) (metis (no_types, lifting))+
qed (use assms in \<open>simp add: id_for_def\<close>)

lemma id_for_Some: "ia_by_path (snd (id_for path a)) path = Some (fst (id_for path a))"
  by (simp add: id_for_def Let_def split: option.split)

lemma id_for_extends: "extends a (snd (id_for path a))"
  by (auto simp: extends_def id_for_wf) (auto simp: id_for_def Let_def map_le_def split: option.split)

lemma ids_for_spec:
  "extends a (snd (ids_for ps a)) \<and> map mb_path (fst (ids_for ps a)) = ps
   \<and> list_all (\<lambda>m. ia_by_path (snd (ids_for ps a)) (mb_path m) = Some (mb_id m)) (fst (ids_for ps a))"
proof (induction ps arbitrary: a)
  case (Cons p ps)
  let ?b = "snd (id_for p a)"
  have "ia_by_path ?b p = Some (fst (id_for p a))" by (rule id_for_Some)
  moreover have "extends ?b (snd (ids_for ps ?b))" using Cons by blast
  ultimately have "ia_by_path (snd (ids_for ps ?b)) p = Some (fst (id_for p a))"
    unfolding extends_def map_le_def by (metis domI)
  with Cons [of ?b] id_for_extends [of a p] show ?case
    by (auto simp: Let_def case_prod_beta intro: extends_trans)
qed simp

lemma members_spec:
  "served (snd (members s)) = served s" "extends (cm_ids s) (cm_ids (snd (members s)))"
  "map mb_path (fst (members s)) = served s"
  "m \<in> set (fst (members s)) \<Longrightarrow> ia_by_path (cm_ids (snd (members s))) (mb_path m) = Some (mb_id m)"
  "cm_hidden (snd (members s)) = cm_hidden s" "cm_added (snd (members s)) = cm_added s"
  "cm_order (snd (members s)) = cm_order s" "cm_base (snd (members s)) = cm_base s"
  using ids_for_spec [of "cm_ids s" "served s"]
  by (auto simp: members_def Let_def case_prod_beta served_def list_all_iff)

text \<open>A closed repository keeps no place: it is neither among the added ones nor in the remembered order.\<close>

definition cm_inv :: "catalog_membership \<Rightarrow> bool" where
  "cm_inv s \<longleftrightarrow> ids_wf (cm_ids s) \<and> set (cm_hidden s) \<inter> (set (cm_added s) \<union> set (cm_order s)) = {}"

lemma not_member: "List.find (\<lambda>m. mb_path m = p) (fst (members s)) = None \<longleftrightarrow> p \<notin> set (served s)"
proof -
  have "set (served s) = mb_path ` set (fst (members s))" using members_spec(3) [of s] by (metis set_map)
  then show ?thesis by (auto simp: find_None_iff)
qed

lemma add_path_served:
  assumes inv: "cm_inv s" and new: "p \<notin> set (served s)"
  shows "if Suc (length (served s)) > limit then fst (add_path p limit s) = TooMany \<and> served (snd (add_path p limit s)) = served s
    else (\<exists>i. fst (add_path p limit s) = Present i) \<and> p \<in> set (served (snd (add_path p limit s)))
      \<and> removeAll p (served (snd (add_path p limit s))) = served s
      \<and> length (served (snd (add_path p limit s))) = Suc (length (served s))
      \<and> (p \<notin> set (cm_order s) \<longrightarrow> served (snd (add_path p limit s)) = served s @ [p])"
proof -
  let ?h = "p \<in> set (cm_hidden s)"
  let ?b = "if ?h then removeAll p (cm_base s) else cm_base s"
  let ?hid = "if ?h then removeAll p (cm_hidden s) else cm_hidden s"
  have ids: "snd (members s) = s\<lparr>cm_ids := cm_ids (snd (members s))\<rparr>"
    by (simp add: members_def Let_def case_prod_beta)
  have p_add: "p \<notin> set (cm_added s)"
    using new inv by (auto simp: served_def set_union_paths cm_inv_def)
  have F: "filter (\<lambda>q. q \<notin> set ?hid) (?b @ cm_added s) = filter (\<lambda>q. q \<notin> set (cm_hidden s)) (cm_base s @ cm_added s)"
  proof (cases ?h)
    case True
    have G: "filter (\<lambda>q. q \<notin> set (removeAll p (cm_hidden s))) (removeAll p xs) = filter (\<lambda>q. q \<notin> set (cm_hidden s)) xs" for xs
      using True by (induction xs) auto
    have "removeAll p (cm_added s) = cm_added s" using p_add by (rule removeAll_id)
    with G [of "cm_added s"] show ?thesis unfolding if_P [OF True] filter_append G [of "cm_base s"] by simp
  qed simp
  have p_hid: "p \<notin> set ?hid" by simp
  note u = union_add [OF F p_hid new [unfolded served_def]]
  have "filter (\<lambda>h. \<not> ?h \<or> h \<noteq> p) (cm_hidden s) = ?hid"
    by (auto simp: removeAll_filter_not_eq filter_id_conv intro!: filter_cong)
  then have cand: "union_paths_with_visible p ?h (snd (members s)) = union_paths ?b (cm_added s @ [p]) ?hid (cm_order s)"
    using p_add by (simp add: union_paths_with_visible_def Let_def members_spec)
  show ?thesis
  proof (cases "Suc (length (served s)) > limit")
    case True
    then show ?thesis using new not_member [of p s] cand u(4)
      by (simp add: add_path_def Let_def case_prod_beta members_spec served_def)
  next
    case False
    let ?t = "snd (add_path p limit s)"
    have "cm_base ?t = ?b \<and> cm_added ?t = cm_added s @ [p] \<and> cm_hidden ?t = ?hid \<and> cm_order ?t = cm_order s
        \<and> (\<exists>i. fst (add_path p limit s) = Present i)"
      using False new not_member [of p s] cand u(4) p_add
      by (simp add: add_path_def Let_def case_prod_beta members_spec served_def)
    then have "served ?t = union_paths ?b (cm_added s @ [p]) ?hid (cm_order s)" "\<exists>i. fst (add_path p limit s) = Present i"
      by (simp_all add: served_def)
    with False u show ?thesis by (simp add: served_def)
  qed
qed

lemma add_path_keeps:
  "extends (cm_ids s) (cm_ids (snd (add_path p limit s)))"
  "set (cm_order (snd (add_path p limit s))) = set (cm_order s)"
  "set (cm_added (snd (add_path p limit s))) \<subseteq> insert p (set (cm_added s))"
  "set (cm_hidden (snd (add_path p limit s))) \<subseteq> set (cm_hidden s)"
  using members_spec [where s = s] id_for_extends [of _ p]
  by (auto simp: add_path_def Let_def case_prod_beta intro: extends_trans split: option.split)

lemma add_path_hidden:
  "p \<in> set (cm_hidden (snd (add_path p limit s))) \<Longrightarrow> cm_added (snd (add_path p limit s)) = cm_added s"
  by (simp add: add_path_def Let_def case_prod_beta members_spec split: option.splits if_splits)

lemma cm_step_extends: "extends (cm_ids s) (cm_ids (cm_step s e))"
  by (cases e) (simp_all add: set_paths_def add_path_keeps remove_path_def reorder_def members_spec)

lemma cm_inv_step: "cm_inv s \<Longrightarrow> cm_inv (cm_step s e)"
proof -
  assume inv: "cm_inv s"
  then have ids: "ids_wf (cm_ids (cm_step s e))" using cm_step_extends [of s e] by (auto simp: cm_inv_def extends_def)
  have "set (cm_hidden (cm_step s e)) \<inter> (set (cm_added (cm_step s e)) \<union> set (cm_order (cm_step s e))) = {}"
  proof (cases e)
    case (AddPath p limit)
    have "x \<noteq> p \<or> set (cm_added (snd (add_path p limit s))) = set (cm_added s)"
      if "x \<in> set (cm_hidden (snd (add_path p limit s)))" for x
      using add_path_hidden [of p limit s] that by auto
    with AddPath inv add_path_keeps(2-4) [where s = s] show ?thesis by (fastforce simp: cm_inv_def)
  next
    case (Reorder desired)
    have "set (served s) \<inter> set (cm_hidden s) = {}" by (auto simp: served_def set_union_paths)
    with Reorder inv show ?thesis by (auto simp: cm_inv_def reorder_def)
  qed (use inv in \<open>auto simp: cm_inv_def set_paths_def remove_path_def members_spec\<close>)
  with ids show ?thesis by (simp add: cm_inv_def)
qed

interpretation catalog: event_machine "\<lambda>_ _. True" cm_step cm_inv
  by unfold_locales (rule cm_inv_step)

lemma cm_inv_default: "cm_inv membership_default"
  by (simp add: cm_inv_def membership_default_def ids_wf_def)

text \<open>
  Opening a repository, in every state the session's catalog can reach: one that is served already changes nothing, one too many
  is refused and changes nothing, and otherwise exactly that one joins the others, whose order
  stays; at the end of the list, unless the remembered order still has its old place. The list is
  free of duplicates throughout and never grows past the limit.
\<close>

theorem catalog_add_exact:
  assumes "s = run cm_step membership_default es"
  shows "distinct (served s)
    \<and> (p \<in> set (served s) \<longrightarrow> (\<exists>i. fst (add_path p limit s) = Present i) \<and> served (snd (add_path p limit s)) = served s)
    \<and> (p \<notin> set (served s) \<and> limit < Suc (length (served s)) \<longrightarrow>
         fst (add_path p limit s) = TooMany \<and> served (snd (add_path p limit s)) = served s)
    \<and> (p \<notin> set (served s) \<and> Suc (length (served s)) \<le> limit \<longrightarrow>
         (\<exists>i. fst (add_path p limit s) = Present i) \<and> p \<in> set (served (snd (add_path p limit s)))
         \<and> removeAll p (served (snd (add_path p limit s))) = served s
         \<and> length (served (snd (add_path p limit s))) = Suc (length (served s))
         \<and> (p \<in> set (cm_hidden s) \<or> p \<notin> set (cm_order s) \<longrightarrow> served (snd (add_path p limit s)) = served s @ [p]))"
proof -
  have inv: "cm_inv s" unfolding assms by (rule catalog.run_inv [OF cm_inv_default]) simp
  have hid: "p \<in> set (cm_hidden s) \<Longrightarrow> p \<notin> set (cm_order s)" using inv by (auto simp: cm_inv_def)
  have there: "(\<exists>i. fst (add_path p limit s) = Present i) \<and> served (snd (add_path p limit s)) = served s"
    if mem: "p \<in> set (served s)"
  proof -
    obtain m where "List.find (\<lambda>m. mb_path m = p) (fst (members s)) = Some m"
      using not_member [of p s] mem by (cases "List.find (\<lambda>m. mb_path m = p) (fst (members s))") auto
    then show ?thesis by (simp add: add_path_def Let_def case_prod_beta members_spec)
  qed
  have "distinct (served s)" by (simp add: served_def distinct_union_paths)
  then show ?thesis using there add_path_served [OF inv, of p limit] hid by auto
qed

theorem catalog_add_exact_witness:
  "served (snd (add_path [98] 3 (run cm_step membership_default [SetPaths [[97], [98]], RemovePath [98], SetPaths [[98], [97]]])))
     = [[97], [98]]"
proof -
  let ?s = "run cm_step membership_default [SetPaths [[97], [98]], RemovePath [98], SetPaths [[98], [97]]]"
  have "[98] \<notin> set (served ?s) \<and> Suc (length (served ?s)) \<le> 3" "[98] \<in> set (cm_hidden ?s)" "served ?s = [[97]]"
    by (simp_all add: membership_default_def set_paths_def remove_path_def served_def union_paths_def)
  then show ?thesis using catalog_add_exact [of ?s _ "[98]" 3, OF refl] by auto
qed

text \<open>
  Closing a repository takes out that one and moves no other; reordering puts the named ones first in the order given and the
  rest after them in the order they had, losing and inventing none, even when the request is stale or
  names a repository twice; and a closed repository stays closed when the configuration is read
  again.
\<close>

theorem catalog_remove_reorder:
  "served (remove_path p s) = removeAll p (served s)
   \<and> p \<notin> set (served (set_paths paths (remove_path p s)))
   \<and> served (reorder desired s) =
       push_new [] (filter (\<lambda>q. q \<in> set (served s)) desired) @ filter (\<lambda>q. q \<notin> set desired) (served s)
   \<and> mset (served (reorder desired s)) = mset (served s)"
proof -
  let ?d = "push_new [] (filter (\<lambda>q. q \<in> set (served s)) desired)"
  have d: "distinct (served s)" by (simp add: served_def distinct_union_paths)
  have r: "served (reorder desired s) = push_new ?d (served s)" by (rule reorder_served)
  have "push_new ?d (served s) = ?d @ filter (\<lambda>q. q \<notin> set ?d) (served s)"
    using d by (rule push_new_filter)
  also have "filter (\<lambda>q. q \<notin> set ?d) (served s) = filter (\<lambda>q. q \<notin> set desired) (served s)"
    by (intro filter_cong) auto
  finally have eq: "served (reorder desired s) = ?d @ filter (\<lambda>q. q \<notin> set desired) (served s)" using r by simp
  have "mset (served (reorder desired s)) = mset (served s)"
    unfolding r by (rule set_eq_iff_mset_eq_distinct [THEN iffD1]) (use d in auto)
  moreover have "p \<notin> set (served (set_paths paths (remove_path p s)))"
    by (simp add: served_def set_paths_def remove_path_def set_union_paths)
  ultimately show ?thesis using remove_served eq by blast
qed

text \<open>
  Ids are stable and never shared: as long as fewer than \<open>2 ^ 64\<close> paths have been seen, two paths of the catalog's whole life have different ids, a path that leaves and comes
  back keeps the id it had, whatever happens in between, and every listed repository carries its own.
\<close>

theorem catalog_ids_stable:
  assumes "s = run cm_step membership_default es" "t = run cm_step s fs"
    and "card (dom (ia_by_path (cm_ids t))) < 2 ^ 64"
    and "ia_by_path (cm_ids s) p = Some i"
  shows "ia_by_path (cm_ids t) p = Some i
    \<and> (ia_by_path (cm_ids t) q = Some i \<longrightarrow> q = p)
    \<and> (m \<in> set (fst (members t)) \<and> mb_path m = p \<longrightarrow> mb_id m = i)"
proof -
  have "extends (cm_ids s) (cm_ids (run cm_step s fs))"
    by (induction fs arbitrary: s) (auto intro: extends_trans cm_step_extends)
  then have keep: "ia_by_path (cm_ids t) p = Some i"
    using assms(2,4) unfolding extends_def map_le_def by (metis domI)
  have "t = run cm_step membership_default (es @ fs)" using assms(1,2) by simp
  then have "cm_inv t" using catalog.run_inv [OF cm_inv_default, of "es @ fs"] by simp
  then have "inj_on (ia_by_path (cm_ids t)) (dom (ia_by_path (cm_ids t)))"
    using assms(3) by (simp add: cm_inv_def ids_wf_def)
  moreover have "mb_id m = i" if "m \<in> set (fst (members t))" "mb_path m = p"
    using members_spec(2,4) [where s = t] that keep unfolding extends_def map_le_def by (metis domI option.inject)
  ultimately show ?thesis using keep by (auto simp: inj_on_def domI)
qed

theorem catalog_ids_stable_witness:
  "\<exists>s t i. s = run cm_step membership_default [SetPaths [[97]], Members] \<and> t = run cm_step s [RemovePath [97], AddPath [98] 9, AddPath [97] 9]
     \<and> ia_by_path (cm_ids s) [97] = Some i \<and> ia_by_path (cm_ids t) [97] = Some i"
proof -
  let ?s = "run cm_step membership_default [SetPaths [[97]], Members]"
  let ?t = "run cm_step ?s [RemovePath [97], AddPath [98] 9, AddPath [97] 9]"
  let ?i = "lit ''r'' @ dec_str 1"
  note evals = membership_default_def set_paths_def remove_path_def served_def union_paths_def members_def id_for_def
    add_path_def union_paths_with_visible_def Let_def
  have a: "ia_by_path (cm_ids ?s) [97] = Some ?i" by (simp add: evals)
  have c: "card (dom (ia_by_path (cm_ids ?t))) < 2 ^ 64" by (simp add: evals)
  from conjunct1 [OF catalog_ids_stable [OF refl refl c a]] a show ?thesis
    by (intro exI [of _ ?s] exI [of _ ?t] exI [of _ ?i] conjI refl)
qed

end
