(* ===== verification/Path_Gate.thy ===== *)
theory Path_Gate
  imports Unix_Path
begin

text \<open>
  The gate every repository-relative path passes before the filesystem is touched:
  \<^verbatim>\<open>src/git/path/mod.rs\<close>, on Unix. \<^verbatim>\<open>Path::canonicalize\<close> and \<^verbatim>\<open>symlink_metadata\<close> are the
  parameters \<open>canonicalize\<close> and \<open>lstat\<close> (whether the path is a symbolic link, or no answer); a
  failed call is \<open>None\<close>. A name here is valid UTF-8, as the gate's \<^verbatim>\<open>&str\<close> argument is.
\<close>

definition GIT_DIR :: rstring where
  "GIT_DIR = lit ''.git''"

definition GIT_SHORT_DIR :: rstring where
  "GIT_SHORT_DIR = lit ''git~1''"

definition NAME_PADDING :: "rchar list" where
  "NAME_PADDING = [46, 32]"

definition HFS_IGNORABLE :: "rchar list" where
  "HFS_IGNORABLE = [0x200c, 0x200d, 0x200e, 0x200f, 0x202a, 0x202b, 0x202c, 0x202d,
     0x202e, 0x206a, 0x206b, 0x206c, 0x206d, 0x206e, 0x206f, 0xfeff]"

definition trim_end_matches :: "rchar list \<Rightarrow> rstring \<Rightarrow> rstring" where
  "trim_end_matches pad s = rev (dropWhile (\<lambda>c. c \<in> set pad) (rev s))"

definition effective_name :: "rstring \<Rightarrow> rstring" where
  "effective_name name =
     (let before = hd (split_on 58 name);
          base = (if before \<noteq> [] then before else name)
      in trim_end_matches NAME_PADDING (filter (\<lambda>c. c \<notin> set HFS_IGNORABLE) base))"

definition is_git_dir_name :: "rstring \<Rightarrow> bool" where
  "is_git_dir_name name \<longleftrightarrow>
     (let name = effective_name name
      in eq_ignore_ascii_case name GIT_DIR \<or> eq_ignore_ascii_case name GIT_SHORT_DIR)"

definition is_a_path_of_its_own :: "rstring \<Rightarrow> bool" where
  "is_a_path_of_its_own part =
     (case path_components part of Normal _ # rest \<Rightarrow> rest \<noteq> [] | _ \<Rightarrow> True)"

definition is_traversal_after_trimming :: "rstring \<Rightarrow> bool" where
  "is_traversal_after_trimming name \<longleftrightarrow>
     (let name = effective_name name in name = [] \<or> name = [46] \<or> name = [46, 46])"

definition is_refused_component :: "rstring \<Rightarrow> bool" where
  "is_refused_component name \<longleftrightarrow>
     is_git_dir_name name \<or> is_traversal_after_trimming name \<or> is_a_path_of_its_own name"

datatype path_error =
    EmptyPath
  | NulByte
  | EntersGitDir
  | NotPlainRelative
  | WorktreeUnavailable
  | StatFailed
  | SymlinkNotFollowed
  | EscapesWorktree

fun check_component :: "path_component \<Rightarrow> path_error option" where
  "check_component (Normal part) =
     (if is_git_dir_name part then Some EntersGitDir
      else if is_traversal_after_trimming part \<or> is_a_path_of_its_own part then Some NotPlainRelative
      else None)"
| "check_component _ = Some NotPlainRelative"

fun first_error :: "('a \<Rightarrow> 'e option) \<Rightarrow> 'a list \<Rightarrow> 'e + unit" where
  "first_error f [] = Inr ()"
| "first_error f (x # xs) = (case f x of Some e \<Rightarrow> Inl e | None \<Rightarrow> first_error f xs)"

definition validate_commit_path :: "rstring \<Rightarrow> path_error + unit" where
  "validate_commit_path relative =
     (if relative = [] then Inl EmptyPath
      else if 0 \<in> set relative then Inl NulByte
      else first_error check_component (path_components relative))"

fun component_str :: "path_component \<Rightarrow> rstring" where
  "component_str RootDir = [47]"
| "component_str CurDir = [46]"
| "component_str ParentDir = [46, 46]"
| "component_str (Normal n) = n"

fun walk :: "(rstring \<Rightarrow> bool option) \<Rightarrow> rstring \<Rightarrow> path_component list \<Rightarrow> path_error + rstring" where
  "walk lstat resolved [] = Inr resolved"
| "walk lstat resolved (c # cs) =
     (let resolved = path_join resolved (component_str c)
      in case lstat resolved of
           None \<Rightarrow> Inl StatFailed
         | Some is_symlink \<Rightarrow> if is_symlink then Inl SymlinkNotFollowed else walk lstat resolved cs)"

fun is_normal :: "path_component \<Rightarrow> bool" where
  "is_normal (Normal _) = True"
| "is_normal _ = False"

definition resolve_in_workdir ::
  "(rstring \<Rightarrow> rstring option) \<Rightarrow> (rstring \<Rightarrow> bool option) \<Rightarrow> rstring \<Rightarrow> rstring \<Rightarrow> path_error + rstring" where
  "resolve_in_workdir canonicalize lstat workdir relative =
     (case validate_commit_path relative of
        Inl e \<Rightarrow> Inl e
      | Inr _ \<Rightarrow>
          if \<not> list_all is_normal (path_components relative) then Inl NotPlainRelative
          else case canonicalize workdir of
                 None \<Rightarrow> Inl WorktreeUnavailable
               | Some base \<Rightarrow>
                   case walk lstat base (path_components relative) of
                     Inl e \<Rightarrow> Inl e
                   | Inr resolved \<Rightarrow>
                       if path_starts_with resolved base then Inr resolved else Inl EscapesWorktree)"

lemmas gate_evals = is_refused_component_def is_git_dir_name_def effective_name_def Let_def trim_end_matches_def NAME_PADDING_def
  HFS_IGNORABLE_def GIT_DIR_def GIT_SHORT_DIR_def eq_ignore_ascii_case_def to_ascii_lowercase_def
  is_traversal_after_trimming_def is_a_path_of_its_own_def path_components_def leading_def segment_def

section \<open>Names\<close>

lemma first_error_Inr: "first_error f xs = Inr () \<longleftrightarrow> (\<forall>x \<in> set xs. f x = None)"
  by (induction xs) (auto split: option.split)

lemma own_path_plain: "47 \<notin> set n \<Longrightarrow> n \<noteq> [] \<Longrightarrow> is_a_path_of_its_own n \<longleftrightarrow> \<not> plain_name n"
proof (cases "plain_name n")
  case False
  moreover assume "47 \<notin> set n" "n \<noteq> []"
  ultimately have "n = [46] \<or> n = [46, 46]" by (simp add: plain_name_def)
  then have "is_a_path_of_its_own n"
    by (elim disjE) (simp_all add: is_a_path_of_its_own_def path_components_def leading_def segment_def)
  with False show ?thesis by simp
qed (simp add: is_a_path_of_its_own_def)

lemma check_component_Normal: "check_component (Normal n) = None \<longleftrightarrow> \<not> is_refused_component n"
  by (simp add: is_refused_component_def)

text \<open>
  The listing and the gate agree: for every name a directory can hold (not empty, no separator, no NUL), the
  name is withheld from listings exactly when the gate refuses it as a path, so no row is offered
  that cannot be opened and none is hidden that could be.
\<close>

theorem refused_component_iff:
  assumes "n \<noteq> []" "47 \<notin> set n" "0 \<notin> set n"
  shows "is_refused_component n \<longleftrightarrow> validate_commit_path n \<noteq> Inr ()"
proof (cases "plain_name n")
  case True
  then show ?thesis using assms
    by (simp add: validate_commit_path_def is_refused_component_def)
next
  case False
  then have "is_refused_component n" using assms own_path_plain by (simp add: is_refused_component_def)
  moreover from False assms have "n = [46] \<or> n = [46, 46]" by (auto simp: plain_name_def)
  then have "validate_commit_path n \<noteq> Inr ()"
    by (elim disjE) (simp_all add: validate_commit_path_def path_components_def leading_def segment_def)
  ultimately show ?thesis by simp
qed

theorem refused_component_iff_witness:
  "is_refused_component (lit ''.GIT. '') \<and> validate_commit_path (lit ''.GIT. '') \<noteq> Inr ()"
proof -
  have "is_refused_component (lit ''.GIT. '')" by (simp add: gate_evals)
  moreover have "lit ''.GIT. '' \<noteq> []" "47 \<notin> set (lit ''.GIT. '')" "0 \<notin> set (lit ''.GIT. '')" by simp_all
  ultimately show ?thesis using refused_component_iff [of "lit ''.GIT. ''"] by simp
qed

lemma trim_end_append:
  "set ps \<subseteq> set pad \<Longrightarrow> xs \<noteq> [] \<Longrightarrow> last xs \<notin> set pad \<Longrightarrow> trim_end_matches pad (xs @ ps) = xs"
proof -
  assume "set ps \<subseteq> set pad" and xs: "xs \<noteq> []" "last xs \<notin> set pad"
  then have "dropWhile (\<lambda>c. c \<in> set pad) (rev ps @ rev xs) = dropWhile (\<lambda>c. c \<in> set pad) (rev xs)"
    by (subst dropWhile_append2) auto
  moreover have "dropWhile (\<lambda>c. c \<in> set pad) (rev xs) = rev xs"
    using xs by (cases xs rule: rev_cases) auto
  ultimately show ?thesis by (simp add: trim_end_matches_def)
qed

text \<open>
  No disguise of git's directory passes: take any spelling of \<^verbatim>\<open>.git\<close> or its short name \<^verbatim>\<open>git~1\<close> in any mix of
  cases, with any code points that HFS+ ignores scattered through it, any number of the trailing
  dots and spaces NTFS drops, and any alternate-stream suffix from a colon on; the result is recognised as the
  git directory and refused.
\<close>

theorem git_dir_disguises:
  assumes "map to_ascii_lowercase (filter (\<lambda>c. c \<notin> set HFS_IGNORABLE) name) \<in> {lit ''.git'', lit ''git~1''}"
    and "58 \<notin> set name"
    and "set pad \<subseteq> set NAME_PADDING \<union> set HFS_IGNORABLE"
    and "rest = [] \<or> hd rest = 58"
  shows "is_git_dir_name (name @ pad @ rest) \<and> is_refused_component (name @ pad @ rest)"
proof -
  let ?keep = "filter (\<lambda>c. c \<notin> set HFS_IGNORABLE)"
  have "58 \<notin> set pad" using assms(3) by (auto simp: NAME_PADDING_def HFS_IGNORABLE_def)
  with assms(2) have np: "58 \<notin> set (name @ pad)" by simp
  have ne: "?keep name \<noteq> []" using assms(1) by auto
  have "split_on 58 (name @ pad @ rest) = [name @ pad] \<or> hd (split_on 58 (name @ pad @ rest)) = name @ pad"
  proof (cases rest)
    case (Cons c cs)
    with assms(4) have "name @ pad @ rest = (name @ pad) @ 58 # cs" by simp
    then have "hd (split_on 58 (name @ pad @ rest)) = name @ pad"
      using split_on_append [of 58 "name @ pad" cs] split_on_plain [OF np] by simp
    then show ?thesis ..
  qed (use split_on_plain [OF np] in simp)
  then have "effective_name (name @ pad @ rest) = trim_end_matches NAME_PADDING (?keep name @ ?keep pad)"
    using ne by (auto simp: effective_name_def Let_def)
  moreover have "last (?keep name) \<notin> set NAME_PADDING"
  proof -
    have "to_ascii_lowercase (last (?keep name)) = last (map to_ascii_lowercase (?keep name))"
      using ne by (simp add: last_map)
    then have "to_ascii_lowercase (last (?keep name)) \<in> {116, 49}" using assms(1) by auto
    then show ?thesis by (auto simp: NAME_PADDING_def to_ascii_lowercase_def)
  qed
  moreover have "set (?keep pad) \<subseteq> set NAME_PADDING" using assms(3) by auto
  ultimately have "effective_name (name @ pad @ rest) = ?keep name"
    using ne by (simp add: trim_end_append)
  with assms(1) have "is_git_dir_name (name @ pad @ rest)"
    by (auto simp: is_git_dir_name_def eq_ignore_ascii_case_def GIT_DIR_def GIT_SHORT_DIR_def to_ascii_lowercase_def)
  then show ?thesis by (simp add: is_refused_component_def)
qed

theorem git_dir_disguises_witness:
  "is_git_dir_name ([46, 71, 0x200c, 105, 116] @ [46, 32] @ [58, 120])"
proof -
  have "map to_ascii_lowercase (filter (\<lambda>c. c \<notin> set HFS_IGNORABLE) [46, 71, 0x200c, 105, 116]) \<in> {lit ''.git'', lit ''git~1''}"
    by (simp add: HFS_IGNORABLE_def to_ascii_lowercase_def)
  moreover have "58 \<notin> set [46, 71, 0x200c, 105, 116 :: rchar]" "set [46, 32] \<subseteq> set NAME_PADDING \<union> set HFS_IGNORABLE"
    "[58, 120] = [] \<or> hd [58, 120 :: rchar] = 58"
    by (simp_all add: NAME_PADDING_def)
  ultimately show ?thesis using git_dir_disguises by blast
qed

section \<open>Containment\<close>

lemma walk_names:
  "walk lstat base (map Normal names) = Inr p \<longleftrightarrow>
     p = foldl path_join base names
     \<and> list_all (\<lambda>k. lstat (foldl path_join base (take (Suc k) names)) = Some False) [0..<length names]"
proof (induction names arbitrary: base)
  case (Cons n names)
  let ?b = "path_join base n"
  have "list_all (\<lambda>k. lstat (foldl path_join base (take (Suc k) (n # names))) = Some False) [0..<length (n # names)]
    \<longleftrightarrow> lstat ?b = Some False
      \<and> list_all (\<lambda>k. lstat (foldl path_join ?b (take (Suc k) names)) = Some False) [0..<length names]"
    by (simp add: list_all_length nth_append All_less_Suc2 del: upt_Suc)
  with Cons show ?case by (auto simp: Let_def split: option.split)
qed auto

lemma components_foldl_join:
  "list_all plain_name names \<Longrightarrow> path_components (foldl path_join base names) = path_components base @ map Normal names"
  by (induction names arbitrary: base) (simp_all add: path_components_join)

lemma all_normal: "list_all is_normal cs \<longleftrightarrow> (\<exists>names. cs = map Normal names)"
proof
  show "list_all is_normal cs \<Longrightarrow> \<exists>names. cs = map Normal names"
  proof (induction cs)
    case (Cons c cs)
    then obtain n names where "c = Normal n" "cs = map Normal names" by (cases c) auto
    then have "c # cs = map Normal (n # names)" by simp
    then show ?case by (rule exI)
  qed simp
qed (auto simp: list_all_iff)

lemma validate_Inr:
  "validate_commit_path relative = Inr () \<longleftrightarrow>
     relative \<noteq> [] \<and> 0 \<notin> set relative
     \<and> (\<exists>names. path_components relative = map Normal names \<and> list_all (\<lambda>n. \<not> is_refused_component n) names)"
proof -
  have "first_error check_component cs = Inr () \<longleftrightarrow>
    (\<exists>names. cs = map Normal names \<and> list_all (\<lambda>n. \<not> is_refused_component n) names)" for cs
  proof -
    have "first_error check_component cs = Inr () \<longleftrightarrow> list_all is_normal cs \<and> list_all (\<lambda>c. check_component c = None) cs"
      unfolding first_error_Inr list_all_iff by (metis check_component.simps(2-4) is_normal.elims(3) option.distinct(1))
    moreover have "list_all (\<lambda>c. check_component c = None) (map Normal names) \<longleftrightarrow>
        list_all (\<lambda>n. \<not> is_refused_component n) names" for names
      by (auto simp: list_all_iff is_refused_component_def)
    ultimately show ?thesis unfolding all_normal by auto
  qed
  then show ?thesis by (simp add: validate_commit_path_def)
qed

lemma components_nonempty:
  assumes "p \<noteq> []"
  shows "path_components p \<noteq> []"
proof (cases "hd p = 47")
  case True
  with assms show ?thesis by (simp add: path_components_def leading_def)
next
  case False
  with assms obtain s ss where s: "split_on 47 p = s # ss" "s \<noteq> []"
    by (cases p; cases "split_on 47 (tl p)") auto
  then show ?thesis by (cases "s = [46]") (auto simp: path_components_def leading_def segment_def)
qed

lemma refused_names_plain: "path_components relative = map Normal names \<Longrightarrow> list_all plain_name names"
  using component_plain [of _ relative] by (auto simp: list_all_iff)

text \<open>
  \<^bold>\<open>C22\<close>. What the gate lets through, exactly: a path is resolved if and only if it is a chain of ordinary names, none of
  them git's directory or a disguised \<^verbatim>\<open>..\<close>, and no step of the walk from the real worktree down is a symbolic link
  or missing; and the answer then lies under the worktree, its components being the worktree's
  followed by those names. So nothing outside the worktree, nothing inside \<^verbatim>\<open>.git\<close> and nothing behind
  a link is ever opened, and nothing else is refused.
\<close>

theorem resolve_in_workdir_iff:
  "resolve_in_workdir canonicalize lstat workdir relative = Inr p \<longleftrightarrow>
     0 \<notin> set relative \<and>
     (\<exists>base names. canonicalize workdir = Some base \<and> names \<noteq> []
        \<and> path_components relative = map Normal names
        \<and> list_all (\<lambda>n. \<not> is_refused_component n) names
        \<and> p = foldl path_join base names
        \<and> path_components p = path_components base @ map Normal names
        \<and> list_all (\<lambda>k. lstat (foldl path_join base (take (Suc k) names)) = Some False) [0..<length names])"
    (is "?l = ?r")
proof
  assume l: ?l
  then have v: "validate_commit_path relative = Inr ()"
    by (auto simp: resolve_in_workdir_def split: sum.splits)
  then obtain names where n: "path_components relative = map Normal names" "0 \<notin> set relative" "relative \<noteq> []"
    "list_all (\<lambda>n. \<not> is_refused_component n) names"
    unfolding validate_Inr by blast
  with components_nonempty have "names \<noteq> []" by fastforce
  moreover from l v n obtain base where "canonicalize workdir = Some base" "walk lstat base (map Normal names) = Inr p"
    by (auto simp: resolve_in_workdir_def split: sum.splits option.splits if_splits)
  moreover have "path_components (foldl path_join base names) = path_components base @ map Normal names"
    by (rule components_foldl_join [OF refused_names_plain [OF n(1)]])
  ultimately show ?r using n(1,2,4) unfolding walk_names by (intro conjI exI [of _ base] exI [of _ names]) simp_all
next
  assume ?r
  then obtain base names where n: "0 \<notin> set relative" "canonicalize workdir = Some base" "names \<noteq> []"
    "path_components relative = map Normal names" "list_all (\<lambda>n. \<not> is_refused_component n) names"
    "p = foldl path_join base names" "path_components p = path_components base @ map Normal names"
    "list_all (\<lambda>k. lstat (foldl path_join base (take (Suc k) names)) = Some False) [0..<length names]"
    by blast
  have "relative \<noteq> []" using n(3,4) by (auto simp: path_components_def leading_def segment_def)
  then have "validate_commit_path relative = Inr ()" using n validate_Inr by blast
  moreover have "walk lstat base (map Normal names) = Inr p" using n walk_names by blast
  moreover have "list_all is_normal (map Normal names)" using all_normal by blast
  ultimately show ?l using n by (simp add: resolve_in_workdir_def path_starts_with_def)
qed

theorem resolve_in_workdir_iff_witness:
  "resolve_in_workdir Some (\<lambda>p. Some False) (lit ''/repo'') (lit ''src/a.rs'') = Inr (lit ''/repo/src/a.rs'')
   \<and> path_components (lit ''/repo/src/a.rs'') = path_components (lit ''/repo'') @ [Normal (lit ''src''), Normal (lit ''a.rs'')]"
proof -
  have "resolve_in_workdir Some (\<lambda>p. Some False) (lit ''/repo'') (lit ''src/a.rs'') = Inr (lit ''/repo/src/a.rs'')"
    unfolding resolve_in_workdir_iff
    by (intro conjI exI [of _ "lit ''/repo''"] exI [of _ "[lit ''src'', lit ''a.rs'']"])
      (simp_all add: gate_evals path_join_def del: dropWhile_eq_Nil_conv)
  then show ?thesis by (simp add: gate_evals)
qed

end
