(* ===== verification/Viewer_Prefs.thy ===== *)
theory Viewer_Prefs
  imports Path_Gate Contracts
begin

text \<open>
  What the session remembers for its clients: \<^verbatim>\<open>src/session/prefs/mod.rs\<close>, \<^verbatim>\<open>maximized.rs\<close> and \<^verbatim>\<open>repo_view.rs\<close>. The preference file is what
  reading it gives, \<open>None\<close> when it is missing or unreadable; the JSON in between is not modelled. A write happens under the
  lock of the change it records and may fail, which the code only logs: the outcome is an argument of the operations.
\<close>

section \<open>Lists that remember projects\<close>

text \<open>\<^verbatim>\<open>retain(|entry| seen.insert(key(entry)))\<close>: the first entry of each key.\<close>

fun retain_first :: "('a \<Rightarrow> 'k) \<Rightarrow> 'k set \<Rightarrow> 'a list \<Rightarrow> 'a list" where
  "retain_first key seen [] = []"
| "retain_first key seen (x # xs) =
     (if key x \<in> seen then retain_first key seen xs else x # retain_first key (insert (key x) seen) xs)"

definition recent_ok :: "('a \<Rightarrow> 'k) \<Rightarrow> nat \<Rightarrow> ('a \<Rightarrow> bool) \<Rightarrow> 'a list \<Rightarrow> bool" where
  "recent_ok key cap good xs \<longleftrightarrow> distinct (map key xs) \<and> length xs \<le> cap \<and> list_all good xs"

lemma retain_first_keys: "key ` set (retain_first key seen xs) = key ` set xs - seen"
  by (induction key seen xs rule: retain_first.induct) auto

lemma retain_first_distinct: "distinct (map key (retain_first key seen xs))"
  by (induction key seen xs rule: retain_first.induct) (auto simp: retain_first_keys)

lemma retain_first_id: "distinct (map key xs) \<Longrightarrow> key ` set xs \<inter> seen = {} \<Longrightarrow> retain_first key seen xs = xs"
  by (induction key seen xs rule: retain_first.induct) auto

lemma retain_first_find: "k \<notin> seen \<Longrightarrow> List.find (\<lambda>x. key x = k) (retain_first key seen xs) = List.find (\<lambda>x. key x = k) xs"
  by (induction key seen xs rule: retain_first.induct) auto

lemma distinct_map_take: "distinct (map f xs) \<Longrightarrow> distinct (map f (take n xs))"
  by (metis distinct_take take_map)

lemma list_all_take: "list_all P xs \<Longrightarrow> list_all P (take n xs)"
  by (auto simp: list_all_iff dest: in_set_takeD)

lemma recent_ok_filter: "recent_ok key cap good xs \<Longrightarrow> recent_ok key cap good (filter P xs)"
  by (auto simp: recent_ok_def distinct_map_filter list_all_iff intro: order_trans [OF length_filter_le])

lemma recent_ok_front:
  assumes "recent_ok key cap good xs" "good x" "0 < cap"
  shows "recent_ok key cap good (take cap (x # filter (\<lambda>y. key y \<noteq> key x) xs))"
proof -
  have "distinct (map key (x # filter (\<lambda>y. key y \<noteq> key x) xs))" using assms(1) by (auto simp: recent_ok_def distinct_map_filter)
  then show ?thesis
    using assms unfolding recent_ok_def
    by (auto simp del: take_Suc_Cons intro!: distinct_map_take list_all_take) (auto simp: list_all_iff)
qed

lemma find_filter_other: "key x \<noteq> k \<Longrightarrow> List.find (\<lambda>y. key y = k) (filter (\<lambda>y. key y \<noteq> key x) xs) = List.find (\<lambda>y. key y = k) xs"
  by (induction xs) auto

text \<open>The contract of such a list: what is remembered for a key is found again, nothing else moves, and loading what was stored is harmless.\<close>

locale project_memory =
  fixes key :: "'a \<Rightarrow> 'k"
    and put :: "'a \<Rightarrow> 'a list \<Rightarrow> 'a list"
    and clean :: "'a list \<Rightarrow> 'a list"
    and ok :: "'a list \<Rightarrow> bool"
    and stored :: "'a \<Rightarrow> 'a"
  assumes put_ok: "ok xs \<Longrightarrow> ok (put x xs)"
    and clean_ok: "ok (clean xs)"
    and clean_id: "ok xs \<Longrightarrow> clean xs = xs"
    and put_hd: "put x xs \<noteq> [] \<and> hd (put x xs) = stored x"
    and stored_key: "key (stored x) = key x"
begin

lemma find_put: "List.find (\<lambda>y. key y = key x) (put x xs) = Some (stored x)"
  using put_hd [of x xs] stored_key [of x] by (cases "put x xs") auto

lemma puts_survive: "clean (fold put ys (clean xs)) = fold put ys (clean xs)"
proof -
  have "ok (fold put ys zs)" if "ok zs" for zs using that by (induction ys arbitrary: zs) (auto intro: put_ok)
  then show ?thesis using clean_id clean_ok by blast
qed

end

section \<open>Maximized panels\<close>

definition MAX_REMEMBERED_MAXIMIZED :: nat where
  "MAX_REMEMBERED_MAXIMIZED = 50"

datatype maximized_panel = PanelFiles | PanelTerminal

definition parse_panel :: "rstring \<Rightarrow> maximized_panel option" where
  "parse_panel v = (if v = lit ''files'' then Some PanelFiles else if v = lit ''terminal'' then Some PanelTerminal else None)"

fun panel_str :: "maximized_panel \<Rightarrow> rstring" where
  "panel_str PanelFiles = lit ''files''"
| "panel_str PanelTerminal = lit ''terminal''"

record repo_maximized =
  rm_repo :: rstring
  rm_panel :: maximized_panel

definition remember_maximized :: "repo_maximized list \<Rightarrow> rstring \<Rightarrow> maximized_panel option \<Rightarrow> repo_maximized list" where
  "remember_maximized list repo panel =
     (let list = filter (\<lambda>e. rm_repo e \<noteq> repo) list
      in case panel of
           Some panel \<Rightarrow> take MAX_REMEMBERED_MAXIMIZED (\<lparr>rm_repo = repo, rm_panel = panel\<rparr> # list)
         | None \<Rightarrow> list)"

definition normalize_maximized :: "repo_maximized list \<Rightarrow> repo_maximized list" where
  "normalize_maximized list = take MAX_REMEMBERED_MAXIMIZED (retain_first rm_repo {} list)"

definition panel_of :: "repo_maximized list \<Rightarrow> rstring \<Rightarrow> maximized_panel option" where
  "panel_of list repo = map_option rm_panel (List.find (\<lambda>e. rm_repo e = repo) list)"

section \<open>Last views\<close>

definition MAX_REMEMBERED_VIEWS :: nat where
  "MAX_REMEMBERED_VIEWS = 50"

definition MAX_TREE_EXPANDED :: nat where
  "MAX_TREE_EXPANDED = 200"

definition MAX_OID_LEN :: nat where
  "MAX_OID_LEN = 40"

datatype view_tab = TabStatus | TabLog | TabTree

definition parse_tab :: "rstring \<Rightarrow> view_tab option" where
  "parse_tab v = (if v = lit ''status'' then Some TabStatus else if v = lit ''log'' then Some TabLog
     else if v = lit ''tree'' then Some TabTree else None)"

fun tab_str :: "view_tab \<Rightarrow> rstring" where
  "tab_str TabStatus = lit ''status''"
| "tab_str TabLog = lit ''log''"
| "tab_str TabTree = lit ''tree''"

datatype view_face = FaceDiff | FaceSource

definition parse_face :: "rstring \<Rightarrow> view_face option" where
  "parse_face v = (if v = lit ''diff'' then Some FaceDiff else if v = lit ''source'' then Some FaceSource else None)"

fun face_str :: "view_face \<Rightarrow> rstring" where
  "face_str FaceDiff = lit ''diff''"
| "face_str FaceSource = lit ''source''"

record view_file =
  vf_path :: rstring
  vf_commit :: "rstring option"
  vf_face :: view_face

record repo_view =
  rv_repo :: rstring
  rv_tab :: view_tab
  rv_file :: "view_file option"
  rv_tree_expanded :: "rstring list"

definition is_safe_rel_path :: "rstring \<Rightarrow> bool" where
  "is_safe_rel_path rel \<longleftrightarrow>
     rel \<noteq> [] \<and> list_all (\<lambda>c. case c of Normal _ \<Rightarrow> True | CurDir \<Rightarrow> True | _ \<Rightarrow> False) (path_components rel)"

definition is_safe :: "rstring \<Rightarrow> bool" where
  "is_safe path \<longleftrightarrow> 0 \<notin> set path \<and> is_safe_rel_path path"

definition is_ascii_hexdigit :: "rchar \<Rightarrow> bool" where
  "is_ascii_hexdigit c \<longleftrightarrow> (48 \<le> c \<and> c \<le> 57) \<or> (65 \<le> c \<and> c \<le> 70) \<or> (97 \<le> c \<and> c \<le> 102)"

definition is_oid :: "rstring \<Rightarrow> bool" where
  "is_oid oid \<longleftrightarrow> oid \<noteq> [] \<and> str_len oid \<le> MAX_OID_LEN \<and> list_all (\<lambda>b. is_ascii_hexdigit (unat b)) (str_bytes oid)"

definition sanitize :: "repo_view \<Rightarrow> repo_view" where
  "sanitize v =
     (let v = (case rv_file v of
                 Some f \<Rightarrow>
                   if \<not> (is_safe (vf_path f) \<and> (case vf_commit f of None \<Rightarrow> True | Some oid \<Rightarrow> is_oid oid))
                   then v\<lparr>rv_file := None\<rparr> else v
               | None \<Rightarrow> v)
      in v\<lparr>rv_tree_expanded := take MAX_TREE_EXPANDED (filter is_safe (rv_tree_expanded v))\<rparr>)"

definition remember_view :: "repo_view list \<Rightarrow> repo_view \<Rightarrow> repo_view list" where
  "remember_view list v =
     (let v = sanitize v
      in take MAX_REMEMBERED_VIEWS (v # filter (\<lambda>e. rv_repo e \<noteq> rv_repo v) list))"

definition view_of :: "repo_view list \<Rightarrow> rstring \<Rightarrow> repo_view option" where
  "view_of list repo = List.find (\<lambda>e. rv_repo e = repo) list"

definition normalize_views :: "repo_view list \<Rightarrow> repo_view list" where
  "normalize_views list = map sanitize (take MAX_REMEMBERED_VIEWS (retain_first rv_repo {} list))"

section \<open>The store\<close>

definition DEFAULT_UPPER_PCT :: u32 where
  "DEFAULT_UPPER_PCT = 55"

definition MIN_UPPER_PCT :: u32 where
  "MIN_UPPER_PCT = 20"

definition MAX_UPPER_PCT :: u32 where
  "MAX_UPPER_PCT = 85"

text \<open>The length of \<^verbatim>\<open>Accent::ALL\<close>.\<close>

definition ACCENTS :: nat where
  "ACCENTS = 5"

record viewer_prefs =
  vp_accent :: nat
  vp_upper_pct :: u32
  vp_active_repo :: "rstring option"
  vp_maximized :: "repo_maximized list"
  vp_views :: "repo_view list"

definition prefs_default :: viewer_prefs where
  "prefs_default = \<lparr>vp_accent = 0, vp_upper_pct = DEFAULT_UPPER_PCT, vp_active_repo = None, vp_maximized = [], vp_views = []\<rparr>"

record prefs_store =
  ps_path :: bool
  ps_state :: viewer_prefs
  ps_file :: "viewer_prefs option"

definition clamp_pct :: "u32 \<Rightarrow> u32" where
  "clamp_pct p = (if p < MIN_UPPER_PCT then MIN_UPPER_PCT else if MAX_UPPER_PCT < p then MAX_UPPER_PCT else p)"

definition seeded_prefs :: "nat \<Rightarrow> viewer_prefs" where
  "seeded_prefs accent = prefs_default\<lparr>vp_accent := accent mod ACCENTS\<rparr>"

definition at_or :: "viewer_prefs option \<Rightarrow> viewer_prefs \<Rightarrow> prefs_store" where
  "at_or on_file absent =
     (let state = (case on_file of Some p \<Rightarrow> p | None \<Rightarrow> absent);
          state = state\<lparr>vp_upper_pct := clamp_pct (vp_upper_pct state)\<rparr>;
          state = state\<lparr>vp_maximized := normalize_maximized (vp_maximized state)\<rparr>;
          state = state\<lparr>vp_views := normalize_views (vp_views state)\<rparr>
      in \<lparr>ps_path = True, ps_state = state, ps_file = on_file\<rparr>)"

definition load_seeded :: "bool \<Rightarrow> viewer_prefs option \<Rightarrow> nat \<Rightarrow> prefs_store" where
  "load_seeded has_home on_file seed_accent =
     (if has_home then at_or on_file (seeded_prefs seed_accent)
      else \<lparr>ps_path = False, ps_state = seeded_prefs seed_accent, ps_file = on_file\<rparr>)"

definition mutate :: "bool \<Rightarrow> (viewer_prefs \<Rightarrow> viewer_prefs) \<Rightarrow> prefs_store \<Rightarrow> prefs_store" where
  "mutate written change s =
     (let state = change (ps_state s)
      in s\<lparr>ps_state := state, ps_file := (if ps_path s \<and> written then Some state else ps_file s)\<rparr>)"

record maximized_update =
  mu_repo :: rstring
  mu_panel :: "maximized_panel option"

record prefs_update =
  pu_accent :: "nat option"
  pu_upper_pct :: "u32 option"
  pu_active_repo :: "rstring option"
  pu_maximized :: "maximized_update option"
  pu_view :: "repo_view option"

definition no_update :: prefs_update where
  "no_update = \<lparr>pu_accent = None, pu_upper_pct = None, pu_active_repo = None, pu_maximized = None, pu_view = None\<rparr>"

definition apply_update :: "prefs_update \<Rightarrow> viewer_prefs \<Rightarrow> viewer_prefs" where
  "apply_update c s =
     (let s = (case pu_accent c of Some a \<Rightarrow> s\<lparr>vp_accent := a mod ACCENTS\<rparr> | None \<Rightarrow> s);
          s = (case pu_upper_pct c of Some p \<Rightarrow> s\<lparr>vp_upper_pct := clamp_pct p\<rparr> | None \<Rightarrow> s);
          s = (case pu_active_repo c of Some p \<Rightarrow> s\<lparr>vp_active_repo := Some p\<rparr> | None \<Rightarrow> s);
          s = (case pu_maximized c of
                 Some m \<Rightarrow> s\<lparr>vp_maximized := remember_maximized (vp_maximized s) (mu_repo m) (mu_panel m)\<rparr> | None \<Rightarrow> s)
      in case pu_view c of Some v \<Rightarrow> s\<lparr>vp_views := remember_view (vp_views s) v\<rparr> | None \<Rightarrow> s)"

definition update_prefs :: "bool \<Rightarrow> prefs_update \<Rightarrow> prefs_store \<Rightarrow> prefs_store" where
  "update_prefs written c s = mutate written (apply_update c) s"

definition set_active_repo_if :: "bool \<Rightarrow> rstring option \<Rightarrow> rstring \<Rightarrow> prefs_store \<Rightarrow> prefs_store" where
  "set_active_repo_if written expected next s =
     mutate written (\<lambda>p. if vp_active_repo p = expected then p\<lparr>vp_active_repo := Some next\<rparr> else p) s"

definition set_accent_pref :: "bool \<Rightarrow> nat \<Rightarrow> prefs_store \<Rightarrow> prefs_store" where
  "set_accent_pref written a = update_prefs written (no_update\<lparr>pu_accent := Some a\<rparr>)"

definition set_active_repo :: "bool \<Rightarrow> rstring \<Rightarrow> prefs_store \<Rightarrow> prefs_store" where
  "set_active_repo written path = update_prefs written (no_update\<lparr>pu_active_repo := Some path\<rparr>)"

section \<open>What is on file is what was chosen\<close>

definition view_ok :: "repo_view \<Rightarrow> bool" where
  "view_ok v \<longleftrightarrow>
     (case rv_file v of None \<Rightarrow> True
      | Some f \<Rightarrow> is_safe (vf_path f) \<and> (case vf_commit f of None \<Rightarrow> True | Some oid \<Rightarrow> is_oid oid))
     \<and> list_all is_safe (rv_tree_expanded v) \<and> length (rv_tree_expanded v) \<le> MAX_TREE_EXPANDED"

lemma sanitize_repo [simp]: "rv_repo (sanitize v) = rv_repo v"
  by (simp add: sanitize_def Let_def split: option.split)

lemma sanitize_ok: "view_ok (sanitize v)"
proof -
  have "list_all is_safe (take n (filter is_safe xs))" for n xs by (rule list_all_take) (simp add: list_all_iff)
  then show ?thesis by (auto simp: sanitize_def view_ok_def Let_def split: option.split)
qed

lemma sanitize_id: "view_ok v \<Longrightarrow> sanitize v = v"
proof -
  have "filter is_safe xs = xs" if "list_all is_safe xs" for xs using that by (simp add: filter_id_conv list_all_iff)
  then show "view_ok v \<Longrightarrow> sanitize v = v"
    by (cases v) (auto simp: sanitize_def view_ok_def Let_def split: option.splits)
qed

abbreviation views_ok :: "repo_view list \<Rightarrow> bool" where
  "views_ok \<equiv> recent_ok rv_repo MAX_REMEMBERED_VIEWS view_ok"

abbreviation panels_ok :: "repo_maximized list \<Rightarrow> bool" where
  "panels_ok \<equiv> recent_ok rm_repo MAX_REMEMBERED_MAXIMIZED (\<lambda>_. True)"

lemma map_sanitize_repo: "map rv_repo (map sanitize xs) = map rv_repo xs"
  by simp

interpretation views: project_memory rv_repo "\<lambda>v l. remember_view l v" normalize_views views_ok sanitize
proof
  show "views_ok (remember_view xs v)" if "views_ok xs" for xs v
    using recent_ok_front [OF that sanitize_ok [of v]] by (simp add: remember_view_def Let_def MAX_REMEMBERED_VIEWS_def)
  show "views_ok (normalize_views xs)" for xs
  proof -
    have "distinct (map rv_repo (map sanitize (take MAX_REMEMBERED_VIEWS (retain_first rv_repo {} xs))))"
      unfolding map_sanitize_repo by (intro distinct_map_take retain_first_distinct)
    then show ?thesis unfolding recent_ok_def normalize_views_def by (simp add: list_all_iff sanitize_ok)
  qed
  show "normalize_views xs = xs" if "views_ok xs" for xs
  proof -
    have "retain_first rv_repo {} xs = xs" using that by (intro retain_first_id) (auto simp: recent_ok_def)
    moreover have "map sanitize xs = xs" using that by (intro map_idI) (auto simp: recent_ok_def list_all_iff sanitize_id)
    ultimately show ?thesis using that by (simp add: normalize_views_def recent_ok_def)
  qed
qed (simp_all add: remember_view_def Let_def MAX_REMEMBERED_VIEWS_def)

interpretation panels: project_memory rm_repo "\<lambda>e l. remember_maximized l (rm_repo e) (Some (rm_panel e))" normalize_maximized panels_ok id
proof
  show "panels_ok (remember_maximized xs (rm_repo e) (Some (rm_panel e)))" if "panels_ok xs" for xs e
    using recent_ok_front [OF that, of "\<lparr>rm_repo = rm_repo e, rm_panel = rm_panel e\<rparr>"]
    by (simp add: remember_maximized_def Let_def MAX_REMEMBERED_MAXIMIZED_def)
  show "panels_ok (normalize_maximized xs)" for xs
    by (auto simp: recent_ok_def normalize_maximized_def list_all_iff intro!: distinct_map_take retain_first_distinct)
  show "normalize_maximized xs = xs" if "panels_ok xs" for xs
    using that retain_first_id [of rm_repo xs "{}"] by (auto simp: normalize_maximized_def recent_ok_def)
qed (simp_all add: remember_maximized_def Let_def MAX_REMEMBERED_MAXIMIZED_def)

lemma unmaximize_ok: "panels_ok xs \<Longrightarrow> panels_ok (remember_maximized xs repo None)"
  by (simp add: remember_maximized_def Let_def recent_ok_filter)

lemma remember_maximized_ok: "panels_ok xs \<Longrightarrow> panels_ok (remember_maximized xs repo panel)"
  using panels.put_ok [of xs "\<lparr>rm_repo = repo, rm_panel = p\<rparr>" for p] unmaximize_ok [of xs repo] by (cases panel) auto

definition prefs_ok :: "viewer_prefs \<Rightarrow> bool" where
  "prefs_ok p \<longleftrightarrow> MIN_UPPER_PCT \<le> vp_upper_pct p \<and> vp_upper_pct p \<le> MAX_UPPER_PCT \<and> panels_ok (vp_maximized p) \<and> views_ok (vp_views p)"

lemma clamp_pct_ok: "MIN_UPPER_PCT \<le> clamp_pct p \<and> clamp_pct p \<le> MAX_UPPER_PCT"
  by (simp add: clamp_pct_def MIN_UPPER_PCT_def MAX_UPPER_PCT_def not_less)

lemma prefs_ok_load: "prefs_ok (ps_state (at_or on_file absent))"
  by (simp add: at_or_def Let_def prefs_ok_def clamp_pct_ok views.clean_ok panels.clean_ok)

lemma prefs_ok_seeded: "prefs_ok (ps_state (load_seeded has_home on_file seed))"
  by (simp add: load_seeded_def prefs_ok_load)
     (simp add: prefs_ok_def seeded_prefs_def prefs_default_def recent_ok_def DEFAULT_UPPER_PCT_def MIN_UPPER_PCT_def MAX_UPPER_PCT_def)

lemma prefs_ok_update: "prefs_ok p \<Longrightarrow> prefs_ok (apply_update c p)"
  by (simp add: apply_update_def Let_def prefs_ok_def clamp_pct_ok remember_maximized_ok views.put_ok split: option.split)

lemma load_id: "prefs_ok p \<Longrightarrow> ps_state (at_or (Some p) absent) = p"
proof -
  assume ok: "prefs_ok p"
  then have "clamp_pct (vp_upper_pct p) = vp_upper_pct p" by (auto simp: prefs_ok_def clamp_pct_def)
  with ok show ?thesis by (simp add: at_or_def Let_def prefs_ok_def views.clean_id panels.clean_id)
qed

datatype prefs_event =
    PrefsUpdate bool prefs_update
  | PrefsFocusIf bool "rstring option" rstring

fun prefs_step :: "prefs_store \<Rightarrow> prefs_event \<Rightarrow> prefs_store" where
  "prefs_step s (PrefsUpdate written c) = update_prefs written c s"
| "prefs_step s (PrefsFocusIf written expected next) = set_active_repo_if written expected next s"

fun prefs_written :: "prefs_event \<Rightarrow> bool" where
  "prefs_written (PrefsUpdate written _) = written"
| "prefs_written (PrefsFocusIf written _ _) = written"

definition store_ok :: "prefs_store \<Rightarrow> bool" where
  "store_ok s \<longleftrightarrow> prefs_ok (ps_state s)"

lemma store_ok_if: "store_ok s \<Longrightarrow> store_ok (set_active_repo_if written expected next s)"
  by (simp add: store_ok_def set_active_repo_if_def mutate_def Let_def prefs_ok_def)

lemma store_ok_update: "store_ok s \<Longrightarrow> store_ok (update_prefs written c s)"
  by (simp add: store_ok_def update_prefs_def mutate_def Let_def prefs_ok_update)

interpretation prefs: event_machine "\<lambda>_ _. True" prefs_step store_ok
proof
  show "store_ok (prefs_step s e)" if "store_ok s" for s e using that by (cases e) (simp_all add: store_ok_if store_ok_update)
qed

text \<open>
  \<^bold>\<open>C39\<close>. Preferences survive a restart. Whatever is on file, hand-edited or missing, and whatever the clients change afterwards with
  any writes failing: the split stays within its bounds, at most fifty projects are remembered, each once, every path among them stays
  inside its project and no commit is anything but a short hex string. What the last successful write left on file loads as exactly the
  preferences of that moment, and the view a client stores is what the project opens with, unless it had to be cleaned.
\<close>

theorem prefs_survive_restart:
  assumes "s = run prefs_step (load_seeded True on_file seed) (es @ [e])" "prefs_written e"
  shows "prefs_ok (ps_state s) \<and> ps_state (at_or (ps_file s) absent) = ps_state s
    \<and> view_of (vp_views (ps_state (update_prefs w (c\<lparr>pu_view := Some v\<rparr>) s))) (rv_repo v) = Some (sanitize v)
    \<and> panel_of (vp_maximized (ps_state (update_prefs w (c\<lparr>pu_maximized := Some m\<rparr>) s))) (mu_repo m) = mu_panel m"
proof -
  let ?t = "run prefs_step (load_seeded True on_file seed) es"
  have step: "ps_path (prefs_step t e) = ps_path t" for t e
    by (cases e) (simp_all add: update_prefs_def set_active_repo_if_def mutate_def Let_def)
  have path: "ps_path (run prefs_step t es) = ps_path t" for t es by (induction es arbitrary: t) (simp_all add: step)
  have ok: "prefs_ok (ps_state s)"
    using prefs.run_inv [of "load_seeded True on_file seed" "es @ [e]"] prefs_ok_seeded [of True on_file seed] assms(1)
    by (simp add: store_ok_def)
  have "ps_path ?t" by (simp add: path) (simp add: load_seeded_def at_or_def Let_def)
  then have on: "ps_file s = Some (ps_state s)"
    using assms by (cases e) (simp_all add: update_prefs_def set_active_repo_if_def mutate_def Let_def)
  have v: "vp_views (ps_state (update_prefs w (c\<lparr>pu_view := Some v\<rparr>) s)) = remember_view (vp_views (ps_state s)) v"
    by (simp add: update_prefs_def mutate_def apply_update_def Let_def split: option.split)
  have m: "vp_maximized (ps_state (update_prefs w (c\<lparr>pu_maximized := Some m\<rparr>) s)) = remember_maximized (vp_maximized (ps_state s)) (mu_repo m) (mu_panel m)"
    by (simp add: update_prefs_def mutate_def apply_update_def Let_def split: option.split)
  have p: "panel_of (remember_maximized xs (mu_repo m) (mu_panel m)) (mu_repo m) = mu_panel m" for xs
    using panels.find_put [of "\<lparr>rm_repo = mu_repo m, rm_panel = p\<rparr>" xs for p]
    by (cases "mu_panel m") (auto simp: panel_of_def remember_maximized_def Let_def find_None_iff)
  show ?thesis using ok load_id [OF ok] p views.find_put [of v] by (simp add: on v m view_of_def)
qed

lemma prefs_survive_restart_witness:
  "let m = \<lparr>mu_repo = [47], mu_panel = Some PanelFiles\<rparr>; e = PrefsUpdate True (no_update\<lparr>pu_upper_pct := Some 200\<rparr>);
       s = run prefs_step (load_seeded True None 7) [e]
   in prefs_written e \<and> vp_upper_pct (ps_state (at_or (ps_file s) prefs_default)) = 85 \<and> vp_accent (ps_state (at_or (ps_file s) prefs_default)) = 2"
proof -
  let ?e = "PrefsUpdate True (no_update\<lparr>pu_upper_pct := Some 200\<rparr>)"
  let ?s = "run prefs_step (load_seeded True None 7) ([] @ [?e])"
  have "ps_state (at_or (ps_file ?s) prefs_default) = ps_state ?s"
    using prefs_survive_restart [of ?s None 7 "[]" ?e prefs_default] by simp
  moreover have "vp_upper_pct (ps_state ?s) = 85 \<and> vp_accent (ps_state ?s) = 2"
    by (simp add: load_seeded_def at_or_def seeded_prefs_def prefs_default_def ACCENTS_def no_update_def update_prefs_def mutate_def
        apply_update_def clamp_pct_def MIN_UPPER_PCT_def MAX_UPPER_PCT_def Let_def)
  ultimately show ?thesis by (simp add: Let_def)
qed

text \<open>
  The accent is the one field the load takes as it is: an index past the cycle is served to every reader, where a write would have
  wrapped it.
\<close>

lemma accent_on_file_unchecked:
  "vp_accent (ps_state (at_or (Some (prefs_default\<lparr>vp_accent := 99\<rparr>)) absent)) = 99"
  "vp_accent (ps_state (set_accent_pref w 99 s)) = 4"
  by (simp_all add: at_or_def Let_def set_accent_pref_def update_prefs_def mutate_def apply_update_def no_update_def ACCENTS_def)

end
