(* ===== verification/Session_Projects.thy ===== *)
theory Session_Projects
  imports Catalog_Membership Viewer_Prefs
begin

text \<open>
  The projects of the shared session and the one in front: the catalog's live runtimes (\<^verbatim>\<open>src/session/catalog/\<close>), the operations every
  transport lands on (\<^verbatim>\<open>src/session/operations.rs\<close>) and the workspace file they keep (\<^verbatim>\<open>src/workspace/persistence.rs\<close>). A runtime and its
  terminal hub are one handle, the identity of the \<^verbatim>\<open>Arc\<close>; which handles were started and which were stopped is recorded. What the
  file system answers is an argument of every operation, so it may change between any two of them; \<^verbatim>\<open>discover\<close> is libgit2's. Whether a write of
  the preference file works is an argument too. Each operation runs alone: the locks of the code make the catalog and the preferences
  each atomic, not the two together.
\<close>

section \<open>Paths\<close>

record file_system =
  fs_is_dir :: "rstring \<Rightarrow> bool"
  fs_discover :: "rstring \<Rightarrow> rstring option"
  fs_canonicalize :: "rstring \<Rightarrow> rstring option"
  fs_home :: "rstring option"

definition resolve_repo_path :: "file_system \<Rightarrow> rstring \<Rightarrow> rstring" where
  "resolve_repo_path fs path =
     (let candidate = (case fs_discover fs path of Some workdir \<Rightarrow> workdir | None \<Rightarrow> path)
      in case fs_canonicalize fs candidate of Some p \<Rightarrow> p | None \<Rightarrow> candidate)"

text \<open>
  The text of a path's remaining components, joined by single separators; \<^verbatim>\<open>Components::as_path\<close> keeps repeated separators inside it, which
  name the same file.
\<close>

fun component_text :: "path_component \<Rightarrow> rstring" where
  "component_text RootDir = [47]"
| "component_text CurDir = [46]"
| "component_text ParentDir = [46, 46]"
| "component_text (Normal n) = n"

fun join_components :: "path_component list \<Rightarrow> rstring" where
  "join_components [] = []"
| "join_components [c] = component_text c"
| "join_components (c # cs) = component_text c @ 47 # join_components cs"

definition expand_tilde :: "file_system \<Rightarrow> rstring \<Rightarrow> rstring" where
  "expand_tilde fs path =
     (case path_components path of
        Normal n # rest \<Rightarrow>
          if n = [126] then (case fs_home fs of Some home \<Rightarrow> path_join home (join_components rest) | None \<Rightarrow> path)
          else path
      | _ \<Rightarrow> path)"

definition repo_name :: "rstring \<Rightarrow> rstring" where
  "repo_name path = (case file_name (trim_end_matches [47] path) of Some n \<Rightarrow> n | None \<Rightarrow> path)"

definition display_path :: "file_system \<Rightarrow> rstring \<Rightarrow> rstring" where
  "display_path fs path =
     (let path = trim_end_matches [47] path
      in case fs_home fs of
           None \<Rightarrow> path
         | Some home \<Rightarrow>
             if path_starts_with path home then
               (let rest = join_components (drop (length (path_components home)) (path_components path))
                in if rest = [] then [126] else [126, 47] @ rest)
             else path)"

section \<open>The catalog\<close>

record repo_entry =
  re_id :: rstring
  re_path :: rstring
  re_name :: rstring
  re_display_path :: rstring
  re_handle :: nat

record repo_info =
  ri_id :: rstring
  ri_name :: rstring
  ri_display_path :: rstring

definition info :: "repo_entry \<Rightarrow> repo_info" where
  "info e = \<lparr>ri_id = re_id e, ri_name = re_name e, ri_display_path = re_display_path e\<rparr>"

record catalog =
  ca_members :: catalog_membership
  ca_entries :: "repo_entry list"
  ca_started :: nat
  ca_stopped :: "nat list"

definition catalog_default :: catalog where
  "catalog_default = \<lparr>ca_members = membership_default, ca_entries = [], ca_started = 0, ca_stopped = []\<rparr>"

text \<open>The loop of \<^verbatim>\<open>CatalogRuntime::reconcile\<close>: an entry whose path stays keeps its runtime, the others get a new one.\<close>

fun reconcile_entries :: "file_system \<Rightarrow> repo_entry list \<Rightarrow> member list \<Rightarrow> nat \<Rightarrow> repo_entry list \<times> nat" where
  "reconcile_entries fs previous [] n = ([], n)"
| "reconcile_entries fs previous (m # ms) n =
     (case List.find (\<lambda>e. re_path e = mb_path m) previous of
        Some existing \<Rightarrow> (let (es, n) = reconcile_entries fs previous ms n in (existing # es, n))
      | None \<Rightarrow>
          let new = \<lparr>re_id = mb_id m, re_path = mb_path m, re_name = repo_name (mb_path m),
                     re_display_path = display_path fs (mb_path m), re_handle = n\<rparr>;
              (es, n) = reconcile_entries fs previous ms (n + 1)
          in (new # es, n))"

definition reconcile :: "file_system \<Rightarrow> member list \<Rightarrow> catalog \<Rightarrow> repo_entry list \<times> catalog" where
  "reconcile fs ms c =
     (let (new, n) = reconcile_entries fs (ca_entries c) ms (ca_started c);
          retired = filter (\<lambda>old. re_handle old \<notin> re_handle ` set new) (ca_entries c)
      in (retired, c\<lparr>ca_entries := new, ca_started := n\<rparr>))"

definition stop_entries :: "repo_entry list \<Rightarrow> catalog \<Rightarrow> catalog" where
  "stop_entries es c = c\<lparr>ca_stopped := ca_stopped c @ map re_handle es\<rparr>"

definition commit :: "file_system \<Rightarrow> catalog_membership \<Rightarrow> catalog \<Rightarrow> catalog" where
  "commit fs membership c =
     (let (ms, membership) = members membership;
          (retired, c) = reconcile fs ms (c\<lparr>ca_members := membership\<rparr>)
      in stop_entries retired c)"

definition change_membership :: "file_system \<Rightarrow> (catalog_membership \<Rightarrow> catalog_membership) \<Rightarrow> catalog \<Rightarrow> catalog" where
  "change_membership fs change c = commit fs (change (ca_members c)) c"

definition catalog_set_paths :: "file_system \<Rightarrow> rstring list \<Rightarrow> catalog \<Rightarrow> catalog" where
  "catalog_set_paths fs paths c = change_membership fs (set_paths (map (resolve_repo_path fs) paths)) c"

datatype add_outcome = Added repo_info | AddTooMany

text \<open>\<^verbatim>\<open>None\<close> is the panic of its \<^verbatim>\<open>expect\<close>.\<close>

definition catalog_add_path :: "file_system \<Rightarrow> rstring \<Rightarrow> nat \<Rightarrow> catalog \<Rightarrow> add_outcome option \<times> catalog" where
  "catalog_add_path fs path limit c =
     (let path = resolve_repo_path fs path;
          (outcome, membership) = add_path path limit (ca_members c)
      in case outcome of
           TooMany \<Rightarrow> (Some AddTooMany, c\<lparr>ca_members := membership\<rparr>)
         | Present i \<Rightarrow>
             let c = commit fs membership c
             in (map_option (\<lambda>e. Added (info e)) (List.find (\<lambda>e. re_id e = i) (ca_entries c)), c))"

definition catalog_remove_path :: "file_system \<Rightarrow> rstring \<Rightarrow> catalog \<Rightarrow> catalog" where
  "catalog_remove_path fs path c = change_membership fs (remove_path (resolve_repo_path fs path)) c"

definition catalog_reorder :: "file_system \<Rightarrow> rstring list \<Rightarrow> catalog \<Rightarrow> catalog" where
  "catalog_reorder fs desired c = change_membership fs (reorder (map (resolve_repo_path fs) desired)) c"

definition catalog_shutdown :: "catalog \<Rightarrow> catalog" where
  "catalog_shutdown c = stop_entries (ca_entries c) (c\<lparr>ca_entries := []\<rparr>)"

definition catalog_get :: "catalog \<Rightarrow> rstring \<Rightarrow> repo_entry option" where
  "catalog_get c i = List.find (\<lambda>e. re_id e = i) (ca_entries c)"

definition id_of_path :: "catalog \<Rightarrow> rstring \<Rightarrow> rstring option" where
  "id_of_path c path = map_option re_id (List.find (\<lambda>e. re_path e = path) (ca_entries c))"

definition id_paths :: "catalog \<Rightarrow> (rstring \<times> rstring) list" where
  "id_paths c = map (\<lambda>e. (re_id e, re_path e)) (ca_entries c)"

definition catalog_paths :: "catalog \<Rightarrow> rstring list" where
  "catalog_paths c = map re_path (ca_entries c)"

definition catalog_list :: "catalog \<Rightarrow> repo_info list" where
  "catalog_list c = map info (ca_entries c)"

record served_view =
  sv_list :: "repo_info list"
  sv_active :: "rstring option"
  sv_maximized :: "(rstring \<times> maximized_panel) list"
  sv_views :: "(rstring \<times> repo_view) list"

text \<open>The maps by id, as the pairs they are collected from.\<close>

definition list_with_active :: "catalog \<Rightarrow> rstring option \<Rightarrow> repo_maximized list \<Rightarrow> repo_view list \<Rightarrow> served_view" where
  "list_with_active c remembered maximized views =
     \<lparr>sv_list = map info (ca_entries c),
      sv_active = Option.bind remembered (\<lambda>path. map_option re_id (List.find (\<lambda>e. re_path e = path) (ca_entries c))),
      sv_maximized = List.map_filter (\<lambda>e. map_option (\<lambda>p. (re_id e, p)) (panel_of maximized (re_path e))) (ca_entries c),
      sv_views = List.map_filter (\<lambda>e. map_option (\<lambda>v. (re_id e, v)) (view_of views (re_path e))) (ca_entries c)\<rparr>"

section \<open>The workspace file\<close>

definition MAX_PROJECTS :: nat where
  "MAX_PROJECTS = 10"

text \<open>The saved view state of a repository is opaque here: the session only carries it along.\<close>

record 'v workspace_state =
  ws_repos :: "rstring list"
  ws_active :: nat
  ws_sessions :: "(rstring \<times> 'v) list"

definition workspace_default :: "'v workspace_state" where
  "workspace_default = \<lparr>ws_repos = [], ws_active = 0, ws_sessions = []\<rparr>"

record 'v session_state =
  ss_catalog :: catalog
  ss_persist :: bool
  ss_prefs :: prefs_store
  ss_workspace :: "'v workspace_state option"

definition get_at :: "'a list \<Rightarrow> nat \<Rightarrow> 'a option" where
  "get_at xs i = (if i < length xs then Some (xs ! i) else None)"

fun position :: "('a \<Rightarrow> bool) \<Rightarrow> 'a list \<Rightarrow> nat option" where
  "position P [] = None"
| "position P (x # xs) = (if P x then Some 0 else map_option Suc (position P xs))"

text \<open>\<open>saved\<close> is whether the file could be written.\<close>

definition persist_workspace :: "bool \<Rightarrow> 'v session_state \<Rightarrow> 'v session_state" where
  "persist_workspace saved s =
     (if \<not> ss_persist s then s
      else let ws = (case ss_workspace s of Some ws \<Rightarrow> ws | None \<Rightarrow> workspace_default);
               active_path = get_at (ws_repos ws) (ws_active ws);
               ws = ws\<lparr>ws_repos := catalog_paths (ss_catalog s)\<rparr>;
               ws = ws\<lparr>ws_active := (case Option.bind active_path (\<lambda>path. position (\<lambda>r. r = path) (ws_repos ws)) of Some i \<Rightarrow> i | None \<Rightarrow> 0)\<rparr>
           in if saved then s\<lparr>ss_workspace := Some ws\<rparr> else s)"

section \<open>Operations\<close>

datatype open_error = OpenEmptyPath | OpenNotADirectory | OpenTooMany

datatype close_error = UnknownRepo

definition active_repo_from :: "catalog \<Rightarrow> rstring option \<Rightarrow> rstring option" where
  "active_repo_from c stored =
     (case Option.bind stored (id_of_path c) of
        Some i \<Rightarrow> Some i
      | None \<Rightarrow> (case id_paths c of [] \<Rightarrow> None | (i, _) # _ \<Rightarrow> Some i))"

definition active_repo :: "'v session_state \<Rightarrow> rstring option" where
  "active_repo s = active_repo_from (ss_catalog s) (vp_active_repo (ps_state (ss_prefs s)))"

definition list_repos :: "'v session_state \<Rightarrow> repo_info list" where
  "list_repos s = catalog_list (ss_catalog s)"

definition list_session_repos :: "'v session_state \<Rightarrow> (rstring \<times> rstring) list" where
  "list_session_repos s = id_paths (ss_catalog s)"

definition on_prefs :: "(prefs_store \<Rightarrow> prefs_store) \<Rightarrow> 'v session_state \<Rightarrow> 'v session_state" where
  "on_prefs f s = s\<lparr>ss_prefs := f (ss_prefs s)\<rparr>"

definition on_catalog :: "(catalog \<Rightarrow> catalog) \<Rightarrow> 'v session_state \<Rightarrow> 'v session_state" where
  "on_catalog f s = s\<lparr>ss_catalog := f (ss_catalog s)\<rparr>"

text \<open>The result is \<open>None\<close> where \<open>catalog_add_path\<close> panics.\<close>

definition open_repo :: "file_system \<Rightarrow> bool \<Rightarrow> rstring \<Rightarrow> 'v session_state \<Rightarrow> (open_error + repo_info) option \<times> 'v session_state" where
  "open_repo fs written raw_path s =
     (let raw = str_trim raw_path
      in if raw = [] then (Some (Inl OpenEmptyPath), s)
         else
           let expanded = expand_tilde fs raw
           in if \<not> fs_is_dir fs expanded then (Some (Inl OpenNotADirectory), s)
              else
                let resolved = resolve_repo_path fs expanded;
                    (outcome, catalog) = catalog_add_path fs resolved MAX_PROJECTS (ss_catalog s);
                    s = s\<lparr>ss_catalog := catalog\<rparr>
                in case outcome of
                     None \<Rightarrow> (None, s)
                   | Some AddTooMany \<Rightarrow> (Some (Inl OpenTooMany), s)
                   | Some (Added repo) \<Rightarrow>
                       let s = (case catalog_get (ss_catalog s) (ri_id repo) of
                                  Some e \<Rightarrow> on_prefs (set_active_repo written (re_path e)) s | None \<Rightarrow> s)
                       in (Some (Inr repo), persist_workspace written s))"

definition focus_repo :: "bool \<Rightarrow> rstring \<Rightarrow> 'v session_state \<Rightarrow> (close_error + unit) \<times> 'v session_state" where
  "focus_repo written i s =
     (case catalog_get (ss_catalog s) i of
        None \<Rightarrow> (Inl UnknownRepo, s)
      | Some e \<Rightarrow> (Inr (), on_prefs (set_active_repo written (re_path e)) s))"

definition accent :: "'v session_state \<Rightarrow> nat" where
  "accent s = vp_accent (ps_state (ss_prefs s))"

definition set_accent :: "bool \<Rightarrow> nat \<Rightarrow> 'v session_state \<Rightarrow> nat \<times> 'v session_state" where
  "set_accent written a s = (let s = on_prefs (set_accent_pref written a) s in (vp_accent (ps_state (ss_prefs s)), s))"

definition successor_of :: "catalog \<Rightarrow> rstring \<Rightarrow> rstring option" where
  "successor_of c i =
     (let served = id_paths c
      in case position (\<lambda>(j, _). j = i) served of
           None \<Rightarrow> None
         | Some closing \<Rightarrow>
             map_option snd
               (case get_at served (closing + 1) of
                  Some p \<Rightarrow> Some p
                | None \<Rightarrow> if closing = 0 then None else get_at served (closing - 1)))"

definition close_repo :: "file_system \<Rightarrow> bool \<Rightarrow> rstring \<Rightarrow> 'v session_state \<Rightarrow> (close_error + unit) \<times> 'v session_state" where
  "close_repo fs written i s =
     (case catalog_get (ss_catalog s) i of
        None \<Rightarrow> (Inl UnknownRepo, s)
      | Some e \<Rightarrow>
          let focus_before = vp_active_repo (ps_state (ss_prefs s));
              successor = (if active_repo_from (ss_catalog s) focus_before = Some i then successor_of (ss_catalog s) i else None);
              s = on_catalog (catalog_remove_path fs (re_path e)) s;
              s = (case successor of
                     Some path \<Rightarrow>
                       if id_of_path (ss_catalog s) path \<noteq> None
                       then on_prefs (set_active_repo_if written focus_before path) s else s
                   | None \<Rightarrow> s)
          in (Inr (), persist_workspace written s))"

definition reorder_repos :: "file_system \<Rightarrow> bool \<Rightarrow> rstring list \<Rightarrow> 'v session_state \<Rightarrow> 'v session_state" where
  "reorder_repos fs written ids s =
     (let focus_before = vp_active_repo (ps_state (ss_prefs s));
          front = (if Option.bind focus_before (id_of_path (ss_catalog s)) = None
                   then Option.bind (active_repo_from (ss_catalog s) focus_before)
                          (\<lambda>i. map_option re_path (catalog_get (ss_catalog s) i))
                   else None);
          paths = List.map_filter (\<lambda>i. map_option re_path (catalog_get (ss_catalog s) i)) ids;
          s = (case front of Some path \<Rightarrow> on_prefs (set_active_repo_if written focus_before path) s | None \<Rightarrow> s);
          s = on_catalog (catalog_reorder fs paths) s
      in persist_workspace written s)"

definition with_plugins :: "file_system \<Rightarrow> rstring list \<Rightarrow> bool \<Rightarrow> prefs_store \<Rightarrow> 'v workspace_state option \<Rightarrow> 'v session_state" where
  "with_plugins fs repos persist prefs workspace =
     \<lparr>ss_catalog = catalog_set_paths fs repos catalog_default, ss_persist = persist, ss_prefs = prefs, ss_workspace = workspace\<rparr>"

definition session_shutdown :: "'v session_state \<Rightarrow> 'v session_state" where
  "session_shutdown s = on_catalog catalog_shutdown s"

section \<open>Runtimes follow the membership\<close>

definition cat_inv :: "catalog \<Rightarrow> bool" where
  "cat_inv c \<longleftrightarrow> cm_inv (ca_members c) \<and> map re_path (ca_entries c) = served (ca_members c)
     \<and> (\<forall>e \<in> set (ca_entries c). ia_by_path (cm_ids (ca_members c)) (re_path e) = Some (re_id e))
     \<and> distinct (map re_handle (ca_entries c)) \<and> distinct (ca_stopped c)
     \<and> set (ca_stopped c) \<inter> re_handle ` set (ca_entries c) = {}
     \<and> set (ca_stopped c) \<union> re_handle ` set (ca_entries c) = {..<ca_started c}"

lemma find_by_path:
  "distinct (map f xs) \<Longrightarrow> x \<in> set xs \<Longrightarrow> List.find (\<lambda>y. f y = f x) xs = Some x"
  by (induction xs) auto

lemma find_unique: "distinct (map f xs) \<Longrightarrow> List.find (\<lambda>y. f y = k) xs = Some x \<longleftrightarrow> x \<in> set xs \<and> f x = k"
  by (induction xs) auto

lemma reconcile_entries_spec:
  assumes "distinct (map re_path prev)" "distinct (map re_handle prev)" "\<And>e. e \<in> set prev \<Longrightarrow> re_handle e < n"
    "distinct (map mb_path ms)" "reconcile_entries fs prev ms n = (es, n')"
  shows "n \<le> n' \<and> map re_path es = map mb_path ms \<and> distinct (map re_handle es)
    \<and> {e \<in> set prev. re_path e \<in> mb_path ` set ms} \<subseteq> set es
    \<and> (\<forall>e \<in> set es. e \<in> set prev \<or> (n \<le> re_handle e \<and> (\<exists>m \<in> set ms. mb_path m = re_path e \<and> mb_id m = re_id e)))
    \<and> re_handle ` set es \<subseteq> {..<n'} \<and> {n..<n'} \<subseteq> re_handle ` set es"
  using assms(3-5)
proof (induction ms arbitrary: n es n')
  case (Cons m ms)
  let ?f = "List.find (\<lambda>e. re_path e = mb_path m) prev"
  have keep: "re_path a = re_path b \<Longrightarrow> a \<in> set prev \<Longrightarrow> b \<in> set prev \<Longrightarrow> a = b" for a b
    using assms(1) unfolding distinct_map inj_on_def by blast
  have keep': "re_handle a = re_handle b \<Longrightarrow> a \<in> set prev \<Longrightarrow> b \<in> set prev \<Longrightarrow> a = b" for a b
    using assms(2) unfolding distinct_map inj_on_def by blast
  show ?case
  proof (cases ?f)
    case (Some x)
    then have x: "x \<in> set prev" "re_path x = mb_path m" by (auto simp: find_Some_iff)
    obtain es1 where es1: "reconcile_entries fs prev ms n = (es1, n')" "es = x # es1"
      using Cons.prems(3) Some by (auto split: prod.splits)
    have IH: "n \<le> n' \<and> map re_path es1 = map mb_path ms \<and> distinct (map re_handle es1)
      \<and> {e \<in> set prev. re_path e \<in> mb_path ` set ms} \<subseteq> set es1
      \<and> (\<forall>e \<in> set es1. e \<in> set prev \<or> (n \<le> re_handle e \<and> (\<exists>m \<in> set ms. mb_path m = re_path e \<and> mb_id m = re_id e)))
      \<and> re_handle ` set es1 \<subseteq> {..<n'} \<and> {n..<n'} \<subseteq> re_handle ` set es1"
      using Cons.IH [OF Cons.prems(1) _ es1(1)] Cons.prems(2) by auto
    have "re_handle x \<notin> re_handle ` set es1"
    proof
      assume "re_handle x \<in> re_handle ` set es1"
      then obtain e where e: "e \<in> set es1" "re_handle e = re_handle x" by auto
      then have "e = x" using IH Cons.prems(1) [OF x(1)] x(1) keep' by (metis leD)
      then have "mb_path m \<in> mb_path ` set ms" using IH e(1) x(2) by (metis image_eqI image_set list.set_map)
      then show False using Cons.prems(2) by simp
    qed
    moreover have "{e \<in> set prev. re_path e \<in> mb_path ` set (m # ms)} \<subseteq> set (x # es1)" using IH x keep by auto
    ultimately show ?thesis using IH x Cons.prems(1) [OF x(1)] es1(2) by auto
  next
    case None
    let ?x = "\<lparr>re_id = mb_id m, re_path = mb_path m, re_name = repo_name (mb_path m), re_display_path = display_path fs (mb_path m), re_handle = n\<rparr>"
    obtain es1 where es1: "reconcile_entries fs prev ms (n + 1) = (es1, n')" "es = ?x # es1"
      using Cons.prems(3) None by (auto simp: Let_def split: prod.splits)
    have no: "re_path e \<noteq> mb_path m" if "e \<in> set prev" for e using None that by (auto simp: find_None_iff)
    have "n + 1 \<le> n' \<and> map re_path es1 = map mb_path ms \<and> distinct (map re_handle es1)
      \<and> {e \<in> set prev. re_path e \<in> mb_path ` set ms} \<subseteq> set es1
      \<and> (\<forall>e \<in> set es1. e \<in> set prev \<or> (n + 1 \<le> re_handle e \<and> (\<exists>m \<in> set ms. mb_path m = re_path e \<and> mb_id m = re_id e)))
      \<and> re_handle ` set es1 \<subseteq> {..<n'} \<and> {n + 1..<n'} \<subseteq> re_handle ` set es1"
      using Cons.IH [OF _ _ es1(1)] Cons.prems(1,2) by (auto simp: less_Suc_eq)
    moreover from this have "n \<notin> re_handle ` set es1" using Cons.prems(1) by fastforce
    ultimately show ?thesis using no es1(2) by (auto simp: less_Suc_eq_le Suc_le_eq) (metis atLeastLessThan_iff imageI le_neq_implies_less subsetD Suc_leI)
  qed
qed simp

lemma cm_inv_members: "cm_inv m \<Longrightarrow> cm_inv (snd (members m))"
  using cm_inv_step [of m Members] by simp

lemma same_paths: "map re_path xs = map re_path ys \<Longrightarrow> set xs = set ys \<Longrightarrow> distinct (map re_path ys) \<Longrightarrow> xs = ys"
  using inj_on_map_eq_map [of re_path xs ys] by (simp add: distinct_map)

lemma distinct_served [simp]: "distinct (served m)"
  by (simp add: served_def distinct_union_paths)

lemma cat_inv_paths: "cat_inv c \<Longrightarrow> distinct (map re_path (ca_entries c))"
  by (simp add: cat_inv_def)

lemma commit_spec:
  assumes c: "cat_inv c" and m: "cm_inv m" "extends (cm_ids (ca_members c)) (cm_ids m)"
  shows "cat_inv (commit fs m c)" "served (ca_members (commit fs m c)) = served m"
    "{e \<in> set (ca_entries c). re_path e \<in> set (served m)} \<subseteq> set (ca_entries (commit fs m c))"
    "map re_path (ca_entries (commit fs m c)) = served m"
proof -
  obtain ms m' where mm: "members m = (ms, m')" by fastforce
  obtain es n' where r: "reconcile_entries fs (ca_entries c) ms (ca_started c) = (es, n')" by fastforce
  let ?old = "ca_entries c"
  let ?ret = "filter (\<lambda>old. re_handle old \<notin> re_handle ` set es) ?old"
  have commit: "commit fs m c = c\<lparr>ca_members := m', ca_entries := es, ca_started := n', ca_stopped := ca_stopped c @ map re_handle ?ret\<rparr>"
    using mm r by (simp add: commit_def reconcile_def stop_entries_def)
  have mp: "map mb_path ms = served m" and m': "served m' = served m" "cm_inv m'" "extends (cm_ids m) (cm_ids m')"
    and ids: "\<And>x. x \<in> set ms \<Longrightarrow> ia_by_path (cm_ids m') (mb_path x) = Some (mb_id x)"
    using members_spec [where s = m] cm_inv_members [OF m(1)] by (simp_all add: mm)
  have lt: "re_handle e < ca_started c" if "e \<in> set ?old" for e using c that by (auto simp: cat_inv_def)
  have dh: "distinct (map re_handle ?old)" and dp: "distinct (map re_path ?old)" using c by (auto simp: cat_inv_def)
  have R: "ca_started c \<le> n' \<and> map re_path es = map mb_path ms \<and> distinct (map re_handle es)
    \<and> {e \<in> set ?old. re_path e \<in> mb_path ` set ms} \<subseteq> set es
    \<and> (\<forall>e \<in> set es. e \<in> set ?old \<or> (ca_started c \<le> re_handle e \<and> (\<exists>x \<in> set ms. mb_path x = re_path e \<and> mb_id x = re_id e)))
    \<and> re_handle ` set es \<subseteq> {..<n'} \<and> {ca_started c..<n'} \<subseteq> re_handle ` set es"
    by (rule reconcile_entries_spec [OF dp dh lt _ r]) (simp_all add: mp)
  have own: "ia_by_path (cm_ids m') (re_path e) = Some (re_id e)" if e: "e \<in> set es" for e
  proof (cases "e \<in> set ?old")
    case True
    then have "ia_by_path (cm_ids (ca_members c)) (re_path e) = Some (re_id e)" using c by (simp add: cat_inv_def)
    then show ?thesis using extends_trans [OF m(2) m'(3)] unfolding extends_def map_le_def by (metis domI)
  next
    case False
    with R e obtain x where "x \<in> set ms" "mb_path x = re_path e" "mb_id x = re_id e" by blast
    with ids [of x] show ?thesis by simp
  qed
  have new: "re_handle e \<in> re_handle ` set ?old \<or> ca_started c \<le> re_handle e" if "e \<in> set es" for e using R that by auto
  have stopped: "set (ca_stopped c) \<inter> re_handle ` set ?old = {}" "set (ca_stopped c) \<union> re_handle ` set ?old = {..<ca_started c}" "distinct (ca_stopped c)"
    using c by (auto simp: cat_inv_def)
  have "h \<notin> re_handle ` set es" if h: "h \<in> set (ca_stopped c)" for h
  proof
    assume "h \<in> re_handle ` set es"
    then obtain e where "e \<in> set es" "h = re_handle e" by auto
    with new [of e] h stopped(1) have "ca_started c \<le> h" by auto
    moreover have "h < ca_started c" using h stopped(2) by auto
    ultimately show False by simp
  qed
  then have apart: "set (ca_stopped c) \<inter> re_handle ` set es = {}" by auto
  have all: "(set (ca_stopped c) \<union> re_handle ` set ?ret) \<union> re_handle ` set es = {..<n'}"
  proof -
    have a: "re_handle ` set ?ret \<union> re_handle ` set es = re_handle ` set ?old \<union> re_handle ` set es" by auto
    have b: "{..<n'} = {..<ca_started c} \<union> {ca_started c..<n'}" using conjunct1 [OF R] by auto
    have e: "re_handle ` set es \<subseteq> {..<n'}" "{ca_started c..<n'} \<subseteq> re_handle ` set es" using R by blast+
    have "(set (ca_stopped c) \<union> re_handle ` set ?ret) \<union> re_handle ` set es = (set (ca_stopped c) \<union> re_handle ` set ?old) \<union> re_handle ` set es"
      using a by (metis Un_assoc)
    also have "\<dots> = {..<n'}" unfolding stopped(2) using b e by blast
    finally show ?thesis .
  qed
  have "re_handle ` set ?ret \<inter> re_handle ` set es = {}" by (auto dest: imageI [of _ "set es" re_handle])
  with apart have apart': "set (ca_stopped c @ map re_handle ?ret) \<inter> re_handle ` set es = {}" by (simp add: Int_Un_distrib2)
  have "distinct (map re_handle ?ret)" using dh by (rule distinct_map_filter)
  moreover have "re_handle ` set ?ret \<subseteq> re_handle ` set ?old" by auto
  ultimately have once: "distinct (ca_stopped c @ map re_handle ?ret)" using stopped(1,3) by fastforce
  show "cat_inv (commit fs m c)"
    unfolding cat_inv_def commit using m'(1,2) mp conjunct1 [OF conjunct2 [OF R]] conjunct1 [OF conjunct2 [OF conjunct2 [OF R]]] own all apart' once
    by simp
  show "served (ca_members (commit fs m c)) = served m" by (simp add: commit m')
  show "{e \<in> set ?old. re_path e \<in> set (served m)} \<subseteq> set (ca_entries (commit fs m c))"
    using R by (simp add: commit mp [symmetric])
  show "map re_path (ca_entries (commit fs m c)) = served m" using R mp by (simp add: commit)
qed

text \<open>Where nothing is added, the entries that stay are the objects they were.\<close>

lemma commit_keeps:
  assumes "cat_inv c" "cm_inv m" "extends (cm_ids (ca_members c)) (cm_ids m)" "set (served m) \<subseteq> re_path ` set (ca_entries c)"
  shows "set (ca_entries (commit fs m c)) = {e \<in> set (ca_entries c). re_path e \<in> set (served m)}"
proof
  note s = commit_spec [OF assms(1-3), of fs]
  show "{e \<in> set (ca_entries c). re_path e \<in> set (served m)} \<subseteq> set (ca_entries (commit fs m c))" by (rule s(3))
  show "set (ca_entries (commit fs m c)) \<subseteq> {e \<in> set (ca_entries c). re_path e \<in> set (served m)}"
  proof
    fix e assume e: "e \<in> set (ca_entries (commit fs m c))"
    then have p: "re_path e \<in> set (served m)" using s(4) by (metis image_eqI list.set_map)
    then obtain x where x: "x \<in> set (ca_entries c)" "re_path x = re_path e" using assms(4) by auto
    then have "x \<in> set (ca_entries (commit fs m c))" using p s(3) by auto
    then have "x = e" using e x(2) cat_inv_paths [OF s(1)] by (auto simp: distinct_map inj_on_def)
    with x p show "e \<in> {e \<in> set (ca_entries c). re_path e \<in> set (served m)}" by simp
  qed
qed

lemma change_inv:
  assumes "cat_inv c"
  shows "cat_inv (commit fs (cm_step (ca_members c) e) c)"
  using assms by (intro commit_spec) (auto simp: cat_inv_def cm_inv_step cm_step_extends)

lemma catalog_ops_inv:
  assumes "cat_inv c"
  shows "cat_inv (catalog_set_paths fs paths c)" "cat_inv (catalog_remove_path fs path c)" "cat_inv (catalog_reorder fs desired c)"
    "cat_inv (snd (catalog_add_path fs path limit c))"
proof -
  show "cat_inv (catalog_set_paths fs paths c)" "cat_inv (catalog_remove_path fs path c)" "cat_inv (catalog_reorder fs desired c)"
    using change_inv [OF assms, of fs "SetPaths (map (resolve_repo_path fs) paths)"] change_inv [OF assms, of fs "RemovePath (resolve_repo_path fs path)"]
      change_inv [OF assms, of fs "Reorder (map (resolve_repo_path fs) desired)"]
    by (simp_all add: catalog_set_paths_def catalog_remove_path_def catalog_reorder_def change_membership_def)
  let ?p = "resolve_repo_path fs path"
  obtain out m where a: "add_path ?p limit (ca_members c) = (out, m)" by fastforce
  have m: "cm_inv m" "extends (cm_ids (ca_members c)) (cm_ids m)"
    using assms cm_inv_step [of "ca_members c" "AddPath ?p limit"] cm_step_extends [of "ca_members c" "AddPath ?p limit"] a
    by (auto simp: cat_inv_def)
  have "cat_inv (c\<lparr>ca_members := m\<rparr>)" if "out = TooMany"
  proof -
    have "served m = served (ca_members c)"
    proof (cases "?p \<in> set (served (ca_members c))")
      case False
      with add_path_served [of "ca_members c" ?p limit] assms a that show ?thesis
        by (auto simp: cat_inv_def split: if_splits)
    next
      case True
      then obtain x where "List.find (\<lambda>m. mb_path m = ?p) (fst (members (ca_members c))) = Some x"
        using not_member [of ?p "ca_members c"] by fastforce
      then show ?thesis using a that by (simp add: add_path_def Let_def case_prod_beta)
    qed
    moreover have "ia_by_path (cm_ids m) (re_path e) = Some (re_id e)" if "e \<in> set (ca_entries c)" for e
      using assms that m(2) unfolding cat_inv_def extends_def map_le_def by (metis domI)
    ultimately show ?thesis using assms m by (auto simp: cat_inv_def)
  qed
  then show "cat_inv (snd (catalog_add_path fs path limit c))"
    using commit_spec(1) [OF assms m] a by (cases out) (auto simp: catalog_add_path_def Let_def)
qed

lemma cat_inv_default: "cat_inv catalog_default"
  by (simp add: cat_inv_def catalog_default_def cm_inv_default) (simp add: served_def union_paths_def membership_default_def)

section \<open>The session's books\<close>

text \<open>Every operation a transport can ask for, with the file system of its moment and whether its writes work.\<close>

datatype session_event =
    SeSetPaths file_system "rstring list"
  | SeOpen file_system bool rstring
  | SeClose file_system bool rstring
  | SeFocus bool rstring
  | SeReorder file_system bool "rstring list"
  | SePrefs prefs_event

fun session_step :: "'v session_state \<Rightarrow> session_event \<Rightarrow> 'v session_state" where
  "session_step s (SeSetPaths fs paths) = on_catalog (catalog_set_paths fs paths) s"
| "session_step s (SeOpen fs w raw) = snd (open_repo fs w raw s)"
| "session_step s (SeClose fs w i) = snd (close_repo fs w i s)"
| "session_step s (SeFocus w i) = snd (focus_repo w i s)"
| "session_step s (SeReorder fs w ids) = reorder_repos fs w ids s"
| "session_step s (SePrefs e) = on_prefs (\<lambda>p. prefs_step p e) s"

definition projects_ok :: "'v session_state \<Rightarrow> bool" where
  "projects_ok s \<longleftrightarrow> cat_inv (ss_catalog s)"

lemma catalog_persist [simp]:
  "ss_catalog (persist_workspace w s) = ss_catalog s" "ss_prefs (persist_workspace w s) = ss_prefs s"
  "ss_persist (persist_workspace w s) = ss_persist s"
  by (simp_all add: persist_workspace_def Let_def)

lemma order_simps [simp]:
  "ss_catalog (on_prefs f s) = ss_catalog s" "ss_prefs (on_prefs f s) = f (ss_prefs s)" "ss_persist (on_prefs f s) = ss_persist s"
  "ss_catalog (on_catalog g s) = g (ss_catalog s)" "ss_prefs (on_catalog g s) = ss_prefs s" "ss_persist (on_catalog g s) = ss_persist s"
  "ss_workspace (on_prefs f s) = ss_workspace s" "ss_workspace (on_catalog g s) = ss_workspace s"
  by (simp_all add: on_prefs_def on_catalog_def)

lemma catalog_open:
  "ss_catalog (snd (open_repo fs w raw s)) = ss_catalog s
   \<or> ss_catalog (snd (open_repo fs w raw s)) = snd (catalog_add_path fs (resolve_repo_path fs (expand_tilde fs (str_trim raw))) MAX_PROJECTS (ss_catalog s))"
  by (auto simp: open_repo_def Let_def case_prod_beta split: option.split add_outcome.split)

lemma catalog_close:
  "ss_catalog (snd (close_repo fs w i s)) =
     (case catalog_get (ss_catalog s) i of None \<Rightarrow> ss_catalog s | Some e \<Rightarrow> catalog_remove_path fs (re_path e) (ss_catalog s))"
  by (simp add: close_repo_def Let_def split: option.split)

lemma catalog_reorder_repos:
  "ss_catalog (reorder_repos fs w ids s) =
     catalog_reorder fs (List.map_filter (\<lambda>i. map_option re_path (catalog_get (ss_catalog s) i)) ids) (ss_catalog s)"
  by (simp add: reorder_repos_def Let_def split: option.split)

interpretation projects: event_machine "\<lambda>_ _. True" session_step projects_ok
proof
  show "projects_ok (session_step s e)" if "projects_ok s" for s :: "'v session_state" and e
  proof (cases e)
    case (SeOpen fs w raw)
    with that catalog_open [of fs w raw s] show ?thesis by (auto simp: projects_ok_def catalog_ops_inv)
  next
    case (SeFocus w i)
    with that show ?thesis by (auto simp: projects_ok_def focus_repo_def split: option.split)
  qed (use that in \<open>auto simp: projects_ok_def catalog_ops_inv catalog_close catalog_reorder_repos split: option.split\<close>)
qed

definition keeps_runtimes :: "catalog \<Rightarrow> catalog \<Rightarrow> bool" where
  "keeps_runtimes c t \<longleftrightarrow> {x \<in> set (ca_entries c). re_path x \<in> set (catalog_paths t)} \<subseteq> set (ca_entries t)"

lemma keeps_runtimes_refl [simp]: "keeps_runtimes c c"
  by (auto simp: keeps_runtimes_def)

lemma commit_keeps_runtimes: "cat_inv c \<Longrightarrow> keeps_runtimes c (commit fs (cm_step (ca_members c) e) c)"
  using commit_spec(3,4) [of c "cm_step (ca_members c) e" fs]
  by (simp add: keeps_runtimes_def catalog_paths_def cat_inv_def cm_inv_step cm_step_extends del: set_map)

lemma ops_keep_runtimes:
  assumes "cat_inv c"
  shows "keeps_runtimes c (catalog_set_paths fs paths c)" "keeps_runtimes c (catalog_remove_path fs path c)"
    "keeps_runtimes c (catalog_reorder fs desired c)" "keeps_runtimes c (snd (catalog_add_path fs path limit c))"
proof -
  note k = commit_keeps_runtimes [OF assms]
  show "keeps_runtimes c (catalog_set_paths fs paths c)" "keeps_runtimes c (catalog_remove_path fs path c)" "keeps_runtimes c (catalog_reorder fs desired c)"
    using k [of fs "SetPaths (map (resolve_repo_path fs) paths)"] k [of fs "RemovePath (resolve_repo_path fs path)"]
      k [of fs "Reorder (map (resolve_repo_path fs) desired)"]
    by (simp_all add: catalog_set_paths_def catalog_remove_path_def catalog_reorder_def change_membership_def)
  show "keeps_runtimes c (snd (catalog_add_path fs path limit c))"
    using k [of fs "AddPath (resolve_repo_path fs path) limit"]
    by (cases "fst (add_path (resolve_repo_path fs path) limit (ca_members c))")
       (auto simp: catalog_add_path_def Let_def case_prod_beta keeps_runtimes_def catalog_paths_def)
qed

lemma session_keeps_runtimes:
  assumes "projects_ok s"
  shows "keeps_runtimes (ss_catalog s) (ss_catalog (session_step s e))"
proof (cases e)
  case (SeOpen fs w raw)
  with assms catalog_open [of fs w raw s] show ?thesis by (auto simp: projects_ok_def ops_keep_runtimes)
next
  case (SeFocus w i)
  then show ?thesis by (auto simp: focus_repo_def split: option.split)
qed (use assms in \<open>auto simp: projects_ok_def ops_keep_runtimes catalog_close catalog_reorder_repos split: option.split\<close>)

lemma projects_ok_start: "projects_ok (with_plugins fs repos persist prefs ws)"
  by (simp add: projects_ok_def with_plugins_def catalog_ops_inv cat_inv_default)

text \<open>
  \<^bold>\<open>C12\<close>. The books of a session. Whatever its clients open, close, focus, reorder and store, in any order, with any answers of the file
  system and any writes failing: the projects listed are exactly the ones the membership serves, in its order, each once and
  under the id the membership gave it; every runtime ever started is either the runtime of one listed project or was stopped, exactly once, and none is
  both; no operation restarts the runtime of a project that stays; and after a shutdown every runtime started has been stopped.
\<close>

theorem session_books:
  "let s = run session_step (with_plugins fs repos persist prefs ws) es; c = ss_catalog s; t = ss_catalog (session_step s e) in
     catalog_paths c = served (ca_members c) \<and> distinct (catalog_paths c)
     \<and> map Some (map re_id (ca_entries c)) = map (ia_by_path (cm_ids (ca_members c))) (catalog_paths c)
     \<and> distinct (map re_handle (ca_entries c) @ ca_stopped c)
     \<and> set (map re_handle (ca_entries c) @ ca_stopped c) = {..<ca_started c}
     \<and> keeps_runtimes c t
     \<and> distinct (ca_stopped (ss_catalog (session_shutdown s))) \<and> set (ca_stopped (ss_catalog (session_shutdown s))) = {..<ca_started c}"
proof -
  let ?s = "run session_step (with_plugins fs repos persist prefs ws) es"
  let ?c = "ss_catalog ?s"
  have c: "cat_inv ?c" using projects.run_inv [OF projects_ok_start [of fs repos persist prefs ws], of es] by (simp add: projects_ok_def)
  have keeps: "keeps_runtimes ?c (ss_catalog (session_step ?s e))" using c by (intro session_keeps_runtimes) (simp add: projects_ok_def)
  have "map Some (map re_id (ca_entries ?c)) = map (ia_by_path (cm_ids (ca_members ?c))) (catalog_paths ?c)"
    unfolding catalog_paths_def map_map using c by (intro map_cong refl) (simp add: cat_inv_def)
  moreover have "catalog_paths ?c = served (ca_members ?c)" "distinct (catalog_paths ?c)" using c by (simp_all add: cat_inv_def catalog_paths_def)
  moreover have "distinct (map re_handle (ca_entries ?c) @ ca_stopped ?c)" "set (map re_handle (ca_entries ?c) @ ca_stopped ?c) = {..<ca_started ?c}"
    using c by (auto simp: cat_inv_def)
  ultimately show ?thesis
    using keeps by (auto simp: Let_def session_shutdown_def catalog_shutdown_def stop_entries_def)
qed

section \<open>The project in front\<close>

text \<open>Fewer than \<open>2 ^ 64\<close> paths seen, so the counter of the ids has not wrapped.\<close>

definition ids_left :: "catalog \<Rightarrow> bool" where
  "ids_left c \<longleftrightarrow> card (dom (ia_by_path (cm_ids (ca_members c)))) < 2 ^ 64"

lemma distinct_ids:
  assumes "cat_inv c" "ids_left c"
  shows "distinct (map re_id (ca_entries c))"
proof -
  let ?m = "ia_by_path (cm_ids (ca_members c))"
  have inj: "inj_on ?m (dom ?m)" using assms by (simp add: cat_inv_def cm_inv_def ids_wf_def ids_left_def)
  have own: "?m (re_path e) = Some (re_id e)" if "e \<in> set (ca_entries c)" for e using assms(1) that by (simp add: cat_inv_def)
  have "x = y" if "x \<in> set (ca_entries c)" "y \<in> set (ca_entries c)" "re_id x = re_id y" for x y
  proof -
    have "re_path x = re_path y" using own [OF that(1)] own [OF that(2)] that(3) inj by (auto simp: inj_on_def dom_def)
    then show ?thesis using that(1,2) cat_inv_paths [OF assms(1)] unfolding distinct_map inj_on_def by blast
  qed
  moreover have "distinct (ca_entries c)" using cat_inv_paths [OF assms(1)] by (simp add: distinct_map)
  ultimately show ?thesis unfolding distinct_map inj_on_def by blast
qed

lemma id_of_path_iff: "distinct (map re_path (ca_entries c)) \<Longrightarrow> id_of_path c p = Some i \<longleftrightarrow> (\<exists>e \<in> set (ca_entries c). re_path e = p \<and> re_id e = i)"
  by (auto simp: id_of_path_def find_unique)

lemma id_of_path_None: "id_of_path c p = None \<longleftrightarrow> p \<notin> re_path ` set (ca_entries c)"
  by (auto simp: id_of_path_def find_None_iff)

lemma get_entry: "distinct (map re_id (ca_entries c)) \<Longrightarrow> e \<in> set (ca_entries c) \<Longrightarrow> catalog_get c (re_id e) = Some e"
  unfolding catalog_get_def by (rule find_by_path)

lemma position_append: "\<forall>x \<in> set xs. \<not> P x \<Longrightarrow> P y \<Longrightarrow> position P (xs @ y # ys) = Some (length xs)"
  by (induction xs) auto

lemma get_at_append:
  "get_at (xs @ ys) (length xs) = get_at ys 0" "get_at (xs @ y # ys) (Suc (length xs)) = get_at ys 0"
  "xs \<noteq> [] \<Longrightarrow> get_at (xs @ ys) (length xs - 1) = Some (last xs)"
  by (simp_all add: get_at_def nth_append) (cases xs rule: rev_exhaust; simp)

lemma successor_spec:
  assumes "distinct (map re_id (ca_entries c))" "ca_entries c = xs @ e # ys"
  shows "successor_of c (re_id e) = (case ys of y # _ \<Rightarrow> Some (re_path y) | [] \<Rightarrow> if xs = [] then None else Some (re_path (last xs)))"
proof -
  let ?f = "\<lambda>e. (re_id e, re_path e)"
  have ip: "id_paths c = map ?f xs @ ?f e # map ?f ys" by (simp add: id_paths_def assms(2))
  have "\<forall>x \<in> set xs. re_id x \<noteq> re_id e" using assms(1) unfolding assms(2) by (auto simp: image_iff)
  then have "position (\<lambda>(j, _). j = re_id e) (id_paths c) = Some (length xs)"
    using position_append [of "map ?f xs" "\<lambda>(j, _). j = re_id e" "?f e"] unfolding ip by simp
  moreover have "get_at (id_paths c) (Suc (length xs)) = (case ys of y # _ \<Rightarrow> Some (?f y) | [] \<Rightarrow> None)"
    using get_at_append(2) [of "map ?f xs" "?f e" "map ?f ys"] unfolding ip by (cases ys) (simp_all add: get_at_def)
  moreover have "get_at (id_paths c) (length xs - 1) = Some (?f (last xs))" if "xs \<noteq> []"
    using get_at_append(3) [of "map ?f xs" "?f e # map ?f ys"] that unfolding ip by (simp add: last_map)
  ultimately show ?thesis by (cases ys) (auto simp: successor_of_def Let_def)
qed

lemma remove_entries:
  assumes c: "cat_inv c" and e: "ca_entries c = xs @ e # ys" and same: "resolve_repo_path fs (re_path e) = re_path e"
  shows "ca_entries (catalog_remove_path fs (re_path e) c) = xs @ ys"
proof -
  let ?m = "remove_path (re_path e) (ca_members c)" and ?c = "catalog_remove_path fs (re_path e) c"
  have m: "cm_inv ?m" "extends (cm_ids (ca_members c)) (cm_ids ?m)"
    using c cm_inv_step [of "ca_members c" "RemovePath (re_path e)"] cm_step_extends [of "ca_members c" "RemovePath (re_path e)"]
    by (simp_all add: cat_inv_def)
  have srv: "served ?m = removeAll (re_path e) (map re_path (ca_entries c))" using c by (simp add: remove_served cat_inv_def)
  have d: "distinct (map re_path (xs @ e # ys))" using cat_inv_paths [OF c] by (simp add: e)
  then have rm: "removeAll (re_path e) (map re_path (ca_entries c)) = map re_path (xs @ ys)"
    by (auto simp: e removeAll_id)
  have com: "?c = commit fs ?m c" by (simp add: catalog_remove_path_def change_membership_def same)
  have "map re_path (ca_entries ?c) = map re_path (xs @ ys)" using commit_spec(4) [OF c m, of fs] by (simp only: com srv rm)
  moreover have "set (ca_entries ?c) = set (xs @ ys)"
  proof -
    have "set (ca_entries ?c) = {x \<in> set (ca_entries c). re_path x \<in> set (map re_path (xs @ ys))}"
      using commit_keeps [OF c m, of fs] by (simp only: com srv rm) (auto simp: e)
    also have "\<dots> = set (xs @ ys)" using d by (auto simp: e)
    finally show ?thesis .
  qed
  ultimately show ?thesis using d by (intro same_paths) auto
qed

lemma reorder_entries:
  assumes c: "cat_inv c"
  shows "set (ca_entries (catalog_reorder fs desired c)) = set (ca_entries c)"
proof -
  let ?m = "reorder (map (resolve_repo_path fs) desired) (ca_members c)"
  have m: "cm_inv ?m" "extends (cm_ids (ca_members c)) (cm_ids ?m)"
    using c cm_inv_step [of "ca_members c" "Reorder (map (resolve_repo_path fs) desired)"]
      cm_step_extends [of "ca_members c" "Reorder (map (resolve_repo_path fs) desired)"]
    by (simp_all add: cat_inv_def)
  have "set (served ?m) = set (served (ca_members c))" by (auto simp: reorder_served)
  then have srv: "set (served ?m) = re_path ` set (ca_entries c)" using c by (metis cat_inv_def list.set_map)
  then show ?thesis using commit_keeps [OF c m, of fs] by (auto simp: catalog_reorder_def change_membership_def)
qed

lemma open_entries:
  assumes c: "cat_inv c"
  shows "case catalog_add_path fs path limit c of
      (None, _) \<Rightarrow> False | (Some AddTooMany, t) \<Rightarrow> ca_entries t = ca_entries c
    | (Some (Added r), t) \<Rightarrow> set (ca_entries c) \<subseteq> set (ca_entries t) \<and> length (ca_entries t) \<le> Suc (length (ca_entries c))
        \<and> (\<exists>e \<in> set (ca_entries t). r = info e \<and> catalog_get t (ri_id r) = Some e)"
proof -
  let ?p = "resolve_repo_path fs path"
  obtain out m where a: "add_path ?p limit (ca_members c) = (out, m)" by fastforce
  have m: "cm_inv m" "extends (cm_ids (ca_members c)) (cm_ids m)"
    using c cm_inv_step [of "ca_members c" "AddPath ?p limit"] cm_step_extends [of "ca_members c" "AddPath ?p limit"] a
    by (auto simp: cat_inv_def)
  show ?thesis
  proof (cases out)
    case TooMany
    then show ?thesis using a by (simp add: catalog_add_path_def)
  next
    case (Present i)
    let ?t = "commit fs m c"
    note s = commit_spec [OF c m, of fs]
    have srv: "set (served (ca_members c)) \<subseteq> set (served m) \<and> length (served m) \<le> Suc (length (served (ca_members c)))
      \<and> ?p \<in> set (served m) \<and> ia_by_path (cm_ids m) ?p = Some i"
    proof (cases "?p \<in> set (served (ca_members c))")
      case True
      then obtain x where x: "List.find (\<lambda>m. mb_path m = ?p) (fst (members (ca_members c))) = Some x"
        using not_member [of ?p "ca_members c"] by fastforce
      then have "x \<in> set (fst (members (ca_members c)))" "mb_path x = ?p" by (auto simp: find_Some_iff)
      with x a Present True members_spec(1) [of "ca_members c"] members_spec(4) [of x "ca_members c"] show ?thesis
        by (auto simp: add_path_def Let_def case_prod_beta)
    next
      case False
      have inv: "cm_inv (ca_members c)" using c by (simp add: cat_inv_def)
      have "removeAll ?p (served m) = served (ca_members c) \<and> ?p \<in> set (served m) \<and> length (served m) = Suc (length (served (ca_members c)))"
        using add_path_served [OF inv False, of limit] a Present by (auto split: if_splits)
      moreover from this have "set (served (ca_members c)) \<subseteq> set (served m)" by (metis set_removeAll Diff_subset)
      moreover have "ia_by_path (cm_ids m) ?p = Some i"
        using False not_member [of ?p "ca_members c"] a Present
        by (auto simp: add_path_def Let_def case_prod_beta id_for_Some split: if_splits)
      ultimately show ?thesis by simp
    qed
    have paths: "map re_path (ca_entries c) = served (ca_members c)" using c by (simp add: cat_inv_def)
    have sub: "set (ca_entries c) \<subseteq> set (ca_entries ?t)"
      using s(3) srv paths by (auto simp: subset_iff) (metis image_eqI list.set_map)
    have len: "length (ca_entries ?t) \<le> Suc (length (ca_entries c))"
      using srv paths s(4) by (metis length_map)
    obtain e where e: "e \<in> set (ca_entries ?t)" "re_path e = ?p" using srv s(4) by (metis (mono_tags) imageE list.set_map)
    have "ia_by_path (cm_ids (ca_members ?t)) ?p = Some (re_id e)" using s(1) e by (auto simp: cat_inv_def)
    moreover have "ia_by_path (cm_ids (ca_members ?t)) ?p = Some i"
    proof -
      have "ca_members ?t = snd (members m)" by (simp add: commit_def reconcile_def stop_entries_def case_prod_beta Let_def)
      then show ?thesis using srv members_spec(2) [of m] unfolding extends_def map_le_def by (metis domI)
    qed
    ultimately have i: "re_id e = i" by simp
    then obtain x where x: "List.find (\<lambda>e. re_id e = i) (ca_entries ?t) = Some x" using e(1)
      by (cases "List.find (\<lambda>e. re_id e = i) (ca_entries ?t)") (auto simp: find_None_iff)
    then have "x \<in> set (ca_entries ?t)" "re_id x = i" by (auto simp: find_Some_iff)
    then show ?thesis using a Present x sub len by (auto simp: catalog_add_path_def info_def catalog_get_def)
  qed
qed

lemma first_of: "id_paths c = [] \<longleftrightarrow> ca_entries c = []" "ca_entries c = x # xs \<Longrightarrow> id_paths c = (re_id x, re_path x) # map (\<lambda>e. (re_id e, re_path e)) xs"
  by (simp_all add: id_paths_def)

lemma active_from_path:
  "distinct (map re_path (ca_entries c)) \<Longrightarrow> e \<in> set (ca_entries c) \<Longrightarrow> active_repo_from c (Some (re_path e)) = Some (re_id e)"
  by (auto simp: active_repo_from_def id_of_path_def find_by_path)

lemma active_from_gone:
  "Option.bind stored (id_of_path c) = None \<Longrightarrow> active_repo_from c stored = (case ca_entries c of [] \<Rightarrow> None | e # _ \<Rightarrow> Some (re_id e))"
  by (auto simp: active_repo_from_def id_paths_def split: list.split)

lemma focus_if:
  "vp_active_repo (ps_state (set_active_repo_if w expected next p)) = (if vp_active_repo (ps_state p) = expected then Some next else vp_active_repo (ps_state p))"
  by (simp add: set_active_repo_if_def mutate_def Let_def)

lemma focus_set: "vp_active_repo (ps_state (set_active_repo w path p)) = Some path"
  by (simp add: set_active_repo_def update_prefs_def mutate_def apply_update_def no_update_def Let_def)

text \<open>The tab a close leaves in front: the one after it, or the one before when it is the last.\<close>

definition neighbour :: "repo_entry list \<Rightarrow> repo_entry list \<Rightarrow> rstring option" where
  "neighbour xs ys = (case ys of y # _ \<Rightarrow> Some (re_id y) | [] \<Rightarrow> if xs = [] then None else Some (re_id (last xs)))"

lemma close_front:
  assumes c: "cat_inv (ss_catalog s)" "ids_left (ss_catalog s)"
    and e: "ca_entries (ss_catalog s) = xs @ e # ys" and same: "resolve_repo_path fs (re_path e) = re_path e"
  shows "fst (close_repo fs w (re_id e) s) = Inr ()"
    and "ca_entries (ss_catalog (snd (close_repo fs w (re_id e) s))) = xs @ ys"
    and "active_repo (snd (close_repo fs w (re_id e) s)) = (if active_repo s = Some (re_id e) then neighbour xs ys else active_repo s)"
proof -
  let ?c = "ss_catalog s" and ?t = "catalog_remove_path fs (re_path e) (ss_catalog s)"
  let ?stored = "vp_active_repo (ps_state (ss_prefs s))"
  have dp: "distinct (map re_path (ca_entries ?c))" by (rule cat_inv_paths [OF c(1)])
  have di: "distinct (map re_id (ca_entries ?c))" by (rule distinct_ids [OF c])
  have get: "catalog_get ?c (re_id e) = Some e" by (rule get_entry [OF di]) (simp add: e)
  have t: "ca_entries ?t = xs @ ys" by (rule remove_entries [OF c(1) e same])
  have dt: "distinct (map re_path (ca_entries ?t))" using dp by (simp add: e t)
  note succ = successor_spec [OF di e]
  show "fst (close_repo fs w (re_id e) s) = Inr ()" by (simp add: close_repo_def get Let_def)
  show "ca_entries (ss_catalog (snd (close_repo fs w (re_id e) s))) = xs @ ys" by (simp add: catalog_close get t)
  show "active_repo (snd (close_repo fs w (re_id e) s)) = (if active_repo s = Some (re_id e) then neighbour xs ys else active_repo s)"
  proof (cases "active_repo s = Some (re_id e)")
    case True
    show ?thesis
    proof (cases "xs @ ys = []")
      case True
      then have "Option.bind stored (id_of_path ?t) = None" for stored by (cases stored) (auto simp: id_of_path_None t)
      with True \<open>active_repo s = _\<close> succ show ?thesis
        by (simp add: close_repo_def get Let_def active_repo_def active_from_gone t neighbour_def)
    next
      case False
      define x where "x = (case ys of [] \<Rightarrow> last xs | y # _ \<Rightarrow> y)"
      have x: "x \<in> set (xs @ ys)" "successor_of ?c (re_id e) = Some (re_path x)" "neighbour xs ys = Some (re_id x)"
        using succ False by (auto simp: neighbour_def x_def split: list.splits)
      have "id_of_path ?t (re_path x) \<noteq> None" using x(1) unfolding id_of_path_None t by auto
      moreover have "active_repo_from ?t (Some (re_path x)) = Some (re_id x)" using x(1) dt by (intro active_from_path) (simp_all add: t)
      ultimately show ?thesis using True x
        by (simp add: close_repo_def get Let_def active_repo_def focus_if)
    qed
  next
    case False
    have "active_repo_from ?t ?stored = active_repo_from ?c ?stored"
    proof (cases "Option.bind ?stored (id_of_path ?c)")
      case None
      then have "Option.bind ?stored (id_of_path ?t) = None" by (cases ?stored) (auto simp: id_of_path_None t e)
      with None False show ?thesis by (cases xs) (auto simp: active_from_gone active_repo_def t e)
    next
      case (Some i)
      then obtain x where x: "x \<in> set (ca_entries ?c)" "?stored = Some (re_path x)" "re_id x = i"
        by (cases ?stored) (auto simp: id_of_path_iff [OF dp])
      have "active_repo s = Some i" using x active_from_path [OF dp x(1)] by (simp add: active_repo_def)
      then have "x \<noteq> e" using False x(3) by auto
      then have "x \<in> set (ca_entries ?t)" using x(1) by (auto simp: t e)
      then show ?thesis using active_from_path [OF dt] active_from_path [OF dp x(1)] x(2) by simp
    qed
    with False show ?thesis by (simp add: close_repo_def get Let_def active_repo_def)
  qed
qed

lemma reorder_front:
  assumes c: "cat_inv (ss_catalog s)" "ids_left (ss_catalog s)"
  shows "active_repo (reorder_repos fs w ids s) = active_repo s"
    and "set (ca_entries (ss_catalog (reorder_repos fs w ids s))) = set (ca_entries (ss_catalog s))"
proof -
  let ?c = "ss_catalog s" and ?t = "ss_catalog (reorder_repos fs w ids s)"
  let ?stored = "vp_active_repo (ps_state (ss_prefs s))" and ?new = "vp_active_repo (ps_state (ss_prefs (reorder_repos fs w ids s)))"
  have dp: "distinct (map re_path (ca_entries ?c))" by (rule cat_inv_paths [OF c(1)])
  have di: "distinct (map re_id (ca_entries ?c))" by (rule distinct_ids [OF c])
  show set: "set (ca_entries ?t) = set (ca_entries ?c)" by (simp add: catalog_reorder_repos reorder_entries [OF c(1)])
  have dt: "distinct (map re_path (ca_entries ?t))"
    by (rule cat_inv_paths) (simp add: catalog_reorder_repos catalog_ops_inv c(1))
  have found: "active_repo_from ?t (Some (re_path x)) = Some (re_id x)" if "x \<in> set (ca_entries ?c)" for x
    using active_from_path [OF dt] that set by simp
  show "active_repo (reorder_repos fs w ids s) = active_repo s"
  proof (cases "Option.bind ?stored (id_of_path ?c)")
    case None
    show ?thesis
    proof (cases "ca_entries ?c")
      case Nil
      with None set have "Option.bind ?new (id_of_path ?t) = None" by (cases ?new) (auto simp: id_of_path_None)
      with Nil set None show ?thesis by (simp add: active_repo_def active_from_gone)
    next
      case (Cons x rest)
      have front: "active_repo_from ?c ?stored = Some (re_id x)" using None Cons by (simp add: active_from_gone)
      have get: "catalog_get ?c (re_id x) = Some x" by (rule get_entry [OF di]) (simp add: Cons)
      have "?new = Some (re_path x)" using None front get by (simp add: reorder_repos_def Let_def focus_if)
      with front found [of x] Cons show ?thesis by (simp add: active_repo_def)
    qed
  next
    case (Some i)
    then have "?new = ?stored" by (simp add: reorder_repos_def Let_def)
    moreover obtain x where "x \<in> set (ca_entries ?c)" "?stored = Some (re_path x)"
      using Some by (cases ?stored) (auto simp: id_of_path_iff [OF dp])
    ultimately show ?thesis using found active_from_path [OF dp] by (simp add: active_repo_def)
  qed
qed

lemma persisted: "ss_persist s \<Longrightarrow> map_option ws_repos (ss_workspace (persist_workspace True s)) = Some (catalog_paths (ss_catalog s))"
  by (simp add: persist_workspace_def Let_def)

lemma active_from_cong: "ca_entries t = ca_entries c \<Longrightarrow> active_repo_from t stored = active_repo_from c stored"
  unfolding active_repo_from_def id_of_path_def id_paths_def by (simp only:)

lemma open_front:
  assumes c: "cat_inv (ss_catalog s)"
  shows "case open_repo fs w raw s of
      (None, _) \<Rightarrow> False
    | (Some (Inl _), t) \<Rightarrow> active_repo t = active_repo s \<and> ca_entries (ss_catalog t) = ca_entries (ss_catalog s)
    | (Some (Inr r), t) \<Rightarrow> active_repo t = Some (ri_id r) \<and> set (ca_entries (ss_catalog s)) \<subseteq> set (ca_entries (ss_catalog t))
        \<and> length (ca_entries (ss_catalog t)) \<le> Suc (length (ca_entries (ss_catalog s)))"
proof -
  let ?p = "resolve_repo_path fs (expand_tilde fs (str_trim raw))"
  obtain out t where a: "catalog_add_path fs ?p MAX_PROJECTS (ss_catalog s) = (out, t)" by fastforce
  have t: "distinct (map re_path (ca_entries t))"
    using catalog_ops_inv(4) [OF c, of fs ?p MAX_PROJECTS] a by (auto intro: cat_inv_paths)
  note o = open_entries [OF c, of fs ?p MAX_PROJECTS, unfolded a prod.case]
  consider "str_trim raw = [] \<or> \<not> fs_is_dir fs (expand_tilde fs (str_trim raw))"
    | "str_trim raw \<noteq> []" "fs_is_dir fs (expand_tilde fs (str_trim raw))" "out = Some AddTooMany"
    | r where "str_trim raw \<noteq> []" "fs_is_dir fs (expand_tilde fs (str_trim raw))" "out = Some (Added r)"
    using o by (cases out) (auto split: add_outcome.splits)
  then show ?thesis
  proof cases
    case 1
    then show ?thesis by (auto simp: open_repo_def Let_def)
  next
    case 2
    then have "ca_entries t = ca_entries (ss_catalog s)" using o by simp
    with 2 a active_from_cong [of t "ss_catalog s"] show ?thesis by (simp add: open_repo_def Let_def active_repo_def)
  next
    case 3
    then obtain e where e: "e \<in> set (ca_entries t)" "r = info e" "catalog_get t (ri_id r) = Some e" using o by auto
    with 3 o a active_from_path [OF t e(1)] show ?thesis
      by (simp add: open_repo_def Let_def active_repo_def focus_set) (simp add: info_def)
  qed
qed

text \<open>
  \<^bold>\<open>C21\<close>. The tab in front follows what the user did. In every state a session can reach: closing the tab in front shows the one after
  it, or the one before when it was the last; closing any other one, or reordering the tabs with whatever ids, leaves the one in front
  in front, even when it is only there because nothing was focused; opening and focusing put that project in front; a refused open
  changes nothing. Closing takes out exactly the named project, as long as its directory still resolves to itself, and the workspace
  file then lists what is open.
\<close>

theorem front_follows_user:
  assumes "s = run session_step (with_plugins fs0 repos True prefs ws) es" "ids_left (ss_catalog s)"
    and "ca_entries (ss_catalog s) = xs @ e # ys" "resolve_repo_path fs (re_path e) = re_path e"
  shows "(let (r, t) = close_repo fs True (re_id e) s in
      r = Inr () \<and> ca_entries (ss_catalog t) = xs @ ys
      \<and> active_repo t = (if active_repo s = Some (re_id e) then neighbour xs ys else active_repo s)
      \<and> map_option ws_repos (ss_workspace t) = Some (map re_path (xs @ ys)))
    \<and> (let t = reorder_repos fs w ids s in active_repo t = active_repo s \<and> set (ca_entries (ss_catalog t)) = set (ca_entries (ss_catalog s)))
    \<and> active_repo (snd (focus_repo w (re_id e) s)) = Some (re_id e)
    \<and> (case open_repo fs w raw s of
         (None, _) \<Rightarrow> False
       | (Some (Inl _), t) \<Rightarrow> active_repo t = active_repo s \<and> ca_entries (ss_catalog t) = ca_entries (ss_catalog s)
       | (Some (Inr r), t) \<Rightarrow> active_repo t = Some (ri_id r) \<and> set (ca_entries (ss_catalog s)) \<subseteq> set (ca_entries (ss_catalog t))
           \<and> length (ca_entries (ss_catalog t)) \<le> Suc (length (ca_entries (ss_catalog s))))"
proof -
  have c: "cat_inv (ss_catalog s)"
    using projects.run_inv [OF projects_ok_start [of fs0 repos True prefs ws], of es] assms(1) by (simp add: projects_ok_def)
  have persist: "ss_persist (session_step s e) = ss_persist s" for s :: "'a session_state" and e
    by (cases e) (auto simp: open_repo_def close_repo_def focus_repo_def reorder_repos_def Let_def case_prod_beta split: option.split add_outcome.split)
  have "ss_persist (run session_step s0 es) = ss_persist s0" for s0 :: "'a session_state"
    by (induction es arbitrary: s0) (simp_all add: persist)
  then have ps: "ss_persist s" by (simp add: assms(1) with_plugins_def)
  let ?r = "close_repo fs True (re_id e) s"
  note close = close_front [OF c assms(2,3,4), of True]
  have get: "catalog_get (ss_catalog s) (re_id e) = Some e"
    by (rule get_entry [OF distinct_ids [OF c assms(2)]]) (simp add: assms(3))
  obtain s1 where s1: "snd ?r = persist_workspace True s1" "ss_persist s1"
    using ps by (auto simp: close_repo_def get Let_def split: option.split)
  then have "map_option ws_repos (ss_workspace (snd ?r)) = Some (catalog_paths (ss_catalog (snd ?r)))"
    using persisted [of s1] by simp
  then have "map_option ws_repos (ss_workspace (snd ?r)) = Some (map re_path (xs @ ys))" by (simp add: catalog_paths_def close)
  moreover have "active_repo (snd (focus_repo w (re_id e) s)) = Some (re_id e)"
    using active_from_path [OF cat_inv_paths [OF c], of e] by (simp add: focus_repo_def get active_repo_def focus_set assms(3))
  ultimately show ?thesis using close reorder_front [OF c assms(2)] open_front [OF c] by (simp add: Let_def case_prod_beta)
qed

text \<open>A file system where every path is a directory and its own repository, and a session with three projects in it.\<close>

definition sample_fs :: file_system where
  "sample_fs = \<lparr>fs_is_dir = \<lambda>_. True, fs_discover = \<lambda>_. None, fs_canonicalize = \<lambda>_. None, fs_home = None\<rparr>"

definition sample_session :: "unit session_state" where
  "sample_session = with_plugins sample_fs [[47, 97], [47, 98], [47, 99]] True (load_seeded False None 0) None"

lemmas session_eval = sample_session_def sample_fs_def with_plugins_def catalog_set_paths_def change_membership_def commit_def reconcile_def
  stop_entries_def catalog_default_def resolve_repo_path_def members_def membership_default_def served_def union_paths_def set_paths_def
  id_for_def repo_name_def display_path_def file_name_def path_components_def trim_end_matches_def leading_def segment_def Let_def

lemma front_follows_user_witness:
  "\<exists>xs e ys. ca_entries (ss_catalog sample_session) = xs @ e # ys \<and> re_path e = [47, 99] \<and> ids_left (ss_catalog sample_session)
     \<and> active_repo (snd (focus_repo True (re_id e) sample_session)) = Some (re_id e)
     \<and> map re_path (ca_entries (ss_catalog (snd (close_repo sample_fs True (re_id e) sample_session)))) = [[47, 97], [47, 98]]"
proof -
  let ?s = sample_session
  have paths: "map re_path (ca_entries (ss_catalog ?s)) = [[47, 97], [47, 98], [47, 99]]" by (simp add: session_eval)
  then obtain a b e where e: "ca_entries (ss_catalog ?s) = [a, b] @ e # []" "re_path a = [47, 97]" "re_path b = [47, 98]" "re_path e = [47, 99]"
    by (auto simp: map_eq_Cons_conv)
  have left: "ids_left (ss_catalog ?s)" by (simp add: ids_left_def session_eval)
  have same: "resolve_repo_path sample_fs (re_path e) = re_path e" by (simp add: sample_fs_def resolve_repo_path_def)
  have "?s = run session_step ?s []" by simp
  then have s: "?s = run session_step (with_plugins sample_fs [[47, 97], [47, 98], [47, 99]] True (load_seeded False None 0) None) []"
    by (simp add: sample_session_def)
  show ?thesis
    using front_follows_user [OF s left e(1) same, where w = True and ids = "[]" and raw = "[]"] e left
    by (intro exI [of _ "[a, b]"] exI [of _ e] exI [of _ "[]"]) (simp add: Let_def case_prod_beta)
qed

text \<open>
  The provision about the directory is needed. A repository nested in another one's tree, whose \<^verbatim>\<open>.git\<close> is gone by the time its tab is
  closed, resolves to the outer one: the close takes out the outer project, stops its terminals, and leaves the named tab open.
\<close>

definition outer_fs :: file_system where
  "outer_fs = \<lparr>fs_is_dir = \<lambda>_. True, fs_discover = \<lambda>_. Some [47, 97], fs_canonicalize = \<lambda>_. None, fs_home = None\<rparr>"

theorem close_may_close_another:
  "let s = with_plugins sample_fs [[47, 97], [47, 97, 47, 98]] True (load_seeded False None 0) None;
       i = the (id_of_path (ss_catalog s) [47, 97, 47, 98]); (r, t) = close_repo outer_fs True i s
   in r = Inr () \<and> catalog_paths (ss_catalog t) = [[47, 97, 47, 98]] \<and> ca_stopped (ss_catalog t) = [0]"
  by (simp add: session_eval outer_fs_def close_repo_def catalog_get_def id_of_path_def catalog_remove_path_def remove_path_def
      catalog_paths_def active_repo_from_def id_paths_def successor_of_def get_at_def load_seeded_def)

end
