(* ===== verification/Session_Watch.thy ===== *)
theory Session_Watch
  imports Session_Projects
begin

text \<open>
  How every attached client learns of a change: the registry of \<^verbatim>\<open>src/daemon/clients.rs\<close>, the watcher of \<^verbatim>\<open>src/daemon/watch.rs\<close> and the
  requests of \<^verbatim>\<open>src/daemon/requests.rs\<close>. The watcher is a thread of its own, so its pass is a program with a counter: it reads the
  projects, the one in front and the accent one after the other, tells everyone or whoever is owed, and anything may happen between
  two of its steps. A frame that carries the served set is a \<open>SetFrame\<close>, any other is opaque; encoding one does not fail. An id is a
  natural number here, the code's \<^verbatim>\<open>AtomicU64\<close> would wrap after \<open>2 ^ 64\<close> attaches.
\<close>

section \<open>Attached clients\<close>

type_synonym session_view = "(rstring \<times> rstring) list \<times> rstring option \<times> nat"

datatype 'f session_frame = SetFrame session_view | OtherFrame 'f

definition CLIENT_QUEUE_DEPTH :: nat where
  "CLIENT_QUEUE_DEPTH = 256"

record 'f attached =
  ac_id :: nat
  ac_tx :: "'f session_frame chan"
  ac_owed_set :: bool

text \<open>\<open>cl_shut\<close>: the clients whose socket was shut because they stopped draining.\<close>

record 'f clients =
  cl_inner :: "'f attached list"
  cl_next_id :: nat
  cl_shut :: "nat list"

definition clients_default :: "'f clients" where
  "clients_default = \<lparr>cl_inner = [], cl_next_id = 0, cl_shut = []\<rparr>"

text \<open>Whether the client is worth keeping, and the client to shut.\<close>

definition queue_frame :: "'f session_frame \<Rightarrow> 'f attached \<Rightarrow> 'f attached \<times> bool \<times> nat list" where
  "queue_frame f c =
     (case try_send f (ac_tx c) of
        (tx, Inr _) \<Rightarrow> (c\<lparr>ac_tx := tx\<rparr>, True, [])
      | (tx, Inl SendFull) \<Rightarrow> (c, False, [ac_id c])
      | (tx, Inl SendDisconnected) \<Rightarrow> (c, False, []))"

definition try_connect :: "nat \<Rightarrow> 'f clients \<Rightarrow> nat option \<times> 'f clients" where
  "try_connect capacity s =
     (if length (cl_inner s) \<ge> capacity then (None, s)
      else let i = cl_next_id s;
               c = \<lparr>ac_id = i, ac_tx = \<lparr>ch_queue = [], ch_cap = CLIENT_QUEUE_DEPTH, ch_open = True\<rparr>, ac_owed_set = True\<rparr>
           in (Some i, s\<lparr>cl_next_id := i + 1, cl_inner := cl_inner s @ [c]\<rparr>))"

definition disconnect_client :: "nat \<Rightarrow> 'f clients \<Rightarrow> 'f clients" where
  "disconnect_client i s = s\<lparr>cl_inner := filter (\<lambda>c. ac_id c \<noteq> i) (cl_inner s)\<rparr>"

definition client_ids :: "'f clients \<Rightarrow> nat list" where
  "client_ids s = map ac_id (cl_inner s)"

fun retain_queued :: "'f session_frame \<Rightarrow> 'f attached list \<Rightarrow> 'f attached list \<times> nat list" where
  "retain_queued f [] = ([], [])"
| "retain_queued f (c # cs) =
     (let (c, keep, shut) = queue_frame f (c\<lparr>ac_owed_set := False\<rparr>); (cs, shuts) = retain_queued f cs
      in (if keep then c # cs else cs, shut @ shuts))"

definition broadcast_frame :: "'f session_frame \<Rightarrow> 'f clients \<Rightarrow> 'f clients" where
  "broadcast_frame f s =
     (let (inner, shuts) = retain_queued f (cl_inner s)
      in s\<lparr>cl_inner := inner, cl_shut := cl_shut s @ shuts\<rparr>)"

fun update_first :: "('a \<Rightarrow> bool) \<Rightarrow> ('a \<Rightarrow> 'a) \<Rightarrow> 'a list \<Rightarrow> 'a list" where
  "update_first P f [] = []"
| "update_first P f (x # xs) = (if P x then f x # xs else x # update_first P f xs)"

definition owe_set :: "nat \<Rightarrow> 'f clients \<Rightarrow> 'f clients" where
  "owe_set i s = s\<lparr>cl_inner := update_first (\<lambda>c. ac_id c = i) (\<lambda>c. c\<lparr>ac_owed_set := True\<rparr>) (cl_inner s)\<rparr>"

definition take_owed_sets :: "'f clients \<Rightarrow> nat list \<times> 'f clients" where
  "take_owed_sets s =
     (map ac_id (filter ac_owed_set (cl_inner s)), s\<lparr>cl_inner := map (\<lambda>c. c\<lparr>ac_owed_set := False\<rparr>) (cl_inner s)\<rparr>)"

definition send_to :: "nat \<Rightarrow> 'f session_frame \<Rightarrow> 'f clients \<Rightarrow> 'f clients" where
  "send_to i f s =
     (case position (\<lambda>c. ac_id c = i) (cl_inner s) of
        None \<Rightarrow> s
      | Some k \<Rightarrow>
          let (c, keep, shut) = queue_frame f (cl_inner s ! k)
          in s\<lparr>cl_inner := (if keep then (cl_inner s)[k := c] else take k (cl_inner s) @ drop (Suc k) (cl_inner s)),
               cl_shut := cl_shut s @ shut\<rparr>)"

section \<open>The watcher and the requests\<close>

definition MAX_ATTACHED_CLIENTS :: nat where
  "MAX_ATTACHED_CLIENTS = 16"

definition session_view :: "'v session_state \<Rightarrow> session_view" where
  "session_view s = (list_session_repos s, active_repo s, accent s)"

datatype watch_pc = AtRepos | AtActive | AtAccent | AtTell | Answering "nat list"

text \<open>\<open>wt_wire\<close> is what a client's writer has put on its socket, \<open>wt_seen\<close> what the present pass has read so far.\<close>

record ('v, 'f) watching =
  wt_session :: "'v session_state"
  wt_clients :: "'f clients"
  wt_wire :: "nat \<Rightarrow> 'f session_frame list"
  wt_told :: session_view
  wt_seen :: session_view
  wt_pc :: watch_pc
  wt_poked :: bool

definition watching_new :: "'v session_state \<Rightarrow> ('v, 'f) watching" where
  "watching_new s =
     \<lparr>wt_session = s, wt_clients = clients_default, wt_wire = (\<lambda>_. []), wt_told = session_view s, wt_seen = session_view s,
      wt_pc = AtRepos, wt_poked = False\<rparr>"

definition on_clients :: "('f clients \<Rightarrow> 'f clients) \<Rightarrow> ('v, 'f) watching \<Rightarrow> ('v, 'f) watching" where
  "on_clients f w = w\<lparr>wt_clients := f (wt_clients w)\<rparr>"

definition poke :: "('v, 'f) watching \<Rightarrow> ('v, 'f) watching" where
  "poke w = w\<lparr>wt_poked := True\<rparr>"

definition watch_step :: "('v, 'f) watching \<Rightarrow> ('v, 'f) watching" where
  "watch_step w =
     (let (repos, active, accent') = wt_seen w
      in case wt_pc w of
           AtRepos \<Rightarrow> w\<lparr>wt_poked := False, wt_seen := (list_session_repos (wt_session w), active, accent'), wt_pc := AtActive\<rparr>
         | AtActive \<Rightarrow> w\<lparr>wt_seen := (repos, active_repo (wt_session w), accent'), wt_pc := AtAccent\<rparr>
         | AtAccent \<Rightarrow> w\<lparr>wt_seen := (repos, active, accent (wt_session w)), wt_pc := AtTell\<rparr>
         | AtTell \<Rightarrow>
             if wt_told w \<noteq> wt_seen w
             then (on_clients (broadcast_frame (SetFrame (wt_seen w))) w)\<lparr>wt_told := wt_seen w, wt_pc := AtRepos\<rparr>
             else let (owed, clients) = take_owed_sets (wt_clients w) in w\<lparr>wt_clients := clients, wt_pc := Answering owed\<rparr>
         | Answering [] \<Rightarrow> w\<lparr>wt_pc := AtRepos\<rparr>
         | Answering (i # is') \<Rightarrow> (on_clients (send_to i (SetFrame (wt_seen w))) w)\<lparr>wt_pc := Answering is'\<rparr>)"

text \<open>
  What an attached client asks. \<open>RqAsk\<close> stands for the requests answered by a service outside this model (a clone, a reload) with the
  reply it makes; \<open>RqTerminal\<close> goes to the client's bridge and changes nothing here, \<open>RqShutdown\<close> ends the process.
\<close>

datatype 'f attach_request =
    RqHello | RqStatus | RqNotify
  | RqListRepos
  | RqOpenRepo rstring
  | RqAsk 'f
  | RqCloseRepo rstring
  | RqFocusRepo rstring
  | RqReorderRepos "rstring list"
  | RqSetAccent nat
  | RqTerminal
  | RqShutdown

definition refuse :: "(rstring \<Rightarrow> 'f) \<Rightarrow> nat \<Rightarrow> rstring \<Rightarrow> ('v, 'f) watching \<Rightarrow> ('v, 'f) watching" where
  "refuse error_frame i message w = on_clients (send_to i (OtherFrame (error_frame message))) w"

definition set_session :: "'v session_state \<Rightarrow> ('v, 'f) watching \<Rightarrow> ('v, 'f) watching" where
  "set_session s w = w\<lparr>wt_session := s\<rparr>"

text \<open>\<open>None\<close> is the panic of \<open>open_repo\<close>.\<close>

definition handle :: "(rstring \<Rightarrow> 'f) \<Rightarrow> file_system \<Rightarrow> bool \<Rightarrow> 'f attach_request \<Rightarrow> nat \<Rightarrow> ('v, 'f) watching \<Rightarrow> ('v, 'f) watching option" where
  "handle error_frame fs written rq i w =
     (let refused = (\<lambda>m w. Some (refuse error_frame i (lit m) w))
      in case rq of
           RqHello \<Rightarrow> refused ''hello is only valid as the first request'' w
         | RqStatus \<Rightarrow> refused ''status is only valid as the first request'' w
         | RqNotify \<Rightarrow> refused ''notify is only valid as the first request'' w
         | RqListRepos \<Rightarrow> Some (poke (on_clients (owe_set i) w))
         | RqOpenRepo path \<Rightarrow>
             (case open_repo fs written path (wt_session w) of
                (None, s) \<Rightarrow> None
              | (Some (Inr _), s) \<Rightarrow> Some (poke (set_session s w))
              | (Some (Inl OpenEmptyPath), s) \<Rightarrow> refused ''a path is required'' (set_session s w)
              | (Some (Inl OpenNotADirectory), s) \<Rightarrow> refused ''no such directory'' (set_session s w)
              | (Some (Inl OpenTooMany), s) \<Rightarrow> refused ''the maximum number of repositories is already open'' (set_session s w))
         | RqAsk reply \<Rightarrow> Some (on_clients (send_to i (OtherFrame reply)) w)
         | RqCloseRepo repo \<Rightarrow>
             (case close_repo fs written repo (wt_session w) of
                (Inr _, s) \<Rightarrow> Some (poke (set_session s w))
              | (Inl UnknownRepo, s) \<Rightarrow> refused ''unknown repository'' (set_session s w))
         | RqFocusRepo repo \<Rightarrow>
             (case focus_repo written repo (wt_session w) of
                (Inr _, s) \<Rightarrow> Some (poke (set_session s w))
              | (Inl _, s) \<Rightarrow> refused ''unknown repository'' (set_session s w))
         | RqReorderRepos order \<Rightarrow> Some (poke (set_session (reorder_repos fs written order (wt_session w)) w))
         | RqSetAccent a \<Rightarrow> Some (poke (set_session (snd (set_accent written a (wt_session w))) w))
         | RqTerminal \<Rightarrow> Some w
         | RqShutdown \<Rightarrow> Some w)"

text \<open>The part of \<^verbatim>\<open>attach\<close> that registers a client: the hello is its first frame, and the watcher is woken.\<close>

definition attach_client :: "(nat \<Rightarrow> 'f) \<Rightarrow> ('v, 'f) watching \<Rightarrow> ('v, 'f) watching" where
  "attach_client hello w =
     (case try_connect MAX_ATTACHED_CLIENTS (wt_clients w) of
        (None, _) \<Rightarrow> w
      | (Some i, clients) \<Rightarrow> poke (w\<lparr>wt_clients := send_to i (OtherFrame (hello i)) clients\<rparr>))"

text \<open>The writer takes a frame off the queue and writes it; a broken socket ends it.\<close>

definition write_queued :: "nat \<Rightarrow> ('v, 'f) watching \<Rightarrow> ('v, 'f) watching" where
  "write_queued i w =
     (case List.find (\<lambda>c. ac_id c = i) (cl_inner (wt_clients w)) of
        None \<Rightarrow> w
      | Some c \<Rightarrow>
          (case ch_queue (ac_tx c) of
             [] \<Rightarrow> w
           | f # fs \<Rightarrow>
               (on_clients (\<lambda>s. s\<lparr>cl_inner := map (\<lambda>c. if ac_id c = i then c\<lparr>ac_tx := (ac_tx c)\<lparr>ch_queue := fs\<rparr>\<rparr> else c) (cl_inner s)\<rparr>) w)
                 \<lparr>wt_wire := (wt_wire w)(i := wt_wire w i @ [f])\<rparr>))"

definition writer_ended :: "nat \<Rightarrow> ('v, 'f) watching \<Rightarrow> ('v, 'f) watching" where
  "writer_ended i w =
     on_clients (\<lambda>s. s\<lparr>cl_inner := map (\<lambda>c. if ac_id c = i then c\<lparr>ac_tx := (ac_tx c)\<lparr>ch_open := False\<rparr>\<rparr> else c) (cl_inner s)\<rparr>) w"

section \<open>What each client has been told\<close>

text \<open>What one client's stream holds: what is on its wire and what waits in its queue.\<close>

definition client_stream :: "('v, 'f) watching \<Rightarrow> 'f attached \<Rightarrow> 'f session_frame list" where
  "client_stream w c = wt_wire w (ac_id c) @ ch_queue (ac_tx c)"

fun last_set :: "'f session_frame list \<Rightarrow> session_view option" where
  "last_set [] = None"
| "last_set (f # fs) = (case last_set fs of Some v \<Rightarrow> Some v | None \<Rightarrow> (case f of SetFrame v \<Rightarrow> Some v | OtherFrame _ \<Rightarrow> None))"

lemma last_set_append: "last_set (fs @ gs) = (case last_set gs of Some v \<Rightarrow> Some v | None \<Rightarrow> last_set fs)"
  by (induction fs) (auto split: option.split)

lemma last_set_snoc [simp]: "last_set (fs @ [SetFrame v]) = Some v" "last_set (fs @ [OtherFrame g]) = last_set fs"
  by (simp_all add: last_set_append)

text \<open>Queueing a frame on a client that is kept.\<close>

definition queued :: "'f session_frame \<Rightarrow> 'f attached \<Rightarrow> 'f attached option" where
  "queued f c = (case queue_frame f c of (c', keep, _) \<Rightarrow> if keep then Some c' else None)"

lemma queued_Some: "queued f c = Some c' \<longleftrightarrow> ch_open (ac_tx c) \<and> length (ch_queue (ac_tx c)) < ch_cap (ac_tx c)
    \<and> c' = c\<lparr>ac_tx := (ac_tx c)\<lparr>ch_queue := ch_queue (ac_tx c) @ [f]\<rparr>\<rparr>"
  by (auto simp: queued_def queue_frame_def try_send_def)

lemma retain_queued_inner: "fst (retain_queued f cs) = List.map_filter (\<lambda>c. queued f (c\<lparr>ac_owed_set := False\<rparr>)) cs"
  by (induction cs) (auto simp: Let_def case_prod_beta queued_def map_filter_simps split: option.split)

lemma broadcast_inner: "cl_inner (broadcast_frame f s) = List.map_filter (\<lambda>c. queued f (c\<lparr>ac_owed_set := False\<rparr>)) (cl_inner s)"
  by (simp add: broadcast_frame_def case_prod_beta Let_def retain_queued_inner)

lemma no_match: "\<forall>c \<in> set cs. \<not> P c \<Longrightarrow> List.map_filter (\<lambda>c. if P c then g c else Some c) cs = cs"
  by (induction cs) (auto simp: map_filter_simps)

lemma position_filter:
  assumes "distinct (map ac_id cs)"
  shows "(case position (\<lambda>c. ac_id c = i) cs of None \<Rightarrow> cs
      | Some k \<Rightarrow> (case queued f (cs ! k) of Some c \<Rightarrow> cs[k := c] | None \<Rightarrow> take k cs @ drop (Suc k) cs))
    = List.map_filter (\<lambda>c. if ac_id c = i then queued f c else Some c) cs"
  using assms
proof (induction cs)
  case (Cons c cs)
  show ?case
  proof (cases "ac_id c = i")
    case True
    then have "\<forall>d \<in> set cs. ac_id d \<noteq> i" using Cons.prems by (auto simp: image_iff)
    from no_match [OF this] True show ?thesis by (simp add: map_filter_simps split: option.split)
  next
    case False
    with Cons show ?thesis by (cases "position (\<lambda>c. ac_id c = i) cs") (auto simp: map_filter_simps split: option.splits)
  qed
qed (simp add: map_filter_simps)

lemma send_to_inner:
  assumes "distinct (client_ids s)"
  shows "cl_inner (send_to i f s) = List.map_filter (\<lambda>c. if ac_id c = i then queued f c else Some c) (cl_inner s)"
proof -
  have "cl_inner (send_to i f s) = (case position (\<lambda>c. ac_id c = i) (cl_inner s) of None \<Rightarrow> cl_inner s
      | Some k \<Rightarrow> (case queued f (cl_inner s ! k) of Some c \<Rightarrow> (cl_inner s)[k := c] | None \<Rightarrow> take k (cl_inner s) @ drop (Suc k) (cl_inner s)))"
    by (simp add: send_to_def queued_def Let_def case_prod_beta split: option.split)
  with position_filter [OF assms [unfolded client_ids_def]] show ?thesis by simp
qed

text \<open>The rules of the registry: few clients, each under an id of its own, none with more than its queue holds.\<close>

definition registry_ok :: "'f clients \<Rightarrow> bool" where
  "registry_ok s \<longleftrightarrow> distinct (client_ids s) \<and> list_all (\<lambda>i. i < cl_next_id s) (client_ids s) \<and> length (cl_inner s) \<le> MAX_ATTACHED_CLIENTS
     \<and> list_all (\<lambda>c. length (ch_queue (ac_tx c)) \<le> CLIENT_QUEUE_DEPTH \<and> ch_cap (ac_tx c) = CLIENT_QUEUE_DEPTH) (cl_inner s)"

lemma filtered_ids:
  assumes "\<And>c c'. g c = Some c' \<Longrightarrow> ac_id c' = ac_id c"
  shows "ac_id ` set (List.map_filter g cs) \<subseteq> ac_id ` set cs" "length (List.map_filter g cs) \<le> length cs"
    "distinct (map ac_id cs) \<Longrightarrow> distinct (map ac_id (List.map_filter g cs))"
proof -
  show sub: "ac_id ` set (List.map_filter g cs) \<subseteq> ac_id ` set cs" for cs
    using assms by (force simp: List.map_filter_def)
  show "length (List.map_filter g cs) \<le> length cs" by (simp add: List.map_filter_def)
  show "distinct (map ac_id cs) \<Longrightarrow> distinct (map ac_id (List.map_filter g cs))"
  proof (induction cs)
    case (Cons c cs)
    then show ?case using sub [of cs] assms by (cases "g c") (auto simp: map_filter_simps)
  qed (simp add: map_filter_simps)
qed

lemma registry_filtered:
  assumes "registry_ok s" "cl_inner t = List.map_filter g (cl_inner s)" "cl_next_id t = cl_next_id s"
    and g: "\<And>c c'. g c = Some c' \<Longrightarrow> ac_id c' = ac_id c \<and> ch_cap (ac_tx c') = ch_cap (ac_tx c)
        \<and> (length (ch_queue (ac_tx c)) \<le> ch_cap (ac_tx c) \<longrightarrow> length (ch_queue (ac_tx c')) \<le> ch_cap (ac_tx c))"
  shows "registry_ok t"
proof -
  note f = filtered_ids [of g "cl_inner s"]
  have "distinct (client_ids t)" "length (cl_inner t) \<le> MAX_ATTACHED_CLIENTS" "list_all (\<lambda>i. i < cl_next_id t) (client_ids t)"
    using f g assms(1,3) unfolding registry_ok_def client_ids_def assms(2) by (force simp: list_all_iff)+
  moreover have "list_all (\<lambda>c. length (ch_queue (ac_tx c)) \<le> CLIENT_QUEUE_DEPTH \<and> ch_cap (ac_tx c) = CLIENT_QUEUE_DEPTH) (cl_inner t)"
    using assms(1) g unfolding registry_ok_def assms(2) by (fastforce simp: list_all_iff List.map_filter_def)
  ultimately show ?thesis by (simp add: registry_ok_def)
qed

lemma registry_map:
  assumes "registry_ok s" "cl_inner t = map g (cl_inner s)" "cl_next_id t = cl_next_id s"
    and "\<And>c. c \<in> set (cl_inner s) \<Longrightarrow> ac_id (g c) = ac_id c \<and> ch_cap (ac_tx (g c)) = ch_cap (ac_tx c) \<and> length (ch_queue (ac_tx (g c))) \<le> length (ch_queue (ac_tx c))"
  shows "registry_ok t"
proof -
  have "client_ids t = client_ids s" using assms(2,4) by (simp add: client_ids_def)
  moreover have "length (cl_inner t) = length (cl_inner s)" using assms(2) by simp
  ultimately show ?thesis using assms by (fastforce simp: registry_ok_def list_all_iff)
qed

lemma update_first_map: "distinct (map ac_id cs) \<Longrightarrow> update_first (\<lambda>c. ac_id c = i) g cs = map (\<lambda>c. if ac_id c = i then g c else c) cs"
  by (induction cs) (auto simp: image_iff intro!: map_idI [symmetric])

lemma send_to_next [simp]: "cl_next_id (send_to i f s) = cl_next_id s"
  by (simp add: send_to_def Let_def case_prod_beta split: option.split)

lemma registry_send: "registry_ok s \<Longrightarrow> registry_ok (send_to i f s)"
  by (rule registry_filtered [OF _ send_to_inner]) (auto simp: registry_ok_def queued_Some split: if_splits)

lemma registry_broadcast: "registry_ok s \<Longrightarrow> registry_ok (broadcast_frame f s)"
  by (rule registry_filtered [OF _ broadcast_inner]) (auto simp: queued_Some broadcast_frame_def Let_def case_prod_beta)

definition pending :: "('v, 'f) watching \<Rightarrow> nat list" where
  "pending w = (case wt_pc w of Answering is' \<Rightarrow> is' | _ \<Rightarrow> [])"

fun answering :: "watch_pc \<Rightarrow> bool" where
  "answering (Answering _) = True"
| "answering _ = False"

definition told_or_owed :: "('v, 'f) watching \<Rightarrow> 'f attached \<Rightarrow> bool" where
  "told_or_owed w c \<longleftrightarrow> ac_owed_set c \<or> ac_id c \<in> set (pending w) \<or> last_set (client_stream w c) = Some (wt_told w)"

definition watch_inv :: "('v, 'f) watching \<Rightarrow> bool" where
  "watch_inv w \<longleftrightarrow> registry_ok (wt_clients w) \<and> list_all (told_or_owed w) (cl_inner (wt_clients w))
     \<and> (answering (wt_pc w) \<longrightarrow> wt_told w = wt_seen w)"

datatype 'f watch_event =
    WeSession session_event
  | WeAttach "nat \<Rightarrow> 'f"
  | WeRequest "rstring \<Rightarrow> 'f" file_system bool "'f attach_request" nat
  | WeSend nat 'f
  | WeDetach nat
  | WeWriter nat
  | WeWriterEnded nat
  | WeWatch

fun watching_step :: "('v, 'f) watching \<Rightarrow> 'f watch_event \<Rightarrow> ('v, 'f) watching" where
  "watching_step w (WeSession e) = set_session (session_step (wt_session w) e) w"
| "watching_step w (WeAttach hello) = attach_client hello w"
| "watching_step w (WeRequest err fs written rq i) = (case handle err fs written rq i w of Some w' \<Rightarrow> w' | None \<Rightarrow> w)"
| "watching_step w (WeSend i f) = on_clients (send_to i (OtherFrame f)) w"
| "watching_step w (WeDetach i) = on_clients (disconnect_client i) w"
| "watching_step w (WeWriter i) = write_queued i w"
| "watching_step w (WeWriterEnded i) = writer_ended i w"
| "watching_step w WeWatch = watch_step w"

lemma on_clients_simps [simp]:
  "wt_clients (on_clients f w) = f (wt_clients w)" "wt_wire (on_clients f w) = wt_wire w" "wt_told (on_clients f w) = wt_told w"
  "wt_seen (on_clients f w) = wt_seen w" "wt_pc (on_clients f w) = wt_pc w" "wt_session (on_clients f w) = wt_session w"
  by (simp_all add: on_clients_def)

lemma aside_simps [simp]: "watch_inv (poke w) = watch_inv w" "watch_inv (set_session t w) = watch_inv w"
  by (simp_all add: poke_def set_session_def watch_inv_def told_or_owed_def [abs_def] client_stream_def pending_def)

lemma told_if: "told_or_owed w c \<Longrightarrow> wt_wire w' (ac_id c') @ ch_queue (ac_tx c') = client_stream w c @ rest \<Longrightarrow> last_set rest = None
    \<Longrightarrow> ac_id c' = ac_id c \<Longrightarrow> (ac_owed_set c \<Longrightarrow> ac_owed_set c') \<Longrightarrow> wt_told w' = wt_told w \<Longrightarrow> pending w' = pending w \<Longrightarrow> told_or_owed w' c'"
  by (auto simp: told_or_owed_def client_stream_def [of w'] last_set_append split: option.split)

lemma send_other_inv: "watch_inv w \<Longrightarrow> watch_inv (on_clients (send_to i (OtherFrame f)) w)"
proof -
  assume inv: "watch_inv w"
  let ?w = "on_clients (send_to i (OtherFrame f)) w"
  have d: "distinct (client_ids (wt_clients w))" using inv by (simp add: watch_inv_def registry_ok_def)
  have "told_or_owed ?w c'" if m: "c' \<in> set (cl_inner (wt_clients ?w))" for c'
  proof -
    obtain c where c: "c \<in> set (cl_inner (wt_clients w))" "(if ac_id c = i then queued (OtherFrame f) c else Some c) = Some c'"
      using m unfolding on_clients_simps send_to_inner [OF d] in_map_filter by blast
    then have t: "told_or_owed w c" using inv by (simp add: watch_inv_def list_all_iff)
    show ?thesis
    proof (cases "ac_id c = i")
      case True
      with c(2) have "c' = c\<lparr>ac_tx := (ac_tx c)\<lparr>ch_queue := ch_queue (ac_tx c) @ [OtherFrame f]\<rparr>\<rparr>" by (simp add: queued_Some)
      then show ?thesis by (intro told_if [OF t, of _ _ "[OtherFrame f]"]) (simp_all add: client_stream_def pending_def)
    next
      case False
      with c(2) show ?thesis by (intro told_if [OF t, of _ _ "[]"]) (simp_all add: client_stream_def pending_def)
    qed
  qed
  then show ?thesis using inv by (simp add: watch_inv_def list_all_iff registry_send)
qed

lemma mapped_inv:
  assumes "watch_inv w" "cl_inner t = map g (cl_inner (wt_clients w))" "cl_next_id t = cl_next_id (wt_clients w)"
    and "\<And>c. c \<in> set (cl_inner (wt_clients w)) \<Longrightarrow> ac_id (g c) = ac_id c \<and> ch_cap (ac_tx (g c)) = ch_cap (ac_tx c)
        \<and> length (ch_queue (ac_tx (g c))) \<le> length (ch_queue (ac_tx c)) \<and> told_or_owed (w\<lparr>wt_clients := t, wt_wire := wire\<rparr>) (g c)"
  shows "watch_inv (w\<lparr>wt_clients := t, wt_wire := wire\<rparr>)"
proof -
  have "registry_ok t" using assms by (intro registry_map [of "wt_clients w" t g]) (auto simp: watch_inv_def)
  then show ?thesis using assms by (auto simp: watch_inv_def list_all_iff)
qed

lemma mapped_clients_inv:
  assumes "watch_inv w" "cl_inner t = map g (cl_inner (wt_clients w))" "cl_next_id t = cl_next_id (wt_clients w)"
    and "\<And>c. c \<in> set (cl_inner (wt_clients w)) \<Longrightarrow> ac_id (g c) = ac_id c \<and> ch_cap (ac_tx (g c)) = ch_cap (ac_tx c)
        \<and> ch_queue (ac_tx (g c)) = ch_queue (ac_tx c) \<and> (ac_owed_set c \<longrightarrow> ac_owed_set (g c))"
  shows "watch_inv (w\<lparr>wt_clients := t\<rparr>)"
proof -
  have "watch_inv (w\<lparr>wt_clients := t, wt_wire := wt_wire w\<rparr>)"
  proof (rule mapped_inv [OF assms(1-3)])
    fix c assume c: "c \<in> set (cl_inner (wt_clients w))"
    then have "told_or_owed w c" using assms(1) by (simp add: watch_inv_def list_all_iff)
    then show "ac_id (g c) = ac_id c \<and> ch_cap (ac_tx (g c)) = ch_cap (ac_tx c) \<and> length (ch_queue (ac_tx (g c))) \<le> length (ch_queue (ac_tx c))
        \<and> told_or_owed (w\<lparr>wt_clients := t, wt_wire := wt_wire w\<rparr>) (g c)"
      using assms(4) [OF c] by (auto simp: told_or_owed_def client_stream_def pending_def)
  qed
  then show ?thesis by simp
qed

lemma filter_map_filter: "filter P xs = List.map_filter (\<lambda>x. if P x then Some x else None) xs"
  by (induction xs) (auto simp: map_filter_simps)

lemma owe_inv: "watch_inv w \<Longrightarrow> watch_inv (on_clients (owe_set i) w)"
  unfolding on_clients_def
  by (rule mapped_clients_inv [where g = "\<lambda>c. if ac_id c = i then c\<lparr>ac_owed_set := True\<rparr> else c"])
     (simp_all add: owe_set_def update_first_map watch_inv_def registry_ok_def client_ids_def)

lemma detach_inv: "watch_inv w \<Longrightarrow> watch_inv (on_clients (disconnect_client i) w)"
proof -
  assume inv: "watch_inv w"
  have eq: "cl_inner (disconnect_client i (wt_clients w)) = List.map_filter (\<lambda>c. if ac_id c \<noteq> i then Some c else None) (cl_inner (wt_clients w))"
    by (simp add: disconnect_client_def filter_map_filter)
  have ok: "registry_ok (wt_clients w)" using inv by (simp add: watch_inv_def)
  have "registry_ok (disconnect_client i (wt_clients w))"
    by (rule registry_filtered [OF ok eq]) (auto simp: disconnect_client_def split: if_split_asm)
  then show ?thesis
    using inv by (auto simp: watch_inv_def list_all_iff disconnect_client_def told_or_owed_def client_stream_def pending_def)
qed

lemma writer_ended_inv: "watch_inv w \<Longrightarrow> watch_inv (writer_ended i w)"
  unfolding writer_ended_def on_clients_def
  by (rule mapped_clients_inv [where g = "\<lambda>c. if ac_id c = i then c\<lparr>ac_tx := (ac_tx c)\<lparr>ch_open := False\<rparr>\<rparr> else c"]) simp_all

lemma attach_inv:
  assumes inv: "watch_inv w"
  shows "watch_inv (attach_client hello w)"
proof (cases "length (cl_inner (wt_clients w)) \<ge> MAX_ATTACHED_CLIENTS")
  case True
  then show ?thesis using inv by (simp add: attach_client_def try_connect_def)
next
  case False
  let ?i = "cl_next_id (wt_clients w)"
  let ?t = "snd (try_connect MAX_ATTACHED_CLIENTS (wt_clients w))"
  have "registry_ok ?t" using inv False by (auto simp: watch_inv_def registry_ok_def try_connect_def client_ids_def list_all_iff Let_def)
  then have "watch_inv (w\<lparr>wt_clients := ?t\<rparr>)"
    using inv False by (auto simp: watch_inv_def list_all_iff try_connect_def Let_def told_or_owed_def client_stream_def pending_def)
  from send_other_inv [OF this, of ?i "hello ?i"] show ?thesis
    using False by (simp add: attach_client_def try_connect_def Let_def on_clients_def)
qed

lemma writes_inv:
  assumes inv: "watch_inv w"
  shows "watch_inv (write_queued i w)"
proof (cases "List.find (\<lambda>c. ac_id c = i) (cl_inner (wt_clients w))")
  case None
  then show ?thesis using inv by (simp add: write_queued_def)
next
  case (Some c)
  then have c: "c \<in> set (cl_inner (wt_clients w))" "ac_id c = i" by (auto simp: find_Some_iff)
  show ?thesis
  proof (cases "ch_queue (ac_tx c)")
    case Nil
    then show ?thesis using inv Some by (simp add: write_queued_def)
  next
    case (Cons f fs)
    have only: "d = c" if "d \<in> set (cl_inner (wt_clients w))" "ac_id d = i" for d
      using inv that c unfolding watch_inv_def registry_ok_def client_ids_def distinct_map inj_on_def by blast
    let ?g = "\<lambda>d. if ac_id d = i then d\<lparr>ac_tx := (ac_tx d)\<lparr>ch_queue := fs\<rparr>\<rparr> else d"
    let ?t = "wt_clients w\<lparr>cl_inner := map ?g (cl_inner (wt_clients w))\<rparr>" and ?wire = "(wt_wire w)(i := wt_wire w i @ [f])"
    have "write_queued i w = w\<lparr>wt_clients := ?t, wt_wire := ?wire\<rparr>"
      using Some Cons by (simp add: write_queued_def on_clients_def)
    moreover have "watch_inv (w\<lparr>wt_clients := ?t, wt_wire := ?wire\<rparr>)"
    proof (rule mapped_inv [OF inv, of _ ?g])
      fix d assume d: "d \<in> set (cl_inner (wt_clients w))"
      then have t: "told_or_owed w d" using inv by (simp add: watch_inv_def list_all_iff)
      have "told_or_owed (w\<lparr>wt_clients := ?t, wt_wire := ?wire\<rparr>) (?g d)"
        using Cons only [OF d] by (intro told_if [OF t, of _ _ "[]"]) (auto simp: client_stream_def pending_def)
      then show "ac_id (?g d) = ac_id d \<and> ch_cap (ac_tx (?g d)) = ch_cap (ac_tx d) \<and> length (ch_queue (ac_tx (?g d))) \<le> length (ch_queue (ac_tx d))
          \<and> told_or_owed (w\<lparr>wt_clients := ?t, wt_wire := ?wire\<rparr>) (?g d)"
        using Cons only [OF d] by auto
    qed simp_all
    ultimately show ?thesis by simp
  qed
qed

lemma send_set_inv:
  assumes inv: "watch_inv w" and pc: "wt_pc w = Answering (i # is')"
  shows "watch_inv ((on_clients (send_to i (SetFrame (wt_seen w))) w)\<lparr>wt_pc := Answering is'\<rparr>)"
proof -
  let ?w = "(on_clients (send_to i (SetFrame (wt_seen w))) w)\<lparr>wt_pc := Answering is'\<rparr>"
  have d: "distinct (client_ids (wt_clients w))" using inv by (simp add: watch_inv_def registry_ok_def)
  have told: "wt_told w = wt_seen w" using inv pc by (simp add: watch_inv_def)
  have "told_or_owed ?w c'" if m: "c' \<in> set (cl_inner (send_to i (SetFrame (wt_seen w)) (wt_clients w)))" for c'
  proof -
    obtain c where c: "c \<in> set (cl_inner (wt_clients w))" "(if ac_id c = i then queued (SetFrame (wt_seen w)) c else Some c) = Some c'"
      using m unfolding send_to_inner [OF d] in_map_filter by blast
    then have t: "told_or_owed w c" using inv by (simp add: watch_inv_def list_all_iff)
    show ?thesis
    proof (cases "ac_id c = i")
      case True
      with c(2) have "c' = c\<lparr>ac_tx := (ac_tx c)\<lparr>ch_queue := ch_queue (ac_tx c) @ [SetFrame (wt_seen w)]\<rparr>\<rparr>" by (simp add: queued_Some)
      then show ?thesis by (simp add: told_or_owed_def client_stream_def told append_assoc [symmetric] del: append_assoc)
    next
      case False
      with c(2) t show ?thesis by (auto simp: told_or_owed_def client_stream_def pending_def pc)
    qed
  qed
  then show ?thesis using inv pc told by (simp add: watch_inv_def list_all_iff registry_send)
qed

lemma broadcast_set_inv:
  assumes inv: "watch_inv w" and pc: "wt_pc w = AtTell"
  shows "watch_inv ((on_clients (broadcast_frame (SetFrame v)) w)\<lparr>wt_told := v, wt_pc := AtRepos\<rparr>)"
    and "c' \<in> set (cl_inner (broadcast_frame (SetFrame v) (wt_clients w))) \<Longrightarrow> last_set (wt_wire w (ac_id c') @ ch_queue (ac_tx c')) = Some v"
proof -
  show last: "last_set (wt_wire w (ac_id c') @ ch_queue (ac_tx c')) = Some v"
    if m: "c' \<in> set (cl_inner (broadcast_frame (SetFrame v) (wt_clients w)))" for c'
  proof -
    obtain c where "queued (SetFrame v) (c\<lparr>ac_owed_set := False\<rparr>) = Some c'"
      using m unfolding broadcast_inner in_map_filter by blast
    then show ?thesis by (auto simp: queued_Some append_assoc [symmetric] simp del: append_assoc)
  qed
  show "watch_inv ((on_clients (broadcast_frame (SetFrame v)) w)\<lparr>wt_told := v, wt_pc := AtRepos\<rparr>)"
    using inv last by (simp add: watch_inv_def list_all_iff registry_broadcast told_or_owed_def client_stream_def)
qed

lemma take_owed_inv:
  assumes inv: "watch_inv w" and pc: "wt_pc w = AtTell" "wt_told w = wt_seen w"
  shows "watch_inv (w\<lparr>wt_clients := snd (take_owed_sets (wt_clients w)), wt_pc := Answering (fst (take_owed_sets (wt_clients w)))\<rparr>)"
proof -
  have ok: "registry_ok (wt_clients w)" using inv by (simp add: watch_inv_def)
  have "registry_ok (snd (take_owed_sets (wt_clients w)))"
    by (rule registry_map [OF ok, where g = "\<lambda>c. c\<lparr>ac_owed_set := False\<rparr>"]) (simp_all add: take_owed_sets_def)
  moreover have "told_or_owed (w\<lparr>wt_clients := t, wt_pc := Answering (fst (take_owed_sets (wt_clients w)))\<rparr>) (c\<lparr>ac_owed_set := False\<rparr>)"
    if "c \<in> set (cl_inner (wt_clients w))" for c t
    using inv that by (auto simp: watch_inv_def list_all_iff told_or_owed_def client_stream_def pending_def pc take_owed_sets_def)
  ultimately show ?thesis using inv pc by (auto simp: watch_inv_def list_all_iff take_owed_sets_def)
qed

lemma reading_inv:
  assumes "watch_inv w" "pending w = []" "wt_pc w' \<in> {AtRepos, AtActive, AtAccent, AtTell}"
    and "wt_clients w' = wt_clients w" "wt_wire w' = wt_wire w" "wt_told w' = wt_told w"
  shows "watch_inv w'"
proof -
  have "told_or_owed w' c" if "told_or_owed w c" for c
    using that assms(2-) by (auto simp: told_or_owed_def client_stream_def)
  then show ?thesis using assms by (auto simp: watch_inv_def list_all_iff)
qed

lemma watch_step_inv:
  assumes inv: "watch_inv w"
  shows "watch_inv (watch_step w)"
proof (cases "wt_pc w")
  case AtTell
  with take_owed_inv [OF inv AtTell] broadcast_set_inv(1) [OF inv AtTell, of "wt_seen w"] show ?thesis
    by (cases "wt_seen w") (simp add: watch_step_def case_prod_beta Let_def)
next
  case (Answering is')
  then show ?thesis
  proof (cases is')
    case Nil
    with Answering show ?thesis by (intro reading_inv [OF inv]) (auto simp: watch_step_def case_prod_beta Let_def pending_def)
  next
    case (Cons i is2)
    with Answering send_set_inv [OF inv, of i is2] show ?thesis by (simp add: watch_step_def case_prod_beta Let_def)
  qed
qed (auto simp: watch_step_def case_prod_beta Let_def pending_def intro!: reading_inv [OF inv])

lemma handle_inv: "watch_inv w \<Longrightarrow> handle err fs written rq i w = Some w' \<Longrightarrow> watch_inv w'"
  by (cases rq)
     (auto simp: handle_def refuse_def Let_def send_other_inv owe_inv split: option.splits sum.splits prod.splits open_error.splits close_error.splits)

interpretation told: event_machine "\<lambda>_ _. True" watching_step watch_inv
proof
  show "watch_inv (watching_step w e)" if "watch_inv w" for w :: "('v, 'f) watching" and e
    using that by (cases e) (simp_all add: send_other_inv detach_inv writes_inv writer_ended_inv attach_inv watch_step_inv handle_inv split: option.split)
qed

lemma watch_inv_new: "watch_inv (watching_new s)"
  by (simp add: watching_new_def watch_inv_def registry_ok_def clients_default_def client_ids_def)

section \<open>A pass of the watcher\<close>

definition watch_steps :: "nat \<Rightarrow> ('v, 'f) watching \<Rightarrow> ('v, 'f) watching" where
  "watch_steps n w = run watching_step w (replicate n WeWatch)"

lemma watch_steps_simps [simp]: "watch_steps 0 w = w" "watch_steps (Suc n) w = watch_steps n (watch_step w)"
  by (simp_all add: watch_steps_def)

lemma watch_steps_add: "watch_steps (m + n) w = watch_steps n (watch_steps m w)"
  by (simp add: watch_steps_def replicate_add)

text \<open>Answering the owed ones: one step each and one to begin again.\<close>

lemma answering_ends:
  assumes "watch_inv w" "wt_pc w = Answering is'" "list_all (\<lambda>c. \<not> ac_owed_set c) (cl_inner (wt_clients w))"
  shows "let w' = watch_steps (Suc (length is')) w in wt_pc w' = AtRepos \<and> wt_told w' = wt_told w \<and> wt_session w' = wt_session w
    \<and> list_all (\<lambda>c. last_set (client_stream w' c) = Some (wt_told w)) (cl_inner (wt_clients w'))"
  using assms
proof (induction is' arbitrary: w)
  case Nil
  then have "list_all (\<lambda>c. last_set (client_stream w c) = Some (wt_told w)) (cl_inner (wt_clients w))"
    by (auto simp: watch_inv_def list_all_iff told_or_owed_def pending_def)
  with Nil show ?case by (simp add: watch_step_def case_prod_beta Let_def client_stream_def)
next
  case (Cons i is')
  let ?w = "watch_step w"
  have w: "?w = (on_clients (send_to i (SetFrame (wt_seen w))) w)\<lparr>wt_pc := Answering is'\<rparr>"
    using Cons.prems by (simp add: watch_step_def case_prod_beta Let_def)
  have d: "distinct (client_ids (wt_clients w))" using Cons.prems(1) by (simp add: watch_inv_def registry_ok_def)
  have "list_all (\<lambda>c. \<not> ac_owed_set c) (cl_inner (wt_clients ?w))"
  proof -
    have "\<not> ac_owed_set c'" if m: "c' \<in> set (cl_inner (send_to i (SetFrame (wt_seen w)) (wt_clients w)))" for c'
    proof -
      obtain c where "c \<in> set (cl_inner (wt_clients w))" "(if ac_id c = i then queued (SetFrame (wt_seen w)) c else Some c) = Some c'"
        using m unfolding send_to_inner [OF d] in_map_filter by blast
      with Cons.prems(3) show ?thesis by (auto simp: list_all_iff queued_Some split: if_split_asm)
    qed
    then show ?thesis by (simp add: w list_all_iff)
  qed
  with Cons.IH [of ?w] watch_step_inv [OF Cons.prems(1)] show ?case by (simp add: w Let_def)
qed

lemma reads_the_session:
  "wt_pc w = AtRepos \<Longrightarrow> watch_steps 3 w = w\<lparr>wt_poked := False, wt_seen := session_view (wt_session w), wt_pc := AtTell\<rparr>"
  by (simp add: numeral_3_eq_3 watch_step_def case_prod_beta Let_def session_view_def)

lemma full_pass:
  assumes inv: "watch_inv w" and pc: "wt_pc w = AtRepos"
  shows "\<exists>n. let w' = watch_steps n w in wt_pc w' = AtRepos \<and> wt_session w' = wt_session w
    \<and> list_all (\<lambda>c. last_set (client_stream w' c) = Some (session_view (wt_session w))) (cl_inner (wt_clients w'))"
proof -
  let ?v = "session_view (wt_session w)" and ?t = "watch_steps 3 w"
  have t: "?t = w\<lparr>wt_poked := False, wt_seen := ?v, wt_pc := AtTell\<rparr>" by (rule reads_the_session [OF pc])
  have inv3: "watch_inv ?t" using told.run_inv [of w "replicate 3 WeWatch"] inv by (simp add: watch_steps_def)
  show ?thesis
  proof (cases "wt_told w = ?v")
    case False
    let ?w = "(on_clients (broadcast_frame (SetFrame ?v)) ?t)\<lparr>wt_told := ?v, wt_pc := AtRepos\<rparr>"
    have step: "watch_steps (3 + 1) w = ?w" unfolding watch_steps_add using False by (simp add: t watch_step_def case_prod_beta Let_def)
    have "last_set (client_stream ?w c) = Some ?v" if "c \<in> set (cl_inner (wt_clients ?w))" for c
      using broadcast_set_inv(2) [OF inv3, of c ?v] that by (simp add: t client_stream_def)
    then show ?thesis by (intro exI [of _ "3 + 1"]) (simp only: step Let_def list_all_iff, simp add: t)
  next
    case True
    let ?w = "?t\<lparr>wt_clients := snd (take_owed_sets (wt_clients ?t)), wt_pc := Answering (fst (take_owed_sets (wt_clients ?t)))\<rparr>"
    have step: "watch_steps (3 + 1) w = ?w" unfolding watch_steps_add using True by (simp add: t watch_step_def case_prod_beta Let_def)
    have w: "watch_inv ?w" by (rule take_owed_inv [OF inv3]) (simp_all add: t True)
    have none: "list_all (\<lambda>c. \<not> ac_owed_set c) (cl_inner (wt_clients ?w))" by (simp add: take_owed_sets_def list_all_iff)
    have pcw: "wt_pc ?w = Answering (fst (take_owed_sets (wt_clients ?t)))" by simp
    let ?n = "Suc (length (fst (take_owed_sets (wt_clients ?t))))"
    have "wt_told ?w = ?v" "wt_session ?w = wt_session w" by (simp_all add: t True)
    moreover obtain n where n: "watch_steps n w = watch_steps ?n ?w" using watch_steps_add [of "3 + 1" ?n w] step by metis
    moreover note answering_ends [OF w pcw none, unfolded Let_def]
    ultimately show ?thesis unfolding Let_def by (intro exI [of _ n]) (simp only: simp_thms)
  qed
qed

lemma pass_ends: "\<exists>n. wt_pc (watch_steps n w) = AtRepos \<and> wt_session (watch_steps n w) = wt_session w"
proof -
  have ans: "\<exists>n. wt_pc (watch_steps n w) = AtRepos \<and> wt_session (watch_steps n w) = wt_session w" if "wt_pc w = Answering is'" for is' and w :: "('a, 'b) watching"
    using that
  proof (induction is' arbitrary: w)
    case Nil
    then show ?case by (intro exI [of _ 1]) (simp add: watch_step_def case_prod_beta Let_def)
  next
    case (Cons i is')
    then have "wt_pc (watch_step w) = Answering is'" "wt_session (watch_step w) = wt_session w" by (simp_all add: watch_step_def case_prod_beta Let_def)
    with Cons.IH show ?case by (metis watch_steps_simps(2))
  qed
  have tell: "\<exists>n. wt_pc (watch_steps n w) = AtRepos \<and> wt_session (watch_steps n w) = wt_session w" if "wt_pc w = AtTell" for w :: "('a, 'b) watching"
  proof (cases "wt_told w = wt_seen w")
    case True
    with that have "wt_pc (watch_step w) = Answering (fst (take_owed_sets (wt_clients w)))" "wt_session (watch_step w) = wt_session w"
      by (simp_all add: watch_step_def case_prod_beta Let_def)
    with ans show ?thesis by (metis watch_steps_simps(2))
  next
    case False
    with that show ?thesis by (intro exI [of _ 1]) (simp add: watch_step_def case_prod_beta Let_def)
  qed
  have next': "\<exists>n. wt_pc (watch_steps n w) = AtRepos \<and> wt_session (watch_steps n w) = wt_session w"
    if "\<exists>n. wt_pc (watch_steps n (watch_step w)) = AtRepos \<and> wt_session (watch_steps n (watch_step w)) = wt_session (watch_step w)"
      "wt_session (watch_step w) = wt_session w" for w :: "('a, 'b) watching"
    using that by (metis watch_steps_simps(2))
  have acc: "\<exists>n. wt_pc (watch_steps n w) = AtRepos \<and> wt_session (watch_steps n w) = wt_session w" if "wt_pc w = AtAccent" for w :: "('a, 'b) watching"
    by (rule next' [OF tell]) (simp_all add: that watch_step_def case_prod_beta Let_def)
  show ?thesis
  proof (cases "wt_pc w")
    case AtRepos
    then show ?thesis by (intro exI [of _ 0]) simp
  next
    case AtActive
    show ?thesis by (rule next' [OF acc]) (simp_all add: AtActive watch_step_def case_prod_beta Let_def)
  next
    case AtAccent
    then show ?thesis by (rule acc)
  next
    case AtTell
    then show ?thesis by (rule tell)
  next
    case (Answering is')
    then show ?thesis by (rule ans)
  qed
qed

section \<open>Nothing is skipped\<close>

definition grows :: "('v, 'f) watching \<Rightarrow> ('v, 'f) watching \<Rightarrow> bool" where
  "grows w w' \<longleftrightarrow> list_all (\<lambda>c'. case List.find (\<lambda>c. ac_id c = ac_id c') (cl_inner (wt_clients w)) of
      None \<Rightarrow> True | Some c \<Rightarrow> prefix (client_stream w c) (client_stream w' c')) (cl_inner (wt_clients w'))"

lemma growsI:
  assumes "registry_ok (wt_clients w)"
    and "\<And>c'. c' \<in> set (cl_inner (wt_clients w')) \<Longrightarrow>
      ac_id c' \<notin> set (client_ids (wt_clients w)) \<or> (\<exists>c \<in> set (cl_inner (wt_clients w)). ac_id c = ac_id c' \<and> prefix (client_stream w c) (client_stream w' c'))"
  shows "grows w w'"
  unfolding grows_def list_all_iff
proof
  fix c' assume c': "c' \<in> set (cl_inner (wt_clients w'))"
  have d: "distinct (map ac_id (cl_inner (wt_clients w)))" using assms(1) by (simp add: registry_ok_def client_ids_def)
  show "case List.find (\<lambda>c. ac_id c = ac_id c') (cl_inner (wt_clients w)) of
      None \<Rightarrow> True | Some c \<Rightarrow> prefix (client_stream w c) (client_stream w' c')"
  proof (cases "List.find (\<lambda>c. ac_id c = ac_id c') (cl_inner (wt_clients w))")
    case (Some c)
    then have c: "c \<in> set (cl_inner (wt_clients w))" "ac_id c = ac_id c'" by (simp_all add: find_unique [OF d])
    then have "ac_id c' \<in> set (client_ids (wt_clients w))" by (metis client_ids_def image_eqI image_set)
    with assms(2) [OF c'] obtain x where x: "x \<in> set (cl_inner (wt_clients w))" "ac_id x = ac_id c'" "prefix (client_stream w x) (client_stream w' c')"
      by blast
    have "x = c" using d x(1,2) c unfolding distinct_map inj_on_def by metis
    with x(3) Some show ?thesis by simp
  qed simp
qed

lemma grows_same: "registry_ok (wt_clients w) \<Longrightarrow> cl_inner (wt_clients w') = cl_inner (wt_clients w) \<Longrightarrow> wt_wire w' = wt_wire w \<Longrightarrow> grows w w'"
  by (rule growsI) (auto simp: client_stream_def)

lemma grows_map:
  assumes "registry_ok (wt_clients w)" "cl_inner (wt_clients w') = map g (cl_inner (wt_clients w))"
    and "\<And>c. c \<in> set (cl_inner (wt_clients w)) \<Longrightarrow> ac_id (g c) = ac_id c \<and> prefix (client_stream w c) (client_stream w' (g c))"
  shows "grows w w'"
proof (rule growsI [OF assms(1)])
  fix c' assume "c' \<in> set (cl_inner (wt_clients w'))"
  then obtain c where "c \<in> set (cl_inner (wt_clients w))" "c' = g c" using assms(2) by auto
  with assms(3) [of c] show "ac_id c' \<notin> set (client_ids (wt_clients w)) \<or> (\<exists>c \<in> set (cl_inner (wt_clients w)). ac_id c = ac_id c' \<and> prefix (client_stream w c) (client_stream w' c'))"
    by auto
qed

lemma grows_filtered:
  assumes "registry_ok (wt_clients w)" "cl_inner (wt_clients w') = List.map_filter g (cl_inner (wt_clients w))"
    and "\<And>c c'. c \<in> set (cl_inner (wt_clients w)) \<Longrightarrow> g c = Some c' \<Longrightarrow> ac_id c' = ac_id c \<and> prefix (client_stream w c) (client_stream w' c')"
  shows "grows w w'"
proof (rule growsI [OF assms(1)])
  fix c' assume "c' \<in> set (cl_inner (wt_clients w'))"
  then obtain c where "c \<in> set (cl_inner (wt_clients w))" "g c = Some c'" unfolding assms(2) in_map_filter by blast
  with assms(3) [of c c'] show "ac_id c' \<notin> set (client_ids (wt_clients w)) \<or> (\<exists>c \<in> set (cl_inner (wt_clients w)). ac_id c = ac_id c' \<and> prefix (client_stream w c) (client_stream w' c'))"
    by auto
qed

lemma grows_send:
  assumes "registry_ok (wt_clients w)" "wt_clients w' = send_to i f (wt_clients w)" "wt_wire w' = wt_wire w"
  shows "grows w w'"
proof (rule grows_filtered [OF assms(1), where g = "\<lambda>c. if ac_id c = i then queued f c else Some c"])
  show "cl_inner (wt_clients w') = List.map_filter (\<lambda>c. if ac_id c = i then queued f c else Some c) (cl_inner (wt_clients w))"
    unfolding assms(2) using assms(1) by (intro send_to_inner) (simp add: registry_ok_def)
qed (auto simp: client_stream_def assms(3) queued_Some split: if_split_asm)

lemma grows_broadcast:
  assumes "registry_ok (wt_clients w)" "wt_clients w' = broadcast_frame f (wt_clients w)" "wt_wire w' = wt_wire w"
  shows "grows w w'"
  by (rule grows_filtered [OF assms(1), where g = "\<lambda>c. queued f (c\<lparr>ac_owed_set := False\<rparr>)"])
     (auto simp: client_stream_def assms(2,3) queued_Some broadcast_inner)

lemma grows_poke [simp]: "grows w (poke t) = grows w t" "grows w (set_session s t) = grows w t" "grows (set_session s w) t = grows w t"
  by (simp_all add: grows_def poke_def set_session_def client_stream_def cong: option.case_cong)

lemma registry_set_session [simp]: "wt_clients (set_session s w) = wt_clients w" "wt_wire (set_session s w) = wt_wire w"
  by (simp_all add: set_session_def)

lemma grows_refuse: "registry_ok (wt_clients w) \<Longrightarrow> grows w (refuse err i m w)"
  by (rule grows_send) (simp_all add: refuse_def)

lemma grows_owe: "registry_ok (wt_clients w) \<Longrightarrow> grows w (on_clients (owe_set i) w)"
  by (rule grows_map [where g = "\<lambda>c. if ac_id c = i then c\<lparr>ac_owed_set := True\<rparr> else c"])
     (auto simp: owe_set_def update_first_map registry_ok_def client_ids_def client_stream_def)

lemma grows_handle:
  assumes r: "registry_ok (wt_clients w)" and h: "handle err fs written rq i w = Some w'"
  shows "grows w w'"
proof -
  have ref: "grows w (refuse err i m (set_session s w))" for m s using grows_refuse [of "set_session s w" err i m] r by simp
  have ans: "grows w (on_clients (send_to i (OtherFrame f)) w)" for f by (rule grows_send [OF r]) simp_all
  have same: "grows w w" by (rule grows_same [OF r]) simp_all
  show ?thesis
    using h ref ans same grows_refuse [OF r] grows_owe [OF r]
    by (cases rq) (auto simp: handle_def Let_def split: option.splits sum.splits prod.splits open_error.splits close_error.splits)
qed

lemma grows_attach:
  assumes r: "registry_ok (wt_clients w)"
  shows "grows w (attach_client hello w)"
proof (cases "length (cl_inner (wt_clients w)) \<ge> MAX_ATTACHED_CLIENTS")
  case True
  then show ?thesis using grows_same [OF r, of w] by (simp add: attach_client_def try_connect_def)
next
  case False
  let ?i = "cl_next_id (wt_clients w)"
  let ?t = "snd (try_connect MAX_ATTACHED_CLIENTS (wt_clients w))"
  have new: "?i \<notin> set (client_ids (wt_clients w))" using r by (auto simp: registry_ok_def list_all_iff)
  have rt: "registry_ok ?t" using r False by (auto simp: registry_ok_def try_connect_def client_ids_def list_all_iff Let_def)
  have w: "attach_client hello w = poke (w\<lparr>wt_clients := send_to ?i (OtherFrame (hello ?i)) ?t\<rparr>)"
    using False by (simp add: attach_client_def try_connect_def Let_def)
  have "grows w (w\<lparr>wt_clients := send_to ?i (OtherFrame (hello ?i)) ?t\<rparr>)"
  proof (rule growsI [OF r])
    fix c' assume "c' \<in> set (cl_inner (wt_clients (w\<lparr>wt_clients := send_to ?i (OtherFrame (hello ?i)) ?t\<rparr>)))"
    then have m: "c' \<in> set (List.map_filter (\<lambda>c. if ac_id c = ?i then queued (OtherFrame (hello ?i)) c else Some c) (cl_inner ?t))"
      using rt by (simp add: send_to_inner registry_ok_def)
    then obtain c where c: "c \<in> set (cl_inner ?t)" "(if ac_id c = ?i then queued (OtherFrame (hello ?i)) c else Some c) = Some c'"
      unfolding in_map_filter by blast
    show "ac_id c' \<notin> set (client_ids (wt_clients w)) \<or> (\<exists>c \<in> set (cl_inner (wt_clients w)). ac_id c = ac_id c'
        \<and> prefix (client_stream w c) (client_stream (w\<lparr>wt_clients := send_to ?i (OtherFrame (hello ?i)) ?t\<rparr>) c'))"
    proof (cases "ac_id c = ?i")
      case True
      then have "ac_id c' = ?i" using c(2) by (auto simp: queued_Some)
      with new show ?thesis by simp
    next
      case ne: False
      then have "c' = c" "c \<in> set (cl_inner (wt_clients w))" using c False by (auto simp: try_connect_def Let_def)
      then show ?thesis by (auto simp: client_stream_def)
    qed
  qed
  then show ?thesis by (simp add: w)
qed

lemma grows_writes:
  assumes r: "registry_ok (wt_clients w)"
  shows "grows w (write_queued i w)"
proof (cases "List.find (\<lambda>c. ac_id c = i) (cl_inner (wt_clients w))")
  case None
  then show ?thesis using grows_same [OF r, of w] by (simp add: write_queued_def)
next
  case (Some c)
  have d: "distinct (map ac_id (cl_inner (wt_clients w)))" using r by (simp add: registry_ok_def client_ids_def)
  have c: "c \<in> set (cl_inner (wt_clients w))" "ac_id c = i" using Some by (simp_all add: find_unique [OF d])
  show ?thesis
  proof (cases "ch_queue (ac_tx c)")
    case Nil
    then show ?thesis using Some grows_same [OF r, of w] by (simp add: write_queued_def)
  next
    case (Cons f fs)
    have only: "e = c" if "e \<in> set (cl_inner (wt_clients w))" "ac_id e = i" for e
      using d that c unfolding distinct_map inj_on_def by metis
    show ?thesis
      by (rule grows_map [OF r, where g = "\<lambda>d. if ac_id d = i then d\<lparr>ac_tx := (ac_tx d)\<lparr>ch_queue := fs\<rparr>\<rparr> else d"])
         (use Some Cons only in \<open>auto simp: write_queued_def client_stream_def\<close>)
  qed
qed

lemma grows_watch:
  assumes r: "registry_ok (wt_clients w)"
  shows "grows w (watch_step w)"
proof (cases "wt_pc w")
  case AtTell
  show ?thesis
  proof (cases "wt_told w = wt_seen w")
    case True
    then show ?thesis
      by (intro grows_map [OF r, where g = "\<lambda>c. c\<lparr>ac_owed_set := False\<rparr>"])
         (simp_all add: AtTell watch_step_def case_prod_beta Let_def take_owed_sets_def client_stream_def)
  next
    case False
    then show ?thesis
      by (intro grows_broadcast [OF r]) (simp_all add: AtTell watch_step_def case_prod_beta Let_def)
  qed
next
  case (Answering is')
  show ?thesis
  proof (cases is')
    case Nil
    then show ?thesis by (intro grows_same [OF r]) (simp_all add: Answering watch_step_def case_prod_beta Let_def)
  next
    case (Cons i is2)
    then show ?thesis by (intro grows_send [OF r]) (simp_all add: Answering watch_step_def case_prod_beta Let_def)
  qed
qed (auto simp: watch_step_def case_prod_beta Let_def intro!: grows_same [OF r])

lemma grows_step:
  assumes inv: "watch_inv w"
  shows "grows w (watching_step w e)"
proof -
  have r: "registry_ok (wt_clients w)" using inv by (simp add: watch_inv_def)
  have same: "grows w w" by (rule grows_same [OF r]) simp_all
  show ?thesis
  proof (cases e)
    case (WeSend i f)
    then show ?thesis by (simp, intro grows_send [OF r]) simp_all
  next
    case (WeDetach i)
    then show ?thesis
      by (simp, intro grows_filtered [OF r, where g = "\<lambda>c. if ac_id c \<noteq> i then Some c else None"])
         (auto simp: disconnect_client_def filter_map_filter client_stream_def split: if_split_asm)
  next
    case (WeWriterEnded i)
    then show ?thesis
      by (simp, intro grows_map [OF r, where g = "\<lambda>c. if ac_id c = i then c\<lparr>ac_tx := (ac_tx c)\<lparr>ch_open := False\<rparr>\<rparr> else c"])
         (auto simp: writer_ended_def client_stream_def)
  qed (use same grows_attach [OF r] grows_writes [OF r] grows_watch [OF r] grows_handle [OF r] in \<open>auto split: option.split\<close>)
qed

text \<open>
  \<^bold>\<open>C7\<close>. Nobody attached is left behind. Whatever clients attach, ask, stop reading and leave, whatever is changed over any other
  transport, and wherever the watcher is in its pass: at most sixteen clients are attached, each under an id of its own and with at
  most 256 frames waiting; each has last been told what the watcher last told the session to be, or is still owed it and on the
  watcher's list; no step takes a frame from a client's stream or puts one before another, unless the client is cut off; and when the
  watcher comes to the end of its pass and makes one more undisturbed, the last set every attached client was sent is the session as
  it is.
\<close>

theorem nobody_left_behind:
  "let w = run watching_step (watching_new s) es in
     length (cl_inner (wt_clients w)) \<le> 16 \<and> distinct (client_ids (wt_clients w))
     \<and> list_all (\<lambda>c. length (ch_queue (ac_tx c)) \<le> 256) (cl_inner (wt_clients w))
     \<and> list_all (told_or_owed w) (cl_inner (wt_clients w))
     \<and> grows w (watching_step w e)
     \<and> (\<exists>n. wt_session (watch_steps n w) = wt_session w
          \<and> list_all (\<lambda>c. last_set (client_stream (watch_steps n w) c) = Some (session_view (wt_session w))) (cl_inner (wt_clients (watch_steps n w))))"
proof -
  let ?w = "run watching_step (watching_new s) es"
  have inv: "watch_inv ?w" by (rule told.run_inv [OF watch_inv_new]) simp
  obtain m where m: "wt_pc (watch_steps m ?w) = AtRepos" "wt_session (watch_steps m ?w) = wt_session ?w" using pass_ends by blast
  have "watch_inv (watch_steps m ?w)" using told.run_inv [OF inv, of "replicate m WeWatch"] by (simp add: watch_steps_def)
  from full_pass [OF this m(1)] obtain n where
    "wt_session (watch_steps n (watch_steps m ?w)) = wt_session ?w
     \<and> list_all (\<lambda>c. last_set (client_stream (watch_steps n (watch_steps m ?w)) c) = Some (session_view (wt_session ?w)))
         (cl_inner (wt_clients (watch_steps n (watch_steps m ?w))))"
    unfolding Let_def m(2) by blast
  then have "\<exists>n. wt_session (watch_steps n ?w) = wt_session ?w
      \<and> list_all (\<lambda>c. last_set (client_stream (watch_steps n ?w) c) = Some (session_view (wt_session ?w))) (cl_inner (wt_clients (watch_steps n ?w)))"
    unfolding watch_steps_add [symmetric] by blast
  moreover have "list_all (\<lambda>c. length (ch_queue (ac_tx c)) \<le> 256) (cl_inner (wt_clients ?w))"
    using inv by (simp add: watch_inv_def registry_ok_def list_all_iff CLIENT_QUEUE_DEPTH_def)
  ultimately show ?thesis
    using inv grows_step [OF inv, of e] by (simp add: Let_def watch_inv_def registry_ok_def MAX_ATTACHED_CLIENTS_def)
qed

end
