(* ===== verification/Terminal_Link.thy ===== *)
theory Terminal_Link
  imports Pty_Backend Output_Text Daemon_Frame Size_Owner
begin

text \<open>
  The way of a repository's terminals from its hub to an attached client. On the daemon's side every frame of a hub is tagged with
  the repository (\<^verbatim>\<open>src/daemon/terminals.rs\<close>, \<^verbatim>\<open>protocol.rs\<close>); on the client's side it is read off the socket (\<^verbatim>\<open>wire.rs\<close>), filed in the
  inbox of its repository (\<^verbatim>\<open>terminal_link.rs\<close>, \<^verbatim>\<open>terminal_link/coalescing.rs\<close>) and turned into events on the render tick
  (\<^verbatim>\<open>src/backend/hub.rs\<close>). The JSON of \<^verbatim>\<open>serde_json\<close> is an argument of the definitions that use it; requests of the client that go
  the other way are written as the messages they are.
\<close>

section \<open>Messages of the daemon\<close>

record repo_summary =
  rs_id :: rstring
  rs_path :: rstring

text \<open>What a status and a clone lookup carry is only passed on here.\<close>

datatype ('st, 'lk) daemon_message =
    DsHello rstring u64 bool
  | DsStatus 'st
  | DsNotified
  | DsRepos "repo_summary list" "rstring option" nat
  | DsError rstring
  | DsReloaded rstring
  | DsCloneStarted u64 rstring
  | DsCloneStatus 'lk
  | DsCloneRejected rstring
  | DsTerminal rstring server_message

record terminal_output =
  to_repo :: rstring
  to_pane :: pane_id
  to_data :: "u8 list"

definition encode_terminal_output :: "terminal_output \<Rightarrow> u8 list option" where
  "encode_terminal_output t =
     (let repo = str_bytes (to_repo t)
      in if length repo > 255 then None
         else Some (of_nat (length repo) # repo @ to_le_bytes (to_pane t) @ to_data t))"

definition decode_terminal_output :: "u8 list \<Rightarrow> terminal_output option" where
  "decode_terminal_output bytes =
     (case bytes of
        [] \<Rightarrow> None
      | n # rest \<Rightarrow>
          let len = unat n
          in if length rest < len + 4 then None
             else case from_utf8 (take len rest) of
                    None \<Rightarrow> None
                  | Some repo \<Rightarrow>
                      (case from_le_bytes (take 4 (drop len rest)) of
                         None \<Rightarrow> None
                       | Some pane \<Rightarrow> Some \<lparr>to_repo = repo, to_pane = pane, to_data = drop (len + 4) rest\<rparr>))"

section \<open>Tagging on the daemon's side\<close>

fun rewrite_requester :: "u64 \<Rightarrow> u64 \<Rightarrow> server_message \<Rightarrow> server_message" where
  "rewrite_requester hub_client attached (SmCreated pane rows cols client title) =
     SmCreated pane rows cols (if client = Some hub_client then Some attached else None) title"
| "rewrite_requester hub_client attached other = other"

definition LAST_RESORT :: "u8 list" where
  "LAST_RESORT = str_bytes (lit ''{\"type\":\"error\",\"message\":\"server message could not be encoded\"}'')"

fun tag ::
  "(('st, 'lk) daemon_message \<Rightarrow> u8 list option) \<Rightarrow> (rstring \<Rightarrow> server_message option) \<Rightarrow> rstring \<Rightarrow> u64 \<Rightarrow> u64
    \<Rightarrow> terminal_frame \<Rightarrow> frame" where
  "tag to_vec from_str repo hub_client attached (Output pane data) =
     (case encode_terminal_output \<lparr>to_repo = repo, to_pane = pane, to_data = data\<rparr> of
        Some payload \<Rightarrow> \<lparr>fr_kind = FkTerminal, fr_payload = payload\<rparr>
      | None \<Rightarrow>
          encode_server to_vec DsError LAST_RESORT (DsError (lit ''terminal output could not be relayed''))
            (lit ''terminal output could not be relayed''))"
| "tag to_vec from_str repo hub_client attached (Control json) =
     (case from_str json of
        Some event \<Rightarrow>
          encode_server to_vec DsError LAST_RESORT (DsTerminal repo (rewrite_requester hub_client attached event))
            (lit ''event could not be encoded'')
      | None \<Rightarrow>
          encode_server to_vec DsError LAST_RESORT (DsError (lit ''terminal event could not be relayed''))
            (lit ''event could not be encoded''))"

section \<open>Inboxes\<close>

definition TERMINAL_INBOX_BYTES :: nat where
  "TERMINAL_INBOX_BYTES = 256 * 1024 * 1024"

definition TERMINAL_DRAIN_MESSAGES :: nat where
  "TERMINAL_DRAIN_MESSAGES = 64"

definition TERMINAL_DRAIN_BYTES :: nat where
  "TERMINAL_DRAIN_BYTES = 256 * 1024"

definition TERMINAL_INBOX_MESSAGES :: nat where
  "TERMINAL_INBOX_MESSAGES = 4096"

datatype terminal_message = TmEvent server_message | TmOutput pane_id "u8 list"

fun output_bytes :: "terminal_message \<Rightarrow> nat" where
  "output_bytes (TmOutput _ data) = length data"
| "output_bytes (TmEvent _) = 0"

record inbox_overflow =
  ov_queued :: nat
  ov_incoming :: nat
  ov_limit :: nat
  ov_messages :: nat
  ov_message_limit :: nat

record router =
  ro_inboxes :: "(rstring \<times> terminal_message list) list"
  ro_bytes :: nat
  ro_messages :: nat
  ro_overflowed :: bool
  ro_byte_limit :: nat
  ro_message_limit :: nat

definition router_new :: router where
  "router_new = \<lparr>ro_inboxes = [], ro_bytes = 0, ro_messages = 0, ro_overflowed = False,
     ro_byte_limit = TERMINAL_INBOX_BYTES, ro_message_limit = TERMINAL_INBOX_MESSAGES\<rparr>"

fun fits_tail :: "terminal_message option \<Rightarrow> terminal_message \<Rightarrow> nat \<Rightarrow> bool" where
  "fits_tail (Some (TmOutput queued_pane queued_data)) (TmOutput pane data) max_bytes =
     (queued_pane = pane \<and> length queued_data + length data \<le> max_bytes)"
| "fits_tail _ _ _ = False"

text \<open>\<open>None\<close> is the panic of a tail that is not output; the router asks \<open>fits_tail\<close> first.\<close>

fun append_to_tail :: "terminal_message list \<Rightarrow> terminal_message \<Rightarrow> terminal_message list option" where
  "append_to_tail [TmOutput pane queued] (TmOutput _ data) = Some [TmOutput pane (queued @ data)]"
| "append_to_tail (m # m' # q) message = map_option (\<lambda>q. m # q) (append_to_tail (m' # q) message)"
| "append_to_tail _ _ = None"

definition last_opt_message :: "terminal_message list option \<Rightarrow> terminal_message option" where
  "last_opt_message q = (case q of None \<Rightarrow> None | Some q \<Rightarrow> last_opt q)"

fun set_inbox :: "rstring \<Rightarrow> terminal_message list \<Rightarrow> (rstring \<times> terminal_message list) list \<Rightarrow> (rstring \<times> terminal_message list) list" where
  "set_inbox repo q [] = [(repo, q)]"
| "set_inbox repo q ((r, old) # rest) = (if r = repo then (r, q) # rest else (r, old) # set_inbox repo q rest)"

definition deliver :: "rstring \<Rightarrow> terminal_message \<Rightarrow> router \<Rightarrow> (inbox_overflow + unit) \<times> router" where
  "deliver repo message s =
     (let incoming = output_bytes message;
          coalesces = fits_tail (last_opt_message (map_of (ro_inboxes s) repo)) message TERMINAL_DRAIN_BYTES;
          bytes_fit = (ro_bytes s + incoming \<le> ro_byte_limit s);
          messages_fit = (coalesces \<or> ro_messages s < ro_message_limit s)
      in if ro_overflowed s \<or> \<not> bytes_fit \<or> \<not> messages_fit
         then (Inl \<lparr>ov_queued = ro_bytes s, ov_incoming = incoming, ov_limit = ro_byte_limit s, ov_messages = ro_messages s,
                    ov_message_limit = ro_message_limit s\<rparr>, s\<lparr>ro_overflowed := True\<rparr>)
         else
           let s = s\<lparr>ro_bytes := ro_bytes s + incoming, ro_messages := (if coalesces then ro_messages s else ro_messages s + 1)\<rparr>;
               inbox = (case map_of (ro_inboxes s) repo of None \<Rightarrow> [] | Some q \<Rightarrow> q)
           in (Inr (), s\<lparr>ro_inboxes := set_inbox repo
                 (if coalesces then the (append_to_tail inbox message) else inbox @ [message]) (ro_inboxes s)\<rparr>))"

text \<open>The loop of a drain: what was taken, its bytes, what is left.\<close>

fun drain_batch :: "nat \<Rightarrow> nat \<Rightarrow> terminal_message list \<Rightarrow> terminal_message list \<times> nat \<times> terminal_message list" where
  "drain_batch taken bytes [] = ([], bytes, [])"
| "drain_batch taken bytes (m # q) =
     (if taken \<ge> TERMINAL_DRAIN_MESSAGES then ([], bytes, m # q)
      else if taken \<noteq> 0 \<and> bytes + output_bytes m > TERMINAL_DRAIN_BYTES then ([], bytes, m # q)
      else let (drained, bytes, rest) = drain_batch (taken + 1) (bytes + output_bytes m) q in (m # drained, bytes, rest))"

definition drain :: "rstring \<Rightarrow> router \<Rightarrow> terminal_message list \<times> router" where
  "drain repo s =
     (case map_of (ro_inboxes s) repo of
        None \<Rightarrow> ([], s)
      | Some inbox \<Rightarrow>
          let (drained, bytes, rest) = drain_batch 0 0 inbox
          in (drained, s\<lparr>ro_inboxes := set_inbox repo rest (ro_inboxes s), ro_bytes := ro_bytes s - bytes,
                         ro_messages := ro_messages s - length drained\<rparr>))"

definition retain :: "rstring list \<Rightarrow> router \<Rightarrow> router" where
  "retain open s =
     (let gone = filter (\<lambda>(repo, _). repo \<notin> set open) (ro_inboxes s)
      in s\<lparr>ro_inboxes := filter (\<lambda>(repo, _). repo \<in> set open) (ro_inboxes s),
           ro_bytes := ro_bytes s - sum_list (map (\<lambda>(_, q). sum_list (map output_bytes q)) gone),
           ro_messages := ro_messages s - sum_list (map (\<lambda>(_, q). length q) gone)\<rparr>)"

section \<open>Reading\<close>

datatype wire_error = WeFrame frame_error | WeOutput | WeMessage | WeOverflow inbox_overflow

datatype ('st, 'lk) incoming = IcControl "('st, 'lk) daemon_message" | IcRouted

definition filed :: "(inbox_overflow + unit) \<times> router \<Rightarrow> (wire_error + ('st, 'lk) incoming) \<times> router" where
  "filed out = (case out of (Inl e, s) \<Rightarrow> (Inl (WeOverflow e), s) | (Inr _, s) \<Rightarrow> (Inr IcRouted, s))"

definition route_frame ::
  "(u8 list \<Rightarrow> ('st, 'lk) daemon_message option) \<Rightarrow> frame \<Rightarrow> router \<Rightarrow> (wire_error + ('st, 'lk) incoming) \<times> router" where
  "route_frame from_slice f s =
     (if fr_kind f = FkTerminal
      then case decode_terminal_output (fr_payload f) of
             None \<Rightarrow> (Inl WeOutput, s)
           | Some t \<Rightarrow> filed (deliver (to_repo t) (TmOutput (to_pane t) (to_data t)) s)
      else case from_slice (fr_payload f) of
             None \<Rightarrow> (Inl WeMessage, s)
           | Some message \<Rightarrow>
               (case message of
                  DsTerminal repo event \<Rightarrow>
                    if (case event of SmError _ \<Rightarrow> True | _ \<Rightarrow> False) then (Inr (IcControl message), s)
                    else filed (deliver repo (TmEvent event) s)
                | _ \<Rightarrow> (Inr (IcControl message), s)))"

definition read_routed ::
  "(u8 list \<Rightarrow> ('st, 'lk) daemon_message option) \<Rightarrow> reader \<Rightarrow> router \<Rightarrow> (wire_error + ('st, 'lk) incoming option) \<times> reader \<times> router" where
  "read_routed from_slice r s =
     (case read_frame r of
        (Inl e, r) \<Rightarrow> (Inl (WeFrame e), r, s)
      | (Inr None, r) \<Rightarrow> (Inr None, r, s)
      | (Inr (Some f), r) \<Rightarrow>
          (case route_frame from_slice f s of
             (Inl e, s) \<Rightarrow> (Inl e, r, s)
           | (Inr i, s) \<Rightarrow> (Inr (Some i), r, s)))"

section \<open>The backend of an attached client\<close>

text \<open>What one message does: whether a replay is on, the events, the requests sent back.\<close>

fun inbox_event :: "u64 \<Rightarrow> bool \<Rightarrow> terminal_message \<Rightarrow> bool \<times> backend_event list \<times> client_message list" where
  "inbox_event client replaying (TmOutput pane data) =
     (replaying, [if replaying then BeReplayOutput pane data else BeOutput pane data], [])"
| "inbox_event client replaying (TmEvent (SmCreated pane rows cols c title)) =
     (replaying, [BeCreated pane rows cols (c = Some client) title], [])"
| "inbox_event client replaying (TmEvent (SmExited pane)) = (replaying, [BeExited pane], [])"
| "inbox_event client replaying (TmEvent (SmResized pane rows cols)) = (replaying, [BeResized pane rows cols], [])"
| "inbox_event client replaying (TmEvent (SmSizeOwner owned _)) = (replaying, [BeSizeOwnership owned], [])"
| "inbox_event client replaying (TmEvent (SmPending _)) = (replaying, [], [CmStart []])"
| "inbox_event client replaying (TmEvent (SmReordered order)) = (replaying, [BeReordered order], [])"
| "inbox_event client replaying (TmEvent (SmAttention pane _)) = (replaying, [BeAttention pane], [])"
| "inbox_event client replaying (TmEvent (SmRecovery pane st detail deadline attempt)) =
     (replaying, [BeRecovery pane st detail deadline attempt], [])"
| "inbox_event client replaying (TmEvent (SmHello _ _)) = (True, [], [])"
| "inbox_event client replaying (TmEvent SmReplayComplete) = (False, [BeReplayComplete], [])"
| "inbox_event client replaying (TmEvent (SmZoomed _)) = (replaying, [], [])"
| "inbox_event client replaying (TmEvent (SmError _)) = (replaying, [], [])"

fun inbox_events :: "u64 \<Rightarrow> bool \<Rightarrow> terminal_message list \<Rightarrow> bool \<times> backend_event list \<times> client_message list" where
  "inbox_events client replaying [] = (replaying, [], [])"
| "inbox_events client replaying (m # ms) =
     (let (replaying, es, sent) = inbox_event client replaying m;
          (replaying, es', sent') = inbox_events client replaying ms
      in (replaying, es @ es', sent @ sent'))"

text \<open>The operations that only ask the session; \<open>Inl\<close> is a refusal on this side.\<close>

definition hub_create_pane :: "u16 \<Rightarrow> u16 \<Rightarrow> rstring option \<Rightarrow> rstring + client_message" where
  "hub_create_pane rows cols command = (case command of Some c \<Rightarrow> Inl c | None \<Rightarrow> Inr (CmCreate rows cols))"

definition hub_send_input :: "pane_id \<Rightarrow> u8 list \<Rightarrow> nat + client_message" where
  "hub_send_input pane data = (case from_utf8 data of None \<Rightarrow> Inl (length data) | Some s \<Rightarrow> Inr (CmInput pane s))"

section \<open>The books of the router\<close>

definition inbox_of :: "rstring \<Rightarrow> router \<Rightarrow> terminal_message list" where
  "inbox_of repo s = (case map_of (ro_inboxes s) repo of None \<Rightarrow> [] | Some q \<Rightarrow> q)"

definition queued_bytes :: "terminal_message list \<Rightarrow> nat" where
  "queued_bytes q = sum_list (map output_bytes q)"

definition filed_sum :: "(terminal_message list \<Rightarrow> nat) \<Rightarrow> (rstring \<times> terminal_message list) list \<Rightarrow> nat" where
  "filed_sum f xs = sum_list (map (\<lambda>(_, q). f q) xs)"

definition router_inv :: "router \<Rightarrow> bool" where
  "router_inv s \<longleftrightarrow>
     distinct (map fst (ro_inboxes s)) \<and> ro_bytes s = filed_sum queued_bytes (ro_inboxes s)
     \<and> ro_messages s = filed_sum length (ro_inboxes s)
     \<and> ro_bytes s \<le> ro_byte_limit s \<and> ro_messages s \<le> ro_message_limit s"

lemma queued_bytes_simps [simp]:
  "queued_bytes [] = 0" "queued_bytes (m # q) = output_bytes m + queued_bytes q" "queued_bytes (q @ r) = queued_bytes q + queued_bytes r"
  by (simp_all add: queued_bytes_def)

lemma filed_sum_simps [simp]: "filed_sum f [] = 0" "filed_sum f ((r, q) # xs) = f q + filed_sum f xs"
  by (simp_all add: filed_sum_def)

lemma map_of_set_inbox: "map_of (set_inbox repo q xs) = (map_of xs)(repo \<mapsto> q)"
  by (induction repo q xs rule: set_inbox.induct) auto

lemma keys_set_inbox: "fst ` set (set_inbox repo q xs) = insert repo (fst ` set xs)"
  by (induction repo q xs rule: set_inbox.induct) auto

lemma distinct_set_inbox: "distinct (map fst xs) \<Longrightarrow> distinct (map fst (set_inbox repo q xs))"
  by (induction repo q xs rule: set_inbox.induct) (auto simp: keys_set_inbox)

lemma filed_sum_set_inbox:
  assumes "f [] = 0"
  shows "filed_sum f (set_inbox repo q xs) + f (case map_of xs repo of None \<Rightarrow> [] | Some old \<Rightarrow> old) = filed_sum f xs + f q"
  using assms by (induction repo q xs rule: set_inbox.induct) auto

lemma filed_sum_split: "filed_sum f (filter P xs) + filed_sum f (filter (\<lambda>x. \<not> P x) xs) = filed_sum f xs"
  by (induction xs) auto

lemma append_to_tail_last: "append_to_tail (q @ [TmOutput pane queued]) (TmOutput p data) = Some (q @ [TmOutput pane (queued @ data)])"
proof (induction q)
  case (Cons m q)
  then show ?case by (cases q) auto
qed simp

lemma fits_tail_iff:
  "fits_tail (last_opt_message o1) m n \<longleftrightarrow>
     (\<exists>q pane queued data. o1 = Some (q @ [TmOutput pane queued]) \<and> m = TmOutput pane data \<and> length queued + length data \<le> n)"
proof (cases o1)
  case None
  then show ?thesis by (simp add: last_opt_message_def)
next
  case (Some q)
  show ?thesis
  proof (cases q rule: rev_cases)
    case Nil
    with Some show ?thesis by (simp add: last_opt_message_def last_opt_def)
  next
    case (snoc r x)
    with Some have "last_opt_message o1 = Some x" by (simp add: last_opt_message_def last_opt_def)
    with Some snoc show ?thesis by (cases x; cases m) auto
  qed
qed

text \<open>What an accepted delivery leaves in the inbox: the message at the end, or its bytes at the end of the last message.\<close>

lemma deliver_cases:
  assumes "deliver repo m s = (res, s')"
  obtains (refused) e where "res = Inl e" "s' = s\<lparr>ro_overflowed := True\<rparr>"
  | (pushed) "res = Inr ()" "ro_bytes s + output_bytes m \<le> ro_byte_limit s" "ro_messages s < ro_message_limit s"
      "s' = s\<lparr>ro_bytes := ro_bytes s + output_bytes m, ro_messages := ro_messages s + 1,
              ro_inboxes := set_inbox repo (inbox_of repo s @ [m]) (ro_inboxes s)\<rparr>"
  | (joined) q pane queued data where "res = Inr ()" "ro_bytes s + output_bytes m \<le> ro_byte_limit s"
      "inbox_of repo s = q @ [TmOutput pane queued]" "m = TmOutput pane data"
      "s' = s\<lparr>ro_bytes := ro_bytes s + output_bytes m,
              ro_inboxes := set_inbox repo (q @ [TmOutput pane (queued @ data)]) (ro_inboxes s)\<rparr>"
proof (cases "ro_overflowed s \<or> \<not> ro_bytes s + output_bytes m \<le> ro_byte_limit s
    \<or> \<not> (fits_tail (last_opt_message (map_of (ro_inboxes s) repo)) m TERMINAL_DRAIN_BYTES \<or> ro_messages s < ro_message_limit s)")
  case True
  with assms refused show thesis by (auto simp: deliver_def Let_def)
next
  case ok: False
  show thesis
  proof (cases "fits_tail (last_opt_message (map_of (ro_inboxes s) repo)) m TERMINAL_DRAIN_BYTES")
    case False
    with ok assms pushed show thesis by (auto simp: deliver_def Let_def inbox_of_def)
  next
    case True
    then obtain q pane queued data where q: "map_of (ro_inboxes s) repo = Some (q @ [TmOutput pane queued])" "m = TmOutput pane data"
      by (auto simp: fits_tail_iff)
    with True ok assms show thesis
      by (intro joined [of q pane queued data]) (auto simp: deliver_def Let_def inbox_of_def append_to_tail_last)
  qed
qed

lemma drain_batch_spec:
  "drain_batch taken bytes q = (out, bytes', rest) \<Longrightarrow> taken \<le> 64 \<Longrightarrow> (taken \<noteq> 0 \<longrightarrow> bytes \<le> TERMINAL_DRAIN_BYTES \<or> taken = 1) \<Longrightarrow>
   q = out @ rest \<and> bytes' = bytes + queued_bytes out \<and> taken + length out \<le> 64
   \<and> (bytes' \<le> TERMINAL_DRAIN_BYTES \<or> taken + length out \<le> 1) \<and> (taken = 0 \<and> q \<noteq> [] \<longrightarrow> out \<noteq> [])"
proof (induction taken bytes q arbitrary: out bytes' rest rule: drain_batch.induct)
  case (1 taken bytes)
  then show ?case by (auto simp: TERMINAL_DRAIN_BYTES_def)
next
  case (2 taken bytes m q)
  show ?case
  proof (cases "taken \<ge> TERMINAL_DRAIN_MESSAGES \<or> (taken \<noteq> 0 \<and> bytes + output_bytes m > TERMINAL_DRAIN_BYTES)")
    case True
    with 2(2-4) show ?thesis by (auto simp: TERMINAL_DRAIN_MESSAGES_def split: if_splits)
  next
    case False
    then obtain d where d: "drain_batch (taken + 1) (bytes + output_bytes m) q = (d, bytes', rest)" "out = m # d"
      using 2(2) by (auto split: prod.splits if_splits)
    have "taken + 1 \<le> 64" using False by (simp add: TERMINAL_DRAIN_MESSAGES_def)
    with 2(1) [OF _ _ d(1)] False d(2) show ?thesis by auto
  qed
qed


lemma inbox_of_update: "inbox_of r (s\<lparr>ro_inboxes := set_inbox repo q (ro_inboxes s)\<rparr>) = (if r = repo then q else inbox_of r s)"
  by (simp add: inbox_of_def map_of_set_inbox)

lemma inbox_of_other [simp]:
  "inbox_of r (s\<lparr>ro_bytes := b\<rparr>) = inbox_of r s" "inbox_of r (s\<lparr>ro_messages := n\<rparr>) = inbox_of r s"
  "inbox_of r (s\<lparr>ro_overflowed := v\<rparr>) = inbox_of r s"
  by (simp_all add: inbox_of_def)

lemma filed_sum_inbox:
  "f [] = 0 \<Longrightarrow> filed_sum f (set_inbox repo q (ro_inboxes s)) + f (inbox_of repo s) = filed_sum f (ro_inboxes s) + f q"
  using filed_sum_set_inbox [of f repo q "ro_inboxes s"] by (simp add: inbox_of_def)

lemma deliver_inv:
  assumes "router_inv s" "deliver repo m s = (res, s')"
  shows "router_inv s'"
  using assms(2)
proof (cases rule: deliver_cases)
  case refused
  with assms(1) show ?thesis by (simp add: router_inv_def)
next
  case pushed
  then show ?thesis
    using assms(1) filed_sum_inbox [of queued_bytes repo "inbox_of repo s @ [m]" s] filed_sum_inbox [of length repo "inbox_of repo s @ [m]" s]
    by (simp add: router_inv_def distinct_set_inbox)
next
  case (joined q pane queued data)
  let ?q = "q @ [TmOutput pane (queued @ data)]"
  show ?thesis
    using joined assms(1) filed_sum_inbox [of queued_bytes repo ?q s] filed_sum_inbox [of length repo ?q s]
    by (simp add: router_inv_def distinct_set_inbox)
qed

lemma drain_spec:
  assumes "drain repo s = (out, s')"
  obtains rest where "inbox_of repo s = out @ rest" "length out \<le> 64" "queued_bytes out \<le> TERMINAL_DRAIN_BYTES \<or> length out = 1"
    "inbox_of repo s = [] \<or> out \<noteq> []" "s' = s \<and> rest = [] \<and> out = [] \<or> s' = s\<lparr>ro_inboxes := set_inbox repo rest (ro_inboxes s),
      ro_bytes := ro_bytes s - queued_bytes out, ro_messages := ro_messages s - length out\<rparr>"
proof (cases "map_of (ro_inboxes s) repo")
  case None
  with assms that [of "[]"] show thesis by (simp add: drain_def inbox_of_def)
next
  case (Some q)
  obtain got bytes rest where b: "drain_batch 0 0 q = (got, bytes, rest)" by (metis surj_pair)
  have "(0 :: nat) \<le> 64" "(0 :: nat) \<noteq> 0 \<longrightarrow> (0 :: nat) \<le> TERMINAL_DRAIN_BYTES \<or> (0 :: nat) = 1" by simp_all
  note c = drain_batch_spec [OF b this, unfolded add_0]
  then have s: "q = got @ rest" "bytes = queued_bytes got" "length got \<le> 64" by blast+
  have s4: "bytes \<le> TERMINAL_DRAIN_BYTES \<or> length got \<le> 1" "q \<noteq> [] \<longrightarrow> got \<noteq> []" using c by blast+
  from s(2) s4(1) have "queued_bytes got \<le> TERMINAL_DRAIN_BYTES \<or> length got = 1" by (cases got) simp_all
  moreover have "drain repo s = (got, s\<lparr>ro_inboxes := set_inbox repo rest (ro_inboxes s),
      ro_bytes := ro_bytes s - bytes, ro_messages := ro_messages s - length got\<rparr>)"
    using Some b by (simp add: drain_def)
  moreover have "inbox_of repo s = q" using Some by (simp add: inbox_of_def)
  ultimately show thesis using s s4(2) assms by (intro that [of rest]) (simp_all, blast?)
qed

lemma drain_inv_router:
  assumes "router_inv s" "drain repo s = (out, s')"
  shows "router_inv s'"
  using assms(2)
proof (rule drain_spec)
  fix rest
  assume "inbox_of repo s = out @ rest"
    and "s' = s \<and> rest = [] \<and> out = [] \<or> s' = s\<lparr>ro_inboxes := set_inbox repo rest (ro_inboxes s),
      ro_bytes := ro_bytes s - queued_bytes out, ro_messages := ro_messages s - length out\<rparr>"
  then show ?thesis
    using assms(1) filed_sum_inbox [of queued_bytes repo rest s] filed_sum_inbox [of length repo rest s]
    by (auto simp: router_inv_def distinct_set_inbox)
qed

lemma inbox_of_retain: "inbox_of repo (retain open s) = (if repo \<in> set open then inbox_of repo s else [])"
proof -
  have "map_of (filter (\<lambda>(r, _). r \<in> set open) xs) repo = (if repo \<in> set open then map_of xs repo else None)"
    for xs :: "(rstring \<times> terminal_message list) list"
    by (induction xs) auto
  then show ?thesis by (simp add: inbox_of_def retain_def Let_def)
qed

lemma retain_inv: "router_inv s \<Longrightarrow> router_inv (retain open s)"
proof -
  assume s: "router_inv s"
  have eq: "(\<lambda>(r, _). r \<notin> set open) = (\<lambda>x. \<not> (case x of (r, _) \<Rightarrow> r \<in> set open))" by (simp add: fun_eq_iff split: prod.split)
  have "distinct (map fst (filter P xs))" if "distinct (map fst xs)" for P and xs :: "(rstring \<times> terminal_message list) list"
    using that by (induction xs) auto
  moreover have "(\<lambda>(_, q). sum_list (map output_bytes q)) = (\<lambda>(_ :: rstring, q). queued_bytes q)" by (simp add: queued_bytes_def)
  moreover note filed_sum_split [of queued_bytes "\<lambda>(r, _). r \<in> set open" "ro_inboxes s"] filed_sum_split [of length "\<lambda>(r, _). r \<in> set open" "ro_inboxes s"]
  ultimately show ?thesis using s
    by (simp add: router_inv_def retain_def Let_def eq flip: filed_sum_def) arith
qed

datatype router_event = Deliver rstring terminal_message | Drain rstring | Retain "rstring list"

fun router_step :: "router \<Rightarrow> router_event \<Rightarrow> router" where
  "router_step s (Deliver repo m) = snd (deliver repo m s)"
| "router_step s (Drain repo) = snd (drain repo s)"
| "router_step s (Retain open) = retain open s"

definition router_ok :: "router \<Rightarrow> bool" where
  "router_ok s \<longleftrightarrow> router_inv s \<and> ro_byte_limit s = 256 * 1024 * 1024 \<and> ro_message_limit s = 4096"

lemma deliver_limits: "ro_byte_limit (snd (deliver repo m s)) = ro_byte_limit s \<and> ro_message_limit (snd (deliver repo m s)) = ro_message_limit s"
  by (simp add: deliver_def Let_def)

lemma drain_limits: "ro_byte_limit (snd (drain repo s)) = ro_byte_limit s \<and> ro_message_limit (snd (drain repo s)) = ro_message_limit s"
  by (simp add: drain_def Let_def case_prod_beta split: option.split)

lemma router_step_ok: "router_ok s \<Longrightarrow> router_ok (router_step s e)"
proof (cases e)
  case (Deliver repo m)
  then show "router_ok s \<Longrightarrow> router_ok (router_step s e)"
    using deliver_inv [of s repo m] deliver_limits [of repo m s] by (cases "deliver repo m s") (simp add: router_ok_def)
next
  case (Drain repo)
  then show "router_ok s \<Longrightarrow> router_ok (router_step s e)"
    using drain_inv_router [of s repo] drain_limits [of repo s] by (cases "drain repo s") (simp add: router_ok_def)
next
  case (Retain ids)
  then show "router_ok s \<Longrightarrow> router_ok (router_step s e)"
    using retain_inv [of s ids] by (simp add: router_ok_def retain_def Let_def)
qed

interpretation router_machine: event_machine "\<lambda>_ _. True" router_step router_ok
  by unfold_locales (rule router_step_ok)

lemma overflow_sticks: "ro_overflowed s \<Longrightarrow> ro_overflowed (run router_step s es)"
proof (induction es arbitrary: s)
  case (Cons e es)
  have "ro_overflowed (router_step s e)"
    using Cons(2) by (cases e) (simp_all add: deliver_def drain_def retain_def Let_def case_prod_beta split: option.split)
  with Cons(1) show ?case by simp
qed simp

text \<open>
  \<^bold>\<open>C17\<close>. Whatever arrives, is drained or forgotten, in any order, the router's counters are exactly the bytes and messages in its
  inboxes, so no subtraction ever goes below zero, and they stay within 256 MiB and 4096 messages. A drain takes the oldest messages of
  its repository, at most 64 of them and at most 256 KiB unless it is a single larger one, and takes something whenever there is
  something. Once a message was refused no later one is accepted.
\<close>

theorem router_books:
  "let s = run router_step router_new es; (out, s') = drain repo s
   in ro_bytes s = filed_sum queued_bytes (ro_inboxes s) \<and> ro_messages s = filed_sum length (ro_inboxes s)
      \<and> ro_bytes s \<le> 256 * 1024 * 1024 \<and> ro_messages s \<le> 4096
      \<and> inbox_of repo s = out @ inbox_of repo s' \<and> length out \<le> 64 \<and> (queued_bytes out \<le> 256 * 1024 \<or> length out = 1)
      \<and> (out = []) = (inbox_of repo s = [])
      \<and> (fst (deliver repo m s) = Inr ()) = (\<not> ro_overflowed (snd (deliver repo m s)))
      \<and> fst (deliver repo m (run router_step (s\<lparr>ro_overflowed := True\<rparr>) fs)) \<noteq> Inr ()"
proof -
  let ?s = "run router_step router_new es"
  have "router_ok router_new" by (simp add: router_ok_def router_inv_def router_new_def TERMINAL_INBOX_BYTES_def TERMINAL_INBOX_MESSAGES_def)
  then have s: "router_ok ?s" by (rule router_machine.run_inv) simp
  obtain out s' where d: "drain repo ?s = (out, s')" by fastforce
  from d obtain rest where r: "inbox_of repo ?s = out @ rest" "length out \<le> 64" "queued_bytes out \<le> TERMINAL_DRAIN_BYTES \<or> length out = 1"
    "inbox_of repo ?s = [] \<or> out \<noteq> []" "inbox_of repo s' = rest"
    by (rule drain_spec) (auto simp: inbox_of_def map_of_set_inbox)
  have "ro_overflowed (run router_step (?s\<lparr>ro_overflowed := True\<rparr>) fs)" by (rule overflow_sticks) simp
  then have "fst (deliver repo m (run router_step (?s\<lparr>ro_overflowed := True\<rparr>) fs)) \<noteq> Inr ()" by (simp add: deliver_def Let_def)
  moreover have "(fst (deliver repo m ?s) = Inr ()) = (\<not> ro_overflowed (snd (deliver repo m ?s)))"
    by (simp add: deliver_def Let_def)
  moreover have "(out = []) = (inbox_of repo ?s = [])" using r(1,4) by auto
  ultimately show ?thesis using s r(1,2,3,5) d by (simp add: router_ok_def router_inv_def TERMINAL_DRAIN_BYTES_def)
qed

section \<open>What an attached client sees\<close>

text \<open>What \<^verbatim>\<open>serde_json\<close> promises: what was rendered parses to what it was, and the last resort is the JSON of an error.\<close>

definition json_ok :: "(('st, 'lk) daemon_message \<Rightarrow> u8 list option) \<Rightarrow> (u8 list \<Rightarrow> ('st, 'lk) daemon_message option) \<Rightarrow> bool" where
  "json_ok to_vec from_slice \<longleftrightarrow>
     (\<forall>m json. to_vec m = Some json \<longrightarrow> from_slice json = Some m)
     \<and> from_slice LAST_RESORT = Some (DsError (lit ''server message could not be encoded''))"

fun hub_message :: "(rstring \<Rightarrow> server_message option) \<Rightarrow> terminal_frame \<Rightarrow> terminal_message option" where
  "hub_message from_str (Output pane data) = Some (TmOutput pane data)"
| "hub_message from_str (Control json) =
     (case from_str json of
        None \<Rightarrow> None
      | Some event \<Rightarrow> if (case event of SmError _ \<Rightarrow> True | _ \<Rightarrow> False) then None else Some (TmEvent event))"

text \<open>The frames that are about a pane: the others go to the client's own queue, as errors.\<close>

definition for_inbox ::
  "(('st, 'lk) daemon_message \<Rightarrow> u8 list option) \<Rightarrow> (rstring \<Rightarrow> server_message option) \<Rightarrow> rstring \<Rightarrow> u64 \<Rightarrow> u64 \<Rightarrow> terminal_frame \<Rightarrow> bool" where
  "for_inbox to_vec from_str repo hub_client attached f \<longleftrightarrow>
     (case hub_message from_str f of
        None \<Rightarrow> False
      | Some (TmOutput _ _) \<Rightarrow> length (str_bytes repo) \<le> 255
      | Some (TmEvent event) \<Rightarrow> to_vec (DsTerminal repo (rewrite_requester hub_client attached event)) \<noteq> None)"

fun readdress :: "u64 \<Rightarrow> u64 \<Rightarrow> terminal_message \<Rightarrow> terminal_message" where
  "readdress hub_client attached (TmEvent event) = TmEvent (rewrite_requester hub_client attached event)"
| "readdress hub_client attached m = m"

lemma decode_encode_output:
  assumes "list_all is_scalar (to_repo t)" "encode_terminal_output t = Some p"
  shows "decode_terminal_output p = Some t"
proof -
  let ?b = "str_bytes (to_repo t)"
  from assms(2) have p: "p = of_nat (length ?b) # ?b @ to_le_bytes (to_pane t) @ to_data t" "length ?b < 256"
    by (auto simp: encode_terminal_output_def Let_def split: if_splits)
  then have "unat (of_nat (length ?b) :: u8) = length ?b" by (simp add: unat_byte)
  with p(1) assms(1) show ?thesis by (simp add: decode_terminal_output_def)
qed

lemma from_slice_encode_server:
  assumes "json_ok to_vec from_slice"
  shows "from_slice (fr_payload (encode_server to_vec DsError LAST_RESORT m e)) =
    (case to_vec m of Some _ \<Rightarrow> Some m
     | None \<Rightarrow> (case to_vec (DsError e) of Some _ \<Rightarrow> Some (DsError e) | None \<Rightarrow> Some (DsError (lit ''server message could not be encoded''))))"
  using assms by (auto simp: json_ok_def encode_server_def split: option.split)

lemma encode_server_kind [simp]: "fr_kind (encode_server to_vec DsError LAST_RESORT m e) = FkControl"
  by (simp add: encode_server_def)

lemma rewrite_is_error: "(case rewrite_requester c a e of SmError _ \<Rightarrow> True | _ \<Rightarrow> False) = (case e of SmError _ \<Rightarrow> True | _ \<Rightarrow> False)"
  by (cases e) auto

lemma route_error:
  assumes "json_ok to_vec from_slice"
  shows "\<exists>m. route_frame from_slice (encode_server to_vec DsError LAST_RESORT (DsError x) e) s = (Inr (IcControl m), s)"
  using from_slice_encode_server [OF assms, of "DsError x" e]
  by (auto simp: route_frame_def split: option.splits)

lemma route_event:
  assumes "json_ok to_vec from_slice"
  shows "to_vec (DsTerminal repo ev) \<noteq> None \<Longrightarrow> \<not> (case ev of SmError _ \<Rightarrow> True | _ \<Rightarrow> False) \<Longrightarrow>
      route_frame from_slice (encode_server to_vec DsError LAST_RESORT (DsTerminal repo ev) e) s = filed (deliver repo (TmEvent ev) s)"
    "to_vec (DsTerminal repo ev) = None \<or> (case ev of SmError _ \<Rightarrow> True | _ \<Rightarrow> False) \<Longrightarrow>
      \<exists>m. route_frame from_slice (encode_server to_vec DsError LAST_RESORT (DsTerminal repo ev) e) s = (Inr (IcControl m), s)"
  using from_slice_encode_server [OF assms, of "DsTerminal repo ev" e]
  by (auto simp: route_frame_def split: option.splits)

lemma route_tag:
  assumes j: "json_ok to_vec from_slice" and r: "list_all is_scalar repo"
  shows "\<exists>m. route_frame from_slice (tag to_vec from_str repo hub_client attached f) s =
    (if for_inbox to_vec from_str repo hub_client attached f
     then filed (deliver repo (readdress hub_client attached (the (hub_message from_str f))) s)
     else (Inr (IcControl m), s))"
proof (cases f)
  case (Output pane data)
  let ?t = "\<lparr>to_repo = repo, to_pane = pane, to_data = data\<rparr>"
  show ?thesis
  proof (cases "encode_terminal_output ?t")
    case None
    then have "\<not> length (str_bytes repo) \<le> 255" by (auto simp: encode_terminal_output_def Let_def split: if_splits)
    with Output None show ?thesis using route_error [OF j] by (simp add: for_inbox_def)
  next
    case (Some p)
    then have "length (str_bytes repo) \<le> 255" by (auto simp: encode_terminal_output_def Let_def split: if_splits)
    with Output Some decode_encode_output [of ?t p] r show ?thesis by (simp add: for_inbox_def route_frame_def)
  qed
next
  case (Control json)
  show ?thesis
  proof (cases "from_str json")
    case None
    with Control show ?thesis using route_error [OF j] by (simp add: for_inbox_def)
  next
    case (Some event)
    let ?ev = "rewrite_requester hub_client attached event"
    show ?thesis
    proof (cases "to_vec (DsTerminal repo ?ev) = None \<or> (case ?ev of SmError _ \<Rightarrow> True | _ \<Rightarrow> False)")
      case True
      then have "\<not> for_inbox to_vec from_str repo hub_client attached f"
        using Control Some by (auto simp: for_inbox_def rewrite_is_error)
      with True Control Some show ?thesis using route_event(2) [OF j True] by simp
    next
      case False
      then have "for_inbox to_vec from_str repo hub_client attached f" "the (hub_message from_str f) = TmEvent event"
        using Control Some by (auto simp: for_inbox_def rewrite_is_error)
      with False Control Some show ?thesis using route_event(1) [OF j] by simp
    qed
  qed
qed


text \<open>
  The client over one connection: the reading thread relays until the first error, every repository's backend drains on its tick, and
  a set of open repositories drops the tabs of the others. \<open>at_frames\<close> records what the hub of each open repository has sent for
  its panes.
\<close>

record attach =
  at_router :: router
  at_ended :: bool
  at_replaying :: "rstring \<Rightarrow> bool"
  at_events :: "rstring \<Rightarrow> backend_event list"
  at_sent :: "rstring \<Rightarrow> client_message list"
  at_frames :: "rstring \<Rightarrow> terminal_frame list"

definition attach_new :: attach where
  "attach_new = \<lparr>at_router = router_new, at_ended = False, at_replaying = (\<lambda>_. True), at_events = (\<lambda>_. []), at_sent = (\<lambda>_. []),
     at_frames = (\<lambda>_. [])\<rparr>"

datatype attach_event = Relayed rstring terminal_frame | Tick rstring | Kept "rstring list"

fun attach_step ::
  "(('st, 'lk) daemon_message \<Rightarrow> u8 list option) \<Rightarrow> (rstring \<Rightarrow> server_message option) \<Rightarrow> (u8 list \<Rightarrow> ('st, 'lk) daemon_message option)
    \<Rightarrow> (rstring \<Rightarrow> u64) \<Rightarrow> u64 \<Rightarrow> attach \<Rightarrow> attach_event \<Rightarrow> attach" where
  "attach_step to_vec from_str from_slice hub_client attached a (Relayed repo f) =
     (if at_ended a then a
      else case route_frame from_slice (tag to_vec from_str repo (hub_client repo) attached f) (at_router a) of
             (Inl _, s) \<Rightarrow> a\<lparr>at_router := s, at_ended := True\<rparr>
           | (Inr _, s) \<Rightarrow>
               a\<lparr>at_router := s,
                 at_frames := (if for_inbox to_vec from_str repo (hub_client repo) attached f
                               then (at_frames a)(repo := at_frames a repo @ [f]) else at_frames a)\<rparr>)"
| "attach_step to_vec from_str from_slice hub_client attached a (Tick repo) =
     (let (ms, s) = drain repo (at_router a);
          (replaying, es, sent) = inbox_events attached (at_replaying a repo) ms
      in a\<lparr>at_router := s, at_replaying := (at_replaying a)(repo := replaying),
           at_events := (at_events a)(repo := at_events a repo @ es), at_sent := (at_sent a)(repo := at_sent a repo @ sent)\<rparr>)"
| "attach_step to_vec from_str from_slice hub_client attached a (Kept ids) =
     a\<lparr>at_router := retain ids (at_router a), at_replaying := (\<lambda>r. if r \<in> set ids then at_replaying a r else True),
       at_events := (\<lambda>r. if r \<in> set ids then at_events a r else []), at_sent := (\<lambda>r. if r \<in> set ids then at_sent a r else []),
       at_frames := (\<lambda>r. if r \<in> set ids then at_frames a r else [])\<rparr>"

datatype sight = SeenByte bool pane_id u8 | SeenEvent backend_event

fun event_seen :: "backend_event \<Rightarrow> sight list" where
  "event_seen (BeOutput pane data) = map (SeenByte False pane) data"
| "event_seen (BeReplayOutput pane data) = map (SeenByte True pane) data"
| "event_seen e = [SeenEvent e]"

definition look :: "u64 \<Rightarrow> bool \<Rightarrow> terminal_message list \<Rightarrow> bool \<times> sight list" where
  "look client replaying ms =
     (let (replaying, es, _) = inbox_events client replaying ms in (replaying, concat (map event_seen es)))"

lemma look_Nil [simp]: "look c rep [] = (rep, [])"
  by (simp add: look_def)

lemma look_Cons:
  "look c rep (m # ms) = (let (rep, es, _) = inbox_event c rep m; (rep, v) = look c rep ms in (rep, concat (map event_seen es) @ v))"
  by (simp add: look_def case_prod_beta Let_def)

lemma look_append: "look c rep (xs @ ys) = (let (rep, v) = look c rep xs; (rep, w) = look c rep ys in (rep, v @ w))"
  by (induction xs arbitrary: rep) (simp_all add: look_Cons case_prod_beta Let_def)

lemma look_join: "look c rep (q @ [TmOutput p (x @ y)]) = look c rep ((q @ [TmOutput p x]) @ [TmOutput p y])"
  by (simp add: look_append look_Cons case_prod_beta Let_def)

lemma look_readdress: "look attached rep [readdress hub_client attached m] = look hub_client rep [m]"
proof (cases m)
  case (TmEvent event)
  then show ?thesis by (cases event) (auto simp: look_Cons)
qed (simp add: look_Cons)

lemma look_delivered:
  assumes "deliver repo m s = (Inr (), s')"
  shows "look c rep (inbox_of r s') = look c rep (if r = repo then inbox_of repo s @ [m] else inbox_of r s)"
  using assms
proof (cases rule: deliver_cases)
  case pushed
  then show ?thesis by (simp add: inbox_of_def map_of_set_inbox)
next
  case (joined q pane queued data)
  then have "inbox_of r s' = (if r = repo then q @ [TmOutput pane (queued @ data)] else inbox_of r s)"
    by (simp add: inbox_of_def map_of_set_inbox)
  with joined show ?thesis using look_join [of c rep q pane queued data] by simp
qed simp_all

definition session_look :: "(rstring \<Rightarrow> server_message option) \<Rightarrow> u64 \<Rightarrow> terminal_frame list \<Rightarrow> bool \<times> sight list" where
  "session_look from_str hub_client fs = look hub_client True (List.map_filter (hub_message from_str) fs)"

definition sees_session :: "(rstring \<Rightarrow> server_message option) \<Rightarrow> (rstring \<Rightarrow> u64) \<Rightarrow> u64 \<Rightarrow> attach \<Rightarrow> rstring \<Rightarrow> bool" where
  "sees_session from_str hub_client attached a r \<longleftrightarrow>
     session_look from_str (hub_client r) (at_frames a r) =
     (let (rep, v) = look attached (at_replaying a r) (inbox_of r (at_router a)) in (rep, concat (map event_seen (at_events a r)) @ v))"

lemma map_filter_snoc: "List.map_filter f (xs @ [x]) = List.map_filter f xs @ (case f x of None \<Rightarrow> [] | Some y \<Rightarrow> [y])"
  by (simp add: List.map_filter_def split: option.split)

lemma relayed_sees:
  assumes j: "json_ok to_vec from_slice" and r: "list_all is_scalar repo" and i: "\<And>r. sees_session from_str hub_client attached a r"
  shows "sees_session from_str hub_client attached (attach_step to_vec from_str from_slice hub_client attached a (Relayed repo f)) x"
proof (cases "at_ended a")
  case True
  with i show ?thesis by simp
next
  case False
  let ?fi = "for_inbox to_vec from_str repo (hub_client repo) attached f" and ?s = "at_router a"
  obtain m0 where rt: "route_frame from_slice (tag to_vec from_str repo (hub_client repo) attached f) ?s =
    (if ?fi then filed (deliver repo (readdress (hub_client repo) attached (the (hub_message from_str f))) ?s) else (Inr (IcControl m0), ?s))"
    using route_tag [OF j r] by meson
  show ?thesis
  proof (cases ?fi)
    case no: False
    with rt False i [of x] show ?thesis by (simp add: sees_session_def)
  next
    case yes: True
    then obtain m where m: "hub_message from_str f = Some m" by (auto simp: for_inbox_def split: option.splits)
    let ?m = "readdress (hub_client repo) attached m"
    obtain res s' where d: "deliver repo ?m ?s = (res, s')" by fastforce
    show ?thesis
    proof (cases res)
      case (Inl e)
      then have "s' = ?s\<lparr>ro_overflowed := True\<rparr>" using d by (auto elim!: deliver_cases)
      with rt yes m d Inl False i [of x] show ?thesis by (simp add: filed_def sees_session_def)
    next
      case (Inr u)
      have "deliver repo ?m ?s = (Inr (), s')" using d Inr by simp
      note l = look_delivered [OF this, of attached]
      from i [of x] have ix: "session_look from_str (hub_client x) (at_frames a x) =
        (let (rep, v) = look attached (at_replaying a x) (inbox_of x ?s) in (rep, concat (map event_seen (at_events a x)) @ v))"
        by (simp add: sees_session_def)
      have st: "attach_step to_vec from_str from_slice hub_client attached a (Relayed repo f) =
        a\<lparr>at_router := s', at_frames := (at_frames a)(repo := at_frames a repo @ [f])\<rparr>"
        using rt yes m d Inr False by (simp add: filed_def)
      show ?thesis
      proof (cases "x = repo")
        case True
        have "session_look from_str (hub_client x) (at_frames a x @ [f]) =
          (let (rep, v) = session_look from_str (hub_client x) (at_frames a x); (rep, w) = look (hub_client x) rep [m] in (rep, v @ w))"
          by (simp add: session_look_def map_filter_snoc m look_append)
        then show ?thesis unfolding sees_session_def st
          by (simp add: l True look_append ix [unfolded True] look_readdress case_prod_beta Let_def)
      next
        case other: False
        with ix show ?thesis unfolding sees_session_def st by (simp add: l)
      qed
    qed
  qed
qed

lemma tick_sees:
  assumes "\<And>r. sees_session from_str hub_client attached a r"
  shows "sees_session from_str hub_client attached (attach_step to_vec from_str from_slice hub_client attached a (Tick repo)) x"
proof -
  obtain ms s where d: "drain repo (at_router a) = (ms, s)" by fastforce
  obtain rest where rest: "inbox_of repo (at_router a) = ms @ rest" "inbox_of repo s = rest" "x \<noteq> repo \<Longrightarrow> inbox_of x s = inbox_of x (at_router a)"
    by (rule drain_spec [OF d]) (auto simp: inbox_of_def map_of_set_inbox)
  obtain rep es sent where e: "inbox_events attached (at_replaying a repo) ms = (rep, es, sent)" by (metis surj_pair)
  then have l: "look attached (at_replaying a repo) ms = (rep, concat (map event_seen es))" by (simp add: look_def)
  show ?thesis
  proof (cases "x = repo")
    case True
    from assms [of repo] show ?thesis
      by (simp add: True sees_session_def d e rest look_append l case_prod_beta Let_def)
  next
    case False
    with assms [of x] rest(3) show ?thesis by (simp add: sees_session_def d e)
  qed
qed

lemma kept_sees:
  assumes "\<And>r. sees_session from_str hub_client attached a r"
  shows "sees_session from_str hub_client attached (attach_step to_vec from_str from_slice hub_client attached a (Kept ids)) x"
  using assms [of x] by (simp add: sees_session_def inbox_of_retain session_look_def map_filter_simps)

fun named_in_text :: "attach_event \<Rightarrow> bool" where
  "named_in_text (Relayed repo f) = list_all is_scalar repo"
| "named_in_text _ = True"

interpretation attach_machine: event_machine
  "\<lambda>_ e. json_ok to_vec from_slice \<and> named_in_text e" "attach_step to_vec from_str from_slice hub_client attached"
  "\<lambda>a. \<forall>r. sees_session from_str hub_client attached a r"
  for to_vec :: "('st, 'lk) daemon_message \<Rightarrow> u8 list option" and from_str from_slice hub_client attached
proof
  fix a e
  assume "\<forall>r. sees_session from_str hub_client attached a r" "json_ok to_vec from_slice \<and> named_in_text e"
  then show "\<forall>r. sees_session from_str hub_client attached (attach_step to_vec from_str from_slice hub_client attached a e) r"
    by (cases e) (simp_all del: attach_step.simps add: relayed_sees tick_sees kept_sees)
qed


lemma run_ok_list_all: "run_ok (\<lambda>_ e. P \<and> Q e) f a es" if "P" "list_all Q es"
  using that(2) by (induction es arbitrary: a) (simp_all add: that(1))

text \<open>
  \<^bold>\<open>C6\<close>. An attached client sees of a repository's panes exactly what a client directly on the hub would: whatever was relayed
  for the repository in whatever interleaving with other repositories, and however the inbox coalesced and the ticks cut it, the
  events of its backend together with those its inbox still holds show the same bytes, the same pane events, the same replay marks
  and the same answer to who asked for a pane, in the hub's order, nothing lost and nothing twice.
\<close>

theorem attached_client_sees_session:
  assumes "json_ok to_vec from_slice" "list_all named_in_text es"
  shows "let a = run (attach_step to_vec from_str from_slice hub_client attached) attach_new es;
             (_, pending, _) = inbox_events attached (at_replaying a repo) (inbox_of repo (at_router a));
             (_, direct, _) = inbox_events (hub_client repo) True (List.map_filter (hub_message from_str) (at_frames a repo))
         in concat (map event_seen (at_events a repo @ pending)) = concat (map event_seen direct)"
proof -
  let ?a = "run (attach_step to_vec from_str from_slice hub_client attached) attach_new es"
  have "\<forall>r. sees_session from_str hub_client attached attach_new r"
    by (simp add: sees_session_def attach_new_def inbox_of_def router_new_def session_look_def map_filter_simps)
  then have "\<forall>r. sees_session from_str hub_client attached ?a r"
    by (rule attach_machine.run_inv [OF _ run_ok_list_all [OF assms]])
  then have "sees_session from_str hub_client attached ?a repo" by blast
  then show ?thesis by (simp add: sees_session_def session_look_def look_def case_prod_beta Let_def)
qed

definition toy_vec :: "(unit, unit) daemon_message \<Rightarrow> u8 list option" where
  "toy_vec m =
     (if m = DsTerminal (lit ''r1'') (SmCreated 1 24 80 (Some 9) None) then Some [1]
      else if m = DsTerminal (lit ''r1'') SmReplayComplete then Some [2] else None)"

definition toy_slice :: "u8 list \<Rightarrow> (unit, unit) daemon_message option" where
  "toy_slice bs =
     (if bs = [1] then Some (DsTerminal (lit ''r1'') (SmCreated 1 24 80 (Some 9) None))
      else if bs = [2] then Some (DsTerminal (lit ''r1'') SmReplayComplete)
      else if bs = LAST_RESORT then Some (DsError (lit ''server message could not be encoded'')) else None)"

definition toy_hub_json :: "rstring \<Rightarrow> server_message option" where
  "toy_hub_json s =
     (if s = lit ''c'' then Some (SmCreated 1 24 80 (Some 5) None) else if s = lit ''d'' then Some SmReplayComplete else None)"

definition toy_relay :: "attach_event list" where
  "toy_relay = [Relayed (lit ''r1'') (Control (lit ''c'')), Relayed (lit ''r1'') (Output 1 [65]), Relayed (lit ''r2'') (Output 7 [1]),
     Relayed (lit ''r1'') (Control (lit ''d'')), Tick (lit ''r1''), Relayed (lit ''r1'') (Output 1 [66]), Relayed (lit ''r1'') (Output 1 [67]),
     Tick (lit ''r1'')]"

lemma last_resort_text: "LAST_RESORT \<noteq> [1]" "LAST_RESORT \<noteq> [2]"
  by (simp_all add: LAST_RESORT_def utf8_bytes_def)

lemma toy_json_ok: "json_ok toy_vec toy_slice"
  by (auto simp: json_ok_def toy_vec_def toy_slice_def last_resort_text split: if_splits)

lemma attached_client_sees_session_witness:
  "json_ok toy_vec toy_slice \<and> list_all named_in_text toy_relay
   \<and> (let a = run (attach_step toy_vec toy_hub_json toy_slice (\<lambda>_. 5) 9) attach_new toy_relay;
          (_, pending, _) = inbox_events 9 (at_replaying a (lit ''r1'')) (inbox_of (lit ''r1'') (at_router a));
          (_, direct, _) = inbox_events 5 True (List.map_filter (hub_message toy_hub_json) (at_frames a (lit ''r1'')))
      in concat (map event_seen (at_events a (lit ''r1'') @ pending)) = concat (map event_seen direct))"
proof -
  have n: "list_all named_in_text toy_relay" by (simp add: toy_relay_def is_scalar_def)
  show ?thesis using attached_client_sees_session [OF toy_json_ok n, of toy_hub_json "\<lambda>_. 5" 9 "lit ''r1''"] toy_json_ok n by simp
qed

end
