(* ===== verification/Key_Input.thy ===== *)
theory Key_Input
  imports Terminal_Link Pane_Identity
begin

text \<open>
  Keys and the mouse of the terminal client: the bytes a pane is sent, \<^verbatim>\<open>src/input/encode.rs\<close>, and the keys the client keeps for
  itself, \<^verbatim>\<open>src/input/routing.rs\<close>. The key event is \<^verbatim>\<open>crossterm\<close>'s; \<open>KcOther\<close> stands for the codes the source does not name.
\<close>

record key_modifiers =
  km_shift :: bool
  km_control :: bool
  km_alt :: bool
  km_super :: bool
  km_hyper :: bool
  km_meta :: bool

definition no_modifiers :: key_modifiers where
  "no_modifiers = \<lparr>km_shift = False, km_control = False, km_alt = False, km_super = False, km_hyper = False, km_meta = False\<rparr>"

datatype key_code =
    KcChar rchar
  | KcEnter | KcBackspace | KcDelete | KcEsc | KcTab | KcBackTab
  | KcUp | KcDown | KcRight | KcLeft | KcHome | KcEnd | KcPageUp | KcPageDown
  | KcF nat
  | KcOther

record key_event =
  ke_code :: key_code
  ke_modifiers :: key_modifiers

datatype mouse_button = MbLeft | MbMiddle | MbRight

section \<open>Bytes for a pane\<close>

definition xterm_modifier_param :: "key_modifiers \<Rightarrow> nat option" where
  "xterm_modifier_param m =
     (let bits = (if km_shift m then 1 else 0) + (if km_alt m then 2 else 0) + (if km_control m then 4 else 0)
               + (if km_super m \<or> km_hyper m \<or> km_meta m then 8 else 0)
      in if bits \<noteq> 0 then Some (bits + 1) else None)"

text \<open>\<^verbatim>\<open>ESC [\<close> and what follows, as text; every byte is ASCII.\<close>

definition csi_cursor :: "rchar \<Rightarrow> key_modifiers \<Rightarrow> rstring" where
  "csi_cursor final_byte m =
     (case xterm_modifier_param m of
        Some p \<Rightarrow> 27 # lit ''[1;'' @ dec_str p @ [final_byte]
      | None \<Rightarrow> [27, 91, final_byte])"

definition cursor_arrow :: "rchar \<Rightarrow> key_modifiers \<Rightarrow> bool \<Rightarrow> rstring" where
  "cursor_arrow final_byte m app_cursor =
     (if m = no_modifiers \<and> app_cursor then [27, 79, final_byte] else csi_cursor final_byte m)"

definition csi_tilde :: "nat \<Rightarrow> key_modifiers \<Rightarrow> rstring" where
  "csi_tilde n m =
     (case xterm_modifier_param m of
        Some p \<Rightarrow> 27 # lit ''['' @ dec_str n @ lit '';'' @ dec_str p @ lit ''~''
      | None \<Rightarrow> 27 # lit ''['' @ dec_str n @ lit ''~'')"

definition encode_function_key :: "nat \<Rightarrow> key_modifiers \<Rightarrow> rstring option" where
  "encode_function_key n m =
     (if 1 \<le> n \<and> n \<le> 4 then
        let final_byte = lit ''PQRS'' ! (n - 1)
        in Some (case xterm_modifier_param m of
                   Some p \<Rightarrow> 27 # lit ''[1;'' @ dec_str p @ [final_byte]
                 | None \<Rightarrow> [27, 79, final_byte])
      else if 5 \<le> n \<and> n \<le> 12 then Some (csi_tilde ([15, 17, 18, 19, 20, 21, 23, 24] ! (n - 5)) m)
      else None)"

definition to_ascii_uppercase :: "rchar \<Rightarrow> rchar" where
  "to_ascii_uppercase c = (if 97 \<le> c \<and> c \<le> 122 then c - 32 else c)"

definition control_byte :: "rchar \<Rightarrow> u8 option" where
  "control_byte c =
     (if c = 32 then Some 0
      else if c = 47 then Some 31
      else if c = 63 then Some 127
      else let v = (of_nat (to_ascii_uppercase c) :: u8) - 64 in if v < 32 then Some v else None)"

definition encode_char :: "rchar \<Rightarrow> bool \<Rightarrow> bool \<Rightarrow> u8 list" where
  "encode_char c ctrl alt =
     (case (if ctrl \<and> c < 128 then control_byte c else None) of
        Some b \<Rightarrow> if alt then [27, b] else [b]
      | None \<Rightarrow> if alt then 27 # utf8_bytes c else utf8_bytes c)"

definition encode_key :: "key_event \<Rightarrow> bool \<Rightarrow> u8 list option" where
  "encode_key key app_cursor =
     (let m = ke_modifiers key
      in case ke_code key of
           KcChar c \<Rightarrow> Some (encode_char c (km_control m) (km_alt m))
         | KcEnter \<Rightarrow> (let byte = (if km_control m then 10 else 13) in Some (if km_alt m then [27, byte] else [byte]))
         | KcBackspace \<Rightarrow> Some [0x7f]
         | KcDelete \<Rightarrow> Some (str_bytes (csi_tilde 3 m))
         | KcEsc \<Rightarrow> Some [27]
         | KcTab \<Rightarrow> Some [9]
         | KcBackTab \<Rightarrow> Some [27, 91, 90]
         | KcUp \<Rightarrow> Some (str_bytes (cursor_arrow 65 m app_cursor))
         | KcDown \<Rightarrow> Some (str_bytes (cursor_arrow 66 m app_cursor))
         | KcRight \<Rightarrow> Some (str_bytes (cursor_arrow 67 m app_cursor))
         | KcLeft \<Rightarrow> Some (str_bytes (cursor_arrow 68 m app_cursor))
         | KcHome \<Rightarrow> Some (str_bytes (csi_cursor 72 m))
         | KcEnd \<Rightarrow> Some (str_bytes (csi_cursor 70 m))
         | KcPageUp \<Rightarrow> Some (str_bytes (csi_tilde 5 m))
         | KcPageDown \<Rightarrow> Some (str_bytes (csi_tilde 6 m))
         | KcF n \<Rightarrow> map_option str_bytes (encode_function_key n m)
         | KcOther \<Rightarrow> None)"

definition SGR_WHEEL_UP :: nat where
  "SGR_WHEEL_UP = 64"

definition sgr_report :: "nat \<Rightarrow> u16 \<Rightarrow> u16 \<Rightarrow> rchar \<Rightarrow> u8 list" where
  "sgr_report code col row final_byte =
     str_bytes (27 # lit ''[<'' @ dec_str code @ lit '';'' @ dec_str (unat (max col 1)) @ lit '';'' @ dec_str (unat (max row 1)) @ [final_byte])"

definition encode_wheel :: "bool \<Rightarrow> u16 \<Rightarrow> u16 \<Rightarrow> u8 list" where
  "encode_wheel up col row = sgr_report (if up then SGR_WHEEL_UP else SGR_WHEEL_UP + 1) col row 77"

definition encode_wheel_horizontal :: "bool \<Rightarrow> u16 \<Rightarrow> u16 \<Rightarrow> u8 list" where
  "encode_wheel_horizontal left col row = sgr_report (if left then SGR_WHEEL_UP + 2 else SGR_WHEEL_UP + 3) col row 77"

definition encode_button :: "mouse_button \<Rightarrow> bool \<Rightarrow> u16 \<Rightarrow> u16 \<Rightarrow> u8 list" where
  "encode_button button press col row =
     sgr_report (case button of MbLeft \<Rightarrow> 0 | MbMiddle \<Rightarrow> 1 | MbRight \<Rightarrow> 2) col row (if press then 77 else 109)"

definition encode_arrow :: "bool \<Rightarrow> bool \<Rightarrow> u8 list" where
  "encode_arrow up app_cursor = str_bytes (cursor_arrow (if up then 65 else 66) no_modifiers app_cursor)"

section \<open>Keys of the client\<close>

datatype action =
    ActQuit | ActUp | ActDown | ActPageUp | ActPageDown | ActNewPane | ActClosePane | ActToggleFullscreen
  | ActSwitchPane nat
  | ActClaimPaneSizing | ActCancelRecovery | ActSwapPanePrompt
  | ActSwitchProject nat
  | ActPrevProject | ActNextProject | ActMoveProjectPrev | ActMoveProjectNext | ActToggleHelp | ActOpenProject | ActCloseProject
  | ActFocusList | ActFocusDiff | ActCycleForward | ActCycleBackward | ActTermScrollUp | ActTermScrollDown | ActTermScrollLineUp
  | ActTermScrollLineDown | ActToggleLogView | ActToggleTreeView | ActCycleTheme | ActReloadConfig | ActRedraw | ActNone

definition map_key :: "key_event \<Rightarrow> action" where
  "map_key e =
     (let shift_only = (ke_modifiers e = no_modifiers\<lparr>km_shift := True\<rparr>);
          ctrl_shift = (ke_modifiers e = no_modifiers\<lparr>km_control := True, km_shift := True\<rparr>);
          no_mods = (ke_modifiers e = no_modifiers)
      in case ke_code e of
           KcLeft \<Rightarrow> if shift_only then ActCycleBackward else if ctrl_shift then ActPrevProject else ActNone
         | KcRight \<Rightarrow> if shift_only then ActCycleForward else if ctrl_shift then ActNextProject else ActNone
         | KcUp \<Rightarrow> if shift_only then ActTermScrollLineUp else if no_mods then ActUp else ActNone
         | KcDown \<Rightarrow> if shift_only then ActTermScrollLineDown else if no_mods then ActDown else ActNone
         | KcPageUp \<Rightarrow> if shift_only then ActTermScrollUp else if no_mods then ActPageUp else ActNone
         | KcPageDown \<Rightarrow> if shift_only then ActTermScrollDown else if no_mods then ActPageDown else ActNone
         | KcF n \<Rightarrow> if 1 \<le> n \<and> n \<le> 10 \<and> no_mods then ActSwitchProject (n - 1) else ActNone
         | _ \<Rightarrow> ActNone)"

definition prefix_action :: "key_event \<Rightarrow> action" where
  "prefix_action e =
     (case ke_code e of
        KcChar c0 \<Rightarrow>
          let c = to_ascii_lowercase c0
          in if c = of_char CHR ''t'' then ActNewPane
             else if c = of_char CHR ''w'' then ActClosePane
             else if c = of_char CHR ''l'' then ActToggleLogView
             else if c = of_char CHR ''b'' then ActToggleTreeView
             else if c = of_char CHR ''f'' then ActToggleFullscreen
             else if c = of_char CHR ''s'' then ActSwapPanePrompt
             else if c = of_char CHR ''z'' then ActClaimPaneSizing
             else if c = of_char CHR ''c'' then ActCancelRecovery
             else if c = of_char CHR ''o'' then ActOpenProject
             else if c = of_char CHR ''x'' then ActCloseProject
             else if c = of_char CHR ''['' then ActMoveProjectPrev
             else if c = of_char CHR '']'' then ActMoveProjectNext
             else if c = of_char CHR ''p'' then ActCycleTheme
             else if c = of_char CHR ''u'' then ActReloadConfig
             else if c = of_char CHR ''r'' then ActRedraw
             else if c = of_char CHR ''q'' then ActQuit
             else if c = of_char CHR ''?'' \<or> c = of_char CHR ''h'' then ActToggleHelp
             else if c = of_char CHR ''1'' then ActFocusList
             else if c = of_char CHR ''2'' then ActFocusDiff
             else if 51 \<le> c \<and> c \<le> 57 then ActSwitchPane (c - 51)
             else if c = of_char CHR ''0'' then ActSwitchPane 7
             else ActNone
      | _ \<Rightarrow> ActNone)"

definition prefix_action_fullscreen :: "key_event \<Rightarrow> action" where
  "prefix_action_fullscreen e =
     (case ke_code e of
        KcChar c \<Rightarrow>
          if 48 \<le> c \<and> c \<le> 57 then (if 49 \<le> c \<and> c \<le> 56 then ActSwitchPane (c - 49) else ActNone)
          else prefix_action e
      | _ \<Rightarrow> prefix_action e)"

definition vim_navigation_action :: "key_event \<Rightarrow> action option" where
  "vim_navigation_action e =
     (if ke_modifiers e \<noteq> no_modifiers then None
      else case ke_code e of
             KcChar c \<Rightarrow> if c = of_char CHR ''k'' then Some ActUp else if c = of_char CHR ''j'' then Some ActDown else None
           | _ \<Rightarrow> None)"

section \<open>What is typed reaches the pane as text\<close>

lemma dec_str_scalar: "list_all is_scalar (dec_str n)"
  using dec_str_digits [of n] by (auto simp: list_all_iff is_digit_def is_scalar_def)

lemma csi_scalar:
  "c < 128 \<Longrightarrow> list_all is_scalar (csi_cursor c m)" "c < 128 \<Longrightarrow> list_all is_scalar (cursor_arrow c m app)"
  "list_all is_scalar (csi_tilde n m)"
  by (auto simp: csi_cursor_def cursor_arrow_def csi_tilde_def is_scalar_def dec_str_scalar split: option.split)

lemma function_key_scalar: "encode_function_key n m = Some s \<Longrightarrow> list_all is_scalar s"
proof -
  have "lit ''PQRS'' ! (n - 1) < 128" if "1 \<le> n" "n \<le> 4"
  proof -
    from that consider "n = 1" | "n = 2" | "n = 3" | "n = 4" by linarith
    then show ?thesis by cases simp_all
  qed
  then show "encode_function_key n m = Some s \<Longrightarrow> list_all is_scalar s"
    by (auto simp: encode_function_key_def Let_def csi_scalar is_scalar_def dec_str_scalar split: if_splits option.splits)
qed

text \<open>Bytes that are a string's.\<close>

definition is_text :: "u8 list \<Rightarrow> bool" where
  "is_text bs \<longleftrightarrow> (\<exists>s. list_all is_scalar s \<and> bs = str_bytes s)"

lemma is_text_str [simp]: "list_all is_scalar s \<Longrightarrow> is_text (str_bytes s)"
  by (auto simp: is_text_def)

lemma is_text_byte: "b < 128 \<Longrightarrow> is_text [b]" for b :: u8
proof -
  assume "b < 128"
  then have "unat b < 128" by (simp add: word_less_nat_alt)
  then show "is_text [b]" unfolding is_text_def by (intro exI [of _ "[unat b]"]) (simp add: utf8_bytes_def is_scalar_def)
qed

lemma is_text_append: "is_text a \<Longrightarrow> is_text b \<Longrightarrow> is_text (a @ b)"
proof -
  assume "is_text a" "is_text b"
  then obtain s t where "list_all is_scalar s" "a = str_bytes s" "list_all is_scalar t" "b = str_bytes t" by (auto simp: is_text_def)
  then show "is_text (a @ b)" unfolding is_text_def by (intro exI [of _ "s @ t"]) (simp add: str_bytes_def)
qed

lemma control_byte_small: "control_byte c = Some b \<Longrightarrow> b < 128"
  by (auto simp: control_byte_def Let_def split: if_splits intro: less_trans)

lemma encode_char_text: "is_scalar c \<Longrightarrow> is_text (encode_char c ctrl alt)"
proof -
  assume c: "is_scalar c"
  then have u: "is_text (utf8_bytes c)" using is_text_str [of "[c]"] by simp
  have e: "is_text [27 :: u8]" by (rule is_text_byte) simp
  have "is_text (27 # bs)" if "is_text bs" for bs using is_text_append [OF e that] by simp
  with u show ?thesis
    by (auto simp: encode_char_def is_text_byte control_byte_small split: option.split if_splits)
qed

definition event_is_text :: "key_event \<Rightarrow> bool" where
  "event_is_text e \<longleftrightarrow> (case ke_code e of KcChar c \<Rightarrow> is_scalar c | _ \<Rightarrow> True)"

lemma encode_key_text:
  assumes "event_is_text e" "encode_key e app = Some bs"
  shows "is_text bs"
proof -
  have small: "is_text [b]" if "b < 128" for b :: u8 using that by (rule is_text_byte)
  have pair: "is_text [27, b]" if "b < 128" for b :: u8
    using is_text_append [OF small [of 27] small [OF that]] by simp
  have tab: "is_text [27, 91, 90 :: u8]" using is_text_append [OF small [of 27] is_text_append [OF small [of 91] small [of 90]]] by simp
  show ?thesis
    using assms small pair tab
    by (cases "ke_code e")
       (auto simp: encode_key_def event_is_text_def Let_def encode_char_text csi_scalar dest: function_key_scalar)
qed

lemma sgr_text: "c < 128 \<Longrightarrow> is_text (sgr_report code col row c)"
  unfolding sgr_report_def by (rule is_text_str) (simp add: is_scalar_def dec_str_scalar)

lemma text_sent: "is_text bs \<Longrightarrow> \<exists>s. hub_send_input pane bs = Inr (CmInput pane s) \<and> str_bytes s = bs"
  by (auto simp: is_text_def hub_send_input_def)

text \<open>
  \<^bold>\<open>C40\<close>. Whatever is typed into or clicked on a pane of a session reaches it: every key that has an encoding, with any modifiers and in
  either cursor mode, and every mouse report is text, so the session's backend never refuses it, and what it sends spells exactly those
  bytes. And a character key without the leader is never taken by the client.
\<close>

theorem typed_reaches_pane:
  assumes "event_is_text e"
  shows "(case encode_key e app of None \<Rightarrow> (case ke_code e of KcF n \<Rightarrow> n = 0 \<or> 12 < n | c \<Rightarrow> c = KcOther)
          | Some bs \<Rightarrow> \<exists>s. hub_send_input pane bs = Inr (CmInput pane s) \<and> str_bytes s = bs)
    \<and> (\<exists>s. hub_send_input pane (encode_wheel up col row) = Inr (CmInput pane s) \<and> str_bytes s = encode_wheel up col row)
    \<and> (\<exists>s. hub_send_input pane (encode_wheel_horizontal up col row) = Inr (CmInput pane s) \<and> str_bytes s = encode_wheel_horizontal up col row)
    \<and> (\<exists>s. hub_send_input pane (encode_button b press col row) = Inr (CmInput pane s) \<and> str_bytes s = encode_button b press col row)
    \<and> map_key \<lparr>ke_code = KcChar c, ke_modifiers = m\<rparr> = ActNone"
proof (intro conjI)
  show "case encode_key e app of None \<Rightarrow> (case ke_code e of KcF n \<Rightarrow> n = 0 \<or> 12 < n | c \<Rightarrow> c = KcOther)
      | Some bs \<Rightarrow> \<exists>s. hub_send_input pane bs = Inr (CmInput pane s) \<and> str_bytes s = bs"
  proof (cases "encode_key e app")
    case None
    then show ?thesis by (cases "ke_code e") (auto simp: encode_key_def Let_def encode_function_key_def split: if_splits)
  next
    case (Some bs)
    with text_sent [OF encode_key_text [OF assms Some]] show ?thesis by simp
  qed
  show "\<exists>s. hub_send_input pane (encode_wheel up col row) = Inr (CmInput pane s) \<and> str_bytes s = encode_wheel up col row"
    "\<exists>s. hub_send_input pane (encode_wheel_horizontal up col row) = Inr (CmInput pane s) \<and> str_bytes s = encode_wheel_horizontal up col row"
    "\<exists>s. hub_send_input pane (encode_button b press col row) = Inr (CmInput pane s) \<and> str_bytes s = encode_button b press col row"
    by (rule text_sent, simp add: encode_wheel_def encode_wheel_horizontal_def encode_button_def sgr_text)+
  show "map_key \<lparr>ke_code = KcChar c, ke_modifiers = m\<rparr> = ActNone" by (simp add: map_key_def)
qed

lemma typed_reaches_pane_witness:
  "let e = \<lparr>ke_code = KcChar 0x20ac, ke_modifiers = no_modifiers\<lparr>km_alt := True\<rparr>\<rparr>
   in event_is_text e \<and> encode_key e True = Some [27, 226, 130, 172]
      \<and> (\<exists>s. hub_send_input 3 [27, 226, 130, 172] = Inr (CmInput 3 s) \<and> str_bytes s = [27, 226, 130, 172])"
proof -
  let ?e = "\<lparr>ke_code = KcChar 0x20ac, ke_modifiers = no_modifiers\<lparr>km_alt := True\<rparr>\<rparr>"
  have e: "event_is_text ?e" by (simp add: event_is_text_def is_scalar_def)
  have k: "encode_key ?e True = Some [27, 226, 130, 172]" by (simp add: encode_key_def encode_char_def no_modifiers_def utf8_bytes_def)
  from conjunct1 [OF typed_reaches_pane [OF e, where app = True and pane = 3], unfolded k] e k show ?thesis by (simp add: Let_def)
qed

end
