(* ===== verification/Web_Sessions.thy ===== *)
theory Web_Sessions
  imports Codec Contracts Pane_Identity "HOL-Library.Product_Lexorder" "HOL-Library.Multiset"
begin

text \<open>
  The web servers' login sessions: \<^verbatim>\<open>src/web/common/sessions.rs\<close> (the store) and
  \<^verbatim>\<open>src/web/common/sessions_file.rs\<close> (the token list and its text form). A \<^verbatim>\<open>SystemTime\<close> is a number
  of nanoseconds from the Unix epoch, possibly negative; each call of \<^verbatim>\<open>SystemTime::now\<close> is an argument of its own,
  as are the random bytes and whether the atomic file write succeeds. The two mutexes make each
  operation one step.
\<close>

type_synonym system_time = int
type_synonym expiry = "system_time option"

definition NEVER :: rstring where
  "NEVER = lit ''never''"

definition MAX_SESSIONS :: nat where
  "MAX_SESSIONS = 64"

definition MAX_COOKIE_AGE :: duration where
  "MAX_COOKIE_AGE = from_secs (400 * 86400)"

record token =
  tk_value :: rstring
  tk_expiry :: expiry

text \<open>\<^verbatim>\<open>SystemTime::checked_add\<close>: the seconds of the sum must fit an \<^verbatim>\<open>i64\<close>.\<close>

definition checked_add :: "system_time \<Rightarrow> duration \<Rightarrow> system_time option" where
  "checked_add t d = (if t + int d < 2 ^ 63 * 1000000000 then Some (t + int d) else None)"

definition live :: "expiry \<Rightarrow> system_time \<Rightarrow> bool" where
  "live e now = (case e of None \<Rightarrow> True | Some at \<Rightarrow> now < at)"

section \<open>The token list\<close>

definition parse_expiry :: "rstring \<Rightarrow> expiry option" where
  "parse_expiry field =
     (if field = NEVER then Some None
      else case parse_u64 field of
             None \<Rightarrow> None
           | Some secs \<Rightarrow> map_option Some (checked_add 0 (from_secs secs)))"

definition expiry_key :: "token \<Rightarrow> bool \<times> int" where
  "expiry_key t = (case tk_expiry t of Some at \<Rightarrow> (False, at) | None \<Rightarrow> (True, 0))"

fun retain_first :: "rstring set \<Rightarrow> token list \<Rightarrow> token list" where
  "retain_first seen [] = []"
| "retain_first seen (t # ts) =
     (if tk_value t \<in> seen then retain_first seen ts else t # retain_first (insert (tk_value t) seen) ts)"

definition normalize_tokens :: "token list \<Rightarrow> token list" where
  "normalize_tokens ts = retain_first {} (sort_key expiry_key ts)"

definition lower :: "system_time \<Rightarrow> token \<Rightarrow> token" where
  "lower ceiling t =
     (if (case tk_expiry t of None \<Rightarrow> True | Some at \<Rightarrow> ceiling < at) then t\<lparr>tk_expiry := Some ceiling\<rparr> else t)"

definition clamp :: "duration option \<Rightarrow> system_time \<Rightarrow> token list \<Rightarrow> token list" where
  "clamp ttl now ts =
     (case Option.bind ttl (checked_add now) of None \<Rightarrow> ts | Some ceiling \<Rightarrow> map (lower ceiling) ts)"

definition sweep :: "system_time \<Rightarrow> token list \<Rightarrow> token list" where
  "sweep now ts = filter (\<lambda>t. live (tk_expiry t) now) ts"

definition trim :: "nat \<Rightarrow> system_time \<Rightarrow> token list \<Rightarrow> token list" where
  "trim cap now ts0 = (let ts = sweep now ts0 in drop (length ts - cap) ts)"

definition expiry_field :: "expiry \<Rightarrow> rstring" where
  "expiry_field e = (case e of
     Some at \<Rightarrow> dec_str (if at < 0 then 0 else nat (at div 1000000000))
   | None \<Rightarrow> NEVER)"

definition token_line :: "token \<Rightarrow> rstring" where
  "token_line t = tk_value t @ [9] @ expiry_field (tk_expiry t)"

definition serialize :: "token list \<Rightarrow> rstring" where
  "serialize ts = concat (map (\<lambda>t. token_line t @ [10]) ts)"

definition strip_cr :: "rstring \<Rightarrow> rstring" where
  "strip_cr l = (if l \<noteq> [] \<and> last l = 13 then butlast l else l)"

definition lines :: "rstring \<Rightarrow> rstring list" where
  "lines data = (let segs = split_on 10 data
     in map strip_cr (butlast segs) @ (if last segs = [] then [] else [last segs]))"

definition split_once :: "rchar \<Rightarrow> rstring \<Rightarrow> (rstring \<times> rstring) option" where
  "split_once c s = (if c \<in> set s then Some (takeWhile (\<lambda>x. x \<noteq> c) s, tl (dropWhile (\<lambda>x. x \<noteq> c) s)) else None)"

definition parse_line :: "rstring \<Rightarrow> token option" where
  "parse_line line =
     (case split_once 9 line of
        None \<Rightarrow> None
      | Some (value, field) \<Rightarrow>
          map_option (\<lambda>e. \<lparr>tk_value = value, tk_expiry = e\<rparr>) (parse_expiry (str_trim field)))"

definition parse_tokens :: "rstring \<Rightarrow> token list" where
  "parse_tokens data = List.map_filter parse_line (lines data)"

section \<open>The store\<close>

record session_store =
  ss_tokens :: "token list"
  ss_file :: "rstring option"
  ss_persistent :: bool
  ss_ttl :: "duration option"

datatype session_error = RngUnavailableForToken | LifetimeDoesNotFit

definition store_new :: "duration option \<Rightarrow> session_store" where
  "store_new ttl = \<lparr>ss_tokens = [], ss_file = None, ss_persistent = False, ss_ttl = ttl\<rparr>"

definition persist :: "system_time \<Rightarrow> bool \<Rightarrow> session_store \<Rightarrow> session_store" where
  "persist now write_ok s =
     (if \<not> ss_persistent s then s
      else
        let ts = sweep now (ss_tokens s)
        in s\<lparr>ss_tokens := ts, ss_file := if write_ok then Some (serialize ts) else ss_file s\<rparr>)"

definition load :: "rstring option \<Rightarrow> duration option \<Rightarrow> system_time \<Rightarrow> system_time \<Rightarrow> bool \<Rightarrow> session_store" where
  "load file ttl now now_persist write_ok =
     (case file of
        None \<Rightarrow> \<lparr>ss_tokens = [], ss_file = None, ss_persistent = True, ss_ttl = ttl\<rparr>
      | Some data \<Rightarrow>
          let ts = trim MAX_SESSIONS now (clamp ttl now (normalize_tokens (parse_tokens data)));
              s = \<lparr>ss_tokens = ts, ss_file = file, ss_persistent = True, ss_ttl = ttl\<rparr>
          in if serialize ts \<noteq> data then persist now_persist write_ok s else s)"

definition hex :: "u8 list \<Rightarrow> rstring" where
  "hex bytes = concat (map (\<lambda>b. hex_fixed 2 (unat b)) bytes)"

definition issue ::
  "u8 list option \<Rightarrow> system_time \<Rightarrow> system_time \<Rightarrow> system_time \<Rightarrow> bool \<Rightarrow> session_store \<Rightarrow> (session_error + rstring) \<times> session_store" where
  "issue fill now now_trim now_persist write_ok s =
     (case fill of
        None \<Rightarrow> (Inl RngUnavailableForToken, s)
      | Some bytes \<Rightarrow>
          let value = hex bytes
          in case (case ss_ttl s of
                     Some ttl \<Rightarrow> (case checked_add now ttl of Some at \<Rightarrow> Inr (Some at) | None \<Rightarrow> Inl LifetimeDoesNotFit)
                   | None \<Rightarrow> Inr None) of
               Inl e \<Rightarrow> (Inl e, s)
             | Inr expiry \<Rightarrow>
                 (Inr value,
                  persist now_persist write_ok
                    (s\<lparr>ss_tokens := trim MAX_SESSIONS now_trim (ss_tokens s @ [\<lparr>tk_value = value, tk_expiry = expiry\<rparr>])\<rparr>)))"

definition revoke :: "rstring \<Rightarrow> system_time \<Rightarrow> bool \<Rightarrow> session_store \<Rightarrow> session_store" where
  "revoke value now write_ok s =
     (let ts = filter (\<lambda>t. tk_value t \<noteq> value) (ss_tokens s);
          removed = (length ts \<noteq> length (ss_tokens s));
          s = s\<lparr>ss_tokens := ts\<rparr>
      in if removed then persist now write_ok s else s)"

definition is_valid :: "rstring \<Rightarrow> system_time \<Rightarrow> system_time \<Rightarrow> bool \<Rightarrow> session_store \<Rightarrow> bool \<times> session_store" where
  "is_valid value now now_persist write_ok s =
     (case List.find (\<lambda>t. tk_value t = value) (ss_tokens s) of
        None \<Rightarrow> (False, s)
      | Some found \<Rightarrow>
          if live (tk_expiry found) now then (True, s) else (False, persist now_persist write_ok s))"

definition cookie_max_age_secs :: "session_store \<Rightarrow> nat" where
  "cookie_max_age_secs s = as_secs (min (case ss_ttl s of None \<Rightarrow> MAX_COOKIE_AGE | Some ttl \<Rightarrow> ttl) MAX_COOKIE_AGE)"

text \<open>A server's life: logins, logouts, requests and restarts, the last with a possibly changed lifetime.\<close>

datatype ss_event =
    Issue "u8 list option" system_time system_time system_time bool
  | Revoke rstring system_time bool
  | Check rstring system_time system_time bool
  | Restart "duration option" system_time system_time bool

fun ss_step :: "session_store \<Rightarrow> ss_event \<Rightarrow> session_store" where
  "ss_step s (Issue fill a b c ok) = snd (issue fill a b c ok s)"
| "ss_step s (Revoke v now ok) = revoke v now ok s"
| "ss_step s (Check v a b ok) = snd (is_valid v a b ok s)"
| "ss_step s (Restart ttl a b ok) = (if ss_persistent s then load (ss_file s) ttl a b ok else store_new ttl)"

fun issues :: "rstring \<Rightarrow> ss_event \<Rightarrow> bool" where
  "issues v (Issue (Some bytes) _ _ _ _) = (hex bytes = v)"
| "issues v _ = False"

section \<open>The file reads back\<close>

definition token_wf :: "token \<Rightarrow> bool" where
  "token_wf t \<longleftrightarrow> 9 \<notin> set (tk_value t) \<and> 10 \<notin> set (tk_value t)
     \<and> (case tk_expiry t of None \<Rightarrow> True | Some at \<Rightarrow> at < 2 ^ 63 * 1000000000)"

text \<open>What the file keeps of an expiry: whole seconds, not before the epoch.\<close>

definition whole :: "expiry \<Rightarrow> expiry" where
  "whole e = map_option (\<lambda>at. if at < 0 then 0 else at div 1000000000 * 1000000000) e"

lemma field_chars: "c \<in> set (expiry_field e) \<Longrightarrow> is_digit c \<or> c \<in> set NEVER"
  using dec_str_digits by (auto simp: expiry_field_def list_all_iff split: option.splits)

lemma field_plain: "c \<in> set (expiry_field e) \<Longrightarrow> 48 \<le> c \<and> c \<noteq> 133 \<and> c < 160"
  using field_chars [of c e] by (auto simp: is_digit_def NEVER_def)

lemma trim_field: "str_trim (expiry_field e) = expiry_field e"
proof -
  have ws: "\<not> is_whitespace c" if "c \<in> set (expiry_field e)" for c
    using field_plain [OF that] by (auto simp: is_whitespace_def)
  have "dropWhile is_whitespace xs = xs" if "\<forall>c \<in> set xs. \<not> is_whitespace c" for xs
    using that by (cases xs) auto
  from this [of "expiry_field e"] this [of "rev (expiry_field e)"] ws show ?thesis by (simp add: str_trim_def)
qed

lemma parse_field:
  assumes "case e of None \<Rightarrow> True | Some at \<Rightarrow> at < 2 ^ 63 * 1000000000"
  shows "parse_expiry (expiry_field e) = Some (whole e)"
proof (cases e)
  case None
  then show ?thesis by (simp add: parse_expiry_def expiry_field_def whole_def)
next
  case (Some at)
  define n where "n = (if at < 0 then 0 else nat (at div 1000000000))"
  have n: "int n < 2 ^ 63" using assms Some by (auto simp: n_def)
  then have "n < 2 ^ 64" by simp
  moreover have "dec_str n \<noteq> NEVER"
    using dec_str_digits [of n] by (auto simp: NEVER_def is_digit_def)
  moreover have "checked_add 0 (from_secs n) = Some (int n * 1000000000)"
    using n by (simp add: checked_add_def from_secs_def)
  moreover have "int n * 1000000000 = (if at < 0 then 0 else at div 1000000000 * 1000000000)"
    by (simp add: n_def)
  ultimately show ?thesis
    using Some by (simp add: parse_expiry_def expiry_field_def whole_def parse_dec_str flip: n_def)
qed

lemma split_once_append: "c \<notin> set a \<Longrightarrow> split_once c (a @ c # b) = Some (a, b)"
proof -
  assume "c \<notin> set a"
  then have "\<forall>x \<in> set a. x \<noteq> c" by auto
  then show ?thesis by (simp add: split_once_def takeWhile_append2 dropWhile_append2)
qed

lemma parse_token_line:
  assumes "token_wf t"
  shows "parse_line (token_line t) = Some \<lparr>tk_value = tk_value t, tk_expiry = whole (tk_expiry t)\<rparr>"
  using assms parse_field [of "tk_expiry t"]
  by (auto simp: parse_line_def token_line_def split_once_append trim_field token_wf_def)

lemma last_field: "expiry_field e \<noteq> []" "last (expiry_field e) \<noteq> 13"
proof -
  show ne: "expiry_field e \<noteq> []" by (auto simp: expiry_field_def NEVER_def split: option.split)
  then show "last (expiry_field e) \<noteq> 13" using field_plain [OF last_in_set [OF ne]] by auto
qed

lemma strip_token_line [simp]: "strip_cr (token_line t) = token_line t"
  using last_field by (simp add: strip_cr_def token_line_def)

lemma lines_serialize: "list_all token_wf ts \<Longrightarrow> lines (serialize ts) = map token_line ts"
proof -
  assume wf: "list_all token_wf ts"
  have no_nl: "10 \<notin> set (token_line t)" if "token_wf t" for t
    using that field_plain [of 10 "tk_expiry t"] by (auto simp: token_wf_def token_line_def)
  have "split_on 10 (serialize ts) = map token_line ts @ [[]]"
    using wf by (induction ts) (simp_all add: serialize_def split_on_append no_nl)
  then show ?thesis by (simp add: lines_def comp_def)
qed

lemma parse_serialize:
  "list_all token_wf ts \<Longrightarrow>
   parse_tokens (serialize ts) = map (\<lambda>t. \<lparr>tk_value = tk_value t, tk_expiry = whole (tk_expiry t)\<rparr>) ts"
proof -
  assume wf: "list_all token_wf ts"
  have "List.map_filter parse_line (map token_line ts) = map (\<lambda>t. \<lparr>tk_value = tk_value t, tk_expiry = whole (tk_expiry t)\<rparr>) ts"
    using wf by (induction ts) (simp_all add: List.map_filter_simps parse_token_line)
  with wf show ?thesis by (simp add: parse_tokens_def lines_serialize)
qed

section \<open>What no later event can undo\<close>

text \<open>
  A fact about one token value's expiries that survives everything but issuing the same value
  again: it holds of every copy in memory and of every copy a restart would read from the file.
\<close>

definition all_of :: "rstring \<Rightarrow> (expiry \<Rightarrow> bool) \<Rightarrow> token list \<Rightarrow> bool" where
  "all_of v Q ts \<longleftrightarrow> (\<forall>t \<in> set ts. tk_value t = v \<longrightarrow> Q (tk_expiry t))"

definition file_tokens :: "session_store \<Rightarrow> token list" where
  "file_tokens s = (case ss_file s of None \<Rightarrow> [] | Some data \<Rightarrow> parse_tokens data)"

definition store_wf :: "session_store \<Rightarrow> bool" where
  "store_wf s \<longleftrightarrow> list_all token_wf (ss_tokens s) \<and> (\<not> ss_persistent s \<longrightarrow> ss_file s = None)"

definition bound :: "rstring \<Rightarrow> (expiry \<Rightarrow> bool) \<Rightarrow> session_store \<Rightarrow> bool" where
  "bound v Q s \<longleftrightarrow> store_wf s \<and> all_of v Q (ss_tokens s) \<and> all_of v Q (file_tokens s)"

definition downward :: "(expiry \<Rightarrow> bool) \<Rightarrow> bool" where
  "downward Q \<longleftrightarrow> (\<forall>e. Q e \<longrightarrow> Q (whole e) \<and>
     (\<forall>c. (case e of None \<Rightarrow> True | Some at \<Rightarrow> c < at) \<longrightarrow> Q (Some c)))"

lemma all_of_subset: "set ts \<subseteq> set us \<Longrightarrow> all_of v Q us \<Longrightarrow> all_of v Q ts"
  by (auto simp: all_of_def)

lemma all_of_lower: "downward Q \<Longrightarrow> all_of v Q ts \<Longrightarrow> all_of v Q (map (lower c) ts)"
  by (auto simp: all_of_def lower_def downward_def)

lemma all_of_clamp: "downward Q \<Longrightarrow> all_of v Q ts \<Longrightarrow> all_of v Q (clamp ttl now ts)"
  by (auto simp: clamp_def all_of_lower split: option.split)

lemma set_sweep [simp]: "set (sweep now ts) = {t \<in> set ts. live (tk_expiry t) now}"
  by (auto simp: sweep_def)

lemma trim_subset: "set (trim cap now ts) \<subseteq> set ts"
  using set_drop_subset [of _ "sweep now ts"] by (fastforce simp: trim_def Let_def)

lemma retain_first_subset: "set (retain_first seen ts) \<subseteq> set ts"
  by (induction seen ts rule: retain_first.induct) auto

lemma normalize_subset: "set (normalize_tokens ts) \<subseteq> set ts"
  using retain_first_subset [of "{}" "sort_key expiry_key ts"] by (simp add: normalize_tokens_def)

lemma wf_subset: "set ts \<subseteq> set us \<Longrightarrow> list_all token_wf us \<Longrightarrow> list_all token_wf ts"
  by (auto simp: list_all_iff)

lemma wf_clamp: "list_all token_wf ts \<Longrightarrow> list_all token_wf (clamp ttl now ts)"
  by (auto simp: clamp_def list_all_iff lower_def token_wf_def checked_add_def split: option.splits if_splits Option.bind_splits)

lemma lines_no_nl: "l \<in> set (lines data) \<Longrightarrow> 10 \<notin> set l"
proof -
  have seg: "10 \<notin> set x" if "x \<in> set (split_on 10 data)" for x
    using that by (rule split_on_segments)
  have "10 \<notin> set (strip_cr x)" if "x \<in> set (split_on 10 data)" for x
    using seg [OF that] by (auto simp: strip_cr_def dest: in_set_butlastD)
  moreover assume "l \<in> set (lines data)"
  ultimately show ?thesis
    using seg [of "last (split_on 10 data)"] by (auto simp: lines_def Let_def split: if_splits dest: in_set_butlastD)
qed

lemma parse_tokens_wf: "list_all token_wf (parse_tokens data)"
proof -
  have "token_wf t" if "parse_line l = Some t" "10 \<notin> set l" for l t
  proof -
    obtain val field e where l: "split_once 9 l = Some (val, field)" "parse_expiry (str_trim field) = Some e"
      and t: "t = \<lparr>tk_value = val, tk_expiry = e\<rparr>"
    proof (cases "split_once 9 l")
      case (Some p)
      moreover obtain val field where "p = (val, field)" by (cases p)
      ultimately show thesis using that [of val field] \<open>parse_line l = Some t\<close>
        by (cases "parse_expiry (str_trim field)") (auto simp: parse_line_def)
    qed (use \<open>parse_line l = Some t\<close> in \<open>simp add: parse_line_def\<close>)
    from l(1) have v: "val = takeWhile (\<lambda>x. x \<noteq> 9) l" by (auto simp: split_once_def split: if_splits)
    then have "9 \<notin> set val" "10 \<notin> set val" using that(2) by (auto dest: set_takeWhileD)
    moreover have "case e of None \<Rightarrow> True | Some at \<Rightarrow> at < 2 ^ 63 * 1000000000"
      using l(2) by (auto simp: parse_expiry_def checked_add_def split: option.splits if_splits)
    ultimately show ?thesis by (simp add: t token_wf_def)
  qed
  then show ?thesis using lines_no_nl
    by (auto simp: parse_tokens_def list_all_iff List.map_filter_def)
qed

lemma bound_persist:
  assumes "downward Q" "bound v Q s"
  shows "bound v Q (persist now ok s)"
proof (cases "ss_persistent s")
  case True
  let ?ts = "sweep now (ss_tokens s)"
  have wf: "list_all token_wf ?ts" using assms(2) by (auto simp: bound_def store_wf_def list_all_iff)
  have Q: "all_of v Q ?ts" using assms(2) by (auto simp: bound_def all_of_def)
  then have "all_of v Q (parse_tokens (serialize ?ts))"
    using assms(1) unfolding parse_serialize [OF wf] by (auto simp: all_of_def downward_def)
  with True assms(2) wf Q show ?thesis
    by (simp add: persist_def Let_def bound_def store_wf_def file_tokens_def split: option.splits)
qed (simp add: persist_def assms)

lemma bound_tokens:
  assumes "bound v Q s" "all_of v Q ts" "list_all token_wf ts"
  shows "bound v Q (s\<lparr>ss_tokens := ts\<rparr>)"
  using assms by (simp add: bound_def store_wf_def file_tokens_def)

lemma bound_load:
  assumes "downward Q" "all_of v Q (case file of None \<Rightarrow> [] | Some data \<Rightarrow> parse_tokens data)"
  shows "bound v Q (load file ttl a b ok)"
proof (cases "file")
  case None
  then show ?thesis by (simp add: load_def bound_def store_wf_def file_tokens_def all_of_def)
next
  case (Some data)
  let ?ts = "trim MAX_SESSIONS a (clamp ttl a (normalize_tokens (parse_tokens data)))"
  have "all_of v Q ?ts" "list_all token_wf ?ts"
    using assms Some all_of_subset [OF trim_subset] all_of_clamp all_of_subset [OF normalize_subset]
      wf_subset [OF trim_subset] wf_clamp wf_subset [OF normalize_subset] parse_tokens_wf by auto
  with assms Some have "bound v Q \<lparr>ss_tokens = ?ts, ss_file = file, ss_persistent = True, ss_ttl = ttl\<rparr>"
    by (simp add: bound_def store_wf_def file_tokens_def)
  then show ?thesis using Some bound_persist [OF assms(1)] by (simp add: load_def Let_def)
qed

lemma hex_plain: "c \<in> set (hex bytes) \<Longrightarrow> c \<noteq> 9 \<and> c \<noteq> 10"
  using hex_of_bytes_alphanumeric [of c bytes] by (auto simp: hex_def hex_of_bytes_def is_ascii_alphanumeric_def)

lemma issue_cases:
  obtains (err) e where "issue fill a b c ok s = (Inl e, s)"
  | (ok) bytes e where "fill = Some bytes"
    "case ss_ttl s of None \<Rightarrow> e = None | Some ttl \<Rightarrow> e = Some (a + int ttl) \<and> a + int ttl < 2 ^ 63 * 1000000000"
    "issue fill a b c ok s = (Inr (hex bytes),
       persist c ok (s\<lparr>ss_tokens := trim MAX_SESSIONS b (ss_tokens s @ [\<lparr>tk_value = hex bytes, tk_expiry = e\<rparr>])\<rparr>))"
proof (cases fill)
  case None
  then show thesis by (intro err) (simp add: issue_def)
next
  case (Some bytes)
  show thesis
  proof (cases "ss_ttl s")
    case None
    then show thesis using Some by (intro ok [of bytes None]) (simp_all add: issue_def Let_def)
  next
    case ttl: (Some ttl)
    show thesis
    proof (cases "a + int ttl < 2 ^ 63 * 1000000000")
      case True
      then show thesis using Some ttl by (intro ok [of bytes "Some (a + int ttl)"]) (simp_all add: issue_def Let_def checked_add_def)
    next
      case False
      then show thesis using Some ttl by (intro err [of LifetimeDoesNotFit]) (simp add: issue_def Let_def checked_add_def)
    qed
  qed
qed

lemma bound_step:
  assumes "downward Q" "bound v Q s" "\<not> issues v ev"
  shows "bound v Q (ss_step s ev)"
proof (cases ev)
  case (Issue fill a b c ok)
  show ?thesis
  proof (cases rule: issue_cases [of fill a b c ok s])
    case (err e)
    with Issue assms show ?thesis by simp
  next
    case (ok bytes e)
    let ?t = "\<lparr>tk_value = hex bytes, tk_expiry = e\<rparr>"
    have "hex bytes \<noteq> v" using assms(3) Issue ok(1) by auto
    moreover have "token_wf ?t" using ok(2) hex_plain by (auto simp: token_wf_def split: option.splits)
    ultimately have "all_of v Q (ss_tokens s @ [?t])" "list_all token_wf (ss_tokens s @ [?t])"
      using assms(2) by (auto simp: bound_def all_of_def store_wf_def)
    with Issue ok(3) show ?thesis
      using bound_tokens [OF assms(2) all_of_subset [OF trim_subset] wf_subset [OF trim_subset]]
        bound_persist [OF assms(1)] by simp
  qed
next
  case (Revoke w now ok)
  have "bound v Q (s\<lparr>ss_tokens := filter (\<lambda>t. tk_value t \<noteq> w) (ss_tokens s)\<rparr>)"
    by (rule bound_tokens [OF assms(2)]) (use assms(2) in \<open>auto simp: bound_def all_of_def store_wf_def list_all_iff\<close>)
  with Revoke bound_persist [OF assms(1)] show ?thesis by (simp add: revoke_def Let_def)
next
  case (Check w a b ok)
  with assms bound_persist [OF assms(1,2)] show ?thesis by (simp add: is_valid_def split: option.split)
next
  case (Restart ttl a b ok)
  have "all_of v Q (case ss_file s of None \<Rightarrow> [] | Some data \<Rightarrow> parse_tokens data)"
    using assms(2) by (simp add: bound_def file_tokens_def)
  then have "bound v Q (load (ss_file s) ttl a b ok)" by (rule bound_load [OF assms(1)])
  moreover have "bound v Q (store_new ttl)"
    by (simp add: store_new_def bound_def store_wf_def file_tokens_def all_of_def)
  ultimately show ?thesis using Restart by simp
qed

lemma bound_run:
  "downward Q \<Longrightarrow> bound v Q s \<Longrightarrow> list_all (\<lambda>ev. \<not> issues v ev) es \<Longrightarrow> bound v Q (run ss_step s es)"
  by (induction es arbitrary: s) (auto simp: bound_step)

lemma find_Some_mem: "List.find P xs = Some x \<Longrightarrow> x \<in> set xs \<and> P x"
  by (auto simp: find_Some_iff)

lemma bound_invalid:
  assumes "bound v Q s" "\<And>e. Q e \<Longrightarrow> \<not> live e now"
  shows "\<not> fst (is_valid v now b ok s)"
proof (cases "List.find (\<lambda>t. tk_value t = v) (ss_tokens s)")
  case (Some t)
  from find_Some_mem [OF this] assms(1) have "Q (tk_expiry t)" by (auto simp: bound_def all_of_def)
  with Some assms(2) show ?thesis by (simp add: is_valid_def)
qed (simp add: is_valid_def)

lemma not_issues_tab: "\<not> issues [9] ev"
proof -
  have "hex bytes \<noteq> [9]" for bytes using hex_plain [of 9 bytes] by auto
  then show ?thesis by (cases "([9 :: rchar], ev)" rule: issues.cases) auto
qed

text \<open>A server's state after any life that began by loading any file at all.\<close>

lemma store_wf_run: "store_wf (run ss_step (load start ttl a b ok) es)"
proof -
  have "downward (\<lambda>_. True)" by (simp add: downward_def)
  moreover have "bound [9] (\<lambda>_. True) (load start ttl a b ok)"
    by (rule bound_load) (simp_all add: downward_def all_of_def)
  ultimately have "bound [9] (\<lambda>_. True) (run ss_step (load start ttl a b ok) es)"
    by (rule bound_run) (simp add: not_issues_tab list_all_iff)
  then show ?thesis by (simp add: bound_def)
qed

lemma bound_revoke:
  assumes "store_wf s" "v \<in> tk_value ` set (ss_tokens s)"
  shows "bound v (\<lambda>_. False) (revoke v t True s)"
proof -
  let ?ts = "filter (\<lambda>t. tk_value t \<noteq> v) (ss_tokens s)"
  obtain u where "u \<in> set (ss_tokens s)" "\<not> tk_value u \<noteq> v" using assms(2) by auto
  from length_filter_less [of u "ss_tokens s" "\<lambda>t. tk_value t \<noteq> v", OF this]
  have removed: "length ?ts \<noteq> length (ss_tokens s)" by linarith
  have wf: "list_all token_wf (sweep t ?ts)" using assms(1) by (auto simp: store_wf_def list_all_iff)
  have "all_of v (\<lambda>_. False) (parse_tokens (serialize (sweep t ?ts)))"
    unfolding parse_serialize [OF wf] by (auto simp: all_of_def)
  moreover have "all_of v (\<lambda>_. False) (sweep t ?ts)" "all_of v (\<lambda>_. False) ?ts" by (auto simp: all_of_def)
  moreover have "list_all token_wf ?ts" using assms(1) by (auto simp: store_wf_def list_all_iff)
  moreover have "revoke v t True s = persist t True (s\<lparr>ss_tokens := ?ts\<rparr>)"
    using removed by (simp add: revoke_def Let_def)
  moreover have "all_of v (\<lambda>_. False) []" by (simp add: all_of_def)
  ultimately show ?thesis using wf assms(1)
    by (cases "ss_persistent s") (simp_all add: persist_def Let_def bound_def store_wf_def file_tokens_def)
qed

text \<open>
  \<^bold>\<open>C20\<close>. A logout is final. Once a token the server holds is revoked and that one write of the file succeeds, the token is
  refused for ever: by later requests, whatever logins, expiries, failed writes and changed lifetimes come
  between, and after any number of restarts from the file (unless the random source mints the
  very same token again).
\<close>

theorem revoked_stays_revoked:
  assumes "s = run ss_step (load start ttl a b ok) es0"
    and "v \<in> tk_value ` set (ss_tokens s)"
    and "list_all (\<lambda>ev. \<not> issues v ev) es"
  shows "\<not> fst (is_valid v now np okp (run ss_step (revoke v t True s) es))"
proof -
  have "bound v (\<lambda>_. False) (revoke v t True s)"
    by (rule bound_revoke) (use assms(1,2) store_wf_run in auto)
  from bound_run [OF _ this assms(3)] have "bound v (\<lambda>_. False) (run ss_step (revoke v t True s) es)"
    by (simp add: downward_def)
  then show ?thesis by (rule bound_invalid) simp
qed

lemmas session_evals = load_def issue_def persist_def revoke_def is_valid_def Let_def trim_def sweep_def live_def
  checked_add_def MAX_SESSIONS_def hex_def hexdig_def file_tokens_def

theorem revoked_stays_revoked_witness:
  "\<exists>s v. s = run ss_step (load None (Some 100) 0 0 True) [Issue (Some [10]) 5 5 5 True]
     \<and> fst (is_valid v 6 6 True s) \<and> \<not> fst (is_valid v 8 8 True (run ss_step (revoke v 7 True s) [Restart None 7 7 True]))"
proof -
  let ?s = "run ss_step (load None (Some 100) 0 0 True) [Issue (Some [10]) 5 5 5 True]" and ?v = "hex [10]"
  have a: "?v \<in> tk_value ` set (ss_tokens ?s)" "fst (is_valid ?v 6 6 True ?s)" by (simp_all add: session_evals)
  have "list_all (\<lambda>ev. \<not> issues ?v ev) [Restart None 7 7 True]" by simp
  from revoked_stays_revoked [OF refl a(1) this] a(2) show ?thesis by blast
qed

text \<open>
  A lifetime is binding. A token minted under a lifetime is refused from the moment that lifetime is over, counted from its
  issue, whatever happens in between: restarts, a later configuration with a longer lifetime or none,
  other logins and failed writes can shorten it but never extend it.
\<close>

theorem lifetime_is_binding:
  assumes "s = run ss_step (load start ttl0 a0 b0 ok0) es0"
    and "issue fill a b c ok s = (Inr v, s')" "ss_ttl s = Some ttl" "0 \<le> a + int ttl"
    and "v \<notin> tk_value ` set (ss_tokens s) \<union> tk_value ` set (file_tokens s)"
    and "list_all (\<lambda>ev. \<not> issues v ev) es" "a + int ttl \<le> now"
  shows "\<not> fst (is_valid v now np okp (run ss_step s' es))"
proof -
  define Q where "Q e \<longleftrightarrow> (\<exists>at. e = Some at \<and> at \<le> a + int ttl)" for e
  have down: "downward Q"
  proof -
    have "at div 1000000000 * 1000000000 \<le> at" for at :: int
      by (metis div_mult_mod_eq le_add_same_cancel1 mod_int_pos_iff zero_le_numeral pos_mod_sign zero_less_numeral)
    then have "Q (whole (Some at))" if "at \<le> a + int ttl" for at
      using that assms(4) by (auto simp: Q_def whole_def intro: order_trans)
    then show ?thesis by (auto simp: downward_def Q_def)
  qed
  obtain bytes where v: "v = hex bytes" and at: "a + int ttl < 2 ^ 63 * 1000000000"
    and s': "s' = persist c ok (s\<lparr>ss_tokens := trim MAX_SESSIONS b (ss_tokens s @ [\<lparr>tk_value = v, tk_expiry = Some (a + int ttl)\<rparr>])\<rparr>)"
    using assms(2,3) by (cases rule: issue_cases [of fill a b c ok s]) auto
  let ?ts = "ss_tokens s @ [\<lparr>tk_value = v, tk_expiry = Some (a + int ttl)\<rparr>]"
  have wf: "store_wf s" using assms(1) store_wf_run by simp
  have "bound v Q s" using wf assms(5) by (auto simp: bound_def all_of_def)
  moreover have "all_of v Q ?ts" using assms(5) by (auto simp: all_of_def Q_def)
  moreover have "list_all token_wf ?ts"
    using wf at hex_plain by (auto simp: store_wf_def token_wf_def v)
  ultimately have "bound v Q s'"
    unfolding s' using bound_tokens all_of_subset [OF trim_subset] wf_subset [OF trim_subset] bound_persist [OF down] by metis
  from bound_run [OF down this assms(6)] show ?thesis
    by (rule bound_invalid) (use assms(7) in \<open>auto simp: Q_def live_def\<close>)
qed

theorem lifetime_is_binding_witness:
  "\<exists>v s'. issue (Some [10]) 5 5 5 True (load None (Some 100) 0 0 True) = (Inr v, s')
     \<and> \<not> fst (is_valid v 105 105 True (run ss_step s' [Restart None 7 7 True]))"
proof -
  let ?s = "run ss_step (load None (Some 100) 0 0 True) []"
  obtain v s' where i: "issue (Some [10]) 5 5 5 True ?s = (Inr v, s')" and v: "v = hex [10]"
    by (simp add: session_evals)
  have "v \<notin> tk_value ` set (ss_tokens ?s) \<union> tk_value ` set (file_tokens ?s)" "ss_ttl ?s = Some 100"
    by (simp_all add: session_evals)
  with lifetime_is_binding [OF refl i, of 100 "[Restart None 7 7 True]" 105] i show ?thesis by auto
qed

section \<open>A restart forgets nobody\<close>

lemma values_retain_first: "distinct (map tk_value ts) \<Longrightarrow> tk_value ` set ts \<inter> seen = {} \<Longrightarrow> retain_first seen ts = ts"
  by (induction seen ts rule: retain_first.induct) auto

lemma normalize_distinct:
  assumes "distinct (map tk_value ts)"
  shows "set (normalize_tokens ts) = set ts \<and> distinct (map tk_value (normalize_tokens ts)) \<and> length (normalize_tokens ts) = length ts"
proof -
  have "mset (map tk_value (sort_key expiry_key ts)) = mset (map tk_value ts)" by simp
  then have d: "distinct (map tk_value (sort_key expiry_key ts))" using assms by (metis mset_eq_imp_distinct_iff)
  then have "normalize_tokens ts = sort_key expiry_key ts" by (simp add: normalize_tokens_def values_retain_first)
  with d show ?thesis by simp
qed

lemma valid_iff:
  assumes "distinct (map tk_value (ss_tokens s))"
  shows "fst (is_valid v now b ok s) \<longleftrightarrow> (\<exists>t \<in> set (ss_tokens s). tk_value t = v \<and> live (tk_expiry t) now)"
proof (cases "List.find (\<lambda>t. tk_value t = v) (ss_tokens s)")
  case None
  then have "\<forall>t \<in> set (ss_tokens s). tk_value t \<noteq> v" by (auto simp: find_None_iff)
  with None show ?thesis by (auto simp: is_valid_def)
next
  case (Some t)
  from find_Some_mem [OF this] have "t \<in> set (ss_tokens s)" "tk_value t = v" by auto
  with assms have "u = t" if "u \<in> set (ss_tokens s)" "tk_value u = v" for u
    using that by (auto simp: distinct_map inj_on_def)
  then have "(\<exists>u \<in> set (ss_tokens s). tk_value u = v \<and> live (tk_expiry u) now) \<longleftrightarrow> live (tk_expiry t) now"
    using \<open>t \<in> set (ss_tokens s)\<close> \<open>tk_value t = v\<close> by metis
  with Some show ?thesis by (simp add: is_valid_def)
qed

lemma lower_value [simp]: "tk_value (lower c t) = tk_value t"
  by (simp add: lower_def)

lemma lower_live: "live (tk_expiry (lower c t)) now \<longleftrightarrow> live (tk_expiry t) now \<and> now < c"
  by (auto simp: lower_def live_def split: option.splits)

lemma distinct_filter_map: "distinct (map f xs) \<Longrightarrow> distinct (map f (filter P xs))"
  by (simp add: distinct_map inj_on_def)

lemma live_antimono: "live e t \<Longrightarrow> now \<le> t \<Longrightarrow> live e now"
  by (auto simp: live_def split: option.splits)

text \<open>
  A restart from the file the server wrote keeps exactly the logins it should: a token is accepted afterwards if
  and only if it was in the store, its expiry in whole seconds is still ahead, and the lifetime now
  configured, counted from the restart, is not over. Nothing is lost in the text form and nothing comes back.
\<close>

theorem restart_keeps_logins:
  assumes "list_all token_wf ts" "distinct (map tk_value ts)" "length ts \<le> MAX_SESSIONS"
    and "now \<le> t" "np \<le> t"
  shows "fst (is_valid v t b okb (load (Some (serialize ts)) ttl now np ok)) \<longleftrightarrow>
    (\<exists>e. \<lparr>tk_value = v, tk_expiry = e\<rparr> \<in> set ts \<and> live (whole e) t)
    \<and> (case Option.bind ttl (checked_add now) of None \<Rightarrow> True | Some ceiling \<Rightarrow> t < ceiling)"
proof -
  let ?P = "map (\<lambda>t. \<lparr>tk_value = tk_value t, tk_expiry = whole (tk_expiry t)\<rparr>) ts"
  let ?ceil = "Option.bind ttl (checked_add now)"
  let ?N = "normalize_tokens ?P" and ?C = "clamp ttl now (normalize_tokens ?P)"
  let ?L = "load (Some (serialize ts)) ttl now np ok"
  have dP: "distinct (map tk_value ?P)" using assms(2) by (simp add: comp_def)
  note N = normalize_distinct [OF dP]
  have valC: "map tk_value ?C = map tk_value ?N" by (simp add: clamp_def comp_def split: option.split)
  have "length ?C = length ?N" by (simp add: clamp_def split: option.split)
  then have lenC: "length ?C \<le> MAX_SESSIONS" using N assms(3) by simp
  then have trim: "trim MAX_SESSIONS now ?C = sweep now ?C"
    by (simp add: trim_def Let_def sweep_def length_filter_bound)
  have swept: "set (ss_tokens ?L) \<subseteq> set ?C" "t' \<in> set ?C \<Longrightarrow> live (tk_expiry t') t \<Longrightarrow> t' \<in> set (ss_tokens ?L)" for t'
    using live_antimono [OF _ assms(4)] live_antimono [OF _ assms(5)]
    by (auto simp: load_def Let_def persist_def parse_serialize [OF assms(1)] trim)
  have "distinct (map tk_value ?C)" using N valC by simp
  then have "distinct (map tk_value (ss_tokens ?L))"
    by (simp add: load_def Let_def persist_def parse_serialize [OF assms(1)] trim sweep_def distinct_filter_map)
  then have "fst (is_valid v t b okb ?L) \<longleftrightarrow> (\<exists>u \<in> set ?C. tk_value u = v \<and> live (tk_expiry u) t)"
    using valid_iff swept by blast
  also have "\<dots> \<longleftrightarrow> (\<exists>u \<in> set ?P. tk_value u = v \<and> live (tk_expiry u) t)
      \<and> (case ?ceil of None \<Rightarrow> True | Some ceiling \<Rightarrow> t < ceiling)"
    using N by (auto simp: clamp_def lower_live split: option.split)
  also have "(\<exists>u \<in> set ?P. tk_value u = v \<and> live (tk_expiry u) t) \<longleftrightarrow>
      (\<exists>e. \<lparr>tk_value = v, tk_expiry = e\<rparr> \<in> set ts \<and> live (whole e) t)"
  proof
    assume "\<exists>u \<in> set ?P. tk_value u = v \<and> live (tk_expiry u) t"
    then obtain u where "u \<in> set ts" "tk_value u = v" "live (whole (tk_expiry u)) t" by auto
    moreover have "\<lparr>tk_value = tk_value u, tk_expiry = tk_expiry u\<rparr> = u" by simp
    ultimately show "\<exists>e. \<lparr>tk_value = v, tk_expiry = e\<rparr> \<in> set ts \<and> live (whole e) t" by metis
  qed force
  finally show ?thesis .
qed

theorem restart_keeps_logins_witness:
  "fst (is_valid [97] 7 7 True (load (Some (serialize [\<lparr>tk_value = [97], tk_expiry = Some 3000000005\<rparr>])) None 6 6 True))"
proof -
  have "live (whole (Some 3000000005)) 7" by (simp add: live_def whole_def)
  with restart_keeps_logins [of "[\<lparr>tk_value = [97], tk_expiry = Some 3000000005\<rparr>]" 6 7 6 "[97]" 7 True None True]
  show ?thesis by (simp add: token_wf_def MAX_SESSIONS_def)
qed

end
