(* ===== verification/Web_Request.thy ===== *)
theory Web_Request
  imports Web_Sessions Unix_Path Output_Text Daemon_Frame Pane_Identity
begin

text \<open>
  How the viewer's server reads a request and decides whether to answer it: the head, the form and the responses of
  \<^verbatim>\<open>src/web/common/http.rs\<close>, the bounded reader, the cross-site checks and the connection slots of \<^verbatim>\<open>src/web/common/conn.rs\<close>. The
  socket is the reader of \<^verbatim>\<open>Daemon_Frame\<close>; \<open>clock k\<close> is what the \<open>k\<close>-th look at the clock answers. What the code uses of the
  standard library (splitting, trimming, the address parser) is modelled; the WebSocket library is not.
\<close>

section \<open>The head of a request\<close>

function split_crlf :: "rstring \<Rightarrow> rstring list" where
  "split_crlf [] = [[]]"
| "split_crlf (c # cs) =
     (if c = 13 \<and> cs \<noteq> [] \<and> hd cs = 10 then [] # split_crlf (tl cs)
      else case split_crlf cs of [] \<Rightarrow> [[c]] | l # ls \<Rightarrow> (c # l) # ls)"
  by pat_completeness auto
termination
  by (relation "measure length") auto

function split_whitespace :: "rstring \<Rightarrow> rstring list" where
  "split_whitespace s =
     (let t = dropWhile is_whitespace s
      in if t = [] then []
         else takeWhile (\<lambda>c. \<not> is_whitespace c) t # split_whitespace (dropWhile (\<lambda>c. \<not> is_whitespace c) t))"
  by pat_completeness auto
termination
proof (relation "measure length", goal_cases)
  case (2 s t)
  then have "t \<noteq> []" "\<not> is_whitespace (hd t)" using hd_dropWhile [of is_whitespace s] by auto
  then have "length (dropWhile (\<lambda>c. \<not> is_whitespace c) t) < length t"
    using length_dropWhile_le [of "\<lambda>c. \<not> is_whitespace c" "tl t"] by (cases t) auto
  moreover have "length t \<le> length s" using 2(1) length_dropWhile_le [of is_whitespace s] by simp
  ultimately show ?case by simp
qed simp

declare split_whitespace.simps [simp del]

record request_head =
  rh_method :: rstring
  rh_path :: rstring
  rh_query :: rstring
  rh_headers :: "(rstring \<times> rstring) list"
  rh_content_length :: nat

fun read_headers :: "nat \<Rightarrow> rstring list \<Rightarrow> (rstring \<times> rstring) list \<times> nat" where
  "read_headers content_length [] = ([], content_length)"
| "read_headers content_length (line # ls) =
     (if line = [] then ([], content_length)
      else case split_once 58 line of
             None \<Rightarrow> read_headers content_length ls
           | Some (n, v) \<Rightarrow>
               let name = map to_ascii_lowercase (str_trim n);
                   value = str_trim v;
                   content_length =
                     (if name = lit ''content-length'' then (case parse_u64 value of Some k \<Rightarrow> k | None \<Rightarrow> 0) else content_length);
                   (hs, content_length) = read_headers content_length ls
               in ((name, value) # hs, content_length))"

definition parse_request_head :: "rstring \<Rightarrow> request_head option" where
  "parse_request_head text =
     (let ls = split_crlf text;
          parts = split_whitespace (hd ls);
          method = (case parts of [] \<Rightarrow> [] | p # _ \<Rightarrow> p);
          target = (case parts of _ # p # _ \<Rightarrow> p | _ \<Rightarrow> [])
      in if method = [] \<or> target = [] then None
         else
           let (path, query) = (case split_once 63 target of Some (p, q) \<Rightarrow> (p, q) | None \<Rightarrow> (target, []));
               (headers, content_length) = read_headers 0 (tl ls)
           in Some \<lparr>rh_method = method, rh_path = path, rh_query = query, rh_headers = headers, rh_content_length = content_length\<rparr>)"

definition header :: "rstring \<Rightarrow> request_head \<Rightarrow> rstring option" where
  "header name h = map_option snd (find (\<lambda>(k, _). k = map to_ascii_lowercase name) (rh_headers h))"

fun cookie_in :: "rstring \<Rightarrow> rstring list \<Rightarrow> rstring option" where
  "cookie_in name [] = None"
| "cookie_in name (pair # ps) =
     (case split_once 61 (str_trim pair) of
        Some (k, v) \<Rightarrow> if str_trim k = name then Some (str_trim v) else cookie_in name ps
      | None \<Rightarrow> cookie_in name ps)"

definition cookie :: "rstring \<Rightarrow> request_head \<Rightarrow> rstring option" where
  "cookie name h = (case header (lit ''cookie'') h of None \<Rightarrow> None | Some raw \<Rightarrow> cookie_in name (split_on 59 raw))"

definition is_websocket_upgrade :: "request_head \<Rightarrow> bool" where
  "is_websocket_upgrade h \<longleftrightarrow>
     (case header (lit ''upgrade'') h of None \<Rightarrow> False | Some v \<Rightarrow> eq_ignore_ascii_case v (lit ''websocket''))
     \<and> (case header (lit ''connection'') h of None \<Rightarrow> False | Some v \<Rightarrow> sublist (lit ''upgrade'') (map to_ascii_lowercase v))"

section \<open>Forms and queries\<close>

text \<open>\<^verbatim>\<open>char::to_digit\<close>.\<close>

definition to_digit :: "nat \<Rightarrow> rchar \<Rightarrow> nat option" where
  "to_digit radix c =
     (let d = (if 48 \<le> c \<and> c \<le> 57 then c - 48 else if 97 \<le> c \<and> c \<le> 122 then c - 87
               else if 65 \<le> c \<and> c \<le> 90 then c - 55 else radix)
      in if d < radix then Some d else None)"

fun percent_bytes :: "u8 list \<Rightarrow> u8 list" where
  "percent_bytes [] = []"
| "percent_bytes (b # bs) =
     (if b = 43 then 32 # percent_bytes bs
      else if b = 37 then
        (case bs of
           h # l # rest \<Rightarrow>
             (case (to_digit 16 (unat h), to_digit 16 (unat l)) of
                (Some hi, Some lo) \<Rightarrow> of_nat (hi * 16 + lo) # percent_bytes rest
              | _ \<Rightarrow> b # percent_bytes bs)
         | _ \<Rightarrow> b # percent_bytes bs)
      else b # percent_bytes bs)"

definition percent_decode :: "rstring \<Rightarrow> rstring" where
  "percent_decode s = from_utf8_lossy (percent_bytes (str_bytes s))"

definition parse_form :: "rstring \<Rightarrow> (rstring \<times> rstring) list" where
  "parse_form body =
     List.map_filter (\<lambda>pair. map_option (\<lambda>(k, v). (percent_decode k, percent_decode v)) (split_once 61 pair)) (split_on 38 body)"

definition form_field :: "(rstring \<times> rstring) list \<Rightarrow> rstring \<Rightarrow> rstring option" where
  "form_field kvs key = map_option snd (find (\<lambda>(k, _). k = key) kvs)"

definition query_param :: "rstring \<Rightarrow> request_head \<Rightarrow> rstring option" where
  "query_param name h = map_option snd (find (\<lambda>(k, _). k = name) (parse_form (rh_query h)))"

section \<open>Responses\<close>

definition crlf :: rstring where
  "crlf = [13, 10]"

definition response :: "rstring \<Rightarrow> rstring \<Rightarrow> (rstring \<times> rstring) list \<Rightarrow> u8 list \<Rightarrow> u8 list" where
  "response status content_type extra_headers body =
     str_bytes (lit ''HTTP/1.1 '' @ status @ crlf)
     @ str_bytes (lit ''Content-Type: '' @ content_type @ crlf)
     @ str_bytes (lit ''Content-Length: '' @ dec_str (length body) @ crlf)
     @ str_bytes (lit ''Cache-Control: no-store'' @ crlf)
     @ concat (map (\<lambda>(name, value). str_bytes (name @ lit '': '' @ value @ crlf)) extra_headers)
     @ str_bytes (lit ''Connection: close'' @ crlf @ crlf) @ body"

definition redirect :: "rstring \<Rightarrow> (rstring \<times> rstring) list \<Rightarrow> u8 list" where
  "redirect location extra_headers =
     response (lit ''303 See Other'') (lit ''text/plain; charset=utf-8'') ((lit ''Location'', location) # extra_headers) []"

section \<open>Reading a request\<close>

definition MAX_HEAD_BYTES :: nat where
  "MAX_HEAD_BYTES = 32 * 1024"

definition MAX_BODY_BYTES :: nat where
  "MAX_BODY_BYTES = 64 * 1024"

definition REQUEST_DEADLINE :: duration where
  "REQUEST_DEADLINE = from_secs 30"

datatype request_body = Complete "u8 list" | TooLarge

datatype request_error = HeadLate | HeadTooLong | HeadClosed | HeadFailed | HeadNotUtf8 | HeadMalformed | BodyLate | BodyFailed

fun find_subsequence :: "u8 list \<Rightarrow> u8 list \<Rightarrow> nat option" where
  "find_subsequence [] needle = None"
| "find_subsequence (b # bs) needle =
     (if take (length needle) (b # bs) = needle then Some 0 else map_option Suc (find_subsequence bs needle))"

definition request_head_end :: "u8 list \<Rightarrow> request_error + nat option" where
  "request_head_end buf =
     (case find_subsequence buf [13, 10, 13, 10] of
        Some pos \<Rightarrow> if pos + 4 > MAX_HEAD_BYTES then Inl HeadTooLong else Inr (Some (pos + 4))
      | None \<Rightarrow> if length buf \<ge> MAX_HEAD_BYTES then Inl HeadTooLong else Inr None)"

text \<open>The loops look at the clock before each read; both return how often they looked and the socket left.\<close>

function read_head_loop ::
  "(nat \<Rightarrow> instant) \<Rightarrow> instant \<Rightarrow> nat \<Rightarrow> u8 list \<Rightarrow> reader \<Rightarrow> request_error + nat \<times> u8 list \<times> nat \<times> reader" where
  "read_head_loop clock deadline k buf r =
     (case request_head_end buf of
        Inl e \<Rightarrow> Inl e
      | Inr (Some head_end) \<Rightarrow> Inr (head_end, buf, k, r)
      | Inr None \<Rightarrow>
          if clock k \<ge> deadline then Inl HeadLate
          else case read 4096 r of
                 (Got bs, r) \<Rightarrow> if bs = [] then Inl HeadClosed else read_head_loop clock deadline (Suc k) (buf @ bs) r
               | (_, r) \<Rightarrow> Inl HeadFailed)"
  by pat_completeness auto
termination
  by (relation "measure (\<lambda>(_, _, _, _, r). reader_size r)") (auto, (erule read_progress [rotated, OF sym]; simp)+)

declare read_head_loop.simps [simp del]

function read_body_loop :: "(nat \<Rightarrow> instant) \<Rightarrow> instant \<Rightarrow> nat \<Rightarrow> nat \<Rightarrow> u8 list \<Rightarrow> reader \<Rightarrow> request_error + u8 list" where
  "read_body_loop clock deadline want k body r =
     (if want \<le> length body then Inr body
      else if clock k \<ge> deadline then Inl BodyLate
      else case read 4096 r of
             (Got bs, r) \<Rightarrow> if bs = [] then Inr body else read_body_loop clock deadline want (Suc k) (body @ bs) r
           | (_, r) \<Rightarrow> Inl BodyFailed)"
  by pat_completeness auto
termination
  by (relation "measure (\<lambda>(_, _, _, _, _, r). reader_size r)") (auto, (erule read_progress [rotated, OF sym]; simp)+)

declare read_body_loop.simps [simp del]

definition read_request ::
  "(nat \<Rightarrow> instant) \<Rightarrow> (request_head \<Rightarrow> nat) \<Rightarrow> reader \<Rightarrow> request_error + request_head \<times> request_body" where
  "read_request clock body_limit r =
     (let deadline = clock 0 + REQUEST_DEADLINE
      in case read_head_loop clock deadline 1 [] r of
           Inl e \<Rightarrow> Inl e
         | Inr (head_end, buf, k, r) \<Rightarrow>
             (case from_utf8 (take head_end buf) of
                None \<Rightarrow> Inl HeadNotUtf8
              | Some text \<Rightarrow>
                  (case parse_request_head text of
                     None \<Rightarrow> Inl HeadMalformed
                   | Some head \<Rightarrow>
                       if rh_content_length head > body_limit head then Inr (head, TooLarge)
                       else case read_body_loop clock deadline (rh_content_length head) k (drop head_end buf) r of
                              Inl e \<Rightarrow> Inl e
                            | Inr body \<Rightarrow> Inr (head, Complete (take (rh_content_length head) body)))))"

section \<open>A request is read whole, whatever the pieces\<close>

text \<open>The bytes a socket delivers before it is closed or fails, and which of the two it is.\<close>

fun burst :: "reader \<Rightarrow> u8 list" where
  "burst [] = []"
| "burst (Bytes bs # r) = bs @ burst r"
| "burst (_ # r) = []"

fun closes :: "reader \<Rightarrow> bool" where
  "closes [] = True"
| "closes (Bytes bs # r) = closes r"
| "closes (_ # r) = False"

lemma read_burst:
  assumes "read n r = (res, r')" "0 < n"
  shows "case res of Got bs \<Rightarrow> if bs = [] then burst r = [] \<and> closes r else burst r = bs @ burst r' \<and> closes r' = closes r
    | _ \<Rightarrow> burst r = [] \<and> \<not> closes r"
  using assms by (induction n r arbitrary: res r' rule: read.induct) (auto split: if_splits read_result.splits)

lemma find_subsequence_bound: "find_subsequence xs n = Some p \<Longrightarrow> p + length n \<le> length xs"
proof (induction xs arbitrary: p)
  case (Cons x xs)
  show ?case
  proof (cases "take (length n) (x # xs) = n")
    case True
    then have "length n \<le> length (x # xs)" by (metis length_take min.cobounded1)
    with True Cons(2) show ?thesis by simp
  qed (use Cons in auto)
qed simp

lemma find_subsequence_prefix: "find_subsequence xs n = Some p \<Longrightarrow> find_subsequence (xs @ ys) n = Some p"
proof (induction xs arbitrary: p)
  case (Cons x xs)
  have l: "p + length n \<le> length (x # xs)" using find_subsequence_bound [OF Cons(2)] .
  show ?case
  proof (cases "take (length n) (x # xs) = n")
    case True
    have "take (length n) ((x # xs) @ ys) = take (length n) (x # xs)" using l by (simp only: take_append) simp
    with True Cons(2) show ?thesis by simp
  next
    case False
    then obtain q where q: "find_subsequence xs n = Some q" "p = Suc q" using Cons(2) by auto
    have "take (length n) ((x # xs) @ ys) = take (length n) (x # xs)" using l by (simp only: take_append) simp
    with False q Cons(1) [OF q(1)] show ?thesis by simp
  qed
qed simp

lemma find_subsequence_later:
  "find_subsequence xs n = None \<Longrightarrow> find_subsequence (xs @ ys) n = Some p \<Longrightarrow> n \<noteq> [] \<Longrightarrow> length xs < p + length n"
proof (induction xs arbitrary: p)
  case (Cons x xs)
  from Cons(2) have no: "take (length n) (x # xs) \<noteq> n" "find_subsequence xs n = None" by (auto split: if_splits)
  show ?case
  proof (cases p)
    case 0
    have "take (length n) ((x # xs) @ ys) = n"
      using Cons(3) 0 by (auto split: if_splits)
    moreover have "take (length n) ((x # xs) @ ys) = take (length n) (x # xs)" if "length n \<le> length (x # xs)"
      using that by (simp only: take_append) simp
    ultimately have "\<not> length n \<le> length (x # xs)" using no(1) by argo
    then show ?thesis using 0 by simp
  next
    case (Suc q)
    then have "find_subsequence (xs @ ys) n = Some q" using Cons(3) by (auto split: if_splits)
    with Cons(1) [OF no(2)] Cons(4) Suc show ?thesis by simp
  qed
qed simp

definition head_spec :: "u8 list \<Rightarrow> bool \<Rightarrow> request_error + nat" where
  "head_spec bytes closed =
     (case find_subsequence bytes [13, 10, 13, 10] of
        Some pos \<Rightarrow> if pos + 4 > MAX_HEAD_BYTES then Inl HeadTooLong else Inr (pos + 4)
      | None \<Rightarrow> if length bytes \<ge> MAX_HEAD_BYTES then Inl HeadTooLong else Inl (if closed then HeadClosed else HeadFailed))"

definition request_spec :: "(request_head \<Rightarrow> nat) \<Rightarrow> u8 list \<Rightarrow> bool \<Rightarrow> request_error + request_head \<times> request_body" where
  "request_spec body_limit bytes closed =
     (case head_spec bytes closed of
        Inl e \<Rightarrow> Inl e
      | Inr n \<Rightarrow>
          (case from_utf8 (take n bytes) of
             None \<Rightarrow> Inl HeadNotUtf8
           | Some text \<Rightarrow>
               (case parse_request_head text of
                  None \<Rightarrow> Inl HeadMalformed
                | Some head \<Rightarrow>
                    let want = rh_content_length head; rest = drop n bytes
                    in if want > body_limit head then Inr (head, TooLarge)
                       else if want \<le> length rest \<or> closed then Inr (head, Complete (take want rest))
                       else Inl BodyFailed)))"

lemma read_head_loop_spec:
  "(read_head_loop clock deadline k buf r = Inl HeadLate \<and> (\<exists>j\<ge>k. deadline \<le> clock j))
   \<or> (case head_spec (buf @ burst r) (closes r) of
        Inl e \<Rightarrow> read_head_loop clock deadline k buf r = Inl e
      | Inr n \<Rightarrow> \<exists>b k' r'. read_head_loop clock deadline k buf r = Inr (n, b, k', r') \<and> k \<le> k' \<and> b @ burst r' = buf @ burst r
                 \<and> closes r' = closes r \<and> n \<le> length b)"
proof (induction clock deadline k buf r rule: read_head_loop.induct)
  case (1 clock deadline k buf r)
  consider (found) pos where "find_subsequence buf [13, 10, 13, 10] = Some pos"
    | (long) "find_subsequence buf [13, 10, 13, 10] = None" "length buf \<ge> MAX_HEAD_BYTES"
    | (more) "find_subsequence buf [13, 10, 13, 10] = None" "length buf < MAX_HEAD_BYTES" by (cases "find_subsequence buf [13, 10, 13, 10]") force+
  then show ?case
  proof cases
    case found
    from find_subsequence_prefix [OF found] find_subsequence_bound [OF found] show ?thesis
      by (auto simp: read_head_loop.simps [of clock deadline k buf r] request_head_end_def head_spec_def found)
  next
    case long
    have "head_spec (buf @ burst r) (closes r) = Inl HeadTooLong"
      using long find_subsequence_later [OF long(1), of "burst r"] by (auto simp: head_spec_def split: option.split)
    then show ?thesis using long by (simp add: read_head_loop.simps [of clock deadline k buf r] request_head_end_def)
  next
    case more
    then have he: "request_head_end buf = Inr None" by (simp add: request_head_end_def)
    show ?thesis
    proof (cases "clock k \<ge> deadline")
      case True
      then show ?thesis using he by (auto simp: read_head_loop.simps [of clock deadline k buf r])
    next
      case early: False
      obtain res s where rd: "read 4096 r = (res, s)" by fastforce
      note b = read_burst [OF rd, simplified]
      show ?thesis
      proof (cases "\<exists>bs. res = Got bs \<and> bs \<noteq> []")
        case False
        then have "read_head_loop clock deadline k buf r = Inl (if closes r then HeadClosed else HeadFailed)" "burst r = []"
          using rd b early he by (auto simp: read_head_loop.simps [of clock deadline k buf r] split: read_result.splits)
        then show ?thesis using more by (simp add: head_spec_def)
      next
        case True
        then obtain bs where bs: "res = Got bs" "bs \<noteq> []" by blast
        with b have f: "burst r = bs @ burst s" "closes s = closes r" by simp_all
        have "read_head_loop clock deadline k buf r = read_head_loop clock deadline (Suc k) (buf @ bs) s"
          using rd early he bs by (simp add: read_head_loop.simps [of clock deadline k buf r])
        moreover note 1 [OF he refl early rd [symmetric] bs(1) bs(2)]
        ultimately show ?thesis unfolding f append_assoc by (force split: sum.splits dest: Suc_leD)
      qed
    qed
  qed
qed

lemma read_body_loop_spec:
  "(read_body_loop clock deadline want k body r = Inl BodyLate \<and> (\<exists>j\<ge>k. deadline \<le> clock j))
   \<or> (if want \<le> length (body @ burst r) \<or> closes r
      then \<exists>b. read_body_loop clock deadline want k body r = Inr b \<and> take want b = take want (body @ burst r)
      else read_body_loop clock deadline want k body r = Inl BodyFailed)"
proof (induction clock deadline want k body r rule: read_body_loop.induct)
  case (1 clock deadline want k body r)
  show ?case
  proof (cases "want \<le> length body")
    case True
    then show ?thesis by (simp add: read_body_loop.simps [of clock deadline want k body r])
  next
    case short: False
    show ?thesis
    proof (cases "clock k \<ge> deadline")
      case True
      then show ?thesis using short by (auto simp: read_body_loop.simps [of clock deadline want k body r])
    next
      case early: False
      obtain res s where rd: "read 4096 r = (res, s)" by fastforce
      note b = read_burst [OF rd, simplified]
      show ?thesis
      proof (cases "\<exists>bs. res = Got bs \<and> bs \<noteq> []")
        case False
        then have "read_body_loop clock deadline want k body r = (if closes r then Inr body else Inl BodyFailed)" "burst r = []"
          using rd b early short by (auto simp: read_body_loop.simps [of clock deadline want k body r] split: read_result.splits)
        then show ?thesis using short by simp
      next
        case True
        then obtain bs where bs: "res = Got bs" "bs \<noteq> []" by blast
        with b have f: "burst r = bs @ burst s" "closes s = closes r" by simp_all
        have "read_body_loop clock deadline want k body r = read_body_loop clock deadline want (Suc k) (body @ bs) s"
          using rd early short bs by (simp add: read_body_loop.simps [of clock deadline want k body r])
        moreover note 1 [OF short early rd [symmetric] bs(1) bs(2)]
        ultimately show ?thesis unfolding f append_assoc by (auto dest: Suc_leD)
      qed
    qed
  qed
qed

text \<open>
  \<^bold>\<open>C31\<close>. However the network cuts a request into pieces, the server reads the same request out of the same bytes: the head up to
  the first empty line, refused exactly when that line does not end within 32 KiB; the declared body, refused unread when it exceeds
  the route's limit, cut to the declared length, shorter only when the peer closed. The one other outcome is the deadline: it is
  reported only when 30 seconds had passed at some look at the clock. No body ever exceeds the limit of its route.
\<close>

theorem read_request_exact:
  "(read_request clock body_limit r = request_spec body_limit (burst r) (closes r)
    \<or> ((\<exists>j. clock 0 + from_secs 30 \<le> clock j) \<and> read_request clock body_limit r \<in> {Inl HeadLate, Inl BodyLate}))
   \<and> (case read_request clock body_limit r of Inr (head, Complete body) \<Rightarrow> length body \<le> body_limit head | _ \<Rightarrow> True)"
proof
  show "case read_request clock body_limit r of Inr (head, Complete body) \<Rightarrow> length body \<le> body_limit head | _ \<Rightarrow> True"
    by (auto simp: read_request_def Let_def split: sum.split option.split)
  let ?d = "clock 0 + REQUEST_DEADLINE"
  note h = read_head_loop_spec [of clock ?d 1 "[]" r, unfolded append_Nil]
  show "read_request clock body_limit r = request_spec body_limit (burst r) (closes r)
    \<or> ((\<exists>j. clock 0 + from_secs 30 \<le> clock j) \<and> read_request clock body_limit r \<in> {Inl HeadLate, Inl BodyLate})"
  proof (cases "head_spec (burst r) (closes r)")
    case (Inl e)
    with h show ?thesis by (auto simp: read_request_def request_spec_def REQUEST_DEADLINE_def)
  next
    case (Inr n)
    show ?thesis
    proof (cases "read_head_loop clock ?d 1 [] r = Inl HeadLate")
      case True
      with h Inr show ?thesis by (auto simp: read_request_def REQUEST_DEADLINE_def)
    next
      case False
      with h Inr obtain b k' r' where hd: "read_head_loop clock ?d 1 [] r = Inr (n, b, k', r')" "burst r = b @ burst r'"
        "closes r' = closes r" "n \<le> length b" by auto
      then have t: "take n (burst r) = take n b" "drop n (burst r) = drop n b @ burst r'" by simp_all
      note hd1 = hd(1) [unfolded One_nat_def]
      show ?thesis
      proof (cases "from_utf8 (take n b)")
        case None
        then show ?thesis by (simp add: read_request_def request_spec_def Inr Let_def hd1 t(1))
      next
        case (Some words)
        show ?thesis
        proof (cases "parse_request_head words")
          case None
          then show ?thesis using Some by (simp add: read_request_def request_spec_def Inr Let_def hd1 t(1))
        next
          case head: (Some head)
          note bl = read_body_loop_spec [of clock ?d "rh_content_length head" k' "drop n b" r', folded t(2)]
          let ?want = "rh_content_length head"
          have rq: "read_request clock body_limit r =
            (if ?want > body_limit head then Inr (head, TooLarge)
             else case read_body_loop clock ?d ?want k' (drop n b) r' of Inl e \<Rightarrow> Inl e | Inr body \<Rightarrow> Inr (head, Complete (take ?want body)))"
            using Some head by (simp add: read_request_def Let_def hd1)
          have rs: "request_spec body_limit (burst r) (closes r) =
            (if ?want > body_limit head then Inr (head, TooLarge)
             else if ?want \<le> length (drop n (burst r)) \<or> closes r then Inr (head, Complete (take ?want (drop n (burst r))))
             else Inl BodyFailed)"
            using Some head by (simp add: request_spec_def Inr t(1) Let_def)
          show ?thesis unfolding rq rs using bl hd(3) by (auto simp: REQUEST_DEADLINE_def)
        qed
      qed
    qed
  qed
qed

section \<open>What a form carries\<close>

text \<open>How a browser writes a form, or a query: bytes of names and values escaped, spaces as plus signs.\<close>

definition upper_hex :: "nat \<Rightarrow> rchar" where
  "upper_hex n = (if n < 10 then 48 + n else 55 + n)"

definition form_byte :: "u8 \<Rightarrow> rstring" where
  "form_byte b =
     (let c = unat b
      in if c = 32 then [43]
         else if is_ascii_alphanumeric c \<or> c \<in> {42, 45, 46, 95} then [c]
         else [37, upper_hex (c div 16), upper_hex (c mod 16)])"

definition form_text :: "rstring \<Rightarrow> rstring" where
  "form_text s = concat (map form_byte (str_bytes s))"

fun join_on :: "rchar \<Rightarrow> rstring list \<Rightarrow> rstring" where
  "join_on sep [] = []"
| "join_on sep [s] = s"
| "join_on sep (s # ss) = s @ sep # join_on sep ss"

definition form_body :: "(rstring \<times> rstring) list \<Rightarrow> rstring" where
  "form_body kvs = join_on 38 (map (\<lambda>(k, v). form_text k @ 61 # form_text v) kvs)"

lemma unat_below_256: "unat (b :: u8) < 256"
  using unsigned_less [of b] by simp

lemma upper_hex_alphanumeric: "n < 16 \<Longrightarrow> is_ascii_alphanumeric (upper_hex n)"
  by (simp add: upper_hex_def is_ascii_alphanumeric_def)

lemma form_byte_chars: "c \<in> set (form_byte b) \<Longrightarrow> is_ascii_alphanumeric c \<or> c \<in> {37, 42, 43, 45, 46, 95}"
proof -
  let ?u = "unat b"
  have h: "is_ascii_alphanumeric (upper_hex (?u div 16))" "is_ascii_alphanumeric (upper_hex (?u mod 16))"
    using unat_below_256 [of b] by (simp_all add: upper_hex_alphanumeric)
  show "c \<in> set (form_byte b) \<Longrightarrow> ?thesis"
    by (cases "?u = 32"; cases "is_ascii_alphanumeric ?u \<or> ?u \<in> {42, 45, 46, 95}") (use h in \<open>auto simp: form_byte_def Let_def\<close>)
qed

lemma form_text_chars: "c \<in> set (form_text s) \<Longrightarrow> c \<noteq> 38 \<and> c \<noteq> 61 \<and> c < 128"
  by (auto simp: form_text_def is_ascii_alphanumeric_def dest!: form_byte_chars)

lemma ascii_bytes: "list_all (\<lambda>c. c < 128) s \<Longrightarrow> str_bytes s = map of_nat s"
  by (induction s) (simp_all add: utf8_bytes_def)

lemma to_digit_upper_hex: "n < 16 \<Longrightarrow> to_digit 16 (upper_hex n) = Some n"
  by (auto simp: to_digit_def upper_hex_def Let_def)

lemma percent_form_byte: "percent_bytes (map of_nat (form_byte b) @ bs) = b # percent_bytes bs"
proof -
  let ?c = "unat b"
  have d: "?c div 16 < 16" "?c mod 16 < 16" using unat_below_256 [of b] by auto
  have u: "unat (of_nat (upper_hex n) :: u8) = upper_hex n" if "n < 16" for n using that by (simp add: unat_byte upper_hex_def)
  consider (space) "?c = 32" | (plain) "?c \<noteq> 32" "is_ascii_alphanumeric ?c \<or> ?c \<in> {42, 45, 46, 95}"
    | (escaped) "?c \<noteq> 32" "\<not> (is_ascii_alphanumeric ?c \<or> ?c \<in> {42, 45, 46, 95})" by blast
  then show ?thesis
  proof cases
    case space
    moreover have "(of_nat ?c :: u8) = b" by simp
    ultimately have "b = 32" by simp
    with space show ?thesis by (simp add: form_byte_def)
  next
    case plain
    then have "b \<noteq> 43" "b \<noteq> 37" by (auto simp: is_ascii_alphanumeric_def)
    with plain show ?thesis by (simp add: form_byte_def Let_def)
  next
    case escaped
    then have f: "form_byte b = [37, upper_hex (?c div 16), upper_hex (?c mod 16)]" by (simp add: form_byte_def Let_def)
    have "(of_nat (?c div 16 * 16 + ?c mod 16) :: u8) = b" by (simp only: div_mult_mod_eq) simp
    then show ?thesis unfolding f using d by (simp add: u to_digit_upper_hex)
  qed
qed

lemma percent_form_text: "percent_bytes (map of_nat (form_text s)) = str_bytes s"
proof -
  have "percent_bytes (map of_nat (concat (map form_byte bs))) = bs" for bs
    by (induction bs) (simp_all add: percent_form_byte)
  then show ?thesis by (simp add: form_text_def)
qed

lemma percent_decode_form_text: "list_all is_scalar s \<Longrightarrow> percent_decode (form_text s) = s"
proof -
  have "list_all (\<lambda>c. c < 128) (form_text s)" using form_text_chars [of _ s] by (auto simp: list_all_iff)
  then show "list_all is_scalar s \<Longrightarrow> percent_decode (form_text s) = s"
    by (simp add: percent_decode_def ascii_bytes percent_form_text from_utf8_lossy_str_bytes)
qed

lemma split_on_clean: "sep \<notin> set s \<Longrightarrow> split_on sep s = [s]"
  by (induction s) auto

lemma split_on_cons: "sep \<notin> set s \<Longrightarrow> split_on sep (s @ sep # rest) = s # split_on sep rest"
  by (induction s) auto

lemma split_on_join: "list_all (\<lambda>s. sep \<notin> set s) ss \<Longrightarrow> ss \<noteq> [] \<Longrightarrow> split_on sep (join_on sep ss) = ss"
  by (induction sep ss rule: join_on.induct) (simp_all add: split_on_clean split_on_cons)

lemma split_once_at: "c \<notin> set s \<Longrightarrow> split_once c (s @ c # rest) = Some (s, rest)"
proof -
  assume c: "c \<notin> set s"
  then have "takeWhile (\<lambda>x. x \<noteq> c) (s @ c # rest) = s" "dropWhile (\<lambda>x. x \<noteq> c) (s @ c # rest) = c # rest" by (induction s) auto
  then show ?thesis by (simp add: split_once_def)
qed

text \<open>
  What a browser writes into a form or a query the server reads back exactly: any names and values, with any characters
  in them, in their order and once; and what it looks up under a name is the first value given under it.
\<close>

theorem form_roundtrip:
  assumes "list_all (\<lambda>(k, v). list_all is_scalar k \<and> list_all is_scalar v) kvs"
  shows "parse_form (form_body kvs) = kvs \<and> form_field (parse_form (form_body kvs)) key = map_of kvs key
    \<and> query_param key (h\<lparr>rh_query := form_body kvs\<rparr>) = map_of kvs key"
proof -
  let ?enc = "\<lambda>(k, v). form_text k @ 61 # form_text v"
  have dec: "map_option (\<lambda>(k, v). (percent_decode k, percent_decode v)) (split_once 61 (?enc kv)) = Some kv" if "kv \<in> set kvs" for kv
  proof -
    obtain k v where kv: "kv = (k, v)" by fastforce
    have "61 \<notin> set (form_text k)" using form_text_chars [of 61 k] by auto
    moreover have "list_all is_scalar k" "list_all is_scalar v" using assms that kv by (auto simp: list_all_iff)
    ultimately show ?thesis by (simp add: kv split_once_at percent_decode_form_text)
  qed
  have "38 \<notin> set (?enc kv)" for kv using form_text_chars [of 38] by (auto split: prod.split)
  then have s: "split_on 38 (form_body kvs) = (if kvs = [] then [[]] else map ?enc kvs)"
    using split_on_join [of 38 "map ?enc kvs"] by (auto simp: form_body_def list_all_iff)
  have "List.map_filter f (map g xs) = List.map_filter (\<lambda>x. f (g x)) xs" for f :: "rstring \<Rightarrow> (rstring \<times> rstring) option" and g and xs :: "(rstring \<times> rstring) list"
    by (induction xs) (simp_all add: map_filter_simps split: option.split)
  moreover have "List.map_filter h xs = xs" if "\<And>x. x \<in> set xs \<Longrightarrow> h x = Some x" for h and xs :: "(rstring \<times> rstring) list"
    using that by (induction xs) (simp_all add: map_filter_simps)
  ultimately have p: "parse_form (form_body kvs) = kvs"
    using dec by (simp add: parse_form_def s map_filter_simps split_once_def)
  have "map_option snd (find (\<lambda>(k, _). k = key) xs) = map_of xs key" for xs :: "(rstring \<times> rstring) list"
    by (induction xs) auto
  with p show ?thesis by (simp add: form_field_def query_param_def)
qed

lemma form_roundtrip_witness:
  "let kvs = [(lit ''repo'', lit ''a b&c''), (lit ''path'', [0x2d, 0x20ac]), (lit ''repo'', lit ''%3D='')]
   in list_all (\<lambda>(k, v). list_all is_scalar k \<and> list_all is_scalar v) kvs \<and> parse_form (form_body kvs) = kvs
      \<and> form_field (parse_form (form_body kvs)) (lit ''repo'') = Some (lit ''a b&c'')"
proof -
  let ?kvs = "[(lit ''repo'', lit ''a b&c''), (lit ''path'', [0x2d, 0x20ac]), (lit ''repo'', lit ''%3D='')]"
  have ok: "list_all (\<lambda>(k, v). list_all is_scalar k \<and> list_all is_scalar v) ?kvs" by (simp add: is_scalar_def)
  let ?h = "\<lparr>rh_method = [], rh_path = [], rh_query = [], rh_headers = [], rh_content_length = 0\<rparr>"
  from form_roundtrip [OF ok, of "lit ''repo''" ?h] ok show ?thesis by (simp add: Let_def form_field_def)
qed

section \<open>Where a request comes from\<close>

fun split_once_str :: "rstring \<Rightarrow> rstring \<Rightarrow> (rstring \<times> rstring) option" where
  "split_once_str sep [] = None"
| "split_once_str sep (c # cs) =
     (if take (length sep) (c # cs) = sep then Some ([], drop (length sep) (c # cs))
      else map_option (\<lambda>(a, b). (c # a, b)) (split_once_str sep cs))"

definition origin_allowed :: "request_head \<Rightarrow> bool" where
  "origin_allowed h =
     (case header (lit ''origin'') h of
        None \<Rightarrow> True
      | Some origin \<Rightarrow>
          (case (map_option snd (split_once_str (lit ''://'') origin), header (lit ''host'') h) of
             (Some authority, Some host) \<Rightarrow> authority = host
           | _ \<Rightarrow> False))"

text \<open>The address parser of the standard library: numbers, four decimal octets, eight groups with at most one run left out.\<close>

definition read_number :: "nat \<Rightarrow> nat \<Rightarrow> bool \<Rightarrow> rstring \<Rightarrow> (nat \<times> rstring) option" where
  "read_number radix max_digits allow_zero_prefix s =
     (let ds = takeWhile (\<lambda>c. to_digit radix c \<noteq> None) s
      in if ds = [] \<or> length ds > max_digits \<or> (\<not> allow_zero_prefix \<and> hd ds = 48 \<and> length ds > 1) then None
         else Some (foldl (\<lambda>n c. n * radix + the (to_digit radix c)) 0 ds, dropWhile (\<lambda>c. to_digit radix c \<noteq> None) s))"

definition read_octet :: "rstring \<Rightarrow> (nat \<times> rstring) option" where
  "read_octet s = (case read_number 10 3 False s of Some (n, rest) \<Rightarrow> if n < 256 then Some (n, rest) else None | None \<Rightarrow> None)"

fun read_octets :: "nat \<Rightarrow> bool \<Rightarrow> rstring \<Rightarrow> (nat list \<times> rstring) option" where
  "read_octets 0 first s = Some ([], s)"
| "read_octets (Suc k) first s =
     (case (if first then Some s else case s of c # cs \<Rightarrow> if c = 46 then Some cs else None | [] \<Rightarrow> None) of
        None \<Rightarrow> None
      | Some s \<Rightarrow>
          (case read_octet s of
             None \<Rightarrow> None
           | Some (n, s) \<Rightarrow> (case read_octets k False s of None \<Rightarrow> None | Some (ns, s) \<Rightarrow> Some (n # ns, s))))"

definition read_ipv4 :: "rstring \<Rightarrow> (nat list \<times> rstring) option" where
  "read_ipv4 s = read_octets 4 True s"

definition after_colon :: "bool \<Rightarrow> rstring \<Rightarrow> rstring option" where
  "after_colon first s = (if first then Some s else case s of c # cs \<Rightarrow> if c = 58 then Some cs else None | [] \<Rightarrow> None)"

fun read_groups :: "nat \<Rightarrow> bool \<Rightarrow> rstring \<Rightarrow> nat list \<times> bool \<times> rstring" where
  "read_groups 0 first s = ([], False, s)"
| "read_groups (Suc k) first s =
     (case (if 0 < k then Option.bind (after_colon first s) read_ipv4 else None) of
        Some (os, rest) \<Rightarrow> ([os ! 0 * 256 + os ! 1, os ! 2 * 256 + os ! 3], True, rest)
      | None \<Rightarrow>
          (case Option.bind (after_colon first s) (read_number 16 4 True) of
             Some (n, rest) \<Rightarrow> (let (ns, v4, rest) = read_groups k False rest in (n # ns, v4, rest))
           | None \<Rightarrow> ([], False, s)))"

definition read_ipv6 :: "rstring \<Rightarrow> (nat list \<times> rstring) option" where
  "read_ipv6 s =
     (let (front, v4, rest) = read_groups 8 True s
      in if length front = 8 then Some (front, rest)
         else if v4 then None
         else if take 2 rest = [58, 58]
         then let (tail, _, rest) = read_groups (7 - length front) True (drop 2 rest)
              in Some (front @ replicate (8 - length front - length tail) 0 @ tail, rest)
         else None)"

text \<open>\<^verbatim>\<open>name.parse::<IpAddr>().is_ok_and(|ip| ip.is_loopback())\<close>.\<close>

definition is_loopback_ip :: "rstring \<Rightarrow> bool" where
  "is_loopback_ip s =
     (case read_ipv4 s of
        Some (os, rest) \<Rightarrow> rest = [] \<and> hd os = 127
      | None \<Rightarrow> (case read_ipv6 s of Some (gs, rest) \<Rightarrow> rest = [] \<and> gs = [0, 0, 0, 0, 0, 0, 0, 1] | None \<Rightarrow> False))"

definition rsplit_once :: "rchar \<Rightarrow> rstring \<Rightarrow> (rstring \<times> rstring) option" where
  "rsplit_once c s = map_option (\<lambda>(tail, front). (rev front, rev tail)) (split_once c (rev s))"

definition host_name :: "rstring \<Rightarrow> rstring" where
  "host_name host =
     (let name = (case rsplit_once 58 host of
                    Some (name, port) \<Rightarrow> if list_all is_digit port then name else host
                  | None \<Rightarrow> host)
      in rev (dropWhile (\<lambda>c. c = 93) (rev (dropWhile (\<lambda>c. c = 91) name))))"

definition host_allowed :: "request_head \<Rightarrow> bool \<Rightarrow> rstring list \<Rightarrow> bool" where
  "host_allowed h bound_loopback allowed =
     (if \<not> bound_loopback then True
      else case header (lit ''host'') h of
             None \<Rightarrow> True
           | Some host \<Rightarrow>
               let name = host_name host
               in eq_ignore_ascii_case name (lit ''localhost'') \<or> list_ex (\<lambda>a. eq_ignore_ascii_case a name) allowed
                  \<or> name = lit ''127.0.0.1'' \<or> name = lit ''::1'' \<or> is_loopback_ip name)"

definition address_char :: "rchar \<Rightarrow> bool" where
  "address_char c \<longleftrightarrow> to_digit 16 c \<noteq> None \<or> c = 46 \<or> c = 58"

text \<open>What a parser took off the front of its input.\<close>

definition took :: "rstring \<Rightarrow> rstring \<Rightarrow> bool" where
  "took s rest \<longleftrightarrow> (\<exists>front. s = front @ rest \<and> list_all address_char front)"

lemma took_refl [simp]: "took s s"
  by (simp add: took_def)

lemma took_trans: "took s t \<Longrightarrow> took t u \<Longrightarrow> took s u"
  unfolding took_def by (metis append_assoc list_all_append)

lemma took_Cons: "address_char c \<Longrightarrow> took (c # s) s"
  unfolding took_def by (rule exI [of _ "[c]"]) simp

lemma decimal_address_char: "to_digit 10 c \<noteq> None \<Longrightarrow> to_digit 16 c \<noteq> None"
  by (auto simp: to_digit_def Let_def split: if_splits)

lemma read_number_took:
  assumes "read_number radix n z s = Some (x, rest)" "radix = 10 \<or> radix = 16"
  shows "took s rest"
proof -
  let ?P = "\<lambda>c. to_digit radix c \<noteq> None"
  have "list_all address_char (takeWhile ?P s)"
    using assms(2) decimal_address_char by (auto simp: list_all_iff address_char_def dest!: set_takeWhileD)
  moreover have "rest = dropWhile ?P s" using assms(1) by (auto simp: read_number_def Let_def split: if_splits)
  ultimately show ?thesis unfolding took_def by (metis takeWhile_dropWhile_id)
qed

lemma read_octets_took: "read_octets k first s = Some (os, rest) \<Longrightarrow> took s rest"
proof (induction k first s arbitrary: os rest rule: read_octets.induct)
  case (2 k first s)
  let ?d = "if first then Some s else case s of c # cs \<Rightarrow> if c = 46 then Some cs else None | [] \<Rightarrow> None"
  obtain t n u ns where p: "?d = Some t" "read_octet t = Some (n, u)" "read_octets k False u = Some (ns, rest)"
    using 2(2) by (auto split: option.splits prod.splits)
  have "took s t" using p(1) by (auto simp: address_char_def intro!: took_Cons split: if_splits list.splits)
  moreover have "took t u" using p(2) by (auto simp: read_octet_def split: option.splits if_splits intro: read_number_took)
  moreover have "took u rest" using 2(1) [OF p(1,2) refl p(3)] .
  ultimately show ?case using took_trans by blast
qed simp

lemma after_colon_took: "after_colon first s = Some t \<Longrightarrow> took s t"
  by (auto simp: after_colon_def address_char_def intro!: took_Cons split: if_splits list.splits)

lemma read_groups_took: "read_groups k first s = (gs, v4, rest) \<Longrightarrow> took s rest"
proof (induction k first s arbitrary: gs v4 rest rule: read_groups.induct)
  case (2 k first s)
  let ?v4 = "if 0 < k then Option.bind (after_colon first s) read_ipv4 else None"
  show ?case
  proof (cases ?v4)
    case (Some x)
    then obtain t os where "after_colon first s = Some t" "read_octets 4 True t = Some (os, rest)"
      using 2(2) by (cases x) (auto simp: read_ipv4_def bind_eq_Some_conv split: if_splits)
    then show ?thesis using after_colon_took read_octets_took took_trans by blast
  next
    case None
    show ?thesis
    proof (cases "Option.bind (after_colon first s) (read_number 16 4 True)")
      case (Some x)
      then obtain t n u where t: "after_colon first s = Some t" "read_number 16 4 True t = Some (n, u)" "x = (n, u)"
        by (cases x) (auto simp: bind_eq_Some_conv)
      obtain ns w where r: "read_groups k False u = (ns, w, rest)" using 2(2) None Some t(3) by (auto split: prod.splits)
      have "took s t" using after_colon_took [OF t(1)] .
      moreover have "took t u" using read_number_took [OF t(2)] by simp
      moreover have "took u rest" using 2(1) [OF None Some t(3) [symmetric] r] .
      ultimately show ?thesis using took_trans by blast
    next
      case None2: None
      with None 2(2) show ?thesis by auto
    qed
  qed
qed simp

lemma read_ipv6_took: "read_ipv6 s = Some (gs, rest) \<Longrightarrow> took s rest"
proof -
  assume r: "read_ipv6 s = Some (gs, rest)"
  obtain front v4 t where f: "read_groups 8 True s = (front, v4, t)" by (metis surj_pair)
  show ?thesis
  proof (cases "length front = 8")
    case True
    with r f read_groups_took show ?thesis by (auto simp: read_ipv6_def)
  next
    case False
    obtain tail w u where b: "read_groups (7 - length front) True (drop 2 t) = (tail, w, u)" by (metis surj_pair)
    from r f b False have "take 2 t = [58, 58]" "rest = u" by (auto simp: read_ipv6_def split: if_splits)
    then have "t = [58, 58] @ drop 2 t" by (metis append_take_drop_id)
    then have "took t (drop 2 t)" unfolding took_def by (intro exI [of _ "[58, 58]"]) (simp add: address_char_def)
    then show ?thesis using read_groups_took [OF f] read_groups_took [OF b] \<open>rest = u\<close> took_trans by blast
  qed
qed

text \<open>
  A server bound to loopback cannot be reached under a name that an attacker has pointed at it: when the host of a request
  holds any character no address has, and is neither \<^verbatim>\<open>localhost\<close> nor a name the operator listed, in any case, the request is
  refused; whatever the case of the header's name, the port, the brackets and the other headers.
\<close>

theorem rebound_host_refused:
  assumes "header (lit ''host'') h = Some host" "c \<in> set (host_name host)" "\<not> address_char c"
    "\<not> eq_ignore_ascii_case (host_name host) (lit ''localhost'')" "\<forall>a \<in> set allowed. \<not> eq_ignore_ascii_case a (host_name host)"
  shows "\<not> host_allowed h True allowed"
proof -
  let ?n = "host_name host"
  have no: "\<not> took ?n []" using assms(2,3) by (auto simp: took_def list_all_iff)
  then have "\<not> is_loopback_ip ?n"
    using read_octets_took [of 4 True ?n] read_ipv6_took [of ?n]
    by (auto simp: is_loopback_ip_def read_ipv4_def split: option.splits)
  moreover have "took (lit ''127.0.0.1'') []" "took (lit ''::1'') []" by (simp_all add: took_def address_char_def to_digit_def)
  then have "?n \<noteq> lit ''127.0.0.1''" "?n \<noteq> lit ''::1''" using no by metis+
  ultimately show ?thesis using assms by (simp add: host_allowed_def Let_def list_ex_iff)
qed

lemma rebound_host_refused_witness:
  "let h = \<lparr>rh_method = lit ''POST'', rh_path = lit ''/login'', rh_query = [], rh_headers = [(lit ''host'', lit ''evil.example:8080'')],
            rh_content_length = 0\<rparr>
   in header (lit ''host'') h = Some (lit ''evil.example:8080'') \<and> host_name (lit ''evil.example:8080'') = lit ''evil.example''
      \<and> \<not> host_allowed h True [lit ''box.local'']"
proof -
  let ?h = "\<lparr>rh_method = lit ''POST'', rh_path = lit ''/login'', rh_query = [], rh_headers = [(lit ''host'', lit ''evil.example:8080'')],
            rh_content_length = 0\<rparr>"
  have h: "header (lit ''host'') ?h = Some (lit ''evil.example:8080'')" by (simp add: header_def to_ascii_lowercase_def)
  have n: "host_name (lit ''evil.example:8080'') = lit ''evil.example''"
    by (simp add: host_name_def rsplit_once_def split_once_def is_digit_def Let_def)
  have c: "(120 :: rchar) \<in> set (host_name (lit ''evil.example:8080''))" "\<not> address_char 120"
    "\<not> eq_ignore_ascii_case (host_name (lit ''evil.example:8080'')) (lit ''localhost'')"
    "\<forall>a \<in> set [lit ''box.local'']. \<not> eq_ignore_ascii_case a (host_name (lit ''evil.example:8080''))"
    unfolding n by (simp_all add: address_char_def to_digit_def eq_ignore_ascii_case_def to_ascii_lowercase_def)
  from rebound_host_refused [OF h c] h n show ?thesis by (simp add: Let_def)
qed

section \<open>Connection slots\<close>

text \<open>
  \<^verbatim>\<open>ConnectionSlot::acquire\<close> is two atomic steps when it fails: the claim, whose answer decides, and the giving back. The handlers of
  a server run their steps in any order; \<open>sl_refused\<close> counts those between a failed claim and its giving back.
\<close>

record slot_state =
  sl_counter :: nat
  sl_held :: nat
  sl_refused :: nat

definition slot_claim :: "nat \<Rightarrow> nat \<Rightarrow> nat \<times> bool" where
  "slot_claim cap counter = (counter + 1, counter < cap)"

definition slot_give_back :: "nat \<Rightarrow> nat" where
  "slot_give_back counter = counter - 1"

datatype slot_event = SlotClaim | SlotGiveBack | SlotDrop

fun slot_step :: "nat \<Rightarrow> slot_state \<Rightarrow> slot_event \<Rightarrow> slot_state" where
  "slot_step cap s SlotClaim =
     (let (counter, granted) = slot_claim cap (sl_counter s)
      in if granted then s\<lparr>sl_counter := counter, sl_held := sl_held s + 1\<rparr>
         else s\<lparr>sl_counter := counter, sl_refused := sl_refused s + 1\<rparr>)"
| "slot_step cap s SlotGiveBack =
     (if sl_refused s = 0 then s else s\<lparr>sl_counter := slot_give_back (sl_counter s), sl_refused := sl_refused s - 1\<rparr>)"
| "slot_step cap s SlotDrop =
     (if sl_held s = 0 then s else s\<lparr>sl_counter := slot_give_back (sl_counter s), sl_held := sl_held s - 1\<rparr>)"

definition slot_state_inv :: "nat \<Rightarrow> slot_state \<Rightarrow> bool" where
  "slot_state_inv cap s \<longleftrightarrow> sl_counter s = sl_held s + sl_refused s \<and> sl_held s \<le> cap"

interpretation connection_slots: event_machine "\<lambda>_ _. True" "slot_step cap" "slot_state_inv cap" for cap
proof
  fix s e
  assume "slot_state_inv cap s"
  then show "slot_state_inv cap (slot_step cap s e)"
    by (cases e) (auto simp: slot_state_inv_def slot_claim_def slot_give_back_def Let_def)
qed

text \<open>
  However the steps of concurrent handlers interleave, no more than the cap of connections hold a slot, and the counter is
  exactly the slots held and the failed claims not yet given back: when all is quiet every slot is free again, so none leaks.
\<close>

theorem connections_capped:
  "let s = run (slot_step cap) \<lparr>sl_counter = 0, sl_held = 0, sl_refused = 0\<rparr> es
   in sl_held s \<le> cap \<and> sl_counter s = sl_held s + sl_refused s"
proof -
  have "slot_state_inv cap (run (slot_step cap) \<lparr>sl_counter = 0, sl_held = 0, sl_refused = 0\<rparr> es)"
    by (rule connection_slots.run_inv) (simp_all add: slot_state_inv_def)
  then show ?thesis by (simp add: slot_state_inv_def Let_def)
qed

end
