(* ===== verification/Event_Stream.thy ===== *)
theory Event_Stream
  imports Web_Request
begin

text \<open>
  Server-sent events, \<^verbatim>\<open>src/web/common/sse.rs\<close>. What is written is kept as text; whether a write reaches the peer is an argument.
\<close>

definition SSE_HEAD :: rstring where
  "SSE_HEAD = lit ''HTTP/1.1 200 OK'' @ crlf @ lit ''Content-Type: text/event-stream'' @ crlf @ lit ''Cache-Control: no-store'' @ crlf
     @ lit ''X-Content-Type-Options: nosniff'' @ crlf @ lit ''Connection: keep-alive'' @ crlf @ lit ''X-Accel-Buffering: no'' @ crlf @ crlf"

datatype sse_error = SseInvalidInput | SseWriteFailed

record sse_stream =
  sse_sink :: rstring
  sse_next_id :: u64

definition sse_start :: "bool \<Rightarrow> sse_error + sse_stream" where
  "sse_start ok = (if ok then Inr \<lparr>sse_sink = SSE_HEAD, sse_next_id = 0\<rparr> else Inl SseWriteFailed)"

fun split_newlines :: "rstring \<Rightarrow> rstring list" where
  "split_newlines [] = [[]]"
| "split_newlines (c # cs) =
     (if c = 10 \<or> c = 13 then [] # split_newlines cs
      else case split_newlines cs of [] \<Rightarrow> [[c]] | l # ls \<Rightarrow> (c # l) # ls)"

definition data_lines :: "rstring \<Rightarrow> rstring list" where
  "data_lines data = concat (map split_newlines (split_crlf data))"

definition event_text :: "u64 \<Rightarrow> rstring \<Rightarrow> rstring \<Rightarrow> rstring" where
  "event_text n event data =
     lit ''id: '' @ dec_str (unat n) @ [10] @ lit ''event: '' @ event @ [10]
     @ concat (map (\<lambda>line. lit ''data: '' @ line @ [10]) (data_lines data)) @ [10]"

definition sse_send :: "bool \<Rightarrow> rstring \<Rightarrow> rstring \<Rightarrow> sse_stream \<Rightarrow> (sse_error + u64) \<times> sse_stream" where
  "sse_send ok event data s =
     (if event = [] \<or> 13 \<in> set event \<or> 10 \<in> set event then (Inl SseInvalidInput, s)
      else
        let n = sse_next_id s;
            s = s\<lparr>sse_next_id := sse_next_id s + 1\<rparr>
        in if ok then (Inr n, s\<lparr>sse_sink := sse_sink s @ event_text n event data\<rparr>) else (Inl SseWriteFailed, s))"

definition sse_heartbeat :: "bool \<Rightarrow> sse_stream \<Rightarrow> (sse_error + unit) \<times> sse_stream" where
  "sse_heartbeat ok s =
     (if ok then (Inr (), s\<lparr>sse_sink := sse_sink s @ lit '': keep-alive'' @ [10, 10]\<rparr>) else (Inl SseWriteFailed, s))"

section \<open>What a browser makes of a stream\<close>

text \<open>The grammar of the standard: lines end with CR LF, LF or CR; an empty line dispatches what the fields before it built.\<close>

function eol_lines :: "rstring \<Rightarrow> rstring list" where
  "eol_lines [] = [[]]"
| "eol_lines (c # cs) =
     (if c = 10 then [] # eol_lines cs
      else if c = 13 then [] # eol_lines (if cs \<noteq> [] \<and> hd cs = 10 then tl cs else cs)
      else case eol_lines cs of [] \<Rightarrow> [[c]] | l # ls \<Rightarrow> (c # l) # ls)"
  by pat_completeness auto
termination
  by (relation "measure length") (auto simp: less_Suc_eq)

record browser =
  br_id :: rstring
  br_event :: rstring
  br_data :: "rstring list"
  br_seen :: "(rstring \<times> rstring \<times> rstring) list"

definition join_lines :: "rstring list \<Rightarrow> rstring" where
  "join_lines ls = join_on 10 ls"

definition browser_line :: "browser \<Rightarrow> rstring \<Rightarrow> browser" where
  "browser_line b line =
     (if line = [] then
        (if br_data b = [] then b\<lparr>br_event := []\<rparr>
         else b\<lparr>br_event := [], br_data := [], br_seen := br_seen b @ [(br_id b, br_event b, join_lines (br_data b))]\<rparr>)
      else if hd line = 58 then b
      else
        let (field, value) = (case split_once 58 line of
                                Some (f, v) \<Rightarrow> (f, case v of c # cs \<Rightarrow> if c = 32 then cs else v | [] \<Rightarrow> [])
                              | None \<Rightarrow> (line, []))
        in if field = lit ''event'' then b\<lparr>br_event := value\<rparr>
           else if field = lit ''data'' then b\<lparr>br_data := br_data b @ [value]\<rparr>
           else if field = lit ''id'' then b\<lparr>br_id := value\<rparr>
           else b)"

definition browser_new :: browser where
  "browser_new = \<lparr>br_id = [], br_event = [], br_data = [], br_seen = []\<rparr>"

definition browser_reads :: "rstring \<Rightarrow> (rstring \<times> rstring \<times> rstring) list" where
  "browser_reads s = br_seen (foldl browser_line browser_new (butlast (eol_lines s)))"

datatype sse_call = SseSend rstring rstring | SseHeartbeat

fun sse_step :: "sse_stream \<Rightarrow> sse_call \<Rightarrow> sse_stream" where
  "sse_step s (SseSend event data) = snd (sse_send True event data s)"
| "sse_step s SseHeartbeat = snd (sse_heartbeat True s)"

text \<open>What the calls meant: one event for every send of a plain name, numbered in order.\<close>

fun meant :: "u64 \<Rightarrow> sse_call list \<Rightarrow> (rstring \<times> rstring \<times> rstring) list" where
  "meant n [] = []"
| "meant n (SseHeartbeat # cs) = meant n cs"
| "meant n (SseSend event data # cs) =
     (if event = [] \<or> 13 \<in> set event \<or> 10 \<in> set event then meant n cs
      else (dec_str (unat n), event, join_lines (eol_lines data)) # meant (n + 1) cs)"

lemma eol_lines_nonempty: "eol_lines s \<noteq> []"
  by (induction s rule: eol_lines.induct) (auto split: list.split)

lemma split_crlf_nonempty: "split_crlf s \<noteq> []"
  by (induction s rule: split_crlf.induct) (auto split: list.split)

lemma split_newlines_nonempty: "split_newlines s \<noteq> []"
  by (induction s) (auto split: list.split)

lemma data_lines_eol: "data_lines s = eol_lines s"
proof (induction s rule: split_crlf.induct)
  case 1
  then show ?case by (simp add: data_lines_def)
next
  case (2 c cs)
  show ?case
  proof (cases "c = 13 \<and> cs \<noteq> [] \<and> hd cs = 10")
    case True
    with 2(1) show ?thesis by (simp add: data_lines_def)
  next
    case False
    obtain l ls where l: "split_crlf cs = l # ls" using split_crlf_nonempty [of cs] by (cases "split_crlf cs") auto
    obtain m ms where m: "split_newlines l = m # ms" using split_newlines_nonempty [of l] by (cases "split_newlines l") auto
    have "data_lines cs = eol_lines cs" using 2(2) False by blast
    then have e: "eol_lines cs = m # ms @ concat (map split_newlines ls)" using l m by (simp add: data_lines_def)
    have "data_lines (c # cs) = split_newlines (c # l) @ concat (map split_newlines ls)"
      using False l by (auto simp: data_lines_def)
    moreover have "eol_lines (c # cs) = split_newlines (c # l) @ concat (map split_newlines ls)" using False e m by auto
    ultimately show ?thesis by simp
  qed
qed

lemma eol_lines_clean: "list_all (\<lambda>l. 10 \<notin> set l \<and> 13 \<notin> set l) (eol_lines s)"
  by (induction s rule: eol_lines.induct) (auto split: list.split)

lemma eol_lines_line: "10 \<notin> set l \<Longrightarrow> 13 \<notin> set l \<Longrightarrow> eol_lines (l @ 10 # rest) = l # eol_lines rest"
  by (induction l) auto

lemma eol_lines_concat:
  "list_all (\<lambda>l. 10 \<notin> set l \<and> 13 \<notin> set l) ls \<Longrightarrow> eol_lines (concat (map (\<lambda>l. l @ [10]) ls) @ rest) = ls @ eol_lines rest"
  by (induction ls) (simp_all add: eol_lines_line)

definition call_lines :: "u64 \<Rightarrow> sse_call \<Rightarrow> rstring list" where
  "call_lines n c =
     (case c of
        SseHeartbeat \<Rightarrow> [lit '': keep-alive'', []]
      | SseSend event data \<Rightarrow>
          if event = [] \<or> 13 \<in> set event \<or> 10 \<in> set event then []
          else [lit ''id: '' @ dec_str (unat n), lit ''event: '' @ event] @ map (\<lambda>l. lit ''data: '' @ l) (data_lines data) @ [[]])"

fun all_lines :: "u64 \<Rightarrow> sse_call list \<Rightarrow> rstring list" where
  "all_lines n [] = []"
| "all_lines n (c # cs) =
     call_lines n c @ all_lines (case c of SseSend event _ \<Rightarrow> if event = [] \<or> 13 \<in> set event \<or> 10 \<in> set event then n else n + 1
                                 | SseHeartbeat \<Rightarrow> n) cs"

lemma sse_run_text:
  "sse_sink (run sse_step s cs) = sse_sink s @ concat (map (\<lambda>l. l @ [10]) (all_lines (sse_next_id s) cs))"
proof (induction cs arbitrary: s)
  case (Cons c cs)
  have "sse_sink (sse_step s c) = sse_sink s @ concat (map (\<lambda>l. l @ [10]) (call_lines (sse_next_id s) c))"
    by (cases c) (simp_all add: sse_send_def sse_heartbeat_def call_lines_def event_text_def Let_def comp_def)
  moreover have "sse_next_id (sse_step s c) = (case c of SseSend event _ \<Rightarrow> if event = [] \<or> 13 \<in> set event \<or> 10 \<in> set event
      then sse_next_id s else sse_next_id s + 1 | SseHeartbeat \<Rightarrow> sse_next_id s)"
    by (cases c) (simp_all add: sse_send_def sse_heartbeat_def Let_def)
  ultimately show ?case by (simp add: Cons)
qed simp

lemma browser_field:
  "f \<noteq> [] \<Longrightarrow> 58 \<notin> set f \<Longrightarrow> browser_line b (f @ 58 # 32 # v) =
     (if f = lit ''event'' then b\<lparr>br_event := v\<rparr>
      else if f = lit ''data'' then b\<lparr>br_data := br_data b @ [v]\<rparr>
      else if f = lit ''id'' then b\<lparr>br_id := v\<rparr> else b)"
  using split_once_at [of 58 f "32 # v"] by (cases f) (auto simp: browser_line_def simp del: lit_simps)

lemma browser_field_lines:
  "browser_line b (lit ''event: '' @ v) = b\<lparr>br_event := v\<rparr>"
  "browser_line b (lit ''data: '' @ v) = b\<lparr>br_data := br_data b @ [v]\<rparr>"
  "browser_line b (lit ''id: '' @ v) = b\<lparr>br_id := v\<rparr>"
  using browser_field [of "lit ''event''" b v] browser_field [of "lit ''data''" b v] browser_field [of "lit ''id''" b v] by simp_all

lemma browser_data: "foldl browser_line b (map (\<lambda>l. lit ''data: '' @ l) ls) = b\<lparr>br_data := br_data b @ ls\<rparr>"
  by (induction ls arbitrary: b) (simp_all add: browser_field_lines del: lit_simps)

lemma browser_call:
  assumes "br_data b = []" "br_event b = []"
  shows "foldl browser_line b (call_lines n c) =
    (case c of SseHeartbeat \<Rightarrow> b
     | SseSend event data \<Rightarrow>
         if event = [] \<or> 13 \<in> set event \<or> 10 \<in> set event then b
         else b\<lparr>br_id := dec_str (unat n),
                br_seen := br_seen b @ [(dec_str (unat n), event, join_lines (eol_lines data))]\<rparr>)"
proof (cases c)
  case SseHeartbeat
  then show ?thesis using assms by (cases b) (simp add: call_lines_def browser_line_def)
next
  case (SseSend event data)
  show ?thesis
  proof (cases "event = [] \<or> 13 \<in> set event \<or> 10 \<in> set event")
    case True
    then show ?thesis using SseSend by (auto simp: call_lines_def)
  next
    case False
    then show ?thesis using SseSend assms eol_lines_nonempty [of data]
      by (cases b) (simp add: call_lines_def browser_field_lines browser_data data_lines_eol browser_line_def [of _ "[]"] del: lit_simps)
  qed
qed

lemma browser_all:
  "br_data b = [] \<Longrightarrow> br_event b = [] \<Longrightarrow> br_seen (foldl browser_line b (all_lines n cs)) = br_seen b @ meant n cs"
proof (induction cs arbitrary: b n)
  case (Cons c cs)
  from Cons(2,3) show ?case
    by (cases c) (simp_all add: browser_call Cons(1))
qed simp

lemma dec_str_clean: "10 \<notin> set (dec_str n) \<and> 13 \<notin> set (dec_str n)"
  using dec_str_digits [of n] by (auto simp: list_all_iff is_digit_def)

lemma call_lines_clean: "list_all (\<lambda>l. 10 \<notin> set l \<and> 13 \<notin> set l) (call_lines n c)"
  using dec_str_clean eol_lines_clean
  by (cases c) (auto simp: call_lines_def data_lines_eol list_all_iff)

lemma all_lines_clean: "list_all (\<lambda>l. 10 \<notin> set l \<and> 13 \<notin> set l) (all_lines n cs)"
  by (induction cs arbitrary: n) (simp_all add: call_lines_clean)

text \<open>
  \<^bold>\<open>C38\<close>. A browser makes of the stream exactly the events that were sent, in order, each under its number and its name with its
  data, whatever the data holds: its line ends become line feeds and nothing in it can end an event, name another or open a field.
  A name with a line end in it writes nothing, and heartbeats are no events.
\<close>

theorem sse_events_exact:
  "browser_reads (drop (length SSE_HEAD) (sse_sink (run sse_step \<lparr>sse_sink = SSE_HEAD, sse_next_id = 0\<rparr> cs))) = meant 0 cs"
proof -
  let ?t = "concat (map (\<lambda>l. l @ [10]) (all_lines 0 cs))"
  have "drop (length SSE_HEAD) (sse_sink (run sse_step \<lparr>sse_sink = SSE_HEAD, sse_next_id = 0\<rparr> cs)) = ?t"
    by (simp add: sse_run_text)
  moreover have "eol_lines ?t = all_lines 0 cs @ [[]]"
    using eol_lines_concat [OF all_lines_clean, of 0 cs "[]"] by simp
  ultimately show ?thesis by (simp add: browser_reads_def browser_all browser_new_def)
qed

end
