(* ===== verification/Hub_View.thy ===== *)
theory Hub_View
  imports Hub_Connect "HOL-Library.Multiset"
begin

text \<open>
  What the clients of a hub know. The abstract state is a \<open>view\<close>: the panes in order with their
  sizes, the zoomed pane, the standing recovery reports. A client builds its view from the
  frames it is given (\<open>see\<close>); the hub's own view is read off its shared state. The machine
  \<open>hub_step\<close> interleaves the hub's operations (the worker's, whose last look for a free slot is \<open>hm_slot\<close>) with clients that connect (in two holds of the
  lock), receive, and leave, in any order. The refinement proved here is that every client the hub
  keeps is always owed, or has received, exactly the frames that give it the hub's view.
\<close>

record view =
  vw_panes :: "(pane_id \<times> u16 \<times> u16) list"
  vw_zoom :: "pane_id option"
  vw_recovery :: "pane_id \<rightharpoonup> recovery_report"

definition view_empty :: view where
  "view_empty = \<lparr>vw_panes = [], vw_zoom = None, vw_recovery = Map.empty\<rparr>"

definition arrange :: "pane_id list \<Rightarrow> (pane_id \<times> u16 \<times> u16) list \<Rightarrow> (pane_id \<times> u16 \<times> u16) list" where
  "arrange order panes = List.map_filter (\<lambda>i. List.find (\<lambda>p. fst p = i) panes) order"

fun see :: "view \<Rightarrow> server_message \<Rightarrow> view" where
  "see v (SmCreated p r c _ _) = v\<lparr>vw_panes := vw_panes v @ [(p, r, c)]\<rparr>"
| "see v (SmExited p) = v\<lparr>vw_panes := filter (\<lambda>q. fst q \<noteq> p) (vw_panes v)\<rparr>"
| "see v (SmResized p r c) = v\<lparr>vw_panes := map (\<lambda>q. if fst q = p then (p, r, c) else q) (vw_panes v)\<rparr>"
| "see v (SmReordered order) = v\<lparr>vw_panes := arrange order (vw_panes v)\<rparr>"
| "see v (SmZoomed z) = v\<lparr>vw_zoom := z\<rparr>"
| "see v (SmRecovery p st d dl a) =
     v\<lparr>vw_recovery := (vw_recovery v)(p :=
        (if st = RECOVERY_CANCELLED then None
         else Some \<lparr>rr_state = st, rr_detail = d, rr_deadline_epoch = dl, rr_attempt = a\<rparr>))\<rparr>"
| "see v _ = v"

definition see_frame :: "(rstring \<Rightarrow> server_message option) \<Rightarrow> view \<Rightarrow> terminal_frame \<Rightarrow> view" where
  "see_frame de v f =
     (case f of
        Output _ _ \<Rightarrow> v
      | Control j \<Rightarrow> (case de j of None \<Rightarrow> v | Some m \<Rightarrow> see v m))"

definition viewed :: "(rstring \<Rightarrow> server_message option) \<Rightarrow> terminal_frame list \<Rightarrow> view" where
  "viewed de fs = foldl (see_frame de) view_empty fs"

definition geometry :: "pane_state \<Rightarrow> pane_id \<times> u16 \<times> u16" where
  "geometry p = (pn_id p, pn_rows p, pn_cols p)"

definition hub_view :: "shared \<Rightarrow> view" where
  "hub_view s = \<lparr>vw_panes = map geometry (sh_panes s), vw_zoom = sh_zoomed s, vw_recovery = map_of (sh_recovery s)\<rparr>"

section \<open>The machine\<close>

record hub =
  hm_shared :: shared
  hm_slot :: bool
  hm_next :: u64
  hm_flight :: "u64 \<rightharpoonup> captured"
  hm_received :: "u64 \<Rightarrow> terminal_frame list"

definition hub_new :: hub where
  "hub_new = \<lparr>hm_shared = shared_new, hm_slot = False, hm_next = 0, hm_flight = Map.empty, hm_received = (\<lambda>_. [])\<rparr>"

datatype hub_event =
    CheckSlot
  | Reserve nat
  | Release nat
  | Register pane_id u16 u16 "u64 option" "rstring option"
  | Recorded pane_id "u8 list" observed "u8 list option"
  | Settled pane_id observed
  | Screened pane_id "u8 list"
  | NormalScreened pane_id "u8 list"
  | Resized pane_id u16 u16 "u8 list option"
  | Removed pane_id
  | Zoom "pane_id option"
  | Reordered "pane_id list"
  | Restored pane_id nat
  | Reported pane_id rstring "rstring option" "int option" u32
  | ReportEnded pane_id
  | Attention pane_id "rstring option"
  | Told u64 server_message
  | ToldAll nat
  | Begin bool
  | Finish u64 u64 "terminal_frame list"
  | Verdict u64 terminal_frame
  | Receive u64
  | Disconnect u64

fun upd_client :: "u64 \<Rightarrow> (client \<Rightarrow> client) \<Rightarrow> client list \<Rightarrow> client list" where
  "upd_client i f [] = []"
| "upd_client i f (c # cs) = (if cl_id c = i then f c # cs else c # upd_client i f cs)"

definition find_client :: "u64 \<Rightarrow> shared \<Rightarrow> client option" where
  "find_client i s = List.find (\<lambda>c. cl_id c = i) (sh_clients s)"

definition on_shared :: "(shared \<Rightarrow> shared) \<Rightarrow> hub \<Rightarrow> hub" where
  "on_shared f h = h\<lparr>hm_shared := f (hm_shared h)\<rparr>"

definition begin_connect :: "(server_message \<Rightarrow> rstring option) \<Rightarrow> (u8 list \<Rightarrow> nat) \<Rightarrow> bool \<Rightarrow> hub \<Rightarrow> hub" where
  "begin_connect ser split socket h =
     (case connect_begin ser split False (hm_next h) socket (hm_shared h) of
        None \<Rightarrow> h
      | Some (c, s) \<Rightarrow>
          h\<lparr>hm_shared := s, hm_next := hm_next h + 1, hm_flight := (hm_flight h)(hm_next h \<mapsto> c)\<rparr>)"

text \<open>A connection whose framing panics is undone by the registration guard.\<close>

definition finish_connect :: "(server_message \<Rightarrow> rstring option) \<Rightarrow> u64 \<Rightarrow> u64 \<Rightarrow> terminal_frame list \<Rightarrow> hub \<Rightarrow> hub" where
  "finish_connect ser i connection verdicts h =
     (case hm_flight h i of
        None \<Rightarrow> h
      | Some c \<Rightarrow>
          let h = h\<lparr>hm_flight := (hm_flight h)(i := None)\<rparr>
          in case replay_frames ser c empty_tx of
               None \<Rightarrow> on_shared (disconnect_client i) h
             | Some tx \<Rightarrow> on_shared (connect_finish i tx connection verdicts) h)"

definition receive :: "u64 \<Rightarrow> hub \<Rightarrow> hub" where
  "receive i h =
     (case find_client i (hm_shared h) of
        None \<Rightarrow> h
      | Some c \<Rightarrow>
          if cl_held c \<noteq> None then h
          else (case wait_frame (cl_tx c) True of
                  (WFrame f, rx) \<Rightarrow>
                    h\<lparr>hm_shared := (hm_shared h)\<lparr>sh_clients := upd_client i (\<lambda>c. c\<lparr>cl_tx := rx\<rparr>) (sh_clients (hm_shared h))\<rparr>,
                      hm_received := (hm_received h)(i := hm_received h i @ [f])\<rparr>
                | _ \<Rightarrow> h))"

text \<open>A verdict of the sizing ownership, put on the channel of a client that has joined it.\<close>

definition push_verdict :: "u64 \<Rightarrow> terminal_frame \<Rightarrow> shared \<Rightarrow> shared" where
  "push_verdict i f s =
     s\<lparr>sh_clients := upd_client i
        (\<lambda>c. if cl_held c = None then c\<lparr>cl_tx := fst (try_send f (cl_tx c))\<rparr> else c) (sh_clients s)\<rparr>"

fun hub_step :: "(server_message \<Rightarrow> rstring option) \<Rightarrow> (u8 list \<Rightarrow> nat) \<Rightarrow> hub \<Rightarrow> hub_event \<Rightarrow> hub" where
  "hub_step ser split h CheckSlot = h\<lparr>hm_slot := has_free_slot (hm_shared h)\<rparr>"
| "hub_step ser split h (Reserve n) = on_shared (\<lambda>s. snd (reserve_startup n s)) h"
| "hub_step ser split h (Release n) = on_shared (release_reserved n) h"
| "hub_step ser split h (Register p r c cl t) = on_shared (register_pane ser p r c cl t) (h\<lparr>hm_slot := False\<rparr>)"
| "hub_step ser split h (Recorded p d obs scr) = on_shared (\<lambda>s. fst (record_and_broadcast p d obs scr s)) h"
| "hub_step ser split h (Settled p obs) = on_shared (store_settled p obs) h"
| "hub_step ser split h (Screened p scr) = on_shared (store_screen p scr) h"
| "hub_step ser split h (NormalScreened p scr) = on_shared (store_normal_screen p scr) h"
| "hub_step ser split h (Resized p r c scr) = on_shared (resize_shared ser p r c scr) h"
| "hub_step ser split h (Removed p) = on_shared (remove_pane_and_announce ser p) h"
| "hub_step ser split h (Zoom z) = on_shared (set_zoom ser z) h"
| "hub_step ser split h (Reordered order) = on_shared (reorder_panes ser order) h"
| "hub_step ser split h (Restored p i) = on_shared (restore_pane_index ser p i) h"
| "hub_step ser split h (Reported p st d dl a) = on_shared (\<lambda>s. fst (broadcast_recovery ser p st d dl a s)) h"
| "hub_step ser split h (ReportEnded p) = on_shared (end_recovery_if_reported ser p) h"
| "hub_step ser split h (Attention p m) = on_shared (\<lambda>s. fst (broadcast_attention ser p m s)) h"
| "hub_step ser split h (Told i m) = on_shared (send_to ser i m) h"
| "hub_step ser split h (ToldAll n) = on_shared (announce_all ser (SmPending n)) h"
| "hub_step ser split h (Begin socket) = begin_connect ser split socket h"
| "hub_step ser split h (Finish i connection verdicts) = finish_connect ser i connection verdicts h"
| "hub_step ser split h (Verdict i f) = on_shared (push_verdict i f) h"
| "hub_step ser split h (Receive i) = receive i h"
| "hub_step ser split h (Disconnect i) = on_shared (disconnect_client i) h"

text \<open>
  Which events the rest of the program can produce: a pane is registered only after the
  worker has found a free slot (\<open>CheckSlot\<close>; other threads may reserve slots in between) and under a new id,
  a message to one client is an error or an offer of startup terminals, a verdict is a
  sizing verdict, client ids have not wrapped, and the replay fits the queue.
\<close>

fun is_aside :: "server_message \<Rightarrow> bool" where
  "is_aside (SmError _) = True"
| "is_aside (SmPending _) = True"
| "is_aside (SmSizeOwner _ _) = True"
| "is_aside _ = False"

definition aside_frame :: "(rstring \<Rightarrow> server_message option) \<Rightarrow> terminal_frame \<Rightarrow> bool" where
  "aside_frame de f = (case f of Output _ _ \<Rightarrow> False | Control j \<Rightarrow> (case de j of None \<Rightarrow> True | Some m \<Rightarrow> is_aside m))"

definition replay_fits :: "(server_message \<Rightarrow> rstring option) \<Rightarrow> captured \<Rightarrow> bool" where
  "replay_fits ser c \<longleftrightarrow> length (replay_list ser c) + length (cp_recovery c) \<le> CLIENT_QUEUE_DEPTH"

fun hub_ok ::
  "(server_message \<Rightarrow> rstring option) \<Rightarrow> (rstring \<Rightarrow> server_message option) \<Rightarrow> (u8 list \<Rightarrow> nat) \<Rightarrow> hub \<Rightarrow> hub_event \<Rightarrow> bool" where
  "hub_ok ser de split h (Register p r c cl t) = (hm_slot h \<and> p \<notin> set (pane_ids (hm_shared h)))"
| "hub_ok ser de split h (Told i m) = is_aside m"
| "hub_ok ser de split h (Begin socket) =
     (unat (hm_next h) + 1 < 2 ^ 64 \<and>
      (case connect_begin ser split False (hm_next h) socket (hm_shared h) of
         None \<Rightarrow> False
       | Some (c, _) \<Rightarrow> replay_fits ser c))"
| "hub_ok ser de split h (Finish i connection verdicts) = list_all (aside_frame de) verdicts"
| "hub_ok ser de split h (Verdict i f) = aside_frame de f"
| "hub_ok ser de split h _ = True"

section \<open>Broadcasts extend every kept stream\<close>

definition faithful :: "(server_message \<Rightarrow> rstring option) \<Rightarrow> (rstring \<Rightarrow> server_message option) \<Rightarrow> bool" where
  "faithful ser de \<longleftrightarrow> (\<forall>m. \<exists>j. ser m = Some j \<and> de j = Some m)"

text \<open>The frames a connecting client is owed: the replay, the reports, the marker.\<close>

definition owed_frames :: "(server_message \<Rightarrow> rstring option) \<Rightarrow> captured \<Rightarrow> terminal_frame list" where
  "owed_frames ser c = replay_list ser c @ map Control (cp_recovery c) @ opt_frame (ser SmReplayComplete)"

definition client_ok ::
  "(server_message \<Rightarrow> rstring option) \<Rightarrow> (rstring \<Rightarrow> server_message option) \<Rightarrow> hub \<Rightarrow> view \<Rightarrow> client \<Rightarrow> bool" where
  "client_ok ser de h V c =
     (case cl_held c of
        None \<Rightarrow> hm_flight h (cl_id c) = None \<and> viewed de (hm_received h (cl_id c) @ ch_queue (cl_tx c)) = V
      | Some held \<Rightarrow>
          hm_received h (cl_id c) = [] \<and>
          (\<exists>cap. hm_flight h (cl_id c) = Some cap \<and> viewed de (owed_frames ser cap @ held) = V))"

definition agrees ::
  "(server_message \<Rightarrow> rstring option) \<Rightarrow> (rstring \<Rightarrow> server_message option) \<Rightarrow> hub \<Rightarrow> view \<Rightarrow> shared \<Rightarrow> bool" where
  "agrees ser de h V s \<longleftrightarrow> (\<forall>c \<in> set (sh_clients s). client_ok ser de h V c)"

lemma viewed_simps [simp]:
  "viewed de [] = view_empty"
  "viewed de (xs @ [f]) = see_frame de (viewed de xs) f"
  by (simp_all add: viewed_def)

lemma queue_locked_ok:
  assumes "client_ok ser de h V c" "queue_locked f c = (c', Kept)"
  shows "client_ok ser de h (see_frame de V f) c' \<and> cl_id c' = cl_id c"
proof (cases "cl_held c")
  case None
  with assms show ?thesis
    by (auto simp: queue_locked_def client_ok_def try_send_def simp flip: append_assoc split: if_splits)
next
  case (Some held)
  with assms show ?thesis
    by (auto simp: queue_locked_def client_ok_def simp flip: append_assoc split: if_splits)
qed

lemma broadcast_clients_ok:
  assumes "\<forall>c \<in> set cs. client_ok ser de h V c"
  shows "\<forall>c \<in> set (fst (broadcast_clients f cs)). client_ok ser de h (see_frame de V f) c"
  using assms
proof (induction f cs rule: broadcast_clients.induct)
  case (2 f c cs)
  obtain kept shut where b: "broadcast_clients f cs = (kept, shut)" by fastforce
  obtain c' v where q: "queue_locked f c = (c', v)" by fastforce
  from 2 b have IH: "\<forall>c \<in> set kept. client_ok ser de h (see_frame de V f) c" by auto
  with b q 2(2) queue_locked_ok [of ser de h V c f c'] show ?case
    by (cases v) auto
qed simp

lemma broadcast_agrees:
  "agrees ser de h V s \<Longrightarrow> agrees ser de h (see_frame de V f) (broadcast_locked f s)"
  using broadcast_clients_ok [of "sh_clients s" ser de h V f] by (simp add: agrees_def broadcast_locked_def case_prod_beta)

lemma announce_agrees:
  assumes "faithful ser de" "agrees ser de h V s"
  shows "agrees ser de h (see V m) (announce_all ser m s)"
proof -
  obtain j where "ser m = Some j" "de j = Some m" using assms(1) by (auto simp: faithful_def)
  with broadcast_agrees [OF assms(2), of "Control j"] show ?thesis by (simp add: announce_all_def see_frame_def)
qed

lemma announce_each_agrees:
  "faithful ser de \<Longrightarrow> agrees ser de h V s \<Longrightarrow> agrees ser de h (foldl see V ms) (announce_each ser ms s)"
  by (induction ser ms s arbitrary: V rule: announce_each.induct) (auto intro: announce_agrees)

text \<open>The client list only shrinks.\<close>

definition thinned :: "shared \<Rightarrow> shared \<Rightarrow> bool" where
  "thinned s s' \<longleftrightarrow> subseq (map cl_id (sh_clients s')) (map cl_id (sh_clients s))"

lemma thinned_refl [simp]: "sh_clients s' = sh_clients s \<Longrightarrow> thinned s s'"
  by (simp add: thinned_def)

lemma thinned_trans: "thinned s s' \<Longrightarrow> thinned s' s'' \<Longrightarrow> thinned s s''"
  unfolding thinned_def by (rule subseq_order.order_trans)

lemma thinned_broadcast_clients: "subseq (map cl_id (fst (broadcast_clients f cs))) (map cl_id cs)"
proof (induction f cs rule: broadcast_clients.induct)
  case (2 f c cs)
  have "cl_id (fst (queue_locked f c)) = cl_id c"
    by (auto simp: queue_locked_def try_send_def split: option.splits)
  with 2 show ?case by (auto simp: case_prod_beta split: queue_verdict.splits prod.splits)
qed simp

lemma thinned_broadcast [simp]: "thinned s (broadcast_locked f s)"
  by (simp add: thinned_def broadcast_locked_def case_prod_beta thinned_broadcast_clients)

lemma thinned_announce [simp]: "thinned s (announce_all ser m s)"
  by (simp add: announce_all_def split: option.split)

section \<open>Operations on the shared state\<close>

definition panes_inv :: "shared \<Rightarrow> bool" where
  "panes_inv s \<longleftrightarrow> distinct (pane_ids s) \<and> bt_wf (sh_recovery s)
     \<and> (\<forall>r \<in> snd ` set (sh_recovery s). rr_state r \<noteq> RECOVERY_CANCELLED)
     \<and> sh_zoomed s \<in> insert None (Some ` set (pane_ids s))"

definition upholds ::
  "(server_message \<Rightarrow> rstring option) \<Rightarrow> (rstring \<Rightarrow> server_message option) \<Rightarrow> shared \<Rightarrow> shared \<Rightarrow> bool" where
  "upholds ser de s s' \<longleftrightarrow> (panes_inv s \<longrightarrow> panes_inv s' \<and> thinned s s'
     \<and> (\<forall>h. agrees ser de h (hub_view s) s \<longrightarrow> agrees ser de h (hub_view s') s'))"

lemma upholds_refl [simp]: "upholds ser de s s"
  by (simp add: upholds_def)

lemma upholds_trans: "upholds ser de s s' \<Longrightarrow> upholds ser de s' s'' \<Longrightarrow> upholds ser de s s''"
  unfolding upholds_def by (blast intro: thinned_trans)

lemma view_announce [simp]: "hub_view (announce_all ser m s) = hub_view s" "hub_view (broadcast_locked f s) = hub_view s"
  by (simp_all add: hub_view_def)

lemma panes_inv_announce [simp]:
  "panes_inv (announce_all ser m s) = panes_inv s" "panes_inv (broadcast_locked f s) = panes_inv s"
  by (simp_all add: panes_inv_def pane_ids_def)

lemma upholds_announce:
  assumes "faithful ser de" "sh_clients s1 = sh_clients s"
    and "panes_inv s \<Longrightarrow> panes_inv s1 \<and> see (hub_view s) m = hub_view s1"
  shows "upholds ser de s (announce_all ser m s1)"
proof -
  have "agrees ser de h (hub_view s1) (announce_all ser m s1)" if "panes_inv s" "agrees ser de h (hub_view s) s" for h
    using announce_agrees [OF assms(1), of h "hub_view s" s1 m] that assms(2,3) by (simp add: agrees_def)
  moreover have "thinned s (announce_all ser m s1)"
    using assms(2) thinned_trans [OF _ thinned_announce] by simp
  ultimately show ?thesis using assms(3) by (simp add: upholds_def)
qed

lemma upholds_quiet:
  "sh_clients s1 = sh_clients s \<Longrightarrow> (panes_inv s \<Longrightarrow> panes_inv s1 \<and> hub_view s1 = hub_view s) \<Longrightarrow> upholds ser de s s1"
  by (auto simp: upholds_def agrees_def)

lemma upholds_clear_zoom: "faithful ser de \<Longrightarrow> upholds ser de s (clear_zoom_locked ser s)"
  unfolding clear_zoom_locked_def
  by (auto intro!: upholds_announce simp: panes_inv_def pane_ids_def hub_view_def split: option.splits)

lemma upholds_register:
  assumes "faithful ser de" "p \<notin> set (pane_ids s)"
  shows "upholds ser de s (register_pane ser p r c cl t s)"
  unfolding register_pane_def Let_def
  by (rule upholds_trans [OF upholds_clear_zoom [OF assms(1)] upholds_announce [OF assms(1)]])
     (use assms(2) in \<open>auto simp: panes_inv_def pane_ids_def hub_view_def pane_new_def geometry_def\<close>)

lemma upholds_zoom: "faithful ser de \<Longrightarrow> upholds ser de s (set_zoom ser z s)"
  unfolding set_zoom_def
  by (auto intro!: upholds_announce simp: panes_inv_def pane_ids_def pane_live_def hub_view_def split: option.splits)

lemma upholds_upd:
  assumes "\<And>p. geometry (f p) = geometry p"
  shows "upholds ser de s (s\<lparr>sh_panes := upd_pane i f (sh_panes s)\<rparr>)"
proof (rule upholds_quiet)
  have "pn_id (f p) = pn_id p" for p using assms [of p] by (simp add: geometry_def)
  then have "map pn_id (upd_pane i f (sh_panes s)) = map pn_id (sh_panes s)" by (rule map_upd_pane)
  moreover have "map geometry (upd_pane i f (sh_panes s)) = map geometry (sh_panes s)" by (rule map_upd_pane) (rule assms)
  ultimately show "panes_inv (s\<lparr>sh_panes := upd_pane i f (sh_panes s)\<rparr>)
      \<and> hub_view (s\<lparr>sh_panes := upd_pane i f (sh_panes s)\<rparr>) = hub_view s" if "panes_inv s"
    using that by (simp add: panes_inv_def pane_ids_def hub_view_def)
qed simp

lemma geometry_record_chunk: "geometry (fst (record_chunk d obs scr p)) = geometry p"
  by (auto simp: record_chunk_def geometry_def Let_def case_prod_beta split: option.split)

lemma geometry_stores:
  "geometry (settle_record obs p) = geometry p" "geometry (screen_record scr p) = geometry p"
  "geometry (normal_screen_record scr p) = geometry p"
  by (auto simp: settle_record_def screen_record_def normal_screen_record_def geometry_def Let_def split: option.split)

lemma upholds_output: "upholds ser de s (broadcast_locked (Output p d) s)"
proof -
  have "agrees ser de h (hub_view s) (broadcast_locked (Output p d) s)" if "agrees ser de h (hub_view s) s" for h
    using broadcast_agrees [OF that, of "Output p d"] by (simp add: see_frame_def)
  then show ?thesis by (simp add: upholds_def)
qed

lemma upholds_recorded: "upholds ser de s (fst (record_and_broadcast p d obs scr s))"
  unfolding record_and_broadcast_def Let_def fst_conv
  by (rule upholds_trans [OF upholds_upd upholds_output]) (rule geometry_record_chunk)

lemma geometry_resize: "geometry (resize_record r c scr p) = (pn_id p, r, c)"
  by (auto simp: resize_record_def geometry_def screen_record_def normal_screen_record_def Let_def split: option.split)

lemma geometry_upd_resize:
  "distinct (map pn_id ps) \<Longrightarrow>
   map geometry (upd_pane i (resize_record r c scr) ps) = map (\<lambda>q. if fst q = i then (i, r, c) else q) (map geometry ps)"
proof (induction ps)
  case (Cons p ps)
  show ?case
  proof (cases "pn_id p = i")
    case True
    with Cons.prems have "map (\<lambda>q. if fst q = i then (i, r, c) else q) (map geometry ps) = map geometry ps"
      by (intro map_idI) (auto simp: geometry_def image_iff)
    with True show ?thesis by (simp add: geometry_resize) (simp add: geometry_def)
  next
    case False
    with Cons show ?thesis by (simp add: geometry_def)
  qed
qed simp

lemma upholds_resize:
  assumes "faithful ser de"
  shows "upholds ser de s (resize_shared ser p r c scr s)"
  unfolding resize_shared_def
proof (rule upholds_announce [OF assms])
  let ?s = "s\<lparr>sh_panes := upd_pane p (resize_record r c scr) (sh_panes s)\<rparr>"
  have "pn_id (resize_record r c scr q) = pn_id q" for q using geometry_resize [of r c scr q] by (simp add: geometry_def)
  then have i: "map pn_id (upd_pane p (resize_record r c scr) (sh_panes s)) = map pn_id (sh_panes s)" by (rule map_upd_pane)
  show "panes_inv ?s \<and> see (hub_view s) (SmResized p r c) = hub_view ?s" if "panes_inv s"
    using that i geometry_upd_resize [of "sh_panes s" p r c scr] by (simp add: panes_inv_def pane_ids_def hub_view_def)
qed simp

lemma upholds_removed:
  assumes "faithful ser de"
  shows "upholds ser de s (remove_pane_and_announce ser p s)"
proof (cases "pane_live p s")
  case True
  let ?s1 = "s\<lparr>sh_panes := filter (\<lambda>q. pn_id q \<noteq> p) (sh_panes s)\<rparr>"
  let ?s2 = "announce_all ser (SmExited p) ?s1"
  have ids: "set (pane_ids ?s1) = set (pane_ids s) - {p}" "distinct (pane_ids s) \<Longrightarrow> distinct (pane_ids ?s1)"
    by (auto simp: pane_ids_def distinct_map_filter)
  have see1: "see (hub_view s) (SmExited p) = hub_view ?s1"
    by (simp add: hub_view_def filter_map geometry_def comp_def)
  show ?thesis
  proof (cases "sh_zoomed s = Some p")
    case False
    then have "panes_inv s \<Longrightarrow> panes_inv ?s1" using ids by (auto simp: panes_inv_def)
    with False True see1 upholds_announce [OF assms, of ?s1 s "SmExited p"] show ?thesis
      by (simp add: remove_pane_and_announce_def Let_def)
  next
    case zoomed: True
    let ?s3 = "?s2\<lparr>sh_zoomed := None\<rparr>"
    have r: "remove_pane_and_announce ser p s = announce_all ser (SmZoomed None) ?s3"
      using True zoomed by (simp add: remove_pane_and_announce_def clear_zoom_locked_def Let_def)
    have "agrees ser de h (hub_view ?s3) (announce_all ser (SmZoomed None) ?s3)" if "agrees ser de h (hub_view s) s" for h
    proof -
      have "agrees ser de h (hub_view ?s1) ?s2"
        using announce_agrees [OF assms, of h "hub_view s" ?s1 "SmExited p"] that see1 by (simp add: agrees_def)
      then have "agrees ser de h (hub_view ?s1) ?s3" by (simp add: agrees_def)
      from announce_agrees [OF assms this, of "SmZoomed None"] show ?thesis by (simp add: hub_view_def)
    qed
    moreover have "thinned s ?s2" by (rule thinned_trans [OF _ thinned_announce]) simp
    then have "thinned s ?s3" by (rule thinned_trans) simp
    then have "thinned s (announce_all ser (SmZoomed None) ?s3)" by (rule thinned_trans) simp
    moreover have "panes_inv ?s3" if "panes_inv s" using that ids by (auto simp: panes_inv_def pane_ids_def)
    ultimately show ?thesis unfolding r upholds_def by simp
  qed
qed (simp add: remove_pane_and_announce_def)

lemma find_fst: "distinct (map fst xs) \<Longrightarrow> x \<in> set xs \<Longrightarrow> List.find (\<lambda>p. fst p = fst x) xs = Some x"
  by (induction xs) (auto simp: image_iff)

lemma arrange_map_fst: "distinct (map fst xs) \<Longrightarrow> set ys \<subseteq> set xs \<Longrightarrow> arrange (map fst ys) xs = ys"
  by (induction ys) (auto simp: arrange_def map_filter_simps find_fst)

lemma upholds_rearranged:
  assumes "faithful ser de" "distinct (pane_ids s) \<Longrightarrow> set ps \<subseteq> set (sh_panes s) \<and> distinct (map pn_id ps)
      \<and> pn_id ` set ps = set (pane_ids s)"
  shows "upholds ser de s (announce_all ser (SmReordered (map pn_id ps)) (s\<lparr>sh_panes := ps\<rparr>))"
proof (rule upholds_announce [OF assms(1)])
  assume p: "panes_inv s"
  then have d: "distinct (pane_ids s)" by (simp add: panes_inv_def)
  have f: "fst \<circ> geometry = pn_id" by (auto simp: geometry_def)
  have "arrange (map fst (map geometry ps)) (map geometry (sh_panes s)) = map geometry ps"
    using assms(2) [OF d] d by (intro arrange_map_fst) (auto simp: pane_ids_def f)
  with f have "arrange (map pn_id ps) (map geometry (sh_panes s)) = map geometry ps" by simp
  with p assms(2) [OF d] show "panes_inv (s\<lparr>sh_panes := ps\<rparr>)
      \<and> see (hub_view s) (SmReordered (map pn_id ps)) = hub_view (s\<lparr>sh_panes := ps\<rparr>)"
    by (auto simp: panes_inv_def pane_ids_def hub_view_def)
qed simp

lemma upholds_reordered:
  assumes "faithful ser de"
  shows "upholds ser de s (reorder_panes ser order s)"
proof (cases "distinct (pane_ids s)")
  case True
  let ?t = "canonical_order (pane_ids s) order"
  note t = take_in_order_spec [of ?t "sh_panes s"] canonical_order_perm [OF True, of order]
  have m: "map pn_id (take_in_order ?t (sh_panes s)) = ?t" "set (take_in_order ?t (sh_panes s)) \<subseteq> set (sh_panes s)"
    using t True by (auto simp: pane_ids_def)
  then have "pn_id ` set (take_in_order ?t (sh_panes s)) = set ?t" by (metis list.set_map)
  with upholds_rearranged [OF assms, of s "take_in_order ?t (sh_panes s)"] m t(2) show ?thesis
    by (simp add: reorder_panes_def Let_def)
qed (simp add: upholds_def panes_inv_def)

lemma mset_reinsert: "mset (take k zs @ e # drop k zs) = add_mset e (mset zs)"
  by (metis append_take_drop_id mset.simps(2) mset_append union_mset_add_mset_right)

lemma upholds_restored:
  assumes "faithful ser de"
  shows "upholds ser de s (restore_pane_index ser p i s)"
proof (cases "List.extract (\<lambda>q. pn_id q = p) (sh_panes s)")
  case (Some t)
  then obtain before e after where x: "List.extract (\<lambda>q. pn_id q = p) (sh_panes s) = Some (before, e, after)"
    by (cases t) auto
  then have o: "sh_panes s = before @ e # after" by (auto simp: extract_Some_iff)
  let ?to = "min i (length (sh_panes s) - 1)"
  let ?ps = "take ?to (before @ after) @ e # drop ?to (before @ after)"
  have m: "mset ?ps = mset (sh_panes s)" using mset_reinsert [of ?to "before @ after" e] o by (simp only: mset_append mset.simps union_mset_add_mset_right)
  then have set: "set ?ps = set (sh_panes s)" by (rule mset_eq_setD)
  have "distinct (map pn_id ?ps) = distinct (map pn_id (sh_panes s))"
    by (rule mset_eq_imp_distinct_iff) (simp only: mset_map m)
  with set upholds_rearranged [OF assms, of s ?ps] x show ?thesis
    by (auto simp: restore_pane_index_def Let_def pane_ids_def)
qed (simp add: restore_pane_index_def)

lemma snd_bt_insert: "snd ` set (bt_insert p r m) \<subseteq> insert r (snd ` set m)"
  by (induction p r m rule: bt_insert.induct) auto

lemma upholds_reported:
  assumes "faithful ser de"
  shows "upholds ser de s (fst (broadcast_recovery ser p st d dl a s))"
proof -
  let ?r = "\<lparr>rr_state = st, rr_detail = d, rr_deadline_epoch = dl, rr_attempt = a\<rparr>"
  let ?m = "if st = RECOVERY_CANCELLED then bt_remove p (sh_recovery s) else bt_insert p ?r (sh_recovery s)"
  obtain j where j: "ser (SmRecovery p st d dl a) = Some j" using assms by (auto simp: faithful_def)
  have "fst (broadcast_recovery ser p st d dl a s) = announce_all ser (SmRecovery p st d dl a) (s\<lparr>sh_recovery := ?m\<rparr>)"
    using j by (simp add: broadcast_recovery_def announce_all_def Let_def)
  moreover have "panes_inv (s\<lparr>sh_recovery := ?m\<rparr>)
      \<and> see (hub_view s) (SmRecovery p st d dl a) = hub_view (s\<lparr>sh_recovery := ?m\<rparr>)" if "panes_inv s"
  proof -
    have w: "bt_wf (sh_recovery s)" "\<forall>r \<in> snd ` set (sh_recovery s). rr_state r \<noteq> RECOVERY_CANCELLED"
      using that by (auto simp: panes_inv_def)
    have "\<forall>r \<in> snd ` set ?m. rr_state r \<noteq> RECOVERY_CANCELLED"
    proof (cases "st = RECOVERY_CANCELLED")
      case True
      with w(2) show ?thesis by (auto simp: bt_remove_def)
    next
      case False
      then have "\<forall>r \<in> insert ?r (snd ` set (sh_recovery s)). rr_state r \<noteq> RECOVERY_CANCELLED" using w(2) by simp
      then have "\<forall>r \<in> snd ` set (bt_insert p ?r (sh_recovery s)). rr_state r \<noteq> RECOVERY_CANCELLED"
        by (meson snd_bt_insert subsetD)
      with False show ?thesis by simp
    qed
    moreover have "bt_wf ?m" using w(1) by (simp add: bt_wf_insert bt_wf_remove)
    moreover have "map_of ?m = (map_of (sh_recovery s))(p := if st = RECOVERY_CANCELLED then None else Some ?r)"
      using w(1) by (simp add: map_of_bt_insert map_of_bt_remove)
    ultimately show ?thesis using that by (simp add: panes_inv_def pane_ids_def hub_view_def)
  qed
  ultimately show ?thesis using upholds_announce [OF assms, of "s\<lparr>sh_recovery := ?m\<rparr>" s] by simp
qed

lemma upholds_attention: "faithful ser de \<Longrightarrow> upholds ser de s (fst (broadcast_attention ser p m s))"
  using upholds_announce [of ser de s s "SmAttention p m"]
  by (auto simp: broadcast_attention_def announce_all_def Let_def split: option.split)

section \<open>Frames that change no view\<close>

lemma see_aside: "is_aside m \<Longrightarrow> see v m = v"
  by (cases m) auto

lemma see_aside_frame: "aside_frame de f \<Longrightarrow> see_frame de v f = v"
  by (auto simp: aside_frame_def see_frame_def see_aside split: terminal_frame.splits option.splits)

lemma queue_one_ok:
  "\<forall>c \<in> set cs. client_ok ser de h V c \<Longrightarrow> see_frame de V f = V \<Longrightarrow>
   (\<forall>c \<in> set (fst (queue_one i f cs)). client_ok ser de h V c) \<and> subseq (map cl_id (fst (queue_one i f cs))) (map cl_id cs)"
proof (induction i f cs rule: queue_one.induct)
  case (2 i f c cs)
  obtain c' v where q: "queue_locked f c = (c', v)" by fastforce
  with 2 queue_locked_ok [of ser de h V c f c'] show ?case
    by (cases v) (auto simp: case_prod_beta)
qed simp

lemma thinned_queue_one: "subseq (map cl_id (fst (queue_one i f cs))) (map cl_id cs)"
proof (induction i f cs rule: queue_one.induct)
  case (2 i f c cs)
  have "cl_id (fst (queue_locked f c)) = cl_id c"
    by (auto simp: queue_locked_def try_send_def split: option.splits)
  with 2 show ?case by (auto simp: case_prod_beta split: queue_verdict.splits prod.splits)
qed simp

lemma upholds_told:
  assumes "faithful ser de" "is_aside m"
  shows "upholds ser de s (send_to ser i m s)"
proof -
  obtain j where j: "ser m = Some j" "de j = Some m" using assms(1) by (auto simp: faithful_def)
  then have e: "see_frame de V (Control j) = V" for V using see_aside [OF assms(2)] by (simp add: see_frame_def)
  let ?s = "send_to ser i m s"
  have s: "sh_clients ?s = fst (queue_one i (Control j) (sh_clients s))" "hub_view ?s = hub_view s" "panes_inv ?s = panes_inv s"
    using j(1) by (simp_all add: send_to_def case_prod_beta hub_view_def panes_inv_def pane_ids_def)
  then show ?thesis
    using queue_one_ok [OF _ e, of "sh_clients s" ser h _ i for h] thinned_queue_one
    by (auto simp: upholds_def agrees_def thinned_def)
qed

lemma set_upd_client: "set (upd_client i f cs) \<subseteq> set cs \<union> {f c | c. c \<in> set cs \<and> cl_id c = i}"
  by (induction i f cs rule: upd_client.induct) auto

lemma map_upd_client: "(\<And>c. cl_id (f c) = cl_id c) \<Longrightarrow> map cl_id (upd_client i f cs) = map cl_id cs"
  by (induction i f cs rule: upd_client.induct) auto

lemma upd_client_set:
  "distinct (map cl_id cs) \<Longrightarrow> c \<in> set cs \<Longrightarrow>
   set (upd_client (cl_id c) f cs) = insert (f c) {c' \<in> set cs. cl_id c' \<noteq> cl_id c}"
  by (induction cs) (auto simp: image_iff)

lemma upholds_verdict:
  assumes "aside_frame de f"
  shows "upholds ser de s (push_verdict i f s)"
proof -
  let ?f = "\<lambda>c. if cl_held c = None then c\<lparr>cl_tx := fst (try_send f (cl_tx c))\<rparr> else c"
  have "client_ok ser de h V (?f c)" if "client_ok ser de h V c" for h V c
    using that see_aside_frame [OF assms]
    by (auto simp: client_ok_def try_send_def simp flip: append_assoc split: option.splits)
  then have "agrees ser de h V (push_verdict i f s)" if "agrees ser de h V s" for h V
    using that set_upd_client [of i ?f "sh_clients s"] by (fastforce simp: agrees_def push_verdict_def)
  moreover have "map cl_id (sh_clients (push_verdict i f s)) = map cl_id (sh_clients s)"
    unfolding push_verdict_def by (simp add: map_upd_client)
  ultimately show ?thesis by (auto simp: upholds_def thinned_def push_verdict_def panes_inv_def pane_ids_def hub_view_def)
qed

lemma upholds_disconnect: "upholds ser de s (disconnect_client i s)"
proof -
  have "subseq (map cl_id (filter (\<lambda>c. cl_id c \<noteq> i) cs)) (map cl_id cs)" for cs
    by (rule subseq_map) simp
  then show ?thesis
    by (auto simp: upholds_def disconnect_client_def agrees_def thinned_def panes_inv_def pane_ids_def hub_view_def)
qed

section \<open>The replay builds the hub's view\<close>

lemma viewed_append: "viewed de (xs @ ys) = foldl (see_frame de) (viewed de xs) ys"
  by (simp add: viewed_def)

lemma foldl_outputs: "foldl (see_frame de) v (map (Output p) ds) = v"
  by (induction ds) (auto simp: see_frame_def)

lemma foldl_opt_frame:
  assumes "faithful ser de"
  shows "foldl (see_frame de) v (opt_frame (ser m)) = see v m"
proof -
  obtain j where "ser m = Some j" "de j = Some m" using assms by (auto simp: faithful_def)
  then show ?thesis by (simp add: opt_frame_def see_frame_def)
qed

lemma foldl_pane_frames:
  assumes "faithful ser de"
  shows "foldl (see_frame de) v (pane_frames ser r) = v\<lparr>vw_panes := vw_panes v @ [(pr_pane r, pr_rows r, pr_cols r)]\<rparr>"
  using foldl_opt_frame [OF assms, of v "SmCreated (pr_pane r) (pr_rows r) (pr_cols r) None (pr_title r)"]
  by (simp add: pane_frames_def opt_frame_def foldl_outputs del: map_append)

lemma foldl_panes:
  assumes "faithful ser de"
  shows "foldl (see_frame de) v (concat (map (pane_frames ser) rs)) =
    v\<lparr>vw_panes := vw_panes v @ map (\<lambda>r. (pr_pane r, pr_rows r, pr_cols r)) rs\<rparr>"
  by (induction rs arbitrary: v) (simp_all add: foldl_pane_frames [OF assms])

lemma those_capture:
  "\<exists>rs. those (map (capture split) ps) = Some rs \<and> map (\<lambda>r. (pr_pane r, pr_rows r, pr_cols r)) rs = map geometry ps"
proof (induction ps)
  case (Cons p ps)
  then show ?case using capture_total [of split p] by (auto simp: geometry_def)
qed simp

lemma foldl_reports:
  assumes "faithful ser de"
  shows "\<forall>r \<in> snd ` set rs. rr_state r \<noteq> RECOVERY_CANCELLED \<Longrightarrow> distinct (map fst rs) \<Longrightarrow>
    foldl (see_frame de) v (map Control (List.map_filter (\<lambda>pr. ser (recovery_message pr)) rs))
      = v\<lparr>vw_recovery := vw_recovery v ++ map_of rs\<rparr>"
proof (induction rs arbitrary: v)
  case (Cons pr rs)
  obtain p r where pr: "pr = (p, r)" by fastforce
  obtain j where "ser (recovery_message pr) = Some j" "de j = Some (recovery_message pr)"
    using assms by (auto simp: faithful_def)
  moreover from Cons.prems pr have "rr_state r \<noteq> RECOVERY_CANCELLED" by simp
  then have "see v (recovery_message pr) = v\<lparr>vw_recovery := (vw_recovery v)(p \<mapsto> r)\<rparr>"
    using pr by (cases r) (simp add: recovery_message_def)
  moreover have "vw_recovery v ++ map_of (pr # rs) = (vw_recovery v)(p \<mapsto> r) ++ map_of rs"
    using Cons.prems(2) pr by (simp add: map_add_upd_left dom_map_of_conv_image_fst)
  moreover have "foldl (see_frame de) w (map Control (List.map_filter (\<lambda>pr. ser (recovery_message pr)) rs))
      = w\<lparr>vw_recovery := vw_recovery w ++ map_of rs\<rparr>" for w
    using Cons by simp
  moreover have "see_frame de v (Control j) = see v (recovery_message pr)" by (simp add: see_frame_def calculation(2))
  ultimately show ?case by (simp only: map_filter_simps option.case list.map foldl.simps) simp
qed simp

lemma connect_begin_total:
  "\<exists>c. connect_begin ser split False i socket s =
     Some (c, s\<lparr>sh_clients := sh_clients s @
        [\<lparr>cl_id = i, cl_tx = empty_tx, cl_held = Some [], cl_socket = socket, cl_connection = None\<rparr>]\<rparr>)"
  using those_capture [of split "sh_panes s"] by (auto simp: connect_begin_def Let_def)

lemma viewed_replay:
  assumes "faithful ser de" "panes_inv s" "connect_begin ser split False i socket s = Some (c, s')"
  shows "viewed de (owed_frames ser c) = hub_view s"
proof -
  obtain rs where rs: "those (map (capture split) (sh_panes s)) = Some rs"
      "map (\<lambda>r. (pr_pane r, pr_rows r, pr_cols r)) rs = map geometry (sh_panes s)"
    using those_capture by blast
  let ?z = "case sh_zoomed s of None \<Rightarrow> None | Some p \<Rightarrow> ser (SmZoomed (Some p))"
  have c: "c = \<lparr>cp_hello = ser (SmHello i (length (sh_panes s))), cp_zoomed = ?z, cp_panes = rs,
      cp_recovery = List.map_filter (\<lambda>pr. ser (recovery_message pr)) (sh_recovery s)\<rparr>"
    using assms(3) rs(1) by (simp add: connect_begin_def Let_def)
  have z: "foldl (see_frame de) v (opt_frame ?z) = (case sh_zoomed s of None \<Rightarrow> v | Some p \<Rightarrow> v\<lparr>vw_zoom := Some p\<rparr>)" for v
    using foldl_opt_frame [OF assms(1)] by (auto simp: opt_frame_def split: option.split)
  have "distinct (map fst (sh_recovery s))" using assms(2) by (simp add: panes_inv_def bt_wf_def strict_sorted_iff)
  moreover have "\<forall>r \<in> snd ` set (sh_recovery s). rr_state r \<noteq> RECOVERY_CANCELLED" using assms(2) by (simp add: panes_inv_def)
  ultimately show ?thesis
    unfolding owed_frames_def replay_list_def c viewed_def
    by (simp add: foldl_opt_frame [OF assms(1)] z foldl_panes [OF assms(1)] foldl_reports [OF assms(1)] rs(2)
        view_empty_def hub_view_def split: option.split)
qed

section \<open>Runs of the machine\<close>

definition ids_inv :: "hub \<Rightarrow> bool" where
  "ids_inv h \<longleftrightarrow> distinct (map cl_id (sh_clients (hm_shared h)))
     \<and> (\<forall>c \<in> set (sh_clients (hm_shared h)). unat (cl_id c) < unat (hm_next h))
     \<and> (\<forall>i. unat (hm_next h) \<le> unat i \<longrightarrow> hm_received h i = [])"

definition hub_inv :: "(server_message \<Rightarrow> rstring option) \<Rightarrow> (rstring \<Rightarrow> server_message option) \<Rightarrow> hub \<Rightarrow> bool" where
  "hub_inv ser de h \<longleftrightarrow> panes_inv (hm_shared h) \<and> ids_inv h \<and> (\<forall>c \<in> ran (hm_flight h). replay_fits ser c)
     \<and> agrees ser de h (hub_view (hm_shared h)) (hm_shared h)"

lemma client_ok_cong:
  "hm_received h' (cl_id c) = hm_received h (cl_id c) \<Longrightarrow> hm_flight h' (cl_id c) = hm_flight h (cl_id c) \<Longrightarrow>
   client_ok ser de h' V c = client_ok ser de h V c"
  by (simp add: client_ok_def split: option.split)

lemma ids_inv_thinned:
  assumes "ids_inv h" "thinned (hm_shared h) s'"
  shows "ids_inv (h\<lparr>hm_shared := s'\<rparr>)"
proof -
  have "subseq (map cl_id (sh_clients s')) (map cl_id (sh_clients (hm_shared h)))" using assms(2) by (simp add: thinned_def)
  then obtain N where n: "map cl_id (sh_clients s') = nths (map cl_id (sh_clients (hm_shared h))) N"
    by (auto simp: subseq_conv_nths)
  have "set (map cl_id (sh_clients s')) \<subseteq> set (map cl_id (sh_clients (hm_shared h)))"
    unfolding n by (rule set_nths_subset)
  moreover have "distinct (map cl_id (sh_clients s'))" unfolding n using assms(1) by (simp add: ids_inv_def)
  ultimately show ?thesis using assms(1) by (auto simp: ids_inv_def)
qed

lemma upholds_inv:
  assumes "upholds ser de (hm_shared h) (f (hm_shared h))" "hub_inv ser de h"
  shows "hub_inv ser de (on_shared f h)"
proof -
  have "agrees ser de (h\<lparr>hm_shared := s\<rparr>) V t = agrees ser de h V t" for s V t
    by (simp add: agrees_def client_ok_cong [of "h\<lparr>hm_shared := s\<rparr>" _ h])
  with assms ids_inv_thinned [of h "f (hm_shared h)"] show ?thesis
    by (simp add: hub_inv_def upholds_def on_shared_def)
qed

lemma hub_inv_new: "hub_inv ser de hub_new"
  by (simp add: hub_inv_def hub_new_def shared_new_def panes_inv_def pane_ids_def ids_inv_def agrees_def)

lemma hub_inv_begin:
  assumes "faithful ser de" "hub_inv ser de h" "hub_ok ser de split h (Begin socket)"
  shows "hub_inv ser de (begin_connect ser split socket h)"
proof -
  let ?s = "hm_shared h" and ?i = "hm_next h"
  let ?c = "\<lparr>cl_id = ?i, cl_tx = empty_tx, cl_held = Some [], cl_socket = socket, cl_connection = None\<rparr>"
  let ?s' = "?s\<lparr>sh_clients := sh_clients ?s @ [?c]\<rparr>"
  obtain cap where cb: "connect_begin ser split False ?i socket ?s = Some (cap, ?s')" using connect_begin_total by blast
  let ?h = "h\<lparr>hm_shared := ?s', hm_next := ?i + 1, hm_flight := (hm_flight h)(?i \<mapsto> cap)\<rparr>"
  have fits: "replay_fits ser cap" "unat ?i + 1 < 2 ^ 64" using assms(3) cb by simp_all
  then have nx: "unat (?i + 1) = unat ?i + 1" by (simp add: unat_word_ariths)
  have ids: "ids_inv h" and ag: "\<forall>c \<in> set (sh_clients ?s). client_ok ser de h (hub_view ?s) c" and pi: "panes_inv ?s"
    using assms(2) by (simp_all add: hub_inv_def agrees_def)
  have "client_ok ser de ?h (hub_view ?s) c" if "c \<in> set (sh_clients ?s)" for c
  proof -
    have "cl_id c \<noteq> ?i" using ids that by (auto simp: ids_inv_def)
    then show ?thesis using ag that client_ok_cong [of ?h c h] by simp
  qed
  moreover have "client_ok ser de ?h (hub_view ?s) ?c"
    using viewed_replay [OF assms(1) pi cb] ids by (simp add: client_ok_def ids_inv_def)
  moreover have "ids_inv ?h" using ids nx by (auto simp: ids_inv_def less_Suc_eq)
  moreover have "\<forall>c \<in> ran (hm_flight ?h). replay_fits ser c"
    using assms(2) fits(1) by (auto simp: hub_inv_def ran_def)
  moreover have "panes_inv ?s'" "hub_view ?s' = hub_view ?s" using pi by (simp_all add: panes_inv_def pane_ids_def hub_view_def)
  ultimately show ?thesis using cb by (auto simp: begin_connect_def hub_inv_def agrees_def)
qed

lemma release_held_ok:
  "client_ok ser de h V c \<Longrightarrow> release_held fs c = (c', Kept) \<Longrightarrow>
   client_ok ser de h (foldl (see_frame de) V fs) c' \<and> cl_id c' = cl_id c"
proof (induction fs c arbitrary: V rule: release_held.induct)
  case (2 f fs c)
  obtain c1 v where q: "queue_locked f c = (c1, v)" by fastforce
  with 2(3) have v: "v = Kept" "release_held fs c1 = (c', Kept)" by (cases v; simp)+
  from queue_locked_ok [OF 2(2)] q v(1) have "client_ok ser de h (see_frame de V f) c1" "cl_id c1 = cl_id c" by simp_all
  with 2(1) [of c1 v] q v show ?case by simp
qed simp

lemma try_send_each_view:
  "list_all (aside_frame de) fs \<Longrightarrow> viewed de (xs @ ch_queue (try_send_each fs tx)) = viewed de (xs @ ch_queue tx)"
proof (induction fs tx rule: try_send_each.induct)
  case (2 f fs tx)
  then have "viewed de (xs @ ch_queue (fst (try_send f tx))) = viewed de (xs @ ch_queue tx)"
    using see_aside_frame [of de f] by (simp add: try_send_def flip: append_assoc)
  with 2 show ?case by simp
qed simp

lemma finish_client_ok:
  assumes "\<forall>c \<in> set cs. client_ok ser de h V c" "distinct (map cl_id cs)"
    and "hm_flight h i = Some cap" "viewed de (ch_queue tx) = viewed de (owed_frames ser cap)"
    and h': "hm_received h' = hm_received h" "hm_flight h' = (hm_flight h)(i := None)"
  shows "(\<forall>c \<in> set (fst (finish_client i tx k cs)). client_ok ser de h' V c)
    \<and> subseq (map cl_id (fst (finish_client i tx k cs))) (map cl_id cs)"
  using assms(1,2)
proof (induction cs)
  case (Cons c cs)
  have other: "client_ok ser de h' V c'" if "c' \<in> set (c # cs)" "cl_id c' \<noteq> i" for c'
  proof -
    have "client_ok ser de h V c'" using that(1) Cons.prems(1) by blast
    then show ?thesis using that(2) client_ok_cong [of h' c' h] h' by simp
  qed
  show ?case
  proof (cases "cl_id c = i")
    case False
    then have "fst (finish_client i tx k (c # cs)) = c # fst (finish_client i tx k cs)" by (simp add: case_prod_beta)
    moreover have "client_ok ser de h' V c" using other False by simp
    ultimately show ?thesis using Cons by simp
  next
    case True
    then obtain held where held: "cl_held c = Some held" "hm_received h i = []" "viewed de (owed_frames ser cap @ held) = V"
      using Cons.prems(1) assms(3) by (auto simp: client_ok_def split: option.splits)
    let ?c1 = "c\<lparr>cl_tx := tx, cl_held := None, cl_connection := Some k\<rparr>"
    obtain c' v where r: "release_held held ?c1 = (c', v)" by fastforce
    have "client_ok ser de h' (viewed de (owed_frames ser cap)) ?c1"
      using True held(2) assms(4) h' by (simp add: client_ok_def)
    from release_held_ok [OF this, of held c'] r held(3) True
    have c': "v = Kept \<Longrightarrow> client_ok ser de h' V c' \<and> cl_id c' = i" by (simp add: viewed_append)
    have cs: "\<forall>c' \<in> set cs. client_ok ser de h' V c'"
    proof
      fix c' assume c'': "c' \<in> set cs"
      with Cons.prems(2) True have "cl_id c' \<noteq> i" by (auto simp: image_iff)
      with c'' other show "client_ok ser de h' V c'" by simp
    qed
    from True held(1) r c' cs show ?thesis by (cases v) auto
  qed
qed simp

lemma hub_inv_finish:
  assumes "faithful ser de" "hub_inv ser de h" "list_all (aside_frame de) verdicts"
  shows "hub_inv ser de (finish_connect ser i k verdicts h)"
proof (cases "hm_flight h i")
  case (Some cap)
  let ?h = "h\<lparr>hm_flight := (hm_flight h)(i := None)\<rparr>"
  let ?s = "hm_shared h"
  have inv: "panes_inv ?s" "ids_inv h" "\<forall>c \<in> set (sh_clients ?s). client_ok ser de h (hub_view ?s) c"
    using assms(2) by (simp_all add: hub_inv_def agrees_def)
  have ids: "ids_inv (?h\<lparr>hm_shared := s'\<rparr>)" if "thinned ?s s'" for s'
    using ids_inv_thinned [OF inv(2) that] by (simp add: ids_inv_def)
  have cong: "client_ok ser de (?h\<lparr>hm_shared := s'\<rparr>) V c = client_ok ser de ?h V c" for s' V c
    by (rule client_ok_cong) simp_all
  have flights: "\<forall>c \<in> ran (hm_flight ?h). replay_fits ser c" using assms(2) by (auto simp: hub_inv_def ran_def split: if_splits)
  have same: "panes_inv (?s\<lparr>sh_clients := cs, sh_shut := x\<rparr>)" "hub_view (?s\<lparr>sh_clients := cs, sh_shut := x\<rparr>) = hub_view ?s" for cs x
    using inv(1) by (simp_all add: panes_inv_def pane_ids_def hub_view_def)
  show ?thesis
  proof (cases "replay_frames ser cap empty_tx")
    case None
    let ?cs = "filter (\<lambda>c. cl_id c \<noteq> i) (sh_clients ?s)"
    have "client_ok ser de ?h (hub_view ?s) c" if "c \<in> set ?cs" for c
      using that inv(3) client_ok_cong [of ?h c h] by simp
    moreover have "thinned ?s (disconnect_client i ?s)"
      unfolding thinned_def disconnect_client_def by (simp add: subseq_map)
    ultimately show ?thesis
      using Some None ids [of "disconnect_client i ?s"] same [where cs = ?cs and x = "sh_shut ?s"] cong flights
      by (simp add: finish_connect_def Let_def hub_inv_def agrees_def on_shared_def disconnect_client_def)
  next
    case (Some tx)
    note fl = \<open>hm_flight h i = Some cap\<close>
    have "replay_fits ser cap" using fl assms(2) by (auto simp: hub_inv_def ran_def)
    then have "ch_queue tx = owed_frames ser cap"
      using Some by (auto simp: replay_frames_exact replay_fits_def owed_frames_def opt_frame_def split: option.splits if_splits)
    then have q: "viewed de (ch_queue (try_send_each verdicts tx)) = viewed de (owed_frames ser cap)"
      using try_send_each_view [OF assms(3), of "[]" tx] by simp
    have d: "distinct (map cl_id (sh_clients ?s))" using inv(2) by (simp add: ids_inv_def)
    have f: "(\<forall>c \<in> set (fst (finish_client i (try_send_each verdicts tx) k (sh_clients ?s))). client_ok ser de ?h (hub_view ?s) c)
        \<and> subseq (map cl_id (fst (finish_client i (try_send_each verdicts tx) k (sh_clients ?s)))) (map cl_id (sh_clients ?s))"
      by (rule finish_client_ok [OF inv(3) d fl q]) simp_all
    show ?thesis
      using fl Some f ids [of "connect_finish i tx k verdicts ?s"] same cong flights
      by (simp add: finish_connect_def Let_def hub_inv_def agrees_def on_shared_def connect_finish_def thinned_def case_prod_beta)
  qed
qed (use assms(2) in \<open>simp add: finish_connect_def\<close>)

lemma hub_inv_receive:
  assumes "hub_inv ser de h"
  shows "hub_inv ser de (receive i h)"
proof (cases "find_client i (hm_shared h)")
  case (Some c)
  let ?s = "hm_shared h"
  have c: "c \<in> set (sh_clients ?s)" "cl_id c = i"
    using Some by (auto simp: find_client_def find_Some_iff)
  show ?thesis
  proof (cases "cl_held c = None \<and> ch_queue (cl_tx c) \<noteq> []")
    case True
    then obtain f rest where q: "ch_queue (cl_tx c) = f # rest" by (cases "ch_queue (cl_tx c)") auto
    let ?upd = "\<lambda>c'. c'\<lparr>cl_tx := (cl_tx c)\<lparr>ch_queue := rest\<rparr>\<rparr>"
    let ?s' = "?s\<lparr>sh_clients := upd_client i ?upd (sh_clients ?s)\<rparr>"
    let ?h = "h\<lparr>hm_shared := ?s', hm_received := (hm_received h)(i := hm_received h i @ [f])\<rparr>"
    have r: "receive i h = ?h" using Some True q by (simp add: receive_def wait_frame_def)
    have inv: "ids_inv h" "\<forall>c \<in> set (sh_clients ?s). client_ok ser de h (hub_view ?s) c"
      using assms by (simp_all add: hub_inv_def agrees_def)
    have ids: "map cl_id (upd_client i ?upd (sh_clients ?s)) = map cl_id (sh_clients ?s)" by (simp add: map_upd_client)
    have set: "set (upd_client i ?upd (sh_clients ?s)) \<subseteq> {c' \<in> set (sh_clients ?s). cl_id c' \<noteq> i} \<union> {?upd c}"
      using inv(1) c by (auto simp: ids_inv_def upd_client_set)
    have "client_ok ser de h (hub_view ?s) c" using inv(2) c(1) by blast
    then have "client_ok ser de ?h (hub_view ?s) (?upd c)"
      using c(2) True q by (simp add: client_ok_def)
    moreover have "client_ok ser de ?h (hub_view ?s) c'" if "c' \<in> set (sh_clients ?s)" "cl_id c' \<noteq> i" for c'
      using inv(2) that client_ok_cong [of ?h c' h] by simp
    ultimately have "agrees ser de ?h (hub_view ?s) ?s'" using set by (auto simp: agrees_def)
    moreover have "ids_inv ?h"
    proof -
      have "unat (cl_id c') < unat (hm_next h)" if "c' \<in> set (upd_client i ?upd (sh_clients ?s))" for c'
        using subsetD [OF set that] inv(1) c by (auto simp: ids_inv_def)
      moreover have "unat i < unat (hm_next h)" using inv(1) c by (auto simp: ids_inv_def)
      ultimately show ?thesis using inv(1) ids by (simp add: ids_inv_def)
    qed
    ultimately show ?thesis
      using assms r by (simp add: hub_inv_def panes_inv_def pane_ids_def hub_view_def)
  next
    case False
    then show ?thesis using assms Some by (auto simp: receive_def wait_frame_def)
  qed
qed (use assms in \<open>simp add: receive_def\<close>)

lemma hub_inv_slot: "hub_inv ser de (h\<lparr>hm_slot := b\<rparr>) = hub_inv ser de h"
proof -
  have "client_ok ser de (h\<lparr>hm_slot := b\<rparr>) V c = client_ok ser de h V c" for V c by (rule client_ok_cong) simp_all
  then show ?thesis by (simp add: hub_inv_def ids_inv_def agrees_def)
qed

lemma hub_inv_step:
  assumes "faithful ser de" "hub_inv ser de h" "hub_ok ser de split h e"
  shows "hub_inv ser de (hub_step ser split h e)"
proof (cases e)
  case (Register p r c cl t)
  with assms show ?thesis by (auto intro!: upholds_inv upholds_register simp: hub_inv_slot)
next
  case CheckSlot
  with assms(2) show ?thesis by (simp add: hub_inv_slot)
next
  case (Reserve n)
  with assms(2) show ?thesis
    by (auto intro!: upholds_inv upholds_quiet simp: reserve_startup_def Let_def panes_inv_def pane_ids_def hub_view_def)
next
  case (Release n)
  with assms(2) show ?thesis
    by (auto intro!: upholds_inv upholds_quiet simp: release_reserved_def panes_inv_def pane_ids_def hub_view_def)
next
  case (Settled p obs)
  with assms(2) show ?thesis
    by (auto intro!: upholds_inv upholds_upd simp: store_settled_def geometry_stores)
next
  case (Screened p scr)
  with assms(2) show ?thesis
    by (auto intro!: upholds_inv upholds_upd simp: store_screen_def geometry_stores)
next
  case (NormalScreened p scr)
  with assms(2) show ?thesis
    by (auto intro!: upholds_inv upholds_upd simp: store_normal_screen_def geometry_stores)
next
  case (ReportEnded p)
  with assms show ?thesis
    by (auto intro!: upholds_inv upholds_reported simp: end_recovery_if_reported_def end_recovery_def)
next
  case (ToldAll n)
  with assms show ?thesis by (auto intro!: upholds_inv upholds_announce)
next
  case (Begin socket)
  with assms hub_inv_begin [of ser de h split socket] show ?thesis by simp
qed (use assms in \<open>auto intro!: upholds_inv upholds_recorded upholds_resize upholds_removed upholds_zoom upholds_reordered
      upholds_restored upholds_reported upholds_attention upholds_told upholds_verdict upholds_disconnect
      hub_inv_finish hub_inv_receive\<close>)

interpretation hub_machine: event_machine
  "\<lambda>h e. faithful ser de \<and> hub_ok ser de split h e" "hub_step ser split" "hub_inv ser de"
  for ser :: "server_message \<Rightarrow> rstring option" and de split
  by unfold_locales (auto intro: hub_inv_step)

lemma faithful_run_ok:
  "faithful ser de \<Longrightarrow> run_ok (\<lambda>h e. faithful ser de \<and> hub_ok ser de split h e) f h es = run_ok (hub_ok ser de split) f h es"
  by (induction es arbitrary: h) auto

lemma hub_inv_run:
  assumes "faithful ser de" "run_ok (hub_ok ser de split) (hub_step ser split) hub_new es"
  shows "hub_inv ser de (run (hub_step ser split) hub_new es)"
  using hub_machine.run_inv [of ser de hub_new split es] assms hub_inv_new by (simp add: faithful_run_ok)

lemma announce_each_recovery [simp]: "sh_recovery (announce_each ser ms s) = sh_recovery s"
  by (induction ser ms s rule: announce_each.induct) auto

lemma foldl_see_exited:
  "vw_panes (foldl see v (map SmExited is')) = filter (\<lambda>q. fst q \<notin> set is') (vw_panes v)
   \<and> vw_recovery (foldl see v (map SmExited is')) = vw_recovery v"
  by (induction is' arbitrary: v) (auto intro: filter_cong)

lemma foldl_see_ended:
  "vw_panes (foldl see v (map (\<lambda>(pane, _). SmRecovery pane RECOVERY_CANCELLED None None 0) rs)) = vw_panes v
   \<and> vw_recovery (foldl see v (map (\<lambda>(pane, _). SmRecovery pane RECOVERY_CANCELLED None None 0) rs)) x
      = (if x \<in> fst ` set rs then None else vw_recovery v x)"
  by (induction rs arbitrary: v) (auto simp: image_iff)

lemma list_all_mono_set: "\<forall>x \<in> A. P x \<Longrightarrow> (\<And>x. P x \<Longrightarrow> Q x) \<Longrightarrow> \<forall>x \<in> A. Q x"
  by blast

lemma emptied_view:
  fixes s :: shared
  defines "v \<equiv> foldl see (foldl see (hub_view s) (map SmExited (pane_ids s)))
    (map (\<lambda>(pane, _). SmRecovery pane RECOVERY_CANCELLED None None 0) (sh_recovery s))"
  shows "vw_panes v = [] \<and> vw_recovery v = Map.empty"
proof -
  have "filter (\<lambda>q. fst q \<notin> set (pane_ids s)) (map geometry (sh_panes s)) = []"
    by (auto simp: filter_empty_conv pane_ids_def geometry_def)
  then show ?thesis
    unfolding v_def by (simp add: fun_eq_iff foldl_see_ended foldl_see_exited) (simp add: hub_view_def map_of_eq_None_iff)
qed

section \<open>The cap on panes\<close>

definition slot_inv :: "hub \<Rightarrow> bool" where
  "slot_inv h \<longleftrightarrow> length (sh_panes (hm_shared h)) \<le> MAX_PTYS_PER_REPO
     \<and> (hm_slot h \<longrightarrow> length (sh_panes (hm_shared h)) < MAX_PTYS_PER_REPO)"

lemma length_take_in_order: "length (take_in_order target old) \<le> length old"
proof (induction target old rule: take_in_order.induct)
  case (2 i rest old)
  then show ?case by (cases "List.extract (\<lambda>p. pn_id p = i) old") (auto simp: extract_Some_iff)
qed simp

lemma length_restore: "length (sh_panes (restore_pane_index ser p i s)) = length (sh_panes s)"
  by (auto simp: restore_pane_index_def Let_def extract_Some_iff split: option.split)

lemma slot_inv_begin: "sh_panes (hm_shared (begin_connect ser split b h)) = sh_panes (hm_shared h)"
    "hm_slot (begin_connect ser split b h) = hm_slot h"
  using connect_begin_total [of ser split "hm_next h" b "hm_shared h"] by (auto simp: begin_connect_def)

lemma slot_inv_finish: "sh_panes (hm_shared (finish_connect ser i k vs h)) = sh_panes (hm_shared h)"
    "hm_slot (finish_connect ser i k vs h) = hm_slot h"
  by (auto simp: finish_connect_def Let_def on_shared_def connect_finish_def disconnect_client_def case_prod_beta split: option.split)

lemma slot_inv_receive: "sh_panes (hm_shared (receive i h)) = sh_panes (hm_shared h)" "hm_slot (receive i h) = hm_slot h"
  by (auto simp: receive_def wait_frame_def split: option.split list.split)

lemma slot_inv_shrink:
  "slot_inv h \<Longrightarrow> length (sh_panes (hm_shared h')) \<le> length (sh_panes (hm_shared h)) \<Longrightarrow> hm_slot h' = hm_slot h \<Longrightarrow> slot_inv h'"
  by (auto simp: slot_inv_def)

lemma slot_inv_step:
  assumes "slot_inv h" "hub_ok ser de split h e"
  shows "slot_inv (hub_step ser split h e)"
proof (cases e)
  case CheckSlot
  with assms(1) show ?thesis by (simp add: slot_inv_def has_free_slot_def)
next
  case (Register p r c cl t)
  with assms show ?thesis by (simp add: slot_inv_def on_shared_def register_pane_def Let_def)
next
  case (Reordered order)
  show ?thesis
    by (rule slot_inv_shrink [OF assms(1)])
       (use length_take_in_order in \<open>auto simp: Reordered on_shared_def reorder_panes_def Let_def\<close>)
next
  case (Removed p)
  show ?thesis
    by (rule slot_inv_shrink [OF assms(1)])
       (auto simp: Removed on_shared_def remove_pane_and_announce_def Let_def)
qed (rule slot_inv_shrink [OF assms(1)];
     simp add: on_shared_def slot_inv_begin slot_inv_finish slot_inv_receive length_restore reserve_startup_def
       release_reserved_def record_and_broadcast_def store_settled_def store_screen_def store_normal_screen_def
       resize_shared_def set_zoom_def end_recovery_if_reported_def end_recovery_def broadcast_attention_def
       push_verdict_def disconnect_client_def Let_def split: option.split)+

interpretation hub_slots: event_machine "hub_ok ser de split" "hub_step ser split" slot_inv
  for ser :: "server_message \<Rightarrow> rstring option" and de split
  by unfold_locales (rule slot_inv_step)



section \<open>A rendering of the messages\<close>

text \<open>A concrete rendering that can be read back, for the examples below.\<close>

fun put_str :: "rstring \<Rightarrow> rstring" where
  "put_str s = length s # s"

fun put_opt :: "('a \<Rightarrow> rstring) \<Rightarrow> 'a option \<Rightarrow> rstring" where
  "put_opt f None = [0]"
| "put_opt f (Some x) = 1 # f x"

definition put_int :: "int \<Rightarrow> rstring" where
  "put_int x = [nat x, nat (- x)]"

fun get_str :: "rstring \<Rightarrow> rstring \<times> rstring" where
  "get_str [] = ([], [])"
| "get_str (n # r) = (take n r, drop n r)"

fun get_nat :: "rstring \<Rightarrow> nat \<times> rstring" where
  "get_nat [] = (0, [])"
| "get_nat (n # r) = (n, r)"

definition get_int :: "rstring \<Rightarrow> int \<times> rstring" where
  "get_int r = (case get_nat r of (a, r) \<Rightarrow> case get_nat r of (b, r) \<Rightarrow> (int a - int b, r))"

fun get_opt :: "(rstring \<Rightarrow> 'a \<times> rstring) \<Rightarrow> rstring \<Rightarrow> 'a option \<times> rstring" where
  "get_opt g [] = (None, [])"
| "get_opt g (k # r) = (if k = 0 then (None, r) else map_prod Some id (g r))"

fun sample_ser :: "server_message \<Rightarrow> rstring option" where
  "sample_ser (SmCreated p r c cl t) =
     Some (0 # unat p # unat r # unat c # put_opt (\<lambda>i. [unat i]) cl @ put_opt put_str t)"
| "sample_ser (SmExited p) = Some [1, unat p]"
| "sample_ser (SmResized p r c) = Some [2, unat p, unat r, unat c]"
| "sample_ser (SmHello i n) = Some [3, unat i, n]"
| "sample_ser SmReplayComplete = Some [4]"
| "sample_ser (SmSizeOwner b s) = Some (5 # (if b then 1 else 0) # s)"
| "sample_ser (SmError s) = Some (6 # s)"
| "sample_ser (SmReordered ps) = Some (7 # map unat ps)"
| "sample_ser (SmZoomed z) = Some (8 # put_opt (\<lambda>p. [unat p]) z)"
| "sample_ser (SmPending n) = Some [9, n]"
| "sample_ser (SmAttention p m) = Some (10 # unat p # put_opt put_str m)"
| "sample_ser (SmRecovery p st d dl a) =
     Some (11 # unat p # unat a # put_str st @ put_opt put_str d @ put_opt put_int dl)"

fun get_word :: "rstring \<Rightarrow> 'w::len word \<times> rstring" where
  "get_word r = map_prod of_nat id (get_nat r)"

definition sample_de :: "rstring \<Rightarrow> server_message option" where
  "sample_de j =
     (let (tag, r) = get_nat j in
      if tag = 0 then (let (p, r) = get_word r; (w, r) = get_word r; (c, r) = get_word r;
                           (cl, r) = get_opt get_word r; (t, r) = get_opt get_str r in Some (SmCreated p w c cl t))
      else if tag = 1 then Some (SmExited (fst (get_word r)))
      else if tag = 2 then (let (p, r) = get_word r; (w, r) = get_word r; (c, r) = get_word r in Some (SmResized p w c))
      else if tag = 3 then (let (i, r) = get_word r; (n, r) = get_nat r in Some (SmHello i n))
      else if tag = 4 then Some SmReplayComplete
      else if tag = 5 then (let (b, s) = get_nat r in Some (SmSizeOwner (b = 1) s))
      else if tag = 6 then Some (SmError r)
      else if tag = 7 then Some (SmReordered (map of_nat r))
      else if tag = 8 then Some (SmZoomed (fst (get_opt get_word r)))
      else if tag = 9 then Some (SmPending (fst (get_nat r)))
      else if tag = 10 then (let (p, r) = get_word r; (m, r) = get_opt get_str r in Some (SmAttention p m))
      else (let (p, r) = get_word r; (a, r) = get_word r; (st, r) = get_str r; (d, r) = get_opt get_str r;
                (dl, r) = get_opt get_int r in Some (SmRecovery p st d dl a)))"

lemma get_put_opt:
  "(\<And>x rest. g (f x @ rest) = (x, rest)) \<Longrightarrow> get_opt g (put_opt f v @ rest) = (v, rest)"
  by (cases v) auto

lemma get_put_opts:
  "get_opt get_str (put_opt put_str s @ rest) = (s, rest)"
  "get_opt get_word (put_opt (\<lambda>i. [unat i]) w @ rest) = (w, rest)"
  "get_opt get_int (put_opt put_int x @ rest) = (x, rest)"
  by (rule get_put_opt; simp add: get_int_def put_int_def)+

lemmas get_put_last = get_put_opts [where rest = "[]", unfolded append_Nil2]

lemma get_put_str: "get_str (put_str s @ rest) = (s, rest)"
  by simp

lemma sample_faithful: "faithful sample_ser sample_de"
proof -
  have "\<exists>j. sample_ser m = Some j \<and> sample_de j = Some m" for m
    by (cases m) (simp_all add: sample_de_def get_put_opts get_put_last get_put_str map_idI comp_def
        del: put_str.simps put_opt.simps get_opt.simps get_str.simps)
  then show ?thesis by (simp add: faithful_def)
qed

definition sample_events :: "hub_event list" where
  "sample_events = [Begin False, CheckSlot, Register 7 24 80 None None, Finish 0 0 [], Receive 0, Zoom (Some 7)]"

lemmas hub_eval = sample_events_def hub_new_def shared_new_def begin_connect_def connect_begin_def Let_def replay_fits_def
  replay_list_def opt_frame_def CLIENT_QUEUE_DEPTH_def has_free_slot_def MAX_PTYS_PER_REPO_def pane_ids_def on_shared_def
  register_pane_def clear_zoom_locked_def announce_all_def broadcast_locked_def queue_locked_def pane_new_def
  finish_connect_def replay_frames_def send_opt_def rq_send_def connect_finish_def receive_def find_client_def wait_frame_def set_zoom_def
  pane_live_def try_send_def empty_tx_def map_filter_simps

lemma sample_run_ok: "run_ok (hub_ok sample_ser sample_de (\<lambda>_. 0)) (hub_step sample_ser (\<lambda>_. 0)) hub_new sample_events"
  by (simp add: hub_eval)

definition sample_hub :: hub where
  "sample_hub = run (hub_step sample_ser (\<lambda>_. 0)) hub_new sample_events"

lemma sample_hub_state:
  "map cl_id (sh_clients (hm_shared sample_hub)) = [0]" "cl_held (hd (sh_clients (hm_shared sample_hub))) = None"
  "hub_view (hm_shared sample_hub) = \<lparr>vw_panes = [(7, 24, 80)], vw_zoom = Some 7, vw_recovery = Map.empty\<rparr>"
  "length (hm_received sample_hub 0) = 1"
  by (simp_all add: sample_hub_def hub_eval hub_view_def geometry_def)



end
