(* ===== verification/Replay_Refinement.thy ===== *)
theory Replay_Refinement
  imports Hub_Output
begin

text \<open>
  The replay record against its specification. The specification of a pane is a terminal and
  what has happened to it since two of its screens were serialised: the last screen taken of the
  normal record (\<open>rs_shot\<close>) with every byte recorded there since, and the same for the alternate screen.
  The implementation keeps bytes only: a bounded ring with a coverage mark, and a screen with the bytes
  owed on top of it. The relation \<open>recorded_as\<close> is kept by every operation of the worker's output path.
\<close>

datatype term_item =
    Chunk "u16 \<times> u16" "u8 list"
  | Synced
  | Sized u16 u16
  | NormalShot
  | AltShot

record 'v replay_spec =
  rs_term :: "'v pane_emulator option"
  rs_alt :: bool
  rs_shot :: "'v pane_emulator option"
  rs_tail :: "u8 list"
  rs_alt_shot :: "'v pane_emulator option"
  rs_alt_tail :: "u8 list"

definition spec_new :: "'v replay_spec" where
  "spec_new = \<lparr>rs_term = None, rs_alt = False, rs_shot = None, rs_tail = [], rs_alt_shot = None, rs_alt_tail = []\<rparr>"

text \<open>
  A screen may be spliced into a record where the stream stands between sequences and nothing is held
  back from the grid, or, past twice the cap, where at least nothing is held back.
\<close>

definition shot_ok :: "'v vt_ops \<Rightarrow> 'v pane_emulator \<Rightarrow> nat \<Rightarrow> bool" where
  "shot_ok vt e owed \<longleftrightarrow>
     emulator_at_boundary vt e \<or> (screen_current vt e \<and> owed > 2 * MAX_TERMINAL_SCROLLBACK_BYTES)"

definition leave_alt :: "bool \<Rightarrow> 'v replay_spec \<Rightarrow> 'v replay_spec" where
  "leave_alt alt c = (if rs_alt c \<and> \<not> alt then c\<lparr>rs_alt_shot := None, rs_alt_tail := []\<rparr> else c)"

fun spec_step :: "'v vt_ops \<Rightarrow> 'v replay_spec \<Rightarrow> term_item \<Rightarrow> 'v replay_spec option" where
  "spec_step vt c (Chunk dims bs) =
     (let e0 = (case rs_term c of Some e \<Rightarrow> e | None \<Rightarrow> emulator_new vt (fst dims) (snd dims) NO_HISTORY);
          e = fst (emulator_process vt bs e0);
          alt = pm_alt_screen (emulator_modes vt e);
          c = leave_alt alt c
      in Some (c\<lparr>rs_term := Some e, rs_alt := alt,
                 rs_tail := (if alt then rs_tail c else rs_tail c @ bs),
                 rs_alt_tail := (if alt then rs_alt_tail c @ bs else rs_alt_tail c)\<rparr>))"
| "spec_step vt c Synced =
     (case rs_term c of
        None \<Rightarrow> None
      | Some e \<Rightarrow>
          let e = fst (emulator_settle_sync vt e); alt = pm_alt_screen (emulator_modes vt e)
          in Some ((leave_alt alt c)\<lparr>rs_term := Some e, rs_alt := alt\<rparr>))"
| "spec_step vt c (Sized rows cols) = Some (c\<lparr>rs_term := map_option (emulator_resize vt rows cols) (rs_term c)\<rparr>)"
| "spec_step vt c NormalShot =
     (case rs_term c of
        None \<Rightarrow> None
      | Some e \<Rightarrow> if shot_ok vt e (length (rs_tail c)) then Some (c\<lparr>rs_shot := Some e, rs_tail := []\<rparr>) else None)"
| "spec_step vt c AltShot =
     (case rs_term c of
        None \<Rightarrow> None
      | Some e \<Rightarrow> if shot_ok vt e (length (rs_alt_tail c)) then Some (c\<lparr>rs_alt_shot := Some e, rs_alt_tail := []\<rparr>) else None)"

fun spec_from :: "'v vt_ops \<Rightarrow> 'v replay_spec \<Rightarrow> term_item list \<Rightarrow> 'v replay_spec option" where
  "spec_from vt c [] = Some c"
| "spec_from vt c (i # is) = (case spec_step vt c i of None \<Rightarrow> None | Some c' \<Rightarrow> spec_from vt c' is)"

fun fed :: "term_item list \<Rightarrow> u8 list" where
  "fed [] = []"
| "fed (Chunk _ bs # is) = bs @ fed is"
| "fed (_ # is) = fed is"

definition render :: "'v vt_ops \<Rightarrow> 'v pane_emulator option \<Rightarrow> u8 list" where
  "render vt e = (case e of None \<Rightarrow> [] | Some e \<Rightarrow> screen_snapshot vt e)"

definition recorded_as :: "'v vt_ops \<Rightarrow> 'v tracker \<Rightarrow> pane_state \<Rightarrow> 'v replay_spec \<Rightarrow> bool" where
  "recorded_as vt t p c \<longleftrightarrow>
     pn_normal_screen p = render vt (rs_shot c) \<and> pn_covered p \<le> length (pn_scrollback p)
     \<and> drop (pn_covered p) (pn_scrollback p) = rs_tail c
     \<and> (rs_shot c = None \<longrightarrow> pn_covered p = 0)
     \<and> (length (pn_scrollback p) \<le> MAX_TERMINAL_SCROLLBACK_BYTES \<or> pn_covered p = 0 \<or> pn_covered p = length (pn_scrollback p))
     \<and> pn_screen p = render vt (rs_alt_shot c) \<and> pn_since p = rs_alt_tail c
     \<and> pm_alt_screen (pn_modes p) = rs_alt c
     \<and> tk_emulators t (pn_id p) = rs_term c \<and> (tk_alt t (pn_id p) = Some True) = rs_alt c"

section \<open>Each operation keeps the relation\<close>

lemma spec_from_append:
  "spec_from vt c (is @ js) = (case spec_from vt c is of None \<Rightarrow> None | Some c' \<Rightarrow> spec_from vt c' js)"
  by (induction vt c "is" rule: spec_from.induct) (auto split: option.split)

lemma fed_append [simp]: "fed (is @ js) = fed is @ fed js"
  by (induction "is" rule: fed.induct) auto

lemma recorded_pace [simp]: "recorded_as vt (t\<lparr>tk_pace := x\<rparr>) p c = recorded_as vt t p c"
  by (simp add: recorded_as_def)

lemma pace_ops [simp]:
  "recorded_as vt (reset_pace q t) p c = recorded_as vt t p c"
  "recorded_as vt (note_owed q n t) p c = recorded_as vt t p c"
  "recorded_as vt (mark_stored q now t) p c = recorded_as vt t p c"
  by (simp_all add: reset_pace_def note_owed_def mark_stored_def)

lemma recorded_other:
  "tk_emulators t' (pn_id p) = tk_emulators t (pn_id p) \<Longrightarrow> tk_alt t' (pn_id p) = tk_alt t (pn_id p) \<Longrightarrow>
   recorded_as vt t' p c = recorded_as vt t p c"
  by (simp add: recorded_as_def)

lemma push_scrollback_spec:
  assumes "covered \<le> length buf" "push_scrollback buf covered data = (buf', covered', owed)"
  shows "drop covered' buf' = drop covered buf @ data" "covered' \<le> length buf'" "owed = length (drop covered buf @ data)"
    and "covered = 0 \<Longrightarrow> covered' = 0"
    and "length buf' \<le> MAX_TERMINAL_SCROLLBACK_BYTES \<or> covered' = 0"
  using assms by (auto simp: push_scrollback_def Let_def min_def drop_drop split: if_splits)

lemma recorded_term: "recorded_as vt t p c \<Longrightarrow> rs_term c = tk_emulators t (pn_id p)"
  by (simp add: recorded_as_def)

lemma recorded_alt: "recorded_as vt t p c \<Longrightarrow> rs_alt c = (tk_alt t (pn_id p) = Some True)"
  by (simp add: recorded_as_def)

lemma normal_shot_recorded:
  assumes "recorded_as vt t p c" "tk_emulators t (pn_id p) = Some e" "shot_ok vt e (length (rs_tail c))"
  shows "\<exists>c'. spec_step vt c NormalShot = Some c' \<and> recorded_as vt t (normal_screen_record (screen_snapshot vt e) p) c'"
proof (intro exI conjI)
  show "spec_step vt c NormalShot = Some (c\<lparr>rs_shot := Some e, rs_tail := []\<rparr>)"
    using assms recorded_term [OF assms(1)] by simp
  show "recorded_as vt t (normal_screen_record (screen_snapshot vt e) p) (c\<lparr>rs_shot := Some e, rs_tail := []\<rparr>)"
    using assms(1) recorded_term [OF assms(1)] unfolding assms(2) by (simp add: recorded_as_def normal_screen_record_def render_def)
qed

lemma alt_shot_recorded:
  assumes "recorded_as vt t p c" "tk_emulators t (pn_id p) = Some e" "shot_ok vt e (length (rs_alt_tail c))"
  shows "\<exists>c'. spec_step vt c AltShot = Some c' \<and> recorded_as vt t (screen_record (screen_snapshot vt e) p) c'"
proof (intro exI conjI)
  show "spec_step vt c AltShot = Some (c\<lparr>rs_alt_shot := Some e, rs_alt_tail := []\<rparr>)"
    using assms recorded_term [OF assms(1)] by simp
  show "recorded_as vt t (screen_record (screen_snapshot vt e) p) (c\<lparr>rs_alt_shot := Some e, rs_alt_tail := []\<rparr>)"
    using assms(1) recorded_term [OF assms(1)] unfolding assms(2) by (simp add: recorded_as_def screen_record_def render_def)
qed

text \<open>What both ways of observing a pane leave in the tracker and say of it.\<close>

lemma observed_as_fields:
  assumes "observed_as pane modes title t = (obs, t')"
  shows "ob_modes obs = modes" "ob_alt_changed obs = ((tk_alt t pane = Some True) \<noteq> pm_alt_screen modes)"
    "tk_emulators t' = tk_emulators t" "tk_alt t' = (tk_alt t)(pane \<mapsto> pm_alt_screen modes)"
  using assms by (auto simp: observed_as_def Let_def split: option.splits)

definition settled_spec :: "'v pane_emulator \<Rightarrow> bool \<Rightarrow> 'v replay_spec \<Rightarrow> 'v replay_spec" where
  "settled_spec e alt c = (leave_alt alt c)\<lparr>rs_term := Some e, rs_alt := alt\<rparr>"

lemma settle_record_recorded:
  assumes "recorded_as vt t p c" "tk_emulators t' (pn_id p) = Some e"
    "tk_alt t' (pn_id p) = Some (pm_alt_screen (ob_modes obs))"
    "ob_alt_changed obs = ((tk_alt t (pn_id p) = Some True) \<noteq> pm_alt_screen (ob_modes obs))"
  shows "recorded_as vt t' (settle_record obs p) (settled_spec e (pm_alt_screen (ob_modes obs)) c)"
  using assms unfolding recorded_as_def settled_spec_def settle_record_def leave_alt_def Let_def
  by (cases "ob_title obs") (simp_all add: render_def)

lemma settle_recorded:
  assumes "recorded_as vt t p c" "settle_one vt (pn_id p) t = (Some (pane', obs), t')"
  shows "pane' = pn_id p \<and> (\<exists>c'. spec_step vt c Synced = Some c' \<and> recorded_as vt t' (settle_record obs p) c')"
proof -
  obtain e where e: "tk_emulators t (pn_id p) = Some e" using assms(2) by (auto simp: settle_one_def split: option.splits)
  let ?e = "fst (emulator_settle_sync vt e)" and ?ev = "snd (emulator_settle_sync vt e)"
  obtain o1 t1 where o1: "observed_as (pn_id p) (emulator_modes vt ?e) (ee_title ?ev)
      (t\<lparr>tk_emulators := (tk_emulators t)(pn_id p \<mapsto> ?e)\<rparr>) = (o1, t1)" by fastforce
  note f = observed_as_fields [OF o1]
  have r: "pane' = pn_id p" "obs = o1" "t' = (if ob_alt_changed o1 then reset_pace (pn_id p) t1 else t1)"
    using assms(2) e o1 by (auto simp: settle_one_def Let_def case_prod_beta)
  have "recorded_as vt t1 (settle_record o1 p) (settled_spec ?e (pm_alt_screen (ob_modes o1)) c)"
    by (rule settle_record_recorded [OF assms(1)]) (simp_all add: f)
  moreover have "spec_step vt c Synced = Some (settled_spec ?e (pm_alt_screen (ob_modes o1)) c)"
    using recorded_term [OF assms(1)] e by (simp add: settled_spec_def f Let_def)
  ultimately show ?thesis using r by auto
qed

text \<open>The chunk itself, before any screen is taken of it.\<close>

definition chunk_spec :: "'v pane_emulator \<Rightarrow> bool \<Rightarrow> u8 list \<Rightarrow> 'v replay_spec \<Rightarrow> 'v replay_spec" where
  "chunk_spec e alt bs c =
     (let c = leave_alt alt c
      in c\<lparr>rs_term := Some e, rs_alt := alt, rs_tail := (if alt then rs_tail c else rs_tail c @ bs),
           rs_alt_tail := (if alt then rs_alt_tail c @ bs else rs_alt_tail c)\<rparr>)"

lemma record_chunk_recorded:
  assumes "recorded_as vt t p c" "tk_emulators t' (pn_id p) = Some e"
    "tk_alt t' (pn_id p) = Some (pm_alt_screen (ob_modes obs))"
    "ob_alt_changed obs = ((tk_alt t (pn_id p) = Some True) \<noteq> pm_alt_screen (ob_modes obs))"
  shows "recorded_as vt t' (fst (record_chunk bs obs None p)) (chunk_spec e (pm_alt_screen (ob_modes obs)) bs c)
    \<and> snd (record_chunk bs obs None p) =
       (if pm_alt_screen (ob_modes obs) then length (rs_alt_tail (chunk_spec e (pm_alt_screen (ob_modes obs)) bs c))
        else length (rs_tail (chunk_spec e (pm_alt_screen (ob_modes obs)) bs c)))"
proof (cases "pm_alt_screen (ob_modes obs)")
  case True
  with assms show ?thesis unfolding recorded_as_def chunk_spec_def record_chunk_def leave_alt_def Let_def
    by (cases "ob_title obs") simp_all
next
  case False
  obtain buf cov owed where ps: "push_scrollback (pn_scrollback p) (pn_covered p) bs = (buf, cov, owed)"
    by (metis prod_cases3)
  have "pn_covered p \<le> length (pn_scrollback p)" using assms(1) by (simp add: recorded_as_def)
  note spec = push_scrollback_spec [OF this ps]
  with False assms ps show ?thesis unfolding recorded_as_def chunk_spec_def record_chunk_def leave_alt_def Let_def
    by (cases "ob_title obs") (auto simp: render_def)
qed

section \<open>Steps of the worker as steps of the specification\<close>

text \<open>
  From \<open>st\<close> to \<open>st'\<close> the record of pane \<open>q\<close> moved along the specification by items that fed it exactly
  \<open>bs\<close>; a pane that was not there still is not.
\<close>

definition advances :: "'v vt_ops \<Rightarrow> shared \<times> 'v tracker \<Rightarrow> shared \<times> 'v tracker \<Rightarrow> pane_id \<Rightarrow> u8 list \<Rightarrow> bool" where
  "advances vt st st' q bs \<longleftrightarrow>
     (find_pane q (fst st) = None \<longrightarrow> find_pane q (fst st') = None) \<and>
     (\<forall>p c. find_pane q (fst st) = Some p \<longrightarrow> recorded_as vt (snd st) p c \<longrightarrow>
        (\<exists>p' c' items. find_pane q (fst st') = Some p' \<and> spec_from vt c items = Some c' \<and> fed items = bs
           \<and> recorded_as vt (snd st') p' c'))"

lemma find_pane_id: "find_pane q s = Some p \<Longrightarrow> pn_id p = q"
  by (auto simp: find_pane_def find_Some_iff)

lemma advancesI:
  assumes "find_pane q s = None \<Longrightarrow> find_pane q s' = None"
    and "\<And>p c. find_pane q s = Some p \<Longrightarrow> pn_id p = q \<Longrightarrow> recorded_as vt t p c \<Longrightarrow>
      \<exists>p' c' items. find_pane q s' = Some p' \<and> spec_from vt c items = Some c' \<and> fed items = bs \<and> recorded_as vt t' p' c'"
  shows "advances vt (s, t) (s', t') q bs"
  using assms find_pane_id [of q s] unfolding advances_def by simp

lemma advances_trans:
  assumes "advances vt a b q bs" "advances vt b d q bs'"
  shows "advances vt a d q (bs @ bs')"
  unfolding advances_def
proof (intro conjI allI impI)
  show "find_pane q (fst a) = None \<Longrightarrow> find_pane q (fst d) = None" using assms by (auto simp: advances_def)
next
  fix p c assume "find_pane q (fst a) = Some p" "recorded_as vt (snd a) p c"
  with assms(1) obtain p1 c1 i1 where 1: "find_pane q (fst b) = Some p1" "spec_from vt c i1 = Some c1" "fed i1 = bs"
    "recorded_as vt (snd b) p1 c1" unfolding advances_def by blast
  with assms(2) obtain p2 c2 i2 where 2: "find_pane q (fst d) = Some p2" "spec_from vt c1 i2 = Some c2" "fed i2 = bs'"
    "recorded_as vt (snd d) p2 c2" unfolding advances_def by blast
  have "spec_from vt c (i1 @ i2) = Some c2" "fed (i1 @ i2) = bs @ bs'" using 1 2 by (simp_all add: spec_from_append)
  with 2 show "\<exists>p' c' items. find_pane q (fst d) = Some p' \<and> spec_from vt c items = Some c' \<and> fed items = bs @ bs'
      \<and> recorded_as vt (snd d) p' c'" by blast
qed

lemma advances_idle:
  assumes "find_pane q s' = find_pane q s" "tk_emulators t' q = tk_emulators t q" "tk_alt t' q = tk_alt t q"
  shows "advances vt (s, t) (s', t') q []"
proof (rule advancesI)
  fix p c assume "find_pane q s = Some p" "pn_id p = q" "recorded_as vt t p c"
  with assms recorded_other [of t' p t vt c] have "find_pane q s' = Some p \<and> spec_from vt c [] = Some c \<and> fed [] = []
    \<and> recorded_as vt t' p c" by simp
  then show "\<exists>p' c' items. find_pane q s' = Some p' \<and> spec_from vt c items = Some c' \<and> fed items = [] \<and> recorded_as vt t' p' c'"
    by blast
qed (simp add: assms)

lemma advances_refl: "advances vt st st q []"
  by (cases st) (auto intro: advances_idle)

lemma advances_pace:
  assumes "advances vt st (s', t') q bs" "sh_panes s2 = sh_panes s'" "tk_emulators t2 = tk_emulators t'" "tk_alt t2 = tk_alt t'"
  shows "advances vt st (s2, t2) q bs"
  using advances_trans [OF assms(1) advances_idle [of q s2 s' t2 t' vt]] assms(2-4) find_pane_panes [OF assms(2)] by simp

lemma pace_fields [simp]:
  "tk_emulators (reset_pace q t) = tk_emulators t" "tk_alt (reset_pace q t) = tk_alt t"
  "tk_emulators (note_owed q n t) = tk_emulators t" "tk_alt (note_owed q n t) = tk_alt t"
  "tk_emulators (mark_stored q now t) = tk_emulators t" "tk_alt (mark_stored q now t) = tk_alt t"
  by (simp_all add: reset_pace_def note_owed_def mark_stored_def)

lemma record_ids [simp]:
  "pn_id (screen_record scr p) = pn_id p" "pn_id (normal_screen_record scr p) = pn_id p"
  "pn_id (settle_record obs p) = pn_id p" "pn_id (fst (record_chunk bs obs screen p)) = pn_id p"
  "pn_id (resize_record r k screen p) = pn_id p"
  by (auto simp: screen_record_def normal_screen_record_def settle_record_def record_chunk_def resize_record_def Let_def
      case_prod_beta split: option.split)

text \<open>One pane's record rewritten, every other pane and its terminal left alone.\<close>

lemma advances_upd:
  assumes "\<And>p. pn_id (f p) = pn_id p" "sh_panes s' = upd_pane pane f (sh_panes s)"
    and "\<And>r. r \<noteq> pane \<Longrightarrow> tk_emulators t' r = tk_emulators t r \<and> tk_alt t' r = tk_alt t r"
    and "\<And>p c. find_pane pane s = Some p \<Longrightarrow> pn_id p = pane \<Longrightarrow> recorded_as vt t p c \<Longrightarrow>
      \<exists>c' items. spec_from vt c items = Some c' \<and> fed items = bs \<and> recorded_as vt t' (f p) c'"
  shows "advances vt (s, t) (s', t') q (if q = pane then bs else [])"
proof -
  have f: "find_pane q s' = (if q = pane then map_option f (find_pane q s) else find_pane q s)"
    using find_pane_upd [where f = f and q = q and s = s and i = pane] assms(1,2)
      find_pane_panes [of s' "s\<lparr>sh_panes := upd_pane pane f (sh_panes s)\<rparr>" q] by simp
  show ?thesis
  proof (cases "q = pane")
    case True
    have "advances vt (s, t) (s', t') q bs"
    proof (rule advancesI)
      show "find_pane q s = None \<Longrightarrow> find_pane q s' = None" using f True by simp
      fix p c assume "find_pane q s = Some p" "pn_id p = q" "recorded_as vt t p c"
      moreover from this assms(4) True obtain c' items where
        "spec_from vt c items = Some c'" "fed items = bs" "recorded_as vt t' (f p) c'" by metis
      ultimately show "\<exists>p' c' items. find_pane q s' = Some p' \<and> spec_from vt c items = Some c' \<and> fed items = bs
        \<and> recorded_as vt t' p' c'" using f True by auto
    qed
    with True show ?thesis by simp
  next
    case False
    then show ?thesis using advances_idle [of q s' s t' t vt] f assms(3) by simp
  qed
qed

lemma single_item: "spec_step vt c i = Some c' \<Longrightarrow> spec_from vt c [i] = Some c'"
  by simp

lemma advances_alt_shot:
  assumes "tk_emulators t pane = Some e" "\<And>p. find_pane pane s = Some p \<Longrightarrow> shot_ok vt e (length (pn_since p))"
  shows "advances vt (s, t) (store_screen pane (screen_snapshot vt e) s, t) q []"
proof -
  have "advances vt (s, t) (store_screen pane (screen_snapshot vt e) s, t) q (if q = pane then [] else [])"
  proof (rule advances_upd [where f = "screen_record (screen_snapshot vt e)"])
    fix p c assume p: "find_pane pane s = Some p" "pn_id p = pane" "recorded_as vt t p c"
    have "shot_ok vt e (length (rs_alt_tail c))" using assms(2) p by (simp add: recorded_as_def)
    with alt_shot_recorded [OF p(3)] assms(1) p(2) obtain c' where
      "spec_step vt c AltShot = Some c'" "recorded_as vt t (screen_record (screen_snapshot vt e) p) c'" by auto
    then show "\<exists>c' items. spec_from vt c items = Some c' \<and> fed items = []
        \<and> recorded_as vt t (screen_record (screen_snapshot vt e) p) c'"
      using single_item [of vt c AltShot c'] fed.simps(1) fed.simps(6) by metis
  qed (simp_all add: store_screen_def)
  then show ?thesis by simp
qed

lemma advances_normal_shot:
  assumes "tk_emulators t pane = Some e"
    "\<And>p. find_pane pane s = Some p \<Longrightarrow> shot_ok vt e (length (pn_scrollback p) - pn_covered p)"
  shows "advances vt (s, t) (store_normal_screen pane (screen_snapshot vt e) s, t) q []"
proof -
  have "advances vt (s, t) (store_normal_screen pane (screen_snapshot vt e) s, t) q (if q = pane then [] else [])"
  proof (rule advances_upd [where f = "normal_screen_record (screen_snapshot vt e)"])
    fix p c assume p: "find_pane pane s = Some p" "pn_id p = pane" "recorded_as vt t p c"
    have "rs_tail c = drop (pn_covered p) (pn_scrollback p)" using p(3) by (simp add: recorded_as_def)
    then have "shot_ok vt e (length (rs_tail c))" using assms(2) p by simp
    with normal_shot_recorded [OF p(3)] assms(1) p(2) obtain c' where
      "spec_step vt c NormalShot = Some c'" "recorded_as vt t (normal_screen_record (screen_snapshot vt e) p) c'" by auto
    then show "\<exists>c' items. spec_from vt c items = Some c' \<and> fed items = []
        \<and> recorded_as vt t (normal_screen_record (screen_snapshot vt e) p) c'"
      using single_item [of vt c NormalShot c'] fed.simps(1) fed.simps(5) by metis
  qed (simp_all add: store_normal_screen_def)
  then show ?thesis by simp
qed

lemma advances_settle:
  assumes "settle_one vt pane t = (Some (pane', obs), t')"
  shows "pane' = pane" "advances vt (s, t) (store_settled pane obs s, t') q []"
proof -
  from assms show "pane' = pane" by (auto simp: settle_one_def Let_def case_prod_beta split: option.splits)
  have off: "tk_emulators t' r = tk_emulators t r \<and> tk_alt t' r = tk_alt t r" if "r \<noteq> pane" for r
    using assms that by (auto simp: settle_one_def observed_as_def Let_def case_prod_beta split: option.splits)
  have "advances vt (s, t) (store_settled pane obs s, t') q (if q = pane then [] else [])"
  proof (rule advances_upd [where f = "settle_record obs"])
    fix p c assume p: "find_pane pane s = Some p" "pn_id p = pane" "recorded_as vt t p c"
    with settle_recorded [OF p(3)] assms obtain c' where
      "spec_step vt c Synced = Some c'" "recorded_as vt t' (settle_record obs p) c'" by blast
    then show "\<exists>c' items. spec_from vt c items = Some c' \<and> fed items = [] \<and> recorded_as vt t' (settle_record obs p) c'"
      using single_item [of vt c Synced c'] fed.simps(1) fed.simps(3) by metis
  qed (simp_all add: store_settled_def off)
  then show "advances vt (s, t) (store_settled pane obs s, t') q []" by simp
qed

lemma observe_fields:
  assumes "observe vt pane data dims t = (obs, t')"
  defines "e0 \<equiv> (case tk_emulators t pane of Some e \<Rightarrow> e | None \<Rightarrow> emulator_new vt (fst dims) (snd dims) NO_HISTORY)"
  shows "ob_modes obs = emulator_modes vt (fst (emulator_process vt data e0))"
    "ob_alt_changed obs = ((tk_alt t pane = Some True) \<noteq> pm_alt_screen (ob_modes obs))"
    "tk_emulators t' = (tk_emulators t)(pane \<mapsto> fst (emulator_process vt data e0))"
    "tk_alt t' = (tk_alt t)(pane \<mapsto> pm_alt_screen (ob_modes obs))"
proof -
  let ?e = "fst (emulator_process vt data e0)" and ?ev = "snd (emulator_process vt data e0)"
  have o: "observed_as pane (emulator_modes vt ?e) (ee_title ?ev) (t\<lparr>tk_emulators := (tk_emulators t)(pane \<mapsto> ?e)\<rparr>) = (obs, t')"
    using assms(1) unfolding observe_def e0_def [symmetric] by (simp add: Let_def case_prod_beta)
  note f = observed_as_fields [OF o]
  show "ob_modes obs = emulator_modes vt ?e" by (rule f(1))
  show "ob_alt_changed obs = ((tk_alt t pane = Some True) \<noteq> pm_alt_screen (ob_modes obs))" using f(1,2) by simp
  show "tk_emulators t' = (tk_emulators t)(pane \<mapsto> ?e)" using f(3) by simp
  show "tk_alt t' = (tk_alt t)(pane \<mapsto> pm_alt_screen (ob_modes obs))" using f(1,4) by simp
qed

lemma record_panes:
  "sh_panes (fst (record_and_broadcast pane data obs screen s)) = upd_pane pane (\<lambda>p. fst (record_chunk data obs screen p)) (sh_panes s)"
  by (simp add: record_and_broadcast_def Let_def)

lemma advances_chunk:
  assumes "observe vt pane data (pane_size_of pane s) t = (obs, t')"
  shows "advances vt (s, t) (fst (record_and_broadcast pane data obs None s), t') q (if q = pane then data else [])"
proof (rule advances_upd [where f = "\<lambda>p. fst (record_chunk data obs None p)"])
  let ?dims = "pane_size_of pane s"
  let ?e0 = "case tk_emulators t pane of Some e \<Rightarrow> e | None \<Rightarrow> emulator_new vt (fst ?dims) (snd ?dims) NO_HISTORY"
  let ?e = "fst (emulator_process vt data ?e0)" and ?alt = "pm_alt_screen (ob_modes obs)"
  note f = observe_fields [OF assms]
  show "tk_emulators t' r = tk_emulators t r \<and> tk_alt t' r = tk_alt t r" if "r \<noteq> pane" for r
    using that f(3,4) by simp
  fix p c assume p: "find_pane pane s = Some p" "pn_id p = pane" "recorded_as vt t p c"
  have "recorded_as vt t' (fst (record_chunk data obs None p)) (chunk_spec ?e ?alt data c)"
    using record_chunk_recorded [OF p(3), of t' ?e obs data] f p(2) by simp
  moreover have "spec_step vt c (Chunk ?dims data) = Some (chunk_spec ?e ?alt data c)"
    using recorded_term [OF p(3)] p(2) f(1) by (simp add: chunk_spec_def Let_def)
  ultimately show "\<exists>c' items. spec_from vt c items = Some c' \<and> fed items = data
      \<and> recorded_as vt t' (fst (record_chunk data obs None p)) c'"
    using single_item [of vt c "Chunk ?dims data"] by (intro exI [of _ "chunk_spec ?e ?alt data c"] exI [of _ "[Chunk ?dims data]"]) simp
qed (simp_all add: record_panes)

text \<open>Recording the screen with the chunk that entered it is recording the chunk, then storing the screen.\<close>

lemma upd_upd: "(\<And>p. pn_id (f p) = pn_id p) \<Longrightarrow> upd_pane i g (upd_pane i f ps) = upd_pane i (\<lambda>p. g (f p)) ps"
  by (induction ps) auto

lemma record_entry_screen:
  assumes "pm_alt_screen (ob_modes obs)"
  shows "sh_panes (fst (record_and_broadcast pane data obs (Some scr) s)) =
    sh_panes (store_screen pane scr (fst (record_and_broadcast pane data obs None s)))"
proof -
  have "fst (record_chunk data obs (Some scr) p) = screen_record scr (fst (record_chunk data obs None p))" for p
    using assms by (simp add: record_chunk_def screen_record_def Let_def split: option.split)
  then show ?thesis by (simp add: record_panes store_screen_def upd_upd)
qed

text \<open>What the worker is told is owed is what the record then holds on top of its screen.\<close>

lemma push_scrollback_owed:
  "snd (snd (push_scrollback buf covered data)) =
    length (fst (push_scrollback buf covered data)) - fst (snd (push_scrollback buf covered data))"
  by (simp only: push_scrollback_def Let_def fst_conv snd_conv)

lemma chunk_owed:
  "snd (record_chunk data obs None p) =
    (if pm_alt_screen (ob_modes obs) then length (pn_since (fst (record_chunk data obs None p)))
     else length (pn_scrollback (fst (record_chunk data obs None p))) - pn_covered (fst (record_chunk data obs None p)))"
  by (cases "ob_title obs") (simp_all add: record_chunk_def push_scrollback_owed Let_def case_prod_beta)

lemma owed_bytes:
  assumes "find_pane pane (fst (record_and_broadcast pane data obs None s)) = Some p"
  shows "snd (record_and_broadcast pane data obs None s) =
    (if pm_alt_screen (ob_modes obs) then length (pn_since p) else length (pn_scrollback p) - pn_covered p)"
proof -
  let ?s = "fst (record_and_broadcast pane data obs None s)"
  have "find_pane pane ?s = map_option (\<lambda>p. fst (record_chunk data obs None p)) (find_pane pane s)"
    using record_panes [of pane data obs None s] by (simp add: find_pane_def find_upd_pane)
  with assms obtain p0 where p0: "find_pane pane s = Some p0" "p = fst (record_chunk data obs None p0)" by auto
  have "snd (record_and_broadcast pane data obs None s) = snd (record_chunk data obs None p0)"
    by (simp add: record_and_broadcast_def Let_def p0(1))
  then show ?thesis using chunk_owed [of data obs p0] p0(2) by simp
qed

lemma ready_shot:
  assumes "tk_emulators t pane = Some e" "tracker_at_boundary vt pane t \<or> (owed > 2 * MAX_TERMINAL_SCROLLBACK_BYTES \<and> tracker_current vt pane t)"
  shows "shot_ok vt e owed"
  using assms by (auto simp: shot_ok_def tracker_at_boundary_def tracker_current_def)

lemma tracker_fields_cong:
  assumes "tk_emulators t' = tk_emulators t"
  shows "tracker_at_boundary vt pane t' = tracker_at_boundary vt pane t" "tracker_current vt pane t' = tracker_current vt pane t"
    "tracker_snapshot vt pane t' = tracker_snapshot vt pane t"
  using assms by (simp_all add: tracker_at_boundary_def tracker_current_def tracker_snapshot_def)

lemma tracker_paces [simp]:
  "tracker_at_boundary vt pane (reset_pace q t) = tracker_at_boundary vt pane t"
  "tracker_at_boundary vt pane (note_owed q n t) = tracker_at_boundary vt pane t"
  "tracker_current vt pane (reset_pace q t) = tracker_current vt pane t"
  "tracker_current vt pane (note_owed q n t) = tracker_current vt pane t"
  "tracker_snapshot vt pane (reset_pace q t) = tracker_snapshot vt pane t"
  "tracker_snapshot vt pane (note_owed q n t) = tracker_snapshot vt pane t"
  by (rule tracker_fields_cong; simp)+

lemma advances_output:
  assumes "record_pane_output vt pane data now (s, t) = (moved, s', t')"
  shows "advances vt (s, t) (s', t') q (if q = pane then data else [])"
proof -
  obtain obs t1 where o: "observe vt pane data (pane_size_of pane s) t = (obs, t1)" by fastforce
  let ?alt = "pm_alt_screen (ob_modes obs)"
  define t2 where "t2 = (if ob_alt_changed obs then reset_pace pane t1 else t1)"
  obtain s1 owed where r: "record_and_broadcast pane data obs None s = (s1, owed)" by fastforce
  have t2: "tk_emulators t2 = tk_emulators t1" "tk_alt t2 = tk_alt t1" by (simp_all add: t2_def)
  obtain e where e: "tk_emulators t1 pane = Some e" using observe_fields(3) [OF o] by simp
  note chunk = advances_chunk [OF o, of q, unfolded r fst_conv]
  let ?bs = "if q = pane then data else []"
  show ?thesis
  proof (cases "?alt \<and> ob_alt_changed obs \<and> tracker_at_boundary vt pane t2")
    case True
    have "shot_ok vt e n" for n using True e t2 by (simp add: shot_ok_def tracker_at_boundary_def)
    then have "advances vt (s, t) (store_screen pane (screen_snapshot vt e) s1, t1) q ?bs"
      using advances_trans [OF chunk advances_alt_shot [of t1 pane e s1 vt q]] e by simp
    moreover obtain sE oE where rE: "record_and_broadcast pane data obs (Some (screen_snapshot vt e)) s = (sE, oE)" by fastforce
    have snap: "tracker_snapshot vt pane t1 = Some (screen_snapshot vt e)" using e by (simp add: tracker_snapshot_def)
    have at: "tracker_at_boundary vt pane t1" "t2 = reset_pace pane t1" using True by (auto simp: t2_def)
    have "(moved, s', t') = (False, sE, mark_stored pane now (note_owed pane oE t2))"
      using assms o True rE snap at(1) by (simp add: record_pane_output_def at(2) Let_def)
    then have "sh_panes s' = sh_panes (store_screen pane (screen_snapshot vt e) s1)" "tk_emulators t' = tk_emulators t1" "tk_alt t' = tk_alt t1"
      using record_entry_screen [of obs pane data "screen_snapshot vt e" s] r rE True t2 by simp_all
    ultimately show ?thesis by (rule advances_pace)
  next
    case False
    define t3 where "t3 = (if ?alt then note_owed pane owed t2 else t2)"
    have t3: "tk_emulators t3 = tk_emulators t1" "tk_alt t3 = tk_alt t1" by (simp_all add: t3_def t2)
    have snap: "tracker_snapshot vt pane t1 = Some (screen_snapshot vt e)" using e by (simp add: tracker_snapshot_def)
    let ?ready = "owed > MAX_TERMINAL_SCROLLBACK_BYTES \<and>
      (tracker_at_boundary vt pane t1 \<or> (owed > 2 * MAX_TERMINAL_SCROLLBACK_BYTES \<and> tracker_current vt pane t1))"
    have out: "(moved, s', t') =
      (if ?ready then (False, if ?alt then store_screen pane (screen_snapshot vt e) s1
                              else store_normal_screen pane (screen_snapshot vt e) s1, mark_stored pane now t3)
       else (?alt, s1, t3))"
      using assms o False r snap
      by (cases "ob_alt_changed obs"; cases ?alt) (auto simp: record_pane_output_def t2_def t3_def Let_def)
    have shot: "shot_ok vt e owed" if ?ready using ready_shot [OF e, of vt owed] that by blast
    have owed: "owed = (if ?alt then length (pn_since p) else length (pn_scrollback p) - pn_covered p)"
      if "find_pane pane s1 = Some p" for p using owed_bytes [of pane data obs s p] that r by simp
    consider (still) "\<not> ?ready" | (alt) ?ready ?alt | (normal) ?ready "\<not> ?alt" by blast
    then show ?thesis
    proof cases
      case still
      with out t3 advances_pace [OF chunk] show ?thesis by auto
    next
      case alt
      have "advances vt (s1, t1) (store_screen pane (screen_snapshot vt e) s1, t1) q []"
        by (rule advances_alt_shot [OF e]) (use shot alt owed in auto)
      from advances_pace [OF advances_trans [OF chunk this]] out alt t3 show ?thesis by simp
    next
      case normal
      have "advances vt (s1, t1) (store_normal_screen pane (screen_snapshot vt e) s1, t1) q []"
        by (rule advances_normal_shot [OF e]) (use shot normal owed in auto)
      from advances_pace [OF advances_trans [OF chunk this]] out normal t3 show ?thesis by simp
    qed
  qed
qed

section \<open>A pass\<close>

fun sent_to :: "pane_id \<Rightarrow> (pane_id \<times> u8 list) list \<Rightarrow> u8 list" where
  "sent_to q [] = []"
| "sent_to q ((pane, data) # cs) = (if q = pane then data else []) @ sent_to q cs"

lemma advances_chunks:
  "record_chunks vt cs now restless st = (restless', st') \<Longrightarrow> advances vt st st' q (sent_to q cs)"
proof (induction vt cs now restless st arbitrary: restless' st' rule: record_chunks.induct)
  case (1 vt now restless st)
  then show ?case by (simp add: advances_refl)
next
  case (2 vt pane data cs now restless st)
  obtain s t where st: "st = (s, t)" by fastforce
  obtain moved s1 t1 where m: "record_pane_output vt pane data now (s, t) = (moved, s1, t1)" by (metis prod_cases3)
  have "advances vt (s, t) (s1, t1) q (if q = pane then data else [])" by (rule advances_output [OF m])
  moreover have "advances vt (s1, t1) st' q (sent_to q cs)"
    using 2(1) [OF m [folded st, symmetric] refl] 2(2) m st by (simp add: Let_def)
  ultimately show ?case unfolding sent_to.simps st by (rule advances_trans)
qed

lemma advances_settled:
  "settle_each vt ps t = (settled, t') \<Longrightarrow> advances vt (s, t) (snd (store_settled_each settled restless s), t') q []"
proof (induction vt ps t arbitrary: settled t' restless s rule: settle_each.induct)
  case (1 vt t)
  then show ?case by (simp add: advances_refl)
next
  case (2 vt pane ps t)
  obtain r t1 where one: "settle_one vt pane t = (r, t1)" by fastforce
  obtain rs t2 where each: "settle_each vt ps t1 = (rs, t2)" by fastforce
  note IH = 2(1) [OF one [symmetric] refl each]
  from 2(2) one each have out: "settled = (case r of None \<Rightarrow> rs | Some x \<Rightarrow> x # rs)" "t' = t2" by (simp_all add: Let_def)
  show ?case
  proof (cases r)
    case None
    with one have "t1 = t" by (auto simp: settle_one_def Let_def case_prod_beta split: option.splits)
    with IH out None show ?thesis by simp
  next
    case (Some x)
    obtain pane' obs where x: "x = (pane', obs)" by fastforce
    note a = advances_settle [of vt pane t pane' obs t1, folded x, folded Some, OF one]
    from advances_trans [OF a(2) [where s = s and q = q] IH] out Some x a(1) show ?thesis by auto
  qed
qed

lemma advances_screens:
  "settle_screens vt ps now t = (screens, t') \<Longrightarrow> advances vt (s, t) (store_screens screens s, t') q []"
proof (induction vt ps now t arbitrary: screens t' s rule: settle_screens.induct)
  case (1 vt now t)
  then show ?case by (simp add: advances_refl)
next
  case (2 vt pane ps now t)
  show ?case
  proof (cases "\<not> snapshot_due pane now t \<or> \<not> tracker_at_boundary vt pane t \<or> tracker_snapshot vt pane t = None")
    case True
    then show ?thesis using 2 by (auto split: option.splits)
  next
    case False
    then obtain e where e: "tk_emulators t pane = Some e" "emulator_at_boundary vt e"
      "tracker_snapshot vt pane t = Some (screen_snapshot vt e)"
      by (auto simp: tracker_snapshot_def tracker_at_boundary_def)
    let ?scr = "screen_snapshot vt e"
    obtain rs t2 where each: "settle_screens vt ps now (mark_stored pane now t) = (rs, t2)" by fastforce
    have IH: "advances vt (store_screen pane ?scr s, mark_stored pane now t) (store_screens rs (store_screen pane ?scr s), t2) q []"
      using 2(3) False e each by auto
    have "advances vt (s, t) (store_screen pane ?scr s, t) q []"
      by (rule advances_alt_shot [OF e(1)]) (simp add: shot_ok_def e(2))
    then have "advances vt (s, t) (store_screen pane ?scr s, mark_stored pane now t) q []"
      by (rule advances_pace) simp_all
    from advances_trans [OF this IH] 2(4) False e each show ?thesis by (auto simp: Let_def)
  qed
qed

lemma advances_pass:
  "advances vt st (output_pass vt order order' cs now st) q (sent_to q cs)"
proof -
  obtain restless s t where c: "record_chunks vt cs now [] st = (restless, s, t)" by (metis prod_cases3)
  obtain settled t1 where y: "tracker_settle_sync vt order now t = (settled, t1)" by fastforce
  obtain restless1 s1 where z: "store_settled_each settled restless s = (restless1, s1)" by fastforce
  obtain screens t2 where w: "settle_restless vt order' restless1 now t1 = (screens, t2)" by fastforce
  have 1: "advances vt st (s, t) q (sent_to q cs)" by (rule advances_chunks [OF c])
  have 2: "advances vt (s, t) (s1, t1) q []"
    using advances_settled [OF y [unfolded tracker_settle_sync_def], of s restless q] z by simp
  have 3: "advances vt (s1, t1) (store_screens screens s1, t2) q []"
    by (rule advances_screens [OF w [unfolded settle_restless_def Let_def]])
  have "output_pass vt order order' cs now st = (store_screens screens s1, t2)"
    using c y z w by (simp add: output_pass_def)
  with advances_trans [OF advances_trans [OF 1 2] 3] show ?thesis by simp
qed

section \<open>A resize\<close>

lemma sized_recorded:
  assumes "recorded_as vt t p c" "pn_id p = pane"
  shows "recorded_as vt (tracker_resize vt pane rows cols t) (resize_record rows cols None p)
    (c\<lparr>rs_term := map_option (emulator_resize vt rows cols) (rs_term c)\<rparr>)"
  using assms by (simp add: recorded_as_def tracker_resize_def resize_record_def)

lemma resize_record_screen:
  "resize_record rows cols (Some scr) p =
    (if pm_alt_screen (pn_modes p) then screen_record scr (resize_record rows cols None p)
     else normal_screen_record scr (resize_record rows cols None p))"
  by (simp add: resize_record_def)

lemma resize_recorded:
  assumes "recorded_as vt t p c" "pn_id p = pane"
    and "scr = None \<or> (\<exists>e. tk_emulators t' pane = Some e \<and> emulator_at_boundary vt e \<and> scr = Some (screen_snapshot vt e))"
    and t': "t' = tracker_resize vt pane rows cols t"
  shows "\<exists>c' items. spec_from vt c items = Some c' \<and> fed items = [] \<and> recorded_as vt t' (resize_record rows cols scr p) c'"
proof -
  let ?c = "c\<lparr>rs_term := map_option (emulator_resize vt rows cols) (rs_term c)\<rparr>" and ?p = "resize_record rows cols None p"
  have r: "recorded_as vt t' ?p ?c" unfolding t' by (rule sized_recorded [OF assms(1,2)])
  have shot: "\<exists>c' items. spec_from vt c items = Some c' \<and> fed items = [] \<and> Q c'"
    if "spec_step vt ?c i = Some c'" "fed [i] = []" "Q c'" for i c' Q
    using that by (intro exI [of _ c'] exI [of _ "[Sized rows cols, i]"]) simp
  from assms(3) consider (plain) "scr = None"
    | (screen) e where "tk_emulators t' pane = Some e" "emulator_at_boundary vt e" "scr = Some (screen_snapshot vt e)" by blast
  then show ?thesis
  proof cases
    case plain
    then show ?thesis using r by (intro exI [of _ ?c] exI [of _ "[Sized rows cols]"]) simp
  next
    case screen
    then have e: "tk_emulators t' (pn_id ?p) = Some e" "shot_ok vt e n" for n
      using assms(2) by (simp_all add: shot_ok_def)
    show ?thesis
    proof (cases "pm_alt_screen (pn_modes p)")
      case True
      with alt_shot_recorded [OF r e] obtain c' where a: "spec_step vt ?c AltShot = Some c'"
        "recorded_as vt t' (resize_record rows cols scr p) c'" using screen by (auto simp: resize_record_screen)
      show ?thesis by (rule shot [where Q = "recorded_as vt t' (resize_record rows cols scr p)", OF a(1) _ a(2)]) simp
    next
      case False
      with normal_shot_recorded [OF r e] obtain c' where a: "spec_step vt ?c NormalShot = Some c'"
        "recorded_as vt t' (resize_record rows cols scr p) c'" using screen by (auto simp: resize_record_screen)
      show ?thesis by (rule shot [where Q = "recorded_as vt t' (resize_record rows cols scr p)", OF a(1) _ a(2)]) simp
    qed
  qed
qed

lemma advances_resize:
  assumes "resize_locked vt ser pane rows cols applied now (s, t) = (s', t')"
  shows "advances vt (s, t) (s', t') q []"
proof (cases "find_pane pane s")
  case None
  with assms show ?thesis by (simp add: resize_locked_def advances_refl)
next
  case (Some p)
  let ?changed = "(pn_rows p, pn_cols p) \<noteq> (rows, cols)" and ?t = "tracker_resize vt pane rows cols t"
  let ?scr = "if tracker_at_boundary vt pane ?t then tracker_snapshot vt pane ?t else None"
  consider (refused) "?changed" "\<not> applied" | (same) "\<not> ?changed" | (sized) "?changed" applied by blast
  then show ?thesis
  proof cases
    case refused
    with assms Some show ?thesis by (simp add: resize_locked_def advances_refl)
  next
    case same
    then have "t' = t" "sh_panes s' = upd_pane pane (resize_record rows cols None) (sh_panes s)"
      using assms Some by (auto simp: resize_locked_def resize_shared_def Let_def)
    moreover have "resize_record rows cols None p = p" using same by (auto simp: resize_record_def)
    ultimately have "advances vt (s, t) (s', t') q (if q = pane then [] else [])"
      using Some by (intro advances_upd [where f = "resize_record rows cols None"]) (auto intro!: exI [of _ "[]"])
    then show ?thesis by simp
  next
    case sized
    then have o: "sh_panes s' = upd_pane pane (resize_record rows cols ?scr) (sh_panes s)"
      "tk_emulators t' = tk_emulators ?t" "tk_alt t' = tk_alt ?t"
      using assms Some by (auto simp: resize_locked_def resize_shared_def Let_def)
    have scr: "?scr = None \<or> (\<exists>e. tk_emulators ?t pane = Some e \<and> emulator_at_boundary vt e \<and> ?scr = Some (screen_snapshot vt e))"
      by (auto simp: tracker_at_boundary_def tracker_snapshot_def split: option.splits)
    have "advances vt (s, t) (s', ?t) q (if q = pane then [] else [])"
    proof (rule advances_upd [where f = "resize_record rows cols ?scr"])
      fix p c assume p: "find_pane pane s = Some p" "pn_id p = pane" "recorded_as vt t p c"
      show "\<exists>c' items. spec_from vt c items = Some c' \<and> fed items = [] \<and> recorded_as vt ?t (resize_record rows cols ?scr p) c'"
        by (rule resize_recorded [OF p(3,2) scr refl])
    qed (use o(1) in \<open>simp_all add: tracker_resize_def\<close>)
    then have "advances vt (s, t) (s', ?t) q []" by simp
    from advances_pace [OF this refl o(2,3)] show ?thesis .
  qed
qed

section \<open>The worker\<close>

text \<open>\<open>wk_log\<close> is what each pane's program has written since the pane was registered; the code keeps no such thing.\<close>

record 'v worker =
  wk_shared :: shared
  wk_tracker :: "'v tracker"
  wk_log :: "pane_id \<Rightarrow> u8 list"

datatype wk_event =
    WkPass "pane_id list" "pane_id list" "(pane_id \<times> u8 list) list" instant
  | WkResize pane_id u16 u16 bool instant
  | WkRegister pane_id u16 u16 "u64 option" "rstring option"
  | WkEnded pane_id

definition wk_new :: "'v worker" where
  "wk_new = \<lparr>wk_shared = shared_new, wk_tracker = tracker_new, wk_log = (\<lambda>_. [])\<rparr>"

fun wk_step :: "'v vt_ops \<Rightarrow> (server_message \<Rightarrow> rstring option) \<Rightarrow> 'v worker \<Rightarrow> wk_event \<Rightarrow> 'v worker" where
  "wk_step vt ser w (WkPass order order' cs now) =
     (let (s, t) = output_pass vt order order' cs now (wk_shared w, wk_tracker w)
      in \<lparr>wk_shared = s, wk_tracker = t, wk_log = (\<lambda>q. wk_log w q @ sent_to q cs)\<rparr>)"
| "wk_step vt ser w (WkResize pane rows cols applied now) =
     (let (s, t) = resize_locked vt ser pane rows cols applied now (wk_shared w, wk_tracker w)
      in w\<lparr>wk_shared := s, wk_tracker := t\<rparr>)"
| "wk_step vt ser w (WkRegister pane rows cols client title) =
     w\<lparr>wk_shared := register_pane ser pane rows cols client title (wk_shared w), wk_log := (wk_log w)(pane := [])\<rparr>"
| "wk_step vt ser w (WkEnded pane) =
     w\<lparr>wk_shared := remove_pane_and_announce ser pane (wk_shared w), wk_tracker := forget pane (wk_tracker w)\<rparr>"

text \<open>The backend never gives a pane an id it gave before (\<^verbatim>\<open>Pane_Identity\<close>): the worker has nothing under it.\<close>

fun wk_ok :: "'v worker \<Rightarrow> wk_event \<Rightarrow> bool" where
  "wk_ok w (WkRegister pane rows cols client title) \<longleftrightarrow>
     find_pane pane (wk_shared w) = None \<and> tk_emulators (wk_tracker w) pane = None \<and> tk_alt (wk_tracker w) pane = None"
| "wk_ok w _ \<longleftrightarrow> True"

definition wk_inv :: "'v vt_ops \<Rightarrow> 'v worker \<Rightarrow> bool" where
  "wk_inv vt w \<longleftrightarrow>
     (\<forall>q p. find_pane q (wk_shared w) = Some p \<longrightarrow>
        (\<exists>items c. spec_from vt spec_new items = Some c \<and> fed items = wk_log w q \<and> recorded_as vt (wk_tracker w) p c))"

lemma wk_inv_advances:
  assumes "wk_inv vt w" "\<And>q. advances vt (wk_shared w, wk_tracker w) (wk_shared w', wk_tracker w') q (bs q)"
    "\<And>q. wk_log w' q = wk_log w q @ bs q"
  shows "wk_inv vt w'"
  unfolding wk_inv_def
proof (intro allI impI)
  fix q p' assume p': "find_pane q (wk_shared w') = Some p'"
  have a: "advances vt (wk_shared w, wk_tracker w) (wk_shared w', wk_tracker w') q (bs q)" by (rule assms(2))
  with p' obtain p where p: "find_pane q (wk_shared w) = Some p" by (auto simp: advances_def)
  with assms(1) obtain items c where i: "spec_from vt spec_new items = Some c" "fed items = wk_log w q"
    "recorded_as vt (wk_tracker w) p c" unfolding wk_inv_def by blast
  with a p p' obtain c' items' where j: "spec_from vt c items' = Some c'" "fed items' = bs q"
    "recorded_as vt (wk_tracker w') p' c'" by (auto simp: advances_def)
  with i have "spec_from vt spec_new (items @ items') = Some c' \<and> fed (items @ items') = wk_log w' q
    \<and> recorded_as vt (wk_tracker w') p' c'" by (simp add: spec_from_append assms(3))
  then show "\<exists>items c. spec_from vt spec_new items = Some c \<and> fed items = wk_log w' q \<and> recorded_as vt (wk_tracker w') p' c"
    by blast
qed

lemma find_snoc: "List.find P (ps @ [p]) = (case List.find P ps of Some r \<Rightarrow> Some r | None \<Rightarrow> if P p then Some p else None)"
  by (induction ps) auto

lemma register_find:
  "find_pane q (register_pane ser pane rows cols client title s) =
    (case find_pane q s of Some p \<Rightarrow> Some p | None \<Rightarrow> if q = pane then Some (pane_new pane rows cols title) else None)"
  by (auto simp: register_pane_def find_pane_def Let_def find_snoc pane_new_def split: option.split)

lemma remove_find:
  "find_pane q (remove_pane_and_announce ser pane s) = (if q = pane then None else find_pane q s)"
proof -
  have "sh_panes (remove_pane_and_announce ser pane s) = filter (\<lambda>p. pn_id p \<noteq> pane) (sh_panes s)"
    by (auto simp: remove_pane_and_announce_def pane_live_def Let_def filter_id_conv)
  moreover have "List.find (\<lambda>p. pn_id p = q) (filter (\<lambda>p. pn_id p \<noteq> pane) ps) =
    (if q = pane then None else List.find (\<lambda>p. pn_id p = q) ps)" for ps :: "pane_state list"
    by (induction ps) auto
  ultimately show ?thesis by (simp add: find_pane_def)
qed

lemma new_recorded:
  "tk_emulators t pane = None \<Longrightarrow> tk_alt t pane = None \<Longrightarrow> recorded_as vt t (pane_new pane rows cols title) spec_new"
  by (simp add: recorded_as_def spec_new_def pane_new_def render_def modes_default_def)

lemma wk_step_inv:
  assumes "wk_inv vt w" "wk_ok w ev"
  shows "wk_inv vt (wk_step vt ser w ev)"
proof (cases ev)
  case (WkPass order order' cs now)
  show ?thesis unfolding WkPass
    by (rule wk_inv_advances [OF assms(1), where bs = "\<lambda>q. sent_to q cs"])
       (use advances_pass [of vt "(wk_shared w, wk_tracker w)" order order' cs now] in \<open>simp_all add: case_prod_beta\<close>)
next
  case (WkResize pane rows cols applied now)
  obtain s' t' where r: "resize_locked vt ser pane rows cols applied now (wk_shared w, wk_tracker w) = (s', t')" by fastforce
  show ?thesis unfolding WkResize
    by (rule wk_inv_advances [OF assms(1), where bs = "\<lambda>q. []"]) (use advances_resize [OF r] r in simp_all)
next
  case (WkRegister pane rows cols client title)
  with assms(2) have f: "find_pane pane (wk_shared w) = None" "tk_emulators (wk_tracker w) pane = None"
    "tk_alt (wk_tracker w) pane = None" by simp_all
  show ?thesis unfolding wk_inv_def WkRegister
  proof (intro allI impI)
    fix q p assume "find_pane q (wk_shared (wk_step vt ser w (WkRegister pane rows cols client title))) = Some p"
    then consider "find_pane q (wk_shared w) = Some p" "q \<noteq> pane" | "q = pane" "p = pane_new pane rows cols title"
      using f(1) by (cases "q = pane") (auto simp: register_find split: option.splits if_splits)
    then show "\<exists>items c. spec_from vt spec_new items = Some c
        \<and> fed items = wk_log (wk_step vt ser w (WkRegister pane rows cols client title)) q
        \<and> recorded_as vt (wk_tracker (wk_step vt ser w (WkRegister pane rows cols client title))) p c"
    proof cases
      case 1
      with assms(1) show ?thesis by (simp add: wk_inv_def)
    next
      case 2
      with new_recorded [OF f(2,3)] show ?thesis by (intro exI [of _ "[]"] exI [of _ spec_new]) simp
    qed
  qed
next
  case (WkEnded pane)
  have "recorded_as vt (forget pane t) p c = recorded_as vt t p c" if "pn_id p \<noteq> pane" for t p c
    using that by (intro recorded_other) (simp_all add: forget_def)
  then have "wk_inv vt (w\<lparr>wk_shared := remove_pane_and_announce ser pane (wk_shared w), wk_tracker := forget pane (wk_tracker w)\<rparr>)"
    using assms(1) find_pane_id unfolding wk_inv_def by (simp add: remove_find)
  with WkEnded show ?thesis by simp
qed

lemma wk_new_inv: "wk_inv vt wk_new"
  by (simp add: wk_inv_def wk_new_def shared_new_def find_pane_def)

interpretation wk_machine: event_machine wk_ok "wk_step vt ser" "wk_inv vt" for vt ser
  by unfold_locales (rule wk_step_inv)

section \<open>The specification is implemented\<close>

lemma normal_record_parts:
  "pn_covered p \<le> length (pn_scrollback p) \<Longrightarrow>
   concat (push_normal_record split p) =
     take (pn_covered p) (pn_scrollback p) @ pn_normal_screen p @ drop (pn_covered p) (pn_scrollback p)"
  by (simp add: push_normal_record_def push_ring_concat min_def)

text \<open>
  \<^bold>\<open>C5\<close>. The replay record of a pane refines its specification. After any run of the worker (passes over
  the output of any panes, synchronized updates ending on the clock, paced screens, resizes, panes registered
  under new ids and panes ended) and for every live pane there is a history of the pane's terminal, fed
  exactly what the pane's program wrote, that explains the record: the terminal the worker tracks is the
  history's; the normal record a connecting client is sent is old scrollback, then the screen as it
  was rendered at the history's last normal screen shot, then exactly the bytes recorded on the normal
  screen since; and the alternate record is the same of the alternate screen. Every shot of the history is taken where
  the stream stands between sequences with nothing held back from the grid, or, past twice the cap, where at least nothing is
  held back (\<open>spec_step\<close> has no value otherwise). Without a shot no byte of the record counts as covered.
\<close>

theorem replay_record_refines:
  assumes "run_ok wk_ok (wk_step vt ser) wk_new es"
    and "w = run (wk_step vt ser) wk_new es"
    and "find_pane q (wk_shared w) = Some p"
  shows "\<exists>items c. spec_from vt spec_new items = Some c \<and> fed items = wk_log w q
    \<and> rs_term c = tk_emulators (wk_tracker w) q \<and> rs_alt c = pm_alt_screen (pn_modes p)
    \<and> concat (push_normal_record split p) = take (pn_covered p) (pn_scrollback p) @ render vt (rs_shot c) @ rs_tail c
    \<and> (rs_shot c = None \<longrightarrow> pn_covered p = 0)
    \<and> pn_screen p @ pn_since p = render vt (rs_alt_shot c) @ rs_alt_tail c
    \<and> (length (pn_scrollback p) \<le> MAX_TERMINAL_SCROLLBACK_BYTES \<or> pn_covered p = 0
       \<or> pn_covered p = length (pn_scrollback p))"
proof -
  have "wk_inv vt w" unfolding assms(2) by (rule wk_machine.run_inv [OF wk_new_inv assms(1)])
  with assms(3) obtain items c where i: "spec_from vt spec_new items = Some c" "fed items = wk_log w q"
    "recorded_as vt (wk_tracker w) p c" unfolding wk_inv_def by blast
  with normal_record_parts [of p split] find_pane_id [OF assms(3)] show ?thesis
    by (intro exI [of _ items] exI [of _ c]) (auto simp: recorded_as_def)
qed

text \<open>
  A terminal of one flag: byte 1 enters the alternate screen, byte 2 leaves it, and the screen is
  one letter.
\<close>

definition toy_vt :: "bool vt_ops" where
  "toy_vt = \<lparr>vt_open = (\<lambda>_ _ _. False),
     vt_advance = (\<lambda>bs alt. (foldl (\<lambda>a b. if b = 1 then True else if b = 2 then False else a) alt bs, [])),
     vt_resize = (\<lambda>_ _ alt. alt), vt_mode = (\<lambda>alt m. m = ALT_SCREEN \<and> alt), vt_sync_bytes = (\<lambda>_. 0),
     vt_sync_timeout = (\<lambda>_. None), vt_stop_sync = (\<lambda>alt. (alt, [])), vt_display_offset = (\<lambda>_. 0),
     vt_scroll = (\<lambda>_ alt. alt), vt_snapshot = (\<lambda>alt. if alt then [65] else [78]), vt_min_lines = 1, vt_min_columns = 1\<rparr>"

definition toy_ser :: "server_message \<Rightarrow> rstring option" where
  "toy_ser m = None"

definition toy_events :: "wk_event list" where
  "toy_events = [WkRegister 7 24 80 None None, WkPass [7] [7] [(7, [72, 105]), (7, [1]), (7, [5])] 1000]"

lemmas wk_eval = toy_events_def wk_new_def shared_new_def tracker_new_def register_pane_def clear_zoom_locked_def announce_all_def
  pane_new_def toy_ser_def output_pass_def record_pane_output_def observe_def observed_as_def Let_def find_pane_def
  pane_size_of_def emulator_new_def emulator_create_def emulator_process_def take_events_def toy_vt_def emulator_modes_def effective_size_def
  record_and_broadcast_def record_chunk_def push_scrollback_def broadcast_locked_def modes_default_def
  MAX_TERMINAL_SCROLLBACK_BYTES_def tracker_at_boundary_def emulator_at_boundary_def screen_current_def tracker_snapshot_def screen_snapshot_def
  reset_pace_def note_owed_def mark_stored_def pace_of_def tracker_settle_sync_def sync_expired_def sync_deadline_def settle_restless_def
  snapshot_due_def SNAPSHOT_OWED_BYTES_def SNAPSHOT_INTERVAL_def store_screen_def screen_record_def proxy_default_def from_millis_def

lemma toy_steps:
  "step Ground 1 = Ground" "step Ground 2 = Ground" "step Ground 5 = Ground" "step Ground 72 = Ground" "step Ground 105 = Ground"
  "at_boundary Ground" "\<not> at_boundary (step Ground 27)"
  by code_simp+

lemma toy_run_ok: "run_ok wk_ok (wk_step toy_vt toy_ser) wk_new toy_events"
  by (simp add: wk_eval)

definition toy_worker :: "bool worker" where
  "toy_worker = run (wk_step toy_vt toy_ser) wk_new toy_events"

lemma toy_worker_state:
  "wk_log toy_worker 7 = [72, 105, 1, 5]"
  "\<exists>p. find_pane 7 (wk_shared toy_worker) = Some p \<and> pn_covered p = 0 \<and> pn_scrollback p = [72, 105] \<and> pn_normal_screen p = [] \<and> pn_screen p = [65] \<and> pn_since p = [5]"
  by (simp_all add: toy_worker_def wk_eval toy_steps)

theorem replay_record_refines_witness:
  "\<exists>p items c. find_pane 7 (wk_shared toy_worker) = Some p \<and> spec_from toy_vt spec_new items = Some c
     \<and> fed items = [72, 105, 1, 5] \<and> [72, 105] = render toy_vt (rs_shot c) @ rs_tail c
     \<and> [65, 5] = render toy_vt (rs_alt_shot c) @ rs_alt_tail c"
proof -
  obtain p where p: "find_pane 7 (wk_shared toy_worker) = Some p" "pn_covered p = 0" "pn_scrollback p = [72, 105]"
    "pn_normal_screen p = []" "pn_screen p = [65]" "pn_since p = [5]" using toy_worker_state(2) by blast
  obtain items c where "spec_from toy_vt spec_new items = Some c" "fed items = wk_log toy_worker 7"
    "concat (push_normal_record (\<lambda>_. 0) p) = take (pn_covered p) (pn_scrollback p) @ render toy_vt (rs_shot c) @ rs_tail c"
    "pn_screen p @ pn_since p = render toy_vt (rs_alt_shot c) @ rs_alt_tail c"
    using replay_record_refines [OF toy_run_ok toy_worker_def p(1), of "\<lambda>_. 0"] by blast
  with p toy_worker_state(1) have "spec_from toy_vt spec_new items = Some c \<and> fed items = [72, 105, 1, 5]
     \<and> [72, 105] = render toy_vt (rs_shot c) @ rs_tail c \<and> [65, 5] = render toy_vt (rs_alt_shot c) @ rs_alt_tail c"
    by (simp add: push_normal_record_def push_ring_def)
  with p(1) show ?thesis by blast
qed

text \<open>
  A program that moves its alternate screen and leaves it within one pass: the pane is still among
  the restless ones, so its normal screen is stored as the screen of its alternate record
  (\<^verbatim>\<open>PaneState::screen\<close> is documented as empty unless the program is on the alternate screen). A chunk that
  re-enters the alternate screen and stops inside a sequence is then replayed on top of it.
\<close>

definition stale_events :: "wk_event list" where
  "stale_events = [WkRegister 7 24 80 None None, WkPass [7] [7] [(7, [1]), (7, [5]), (7, [2])] 1000]"

lemma stale_alternate_screen:
  "\<exists>p. find_pane 7 (wk_shared (run (wk_step toy_vt toy_ser) wk_new stale_events)) = Some p
     \<and> \<not> pm_alt_screen (pn_modes p) \<and> pn_screen p = [78]"
  "\<exists>p. find_pane 7 (wk_shared (run (wk_step toy_vt toy_ser) wk_new (stale_events @ [WkPass [7] [7] [(7, [1, 27])] 1000]))) = Some p
     \<and> pm_alt_screen (pn_modes p) \<and> pn_screen p @ pn_since p = [78, 1, 27]"
  by (simp_all add: stale_events_def wk_eval toy_steps)

end
