(* ===== verification/Reset_Wait.thy ===== *)
theory Reset_Wait
  imports Contracts
begin

text \<open>
  The recovery plugin's wait for a usage limit to reset, \<^verbatim>\<open>plugins/nightcrow-recovery/src/wait.rs\<close>.
  A wait keeps an absolute deadline on the wall clock (an \<^verbatim>\<open>i64\<close> of unix seconds) and a monotonic
  countdown of the same length, and pins the deadline to real time when the wall clock jumps.
\<close>

definition JUMP_TOLERANCE_SECS :: int where
  "JUMP_TOLERANCE_SECS = 5"

definition MIN_WAIT_SECS :: int where
  "MIN_WAIT_SECS = 15"

definition MAX_WAIT_SECS :: int where
  "MAX_WAIT_SECS = 8 * 24 * 60 * 60"

definition RESET_GRACE_SECS :: int where
  "RESET_GRACE_SECS = 30"

definition BACKOFF_BASE_SECS :: int where
  "BACKOFF_BASE_SECS = 30"

definition BACKOFF_MAX_SECS :: int where
  "BACKOFF_MAX_SECS = 30 * 60"

record reset_wait =
  rw_deadline_epoch :: int
  rw_planned :: duration
  rw_started :: instant
  rw_last_epoch :: int
  rw_last_mono :: instant

definition wait_until :: "int \<Rightarrow> int \<Rightarrow> instant \<Rightarrow> reset_wait" where
  "wait_until deadline_epoch now_epoch now =
     (let target = sat64 (deadline_epoch + RESET_GRACE_SECS);
          planned = clampi (wrap64 (target - now_epoch)) MIN_WAIT_SECS MAX_WAIT_SECS
      in \<lparr>rw_deadline_epoch = sat64 (now_epoch + planned), rw_planned = from_secs (nat planned),
          rw_started = now, rw_last_epoch = now_epoch, rw_last_mono = now\<rparr>)"

definition backoff_secs :: "nat \<Rightarrow> int" where
  "backoff_secs attempt =
     (let shift = min (attempt - 1) (32 - 2)
      in clampi (sat64 (BACKOFF_BASE_SECS * 2 ^ shift)) MIN_WAIT_SECS BACKOFF_MAX_SECS)"

definition backoff :: "u32 \<Rightarrow> int \<Rightarrow> instant \<Rightarrow> reset_wait" where
  "backoff attempt now_epoch now =
     (let secs = backoff_secs (unat attempt)
      in \<lparr>rw_deadline_epoch = sat64 (now_epoch + secs), rw_planned = from_secs (nat secs),
          rw_started = now, rw_last_epoch = now_epoch, rw_last_mono = now\<rparr>)"

definition poll_jump :: "reset_wait \<Rightarrow> int \<Rightarrow> instant \<Rightarrow> int" where
  "poll_jump w now_epoch now =
     (let mono_delta = wrap64 (int (as_secs (now - rw_last_mono w)))
      in wrap64 (wrap64 (now_epoch - rw_last_epoch w) - mono_delta))"

definition poll :: "reset_wait \<Rightarrow> int \<Rightarrow> instant \<Rightarrow> bool \<times> reset_wait" where
  "poll w now_epoch now =
     (let jump = poll_jump w now_epoch now;
          deadline = (if JUMP_TOLERANCE_SECS \<le> wrap64 \<bar>jump\<bar> then sat64 (rw_deadline_epoch w + jump)
                      else rw_deadline_epoch w);
          w' = w\<lparr>rw_deadline_epoch := deadline, rw_last_epoch := now_epoch, rw_last_mono := now\<rparr>
      in (deadline \<le> now_epoch \<and> rw_planned w \<le> now - rw_started w, w'))"

text \<open>A wait as the plugin's timer sees it: polled again and again.\<close>

definition polls :: "reset_wait \<Rightarrow> (int \<times> instant) list \<Rightarrow> reset_wait" where
  "polls w ps = run (\<lambda>w (e, t). snd (poll w e t)) w ps"

section \<open>Never early\<close>

definition wait_wf :: "reset_wait \<Rightarrow> bool" where
  "wait_wf w \<longleftrightarrow> from_secs 15 \<le> rw_planned w \<and> rw_planned w \<le> from_secs 691200"

lemmas wait_evals = poll_def polls_def poll_jump_def wait_until_def Let_def clampi_def sat64_def as_secs_def
  from_secs_def JUMP_TOLERANCE_SECS_def MIN_WAIT_SECS_def MAX_WAIT_SECS_def RESET_GRACE_SECS_def

lemma from_secs_le [simp]: "from_secs a \<le> from_secs b \<longleftrightarrow> a \<le> b"
  by (simp add: from_secs_def)

lemma wait_wf_until [simp]: "wait_wf (wait_until d e t)"
proof -
  have "15 \<le> clampi x 15 691200 \<and> clampi x 15 691200 \<le> 691200" for x
    by (simp add: clampi_def)
  from this [of "wrap64 (sat64 (d + RESET_GRACE_SECS) - e)"] show ?thesis
    by (simp add: wait_wf_def wait_until_def Let_def MIN_WAIT_SECS_def MAX_WAIT_SECS_def le_nat_iff nat_le_iff)
qed

lemma backoff_secs_eq: "backoff_secs n = (if n \<le> 6 then 30 * 2 ^ (n - 1) else 1800)"
proof (cases "n \<le> 6")
  case True
  then have "n = 0 \<or> n = 1 \<or> n = 2 \<or> n = 3 \<or> n = 4 \<or> n = 5 \<or> n = 6" by linarith
  then show ?thesis
    by (elim disjE) (simp_all add: backoff_secs_def BACKOFF_BASE_SECS_def BACKOFF_MAX_SECS_def
        MIN_WAIT_SECS_def clampi_def sat64_def)
next
  case False
  have "(2::int) ^ 6 \<le> 2 ^ min (n - 1) 30" by (rule power_increasing) (use False in auto)
  moreover have "(2::int) ^ min (n - 1) 30 \<le> 2 ^ 30" by (rule power_increasing) auto
  ultimately show ?thesis using False
    by (auto simp: backoff_secs_def BACKOFF_BASE_SECS_def BACKOFF_MAX_SECS_def
        MIN_WAIT_SECS_def clampi_def sat64_def Let_def)
qed

lemma backoff_secs_bounds: "30 \<le> backoff_secs n" "backoff_secs n \<le> 1800"
proof -
  have "(2::int) ^ (n - 1) \<le> 2 ^ 5" if "n \<le> 6" by (rule power_increasing) (use that in auto)
  then show "30 \<le> backoff_secs n" "backoff_secs n \<le> 1800" by (auto simp: backoff_secs_eq)
qed

lemma wait_wf_backoff [simp]: "wait_wf (backoff n e t)"
  using backoff_secs_bounds [of "unat n"] by (simp add: wait_wf_def backoff_def Let_def le_nat_iff nat_le_iff)

lemma poll_keeps [simp]:
  "rw_planned (snd (poll w e t)) = rw_planned w" "rw_started (snd (poll w e t)) = rw_started w"
  by (simp_all add: poll_def Let_def)

lemma polls_keeps [simp]:
  "rw_planned (polls w ps) = rw_planned w" "rw_started (polls w ps) = rw_started w"
  by (induction ps arbitrary: w) (auto simp: polls_def)

lemma poll_true: "fst (poll w e t) \<Longrightarrow> rw_planned w \<le> t - rw_started w"
  by (simp add: poll_def Let_def)

lemma planned_until:
  assumes "0 \<le> d" "d < 2 ^ 62" "0 \<le> e" "e < 2 ^ 62"
  shows "rw_planned (wait_until d e t) = from_secs (nat (clampi (d + 30 - e) 15 691200))"
proof -
  have "sat64 (d + 30) = d + 30" using assms by (simp add: sat64_def)
  moreover have "wrap64 (d + 30 - e) = d + 30 - e" by (rule wrap64_id) (use assms in auto)
  ultimately show ?thesis
    by (simp add: wait_until_def Let_def RESET_GRACE_SECS_def MIN_WAIT_SECS_def MAX_WAIT_SECS_def)
qed

text \<open>
  \<^bold>\<open>C33\<close>. A wait never ends early, whatever the wall clock does while it runs: when a poll answers that
  the wait is over, the monotonic clock has advanced by the whole planned time since the wait was
  made, which is at least 15 seconds and at most 8 days, and, for plausible clock values,
  reaches past the reported reset by the 30 seconds of grace unless the reset is over 8 days away.
\<close>

theorem wait_never_early:
  assumes "fst (poll (polls (wait_until d e t0) ps) e' now)"
  shows "rw_planned (wait_until d e t0) \<le> now - t0
    \<and> from_secs 15 \<le> rw_planned (wait_until d e t0) \<and> rw_planned (wait_until d e t0) \<le> from_secs (8 * 24 * 60 * 60)
    \<and> (0 \<le> d \<and> d < 2 ^ 62 \<and> 0 \<le> e \<and> e < 2 ^ 62 \<and> d + 30 - e \<le> 8 * 24 * 60 * 60
         \<longrightarrow> d + 30 - e \<le> int (as_secs (now - t0)))"
proof -
  have started: "rw_started (wait_until d e t0) = t0" by (simp add: wait_until_def Let_def)
  have p: "rw_planned (wait_until d e t0) \<le> now - t0" using poll_true [OF assms] started by simp
  have "d + 30 - e \<le> int (as_secs (now - t0))"
    if "0 \<le> d" "d < 2 ^ 62" "0 \<le> e" "e < 2 ^ 62" "d + 30 - e \<le> 691200"
  proof -
    have "nat (clampi (d + 30 - e) 15 691200) \<le> as_secs (now - t0)"
      using p unfolding planned_until [OF that(1-4)] by (simp add: from_secs_le_iff)
    moreover have "d + 30 - e \<le> clampi (d + 30 - e) 15 691200" using that(5) by (simp add: clampi_def)
    ultimately show ?thesis by linarith
  qed
  with p wait_wf_until [of d e t0] show ?thesis by (simp add: wait_wf_def)
qed

theorem wait_never_early_witness:
  "fst (poll (polls (wait_until 1000 900 7) [(5, 8000000000)]) 200 200000000007)
     \<and> rw_planned (wait_until 1000 900 7) \<le> 200000000007 - 7"
proof -
  have "fst (poll (polls (wait_until 1000 900 7) [(5, 8000000000)]) 200 200000000007)"
    by (simp add: wait_evals)
  with wait_never_early [OF this] show ?thesis by blast
qed

section \<open>Never stranded\<close>

text \<open>
  A run of polls is \<open>steady\<close> when the monotonic clock does not go backwards, the wall clock shows
  unix seconds of this era, and between two polls the wall clock either keeps up with the monotonic
  one or moves by enough to be recognised as changed. \<open>waited\<close> is the time that passed, in the
  whole seconds between polls that the code counts.
\<close>

fun steady :: "reset_wait \<Rightarrow> (int \<times> instant) list \<Rightarrow> bool" where
  "steady w [] = True"
| "steady w ((e, t) # ps) =
     (0 \<le> e \<and> e < 2 ^ 62 \<and> rw_last_mono w \<le> t \<and> int (as_secs (t - rw_last_mono w)) < 2 ^ 62
      \<and> (int (as_secs (t - rw_last_mono w)) \<le> e - rw_last_epoch w
         \<or> JUMP_TOLERANCE_SECS \<le> \<bar>e - rw_last_epoch w - int (as_secs (t - rw_last_mono w))\<bar>)
      \<and> steady (snd (poll w e t)) ps)"

fun waited :: "instant \<Rightarrow> (int \<times> instant) list \<Rightarrow> nat" where
  "waited from [] = 0"
| "waited from ((e, t) # ps) = as_secs (t - from) + waited t ps"

definition era :: "int \<Rightarrow> bool" where
  "era e \<longleftrightarrow> 0 \<le> e \<and> e < 2 ^ 62"

lemma poll_jump_exact:
  assumes "era (rw_last_epoch w)" "era e" "int (as_secs (t - rw_last_mono w)) < 2 ^ 62"
  shows "poll_jump w e t = e - rw_last_epoch w - int (as_secs (t - rw_last_mono w))"
    and "wrap64 \<bar>poll_jump w e t\<bar> = \<bar>e - rw_last_epoch w - int (as_secs (t - rw_last_mono w))\<bar>"
proof -
  let ?j = "e - rw_last_epoch w - int (as_secs (t - rw_last_mono w))"
  have j: "- (2 ^ 63) \<le> ?j" "?j < 2 ^ 63" "- (2 ^ 63) < ?j" using assms by (auto simp: era_def)
  show eq: "poll_jump w e t = ?j" using assms j by (simp add: poll_jump_def Let_def era_def)
  show "wrap64 \<bar>poll_jump w e t\<bar> = \<bar>?j\<bar>" unfolding eq by (rule wrap64_id) (use j in linarith)+
qed

lemma sat64_le: "- (2 ^ 63) \<le> y \<Longrightarrow> x \<le> y \<Longrightarrow> sat64 x \<le> y"
  by (simp add: sat64_def)

lemma poll_remaining:
  assumes "era (rw_last_epoch w)" "steady w ((e, t) # ps)" "0 \<le> R"
    and "rw_deadline_epoch w \<le> rw_last_epoch w + R"
  shows "rw_deadline_epoch (snd (poll w e t)) \<le> e + max 0 (R - int (as_secs (t - rw_last_mono w)))"
    and "rw_last_epoch (snd (poll w e t)) = e" "rw_last_mono (snd (poll w e t)) = t"
proof -
  have "era e" using assms(2) by (simp add: era_def)
  note jump = poll_jump_exact [OF assms(1) this, of t]
  let ?m = "int (as_secs (t - rw_last_mono w))"
  have m: "?m < 2 ^ 62" and e: "0 \<le> e"
    and kept: "?m \<le> e - rw_last_epoch w \<or> 5 \<le> \<bar>e - rw_last_epoch w - ?m\<bar>"
    using assms(2) by (auto simp: JUMP_TOLERANCE_SECS_def)
  note jump = jump [OF m]
  show "rw_deadline_epoch (snd (poll w e t)) \<le> e + max 0 (R - ?m)"
  proof (cases "5 \<le> \<bar>e - rw_last_epoch w - ?m\<bar>")
    case True
    have "sat64 (rw_deadline_epoch w + (e - rw_last_epoch w - ?m)) \<le> e + max 0 (R - ?m)"
      by (rule sat64_le) (use e assms(4) in auto)
    with True show ?thesis unfolding poll_def Let_def jump(2) unfolding jump(1) by (simp add: JUMP_TOLERANCE_SECS_def)
  next
    case False
    with kept assms(4) have "rw_deadline_epoch w \<le> e + max 0 (R - ?m)" by linarith
    with False show ?thesis unfolding poll_def Let_def jump(2) unfolding jump(1) by (simp add: JUMP_TOLERANCE_SECS_def)
  qed
qed (simp_all add: poll_def Let_def)

lemma polls_remaining:
  assumes "era (rw_last_epoch w)" "steady w ps" "0 \<le> R" "rw_deadline_epoch w \<le> rw_last_epoch w + R"
  shows "era (rw_last_epoch (polls w ps))
    \<and> rw_deadline_epoch (polls w ps) \<le> rw_last_epoch (polls w ps) + max 0 (R - int (waited (rw_last_mono w) ps))
    \<and> rw_last_mono w + from_secs (waited (rw_last_mono w) ps) \<le> rw_last_mono (polls w ps)"
  using assms
proof (induction ps arbitrary: w R)
  case Nil
  then show ?case by (simp add: polls_def from_secs_def)
next
  case (Cons p ps)
  obtain e t where p: "p = (e, t)" by fastforce
  let ?w = "snd (poll w e t)" and ?m = "as_secs (t - rw_last_mono w)"
  note step = poll_remaining [OF Cons.prems(1) Cons.prems(2) [unfolded p] Cons.prems(3,4)]
  have e: "era e" "rw_last_mono w \<le> t" "steady ?w ps" using Cons.prems(2) p by (simp_all add: era_def)
  have "from_secs ?m \<le> t - rw_last_mono w" by (simp add: from_secs_le_iff)
  then have "rw_last_mono w + from_secs (?m + waited t ps) \<le> t + from_secs (waited t ps)"
    using e(2) by (simp add: from_secs_def algebra_simps)
  moreover have "max 0 (max 0 (R - int ?m) - int (waited t ps)) = max 0 (R - int (?m + waited t ps))" by linarith
  moreover have "era (rw_last_epoch ?w)" using step(2) e(1) by simp
  ultimately show ?case
    using Cons.IH [of ?w "max 0 (R - int ?m)"] step e(2,3) p
    by (simp add: polls_def)
qed

lemma start_remaining:
  assumes "era e"
  shows "rw_deadline_epoch (wait_until d e t) \<le> e + int (as_secs (rw_planned (wait_until d e t)))"
    and "rw_last_epoch (wait_until d e t) = e" "rw_last_mono (wait_until d e t) = t"
    "rw_started (wait_until d e t) = t"
proof -
  have "sat64 (e + x) \<le> e + int (nat x)" if "15 \<le> x" for x
    using assms that by (auto simp: sat64_def era_def)
  moreover have "15 \<le> clampi x 15 691200" for x by (simp add: clampi_def)
  ultimately have "sat64 (e + clampi x 15 691200) \<le> e + int (nat (clampi x 15 691200))" for x by blast
  then show "rw_deadline_epoch (wait_until d e t) \<le> e + int (as_secs (rw_planned (wait_until d e t)))"
    by (simp add: wait_until_def Let_def MIN_WAIT_SECS_def MAX_WAIT_SECS_def)
qed (simp_all add: wait_until_def Let_def)

text \<open>
  \<^bold>\<open>C37\<close>. A wait is never stranded either: however far the wall clock is moved, back or forth, and however often,
  a steady run of polls whose whole seconds add up to the planned time ends with a poll that answers
  that the wait is over.
\<close>

theorem wait_ends:
  assumes "0 \<le> e0" "e0 < 2 ^ 62"
    and "steady (wait_until d e0 t0) (ps @ [(e, now)])"
    and "rw_planned (wait_until d e0 t0) \<le> from_secs (waited t0 (ps @ [(e, now)]))"
  shows "fst (poll (polls (wait_until d e0 t0) ps) e now)"
proof -
  let ?w = "wait_until d e0 t0" and ?all = "ps @ [(e, now)]"
  have era: "era e0" using assms(1,2) by (simp add: era_def)
  note start = start_remaining [OF this, of d t0]
  let ?fin = "polls ?w ?all"
  have "era (rw_last_epoch ?fin)
    \<and> rw_deadline_epoch ?fin \<le> rw_last_epoch ?fin + max 0 (int (as_secs (rw_planned ?w)) - int (waited t0 ?all))
    \<and> t0 + from_secs (waited t0 ?all) \<le> rw_last_mono ?fin"
    using polls_remaining [of ?w ?all "int (as_secs (rw_planned ?w))"] start era assms(3) by simp
  moreover have "as_secs (rw_planned ?w) \<le> waited t0 ?all"
    using as_secs_mono [OF assms(4)] by simp
  moreover have "?fin = snd (poll (polls ?w ps) e now)" by (simp add: polls_def)
  moreover have "rw_last_mono ?fin = now" "rw_last_epoch ?fin = e"
    by (simp_all add: polls_def poll_def Let_def)
  moreover have "rw_started (polls ?w ps) = t0" "rw_planned (polls ?w ps) = rw_planned ?w"
    using start(4) by simp_all
  ultimately show ?thesis using assms(4) by (auto simp: poll_def Let_def split: if_splits)
qed

theorem wait_ends_witness:
  "\<exists>d e0 t0 ps e now. 5 \<le> \<bar>e - e0\<bar> \<and> ps \<noteq> [] \<and> fst (poll (polls (wait_until d e0 t0) ps) e now)"
proof -
  have "fst (poll (polls (wait_until 1000 990 0) [(3, from_secs 20)]) 23 (from_secs 40))"
    by (rule wait_ends) (simp_all add: wait_evals)
  moreover have "5 \<le> \<bar>23 - 990 :: int\<bar>" "[(3 :: int, from_secs 20)] \<noteq> []" by simp_all
  ultimately show ?thesis by blast
qed

end
