(* ===== verification/Pane_Recovery.thy ===== *)
theory Pane_Recovery
  imports Reset_Wait Plugin_Protocol
begin

text \<open>
  The recovery state machine of one pane slot in the \<^verbatim>\<open>nightcrow-recovery\<close> plugin:
  \<^verbatim>\<open>plugins/nightcrow-recovery/src/state.rs\<close> (events and episodes), \<^verbatim>\<open>state_clock.rs\<close> (waiting) and
  \<^verbatim>\<open>state_resume.rs\<close> (the one request to the host). The machine holds no clock; every entry point
  takes the time. The provider adapter is a trait object: its \<^verbatim>\<open>resume\<close> is a function argument, and
  every theorem holds for every adapter. The plugin's copy of the line protocol
  (\<^verbatim>\<open>plugins/nightcrow-recovery/src/protocol.rs\<close>) has the host's messages, so the host's datatypes
  are used.
\<close>

section \<open>The plugin's half of the protocol\<close>

fun ev_token :: "plugin_event \<Rightarrow> pane_token option" where
  "ev_token (PaneOpened _ t _ _ _ _) = Some t"
| "ev_token (PaneOutput _ t _ _) = Some t"
| "ev_token (PaneIdle _ t _ _) = Some t"
| "ev_token (PaneExited _ t _) = Some t"
| "ev_token (PaneClosed _ t _) = Some t"
| "ev_token (UserInput _ t _) = Some t"
| "ev_token (Shutdown _) = None"

fun ev_generation :: "plugin_event \<Rightarrow> pane_generation option" where
  "ev_generation (PaneOpened _ _ g _ _ _) = Some g"
| "ev_generation (PaneOutput _ _ g _) = Some g"
| "ev_generation (PaneIdle _ _ g _) = Some g"
| "ev_generation (PaneExited _ _ g) = Some g"
| "ev_generation (PaneClosed _ _ g) = Some g"
| "ev_generation (UserInput _ _ g) = Some g"
| "ev_generation (Shutdown _) = None"

fun ev_version :: "plugin_event \<Rightarrow> u32" where
  "ev_version (PaneOpened v _ _ _ _ _) = v"
| "ev_version (PaneOutput v _ _ _) = v"
| "ev_version (PaneIdle v _ _ _) = v"
| "ev_version (PaneExited v _ _) = v"
| "ev_version (PaneClosed v _ _) = v"
| "ev_version (UserInput v _ _) = v"
| "ev_version (Shutdown v) = v"

definition decode_event :: "(rstring \<Rightarrow> plugin_event option) \<Rightarrow> rstring \<Rightarrow> protocol_error + plugin_event" where
  "decode_event from_str line =
     (if str_len line > MAX_LINE_BYTES then Inl (LineTooLong (str_len line))
      else case from_str line of
             None \<Rightarrow> Inl Malformed
           | Some ev \<Rightarrow> if ev_version ev = PROTOCOL_VERSION then Inr ev else Inl (WrongVersion (ev_version ev)))"

definition encode_command :: "(plugin_command \<Rightarrow> rstring option) \<Rightarrow> plugin_command \<Rightarrow> protocol_error + rstring" where
  "encode_command to_string cmd =
     (case to_string cmd of
        None \<Rightarrow> Inl EncodeFailed
      | Some line \<Rightarrow> if 10 \<in> set line then Inl EventHasNewline else Inr line)"

section \<open>The machine\<close>

definition MAX_RESUME_ATTEMPTS :: u32 where
  "MAX_RESUME_ATTEMPTS = 4"

definition RESUME_CONFIRM_SECS :: nat where
  "RESUME_CONFIRM_SECS = 90"

datatype recovery_state =
    Idle | LimitDetected | WaitingForReset | ReadyToResume | Resuming | Backoff | NeedsAttention

fun state_str :: "recovery_state \<Rightarrow> rstring" where
  "state_str Idle = lit ''idle''"
| "state_str LimitDetected = lit ''limit_detected''"
| "state_str WaitingForReset = lit ''waiting_for_reset''"
| "state_str ReadyToResume = lit ''ready_to_resume''"
| "state_str Resuming = lit ''resuming''"
| "state_str Backoff = lit ''backoff''"
| "state_str NeedsAttention = lit ''needs_attention''"

record pane_context =
  ctx_token :: pane_token
  ctx_generation :: pane_generation
  ctx_cwd :: rstring
  ctx_command :: "rstring option"

record limit_event =
  le_session_id :: "rstring option"
  le_resets_at :: "int option"
  le_detail :: rstring

datatype resume_plan = RelaunchPlan "rstring list" | Hold rstring

type_synonym resume_fn = "pane_context \<Rightarrow> limit_event \<Rightarrow> bool \<Rightarrow> resume_plan option"

record pane_recovery =
  rc_token :: pane_token
  rc_generation :: pane_generation
  rc_state :: recovery_state
  rc_limit :: "limit_event option"
  rc_wait :: "reset_wait option"
  rc_attempt :: u32
  rc_alive :: bool
  rc_detail :: "rstring option"
  rc_resumed_at :: "instant option"

type_synonym reply = "plugin_command list \<times> pane_recovery"

definition recovery_new :: "pane_token \<Rightarrow> pane_generation \<Rightarrow> pane_recovery" where
  "recovery_new token gen = \<lparr>rc_token = token, rc_generation = gen, rc_state = Idle, rc_limit = None,
     rc_wait = None, rc_attempt = 0, rc_alive = True, rc_detail = None, rc_resumed_at = None\<rparr>"

definition rc_deadline_epoch :: "pane_recovery \<Rightarrow> int option" where
  "rc_deadline_epoch s = map_option rw_deadline_epoch (rc_wait s)"

definition status :: "pane_recovery \<Rightarrow> plugin_command" where
  "status s = Status PROTOCOL_VERSION (rc_token s) (rc_generation s) (state_str (rc_state s)) (rc_detail s)
     (rc_deadline_epoch s) (rc_attempt s)"

definition goto :: "recovery_state \<Rightarrow> pane_recovery \<Rightarrow> reply" where
  "goto st s = (if rc_state s = st then ([], s) else let s' = s\<lparr>rc_state := st\<rparr> in ([status s'], s'))"

definition recovery_cancel :: "pane_recovery \<Rightarrow> reply" where
  "recovery_cancel s0 =
     (let s = s0\<lparr>rc_wait := None, rc_limit := None, rc_resumed_at := None\<rparr>
      in if rc_state s = Idle then ([], s) else goto Idle (s\<lparr>rc_detail := Some (lit ''cancelled'')\<rparr>))"

definition resets_at :: "pane_recovery \<Rightarrow> int option" where
  "resets_at s = (case rc_limit s of None \<Rightarrow> None | Some l \<Rightarrow> le_resets_at l)"

definition confirm_resume :: "pane_recovery \<Rightarrow> reply" where
  "confirm_resume s0 =
     (if rc_state s0 \<noteq> Resuming then ([], s0)
      else
        let s = (if resets_at s0 \<noteq> None then s0\<lparr>rc_attempt := 0\<rparr> else s0)
        in goto Idle (s\<lparr>rc_resumed_at := None, rc_limit := None, rc_wait := None,
             rc_detail := Some (lit ''resumed'')\<rparr>))"

text \<open>The part of \<^verbatim>\<open>on_event\<close> before its \<^verbatim>\<open>match\<close>: a new spawn voids what was decided about the old one.\<close>

definition new_spawn :: "pane_generation \<Rightarrow> pane_recovery \<Rightarrow> reply" where
  "new_spawn gen s0 =
     (if rc_generation s0 < gen then
        let s = s0\<lparr>rc_generation := gen, rc_alive := True\<rparr>
        in if rc_state s = Resuming then confirm_resume s else recovery_cancel s
      else ([], s0))"

definition on_event :: "plugin_event \<Rightarrow> pane_recovery \<Rightarrow> plugin_command list option \<times> pane_recovery" where
  "on_event ev s0 =
     (case ev_generation ev of
        None \<Rightarrow> (None, s0)
      | Some gen \<Rightarrow>
          if gen < rc_generation s0 then (None, s0)
          else
            let (out, s) = new_spawn gen s0
            in case ev of
                 PaneOpened _ _ _ _ _ _ \<Rightarrow> (Some out, s\<lparr>rc_alive := True\<rparr>)
               | PaneOutput _ _ _ _ \<Rightarrow> (Some out, s)
               | PaneIdle _ _ _ _ \<Rightarrow> (Some out, s)
               | PaneExited _ _ _ \<Rightarrow> (Some out, s\<lparr>rc_alive := False\<rparr>)
               | PaneClosed _ _ _ \<Rightarrow> (let (more, s) = recovery_cancel (s\<lparr>rc_attempt := 0\<rparr>) in (Some (out @ more), s))
               | UserInput _ _ _ \<Rightarrow> (let (more, s) = recovery_cancel (s\<lparr>rc_attempt := 0\<rparr>) in (Some (out @ more), s))
               | Shutdown _ \<Rightarrow> (Some out, s))"

section \<open>Waiting\<close>

definition gave_up :: "rstring" where
  "gave_up = lit ''gave up after 4 resume attempts''"

definition arm_backoff :: "int \<Rightarrow> instant \<Rightarrow> pane_recovery \<Rightarrow> reply" where
  "arm_backoff now_epoch now s =
     (if MAX_RESUME_ATTEMPTS \<le> rc_attempt s then
        goto NeedsAttention (s\<lparr>rc_wait := None, rc_detail := Some gave_up\<rparr>)
      else goto Backoff (s\<lparr>rc_wait := Some (backoff (rc_attempt s + 1) now_epoch now)\<rparr>))"

definition arm_wait :: "int \<Rightarrow> instant \<Rightarrow> pane_recovery \<Rightarrow> reply" where
  "arm_wait now_epoch now s =
     (case resets_at s of
        Some reset \<Rightarrow> goto WaitingForReset (s\<lparr>rc_wait := Some (wait_until reset now_epoch now)\<rparr>)
      | None \<Rightarrow> arm_backoff now_epoch now s)"

definition arm_wait_after_failure :: "int \<Rightarrow> instant \<Rightarrow> pane_recovery \<Rightarrow> reply" where
  "arm_wait_after_failure now_epoch now s =
     arm_backoff now_epoch now (s\<lparr>rc_detail := Some (lit ''resume produced no sign of life'')\<rparr>)"

definition is_same_episode :: "limit_event \<Rightarrow> pane_recovery \<Rightarrow> bool" where
  "is_same_episode limit s =
     (case rc_limit s of
        None \<Rightarrow> False
      | Some current \<Rightarrow> rc_state s \<noteq> Idle \<and> le_session_id current = le_session_id limit
          \<and> le_resets_at current = le_resets_at limit)"

definition note_limit :: "limit_event \<Rightarrow> int \<Rightarrow> instant \<Rightarrow> pane_recovery \<Rightarrow> reply" where
  "note_limit limit now_epoch now s0 =
     (if rc_state s0 = NeedsAttention \<or> is_same_episode limit s0 then ([], s0)
      else
        let (out, s) = goto LimitDetected (s0\<lparr>rc_detail := Some (le_detail limit), rc_limit := Some limit\<rparr>);
            (more, s) = arm_wait now_epoch now s
        in (out @ more, s))"

section \<open>The one request\<close>

text \<open>The plugin's own copies of the host's limits, under their own names.\<close>

definition PLUGIN_MAX_RESUME_ARGS :: nat where
  "PLUGIN_MAX_RESUME_ARGS = 6"

definition PLUGIN_MAX_RESUME_ARG_LEN :: nat where
  "PLUGIN_MAX_RESUME_ARG_LEN = 256"

definition plugin_safe_arg_char :: "rchar \<Rightarrow> bool" where
  "plugin_safe_arg_char c \<longleftrightarrow> is_ascii_alphanumeric c \<or> c \<in> set (lit ''._-:/=@+'')"

definition args_are_safe :: "rstring list \<Rightarrow> bool" where
  "args_are_safe args \<longleftrightarrow> args \<noteq> [] \<and> length args \<le> PLUGIN_MAX_RESUME_ARGS
     \<and> list_all (\<lambda>a. a \<noteq> [] \<and> str_len a \<le> PLUGIN_MAX_RESUME_ARG_LEN \<and> list_all plugin_safe_arg_char a) args"

definition spend_attempt :: "plugin_command \<Rightarrow> instant \<Rightarrow> pane_recovery \<Rightarrow> reply" where
  "spend_attempt command now s0 =
     (if MAX_RESUME_ATTEMPTS \<le> rc_attempt s0 then goto NeedsAttention (s0\<lparr>rc_detail := Some gave_up\<rparr>)
      else
        let (out, s) = goto Resuming (s0\<lparr>rc_attempt := rc_attempt s0 + 1, rc_resumed_at := Some now\<rparr>)
        in (out @ [command], s))"

definition relaunch :: "rstring list \<Rightarrow> pane_context \<Rightarrow> instant \<Rightarrow> pane_recovery \<Rightarrow> reply" where
  "relaunch args ctx now s =
     (if rc_alive s then ([], s)
      else if ctx_command ctx = None then
        goto NeedsAttention (s\<lparr>rc_detail :=
          Some (lit ''this pane has no command to relaunch; start the session again by hand'')\<rparr>)
      else if \<not> args_are_safe args then
        goto NeedsAttention (s\<lparr>rc_detail := Some (lit ''adapter offered resume args the host would refuse'')\<rparr>)
      else spend_attempt (Relaunch PROTOCOL_VERSION (rc_token s) (rc_generation s) args) now s)"

definition try_resume :: "resume_fn \<Rightarrow> pane_context \<Rightarrow> int \<Rightarrow> instant \<Rightarrow> pane_recovery \<Rightarrow> reply" where
  "try_resume resume ctx now_epoch now s =
     (case rc_limit s of
        None \<Rightarrow> recovery_cancel s
      | Some limit \<Rightarrow>
          case resume ctx limit (rc_alive s) of
            None \<Rightarrow> arm_wait_after_failure now_epoch now s
          | Some (Hold reason) \<Rightarrow> goto NeedsAttention (s\<lparr>rc_detail := Some reason\<rparr>)
          | Some (RelaunchPlan args) \<Rightarrow> relaunch args ctx now s)"

text \<open>The first half of \<^verbatim>\<open>tick\<close>: what only time decides.\<close>

definition tick_wait :: "int \<Rightarrow> instant \<Rightarrow> pane_recovery \<Rightarrow> reply" where
  "tick_wait now_epoch now s =
     (if rc_state s = WaitingForReset \<or> rc_state s = Backoff then
        case rc_wait s of
          None \<Rightarrow> ([], s)
        | Some w \<Rightarrow>
            let (elapsed, w') = poll w now_epoch now;
                s = s\<lparr>rc_wait := Some w'\<rparr>
            in if elapsed then goto ReadyToResume (s\<lparr>rc_wait := None\<rparr>) else ([], s)
      else if rc_state s = Resuming then
        case rc_resumed_at s of
          None \<Rightarrow> ([], s)
        | Some at \<Rightarrow>
            if from_secs RESUME_CONFIRM_SECS \<le> now - at
            then arm_wait_after_failure now_epoch now (s\<lparr>rc_resumed_at := None\<rparr>)
            else ([], s)
      else ([], s))"

definition recovery_tick :: "resume_fn \<Rightarrow> pane_context \<Rightarrow> int \<Rightarrow> instant \<Rightarrow> pane_recovery \<Rightarrow> reply" where
  "recovery_tick resume ctx now_epoch now s0 =
     (let (out, s) = tick_wait now_epoch now s0
      in if rc_state s = ReadyToResume
         then let (more, s) = try_resume resume ctx now_epoch now s in (out @ more, s)
         else (out, s))"

section \<open>Runs of the machine\<close>

datatype rc_event =
    HostEvent plugin_event instant
  | NoteLimit limit_event int instant
  | Tick resume_fn pane_context int instant

fun rc_time :: "rc_event \<Rightarrow> instant" where
  "rc_time (HostEvent _ now) = now"
| "rc_time (NoteLimit _ _ now) = now"
| "rc_time (Tick _ _ _ now) = now"

fun rc_apply :: "pane_recovery \<Rightarrow> rc_event \<Rightarrow> reply" where
  "rc_apply s (HostEvent ev _) = (case on_event ev s of (out, s') \<Rightarrow> (case out of None \<Rightarrow> [] | Some cs \<Rightarrow> cs, s'))"
| "rc_apply s (NoteLimit l e now) = note_limit l e now s"
| "rc_apply s (Tick resume ctx e now) = recovery_tick resume ctx e now s"

definition rc_step :: "pane_recovery \<Rightarrow> rc_event \<Rightarrow> pane_recovery" where
  "rc_step s e = snd (rc_apply s e)"

fun is_relaunch :: "plugin_command \<Rightarrow> bool" where
  "is_relaunch (Relaunch _ _ _ _) = True"
| "is_relaunch _ = False"

definition relaunches :: "plugin_command list \<Rightarrow> nat" where
  "relaunches cs = length (filter is_relaunch cs)"

section \<open>The invariant\<close>

text \<open>
  Every waiting state has its timer, every resume its confirmation deadline, and every episode its
  limit, so no state is one the clock cannot leave.
\<close>

definition rc_inv :: "pane_recovery \<Rightarrow> bool" where
  "rc_inv s \<longleftrightarrow> rc_attempt s \<le> MAX_RESUME_ATTEMPTS
     \<and> rc_state s \<noteq> LimitDetected
     \<and> (rc_wait s \<noteq> None \<longleftrightarrow> rc_state s \<in> {WaitingForReset, Backoff})
     \<and> (case rc_wait s of None \<Rightarrow> True | Some w \<Rightarrow> wait_wf w)
     \<and> (rc_limit s = None \<longleftrightarrow> rc_state s = Idle)
     \<and> (rc_state s = Resuming \<longrightarrow> rc_resumed_at s \<noteq> None)"

lemma snd_goto [simp]: "snd (goto st s) = s\<lparr>rc_state := st\<rparr>"
  by (cases s) (auto simp: goto_def Let_def)

lemma fst_goto: "fst (goto st s) = (if rc_state s = st then [] else [status (s\<lparr>rc_state := st\<rparr>)])"
  by (simp add: goto_def Let_def)

lemma no_relaunch_goto [simp]: "filter is_relaunch (fst (goto st s)) = []"
  by (simp add: fst_goto status_def)

lemma attempt_word:
  "(4 :: u32) \<le> n \<longleftrightarrow> 4 \<le> unat n"
  "\<not> (4 :: u32) \<le> n \<Longrightarrow> unat (n + 1) = unat n + 1"
proof -
  show "(4 :: u32) \<le> n \<longleftrightarrow> 4 \<le> unat n" by (simp add: word_le_nat_alt)
  assume "\<not> (4 :: u32) \<le> n"
  then have "unat n < 4" by (simp add: word_le_nat_alt)
  then show "unat (n + 1) = unat n + 1" by (simp add: unat_word_ariths)
qed

lemma attempt_le: "n \<le> (4 :: u32) \<longleftrightarrow> unat n \<le> 4"
  by (simp add: word_le_nat_alt)

lemma attempt_succ_le: "\<not> (4 :: u32) \<le> n \<Longrightarrow> n + 1 \<le> 4"
  using attempt_word(2) [of n] by (simp add: word_le_nat_alt)

lemma snd_cancel:
  "snd (recovery_cancel s) = s\<lparr>rc_wait := None, rc_limit := None, rc_resumed_at := None, rc_state := Idle,
     rc_detail := if rc_state s = Idle then rc_detail s else Some (lit ''cancelled'')\<rparr>"
  by (cases s) (auto simp: recovery_cancel_def Let_def)

lemma rc_inv_cancel: "rc_attempt s \<le> MAX_RESUME_ATTEMPTS \<Longrightarrow> rc_inv (snd (recovery_cancel s))"
  by (simp add: snd_cancel rc_inv_def)

lemma rc_inv_confirm: "rc_inv s \<Longrightarrow> rc_inv (snd (confirm_resume s))"
  by (simp add: confirm_resume_def rc_inv_def Let_def MAX_RESUME_ATTEMPTS_def)

lemma rc_inv_alive [simp]:
  "rc_inv (rc_alive_update f s) = rc_inv s" "rc_inv (rc_generation_update g s) = rc_inv s"
  by (simp_all add: rc_inv_def)

lemma rc_inv_new_spawn: "rc_inv s \<Longrightarrow> rc_inv (snd (new_spawn gen s))"
  by (auto simp: new_spawn_def Let_def intro!: rc_inv_confirm rc_inv_cancel) (simp add: rc_inv_def)

lemma rc_inv_on_event: "rc_inv s \<Longrightarrow> rc_inv (snd (on_event ev s))"
  using rc_inv_new_spawn [of s]
  by (auto simp: on_event_def Let_def case_prod_beta MAX_RESUME_ATTEMPTS_def intro!: rc_inv_cancel
      split: option.split plugin_event.split)

lemma rc_inv_backoff:
  "rc_attempt s \<le> MAX_RESUME_ATTEMPTS \<Longrightarrow> rc_limit s \<noteq> None \<Longrightarrow> rc_inv (snd (arm_backoff e t s))"
  by (simp add: arm_backoff_def rc_inv_def)

lemma rc_inv_arm_wait:
  "rc_attempt s \<le> MAX_RESUME_ATTEMPTS \<Longrightarrow> rc_limit s \<noteq> None \<Longrightarrow> rc_inv (snd (arm_wait e t s))"
  by (auto simp: arm_wait_def rc_inv_backoff split: option.split) (simp add: rc_inv_def)

lemma rc_inv_note_limit: "rc_inv s \<Longrightarrow> rc_inv (snd (note_limit l e t s))"
  by (auto simp: note_limit_def Let_def case_prod_beta intro!: rc_inv_arm_wait) (simp_all add: rc_inv_def)

lemma rc_inv_try_resume:
  "rc_inv s \<Longrightarrow> rc_state s = ReadyToResume \<Longrightarrow> rc_inv (snd (try_resume resume ctx e t s))"
  by (auto simp: try_resume_def relaunch_def spend_attempt_def Let_def case_prod_beta rc_inv_def
      arm_wait_after_failure_def arm_backoff_def MAX_RESUME_ATTEMPTS_def attempt_succ_le split: option.split resume_plan.split)

lemma rc_inv_tick_wait: "rc_inv s \<Longrightarrow> rc_inv (snd (tick_wait e t s))"
  by (auto simp: tick_wait_def Let_def case_prod_beta arm_wait_after_failure_def wait_wf_def
      intro!: rc_inv_backoff split: option.split) (auto simp: rc_inv_def wait_wf_def)

lemma rc_inv_tick: "rc_inv s \<Longrightarrow> rc_inv (snd (recovery_tick resume ctx e t s))"
  using rc_inv_tick_wait [of s e t] rc_inv_try_resume
  by (auto simp: recovery_tick_def Let_def case_prod_beta)

interpretation recovery: event_machine "\<lambda>_ _. True" rc_step rc_inv
proof
  fix s e assume "rc_inv s"
  then show "rc_inv (rc_step s e)"
    by (cases e) (simp_all add: rc_step_def rc_inv_note_limit rc_inv_tick rc_inv_on_event case_prod_beta)
qed

lemma rc_inv_new: "rc_inv (recovery_new t g)"
  by (simp add: rc_inv_def recovery_new_def MAX_RESUME_ATTEMPTS_def)

text \<open>
  Whatever the host, the adapter and the clock do, in any order, a pane's recovery never makes more than four
  attempts, never stays in a state the clock cannot leave (a wait has its timer and a length
  between 15 seconds and 8 days, a resume its confirmation deadline), and has an episode exactly
  when it is not idle.
\<close>

theorem recovery_invariant: "rc_inv (run rc_step (recovery_new token gen) es)"
  by (rule recovery.run_inv [OF rc_inv_new]) simp

section \<open>What is asked of the host\<close>

lemma relaunches_simps [simp]:
  "relaunches [] = 0" "relaunches (a @ b) = relaunches a + relaunches b"
  "relaunches (fst (goto st s)) = 0" "relaunches [Relaunch v t g args] = 1"
  by (simp_all add: relaunches_def)

lemma relaunches_cancel [simp]: "relaunches (fst (recovery_cancel s)) = 0"
  by (simp add: recovery_cancel_def Let_def)

lemma relaunches_new_spawn [simp]: "relaunches (fst (new_spawn g s)) = 0"
  by (simp add: new_spawn_def confirm_resume_def Let_def)

lemma relaunches_on_event: "on_event ev s = (Some cs, s') \<Longrightarrow> relaunches cs = 0"
  by (auto simp: on_event_def Let_def case_prod_beta split: option.splits plugin_event.splits if_splits)

lemma relaunches_host: "relaunches (fst (rc_apply s (HostEvent ev t))) = 0"
  using relaunches_on_event [of ev s] by (cases "on_event ev s") (auto split: option.split)

lemma relaunches_arm [simp]: "relaunches (fst (arm_backoff e t s)) = 0" "relaunches (fst (arm_wait e t s)) = 0"
  by (simp_all add: arm_backoff_def arm_wait_def split: option.split)

lemma relaunches_note_limit [simp]: "relaunches (fst (note_limit l e t s)) = 0"
  by (simp add: note_limit_def Let_def case_prod_beta)

lemma relaunches_tick_wait [simp]: "relaunches (fst (tick_wait e t s)) = 0"
  by (simp add: tick_wait_def Let_def case_prod_beta arm_wait_after_failure_def split: option.split)

fun human :: "plugin_event \<Rightarrow> bool" where
  "human (PaneClosed _ _ _) = True"
| "human (UserInput _ _ _) = True"
| "human _ = False"

text \<open>
  The events that give the attempt budget back: the pane's human (typing, or closing it), and a
  new spawn that confirms a resume whose limit had a known reset time.
\<close>

fun refunds :: "pane_recovery \<Rightarrow> rc_event \<Rightarrow> bool" where
  "refunds s (HostEvent ev _) =
     (case ev_generation ev of
        None \<Rightarrow> False
      | Some g \<Rightarrow> rc_generation s \<le> g \<and>
          (human ev \<or> (rc_generation s < g \<and> rc_state s = Resuming \<and> resets_at s \<noteq> None)))"
| "refunds s _ = False"

lemma attempt_new_spawn:
  "rc_attempt (snd (new_spawn g s)) =
     (if rc_generation s < g \<and> rc_state s = Resuming \<and> resets_at s \<noteq> None then 0 else rc_attempt s)"
  by (simp add: new_spawn_def confirm_resume_def snd_cancel Let_def resets_at_def)

lemma attempt_on_event: "rc_attempt (snd (on_event ev s)) = (if refunds s (HostEvent ev t) then 0 else rc_attempt s)"
proof (cases "ev_generation ev")
  case None
  then show ?thesis by (simp add: on_event_def)
next
  case (Some g)
  show ?thesis
  proof (cases "g < rc_generation s")
    case True
    with Some show ?thesis by (auto simp: on_event_def)
  next
    case False
    then have "rc_generation s \<le> g" by simp
    with False Some show ?thesis
      by (cases ev) (simp_all add: on_event_def Let_def case_prod_beta attempt_new_spawn snd_cancel)
  qed
qed

lemma attempt_tick_wait [simp]: "rc_attempt (snd (tick_wait e t s)) = rc_attempt s"
  by (simp add: tick_wait_def Let_def case_prod_beta arm_wait_after_failure_def arm_backoff_def split: option.split)

lemma attempt_note_limit [simp]: "rc_attempt (snd (note_limit l e t s)) = rc_attempt s"
  by (simp add: note_limit_def Let_def case_prod_beta arm_wait_def arm_backoff_def split: option.split)

lemma attempt_try_resume:
  "unat (rc_attempt (snd (try_resume resume ctx e t s))) =
     unat (rc_attempt s) + relaunches (fst (try_resume resume ctx e t s))"
  by (simp add: try_resume_def relaunch_def spend_attempt_def arm_wait_after_failure_def arm_backoff_def
      snd_cancel Let_def case_prod_beta MAX_RESUME_ATTEMPTS_def attempt_word(2) split: option.split resume_plan.split)

lemma attempt_step:
  "unat (rc_attempt (rc_step s e)) = (if refunds s e then 0 else unat (rc_attempt s) + relaunches (fst (rc_apply s e)))"
proof (cases e)
  case (HostEvent ev t)
  then have "relaunches (fst (rc_apply s e)) = 0" by (simp only: relaunches_host)
  with HostEvent show ?thesis using attempt_on_event [of ev s t] by (simp add: rc_step_def case_prod_beta)
next
  case (NoteLimit l ep t)
  then show ?thesis by (simp add: rc_step_def)
next
  case (Tick resume ctx ep t)
  then show ?thesis by (simp add: rc_step_def recovery_tick_def Let_def case_prod_beta attempt_try_resume)
qed

fun rc_outputs :: "pane_recovery \<Rightarrow> rc_event list \<Rightarrow> plugin_command list" where
  "rc_outputs s [] = []"
| "rc_outputs s (e # es) = fst (rc_apply s e) @ rc_outputs (rc_step s e) es"

fun no_refund :: "pane_recovery \<Rightarrow> rc_event list \<Rightarrow> bool" where
  "no_refund s [] = True"
| "no_refund s (e # es) = (\<not> refunds s e \<and> no_refund (rc_step s e) es)"

lemma relaunches_run:
  "no_refund s es \<Longrightarrow> unat (rc_attempt (run rc_step s es)) = unat (rc_attempt s) + relaunches (rc_outputs s es)"
  by (induction es arbitrary: s) (simp_all add: attempt_step)

text \<open>
  The attempt budget is a hard bound: over any run in which nobody took the pane back and no resume with a
  known reset time was confirmed, at most four relaunches are asked of the host, however
  often limits are reported, resumes fail or the process dies.
\<close>

theorem relaunch_budget:
  assumes "no_refund (recovery_new token gen) es"
  shows "relaunches (rc_outputs (recovery_new token gen) es) \<le> 4"
proof -
  let ?s = "run rc_step (recovery_new token gen) es"
  have "rc_inv ?s" by (rule recovery.run_inv [OF rc_inv_new]) simp
  then have "unat (rc_attempt ?s) \<le> 4" by (simp add: rc_inv_def MAX_RESUME_ATTEMPTS_def attempt_le)
  with relaunches_run [OF assms] show ?thesis by simp
qed

section \<open>How fast the host is asked\<close>

definition spaced :: "instant \<Rightarrow> instant \<Rightarrow> pane_recovery \<Rightarrow> bool" where
  "spaced t0 clock s \<longleftrightarrow> rc_inv s
     \<and> (case rc_wait s of None \<Rightarrow> True | Some w \<Rightarrow> t0 \<le> rw_started w)
     \<and> (rc_state s = ReadyToResume \<longrightarrow> t0 + from_secs 15 \<le> clock)"

fun relaunch_times :: "pane_recovery \<Rightarrow> rc_event list \<Rightarrow> instant list" where
  "relaunch_times s [] = []"
| "relaunch_times s (e # es) = replicate (relaunches (fst (rc_apply s e))) (rc_time e) @ relaunch_times (rc_step s e) es"

definition started_since :: "instant \<Rightarrow> pane_recovery \<Rightarrow> bool" where
  "started_since t0 s \<longleftrightarrow> (case rc_wait s of None \<Rightarrow> True | Some w \<Rightarrow> t0 \<le> rw_started w)"

lemma started_until [simp]: "rw_started (wait_until d e t) = t" "rw_started (backoff n e t) = t"
  by (simp_all add: wait_until_def backoff_def Let_def)

lemma arm_backoff_effect:
  "started_since t (snd (arm_backoff e t s))" "rc_state (snd (arm_backoff e t s)) \<noteq> ReadyToResume"
  by (simp_all add: arm_backoff_def started_since_def)

lemma new_spawn_effect:
  "rc_wait (snd (new_spawn g s)) \<in> {rc_wait s, None}" "rc_state (snd (new_spawn g s)) \<in> {rc_state s, Idle}"
  by (auto simp: new_spawn_def confirm_resume_def snd_cancel Let_def)

lemma on_event_effect:
  "rc_wait (snd (on_event ev s)) \<in> {rc_wait s, None}" "rc_state (snd (on_event ev s)) \<in> {rc_state s, Idle}"
  using new_spawn_effect [of _ s]
  by (auto simp: on_event_def Let_def case_prod_beta snd_cancel split: option.split plugin_event.split)

lemma note_limit_effect:
  "snd (note_limit l e t s) = s \<or>
   (started_since t (snd (note_limit l e t s)) \<and> rc_state (snd (note_limit l e t s)) \<noteq> ReadyToResume)"
  by (auto simp: note_limit_def Let_def case_prod_beta arm_wait_def arm_backoff_effect started_since_def
      split: option.split) (auto simp: arm_backoff_def)

lemma tick_wait_effect:
  assumes "spaced t0 clock s" "clock \<le> t" "t0 \<le> clock"
  shows "spaced t0 t (snd (tick_wait e t s))"
proof -
  have inv: "rc_inv (snd (tick_wait e t s))" using assms(1) by (simp add: spaced_def rc_inv_tick_wait)
  have ready: "t0 + from_secs 15 \<le> t"
    if "rc_wait s = Some w" "fst (poll w e t)" for w
  proof -
    have "from_secs 15 \<le> rw_planned w" "t0 \<le> rw_started w"
      using assms(1) that(1) by (auto simp: spaced_def rc_inv_def wait_wf_def)
    with poll_true [OF that(2)] show ?thesis by (simp add: from_secs_def)
  qed
  have "started_since t0 (snd (tick_wait e t s))"
    using assms by (auto simp: tick_wait_def Let_def case_prod_beta arm_wait_after_failure_def spaced_def
        started_since_def arm_backoff_def split: option.split)
  moreover have "rc_state (snd (tick_wait e t s)) = ReadyToResume \<Longrightarrow> t0 + from_secs 15 \<le> t"
    using assms ready by (auto simp: tick_wait_def Let_def case_prod_beta arm_wait_after_failure_def spaced_def
        arm_backoff_effect split: option.splits if_splits)
  ultimately show ?thesis using inv by (simp add: spaced_def started_since_def)
qed

lemma try_resume_effect:
  assumes "spaced t0 t s" "rc_state s = ReadyToResume"
  shows "relaunches (fst (try_resume resume ctx e t s)) = 0 \<and> spaced t0 t (snd (try_resume resume ctx e t s))
    \<or> relaunches (fst (try_resume resume ctx e t s)) = 1 \<and> spaced t t (snd (try_resume resume ctx e t s))"
proof -
  have "rc_wait s = None" "t0 \<le> t" using assms by (auto simp: spaced_def rc_inv_def)
  moreover have "rc_inv (snd (try_resume resume ctx e t s))"
    using assms by (simp add: spaced_def rc_inv_try_resume)
  ultimately show ?thesis using assms
    by (auto simp: spaced_def try_resume_def relaunch_def spend_attempt_def Let_def case_prod_beta
        arm_wait_after_failure_def arm_backoff_def snd_cancel split: option.split resume_plan.split)
qed

lemma spaced_step:
  assumes "spaced t0 clock s" "clock \<le> rc_time e" "t0 \<le> clock"
  shows "relaunches (fst (rc_apply s e)) = 0 \<and> spaced t0 (rc_time e) (rc_step s e)
    \<or> relaunches (fst (rc_apply s e)) = 1 \<and> t0 + from_secs 15 \<le> rc_time e \<and> spaced (rc_time e) (rc_time e) (rc_step s e)"
proof (cases e)
  case (HostEvent ev t)
  then have "relaunches (fst (rc_apply s e)) = 0" by (simp only: relaunches_host)
  moreover have "rc_inv (rc_step s e)" using assms(1) by (simp add: spaced_def recovery.step_inv)
  ultimately show ?thesis
    using on_event_effect [of ev s] assms HostEvent by (auto simp: rc_step_def spaced_def case_prod_beta)
next
  case (NoteLimit l ep t)
  moreover have "rc_inv (rc_step s e)" using assms(1) by (simp add: spaced_def recovery.step_inv)
  ultimately show ?thesis using note_limit_effect [of l ep t s] assms
    by (auto simp: rc_step_def spaced_def started_since_def split: option.splits)
next
  case (Tick resume ctx ep t)
  let ?s = "snd (tick_wait ep t s)"
  have sp: "spaced t0 t ?s" using tick_wait_effect assms Tick by simp
  show ?thesis
  proof (cases "rc_state ?s = ReadyToResume")
    case True
    then have "t0 + from_secs 15 \<le> t" using sp by (simp add: spaced_def)
    with True Tick try_resume_effect [OF sp True, of resume ctx ep] show ?thesis
      by (auto simp: rc_step_def recovery_tick_def Let_def case_prod_beta)
  next
    case False
    with Tick sp show ?thesis by (simp add: rc_step_def recovery_tick_def Let_def case_prod_beta)
  qed
qed

lemma spaced_run:
  assumes "spaced t0 clock s" "t0 \<le> clock" "sorted (clock # map rc_time es)"
  shows "sorted_wrt (\<lambda>a b. a + from_secs 15 \<le> b) (relaunch_times s es)
    \<and> (\<forall>t \<in> set (relaunch_times s es). t0 + from_secs 15 \<le> t)"
  using assms
proof (induction es arbitrary: t0 clock s)
  case (Cons e es)
  have e: "clock \<le> rc_time e" "sorted (rc_time e # map rc_time es)" using Cons.prems(3) by auto
  from spaced_step [OF Cons.prems(1) e(1) Cons.prems(2)] show ?case
  proof (elim disjE conjE)
    assume "relaunches (fst (rc_apply s e)) = 0" "spaced t0 (rc_time e) (rc_step s e)"
    with Cons.IH [OF this(2) _ e(2)] Cons.prems(2) e(1) show ?case by simp
  next
    assume one: "relaunches (fst (rc_apply s e)) = 1" "t0 + from_secs 15 \<le> rc_time e"
      and "spaced (rc_time e) (rc_time e) (rc_step s e)"
    from Cons.IH [OF this(3) order_refl e(2)] one show ?case by auto
  qed
qed simp

text \<open>
  The plugin cannot hammer the host: with a monotonic clock, any two relaunch requests for one pane are at
  least 15 seconds apart, whatever the wall clock, the adapter and the host report in between, and the
  first comes at least 15 seconds after the run began.
\<close>

theorem relaunch_spacing:
  assumes "sorted (t0 # map rc_time es)"
  shows "sorted_wrt (\<lambda>a b. a + from_secs 15 \<le> b) (relaunch_times (recovery_new token gen) es)
    \<and> (\<forall>t \<in> set (relaunch_times (recovery_new token gen) es). t0 + from_secs 15 \<le> t)"
proof (rule spaced_run [OF _ order_refl assms])
  show "spaced t0 t0 (recovery_new token gen)"
    using rc_inv_new by (simp add: spaced_def) (simp add: recovery_new_def)
qed

lemma check_safe_arg:
  assumes "arg \<noteq> []" "str_len arg \<le> 256" "list_all is_safe_arg_char arg"
  shows "check_arg allowed i arg \<in> {None, Some (ArgNotAllowed arg)}"
  using assms by (auto simp: check_arg_def MAX_RESUME_ARG_LEN_def)

lemma append_safe_args:
  "list_all (\<lambda>a. a \<noteq> [] \<and> str_len a \<le> 256 \<and> list_all is_safe_arg_char a) args \<Longrightarrow>
   (\<exists>line'. append_args allowed i line args = Inr line')
   \<or> (\<exists>a \<in> set args. a \<notin> set allowed \<and> append_args allowed i line args = Inl (ArgNotAllowed a))"
proof (induction args arbitrary: i line)
  case (Cons a args)
  then have "check_arg allowed i a \<in> {None, Some (ArgNotAllowed a)}" by (intro check_safe_arg) auto
  then show ?case
  proof (elim insertE)
    assume "check_arg allowed i a = None"
    with Cons show ?case by auto
  next
    assume no: "check_arg allowed i a = Some (ArgNotAllowed a)"
    then have "a \<notin> set allowed" by (auto simp: check_arg_def split: if_splits)
    with no show ?case by auto
  qed simp
qed simp

text \<open>The plugin's own filter is the host's, except for the operator's list, which only the host knows.\<close>

lemma plugin_safe_arg_char_host: "plugin_safe_arg_char = is_safe_arg_char"
  unfolding plugin_safe_arg_char_def [abs_def] is_safe_arg_char_def [abs_def] by (rule refl)

lemma safe_args_host:
  assumes "args_are_safe args"
  shows "(\<exists>line. resume_command_line (Some base) args allowed = Inr line)
    \<or> (\<exists>a \<in> set args. a \<notin> set allowed \<and> resume_command_line (Some base) args allowed = Inl (ArgNotAllowed a))"
proof -
  have safe: "list_all (\<lambda>a. a \<noteq> [] \<and> str_len a \<le> 256 \<and> list_all is_safe_arg_char a) args" "args \<noteq> []" "length args \<le> 6"
    using assms by (simp_all add: args_are_safe_def plugin_safe_arg_char_host PLUGIN_MAX_RESUME_ARGS_def
        PLUGIN_MAX_RESUME_ARG_LEN_def)
  then have "resume_command_line (Some base) args allowed = append_args allowed 0 base args"
    by (simp add: resume_command_line_def MAX_RESUME_ARGS_def)
  with append_safe_args [OF safe(1), of allowed 0 base] show ?thesis by simp
qed

lemma relaunch_member:
  "Relaunch v t g args \<in> set cs \<Longrightarrow> relaunches cs \<noteq> 0"
  by (auto simp: relaunches_def filter_empty_conv intro: bexI [of _ "Relaunch v t g args"])

lemma not_in_goto: "Relaunch v t g args \<notin> set (fst (goto st s))"
  by (auto simp: fst_goto status_def)

lemma try_resume_request:
  assumes "Relaunch v t g args \<in> set (fst (try_resume resume ctx e now s))"
  shows "v = PROTOCOL_VERSION \<and> t = rc_token s \<and> g = rc_generation s \<and> \<not> rc_alive s \<and> ctx_command ctx \<noteq> None
    \<and> args_are_safe args \<and> rc_attempt s < 4
    \<and> (\<exists>limit. rc_limit s = Some limit \<and> resume ctx limit False = Some (RelaunchPlan args))
    \<and> rc_state (snd (try_resume resume ctx e now s)) = Resuming"
proof -
  have no: "Relaunch v t g args \<notin> set (fst (arm_wait_after_failure e now s))"
    "Relaunch v t g args \<notin> set (fst (recovery_cancel s))"
    using relaunch_member [of v t g args] by (fastforce simp: arm_wait_after_failure_def)+
  from assms no show ?thesis
    by (auto simp: try_resume_def relaunch_def spend_attempt_def not_in_goto Let_def case_prod_beta
        MAX_RESUME_ATTEMPTS_def split: option.splits resume_plan.splits if_splits)
qed

lemma tick_wait_keeps [simp]:
  "rc_token (snd (tick_wait e t s)) = rc_token s" "rc_generation (snd (tick_wait e t s)) = rc_generation s"
  "rc_alive (snd (tick_wait e t s)) = rc_alive s" "rc_limit (snd (tick_wait e t s)) = rc_limit s"
  by (simp_all add: tick_wait_def Let_def case_prod_beta arm_wait_after_failure_def arm_backoff_def split: option.split)

text \<open>
  What a relaunch request looks like when it leaves the plugin: it is emitted only by a tick, names the slot and
  generation the machine is at, only after the host said the process is gone, only for a pane with a
  command of its own, within the attempt budget, and with the arguments the adapter offered. On the host's side
  its arguments pass every rule of \<^verbatim>\<open>resume_command_line\<close> except possibly the operator's list of
  approved arguments: the two independent copies of the rule agree.
\<close>

theorem relaunch_request:
  assumes "Relaunch v t g args \<in> set (fst (rc_apply s e))"
  shows "v = PROTOCOL_VERSION \<and> t = rc_token s \<and> g = rc_generation s \<and> \<not> rc_alive s
    \<and> rc_attempt s < MAX_RESUME_ATTEMPTS \<and> rc_state (rc_step s e) = Resuming
    \<and> (\<exists>resume ctx ep now limit. e = Tick resume ctx ep now \<and> ctx_command ctx \<noteq> None
         \<and> rc_limit s = Some limit \<and> resume ctx limit False = Some (RelaunchPlan args))
    \<and> ((\<exists>line. resume_command_line (Some base) args allowed = Inr line)
       \<or> (\<exists>a \<in> set args. a \<notin> set allowed \<and> resume_command_line (Some base) args allowed = Inl (ArgNotAllowed a)))"
proof -
  have some: "relaunches (fst (rc_apply s e)) \<noteq> 0" using assms by (rule relaunch_member)
  then obtain resume ctx ep now where e: "e = Tick resume ctx ep now"
    using relaunches_host [of s] by (cases e) auto
  let ?s = "snd (tick_wait ep now s)"
  have "Relaunch v t g args \<notin> set (fst (tick_wait ep now s))"
    using relaunch_member [of v t g args "fst (tick_wait ep now s)"] by auto
  then have ready: "rc_state ?s = ReadyToResume"
    and req: "Relaunch v t g args \<in> set (fst (try_resume resume ctx ep now ?s))"
    using assms e by (auto simp: recovery_tick_def Let_def case_prod_beta split: if_splits)
  from try_resume_request [OF req] safe_args_host [of args base allowed] ready e show ?thesis
    by (auto simp: rc_step_def recovery_tick_def Let_def case_prod_beta MAX_RESUME_ATTEMPTS_def)
qed

text \<open>
  A pane that was handed back to its human stays handed back: only the human's own input, the pane's
  closing or a new spawn of the slot leaves \<^verbatim>\<open>NeedsAttention\<close>, never the clock and never another limit
  report. And an event about a generation the machine has moved past changes nothing at all.
\<close>

theorem needs_attention_sticky:
  "(rc_state s = NeedsAttention \<and> rc_state (rc_step s e) \<noteq> NeedsAttention \<longrightarrow>
      (\<exists>ev now g. e = HostEvent ev now \<and> ev_generation ev = Some g
         \<and> (rc_generation s < g \<or> rc_generation s \<le> g \<and> human ev)))
   \<and> (\<forall>ev g. ev_generation ev = Some g \<and> g < rc_generation s \<longrightarrow> on_event ev s = (None, s))"
proof (intro conjI allI impI)
  assume s: "rc_state s = NeedsAttention \<and> rc_state (rc_step s e) \<noteq> NeedsAttention"
  show "\<exists>ev now g. e = HostEvent ev now \<and> ev_generation ev = Some g
    \<and> (rc_generation s < g \<or> rc_generation s \<le> g \<and> human ev)"
  proof (cases e)
    case (HostEvent ev now)
    have "rc_state (snd (on_event ev s)) \<noteq> NeedsAttention" using s HostEvent by (simp add: rc_step_def case_prod_beta)
    then obtain g where g: "ev_generation ev = Some g" "\<not> g < rc_generation s"
      using s by (auto simp: on_event_def split: option.splits if_splits)
    moreover have "human ev" if "\<not> rc_generation s < g"
      using that s \<open>rc_state (snd (on_event ev s)) \<noteq> NeedsAttention\<close> g
      by (cases ev) (auto simp: on_event_def new_spawn_def Let_def)
    ultimately show ?thesis using HostEvent by (metis not_less)
  next
    case (NoteLimit l ep t)
    with s show ?thesis by (auto simp: rc_step_def note_limit_def)
  next
    case (Tick resume ctx ep t)
    with s show ?thesis by (auto simp: rc_step_def recovery_tick_def tick_wait_def Let_def)
  qed
qed (simp add: on_event_def)

section \<open>Concrete runs\<close>

definition sample_resume :: resume_fn where
  "sample_resume ctx limit alive = map_option (\<lambda>sid. RelaunchPlan [lit ''resume'', sid]) (le_session_id limit)"

definition sample_ctx :: pane_context where
  "sample_ctx = \<lparr>ctx_token = PaneToken [97], ctx_generation = 1, ctx_cwd = lit ''/tmp'', ctx_command = Some (lit ''codex'')\<rparr>"

definition sample_limit :: limit_event where
  "sample_limit = \<lparr>le_session_id = Some (lit ''0a''), le_resets_at = Some 1060, le_detail = lit ''limit''\<rparr>"

definition sample_run :: "rc_event list" where
  "sample_run =
     [NoteLimit sample_limit 1000 0, HostEvent (PaneExited 3 (PaneToken [97]) 1) 5,
      Tick sample_resume sample_ctx 1200 (from_secs 200)]"

lemmas recovery_evals = recovery_new_def rc_step_def note_limit_def goto_def arm_wait_def arm_backoff_def is_same_episode_def
  resets_at_def on_event_def new_spawn_def recovery_tick_def tick_wait_def try_resume_def relaunch_def spend_attempt_def
  args_are_safe_def plugin_safe_arg_char_def PLUGIN_MAX_RESUME_ARGS_def PLUGIN_MAX_RESUME_ARG_LEN_def
  is_ascii_alphanumeric_def str_len_def char_len_def utf8_bytes_def
  MAX_RESUME_ATTEMPTS_def RESUME_CONFIRM_SECS_def sample_resume_def sample_ctx_def sample_limit_def sample_run_def wait_evals

lemma sample_relaunches: "relaunches (rc_outputs (recovery_new (PaneToken [97]) 1) sample_run) = 1"
  by (simp add: recovery_evals status_def relaunches_def)

theorem relaunch_budget_witness:
  "relaunches (rc_outputs (recovery_new (PaneToken [97]) 1) sample_run) = 1
   \<and> relaunches (rc_outputs (recovery_new (PaneToken [97]) 1) sample_run) \<le> 4"
proof -
  have "no_refund (recovery_new (PaneToken [97]) 1) sample_run"
    by (simp add: recovery_evals status_def)
  from relaunch_budget [OF this] sample_relaunches show ?thesis by blast
qed

theorem relaunch_spacing_witness:
  "relaunch_times (recovery_new (PaneToken [97]) 1) sample_run = [from_secs 200]
   \<and> 0 + from_secs 15 \<le> from_secs 200"
proof -
  have times: "relaunch_times (recovery_new (PaneToken [97]) 1) sample_run = [from_secs 200]"
    by (simp add: recovery_evals status_def relaunches_def)
  have "sorted (0 # map rc_time sample_run)" by (simp add: sample_run_def from_secs_def)
  from relaunch_spacing [OF this, of "PaneToken [97]" 1] times show ?thesis by simp
qed

theorem relaunch_request_witness:
  "\<exists>s e args. Relaunch PROTOCOL_VERSION (PaneToken [97]) 1 args \<in> set (fst (rc_apply s e)) \<and> rc_state (rc_step s e) = Resuming"
proof -
  let ?s = "(recovery_new (PaneToken [97]) 1)\<lparr>rc_state := ReadyToResume, rc_limit := Some sample_limit, rc_alive := False\<rparr>"
  let ?e = "Tick sample_resume sample_ctx 1200 (from_secs 200)"
  have "Relaunch PROTOCOL_VERSION (PaneToken [97]) 1 [lit ''resume'', lit ''0a''] \<in> set (fst (rc_apply ?s ?e))"
    by (simp add: recovery_evals status_def)
  with relaunch_request [OF this] show ?thesis by blast
qed

theorem needs_attention_sticky_witness:
  "\<exists>s e. rc_state s = NeedsAttention \<and> rc_state (rc_step s e) = Idle
     \<and> (\<exists>ev now g. e = HostEvent ev now \<and> ev_generation ev = Some g
          \<and> (rc_generation s < g \<or> rc_generation s \<le> g \<and> human ev))"
proof -
  let ?s = "(recovery_new (PaneToken [97]) 1)\<lparr>rc_state := NeedsAttention, rc_limit := Some sample_limit\<rparr>"
  let ?e = "HostEvent (UserInput 3 (PaneToken [97]) 1) 9"
  have a: "rc_state ?s = NeedsAttention" "rc_state (rc_step ?s ?e) = Idle"
    by (simp_all add: recovery_evals recovery_cancel_def)
  then have "rc_state ?s = NeedsAttention \<and> rc_state (rc_step ?s ?e) \<noteq> NeedsAttention" by simp
  with a conjunct1 [OF needs_attention_sticky [of ?s ?e]] show ?thesis by blast
qed

end
