(* ===== verification/Login_Limiter.thy ===== *)
theory Login_Limiter
  imports Contracts
begin

text \<open>
  The login rate limiter of the web servers, \<^verbatim>\<open>RateLimiter\<close> in \<^verbatim>\<open>src/web/common/auth.rs\<close>: a
  queue of at most fourteen attempt times, allowed or not. Password hashing in the same file is
  Argon2, a library, and is not modelled.
\<close>

definition MAX_PER_MINUTE :: nat where
  "MAX_PER_MINUTE = 2"

definition MAX_PER_HOUR :: nat where
  "MAX_PER_HOUR = 14"

definition limiter_new :: "instant list" where
  "limiter_new = []"

definition check_and_record :: "instant list \<Rightarrow> instant \<Rightarrow> bool \<times> instant list" where
  "check_and_record attempts0 now =
     (let attempts = filter (\<lambda>t. now - t < from_secs 3600) attempts0;
          last_minute = length (filter (\<lambda>t. now - t < from_secs 60) attempts);
          allowed = (last_minute < MAX_PER_MINUTE \<and> length attempts < MAX_PER_HOUR);
          attempts = attempts @ [now];
          attempts = (if length attempts > MAX_PER_HOUR then tl attempts else attempts)
      in (allowed, attempts))"

section \<open>The queue stands for the whole history\<close>

definition queue_ok :: "instant list \<Rightarrow> instant \<Rightarrow> bool" where
  "queue_ok q t \<longleftrightarrow> sorted q \<and> (\<forall>u \<in> set q. u \<le> t) \<and> length q \<le> 14"

lemma in_window_prune:
  "w \<le> from_secs 3600 \<Longrightarrow> now \<le> now' \<Longrightarrow>
   in_window w now' (filter (\<lambda>t. now - t < from_secs 3600) q) = in_window w now' q"
proof -
  assume "w \<le> from_secs 3600" "now \<le> now'"
  then have "filter (\<lambda>t. now' - t < w) (filter (\<lambda>t. now - t < from_secs 3600) q) = filter (\<lambda>t. now' - t < w) q"
    by (induction q) auto
  then show ?thesis by (simp only: in_window_def)
qed

lemma in_window_le: "in_window w now q \<le> length q"
  by (simp add: in_window_def)

lemma in_window_all: "\<forall>u \<in> set q. now - u < w \<Longrightarrow> in_window w now q = length q"
  by (simp add: in_window_def)

lemma queue_ok_prune: "queue_ok q now \<Longrightarrow> queue_ok (filter P q) now"
  by (auto simp: queue_ok_def sorted_wrt_filter length_filter_bound)

lemma push_window:
  assumes q: "queue_ok q now" and le: "now \<le> now'"
  defines "q' \<equiv> if length (q @ [now]) > 14 then tl (q @ [now]) else q @ [now]"
  shows "in_window w now' q' = min 14 (in_window w now' q + (if now' - now < w then 1 else 0))"
    and "queue_ok q' now"
proof -
  show "queue_ok q' now"
    using q by (cases q) (auto simp: q'_def queue_ok_def sorted_append)
  show "in_window w now' q' = min 14 (in_window w now' q + (if now' - now < w then 1 else 0))"
  proof (cases "length q = 14")
    case False
    with q have "length q < 14" by (simp add: queue_ok_def)
    then show ?thesis using in_window_le [of w now' q] by (simp add: q'_def)
  next
    case True
    then obtain h r where hr: "q = h # r" "length r = 13" by (cases q) auto
    have q': "q' = r @ [now]" using hr by (simp add: q'_def)
    have h: "\<forall>u \<in> set r. h \<le> u" "h \<le> now" using q hr by (auto simp: queue_ok_def)
    show ?thesis
    proof (cases "now' - h < w")
      case in_w: True
      then have "\<forall>u \<in> set (r @ [now]). now' - u < w" using h by fastforce
      then have "in_window w now' q' = 14" unfolding q' by (subst in_window_all) (simp_all add: hr)
      moreover have "in_window w now' q = 14"
        using \<open>\<forall>u \<in> set (r @ [now]). now' - u < w\<close> in_w unfolding hr by (subst in_window_all) (simp_all add: hr)
      ultimately show ?thesis by simp
    next
      case out: False
      then have "in_window w now' q = in_window w now' r" by (simp add: hr in_window_def)
      then show ?thesis using in_window_le [of w now' r] hr by (simp add: q')
    qed
  qed
qed

lemma record_eq:
  "snd (check_and_record q now) =
     (let r = filter (\<lambda>t. now - t < from_secs 3600) q
      in if length (r @ [now]) > 14 then tl (r @ [now]) else r @ [now])"
  by (simp add: check_and_record_def Let_def MAX_PER_HOUR_def)

lemma record_window:
  assumes "queue_ok q t" "t \<le> now" "now \<le> now'" "w \<le> from_secs 3600"
  shows "in_window w now' (snd (check_and_record q now)) =
      min 14 (in_window w now' q + (if now' - now < w then 1 else 0))"
    and "queue_ok (snd (check_and_record q now)) now"
proof -
  let ?r = "filter (\<lambda>t. now - t < from_secs 3600) q"
  have "queue_ok q now" using assms(1,2) by (auto simp: queue_ok_def)
  then have ok: "queue_ok ?r now" by (rule queue_ok_prune)
  from push_window [OF ok assms(3)] in_window_prune [OF assms(4,3), of q]
  show "in_window w now' (snd (check_and_record q now)) =
      min 14 (in_window w now' q + (if now' - now < w then 1 else 0))"
    "queue_ok (snd (check_and_record q now)) now"
    unfolding record_eq Let_def by simp_all
qed

lemma allowed_eq:
  "fst (check_and_record q now) \<longleftrightarrow>
     in_window (from_secs 60) now q < 2 \<and> in_window (from_secs 3600) now q < 14"
proof -
  have "length (filter (\<lambda>t. now - t < from_secs 60) (filter (\<lambda>t. now - t < from_secs 3600) q)) = in_window (from_secs 60) now q"
    using in_window_prune [of "from_secs 60" now now q] by (simp add: in_window_def from_secs_def)
  then show ?thesis
    by (simp add: check_and_record_def Let_def MAX_PER_MINUTE_def MAX_PER_HOUR_def in_window_def)
qed

definition attempt :: "instant list \<Rightarrow> instant \<Rightarrow> instant list" where
  "attempt q now = snd (check_and_record q now)"

lemma history_window:
  assumes "queue_ok q t" "sorted (t # ts)" "w \<le> from_secs 3600" "last (t # ts) \<le> now"
    and "in_window w now q = min 14 (in_window w now h)"
  shows "in_window w now (run attempt q ts) = min 14 (in_window w now (h @ ts)) \<and> queue_ok (run attempt q ts) (last (t # ts))"
  using assms
proof (induction ts arbitrary: q t h)
  case (Cons u ts)
  have "u \<le> last (u # ts)" using Cons.prems(2) last_in_set [of "u # ts"] by auto
  then have u: "t \<le> u" "sorted (u # ts)" "u \<le> now" using Cons.prems(2,4) by auto
  note rec = record_window [OF Cons.prems(1) u(1) _ Cons.prems(3)]
  have "in_window w now (attempt q u) = min 14 (in_window w now (h @ [u]))"
    using rec(1) [OF u(3)] Cons.prems(5) by (simp add: attempt_def)
  from Cons.IH [OF _ u(2) Cons.prems(3) _ this] rec(2) [OF u(3)] Cons.prems(4) show ?case
    by (simp add: attempt_def)
qed simp

text \<open>
  The fourteen-entry queue decides as the complete history would: after any sequence of attempts, allowed or
  refused, the next one is let through exactly when fewer than two attempts were made in the last minute and fewer
  than fourteen in the last hour. So a flood of refused attempts keeps the door shut, and
  forgetting the older entries loses nothing.
\<close>

theorem login_limiter_exact:
  assumes "sorted (ts @ [now])"
  shows "fst (check_and_record (run attempt limiter_new ts) now) \<longleftrightarrow>
    in_window (from_secs 60) now ts < MAX_PER_MINUTE \<and> in_window (from_secs 3600) now ts < MAX_PER_HOUR"
proof (cases ts)
  case Nil
  then show ?thesis by (simp add: allowed_eq limiter_new_def MAX_PER_MINUTE_def MAX_PER_HOUR_def)
next
  case (Cons t us)
  have s: "sorted (t # ts)" "last (t # ts) \<le> now"
    using assms Cons by (auto simp: sorted_append)
  have "in_window w now (run attempt limiter_new ts) = min 14 (in_window w now ts)" if "w \<le> from_secs 3600" for w
    using history_window [of "[]" t ts w now "[]"] s that by (simp add: limiter_new_def queue_ok_def)
  from this [of "from_secs 60"] this [of "from_secs 3600"] show ?thesis
    by (auto simp: allowed_eq MAX_PER_MINUTE_def MAX_PER_HOUR_def from_secs_def)
qed

theorem login_limiter_exact_witness:
  "fst (check_and_record (run attempt limiter_new [from_secs 1, from_secs 2, from_secs 30]) (from_secs 50)) = False
   \<and> fst (check_and_record (run attempt limiter_new [from_secs 1, from_secs 2, from_secs 30]) (from_secs 80)) = True"
  using login_limiter_exact [of "[from_secs 1, from_secs 2, from_secs 30]" "from_secs 50"]
    login_limiter_exact [of "[from_secs 1, from_secs 2, from_secs 30]" "from_secs 80"]
  by (simp add: in_window_def from_secs_def MAX_PER_MINUTE_def MAX_PER_HOUR_def)

section \<open>The bound on guesses\<close>

interpretation per_minute: rate_window check_and_record "\<lambda>q. q" queue_ok "from_secs 60" 2
proof
  show "in_window (from_secs 60) now s < 2" if "fst (check_and_record s now)" for s now
    using that by (simp add: allowed_eq)
  show "queue_ok (snd (check_and_record s now)) now" if "queue_ok s t" "t \<le> now" for s t now
    using record_window(2) [OF that order_refl order_refl] .
  show "min 2 (in_window (from_secs 60) now' s + (if fst (check_and_record s now) \<and> now' - now < from_secs 60 then 1 else 0))
      \<le> in_window (from_secs 60) now' (snd (check_and_record s now))"
    if "queue_ok s t" "t \<le> now" "now \<le> now'" for s t now now'
    using record_window(1) [OF that, of "from_secs 60"] by (auto simp: from_secs_def min_def)
qed

interpretation per_hour: rate_window check_and_record "\<lambda>q. q" queue_ok "from_secs 3600" 14
proof
  show "in_window (from_secs 3600) now s < 14" if "fst (check_and_record s now)" for s now
    using that by (simp add: allowed_eq)
  show "queue_ok (snd (check_and_record s now)) now" if "queue_ok s t" "t \<le> now" for s t now
    using record_window(2) [OF that order_refl order_refl] .
  show "min 14 (in_window (from_secs 3600) now' s + (if fst (check_and_record s now) \<and> now' - now < from_secs 3600 then 1 else 0))
      \<le> in_window (from_secs 3600) now' (snd (check_and_record s now))"
    if "queue_ok s t" "t \<le> now" "now \<le> now'" for s t now now'
    using record_window(1) [OF that, of "from_secs 3600"] by (auto simp: min_def)
qed

text \<open>
  Whatever the attempts and their times, no minute holds more than two password guesses that were let through and no
  hour more than fourteen.
\<close>

theorem login_rate_bound:
  assumes "sorted ts"
  shows "in_interval (from_secs 60) start (approvals check_and_record limiter_new ts) \<le> 2
    \<and> in_interval (from_secs 3600) start (approvals check_and_record limiter_new ts) \<le> 14"
proof -
  have "queue_ok limiter_new 0" "sorted (0 # ts)" using assms by (simp_all add: queue_ok_def limiter_new_def)
  from per_minute.rate_bound [OF this] per_hour.rate_bound [OF this] show ?thesis by blast
qed

theorem login_rate_bound_witness:
  "in_interval (from_secs 60) 0 (approvals check_and_record limiter_new [0, 1, 2, 3]) \<le> 2"
  using login_rate_bound [of "[0, 1, 2, 3]" 0] by simp

end
