(* ===== verification/Log_Rotation.thy ===== *)
theory Log_Rotation
  imports Unix_Path Codec Contracts
begin

text \<open>
  The log files: \<^verbatim>\<open>src/platform/logging/rotation.rs\<close>. The log directory is its entries in the order \<^verbatim>\<open>read_dir\<close> gives them, each with
  what is in it and when it was last written (seconds since the epoch; \<open>None\<close> where the metadata cannot be read). What a write does is
  decided outside: how many bytes the file takes, or that it fails, is an argument, one answer for each turn of the loop.
\<close>

record log_file =
  lf_bytes :: "u8 list"
  lf_mtime :: "nat option"

type_synonym log_dir = "(rstring \<times> log_file) list"

definition LOG_FILE_PREFIX :: rstring where
  "LOG_FILE_PREFIX = lit ''nightcrow.log''"

definition LOG_FILE_PREFIX_WITH_SEPARATOR :: rstring where
  "LOG_FILE_PREFIX_WITH_SEPARATOR = lit ''nightcrow.log.''"

text \<open>\<^verbatim>\<open>str::strip_prefix\<close>.\<close>

definition strip_str_prefix :: "rstring \<Rightarrow> rstring \<Rightarrow> rstring option" where
  "strip_str_prefix pre s = (if take (length pre) s = pre then Some (drop (length pre) s) else None)"

section \<open>The sweep\<close>

definition is_nightcrow_log_file :: "rstring \<Rightarrow> bool" where
  "is_nightcrow_log_file path =
     (case file_name path of
        None \<Rightarrow> False
      | Some name \<Rightarrow>
          if name = LOG_FILE_PREFIX then True
          else case strip_str_prefix LOG_FILE_PREFIX_WITH_SEPARATOR name of
                 None \<Rightarrow> False
               | Some rest \<Rightarrow> rest \<noteq> [] \<and> list_all (\<lambda>c. is_digit c \<or> c = 45) rest)"

text \<open>\<^verbatim>\<open>Iterator::max_by_key\<close>: the last of the elements with the greatest key.\<close>

fun max_by_key :: "('a \<Rightarrow> 'k::linorder) \<Rightarrow> 'a list \<Rightarrow> 'a option" where
  "max_by_key key [] = None"
| "max_by_key key (x # xs) =
     (case max_by_key key xs of None \<Rightarrow> Some x | Some y \<Rightarrow> if key x \<le> key y then Some y else Some x)"

definition expired_log_paths :: "(rstring \<times> nat) list \<Rightarrow> nat \<Rightarrow> rstring list" where
  "expired_log_paths candidates cutoff =
     (let indexed = List.enumerate 0 candidates;
          newest_idx = map_option fst (max_by_key (\<lambda>(_, (_, t)). t) indexed)
      in map (\<lambda>(_, (p, _)). p) (filter (\<lambda>(i, (_, t)). Some i \<noteq> newest_idx \<and> t < cutoff) indexed))"

definition cleanup_old_logs :: "nat \<Rightarrow> u32 \<Rightarrow> log_dir \<Rightarrow> log_dir" where
  "cleanup_old_logs now max_days dir =
     (if max_days = 0 then dir
      else let cutoff = now - unat max_days * 86400;
               candidates = List.map_filter (\<lambda>(p, f). if is_nightcrow_log_file p then map_option (\<lambda>t. (p, t)) (lf_mtime f) else None) dir;
               expired = expired_log_paths candidates cutoff
           in filter (\<lambda>(p, _). p \<notin> set expired) dir)"

record time_cleanup =
  tc_max_days :: u32
  tc_period_secs :: nat
  tc_bucket :: nat

definition time_cleanup_new :: "nat \<Rightarrow> u32 \<Rightarrow> nat \<Rightarrow> time_cleanup" where
  "time_cleanup_new now max_days period_secs = \<lparr>tc_max_days = max_days, tc_period_secs = period_secs, tc_bucket = now div period_secs\<rparr>"

definition rotate_if_due :: "nat \<Rightarrow> time_cleanup \<times> log_dir \<Rightarrow> time_cleanup \<times> log_dir" where
  "rotate_if_due now = (\<lambda>(tc, dir).
     let bucket = now div tc_period_secs tc
     in if bucket \<noteq> tc_bucket tc then (tc\<lparr>tc_bucket := bucket\<rparr>, cleanup_old_logs now (tc_max_days tc) dir) else (tc, dir))"

section \<open>Rotation by size\<close>

definition parse_u32 :: "rstring \<Rightarrow> u32 option" where
  "parse_u32 s = (case parse_u64 s of Some n \<Rightarrow> if n < 2 ^ 32 then Some (of_nat n) else None | None \<Rightarrow> None)"

definition latest_size_log_index :: "rstring \<Rightarrow> log_dir \<Rightarrow> u32" where
  "latest_size_log_index pre dir =
     foldl max 0 (List.map_filter (\<lambda>(name, _). Option.bind (strip_str_prefix (pre @ [46]) name) parse_u32) dir)"

text \<open>\<open>sr_open\<close> is the file the appender writes to; it lags behind \<open>sr_index\<close> when the next one could not be opened.\<close>

record size_rolling =
  sr_prefix :: rstring
  sr_max_bytes :: nat
  sr_max_days :: u32
  sr_open :: rstring
  sr_current_size :: nat
  sr_index :: u32

definition log_path :: "rstring \<Rightarrow> u32 \<Rightarrow> rstring" where
  "log_path pre index = pre @ [46] @ dec_str (unat index)"

text \<open>\<^verbatim>\<open>create(true).append(true)\<close>, and a write at the end of a file that is there.\<close>

definition open_append :: "nat \<Rightarrow> rstring \<Rightarrow> log_dir \<Rightarrow> log_dir" where
  "open_append now name dir = (if name \<in> fst ` set dir then dir else dir @ [(name, \<lparr>lf_bytes = [], lf_mtime = Some now\<rparr>)])"

definition append_bytes :: "nat \<Rightarrow> rstring \<Rightarrow> u8 list \<Rightarrow> log_dir \<Rightarrow> log_dir" where
  "append_bytes now name bs dir =
     map (\<lambda>(p, f). if p = name then (p, f\<lparr>lf_bytes := lf_bytes f @ bs, lf_mtime := Some now\<rparr>) else (p, f)) dir"

definition bytes_of :: "rstring \<Rightarrow> log_dir \<Rightarrow> u8 list" where
  "bytes_of name dir = (case map_of dir name of Some f \<Rightarrow> lf_bytes f | None \<Rightarrow> [])"

definition size_rolling_new :: "nat \<Rightarrow> bool \<Rightarrow> rstring \<Rightarrow> nat \<Rightarrow> u32 \<Rightarrow> log_dir \<Rightarrow> (size_rolling \<times> log_dir) option" where
  "size_rolling_new now opens pre max_bytes max_days dir =
     (let index = latest_size_log_index pre dir; path = log_path pre index
      in if \<not> opens then None
         else let dir = open_append now path dir
              in Some (\<lparr>sr_prefix = pre, sr_max_bytes = max_bytes, sr_max_days = max_days, sr_open = path,
                        sr_current_size = length (bytes_of path dir), sr_index = index\<rparr>, dir))"

datatype io_answer = Takes nat | FailsToOpen | FailsToWrite

datatype log_error = LogOpenFailed | LogWriteFailed | WriteZero

text \<open>
  One turn of the loop: \<open>Inl\<close> leaves \<^verbatim>\<open>write\<close>, \<open>Inr n\<close> is what the file took, never more than it was offered.
\<close>

definition write_turn :: "nat \<Rightarrow> io_answer \<Rightarrow> u8 list \<Rightarrow> size_rolling \<times> log_dir \<times> bool \<Rightarrow> (log_error + nat) \<times> size_rolling \<times> log_dir \<times> bool" where
  "write_turn now io remaining = (\<lambda>(s, dir, rotated).
     let due = (sr_max_bytes s > 0 \<and> sr_current_size s + length remaining > sr_max_bytes s)
     in if due \<and> io = FailsToOpen then (Inl LogOpenFailed, s\<lparr>sr_index := sr_index s + 1\<rparr>, dir, rotated)
        else
          let (s, dir, rotated) =
                (if due then
                   let index = sr_index s + 1; path = log_path (sr_prefix s) index
                   in (s\<lparr>sr_index := index, sr_open := path, sr_current_size := 0\<rparr>, open_append now path dir, True)
                 else (s, dir, rotated))
          in case io of
               Takes k \<Rightarrow>
                 let n = min k (length remaining)
                 in (Inr n, s\<lparr>sr_current_size := sr_current_size s + n\<rparr>,
                     if n = 0 then dir else append_bytes now (sr_open s) (take n remaining) dir, rotated)
             | _ \<Rightarrow> (Inl LogWriteFailed, s, dir, rotated))"

fun write_loop :: "nat \<Rightarrow> (nat \<Rightarrow> io_answer) \<Rightarrow> nat \<Rightarrow> nat \<Rightarrow> u8 list \<Rightarrow> size_rolling \<times> log_dir \<times> bool
    \<Rightarrow> (log_error + nat) \<times> size_rolling \<times> log_dir \<times> bool" where
  "write_loop now io k total_written remaining st =
     (if remaining = [] then (Inr total_written, st)
      else case write_turn now (io k) remaining st of
             (Inl e, st) \<Rightarrow> (Inl e, st)
           | (Inr n, st) \<Rightarrow>
               if n = 0 then (Inl WriteZero, st)
               else write_loop now io (k + 1) (total_written + n) (drop n remaining) st)"

declare write_loop.simps [simp del]

definition write_log :: "nat \<Rightarrow> (nat \<Rightarrow> io_answer) \<Rightarrow> u8 list \<Rightarrow> size_rolling \<times> log_dir \<Rightarrow> (log_error + nat) \<times> size_rolling \<times> log_dir" where
  "write_log now io buf = (\<lambda>(s, dir).
     case write_loop now io 0 0 buf (s, dir, False) of
       (Inl e, s, dir, _) \<Rightarrow> (Inl e, s, dir)
     | (Inr total_written, s, dir, rotated) \<Rightarrow>
         (Inr total_written, s, if rotated then cleanup_old_logs now (sr_max_days s) dir else dir))"

section \<open>No byte is lost\<close>

text \<open>The text of the log: the files of the prefix in the order of their indices, up to the present one.\<close>

definition numbered :: "rstring \<Rightarrow> nat \<Rightarrow> rstring" where
  "numbered pre i = pre @ [46] @ dec_str i"

definition log_text :: "size_rolling \<Rightarrow> log_dir \<Rightarrow> u8 list" where
  "log_text s dir = concat (map (\<lambda>i. bytes_of (numbered (sr_prefix s) i) dir) [0..<Suc (unat (sr_index s))])"

definition rolling_inv :: "size_rolling \<Rightarrow> log_dir \<Rightarrow> bool" where
  "rolling_inv s dir \<longleftrightarrow> distinct (map fst dir) \<and> sr_current_size s = length (bytes_of (sr_open s) dir)
     \<and> (\<exists>n \<le> unat (sr_index s). sr_open s = numbered (sr_prefix s) n \<and> sr_open s \<in> fst ` set dir
          \<and> (\<forall>j > n. numbered (sr_prefix s) j \<notin> fst ` set dir \<or> 2 ^ 32 \<le> j))"

lemma numbered_inj [simp]: "numbered pre i = numbered pre j \<longleftrightarrow> i = j"
  by (auto simp: numbered_def dest: dec_str_inj)

lemma log_path_numbered: "log_path pre w = numbered pre (unat w)"
  by (simp add: log_path_def numbered_def)

lemma append_names [simp]: "map fst (append_bytes now name bs dir) = map fst dir"
  by (induction dir) (auto simp: append_bytes_def)

lemma append_names_set [simp]: "fst ` set (append_bytes now name bs dir) = fst ` set dir"
  using append_names [of now name bs dir] by (metis list.set_map)

lemma map_of_append_bytes:
  "map_of (append_bytes now name bs dir) q =
     map_option (\<lambda>f. if q = name then f\<lparr>lf_bytes := lf_bytes f @ bs, lf_mtime := Some now\<rparr> else f) (map_of dir q)"
  by (induction dir) (auto simp: append_bytes_def)

lemma map_of_absent: "q \<notin> fst ` set dir \<Longrightarrow> map_of dir q = None"
  by (simp add: map_of_eq_None_iff)

lemma bytes_append: "name \<in> fst ` set dir \<Longrightarrow> bytes_of q (append_bytes now name bs dir) = (if q = name then bytes_of q dir @ bs else bytes_of q dir)"
  using map_of_eq_None_iff [of dir name] by (auto simp: bytes_of_def map_of_append_bytes split: option.split)

lemma bytes_open: "bytes_of q (open_append now name dir) = bytes_of q dir"
proof (cases "name \<in> fst ` set dir")
  case False
  then show ?thesis using map_of_absent [OF False]
    by (cases "map_of dir q") (auto simp: open_append_def bytes_of_def map_add_def)
qed (simp add: open_append_def)

lemma bytes_absent: "q \<notin> fst ` set dir \<Longrightarrow> bytes_of q dir = []"
  by (simp add: bytes_of_def map_of_absent)

lemma names_open: "fst ` set (open_append now name dir) = insert name (fst ` set dir)"
  by (auto simp: open_append_def)

lemma distinct_open: "distinct (map fst dir) \<Longrightarrow> distinct (map fst (open_append now name dir))"
  by (auto simp: open_append_def)

lemma concat_update:
  assumes "n < m" "\<And>i. i < n \<Longrightarrow> g i = f i" "g n = f n @ bs" "\<And>i. n < i \<Longrightarrow> i < m \<Longrightarrow> g i = [] \<and> f i = []"
  shows "concat (map g [0..<m]) = concat (map f [0..<m]) @ bs"
proof -
  have "[0..<m] = [0..<n] @ [n..<m]" using assms(1) upt_add_eq_append [of 0 n "m - n"] by simp
  then have split: "[0..<m] = [0..<n] @ n # [Suc n..<m]" using assms(1) by (simp add: upt_conv_Cons)
  have a: "map g [0..<n] = map f [0..<n]" using assms(2) by simp
  have e: "concat (map g [Suc n..<m]) = []" "concat (map f [Suc n..<m]) = []" using assms(4) by auto
  show ?thesis by (simp only: split map_append concat_append list.map concat.simps a e assms(3) append_assoc append_Nil append_Nil2)
qed

lemma unat_suc: "unat (w :: u32) + 1 < 2 ^ 32 \<Longrightarrow> unat (w + 1) = unat w + 1"
  by (simp add: unat_word_ariths)

lemma rotate_text:
  assumes inv: "rolling_inv s dir" and room: "unat (sr_index s) + 1 < 2 ^ 32"
  shows "rolling_inv (s\<lparr>sr_index := sr_index s + 1, sr_open := log_path (sr_prefix s) (sr_index s + 1), sr_current_size := 0\<rparr>)
      (open_append now (log_path (sr_prefix s) (sr_index s + 1)) dir)"
    and "log_text (s\<lparr>sr_index := sr_index s + 1, sr_open := p, sr_current_size := c\<rparr>) (open_append now q dir) = log_text s dir"
    and "rolling_inv (s\<lparr>sr_index := sr_index s + 1\<rparr>) dir" "log_text (s\<lparr>sr_index := sr_index s + 1\<rparr>) dir = log_text s dir"
    and "bytes_of (log_path (sr_prefix s) (sr_index s + 1)) dir = []"
proof -
  let ?p = "sr_prefix s" and ?i = "unat (sr_index s)"
  obtain n where n: "n \<le> ?i" "sr_open s = numbered ?p n" "sr_open s \<in> fst ` set dir" "\<And>j. n < j \<Longrightarrow> j < 2 ^ 32 \<Longrightarrow> numbered ?p j \<notin> fst ` set dir"
    using inv unfolding rolling_inv_def by (metis not_le)
  have suc: "unat (sr_index s + 1) = Suc ?i" using unat_suc [OF room] by simp
  have fresh: "numbered ?p (Suc ?i) \<notin> fst ` set dir" using n(4) [of "Suc ?i"] n(1) room by simp
  show "rolling_inv (s\<lparr>sr_index := sr_index s + 1, sr_open := log_path ?p (sr_index s + 1), sr_current_size := 0\<rparr>) (open_append now (log_path ?p (sr_index s + 1)) dir)"
    using inv n fresh unfolding rolling_inv_def
    by (auto simp: log_path_numbered suc distinct_open bytes_open bytes_absent names_open intro!: exI [of _ "Suc ?i"])
  show "log_text (s\<lparr>sr_index := sr_index s + 1, sr_open := p, sr_current_size := c\<rparr>) (open_append now q dir) = log_text s dir"
    "log_text (s\<lparr>sr_index := sr_index s + 1\<rparr>) dir = log_text s dir"
    using bytes_absent [OF fresh] by (simp_all add: log_text_def suc bytes_open)
  show "rolling_inv (s\<lparr>sr_index := sr_index s + 1\<rparr>) dir" using inv n unfolding rolling_inv_def by (auto simp: suc intro!: exI [of _ n])
  show "bytes_of (log_path ?p (sr_index s + 1)) dir = []" using bytes_absent [OF fresh] by (simp add: log_path_numbered suc)
qed

lemma append_text:
  assumes inv: "rolling_inv s dir"
  shows "rolling_inv (s\<lparr>sr_current_size := sr_current_size s + length bs\<rparr>) (append_bytes now (sr_open s) bs dir)"
    and "log_text (s\<lparr>sr_current_size := c\<rparr>) (append_bytes now (sr_open s) bs dir) = log_text s dir @ bs"
proof -
  let ?p = "sr_prefix s" and ?i = "unat (sr_index s)"
  obtain n where n: "n \<le> ?i" "sr_open s = numbered ?p n" "sr_open s \<in> fst ` set dir" "\<And>j. n < j \<Longrightarrow> j < 2 ^ 32 \<Longrightarrow> numbered ?p j \<notin> fst ` set dir"
    using inv unfolding rolling_inv_def by (metis not_le)
  show "rolling_inv (s\<lparr>sr_current_size := sr_current_size s + length bs\<rparr>) (append_bytes now (sr_open s) bs dir)"
    using inv bytes_append [OF n(3), of "sr_open s" now bs] unfolding rolling_inv_def by simp
  have lt: "?i < 2 ^ 32" using unsigned_less [of "sr_index s"] by simp
  show "log_text (s\<lparr>sr_current_size := c\<rparr>) (append_bytes now (sr_open s) bs dir) = log_text s dir @ bs"
    unfolding log_text_def using n lt by (simp del: upt_Suc, intro concat_update [of n]) (auto simp: bytes_append bytes_absent)
qed

definition sized :: "nat \<Rightarrow> log_dir \<Rightarrow> bool" where
  "sized b dir \<longleftrightarrow> (\<forall>q. length (bytes_of q dir) \<le> b)"

definition written_at :: "nat \<Rightarrow> rstring \<Rightarrow> log_dir \<Rightarrow> bool" where
  "written_at now name dir \<longleftrightarrow> Option.bind (map_of dir name) lf_mtime = Some now"

lemma written_append: "name \<in> fst ` set dir \<Longrightarrow> written_at now name (append_bytes now name bs dir)"
  using map_of_eq_None_iff [of dir name] by (cases "map_of dir name") (auto simp: written_at_def map_of_append_bytes)

lemma open_in: "rolling_inv s dir \<Longrightarrow> sr_open s \<in> fst ` set dir"
  unfolding rolling_inv_def by metis

lemma current_size: "rolling_inv s dir \<Longrightarrow> sr_current_size s = length (bytes_of (sr_open s) dir)"
  by (simp add: rolling_inv_def)

text \<open>A write of the file that is open, of what fits it or of anything when it is empty.\<close>

lemma take_turn:
  assumes inv: "rolling_inv s dir" and b: "sr_max_bytes s = 0 \<or> sized b dir \<and> (sr_current_size s + length remaining \<le> b)"
    and r: "write_turn now io remaining (s, dir, rotated) = (r, s', dir', rotated')" and no: "\<not> (sr_max_bytes s > 0 \<and> sr_current_size s + length remaining > sr_max_bytes s)"
  shows "rolling_inv s' dir' \<and> sr_prefix s' = sr_prefix s \<and> sr_max_bytes s' = sr_max_bytes s \<and> sr_max_days s' = sr_max_days s \<and> sr_index s' = sr_index s
    \<and> (case r of Inl _ \<Rightarrow> log_text s' dir' = log_text s dir
       | Inr n \<Rightarrow> n \<le> length remaining \<and> log_text s' dir' = log_text s dir @ take n remaining \<and> (n = 0 \<or> written_at now (sr_open s') dir'))
    \<and> (sr_max_bytes s = 0 \<or> sized b dir')"
proof (cases io)
  case (Takes k)
  let ?n = "min k (length remaining)"
  have eq: "r = Inr ?n" "s' = s\<lparr>sr_current_size := sr_current_size s + ?n\<rparr>" "dir' = (if ?n = 0 then dir else append_bytes now (sr_open s) (take ?n remaining) dir)"
    using r no by (auto simp: write_turn_def Takes Let_def split: if_splits)
  show ?thesis
  proof (cases "?n = 0")
    case True
    then show ?thesis using eq inv b by auto
  next
    case False
    have len: "length (take ?n remaining) = ?n" by simp
    have "sized b dir'" if "sr_max_bytes s \<noteq> 0"
      using b that False current_size [OF inv] bytes_append [OF open_in [OF inv]] unfolding sized_def eq by auto
    then show ?thesis
      using eq False append_text [OF inv, where bs = "take ?n remaining" and now = now] written_append [OF open_in [OF inv], of now "take ?n remaining"] len by auto
  qed
qed (use r no inv b in \<open>auto simp: write_turn_def Let_def split: if_splits\<close>)

lemma write_turn_spec:
  assumes inv: "rolling_inv s dir" and room: "unat (sr_index s) + 1 < 2 ^ 32"
    and b: "sr_max_bytes s = 0 \<or> sized b dir \<and> sr_max_bytes s \<le> b \<and> length remaining \<le> b"
    and r: "write_turn now io remaining (s, dir, rotated) = (r, s', dir', rotated')"
  shows "rolling_inv s' dir' \<and> sr_prefix s' = sr_prefix s \<and> sr_max_bytes s' = sr_max_bytes s \<and> sr_max_days s' = sr_max_days s
    \<and> unat (sr_index s') \<le> unat (sr_index s) + 1
    \<and> (case r of Inl _ \<Rightarrow> log_text s' dir' = log_text s dir
       | Inr n \<Rightarrow> n \<le> length remaining \<and> log_text s' dir' = log_text s dir @ take n remaining \<and> (n = 0 \<or> written_at now (sr_open s') dir'))
    \<and> (sr_max_bytes s = 0 \<or> sized b dir')"
proof (cases "sr_max_bytes s > 0 \<and> sr_current_size s + length remaining > sr_max_bytes s")
  case no: False
  have "sr_max_bytes s = 0 \<or> sized b dir \<and> (sr_current_size s + length remaining \<le> b)" using b no by auto
  from take_turn [OF inv this r no] show ?thesis by auto
next
  case due: True
  note rot = rotate_text [OF inv room]
  have suc: "unat (sr_index s + 1) = unat (sr_index s) + 1" by (rule unat_suc [OF room])
  let ?path = "log_path (sr_prefix s) (sr_index s + 1)"
  let ?s = "s\<lparr>sr_index := sr_index s + 1, sr_open := ?path, sr_current_size := 0\<rparr>" and ?dir = "open_append now ?path dir"
  have sized: "sized b ?dir" using b due by (simp add: sized_def bytes_open)
  show ?thesis
  proof (cases io)
    case FailsToOpen
    then have "s' = s\<lparr>sr_index := sr_index s + 1\<rparr>" "dir' = dir" "r = Inl LogOpenFailed" using due r by (auto simp: write_turn_def)
    then show ?thesis using rot(3,4) b suc due by simp
  next
    case FailsToWrite
    then have "s' = ?s" "dir' = ?dir" "r = Inl LogWriteFailed" using due r by (auto simp: write_turn_def Let_def)
    then show ?thesis using rot(1) rot(2) [where p = ?path and c = 0 and now = now and q = ?path] sized suc by simp
  next
    case (Takes k)
    let ?n = "min k (length remaining)"
    have eq: "r = Inr ?n" "s' = ?s\<lparr>sr_current_size := sr_current_size ?s + ?n\<rparr>" "dir' = (if ?n = 0 then ?dir else append_bytes now (sr_open ?s) (take ?n remaining) ?dir)"
      using due r by (auto simp: write_turn_def Takes Let_def split: if_splits)
    have kept: "log_text ?s ?dir = log_text s dir" by (rule rot(2))
    show ?thesis
    proof (cases "?n = 0")
      case True
      then show ?thesis using eq rot(1) kept sized suc by simp
    next
      case False
      have len: "length (take ?n remaining) = ?n" by simp
      have empty: "bytes_of ?path ?dir = []" using rot(5) by (simp add: bytes_open)
      have "sized b dir'" using sized b due False empty bytes_append [OF open_in [OF rot(1)]] unfolding sized_def eq by auto
      then show ?thesis
        using eq False append_text [OF rot(1), where bs = "take ?n remaining" and now = now] written_append [OF open_in [OF rot(1)], of now "take ?n remaining"] len kept suc
        by simp
    qed
  qed
qed

lemma write_loop_spec:
  assumes "rolling_inv s dir" "unat (sr_index s) + length remaining < 2 ^ 32"
    and "sr_max_bytes s = 0 \<or> sized b dir \<and> sr_max_bytes s \<le> b \<and> length remaining \<le> b"
    and "write_loop now io k total_written remaining (s, dir, rotated) = (r, s', dir', rotated')"
  shows "rolling_inv s' dir' \<and> sr_prefix s' = sr_prefix s \<and> sr_max_bytes s' = sr_max_bytes s \<and> sr_max_days s' = sr_max_days s
    \<and> (\<exists>m \<le> length remaining. log_text s' dir' = log_text s dir @ take m remaining
         \<and> (case r of Inl _ \<Rightarrow> True | Inr n \<Rightarrow> n = total_written + length remaining \<and> m = length remaining
              \<and> (remaining = [] \<or> written_at now (sr_open s') dir')))
    \<and> (sr_max_bytes s = 0 \<or> sized b dir')"
  using assms
proof (induction "length remaining" arbitrary: k total_written remaining s dir rotated rule: less_induct)
  case less
  show ?case
  proof (cases "remaining = []")
    case True
    then show ?thesis using less.prems by (auto simp: write_loop.simps)
  next
    case False
    obtain r1 s1 dir1 rot1 where t: "write_turn now (io k) remaining (s, dir, rotated) = (r1, s1, dir1, rot1)" by (metis prod_cases4)
    have room: "unat (sr_index s) + 1 < 2 ^ 32" using less.prems(2) False by (cases remaining) auto
    note T = write_turn_spec [OF less.prems(1) room less.prems(3) t]
    show ?thesis
    proof (cases r1)
      case (Inl e)
      then show ?thesis using T t False less.prems(4) by (subst (asm) write_loop.simps) (auto intro!: exI [of _ 0])
    next
      case (Inr n)
      have n: "n \<le> length remaining" "log_text s1 dir1 = log_text s dir @ take n remaining" "n = 0 \<or> written_at now (sr_open s1) dir1"
        using T Inr by auto
      show ?thesis
      proof (cases "n = 0")
        case True
        then show ?thesis using T t Inr False less.prems(4) by (subst (asm) write_loop.simps) (auto intro!: exI [of _ 0])
      next
        case False
        have l: "write_loop now io (k + 1) (total_written + n) (drop n remaining) (s1, dir1, rot1) = (r, s', dir', rotated')"
          using less.prems(4) t Inr False \<open>remaining \<noteq> []\<close> by (subst (asm) write_loop.simps) simp
        have lt: "length (drop n remaining) < length remaining" using False n(1) \<open>remaining \<noteq> []\<close> by (cases remaining) auto
        have p: "sr_prefix s1 = sr_prefix s" "sr_max_bytes s1 = sr_max_bytes s" "sr_max_days s1 = sr_max_days s" "rolling_inv s1 dir1" using T by auto
        have room1: "unat (sr_index s1) + length (drop n remaining) < 2 ^ 32" using T less.prems(2) False n(1) by auto
        have b1: "sr_max_bytes s1 = 0 \<or> sized b dir1 \<and> sr_max_bytes s1 \<le> b \<and> length (drop n remaining) \<le> b"
          using T less.prems(3) p by auto
        from less.hyps [OF lt p(4) room1 b1 l] obtain m where R: "rolling_inv s' dir'" "sr_prefix s' = sr_prefix s1" "sr_max_bytes s' = sr_max_bytes s1"
            "sr_max_days s' = sr_max_days s1" "sr_max_bytes s1 = 0 \<or> sized b dir'" "m \<le> length (drop n remaining)"
            "log_text s' dir' = log_text s1 dir1 @ take m (drop n remaining)"
            "case r of Inl _ \<Rightarrow> True | Inr q \<Rightarrow> q = total_written + n + length (drop n remaining) \<and> m = length (drop n remaining)
               \<and> (drop n remaining = [] \<or> written_at now (sr_open s') dir')"
          by blast
        have "written_at now (sr_open s') dir'" if "r = Inr q" "drop n remaining = []" for q
          using that l n(3) False by (simp add: write_loop.simps)
        then show ?thesis
          using R p n(1,2) by (intro conjI exI [of _ "n + m"]) (auto simp: take_add split: sum.splits)
      qed
    qed
  qed
qed

section \<open>The sweep keeps what is live\<close>

lemma expired_old: "p \<in> set (expired_log_paths cs cutoff) \<Longrightarrow> \<exists>t. (p, t) \<in> set cs \<and> t < cutoff"
  by (auto simp: expired_log_paths_def Let_def in_set_enumerate_eq) (metis nth_mem)

lemma bytes_filter: "P q \<Longrightarrow> bytes_of q (filter (\<lambda>(p, _). P p) dir) = bytes_of q dir"
  by (induction dir) (auto simp: bytes_of_def)

text \<open>What a sweep may take away.\<close>

definition stale_log :: "nat \<Rightarrow> u32 \<Rightarrow> rstring \<times> log_file \<Rightarrow> bool" where
  "stale_log now max_days = (\<lambda>(p, f). is_nightcrow_log_file p \<and> (case lf_mtime f of Some t \<Rightarrow> t < now - unat max_days * 86400 | None \<Rightarrow> False))"

lemma cleanup_shape:
  assumes "distinct (map fst dir)"
  obtains gone where "cleanup_old_logs now days dir = filter (\<lambda>(p, _). p \<notin> gone) dir" "\<And>e. e \<in> set dir \<Longrightarrow> fst e \<in> gone \<Longrightarrow> stale_log now days e"
proof (cases "days = 0")
  case True
  with that [of "{}"] show ?thesis by (simp add: cleanup_old_logs_def)
next
  case False
  let ?cs = "List.map_filter (\<lambda>(p, f). if is_nightcrow_log_file p then map_option (\<lambda>t. (p, t)) (lf_mtime f) else None) dir"
  let ?gone = "set (expired_log_paths ?cs (now - unat days * 86400))"
  have "stale_log now days e" if e: "e \<in> set dir" "fst e \<in> ?gone" for e
  proof -
    obtain t where t: "(fst e, t) \<in> set ?cs" "t < now - unat days * 86400" using expired_old e(2) by blast
    then obtain f where f: "(fst e, f) \<in> set dir" "is_nightcrow_log_file (fst e)" "lf_mtime f = Some t"
      by (auto simp: in_map_filter split: if_splits)
    then have "f = snd e" using assms e(1) by (metis eq_key_imp_eq_value prod.collapse)
    then show ?thesis using f t(2) by (auto simp: stale_log_def)
  qed
  with that [of ?gone] False show ?thesis by (simp add: cleanup_old_logs_def Let_def)
qed

lemma sweep_keeps:
  assumes d: "distinct (map fst dir)" and w: "written_at now name dir" and le: "now' \<le> now"
  shows "bytes_of name (cleanup_old_logs now' days dir) = bytes_of name dir \<and> name \<in> fst ` set (cleanup_old_logs now' days dir)"
proof -
  obtain gone where g: "cleanup_old_logs now' days dir = filter (\<lambda>(p, _). p \<notin> gone) dir"
      "\<And>e. e \<in> set dir \<Longrightarrow> fst e \<in> gone \<Longrightarrow> stale_log now' days e"
    using cleanup_shape [OF d] by blast
  obtain f where f: "(name, f) \<in> set dir" "lf_mtime f = Some now"
    using w by (auto simp: written_at_def bind_eq_Some_conv dest: map_of_SomeD)
  then have "name \<notin> gone" using g(2) [OF f(1)] le by (auto simp: stale_log_def)
  then show ?thesis using f(1) by (auto simp: g(1) bytes_filter intro!: image_eqI [of _ fst "(name, f)"])
qed

lemma sweep_inv:
  assumes inv: "rolling_inv s dir" and w: "written_at now (sr_open s) dir"
  shows "rolling_inv s (cleanup_old_logs now days dir)"
proof -
  obtain gone where g: "cleanup_old_logs now days dir = filter (\<lambda>(p, _). p \<notin> gone) dir"
    using cleanup_shape [of dir] inv by (metis rolling_inv_def)
  have d: "distinct (map fst dir)" using inv by (simp add: rolling_inv_def)
  have sub: "fst ` set (cleanup_old_logs now days dir) \<subseteq> fst ` set dir" by (auto simp: g)
  have "distinct (map fst (cleanup_old_logs now days dir))" unfolding g using d by (rule distinct_map_filter)
  moreover note sweep_keeps [OF d w order_refl, of days]
  ultimately show ?thesis using inv sub unfolding rolling_inv_def by (auto 4 3)
qed

lemma max_by_key_None: "max_by_key key xs = None \<longleftrightarrow> xs = []"
  by (cases xs) (auto split: option.split)

lemma max_by_key_max: "max_by_key key xs = Some y \<Longrightarrow> y \<in> set xs \<and> (\<forall>x \<in> set xs. key x \<le> key y)"
proof (induction xs arbitrary: y)
  case (Cons x xs)
  show ?case
  proof (cases "max_by_key key xs")
    case None
    then have "xs = []" by (simp add: max_by_key_None)
    with Cons.prems show ?thesis by simp
  next
    case (Some z)
    with Cons.IH [OF Some] Cons.prems show ?thesis by (auto split: if_splits intro: order_trans [OF _ less_imp_le])
  qed
qed simp

text \<open>The newest candidate is never taken, whatever the cutoff.\<close>

lemma newest_stays:
  assumes "distinct (map fst cs)" "cs \<noteq> []"
  obtains p t where "(p, t) \<in> set cs" "\<forall>(q, u) \<in> set cs. u \<le> t" "p \<notin> set (expired_log_paths cs cutoff)"
proof -
  let ?ix = "List.enumerate 0 cs"
  obtain i p t where m: "max_by_key (\<lambda>(_, (_, t)). t) ?ix = Some (i, (p, t))"
  proof (cases "max_by_key (\<lambda>(_, (_, t)). t) ?ix")
    case None
    then have "length ?ix = 0" by (simp only: max_by_key_None list.size)
    with assms(2) show ?thesis by simp
  qed (use that in auto)
  then have mx: "(i, (p, t)) \<in> set ?ix" "\<forall>x \<in> set ?ix. (case x of (_, (_, u)) \<Rightarrow> u \<le> t)" using max_by_key_max [OF m] by auto
  then have i: "i < length cs" "cs ! i = (p, t)" by (auto simp: in_set_enumerate_eq)
  have "u \<le> t" if "(q, u) \<in> set cs" for q u
  proof -
    from that obtain j where "j < length cs" "cs ! j = (q, u)" by (auto simp: in_set_conv_nth)
    then have "(j, (q, u)) \<in> set ?ix" by (simp add: in_set_enumerate_eq)
    with mx(2) show ?thesis by fastforce
  qed
  moreover have "p \<notin> set (expired_log_paths cs cutoff)"
  proof
    assume "p \<in> set (expired_log_paths cs cutoff)"
    then obtain j u where j: "j < length cs" "cs ! j = (p, u)" "j \<noteq> i"
      using m by (auto simp: expired_log_paths_def Let_def in_set_enumerate_eq)
    then have "map fst cs ! j = map fst cs ! i" using i by simp
    moreover have "map fst cs ! j \<noteq> map fst cs ! i" using nth_eq_iff_index_eq [OF assms(1), of j i] i(1) j(1,3) by simp
    ultimately show False by simp
  qed
  moreover have "(p, t) \<in> set cs" using i nth_mem by metis
  ultimately show thesis using that [of p t] by blast
qed

text \<open>Of two files written at the same time it is the later one in the listing that stays.\<close>

lemma tie_keeps_last: "expired_log_paths [([97], 5), ([98], 5)] 9 = [[97]]"
  by (simp add: expired_log_paths_def)

section \<open>Every run\<close>

record log_write =
  lw_now :: nat
  lw_io :: "nat \<Rightarrow> io_answer"
  lw_buf :: "u8 list"

definition log_step :: "size_rolling \<times> log_dir \<Rightarrow> log_write \<Rightarrow> size_rolling \<times> log_dir" where
  "log_step st e = snd (write_log (lw_now e) (lw_io e) (lw_buf e) st)"

definition indices_left :: "size_rolling \<times> log_dir \<Rightarrow> log_write \<Rightarrow> bool" where
  "indices_left = (\<lambda>(s, _) e. unat (sr_index s) + length (lw_buf e) < 2 ^ 32)"

lemma rotated_wrote: "write_loop now io k n [] (s, dir, False) = (r, s', dir', True) \<Longrightarrow> False"
  by (simp add: write_loop.simps)

lemma write_log_inv:
  assumes inv: "rolling_inv s dir" and room: "unat (sr_index s) + length buf < 2 ^ 32"
    and l: "write_loop now io 0 0 buf (s, dir, False) = (r, s1, dir1, rot)"
  shows "rolling_inv s1 dir1 \<and> (case write_log now io buf (s, dir) of (r', s', dir') \<Rightarrow> r' = r \<and> s' = s1 \<and> rolling_inv s' dir'
     \<and> bytes_of (sr_open s') dir' = bytes_of (sr_open s') dir1
     \<and> (\<exists>gone. dir' = filter (\<lambda>(p, _). p \<notin> gone) dir1 \<and> (\<forall>e \<in> set dir1. fst e \<in> gone \<longrightarrow> stale_log now (sr_max_days s) e)))"
proof -
  let ?b = "Max ((\<lambda>(_, f). length (lf_bytes f)) ` set dir \<union> {sr_max_bytes s, length buf})"
  have le: "x \<le> ?b" if "x \<in> (\<lambda>(_, f). length (lf_bytes f)) ` set dir \<union> {sr_max_bytes s, length buf}" for x using that by (intro Max_ge) auto
  have "length (bytes_of q dir) \<le> ?b" for q
    using le by (cases "map_of dir q") (auto simp: bytes_of_def dest!: map_of_SomeD intro!: le)
  then have "sized ?b dir" by (simp add: sized_def)
  then have W: "rolling_inv s1 dir1" "sr_max_days s1 = sr_max_days s" "\<And>n. r = Inr n \<Longrightarrow> buf = [] \<or> written_at now (sr_open s1) dir1"
    using write_loop_spec [OF inv room _ l, of ?b] le by (auto split: sum.splits)
  have d: "distinct (map fst dir1)" using W(1) by (simp add: rolling_inv_def)
  show ?thesis
  proof (cases r)
    case (Inl e)
    then show ?thesis using l W by (auto simp: write_log_def intro!: exI [of _ "{}"])
  next
    case (Inr n)
    show ?thesis
    proof (cases rot)
      case True
      then have w: "written_at now (sr_open s1) dir1" using W(3) [OF Inr] rotated_wrote [of now io 0 0 s dir r s1 dir1] l by (cases "buf = []") auto
      obtain gone where g: "cleanup_old_logs now (sr_max_days s) dir1 = filter (\<lambda>(p, _). p \<notin> gone) dir1"
          "\<And>e. e \<in> set dir1 \<Longrightarrow> fst e \<in> gone \<Longrightarrow> stale_log now (sr_max_days s) e"
        using cleanup_shape [OF d] by blast
      have "write_log now io buf (s, dir) = (r, s1, cleanup_old_logs now (sr_max_days s) dir1)"
        using l Inr True W(2) by (simp add: write_log_def)
      with g W(1) sweep_inv [OF W(1) w, of "sr_max_days s"] sweep_keeps [OF d w order_refl, of "sr_max_days s"] show ?thesis
        by (auto intro!: exI [of _ gone])
    next
      case False
      then show ?thesis using l Inr W by (auto simp: write_log_def intro!: exI [of _ "{}"])
    qed
  qed
qed

interpretation rolling: event_machine indices_left log_step "\<lambda>(s, dir). rolling_inv s dir"
proof
  show "case log_step st e of (s, dir) \<Rightarrow> rolling_inv s dir" if "case st of (s, dir) \<Rightarrow> rolling_inv s dir" "indices_left st e" for st e
  proof -
    obtain s dir where st: "st = (s, dir)" by fastforce
    obtain r s1 dir1 rot where "write_loop (lw_now e) (lw_io e) 0 0 (lw_buf e) (s, dir, False) = (r, s1, dir1, rot)" by (metis prod_cases4)
    from write_log_inv [OF _ _ this] that show ?thesis by (auto simp: st log_step_def indices_left_def split: prod.splits)
  qed
qed

lemma foldl_max: "x \<in> insert a (set xs) \<Longrightarrow> x \<le> foldl max (a :: 'a :: linorder) xs"
proof (induction xs arbitrary: a x)
  case (Cons y ys)
  have "x \<le> max a y \<or> x \<in> set ys" using Cons.prems by auto
  then show ?case
  proof
    assume "x \<le> max a y"
    also have "max a y \<le> foldl max (max a y) ys" by (rule Cons.IH) simp
    finally show ?thesis by simp
  qed (use Cons.IH [of x "max a y"] in simp)
qed simp

lemma latest_index:
  assumes "numbered pre j \<in> fst ` set dir" "j < 2 ^ 32"
  shows "j \<le> unat (latest_size_log_index pre dir)"
proof -
  let ?f = "\<lambda>(name, _). Option.bind (strip_str_prefix (pre @ [46]) name) parse_u32"
  obtain f where f: "(numbered pre j, f) \<in> set dir" using assms(1) by auto
  have "strip_str_prefix (pre @ [46]) (numbered pre j) = Some (dec_str j)"
    by (simp add: strip_str_prefix_def numbered_def)
  moreover have "parse_u32 (dec_str j) = Some (of_nat j)" using assms(2) by (simp add: parse_u32_def parse_dec_str)
  ultimately have "?f (numbered pre j, f) = Some (of_nat j)" by simp
  with f have "of_nat j \<in> set (List.map_filter ?f dir)" unfolding in_map_filter by blast
  then have "(of_nat j :: u32) \<le> latest_size_log_index pre dir" unfolding latest_size_log_index_def by (intro foldl_max) simp
  moreover have "unat (of_nat j :: u32) = j" using assms(2) by (simp add: unsigned_of_nat take_bit_nat_eq_self)
  ultimately show ?thesis by (simp add: word_le_nat_alt)
qed

lemma rolling_new:
  assumes "distinct (map fst dir)" "size_rolling_new now opens pre max_bytes max_days dir = Some (s, dir')"
  shows "rolling_inv s dir'"
proof -
  let ?i = "latest_size_log_index pre dir"
  have s: "s = \<lparr>sr_prefix = pre, sr_max_bytes = max_bytes, sr_max_days = max_days, sr_open = log_path pre ?i,
      sr_current_size = length (bytes_of (log_path pre ?i) dir'), sr_index = ?i\<rparr>" "dir' = open_append now (log_path pre ?i) dir"
    using assms(2) by (auto simp: size_rolling_new_def Let_def split: if_splits)
  have "numbered pre j \<notin> fst ` set dir' \<or> 2 ^ 32 \<le> j" if j: "unat ?i < j" for j
  proof (rule ccontr)
    assume "\<not> ?thesis"
    then have j': "numbered pre j \<in> fst ` set dir'" "j < 2 ^ 32" by auto
    then have "numbered pre j \<in> fst ` set dir" using j by (auto simp: s(2) names_open log_path_numbered)
    from latest_index [OF this j'(2)] j show False by simp
  qed
  moreover have "distinct (map fst dir')" unfolding s(2) using assms(1) by (rule distinct_open)
  moreover have "log_path pre ?i \<in> fst ` set dir'" by (simp add: s(2) names_open)
  ultimately show ?thesis unfolding rolling_inv_def by (auto simp: s(1) log_path_numbered intro!: exI [of _ "unat ?i"])
qed

text \<open>
  \<^bold>\<open>C35\<close>. The log loses nothing it still owes. Whatever was in the directory at the start, whatever the file system answered to every write
  so far, and as long as the indices last: a write of the log puts its bytes at the end of the log, in order and across as many files
  as it takes, all of them when it reports success and a beginning of them when it reports an error; no file grows past the limit
  unless a single record is larger than it; and what the sweep after a rotation removes are nightcrow's own log files last written
  before the cutoff, never the file being written.
\<close>

theorem log_keeps_every_byte:
  assumes "distinct (map fst dir0)" "size_rolling_new now0 True pre max_bytes max_days dir0 = Some st0"
    and "run_ok indices_left log_step st0 es" "run log_step st0 es = (s, dir)" "indices_left (s, dir) \<lparr>lw_now = now, lw_io = io, lw_buf = buf\<rparr>"
    and "sr_max_bytes s = 0 \<or> sized b dir \<and> sr_max_bytes s \<le> b \<and> length buf \<le> b"
  shows "case write_loop now io 0 0 buf (s, dir, False) of (r, s1, dir1, rotated) \<Rightarrow>
      (\<exists>m \<le> length buf. log_text s1 dir1 = log_text s dir @ take m buf \<and> (case r of Inl _ \<Rightarrow> True | Inr n \<Rightarrow> n = length buf \<and> m = n))
      \<and> (if sr_max_bytes s = 0 then True else sized b dir1)
      \<and> (case write_log now io buf (s, dir) of (r', s', dir') \<Rightarrow>
           r' = r \<and> s' = s1 \<and> bytes_of (sr_open s') dir' = bytes_of (sr_open s') dir1
           \<and> (\<exists>gone. dir' = filter (\<lambda>(p, _). p \<notin> gone) dir1 \<and> (\<forall>e \<in> set dir1. fst e \<in> gone \<longrightarrow> stale_log now (sr_max_days s) e)))"
proof -
  obtain s0 dir0' where st0: "st0 = (s0, dir0')" by fastforce
  have "rolling_inv s0 dir0'" using rolling_new [OF assms(1)] assms(2) by (simp add: st0)
  then have inv: "rolling_inv s dir" using rolling.run_inv [of st0 es] assms(3,4) by (simp add: st0)
  have room: "unat (sr_index s) + length buf < 2 ^ 32" using assms(5) by (simp add: indices_left_def)
  obtain r s1 dir1 rot where l: "write_loop now io 0 0 buf (s, dir, False) = (r, s1, dir1, rot)" by (metis prod_cases4)
  have "\<exists>m \<le> length buf. log_text s1 dir1 = log_text s dir @ take m buf \<and> (case r of Inl _ \<Rightarrow> True | Inr n \<Rightarrow> n = length buf \<and> m = n)"
  proof -
    obtain m where m: "m \<le> length buf" "log_text s1 dir1 = log_text s dir @ take m buf"
        "case r of Inl _ \<Rightarrow> True | Inr n \<Rightarrow> n = 0 + length buf \<and> m = length buf \<and> (buf = [] \<or> written_at now (sr_open s1) dir1)"
      using write_loop_spec [OF inv room assms(6) l] by blast
    from m(3) have "case r of Inl _ \<Rightarrow> True | Inr n \<Rightarrow> n = length buf \<and> m = n" by (cases r) simp_all
    with m(1,2) show ?thesis by blast
  qed
  moreover have "sr_max_bytes s = 0 \<or> sized b dir1" using write_loop_spec [OF inv room assms(6) l] by blast
  moreover obtain r' s' dir' where w: "write_log now io buf (s, dir) = (r', s', dir')" by (metis prod_cases3)
  moreover note conjunct2 [OF write_log_inv [OF inv room l], unfolded w prod.case]
  ultimately show ?thesis unfolding l w prod.case by auto
qed

definition sample_log :: "size_rolling \<times> log_dir" where
  "sample_log = the (size_rolling_new 100 True [120] 4 1 [([120, 46, 55], \<lparr>lf_bytes = [1, 2, 3], lf_mtime = Some 9\<rparr>)])"

lemma sample_log_eval:
  "size_rolling_new 100 True [120] 4 1 [([120, 46, 55], \<lparr>lf_bytes = [1, 2, 3], lf_mtime = Some 9\<rparr>)]
     = Some (\<lparr>sr_prefix = [120], sr_max_bytes = 4, sr_max_days = 1, sr_open = [120, 46, 55], sr_current_size = 3, sr_index = 7\<rparr>,
             [([120, 46, 55], \<lparr>lf_bytes = [1, 2, 3], lf_mtime = Some 9\<rparr>)])"
  by (simp add: size_rolling_new_def latest_size_log_index_def strip_str_prefix_def parse_u32_def parse_u64_def is_digit_def digits_value_def
      log_path_def dec_str.simps [of 7] open_append_def bytes_of_def Let_def List.map_filter_def)

theorem log_keeps_every_byte_witness:
  "let (s, dir) = sample_log; io = (\<lambda>_. Takes 1)
   in sized 4 dir \<and> (\<exists>m \<le> 2. case write_loop 100 io 0 0 [4, 5] (s, dir, False) of (r, s1, dir1, _) \<Rightarrow>
        log_text s1 dir1 = log_text s dir @ take m [4, 5])"
proof -
  let ?dir = "[([120, 46, 55], \<lparr>lf_bytes = [1, 2, 3 :: u8], lf_mtime = Some 9\<rparr>)]" and ?io = "\<lambda>_ :: nat. Takes 1"
  let ?s = "\<lparr>sr_prefix = [120], sr_max_bytes = 4, sr_max_days = 1, sr_open = [120, 46, 55], sr_current_size = 3, sr_index = 7\<rparr>"
  have sz: "sized 4 ?dir" by (auto simp: sized_def bytes_of_def)
  have "case write_loop 100 ?io 0 0 [4, 5] (?s, ?dir, False) of (r, s1, dir1, rotated) \<Rightarrow>
      (\<exists>m \<le> length [4, 5 :: u8]. log_text s1 dir1 = log_text ?s ?dir @ take m [4, 5] \<and> (case r of Inl _ \<Rightarrow> True | Inr n \<Rightarrow> n = length [4, 5 :: u8] \<and> m = n))"
    using log_keeps_every_byte [OF _ sample_log_eval, of "[]" ?s ?dir 100 ?io "[4, 5]" 4] sz
    by (auto simp: indices_left_def split: prod.splits)
  with sz show ?thesis by (auto simp: sample_log_def sample_log_eval numeral_2_eq_2 split: prod.splits)
qed

end
