(* ===== verification/Codex_Rollout.thy ===== *)
theory Codex_Rollout
  imports Pane_Recovery Web_Request "HOL-Library.List_Lexorder"
begin

text \<open>
  What the recovery plugin reads of a Codex session: \<^verbatim>\<open>plugins/nightcrow-recovery/src/provider/codex_rollout.rs\<close> (records and
  file names), \<^verbatim>\<open>codex_sessions.rs\<close> (which files could be the pane's) and what both take from \<^verbatim>\<open>provider/mod.rs\<close>.

  \<^item> \<^verbatim>\<open>serde_json\<close> is the parameter \<open>parse\<close>; a value is a \<open>json\<close>. Of a number the code asks whether it is an \<^verbatim>\<open>i64\<close>, so one
    with a fraction is \<open>JFloat\<close>. The keys of an object differ, as in the library's map.
  \<^item> A path below the sessions directory is the list of its names. \<^verbatim>\<open>read_dir\<close> is the parameter \<open>read_dir\<close>, the entries that
    could be read in the order they came, \<open>None\<close> where the directory could not be opened.
\<close>

section \<open>JSON values and reset times\<close>

datatype json =
    JNull | JBool bool | JInt int | JFloat | JString rstring | JArray "json list" | JObject "(rstring \<times> json) list"

fun json_get :: "rstring \<Rightarrow> json \<Rightarrow> json option" where
  "json_get key (JObject kvs) = map_of kvs key"
| "json_get key _ = None"

fun json_str :: "json \<Rightarrow> rstring option" where
  "json_str (JString s) = Some s"
| "json_str _ = None"

fun json_i64 :: "json \<Rightarrow> int option" where
  "json_i64 (JInt n) = (if - (2 ^ 63) \<le> n \<and> n < 2 ^ 63 then Some n else None)"
| "json_i64 _ = None"

definition MAX_RESET_HORIZON_SECS :: int where
  "MAX_RESET_HORIZON_SECS = 8 * 24 * 60 * 60"

definition MIN_PLAUSIBLE_EPOCH_SECS :: int where
  "MIN_PLAUSIBLE_EPOCH_SECS = 1577836800"

definition plausible_reset :: "int \<Rightarrow> int \<Rightarrow> int option" where
  "plausible_reset secs now_epoch =
     (if secs < MIN_PLAUSIBLE_EPOCH_SECS then None
      else if sat64 (now_epoch + MAX_RESET_HORIZON_SECS) < secs then None
      else Some secs)"

fun json_walk :: "rstring list \<Rightarrow> json \<Rightarrow> json option" where
  "json_walk [] node = Some node"
| "json_walk (key # keys) node = Option.bind (json_get key node) (json_walk keys)"

definition reset_epoch_from_json :: "json \<Rightarrow> rstring list \<Rightarrow> int \<Rightarrow> int option" where
  "reset_epoch_from_json payload keys now_epoch =
     Option.bind (json_walk keys payload) (\<lambda>node.
     Option.bind (json_i64 node) (\<lambda>secs. plausible_reset secs now_epoch))"

definition usage :: "rstring option \<Rightarrow> int option \<Rightarrow> rstring \<Rightarrow> limit_event" where
  "usage session_id resets detail = \<lparr>le_session_id = session_id, le_resets_at = resets, le_detail = detail\<rparr>"

lemma usage_simps [simp]:
  "le_session_id (usage i r d) = i" "le_resets_at (usage i r d) = r" "le_detail (usage i r d) = d"
  by (simp_all add: usage_def)

section \<open>Records\<close>

definition MAX_RECORD_BYTES :: nat where
  "MAX_RECORD_BYTES = 64 * 1024"

definition CODEX_MAX_SESSION_ID_BYTES :: nat where
  "CODEX_MAX_SESSION_ID_BYTES = 128"

definition USAGE_LIMIT_ERROR_INFO :: rstring where
  "USAGE_LIMIT_ERROR_INFO = lit ''usage_limit_exceeded''"

definition CODEX_SESSION_ID_KEYS :: "rstring list" where
  "CODEX_SESSION_ID_KEYS = [lit ''id'', lit ''session_id'', lit ''conversation_id'']"

definition RESETS_AT_PATH :: "rstring list" where
  "RESETS_AT_PATH = [lit ''rate_limits'', lit ''primary'', lit ''resets_at'']"

datatype rollout_record = SessionMeta "rstring option" | TokenCount "int option" | UsageLimit

definition id_byte :: "u8 \<Rightarrow> bool" where
  "id_byte b \<longleftrightarrow> is_ascii_alphanumeric (unat b) \<or> b = 45 \<or> b = 95"

definition valid_session_id :: "rstring \<Rightarrow> bool" where
  "valid_session_id s \<longleftrightarrow> s \<noteq> [] \<and> str_len s \<le> CODEX_MAX_SESSION_ID_BYTES \<and> list_all id_byte (str_bytes s)"

definition session_id_from_payload :: "json \<Rightarrow> rstring option" where
  "session_id_from_payload payload =
     find valid_session_id (List.map_filter (\<lambda>key. Option.bind (json_get key payload) json_str) CODEX_SESSION_ID_KEYS)"

definition classify_line :: "(rstring \<Rightarrow> json option) \<Rightarrow> rstring \<Rightarrow> int \<Rightarrow> rollout_record option" where
  "classify_line parse line now_epoch =
     (if MAX_RECORD_BYTES < str_len line then None
      else
        Option.bind (parse (str_trim line)) (\<lambda>v.
        Option.bind (Option.bind (json_get (lit ''type'') v) json_str) (\<lambda>tag.
          if tag = lit ''session_meta'' then
            Some (SessionMeta (Option.bind (json_get (lit ''payload'') v) session_id_from_payload))
          else if tag = lit ''token_count'' then
            map_option (\<lambda>payload. TokenCount (reset_epoch_from_json payload RESETS_AT_PATH now_epoch))
              (json_get (lit ''payload'') v)
          else if tag = lit ''turn_complete'' then
            Option.bind (json_walk [lit ''payload'', lit ''error'', lit ''codex_error_info''] v) (\<lambda>node.
            Option.bind (json_str node) (\<lambda>info. if info = USAGE_LIMIT_ERROR_INFO then Some UsageLimit else None))
          else None)))"

section \<open>File names\<close>

definition ROLLOUT_PREFIX :: rstring where
  "ROLLOUT_PREFIX = lit ''rollout-''"

definition ROLLOUT_EXT :: rstring where
  "ROLLOUT_EXT = lit ''.jsonl''"

definition UUID_GROUP_LENS :: "nat list" where
  "UUID_GROUP_LENS = [8, 4, 4, 4, 12]"

definition strip_prefix :: "rstring \<Rightarrow> rstring \<Rightarrow> rstring option" where
  "strip_prefix p s = (if prefix p s then Some (drop (length p) s) else None)"

definition strip_suffix :: "rstring \<Rightarrow> rstring \<Rightarrow> rstring option" where
  "strip_suffix p s = (if suffix p s then Some (take (length s - length p) s) else None)"

definition is_ascii_hexdigit :: "u8 \<Rightarrow> bool" where
  "is_ascii_hexdigit b \<longleftrightarrow> within 48 57 b \<or> within 65 70 b \<or> within 97 102 b"

definition session_id_from_filename :: "rstring \<Rightarrow> rstring option" where
  "session_id_from_filename name =
     Option.bind (strip_prefix ROLLOUT_PREFIX name) (\<lambda>rest.
     Option.bind (strip_suffix ROLLOUT_EXT rest) (\<lambda>core.
       let groups = split_on 45 core
       in if length groups < length UUID_GROUP_LENS then None
          else
            let uuid = drop (length groups - length UUID_GROUP_LENS) groups
            in if list_all (\<lambda>(group, len). str_len group = len \<and> list_all is_ascii_hexdigit (str_bytes group))
                    (zip uuid UUID_GROUP_LENS)
               then Some (join_on 45 uuid)
               else None))"

section \<open>The files of a session\<close>

definition YEAR_DIR_LEN :: nat where
  "YEAR_DIR_LEN = 4"

definition MONTH_DAY_DIR_LEN :: nat where
  "MONTH_DAY_DIR_LEN = 2"

definition CANDIDATE_DAY_DIRS :: nat where
  "CANDIDATE_DAY_DIRS = 2"

text \<open>
  An entry of a directory: its name where it is Unicode, whether it is a directory, and the second it was last written
  (\<open>None\<close> where that cannot be read or lies before 1970).
\<close>

record session_entry =
  se_name :: "rstring option"
  se_is_dir :: bool
  se_mtime :: "int option"

type_synonym rel_path = "rstring list"
type_synonym session_tree = "rel_path \<Rightarrow> session_entry list option"

definition numeric_name :: "nat \<Rightarrow> rstring \<Rightarrow> bool" where
  "numeric_name len n \<longleftrightarrow> str_len n = len \<and> list_all (within 48 57) (str_bytes n)"

definition numeric_children :: "session_tree \<Rightarrow> rel_path \<Rightarrow> nat \<Rightarrow> rel_path list" where
  "numeric_children read_dir dir len =
     (case read_dir dir of
        None \<Rightarrow> []
      | Some entries \<Rightarrow>
          sort (List.map_filter (\<lambda>e. case se_name e of
              None \<Rightarrow> None
            | Some n \<Rightarrow> if se_is_dir e \<and> numeric_name len n then Some (dir @ [n]) else None) entries))"

definition newest_day_dirs :: "session_tree \<Rightarrow> rel_path list" where
  "newest_day_dirs read_dir =
     (let days = sort (concat (map (\<lambda>year. concat (map (\<lambda>month. numeric_children read_dir month MONTH_DAY_DIR_LEN)
            (numeric_children read_dir year MONTH_DAY_DIR_LEN))) (numeric_children read_dir [] YEAR_DIR_LEN)))
      in drop (length days - CANDIDATE_DAY_DIRS) days)"

definition is_candidate :: "int \<Rightarrow> session_entry \<Rightarrow> bool" where
  "is_candidate since e \<longleftrightarrow>
     (case se_name e of None \<Rightarrow> False | Some n \<Rightarrow> session_id_from_filename n \<noteq> None)
     \<and> (case se_mtime e of None \<Rightarrow> False | Some t \<Rightarrow> since \<le> t)"

definition candidate_rollouts :: "session_tree \<Rightarrow> int \<Rightarrow> rel_path list" where
  "candidate_rollouts read_dir since =
     concat (map (\<lambda>day. case read_dir day of
         None \<Rightarrow> []
       | Some entries \<Rightarrow> map (\<lambda>e. day @ [the (se_name e)]) (filter (is_candidate since) entries))
       (newest_day_dirs read_dir))"

end
