(* ===== verification/Codex_Adapter.thy ===== *)
theory Codex_Adapter
  imports Codex_Rollout
begin

text \<open>
  The Codex adapter of the recovery plugin: \<^verbatim>\<open>plugins/nightcrow-recovery/src/provider/codex_pane.rs\<close> (watching one spawn of a pane)
  and \<^verbatim>\<open>codex.rs\<close> (the provider). A poll sees the file system through \<open>codex_env\<close>: the directories, and for a file the length
  its metadata gave and what a read from it finds, which may already be longer. \<^verbatim>\<open>str::to_lowercase\<close>, with its Unicode
  tables, is the parameter \<open>ce_lower\<close>.
\<close>

section \<open>One spawn of a pane\<close>

definition MAX_POLL_READ_BYTES :: nat where
  "MAX_POLL_READ_BYTES = 256 * 1024"

definition OUTPUT_TAIL_BYTES :: nat where
  "OUTPUT_TAIL_BYTES = 4 * 1024"

definition USAGE_LIMIT_NEEDLES :: "rstring list" where
  "USAGE_LIMIT_NEEDLES =
     [lit ''you've hit your usage limit'',
      lit ''your workspace is out of credits.'',
      lit ''you hit your spend cap set in your workspace.'',
      lit ''quota exceeded. check your plan and billing details.'']"

definition OUTPUT_DETAIL :: rstring where
  "OUTPUT_DETAIL = lit ''usage limit seen in codex output''"

record codex_env =
  ce_parse :: "rstring \<Rightarrow> json option"
  ce_lower :: "rstring \<Rightarrow> rstring"
  ce_read_dir :: session_tree
  ce_open :: "rel_path \<Rightarrow> (nat \<times> u8 list option) option"

record codex_pane =
  cp_generation :: pane_generation
  cp_watch_start :: int
  cp_bound :: "rel_path option"
  cp_ambiguous :: bool
  cp_offset :: nat
  cp_pending :: "u8 list"
  cp_session_id :: "rstring option"
  cp_resets_at :: "int option"
  cp_output_tail :: rstring
  cp_output_latched :: bool

definition codex_pane_new :: "pane_generation \<Rightarrow> int \<Rightarrow> codex_pane" where
  "codex_pane_new generation now_epoch = \<lparr>cp_generation = generation, cp_watch_start = now_epoch, cp_bound = None,
     cp_ambiguous = False, cp_offset = 0, cp_pending = [], cp_session_id = None, cp_resets_at = None,
     cp_output_tail = [], cp_output_latched = False\<rparr>"

definition bind_rollout :: "session_tree \<Rightarrow> codex_pane \<Rightarrow> codex_pane" where
  "bind_rollout read_dir s =
     (if cp_ambiguous s then s
      else case candidate_rollouts read_dir (cp_watch_start s) of
             [] \<Rightarrow> s
           | [path] \<Rightarrow> s\<lparr>cp_session_id := session_id_from_filename (last path), cp_bound := Some path\<rparr>
           | _ \<Rightarrow> s\<lparr>cp_ambiguous := True\<rparr>)"

definition read_appended :: "(nat \<times> u8 list option) option \<Rightarrow> codex_pane \<Rightarrow> u8 list option \<times> codex_pane" where
  "read_appended opened s0 =
     (case opened of
        None \<Rightarrow> (None, s0)
      | Some (len, found) \<Rightarrow>
          let s = (if len < cp_offset s0 then s0\<lparr>cp_offset := 0, cp_pending := []\<rparr> else s0);
              available = len - cp_offset s
          in if available = 0 then (None, s)
             else case found of
                    None \<Rightarrow> (None, s)
                  | Some bytes \<Rightarrow>
                      let want = min available MAX_POLL_READ_BYTES;
                          buf = take want (drop (cp_offset s) bytes)
                      in (Some buf, s\<lparr>cp_offset := min (2 ^ 64 - 1) (cp_offset s + length buf)\<rparr>))"

fun apply_record :: "rollout_record \<Rightarrow> codex_pane \<Rightarrow> limit_event option \<times> codex_pane" where
  "apply_record (SessionMeta i) s = (None, if i \<noteq> None then s\<lparr>cp_session_id := i\<rparr> else s)"
| "apply_record (TokenCount r) s = (None, if r \<noteq> None then s\<lparr>cp_resets_at := r\<rparr> else s)"
| "apply_record UsageLimit s = (Some (usage (cp_session_id s) (cp_resets_at s) USAGE_LIMIT_ERROR_INFO), s)"

definition apply_line :: "(rstring \<Rightarrow> json option) \<Rightarrow> int \<Rightarrow> u8 list \<Rightarrow> codex_pane \<Rightarrow> limit_event option \<times> codex_pane" where
  "apply_line parse now_epoch line s =
     (case Option.bind (from_utf8 line) (\<lambda>t. classify_line parse t now_epoch) of
        None \<Rightarrow> (None, s)
      | Some r \<Rightarrow> apply_record r s)"

text \<open>The loop over the complete lines of what is pending: the rest, the first limit and the state.\<close>

function consume_loop ::
  "(rstring \<Rightarrow> json option) \<Rightarrow> int \<Rightarrow> u8 list \<Rightarrow> limit_event option \<Rightarrow> codex_pane \<Rightarrow> u8 list \<times> limit_event option \<times> codex_pane" where
  "consume_loop parse now_epoch bs event s =
     (if 10 \<in> set bs then
        let line = takeWhile (\<lambda>b. b \<noteq> 10) bs;
            (found, s) = apply_line parse now_epoch line s
        in consume_loop parse now_epoch (drop (length line + 1) bs) (if event = None then found else event) s
      else (bs, event, s))"
  by pat_completeness auto
termination
  by (relation "measure (\<lambda>(_, _, bs, _, _). length bs)") (auto dest: length_pos_if_in_set)

declare consume_loop.simps [simp del]

definition consume :: "(rstring \<Rightarrow> json option) \<Rightarrow> u8 list \<Rightarrow> int \<Rightarrow> codex_pane \<Rightarrow> limit_event option \<times> codex_pane" where
  "consume parse chunk now_epoch s =
     (let (rest, event, s) = consume_loop parse now_epoch (cp_pending s @ chunk) None s
      in (event, s\<lparr>cp_pending := if MAX_RECORD_BYTES < length rest then [] else rest\<rparr>))"

text \<open>\<^verbatim>\<open>tail\<close>: bind if that is still possible, then apply whatever was appended since the last call.\<close>

definition tail_rollout :: "codex_env \<Rightarrow> int \<Rightarrow> codex_pane \<Rightarrow> limit_event option \<times> codex_pane" where
  "tail_rollout env now_epoch s0 =
     (let s = (if cp_bound s0 = None then bind_rollout (ce_read_dir env) s0 else s0)
      in case cp_bound s of
           None \<Rightarrow> (None, s)
         | Some path \<Rightarrow>
             (case read_appended (ce_open env path) s of
                (None, s) \<Rightarrow> (None, s)
              | (Some chunk, s) \<Rightarrow> consume (ce_parse env) chunk now_epoch s))"

fun drop_to_boundary :: "nat \<Rightarrow> rstring \<Rightarrow> rstring" where
  "drop_to_boundary n [] = []"
| "drop_to_boundary n (c # cs) = (if n = 0 then c # cs else drop_to_boundary (n - char_len c) cs)"

definition push_output_tail :: "(rstring \<Rightarrow> rstring) \<Rightarrow> rstring \<Rightarrow> codex_pane \<Rightarrow> codex_pane" where
  "push_output_tail lowercase text s =
     (let t = cp_output_tail s @ lowercase text
      in s\<lparr>cp_output_tail := if str_len t \<le> OUTPUT_TAIL_BYTES then t else drop_to_boundary (str_len t - OUTPUT_TAIL_BYTES) t\<rparr>)"

definition pane_output_seen :: "(rstring \<Rightarrow> rstring) \<Rightarrow> rstring \<Rightarrow> codex_pane \<Rightarrow> limit_event option \<times> codex_pane" where
  "pane_output_seen lowercase text s0 =
     (if cp_output_latched s0 then (None, s0)
      else
        let s = push_output_tail lowercase text s0
        in if list_ex (\<lambda>needle. sublist needle (cp_output_tail s)) USAGE_LIMIT_NEEDLES
           then (Some (usage (cp_session_id s) (cp_resets_at s) OUTPUT_DETAIL), s\<lparr>cp_output_latched := True\<rparr>)
           else (None, s))"

definition rearm_output :: "codex_pane \<Rightarrow> codex_pane" where
  "rearm_output s = s\<lparr>cp_output_latched := False, cp_output_tail := []\<rparr>"

section \<open>The provider\<close>

definition SESSIONS_DIR :: rstring where
  "SESSIONS_DIR = lit ''sessions''"

definition DEFAULT_HOME_DIR :: rstring where
  "DEFAULT_HOME_DIR = lit ''.codex''"

definition RESUME_SUBCOMMAND :: rstring where
  "RESUME_SUBCOMMAND = lit ''resume''"

definition HOLD_ALIVE :: rstring where
  "HOLD_ALIVE = lit ''codex is still running; nothing to resume''"

definition HOLD_NO_ID :: rstring where
  "HOLD_NO_ID = lit ''no unambiguous codex session id; --last could resume another pane's session''"

text \<open>\<^verbatim>\<open>Codex::default\<close>: where the state directory is, from two variables of the environment.\<close>

definition codex_home :: "rstring option \<Rightarrow> rstring option \<Rightarrow> rstring" where
  "codex_home codex_home_var home_var =
     (case codex_home_var of
        Some v \<Rightarrow> if v \<noteq> [] then v else (case home_var of
            Some h \<Rightarrow> if h \<noteq> [] then path_join h DEFAULT_HOME_DIR else DEFAULT_HOME_DIR
          | None \<Rightarrow> DEFAULT_HOME_DIR)
      | None \<Rightarrow> (case home_var of
            Some h \<Rightarrow> if h \<noteq> [] then path_join h DEFAULT_HOME_DIR else DEFAULT_HOME_DIR
          | None \<Rightarrow> DEFAULT_HOME_DIR))"

text \<open>\<^verbatim>\<open>Codex\<close>. Its home only says where the sessions directory of the \<open>codex_env\<close> is.\<close>

type_synonym codex = "pane_token \<Rightarrow> codex_pane option"

definition codex_state_for :: "pane_context \<Rightarrow> int \<Rightarrow> codex \<Rightarrow> codex_pane" where
  "codex_state_for ctx now_epoch panes =
     (case panes (ctx_token ctx) of
        None \<Rightarrow> codex_pane_new (ctx_generation ctx) now_epoch
      | Some s \<Rightarrow> if cp_generation s \<noteq> ctx_generation ctx then codex_pane_new (ctx_generation ctx) now_epoch else s)"

definition codex_session_id_for :: "pane_context \<Rightarrow> codex \<Rightarrow> rstring option" where
  "codex_session_id_for ctx panes =
     (case panes (ctx_token ctx) of
        None \<Rightarrow> None
      | Some s \<Rightarrow> if cp_generation s = ctx_generation ctx then cp_session_id s else None)"

definition codex_poll :: "codex_env \<Rightarrow> pane_context \<Rightarrow> int \<Rightarrow> codex \<Rightarrow> limit_event option \<times> codex" where
  "codex_poll env ctx now_epoch panes =
     (let (limit, s) = tail_rollout env now_epoch (codex_state_for ctx now_epoch panes)
      in (limit, panes(ctx_token ctx \<mapsto> s)))"

definition codex_on_output :: "codex_env \<Rightarrow> pane_context \<Rightarrow> rstring \<Rightarrow> int \<Rightarrow> codex \<Rightarrow> limit_event option \<times> codex" where
  "codex_on_output env ctx text now_epoch panes =
     (let (limit, s) = pane_output_seen (ce_lower env) text (codex_state_for ctx now_epoch panes)
      in (limit, panes(ctx_token ctx \<mapsto> s)))"

definition codex_on_exit :: "pane_context \<Rightarrow> codex \<Rightarrow> codex" where
  "codex_on_exit ctx panes =
     (case panes (ctx_token ctx) of
        None \<Rightarrow> panes
      | Some s \<Rightarrow> if cp_generation s \<noteq> ctx_generation ctx then panes else panes(ctx_token ctx \<mapsto> rearm_output s))"

definition codex_resume :: "codex \<Rightarrow> resume_fn" where
  "codex_resume panes ctx limit alive =
     (if alive then Some (Hold HOLD_ALIVE)
      else case (case (case le_session_id limit of Some i \<Rightarrow> Some i | None \<Rightarrow> codex_session_id_for ctx panes) of
                   None \<Rightarrow> None
                 | Some i \<Rightarrow> if valid_session_id i then Some i else None) of
             Some i \<Rightarrow> Some (RelaunchPlan [RESUME_SUBCOMMAND, i])
           | None \<Rightarrow> Some (Hold HOLD_NO_ID))"

section \<open>Reading a rollout that grows\<close>

text \<open>
  The specification reads the file as one sequence of bytes, each tagged with the poll that read it. A line belongs to the poll
  that read its end.
\<close>

fun tagged_lines :: "u8 list \<Rightarrow> (u8 \<times> 't) list \<Rightarrow> (u8 list \<times> 't) list" where
  "tagged_lines acc [] = []"
| "tagged_lines acc ((b, t) # bs) = (if b = 10 then (acc, t) # tagged_lines [] bs else tagged_lines (acc @ [b]) bs)"

fun open_line :: "u8 list \<Rightarrow> u8 list \<Rightarrow> u8 list" where
  "open_line acc [] = acc"
| "open_line acc (b # bs) = (if b = 10 then open_line [] bs else open_line (acc @ [b]) bs)"

fun short_lines :: "u8 list \<Rightarrow> u8 list \<Rightarrow> bool" where
  "short_lines acc [] = (length acc \<le> MAX_RECORD_BYTES)"
| "short_lines acc (b # bs) =
     (length acc \<le> MAX_RECORD_BYTES \<and> (if b = 10 then short_lines [] bs else short_lines (acc @ [b]) bs))"

type_synonym known = "rstring option \<times> int option"

definition line_record :: "(rstring \<Rightarrow> json option) \<Rightarrow> int \<Rightarrow> u8 list \<Rightarrow> rollout_record option" where
  "line_record parse now_epoch line = Option.bind (from_utf8 line) (\<lambda>t. classify_line parse t now_epoch)"

fun learn :: "rollout_record option \<Rightarrow> known \<Rightarrow> known" where
  "learn (Some (SessionMeta i)) (sid, r) = (if i = None then sid else i, r)"
| "learn (Some (TokenCount x)) (sid, r) = (sid, if x = None then r else x)"
| "learn _ kn = kn"

text \<open>The limits the lines report, each with the poll of its line, and what is known after them.\<close>

fun rollout_limits :: "(rstring \<Rightarrow> json option) \<Rightarrow> known \<Rightarrow> (u8 list \<times> nat \<times> int) list \<Rightarrow> (nat \<times> limit_event) list" where
  "rollout_limits parse kn [] = []"
| "rollout_limits parse kn ((line, k, now) # ls) =
     (let r = line_record parse now line
      in (if r = Some UsageLimit then [(k, usage (fst kn) (snd kn) USAGE_LIMIT_ERROR_INFO)] else [])
         @ rollout_limits parse (learn r kn) ls)"

fun learn_all :: "(rstring \<Rightarrow> json option) \<Rightarrow> known \<Rightarrow> (u8 list \<times> nat \<times> int) list \<Rightarrow> known" where
  "learn_all parse kn [] = kn"
| "learn_all parse kn ((line, k, now) # ls) = learn_all parse (learn (line_record parse now line) kn) ls"

definition report_of :: "(nat \<times> limit_event) list \<Rightarrow> nat \<Rightarrow> limit_event option" where
  "report_of limits k = map_option snd (find (\<lambda>l. fst l = k) limits)"

lemma tagged_lines_append:
  "tagged_lines acc (xs @ ys) = tagged_lines acc xs @ tagged_lines (open_line acc (map fst xs)) ys"
  by (induction acc xs rule: tagged_lines.induct) auto

lemma open_line_append [simp]: "open_line acc (xs @ ys) = open_line (open_line acc xs) ys"
  by (induction acc xs rule: open_line.induct) auto

lemma open_line_free: "10 \<notin> set acc \<Longrightarrow> 10 \<notin> set (open_line acc bs)"
  by (induction acc bs rule: open_line.induct) auto

lemma short_lines_append: "short_lines acc (xs @ ys) \<longleftrightarrow> short_lines acc xs \<and> short_lines (open_line acc xs) ys"
proof (induction acc xs rule: open_line.induct)
  case (1 acc)
  then show ?case by (cases ys) auto
qed auto

lemma short_lines_open: "short_lines acc bs \<Longrightarrow> length (open_line acc bs) \<le> MAX_RECORD_BYTES"
  by (induction acc bs rule: open_line.induct) (auto split: if_splits)

lemma rollout_limits_append:
  "rollout_limits parse kn (xs @ ys) = rollout_limits parse kn xs @ rollout_limits parse (learn_all parse kn xs) ys"
  by (induction parse kn xs rule: rollout_limits.induct) (simp_all add: Let_def)

lemma learn_all_append [simp]: "learn_all parse kn (xs @ ys) = learn_all parse (learn_all parse kn xs) ys"
  by (induction parse kn xs rule: learn_all.induct) simp_all

definition known_of :: "codex_pane \<Rightarrow> known" where
  "known_of s = (cp_session_id s, cp_resets_at s)"

definition set_known :: "known \<Rightarrow> codex_pane \<Rightarrow> codex_pane" where
  "set_known kn s = s\<lparr>cp_session_id := fst kn, cp_resets_at := snd kn\<rparr>"

lemma set_known_simps [simp]:
  "known_of (set_known kn s) = kn" "set_known kn (set_known kn' s) = set_known kn s" "set_known (known_of s) s = s"
  "cp_bound (set_known kn s) = cp_bound s" "cp_offset (set_known kn s) = cp_offset s" "cp_pending (set_known kn s) = cp_pending s"
  by (simp_all add: set_known_def known_of_def)

lemma apply_line_eq:
  "apply_line parse now line s =
     (if line_record parse now line = Some UsageLimit then Some (usage (fst (known_of s)) (snd (known_of s)) USAGE_LIMIT_ERROR_INFO) else None,
      set_known (learn (line_record parse now line) (known_of s)) s)"
proof (cases "line_record parse now line")
  case None
  then show ?thesis by (simp add: apply_line_def line_record_def known_of_def set_known_def)
next
  case (Some r)
  then show ?thesis by (cases r) (simp_all add: apply_line_def line_record_def known_of_def set_known_def)
qed

lemma tagged_lines_split:
  "10 \<in> set bs \<Longrightarrow> tagged_lines acc (map (\<lambda>b. (b, t)) bs) =
     (acc @ takeWhile (\<lambda>b. b \<noteq> 10) bs, t) # tagged_lines [] (map (\<lambda>b. (b, t)) (drop (length (takeWhile (\<lambda>b. b \<noteq> 10) bs) + 1) bs))"
  by (induction bs arbitrary: acc) auto

lemma tagged_lines_free: "10 \<notin> set bs \<Longrightarrow> tagged_lines acc (map (\<lambda>b. (b, t)) bs) = []"
  by (induction bs arbitrary: acc) auto

lemma open_line_split:
  "10 \<in> set bs \<Longrightarrow> open_line acc bs = open_line [] (drop (length (takeWhile (\<lambda>b. b \<noteq> 10) bs) + 1) bs)"
  by (induction bs arbitrary: acc) auto

lemma open_line_start: "10 \<notin> set bs \<Longrightarrow> open_line acc bs = acc @ bs"
  by (induction bs arbitrary: acc) auto

lemma consume_loop_eq:
  "consume_loop parse now bs ev s =
     (let ls = tagged_lines [] (map (\<lambda>b. (b, k, now)) bs)
      in (open_line [] bs, if ev = None then map_option snd (find (\<lambda>_. True) (rollout_limits parse (known_of s) ls)) else ev,
          set_known (learn_all parse (known_of s) ls) s))"
proof (induction parse now bs ev s rule: consume_loop.induct)
  case (1 parse now bs ev s)
  show ?case
  proof (cases "10 \<in> set bs")
    case True
    let ?line = "takeWhile (\<lambda>b. b \<noteq> 10) bs"
    obtain found s' where a: "apply_line parse now ?line s = (found, s')" by (cases "apply_line parse now ?line s")
    from a have s': "s' = set_known (learn (line_record parse now ?line) (known_of s)) s"
      and f: "found = (if line_record parse now ?line = Some UsageLimit
        then Some (usage (fst (known_of s)) (snd (known_of s)) USAGE_LIMIT_ERROR_INFO) else None)"
      by (simp_all add: apply_line_eq)
    show ?thesis
      using 1 [OF True refl a [symmetric]] True a
      by (subst consume_loop.simps)
        (simp add: Let_def tagged_lines_split [OF True] open_line_split [OF True] s' f)
  next
    case False
    then show ?thesis
      by (subst consume_loop.simps) (simp add: tagged_lines_free open_line_start Let_def)
  qed
qed

lemma consume_eq:
  assumes "10 \<notin> set (cp_pending s)" "length (open_line (cp_pending s) chunk) \<le> MAX_RECORD_BYTES"
  shows "consume parse chunk now s =
    (let ls = tagged_lines (cp_pending s) (map (\<lambda>b. (b, k, now)) chunk)
     in (map_option snd (find (\<lambda>_. True) (rollout_limits parse (known_of s) ls)),
         (set_known (learn_all parse (known_of s) ls) s)\<lparr>cp_pending := open_line (cp_pending s) chunk\<rparr>))"
  using assms
  by (simp add: consume_def consume_loop_eq [where k = k] tagged_lines_append tagged_lines_free open_line_start Let_def comp_def)

text \<open>
  A file that grows: what each poll found when it opened it. The metadata is read first, so a read may find more than it said; a
  poll may also fail to open the file or to read it.
\<close>

fun grows :: "u8 list \<Rightarrow> (nat \<times> u8 list option) option list \<Rightarrow> bool" where
  "grows old [] = True"
| "grows old (None # os) = grows old os"
| "grows old (Some (len, None) # os) = (length old \<le> len \<and> grows old os)"
| "grows old (Some (len, Some bytes) # os) =
     (prefix old bytes \<and> length old \<le> len \<and> len \<le> length bytes \<and> length bytes < 2 ^ 64 \<and> grows bytes os)"

fun final_content :: "u8 list \<Rightarrow> (nat \<times> u8 list option) option list \<Rightarrow> u8 list" where
  "final_content old [] = old"
| "final_content old (Some (len, Some bytes) # os) = final_content bytes os"
| "final_content old (_ # os) = final_content old os"

definition read_size :: "nat \<Rightarrow> (nat \<times> u8 list option) option \<Rightarrow> nat" where
  "read_size off opened = (case opened of Some (len, Some _) \<Rightarrow> min (len - off) MAX_POLL_READ_BYTES | _ \<Rightarrow> 0)"

fun read_sizes :: "nat \<Rightarrow> (nat \<times> u8 list option) option list \<Rightarrow> nat list" where
  "read_sizes off [] = []"
| "read_sizes off (opened # os) = read_size off opened # read_sizes (off + read_size off opened) os"

fun poll_tags :: "nat \<Rightarrow> nat list \<Rightarrow> int list \<Rightarrow> (nat \<times> int) list" where
  "poll_tags k (n # ns) (t # ts) = replicate n (k, t) @ poll_tags (Suc k) ns ts"
| "poll_tags k _ _ = []"

fun tail_polls :: "(codex_env \<times> int) list \<Rightarrow> codex_pane \<Rightarrow> limit_event option list \<times> codex_pane" where
  "tail_polls [] s = ([], s)"
| "tail_polls ((env, now) # ps) s =
     (let (report, s) = tail_rollout env now s; (reports, s) = tail_polls ps s in (report # reports, s))"

lemma prefix_final: "grows old os \<Longrightarrow> prefix old (final_content old os)"
proof (induction old os rule: final_content.induct)
  case (2 old len bytes os)
  then have "prefix old bytes" "prefix bytes (final_content bytes os)" by auto
  then show ?case by simp
qed simp_all

lemma tagged_tags: "(l, t) \<in> set (tagged_lines acc bs) \<Longrightarrow> t \<in> snd ` set bs"
  by (induction acc bs rule: tagged_lines.induct) (auto split: if_splits)

lemma limit_tags: "(j, l) \<in> set (rollout_limits parse kn ls) \<Longrightarrow> j \<in> (fst \<circ> snd) ` set ls"
  by (induction parse kn ls rule: rollout_limits.induct) (auto simp: Let_def split: if_splits)

lemma poll_tags_from: "(j, t) \<in> set (poll_tags k ns ts) \<Longrightarrow> k \<le> j"
  by (induction k ns ts rule: poll_tags.induct) (auto dest: Suc_leD)

lemma length_poll_tags: "length ns = length ts \<Longrightarrow> length (poll_tags k ns ts) = sum_list ns"
  by (induction k ns ts rule: poll_tags.induct) auto

lemma length_read_sizes [simp]: "length (read_sizes off os) = length os"
  by (induction off os rule: read_sizes.induct) auto

lemma limits_from:
  "(j, l) \<in> set (rollout_limits parse kn (tagged_lines acc (zip bs (poll_tags k ns ts)))) \<Longrightarrow> k \<le> j"
proof -
  assume "(j, l) \<in> set (rollout_limits parse kn (tagged_lines acc (zip bs (poll_tags k ns ts))))"
  from limit_tags [OF this] obtain line t where "(line, j, t) \<in> set (tagged_lines acc (zip bs (poll_tags k ns ts)))" by auto
  from tagged_tags [OF this] have "(j, t) \<in> set (poll_tags k ns ts)" by (auto dest: set_zip_rightD)
  then show "k \<le> j" by (rule poll_tags_from)
qed

lemma report_of_head:
  assumes "\<forall>x \<in> set A. fst x = k" "\<forall>x \<in> set B. Suc k \<le> fst x"
  shows "report_of (A @ B) k = map_option snd (find (\<lambda>_. True) A)"
proof (cases A)
  case Nil
  with assms(2) have "find (\<lambda>l. fst l = k) B = None" by (auto simp: find_None_iff)
  with Nil show ?thesis by (simp add: report_of_def)
qed (use assms(1) in \<open>simp add: report_of_def\<close>)

lemma report_of_tail: "\<forall>x \<in> set A. fst x = k \<Longrightarrow> Suc k \<le> j \<Longrightarrow> report_of (A @ B) j = report_of B j"
  by (induction A) (auto simp: report_of_def)

definition chunk_lines :: "nat \<Rightarrow> int \<Rightarrow> u8 list \<Rightarrow> codex_pane \<Rightarrow> (u8 list \<times> nat \<times> int) list" where
  "chunk_lines k now chunk s = tagged_lines (cp_pending s) (map (\<lambda>b. (b, k, now)) chunk)"

definition after_chunk :: "(rstring \<Rightarrow> json option) \<Rightarrow> (u8 list \<times> nat \<times> int) list \<Rightarrow> u8 list \<Rightarrow> codex_pane \<Rightarrow> codex_pane" where
  "after_chunk parse ls chunk s =
     (set_known (learn_all parse (known_of s) ls) s)\<lparr>cp_offset := cp_offset s + length chunk, cp_pending := open_line (cp_pending s) chunk\<rparr>"

lemma set_known_update [simp]:
  "set_known kn (s\<lparr>cp_offset := x\<rparr>) = (set_known kn s)\<lparr>cp_offset := x\<rparr>" "known_of (s\<lparr>cp_offset := x\<rparr>) = known_of s"
  "set_known kn (s\<lparr>cp_pending := y\<rparr>) = (set_known kn s)\<lparr>cp_pending := y\<rparr>" "known_of (s\<lparr>cp_pending := y\<rparr>) = known_of s"
  by (simp_all add: set_known_def known_of_def)

lemma after_nothing [simp]: "after_chunk parse [] [] s = s"
  by (simp add: after_chunk_def)

lemma after_chunk_append:
  "after_chunk parse ls' b (after_chunk parse ls a s) = after_chunk parse (ls @ ls') (a @ b) s"
  by (simp add: after_chunk_def set_known_def known_of_def add.assoc)

lemma read_appended_grown:
  assumes "grows old (opened # os)" "cp_offset s \<le> length old"
  shows "read_appended opened s =
    (let n = read_size (cp_offset s) opened; chunk = take n (drop (cp_offset s) (final_content old (opened # os)))
     in if n = 0 then (None, s) else (Some chunk, s\<lparr>cp_offset := cp_offset s + n\<rparr>))
    \<and> cp_offset s + read_size (cp_offset s) opened \<le> length (final_content old (opened # os))"
proof (cases opened)
  case None
  moreover have "length old \<le> length (final_content old os)"
    using assms(1) prefix_final [of old os] None by (auto dest: prefix_length_le)
  ultimately show ?thesis using assms by (simp add: read_appended_def read_size_def)
next
  case (Some o')
  obtain len found where o': "o' = (len, found)" by (cases o')
  show ?thesis
  proof (cases found)
    case None
    then have "length old \<le> length (final_content old os)"
      using assms(1) prefix_final [of old os] Some o' by (auto dest: prefix_length_le)
    with None Some o' assms show ?thesis by (simp add: read_appended_def read_size_def Let_def)
  next
    case (Some bytes)
    with \<open>opened = Some o'\<close> o' assms have g: "length old \<le> len" "len \<le> length bytes" "length bytes < 2 ^ 64" "grows bytes os"
      by simp_all
    then obtain more where f: "final_content bytes os = bytes @ more" using prefix_final [of bytes os] by (auto elim: prefixE)
    let ?n = "min (len - cp_offset s) MAX_POLL_READ_BYTES"
    have n: "?n \<le> length bytes - cp_offset s" "cp_offset s \<le> len" using g assms(2) by linarith+
    then have "take ?n (drop (cp_offset s) bytes) = take ?n (drop (cp_offset s) (final_content bytes os))"
      by (simp add: f)
    moreover have "cp_offset s + ?n < 2 ^ 64" using n g by linarith
    ultimately show ?thesis using Some \<open>opened = Some o'\<close> o' n g
      by (simp add: read_appended_def read_size_def Let_def f MAX_POLL_READ_BYTES_def) linarith
  qed
qed

lemma tail_step:
  assumes "cp_bound s = Some path" "ce_parse env = parse" "ce_open env path = opened"
    and "grows old (opened # os)" "cp_offset s \<le> length old" "10 \<notin> set (cp_pending s)"
    and "short_lines (cp_pending s) (drop (cp_offset s) (final_content old (opened # os)))"
  defines "chunk \<equiv> take (read_size (cp_offset s) opened) (drop (cp_offset s) (final_content old (opened # os)))"
  shows "tail_rollout env now s =
    (map_option snd (find (\<lambda>_. True) (rollout_limits parse (known_of s) (chunk_lines k now chunk s))),
     after_chunk parse (chunk_lines k now chunk s) chunk s)"
    and "length chunk = read_size (cp_offset s) opened"
proof -
  let ?n = "read_size (cp_offset s) opened" and ?F = "final_content old (opened # os)"
  note r = read_appended_grown [OF assms(4, 5)]
  have "cp_offset s + ?n \<le> length ?F" using r by blast
  then show len: "length chunk = ?n" by (simp add: chunk_def)
  show "tail_rollout env now s =
    (map_option snd (find (\<lambda>_. True) (rollout_limits parse (known_of s) (chunk_lines k now chunk s))),
     after_chunk parse (chunk_lines k now chunk s) chunk s)"
  proof (cases "?n = 0")
    case True
    then have "chunk = []" by (simp add: chunk_def)
    with True r show ?thesis using assms(1, 3) by (simp add: tail_rollout_def chunk_lines_def)
  next
    case False
    have "drop (cp_offset s) ?F = chunk @ drop ?n (drop (cp_offset s) ?F)" unfolding chunk_def by (rule append_take_drop_id [symmetric])
    with assms(7) have "short_lines (cp_pending s) chunk" by (metis short_lines_append)
    then have "length (open_line (cp_pending s) chunk) \<le> MAX_RECORD_BYTES" by (rule short_lines_open)
    moreover have "read_appended opened s = (Some chunk, s\<lparr>cp_offset := cp_offset s + ?n\<rparr>)"
      using r False by (simp add: Let_def chunk_def)
    ultimately show ?thesis using assms(1, 2, 3, 6) len
      by (simp add: tail_rollout_def consume_eq [where k = k] chunk_lines_def after_chunk_def Let_def)
  qed
qed

lemma grows_rest: "grows old (opened # os) \<Longrightarrow> \<exists>old'. grows old' os \<and> final_content old (opened # os) = final_content old' os
    \<and> length old + (if \<exists>len bytes. opened = Some (len, Some bytes) then 0 else 0) \<le> length old'
    \<and> (\<forall>off. off \<le> length old \<longrightarrow> off + read_size off opened \<le> length old')"
  by (cases "(old, opened # os)" rule: grows.cases)
    (auto simp: read_size_def dest: prefix_length_le split: option.splits)

lemma chunk_lines_tags:
  assumes "x \<in> set (rollout_limits parse kn (chunk_lines k now chunk s))"
  shows "fst x = k"
proof -
  have "(fst x, snd x) \<in> set (rollout_limits parse kn (chunk_lines k now chunk s))" using assms by simp
  from limit_tags [OF this] obtain line t where "(line, fst x, t) \<in> set (chunk_lines k now chunk s)" by auto
  from tagged_tags [OF this [unfolded chunk_lines_def]] show ?thesis by auto
qed

definition read_lines :: "nat \<Rightarrow> nat list \<Rightarrow> int list \<Rightarrow> u8 list \<Rightarrow> u8 list \<Rightarrow> (u8 list \<times> nat \<times> int) list" where
  "read_lines k ns ts pend bytes = tagged_lines pend (zip (take (sum_list ns) bytes) (poll_tags k ns ts))"

lemma read_lines_Cons:
  assumes "n \<le> length bytes"
  shows "read_lines k (n # ns) (t # ts) pend bytes =
    tagged_lines pend (map (\<lambda>b. (b, k, t)) (take n bytes)) @ read_lines (Suc k) ns ts (open_line pend (take n bytes)) (drop n bytes)"
proof -
  have "take (n + sum_list ns) bytes = take n bytes @ take (sum_list ns) (drop n bytes)"
    by (simp add: take_add)
  moreover have "zip (take n bytes) (replicate n (k, t)) = map (\<lambda>b. (b, k, t)) (take n bytes)"
    using assms zip_replicate2 [of "take n bytes" n "(k, t)"] by simp
  ultimately show ?thesis using assms
    by (simp add: read_lines_def zip_append1 tagged_lines_append comp_def)
qed

lemma tail_polls_exact:
  assumes "cp_bound s = Some path" "list_all (\<lambda>(env, _). ce_parse env = parse) looks"
    and "grows old (map (\<lambda>(env, _). ce_open env path) looks)" "cp_offset s \<le> length old" "10 \<notin> set (cp_pending s)"
    and "short_lines (cp_pending s) (drop (cp_offset s) (final_content old (map (\<lambda>(env, _). ce_open env path) looks)))"
  shows "tail_polls looks s =
    (let opens = map (\<lambda>(env, _). ce_open env path) looks;
         ns = read_sizes (cp_offset s) opens;
         rest = drop (cp_offset s) (final_content old opens);
         ls = read_lines k ns (map snd looks) (cp_pending s) rest
     in (map (report_of (rollout_limits parse (known_of s) ls)) [k..<k + length looks],
         after_chunk parse ls (take (sum_list ns) rest) s))"
  using assms
proof (induction looks arbitrary: s old k)
  case Nil
  then show ?case by (simp add: read_lines_def)
next
  case (Cons p looks)
  obtain env now where p: "p = (env, now)" by (cases p)
  let ?opened = "ce_open env path" and ?os = "map (\<lambda>(env, _). ce_open env path) looks"
  let ?F = "final_content old (?opened # ?os)" and ?n = "read_size (cp_offset s) (ce_open env path)"
  define rest where "rest = drop (cp_offset s) ?F"
  define chunk where "chunk = take ?n rest"
  define ls where "ls = chunk_lines k now chunk s"
  define t where "t = after_chunk parse ls chunk s"
  define ns where "ns = read_sizes (cp_offset t) ?os"
  define later where "later = drop (cp_offset t) ?F"
  define ls' where "ls' = read_lines (Suc k) ns (map snd looks) (cp_pending t) later"
  have prems: "cp_bound s = Some path" "ce_parse env = parse" "grows old (?opened # ?os)" "cp_offset s \<le> length old"
    "10 \<notin> set (cp_pending s)" "short_lines (cp_pending s) (drop (cp_offset s) ?F)"
    using Cons.prems p by simp_all
  have st: "tail_rollout env now s = (map_option snd (find (\<lambda>_. True) (rollout_limits parse (known_of s) ls)), t)"
    and len: "length chunk = ?n"
    using tail_step(1) [OF prems(1, 2) refl prems(3-6), where now = now and k = k] tail_step(2) [OF prems(1, 2) refl prems(3-6)]
    by (simp_all add: t_def ls_def chunk_def rest_def)
  obtain old' where old': "grows old' ?os" "?F = final_content old' ?os" "cp_offset s + ?n \<le> length old'"
    using grows_rest [OF prems(3)] prems(4) by blast
  have t: "cp_bound t = Some path" "cp_offset t = cp_offset s + ?n" "cp_pending t = open_line (cp_pending s) chunk"
    "known_of t = learn_all parse (known_of s) ls"
    using prems(1) len by (simp_all add: t_def after_chunk_def)
  have rest': "drop ?n rest = later" by (simp add: later_def rest_def t(2) add.commute)
  then have split: "rest = chunk @ later" using append_take_drop_id [of ?n rest] by (simp add: chunk_def)
  have short: "short_lines (cp_pending t) (drop (cp_offset t) (final_content old' ?os))"
    using prems(6) split by (simp add: t(3) short_lines_append flip: rest_def later_def old'(2))
  have IH: "tail_polls looks t = (map (report_of (rollout_limits parse (known_of t) ls')) [Suc k..<Suc k + length looks],
      after_chunk parse ls' (take (sum_list ns) later) t)"
    using Cons.IH [OF t(1) _ old'(1) _ _ short, of "Suc k"] Cons.prems(2) p old'(3) t(2) open_line_free [OF prems(5)] t(3)
    by (simp add: Let_def ls'_def ns_def later_def old'(2))
  have n: "?n \<le> length rest" using len unfolding chunk_def by simp
  have lines: "read_lines k (?n # ns) (now # map snd looks) (cp_pending s) rest = ls @ ls'"
    using n by (subst read_lines_Cons) (simp_all add: rest' ls'_def ls_def chunk_lines_def t(3) flip: chunk_def)
  have first: "report_of (rollout_limits parse (known_of s) (ls @ ls')) k =
      map_option snd (find (\<lambda>_. True) (rollout_limits parse (known_of s) ls))"
    unfolding rollout_limits_append ls_def ls'_def read_lines_def
    by (rule report_of_head) (auto dest: chunk_lines_tags limits_from)
  have other: "report_of (rollout_limits parse (known_of s) (ls @ ls')) j = report_of (rollout_limits parse (known_of t) ls') j"
    if "Suc k \<le> j" for j
    unfolding rollout_limits_append t(4) by (rule report_of_tail) (use that in \<open>auto simp: ls_def dest: chunk_lines_tags\<close>)
  have others: "map (report_of (rollout_limits parse (known_of s) (ls @ ls'))) [Suc k..<Suc k + length looks] =
      map (report_of (rollout_limits parse (known_of t) ls')) [Suc k..<Suc k + length looks]"
    by (rule map_cong [OF refl]) (rule other, auto)
  have state: "after_chunk parse ls' (take (sum_list ns) later) t = after_chunk parse (ls @ ls') (take (?n + sum_list ns) rest) s"
    unfolding t_def after_chunk_append take_add rest' chunk_def by (rule refl)
  have range: "[k..<k + length (x # looks)] = k # [Suc k..<Suc k + length looks]" for x :: "codex_env \<times> int" by (simp add: upt_rec)
  have sizes: "read_sizes (cp_offset s) (?opened # ?os) = ?n # ns" by (simp add: ns_def t(2))
  have "tail_polls (p # looks) s =
      (map (report_of (rollout_limits parse (known_of s) (ls @ ls'))) [k..<k + length (p # looks)],
       after_chunk parse (ls @ ls') (take (?n + sum_list ns) rest) s)"
    unfolding range list.map(2) first others state [symmetric] p tail_polls.simps st
    by (simp only: Let_def prod.case IH)
  then show ?case using p lines sizes by (simp add: Let_def flip: rest_def)
qed

text \<open>
  \<^bold>\<open>C10\<close>. The plugin reads a Codex session's record file exactly once, however it is cut: while the file grows, each poll
  takes at most 256 KiB and may end anywhere in a line, even in the middle of a character. The limits reported are those of
  the file's complete lines, read as one sequence: a poll reports the first limit among the lines that ended in it, with the session id and the
  reset time the lines before it gave, and no line is applied twice, skipped or torn, as long as no line is longer than 64 KiB.
\<close>

theorem rollout_read_once:
  assumes "cp_bound s = Some path" "cp_offset s = 0" "cp_pending s = []"
    and "list_all (\<lambda>(env, _). ce_parse env = parse) looks"
    and "grows [] (map (\<lambda>(env, _). ce_open env path) looks)"
    and "short_lines [] (final_content [] (map (\<lambda>(env, _). ce_open env path) looks))"
  shows "tail_polls looks s =
    (let opens = map (\<lambda>(env, _). ce_open env path) looks;
         ns = read_sizes 0 opens;
         content = take (sum_list ns) (final_content [] opens);
         ls = tagged_lines [] (zip content (poll_tags 0 ns (map snd looks)))
     in (map (report_of (rollout_limits parse (cp_session_id s, cp_resets_at s) ls)) [0..<length looks],
         after_chunk parse ls content s))"
  using tail_polls_exact [OF assms(1, 4), where old = "[]" and k = 0] assms(2, 3, 5, 6)
  by (simp add: Let_def read_lines_def known_of_def)

definition sample_parse :: "rstring \<Rightarrow> json option" where
  "sample_parse t = (if t = [117] then Some (JObject [(lit ''type'', JString (lit ''turn_complete'')),
     (lit ''payload'', JObject [(lit ''error'', JObject [(lit ''codex_error_info'', JString USAGE_LIMIT_ERROR_INFO)])])]) else None)"

definition sample_env :: "u8 list \<Rightarrow> codex_env" where
  "sample_env bytes = \<lparr>ce_parse = sample_parse, ce_lower = (\<lambda>t. t), ce_read_dir = (\<lambda>_. None),
     ce_open = (\<lambda>_. Some (length bytes, Some bytes))\<rparr>"

definition sample_pane :: codex_pane where
  "sample_pane = (codex_pane_new 1 0)\<lparr>cp_bound := Some [[97]], cp_session_id := Some [98]\<rparr>"

definition sample_looks :: "(codex_env \<times> int) list" where
  "sample_looks = [(sample_env [117], 0), (sample_env [117, 10], 1), (sample_env [117, 10], 2)]"

lemma sample_line: "from_utf8 [117] = Some [117]"
  using from_utf8_str_bytes [of "[117]"] by (simp add: is_scalar_def utf8_bytes_def)

theorem rollout_read_once_witness:
  "fst (tail_polls sample_looks sample_pane) = [None, Some (usage (Some [98]) None USAGE_LIMIT_ERROR_INFO), None]"
proof -
  have reads: "tail_polls sample_looks sample_pane =
    (let opens = map (\<lambda>(env, _). ce_open env [[97]]) sample_looks;
         ns = read_sizes 0 opens;
         content = take (sum_list ns) (final_content [] opens);
         ls = tagged_lines [] (zip content (poll_tags 0 ns (map snd sample_looks)))
     in (map (report_of (rollout_limits sample_parse (cp_session_id sample_pane, cp_resets_at sample_pane) ls)) [0..<length sample_looks],
         after_chunk sample_parse ls content sample_pane))"
    by (rule rollout_read_once)
      (simp_all add: sample_looks_def sample_pane_def sample_env_def codex_pane_new_def MAX_RECORD_BYTES_def)
  have sizes: "read_sizes 0 (map (\<lambda>(env, _). ce_open env [[97]]) sample_looks) = [1, 1, 0]"
    by (simp add: sample_looks_def sample_env_def read_size_def MAX_POLL_READ_BYTES_def)
  have content: "final_content [] (map (\<lambda>(env, _). ce_open env [[97]]) sample_looks) = [117, 10]"
    by (simp add: sample_looks_def sample_env_def)
  have ls: "tagged_lines [] (zip [117, 10] (poll_tags 0 [1, 1, 0] (map snd sample_looks))) = [([117], 1, 1)]"
    by (simp add: sample_looks_def)
  have limits: "rollout_limits sample_parse (Some [98], None) [([117], 1, 1)] =
      [(1, usage (Some [98]) None USAGE_LIMIT_ERROR_INFO)]"
    by (simp add: line_record_def sample_line classify_line_def sample_parse_def str_trim_def is_whitespace_def
        MAX_RECORD_BYTES_def char_len_def utf8_bytes_def)
  have pane: "cp_session_id sample_pane = Some [98]" "cp_resets_at sample_pane = None" "length sample_looks = 3"
    by (simp_all add: sample_pane_def codex_pane_new_def sample_looks_def)
  have content': "take (sum_list [1, 1, 0]) [117, 10 :: u8] = [117, 10]" by simp
  show ?thesis
    unfolding reads Let_def sizes content content' ls pane limits by (simp add: report_of_def upt_rec)
qed

section \<open>Which session is resumed\<close>

lemma hex_id_byte: "is_ascii_hexdigit b \<Longrightarrow> id_byte b"
  by (auto simp: is_ascii_hexdigit_def id_byte_def is_ascii_alphanumeric_def within_def word_le_nat_alt)

lemma filename_id_valid:
  assumes "session_id_from_filename name = Some i"
  shows "valid_session_id i"
proof -
  obtain uuid where u: "length uuid = 5" "i = join_on 45 uuid"
    and ok: "list_all (\<lambda>(group, len). str_len group = len \<and> list_all is_ascii_hexdigit (str_bytes group)) (zip uuid UUID_GROUP_LENS)"
  proof -
    obtain core where "(let groups = split_on 45 core
       in if length groups < length UUID_GROUP_LENS then None
          else let uuid = drop (length groups - length UUID_GROUP_LENS) groups
            in if list_all (\<lambda>(group, len). str_len group = len \<and> list_all is_ascii_hexdigit (str_bytes group))
                    (zip uuid UUID_GROUP_LENS)
               then Some (join_on 45 uuid) else None) = Some i"
      using assms by (auto simp: session_id_from_filename_def bind_eq_Some_conv)
    then show ?thesis
      by (intro that [of "drop (length (split_on 45 core) - length UUID_GROUP_LENS) (split_on 45 core)"])
        (auto simp: Let_def UUID_GROUP_LENS_def split: if_splits)
  qed
  obtain a b c d e where e: "uuid = [a, b, c, d, e]" using u(1) by (auto simp: numeral_eq_Suc length_Suc_conv)
  have hex: "str_bytes g = bs \<Longrightarrow> list_all is_ascii_hexdigit bs \<Longrightarrow> list_all id_byte bs" for g bs
    by (auto simp: list_all_iff hex_id_byte)
  have "list_all id_byte (str_bytes i)" "str_len i = 36"
    using ok hex by (simp_all add: u(2) e UUID_GROUP_LENS_def str_bytes_def char_len_def utf8_bytes_def id_byte_def)
  moreover from this(2) have "i \<noteq> []" by auto
  ultimately show ?thesis by (simp add: valid_session_id_def CODEX_MAX_SESSION_ID_BYTES_def)
qed

lemma id_byte_char: "list_all id_byte (utf8_bytes c) \<Longrightarrow> is_ascii_alphanumeric c \<or> c = 45 \<or> c = 95"
proof -
  assume a: "list_all id_byte (utf8_bytes c)"
  have high: "\<not> id_byte (of_nat (128 + n mod 64))" for n
  proof -
    have "n mod 64 < 64" by simp
    then have "unat (of_nat (128 + n mod 64) :: u8) = 128 + n mod 64" by (intro unat_byte) linarith
    then have "unat (of_nat (128 + n mod 64) :: u8) \<ge> 128" by linarith
    moreover have "\<not> id_byte w" if "unat w \<ge> 128" for w using that by (auto simp: id_byte_def is_ascii_alphanumeric_def)
    ultimately show ?thesis by blast
  qed
  have "c < 128" using a high by (auto simp: utf8_bytes_def simp del: of_nat_add split: if_splits)
  with a show ?thesis by (auto simp: utf8_bytes_def id_byte_def unat_byte byte_eq_word)
qed

lemma safe_session_id: "list_all id_byte (str_bytes i) \<Longrightarrow> list_all plugin_safe_arg_char i"
  by (induction i) (auto simp: plugin_safe_arg_char_def dest: id_byte_char)

lemma valid_id_safe: "valid_session_id i \<Longrightarrow> args_are_safe [RESUME_SUBCOMMAND, i]"
  by (simp add: args_are_safe_def valid_session_id_def safe_session_id CODEX_MAX_SESSION_ID_BYTES_def
      PLUGIN_MAX_RESUME_ARGS_def PLUGIN_MAX_RESUME_ARG_LEN_def RESUME_SUBCOMMAND_def plugin_safe_arg_char_def
      is_ascii_alphanumeric_def char_len_def utf8_bytes_def)

lemma codex_resume_plan:
  "codex_resume panes ctx limit alive = Some (RelaunchPlan args) \<Longrightarrow>
     \<not> alive \<and> (\<exists>i. args = [RESUME_SUBCOMMAND, i] \<and> valid_session_id i)"
  by (auto simp: codex_resume_def split: if_splits option.splits)

lemma codex_resume_alive: "codex_resume panes ctx limit True = Some (Hold HOLD_ALIVE)"
  by (simp add: codex_resume_def)

text \<open>
  Counting the candidates does not tell two panes apart while only one of them has written. Two panes are watched from seconds 100
  and 101; the program in the second writes its record at 110. At 111 each of them sees one candidate and binds to
  it, and either is resumed into the second one's session.
\<close>

definition sibling_context :: "rchar \<Rightarrow> pane_context" where
  "sibling_context c = \<lparr>ctx_token = PaneToken [c], ctx_generation = 1, ctx_cwd = lit ''/repo'', ctx_command = Some (lit ''codex'')\<rparr>"

definition sibling_id :: rstring where
  "sibling_id = lit ''01234567-89ab-cdef-0123-456789abcdef''"

definition sibling_tree :: session_tree where
  "sibling_tree dir =
     (if dir = [] then Some [\<lparr>se_name = Some (lit ''2026''), se_is_dir = True, se_mtime = None\<rparr>]
      else if dir = [lit ''2026''] then Some [\<lparr>se_name = Some (lit ''01''), se_is_dir = True, se_mtime = None\<rparr>]
      else if dir = [lit ''2026'', lit ''01''] then Some [\<lparr>se_name = Some (lit ''02''), se_is_dir = True, se_mtime = None\<rparr>]
      else if dir = [lit ''2026'', lit ''01'', lit ''02'']
      then Some [\<lparr>se_name = Some (lit ''rollout-'' @ sibling_id @ lit ''.jsonl''), se_is_dir = False, se_mtime = Some 110\<rparr>]
      else None)"

definition sibling_env :: "session_tree \<Rightarrow> codex_env" where
  "sibling_env tree = \<lparr>ce_parse = (\<lambda>_. None), ce_lower = (\<lambda>t. t), ce_read_dir = tree, ce_open = (\<lambda>_. None)\<rparr>"

definition watched_then_written :: "rchar \<Rightarrow> int \<Rightarrow> codex" where
  "watched_then_written c start =
     (let opened = snd (codex_poll (sibling_env (\<lambda>_. None)) (sibling_context c) start (\<lambda>_. None))
      in snd (codex_poll (sibling_env sibling_tree) (sibling_context c) 111 opened))"

theorem first_rollout_binds_every_pane:
  "map (\<lambda>(c, start). codex_resume (watched_then_written c start) (sibling_context c) (usage None None []) False)
     [(97, 100), (98, 101)] =
   [Some (RelaunchPlan [RESUME_SUBCOMMAND, sibling_id]), Some (RelaunchPlan [RESUME_SUBCOMMAND, sibling_id])]"
  by code_simp

text \<open>An id that begins with dashes passes as a session id: the relaunch would then run \<^verbatim>\<open>codex resume --last\<close>.\<close>

theorem last_is_a_session_id:
  "codex_resume (\<lambda>_. None) (sibling_context 97) (usage (Some (lit ''--last'')) None []) False =
     Some (RelaunchPlan [RESUME_SUBCOMMAND, lit ''--last''])"
  by code_simp

end
