(* ===== verification/Opencode_Adapter.thy ===== *)
theory Opencode_Adapter
  imports Codex_Adapter
begin

text \<open>
  The OpenCode adapter of the recovery plugin: \<^verbatim>\<open>plugins/nightcrow-recovery/src/provider/opencode.rs\<close> (what it makes of the
  server's snapshots) and \<^verbatim>\<open>opencode_http.rs\<close> (reading an answer, and a snapshot in it). What the request brought, if anything,
  is an argument of a poll.
\<close>

section \<open>Reading a snapshot\<close>

definition MAX_RESPONSE_BYTES :: nat where
  "MAX_RESPONSE_BYTES = 256 * 1024"

definition HEAD_BODY_SEPARATOR :: rstring where
  "HEAD_BODY_SEPARATOR = [13, 10, 13, 10]"

definition OK_STATUS :: rstring where
  "OK_STATUS = lit ''200''"

definition MILLIS_PER_SEC :: int where
  "MILLIS_PER_SEC = 1000"

definition MAX_RELATIVE_NEXT_MILLIS :: int where
  "MAX_RELATIVE_NEXT_MILLIS = MAX_RESET_HORIZON_SECS * MILLIS_PER_SEC"

definition OPENCODE_SESSION_ID_KEYS :: "rstring list" where
  "OPENCODE_SESSION_ID_KEYS = [lit ''sessionID'', lit ''sessionId'', lit ''id'']"

datatype status_kind = Retry "int option" | Busy | IdleStatus | UnknownStatus

record session_status =
  st_session_id :: "rstring option"
  st_kind :: status_kind

definition status_object :: "json \<Rightarrow> json option" where
  "status_object entry =
     (if json_get (lit ''type'') entry \<noteq> None then Some entry
      else Option.bind (json_get (lit ''status'') entry) (\<lambda>nested.
        map_option (\<lambda>_. nested) (json_get (lit ''type'') nested)))"

definition read_status_kind :: "json \<Rightarrow> status_kind" where
  "read_status_kind v =
     (case Option.bind (json_get (lit ''type'') v) json_str of
        None \<Rightarrow> UnknownStatus
      | Some t \<Rightarrow>
          if t = lit ''retry'' then Retry (Option.bind (json_get (lit ''next'') v) json_i64)
          else if t = lit ''busy'' then Busy
          else if t = lit ''idle'' then IdleStatus
          else UnknownStatus)"

definition read_entry :: "json \<Rightarrow> rstring option \<Rightarrow> session_status option" where
  "read_entry entry key =
     map_option (\<lambda>v. \<lparr>st_session_id =
         (case List.map_filter (\<lambda>k. Option.bind (json_get k entry) json_str) OPENCODE_SESSION_ID_KEYS of
            i # _ \<Rightarrow> Some i
          | [] \<Rightarrow> key),
       st_kind = read_status_kind v\<rparr>) (status_object entry)"

definition parse_status_body :: "(rstring \<Rightarrow> json option) \<Rightarrow> rstring \<Rightarrow> session_status list" where
  "parse_status_body parse body =
     (case parse body of
        Some (JObject kvs) \<Rightarrow> List.map_filter (\<lambda>(key, entry). read_entry entry (Some key)) kvs
      | Some (JArray items) \<Rightarrow> List.map_filter (\<lambda>e. read_entry e None) items
      | _ \<Rightarrow> [])"

text \<open>\<^verbatim>\<open>interpret_next\<close>. The division of a positive number truncates as \<^verbatim>\<open>div\<close> does.\<close>

definition interpret_next :: "int \<Rightarrow> int \<Rightarrow> int option" where
  "interpret_next next now_epoch =
     (if next \<le> 0 then None
      else case plausible_reset next now_epoch of
             Some at \<Rightarrow> Some at
           | None \<Rightarrow>
               (case plausible_reset (next div MILLIS_PER_SEC) now_epoch of
                  Some at \<Rightarrow> Some at
                | None \<Rightarrow>
                    if next \<le> MAX_RELATIVE_NEXT_MILLIS then Some (sat64 (now_epoch + next div MILLIS_PER_SEC)) else None))"

definition is_safe_path :: "rstring \<Rightarrow> bool" where
  "is_safe_path path \<longleftrightarrow> prefix [47] path
     \<and> list_all (\<lambda>c. is_ascii_alphanumeric c \<or> c = 47 \<or> c = 45 \<or> c = 95) path"

definition http_request :: "rstring \<Rightarrow> nat \<Rightarrow> rstring" where
  "http_request path port = lit ''GET '' @ path @ lit '' HTTP/1.1'' @ [13, 10] @ lit ''Host: 127.0.0.1:'' @ dec_str port @ [13, 10]
     @ lit ''Accept: application/json'' @ [13, 10] @ lit ''Connection: close'' @ [13, 10, 13, 10]"

text \<open>
  What is made of an answer: \<open>raw\<close> are the bytes the connection delivered before it ended, \<open>None\<close> where one of the
  stages failed. \<^verbatim>\<open>read_capped\<close> reads one byte past the limit and refuses.
\<close>

definition first_line :: "rstring \<Rightarrow> rstring" where
  "first_line s = (let l = takeWhile (\<lambda>c. c \<noteq> 10) s in if suffix [13] l \<and> 10 \<in> set s then butlast l else l)"

definition read_capped :: "u8 list option \<Rightarrow> u8 list option" where
  "read_capped raw = Option.bind raw (\<lambda>bytes. if MAX_RESPONSE_BYTES < length bytes then None else Some bytes)"

definition http_answer :: "rstring \<Rightarrow> u8 list option \<Rightarrow> rstring option" where
  "http_answer path raw =
     (if \<not> is_safe_path path then None
      else Option.bind (read_capped raw) (\<lambda>bytes.
        Option.bind (from_utf8 bytes) (\<lambda>text.
          Option.bind (split_once_str HEAD_BODY_SEPARATOR text) (\<lambda>(head, body).
            let words = split_whitespace (first_line head);
                code = (if 1 < length words then words ! 1 else [])
            in if code = OK_STATUS then Some body else None))))"

section \<open>The adapter\<close>

definition DEFAULT_PORT :: nat where
  "DEFAULT_PORT = 4096"

definition STATUS_PATH :: rstring where
  "STATUS_PATH = lit ''/session/status''"

definition PORT_FLAGS :: "rstring list" where
  "PORT_FLAGS = [lit ''--port'', lit ''-p'']"

definition MIN_POLL_INTERVAL_SECS :: int where
  "MIN_POLL_INTERVAL_SECS = 5"

definition OPENCODE_MAX_SESSION_ID_BYTES :: nat where
  "OPENCODE_MAX_SESSION_ID_BYTES = 64"

definition RESUME_FLAG :: rstring where
  "RESUME_FLAG = lit ''--session''"

definition RETRY_ENDED_DETAIL :: rstring where
  "RETRY_ENDED_DETAIL = lit ''opencode stopped retrying without producing a result''"

definition ALIVE_HOLD :: rstring where
  "ALIVE_HOLD = lit ''opencode retries internally without bound; never interrupt a retry''"

definition NO_SESSION_HOLD :: rstring where
  "NO_SESSION_HOLD = lit ''no opencode session id; --continue could resume another pane's session''"

record retrying =
  re_session_id :: "rstring option"
  re_resets_at :: "int option"

record opencode =
  oc_port :: "nat option"
  oc_generation :: "pane_generation option"
  oc_retrying :: "retrying option"
  oc_exited :: bool
  oc_fired :: bool
  oc_last_poll :: "int option"

definition opencode_new :: opencode where
  "opencode_new = \<lparr>oc_port = None, oc_generation = None, oc_retrying = None, oc_exited = False, oc_fired = False, oc_last_poll = None\<rparr>"

text \<open>\<^verbatim>\<open>str::parse::<u16>\<close>, keeping a port that can be reached.\<close>

definition parse_port :: "rstring \<Rightarrow> nat option" where
  "parse_port s = (case parse_u64 s of None \<Rightarrow> None | Some n \<Rightarrow> if n < 2 ^ 16 \<and> n \<noteq> 0 then Some n else None)"

fun port_in :: "rstring list \<Rightarrow> nat option" where
  "port_in [] = None"
| "port_in (token # tokens) =
     (case split_once 61 token of
        Some (flag, inline) \<Rightarrow>
          if flag \<in> set PORT_FLAGS then parse_port inline
          else if token \<in> set PORT_FLAGS then (case tokens of [] \<Rightarrow> None | v # _ \<Rightarrow> parse_port v)
          else port_in tokens
      | None \<Rightarrow>
          if token \<in> set PORT_FLAGS then (case tokens of [] \<Rightarrow> None | v # _ \<Rightarrow> parse_port v)
          else port_in tokens)"

definition port_from_command :: "rstring \<Rightarrow> nat option" where
  "port_from_command command = port_in (split_whitespace command)"

definition env_port :: "rstring option \<Rightarrow> nat option" where
  "env_port var = Option.bind var parse_port"

definition opencode_port :: "rstring option \<Rightarrow> opencode \<Rightarrow> nat" where
  "opencode_port var s = (case oc_port s of Some p \<Rightarrow> p | None \<Rightarrow> (case env_port var of Some p \<Rightarrow> p | None \<Rightarrow> DEFAULT_PORT))"

definition observe_command :: "rstring \<Rightarrow> opencode \<Rightarrow> opencode" where
  "observe_command command s = (case port_from_command command of None \<Rightarrow> s | Some p \<Rightarrow> s\<lparr>oc_port := Some p\<rparr>)"

definition sync_generation :: "pane_context \<Rightarrow> opencode \<Rightarrow> opencode" where
  "sync_generation ctx s0 =
     (let s = (case ctx_command ctx of None \<Rightarrow> s0 | Some command \<Rightarrow> observe_command command s0)
      in if oc_generation s = Some (ctx_generation ctx) then s
         else s\<lparr>oc_generation := Some (ctx_generation ctx), oc_retrying := None, oc_exited := False, oc_fired := False,
                oc_last_poll := None\<rparr>)"

text \<open>\<^verbatim>\<open>fetch_status\<close>: the request that is written, and what is made of the bytes that come back.\<close>

definition fetch_status :: "rstring option \<Rightarrow> u8 list option \<Rightarrow> opencode \<Rightarrow> rstring \<times> rstring option" where
  "fetch_status var raw s = (http_request STATUS_PATH (opencode_port var s), http_answer STATUS_PATH raw)"

definition poll_due :: "int \<Rightarrow> opencode \<Rightarrow> bool" where
  "poll_due now_epoch s =
     (case oc_last_poll s of
        None \<Rightarrow> True
      | Some at \<Rightarrow> \<not> (at \<le> now_epoch \<and> now_epoch < sat64 (at + MIN_POLL_INTERVAL_SECS)))"

definition remember_retry :: "session_status \<Rightarrow> int \<Rightarrow> opencode \<Rightarrow> opencode" where
  "remember_retry st now_epoch s =
     (let resets = (case st_kind st of Retry (Some next) \<Rightarrow> interpret_next next now_epoch | _ \<Rightarrow> None);
          known = (case oc_retrying s of Some r \<Rightarrow> r | None \<Rightarrow> \<lparr>re_session_id = None, re_resets_at = None\<rparr>);
          known = (if st_session_id st \<noteq> None then known\<lparr>re_session_id := st_session_id st\<rparr> else known);
          known = (if resets \<noteq> None then known\<lparr>re_resets_at := resets\<rparr> else known)
      in s\<lparr>oc_retrying := Some known\<rparr>)"

definition went_idle :: "session_status list \<Rightarrow> opencode \<Rightarrow> bool" where
  "went_idle statuses s =
     (let watched = Option.bind (oc_retrying s) re_session_id
      in list_ex (\<lambda>st. st_kind st = IdleStatus
           \<and> (case (watched, st_session_id st) of (Some want, Some got) \<Rightarrow> want = got | _ \<Rightarrow> True)) statuses)"

definition validated_session_id :: "rstring \<Rightarrow> rstring option" where
  "validated_session_id raw =
     (if raw = [] \<or> OPENCODE_MAX_SESSION_ID_BYTES < str_len raw then None
      else if \<not> list_all (\<lambda>c. is_ascii_alphanumeric c \<or> c = 45 \<or> c = 95) raw then None
      else Some raw)"

definition opencode_emit :: "int \<Rightarrow> opencode \<Rightarrow> limit_event option \<times> opencode" where
  "opencode_emit now_epoch s =
     (case oc_retrying s of
        None \<Rightarrow> (None, s)
      | Some r \<Rightarrow>
          (Some (usage (Option.bind (re_session_id r) validated_session_id)
             (case re_resets_at r of Some at \<Rightarrow> if now_epoch < at then Some at else None | None \<Rightarrow> None) RETRY_ENDED_DETAIL),
           s\<lparr>oc_fired := True\<rparr>))"

fun is_retry :: "session_status \<Rightarrow> bool" where
  "is_retry st = (case st_kind st of Retry _ \<Rightarrow> True | _ \<Rightarrow> False)"

definition opencode_poll ::
  "(rstring \<Rightarrow> json option) \<Rightarrow> rstring option \<Rightarrow> pane_context \<Rightarrow> int \<Rightarrow> opencode \<Rightarrow> limit_event option \<times> opencode" where
  "opencode_poll parse fetched ctx now_epoch s0 =
     (let s = sync_generation ctx s0
      in if oc_fired s then (None, s)
         else if oc_exited s then opencode_emit now_epoch s
         else if \<not> poll_due now_epoch s then (None, s)
         else
           let s = s\<lparr>oc_last_poll := Some now_epoch\<rparr>
           in case fetched of
                None \<Rightarrow> (None, s)
              | Some body \<Rightarrow>
                  let statuses = parse_status_body parse body
                  in case find is_retry statuses of
                       Some st \<Rightarrow> (None, remember_retry st now_epoch s)
                     | None \<Rightarrow> if oc_retrying s \<noteq> None \<and> went_idle statuses s then opencode_emit now_epoch s else (None, s))"

definition opencode_on_output :: "pane_context \<Rightarrow> rstring \<Rightarrow> int \<Rightarrow> opencode \<Rightarrow> limit_event option \<times> opencode" where
  "opencode_on_output ctx text now_epoch s = (None, s)"

definition opencode_on_exit :: "pane_context \<Rightarrow> opencode \<Rightarrow> opencode" where
  "opencode_on_exit ctx s = (sync_generation ctx s)\<lparr>oc_exited := True\<rparr>"

definition opencode_resume :: "resume_fn" where
  "opencode_resume ctx limit alive =
     (if alive then Some (Hold ALIVE_HOLD)
      else case Option.bind (le_session_id limit) validated_session_id of
             None \<Rightarrow> Some (Hold NO_SESSION_HOLD)
           | Some i \<Rightarrow> Some (RelaunchPlan [RESUME_FLAG, i]))"

section \<open>The ambiguous time\<close>

text \<open>
  Of the three readings of \<^verbatim>\<open>next\<close> at most one applies while the clock shows a time before the year 2524, so the order in which they are tried
  decides nothing, and whatever is answered lies ahead of now by at most eight days, or is a past time after 2019 that the server stated.
\<close>

lemma plausible_reset_iff:
  "plausible_reset secs now = Some at \<longleftrightarrow> at = secs \<and> MIN_PLAUSIBLE_EPOCH_SECS \<le> secs \<and> secs \<le> sat64 (now + MAX_RESET_HORIZON_SECS)"
  by (auto simp: plausible_reset_def)

lemmas time_evals = MIN_PLAUSIBLE_EPOCH_SECS_def MAX_RESET_HORIZON_SECS_def MAX_RELATIVE_NEXT_MILLIS_def MILLIS_PER_SEC_def

lemma next_readings_differ:
  assumes "now < 17500000000"
  shows "length (filter id [plausible_reset next now \<noteq> None, plausible_reset (next div MILLIS_PER_SEC) now \<noteq> None,
    0 < next \<and> next \<le> MAX_RELATIVE_NEXT_MILLIS]) \<le> 1"
  using assms by (auto simp: plausible_reset_def time_evals sat64_def)

lemma interpret_next_bounds:
  assumes "interpret_next next now = Some at" "0 \<le> now" "now < 2 ^ 62"
  shows "at \<le> now + MAX_RESET_HORIZON_SECS \<and> (MIN_PLAUSIBLE_EPOCH_SECS \<le> at \<or> now \<le> at)"
proof -
  have s: "sat64 (now + MAX_RESET_HORIZON_SECS) = now + MAX_RESET_HORIZON_SECS" using assms(2, 3) by (simp add: sat64_def time_evals)
  have d: "sat64 (now + next div MILLIS_PER_SEC) = now + next div MILLIS_PER_SEC" "next div MILLIS_PER_SEC \<le> MAX_RESET_HORIZON_SECS"
    "0 \<le> next div MILLIS_PER_SEC"
    if "0 < next" "next \<le> MAX_RELATIVE_NEXT_MILLIS"
    using that assms(2, 3) by (auto simp: sat64_def time_evals)
  show ?thesis using assms(1) s d
    by (auto simp: interpret_next_def plausible_reset_iff split: if_splits option.splits)
qed

section \<open>Observing only\<close>

text \<open>What happens to the adapter of a pane within one generation: the process ends, or it is polled.\<close>

datatype oc_event = OcExit | OcPoll "rstring option" int

fun oc_step :: "(rstring \<Rightarrow> json option) \<Rightarrow> pane_context \<Rightarrow> opencode \<Rightarrow> oc_event \<Rightarrow> limit_event option \<times> opencode" where
  "oc_step parse ctx s OcExit = (None, opencode_on_exit ctx s)"
| "oc_step parse ctx s (OcPoll fetched now) = opencode_poll parse fetched ctx now s"

fun oc_run :: "(rstring \<Rightarrow> json option) \<Rightarrow> pane_context \<Rightarrow> opencode \<Rightarrow> oc_event list \<Rightarrow> (oc_event \<times> limit_event option) list" where
  "oc_run parse ctx s [] = []"
| "oc_run parse ctx s (e # es) = (let (limit, s) = oc_step parse ctx s e in (e, limit) # oc_run parse ctx s es)"

text \<open>Whether a snapshot shows a retry, and what the specification of a report asks of the history \<open>past\<close> before it.\<close>

definition shows_retry :: "(rstring \<Rightarrow> json option) \<Rightarrow> oc_event \<Rightarrow> bool" where
  "shows_retry parse e =
     (case e of OcPoll (Some body) _ \<Rightarrow> list_ex is_retry (parse_status_body parse body) | _ \<Rightarrow> False)"

definition shows_idle :: "(rstring \<Rightarrow> json option) \<Rightarrow> oc_event \<Rightarrow> bool" where
  "shows_idle parse e =
     (case e of OcPoll (Some body) _ \<Rightarrow> list_ex (\<lambda>st. st_kind st = IdleStatus) (parse_status_body parse body) | _ \<Rightarrow> False)"

definition may_report :: "(rstring \<Rightarrow> json option) \<Rightarrow> oc_event set \<Rightarrow> oc_event \<Rightarrow> limit_event \<Rightarrow> bool" where
  "may_report parse past e limit \<longleftrightarrow>
     (\<exists>x \<in> past. shows_retry parse x) \<and> (OcExit \<in> past \<or> shows_idle parse e \<and> \<not> shows_retry parse e)
     \<and> (case e of OcExit \<Rightarrow> False | OcPoll _ now \<Rightarrow> (case le_resets_at limit of None \<Rightarrow> True | Some at \<Rightarrow> now < at))
     \<and> (case le_session_id limit of None \<Rightarrow> True | Some i \<Rightarrow> validated_session_id i = Some i)"

fun reports_ok :: "(rstring \<Rightarrow> json option) \<Rightarrow> bool \<Rightarrow> oc_event set \<Rightarrow> (oc_event \<times> limit_event option) list \<Rightarrow> bool" where
  "reports_ok parse reported past [] = True"
| "reports_ok parse reported past ((e, limit) # es) =
     ((case limit of None \<Rightarrow> True | Some l \<Rightarrow> \<not> reported \<and> may_report parse past e l)
      \<and> reports_ok parse (reported \<or> limit \<noteq> None) (insert e past) es)"

definition oc_inv :: "(rstring \<Rightarrow> json option) \<Rightarrow> pane_context \<Rightarrow> oc_event set \<Rightarrow> bool \<Rightarrow> opencode \<Rightarrow> bool" where
  "oc_inv parse ctx past reported s \<longleftrightarrow> (reported \<longrightarrow> oc_fired s)
     \<and> (oc_retrying s \<noteq> None \<longrightarrow> (\<exists>x \<in> past. shows_retry parse x)) \<and> (oc_exited s \<longrightarrow> OcExit \<in> past)"

lemma observe_command_keeps [simp]:
  "oc_fired (observe_command c s) = oc_fired s" "oc_retrying (observe_command c s) = oc_retrying s"
  "oc_exited (observe_command c s) = oc_exited s" "oc_generation (observe_command c s) = oc_generation s"
  by (simp_all add: observe_command_def split: option.split)

lemma sync_same:
  "oc_generation s = Some (ctx_generation ctx) \<Longrightarrow>
     oc_fired (sync_generation ctx s) = oc_fired s \<and> oc_retrying (sync_generation ctx s) = oc_retrying s
     \<and> oc_exited (sync_generation ctx s) = oc_exited s"
  by (simp add: sync_generation_def Let_def split: option.split)

lemma sync_generation_at [simp]: "oc_generation (sync_generation ctx s) = Some (ctx_generation ctx)"
  by (simp add: sync_generation_def Let_def split: option.split)

lemma opencode_poll_cases:
  fixes s now fetched and ctx :: pane_context
  defines "s' \<equiv> sync_generation ctx s"
  obtains
    (quiet) s2 where "opencode_poll parse fetched ctx now s = (None, s2)" "oc_generation s2 = Some (ctx_generation ctx)"
      "oc_fired s2 = oc_fired s'" "oc_retrying s2 = oc_retrying s'" "oc_exited s2 = oc_exited s'"
  | (retry) body st where "fetched = Some body" "find is_retry (parse_status_body parse body) = Some st"
      "opencode_poll parse fetched ctx now s = (None, remember_retry st now (s'\<lparr>oc_last_poll := Some now\<rparr>))"
  | (over) "\<not> oc_fired s'" "oc_exited s'" "oc_retrying s' \<noteq> None"
      "opencode_poll parse fetched ctx now s = opencode_emit now s'"
  | (idle) body where "\<not> oc_fired s'" "fetched = Some body" "find is_retry (parse_status_body parse body) = None"
      "oc_retrying s' \<noteq> None" "went_idle (parse_status_body parse body) (s'\<lparr>oc_last_poll := Some now\<rparr>)"
      "opencode_poll parse fetched ctx now s = opencode_emit now (s'\<lparr>oc_last_poll := Some now\<rparr>)"
proof -
  have g: "oc_generation s' = Some (ctx_generation ctx)" by (simp add: s'_def)
  note p = opencode_poll_def [of parse fetched ctx now s, folded s'_def]
  consider (q) "oc_fired s' \<or> (oc_exited s' \<and> oc_retrying s' = None) \<or> (\<not> oc_exited s' \<and> (\<not> poll_due now s' \<or> fetched = None))"
    | (o) "\<not> oc_fired s'" "oc_exited s'" "oc_retrying s' \<noteq> None"
    | (r) body where "\<not> oc_fired s'" "\<not> oc_exited s'" "poll_due now s'" "fetched = Some body" by blast
  then show thesis
  proof cases
    case q
    with g show thesis by (intro quiet [of "snd (opencode_poll parse fetched ctx now s)"]) (auto simp: p Let_def opencode_emit_def)
  next
    case o
    then show thesis by (intro over) (simp_all add: p Let_def)
  next
    case (r body)
    let ?s = "s'\<lparr>oc_last_poll := Some now\<rparr>"
    show thesis
    proof (cases "find is_retry (parse_status_body parse body)")
      case None
      have e: "opencode_poll parse fetched ctx now s =
          (if oc_retrying ?s \<noteq> None \<and> went_idle (parse_status_body parse body) ?s then opencode_emit now ?s else (None, ?s))"
        unfolding p by (simp add: Let_def r None)
      show thesis
      proof (cases "oc_retrying s' \<noteq> None \<and> went_idle (parse_status_body parse body) ?s")
        case True
        with r None e show thesis by (intro idle [of body]) simp_all
      next
        case False
        with e g show thesis by (intro quiet [of ?s]) auto
      qed
    next
      case (Some st)
      have "opencode_poll parse fetched ctx now s = (None, remember_retry st now ?s)"
        unfolding p by (simp add: Let_def r Some)
      with r Some show thesis by (intro retry [of body st])
    qed
  qed
qed

lemma emit_report:
  assumes "oc_retrying s = Some r"
  shows "\<exists>l. opencode_emit now s = (Some l, s\<lparr>oc_fired := True\<rparr>)
    \<and> (case le_resets_at l of None \<Rightarrow> True | Some at \<Rightarrow> now < at)
    \<and> (case le_session_id l of None \<Rightarrow> True | Some i \<Rightarrow> validated_session_id i = Some i)"
  using assms by (auto simp: opencode_emit_def validated_session_id_def bind_eq_Some_conv split: option.split if_splits)

lemma oc_step_ok:
  assumes "oc_inv parse ctx past reported s" "oc_generation s = Some (ctx_generation ctx)" "oc_step parse ctx s e = (limit, s2)"
  shows "(case limit of None \<Rightarrow> True | Some l \<Rightarrow> \<not> reported \<and> may_report parse past e l)
    \<and> oc_inv parse ctx (insert e past) (reported \<or> limit \<noteq> None) s2 \<and> oc_generation s2 = Some (ctx_generation ctx)"
proof (cases e)
  case OcExit
  with assms sync_same [OF assms(2)] show ?thesis by (auto simp: oc_inv_def opencode_on_exit_def)
next
  case (OcPoll fetched now)
  let ?s = "sync_generation ctx s"
  have same: "oc_fired ?s = oc_fired s" "oc_retrying ?s = oc_retrying s" "oc_exited ?s = oc_exited s"
    using sync_same [OF assms(2)] by auto
  have step: "opencode_poll parse fetched ctx now s = (limit, s2)" using assms(3) OcPoll by simp
  show ?thesis
  proof (cases rule: opencode_poll_cases [of parse fetched ctx now s])
    case (quiet s3)
    with step same assms(1) show ?thesis by (auto simp: oc_inv_def)
  next
    case (retry body st)
    then have "shows_retry parse e" using OcPoll by (auto simp: shows_retry_def list_ex_iff find_Some_iff)
    with retry step same assms(1) show ?thesis by (auto simp: oc_inv_def remember_retry_def Let_def)
  next
    case over
    then obtain r where r: "oc_retrying ?s = Some r" by auto
    from emit_report [OF this, of now] over step same assms(1) r OcPoll show ?thesis
      by (auto simp: oc_inv_def may_report_def)
  next
    case (idle body)
    then obtain r where r: "oc_retrying (?s\<lparr>oc_last_poll := Some now\<rparr>) = Some r" by auto
    have "shows_idle parse e" "\<not> shows_retry parse e"
      using idle OcPoll by (auto simp: shows_idle_def shows_retry_def went_idle_def Let_def list_ex_iff find_None_iff)
    with emit_report [OF r, of now] idle step same assms(1) r OcPoll show ?thesis
      by (auto simp: oc_inv_def may_report_def)
  qed
qed

lemma oc_run_ok:
  "oc_inv parse ctx past reported s \<Longrightarrow> oc_generation s = Some (ctx_generation ctx) \<Longrightarrow> reports_ok parse reported past (oc_run parse ctx s es)"
proof (induction es arbitrary: s reported past)
  case (Cons e es)
  obtain limit s2 where st: "oc_step parse ctx s e = (limit, s2)" by fastforce
  from oc_step_ok [OF Cons.prems st] Cons.IH [of "insert e past" "reported \<or> limit \<noteq> None" s2] st show ?case by simp
qed simp

text \<open>
  \<^bold>\<open>C30\<close>. The OpenCode adapter only observes. In one generation of a pane, however its server answers and whatever is polled
  when, at most one limit is reported; only after a snapshot had shown a retry, and only once it is over, which is that the
  process has exited or that this very snapshot shows an idle session and no retry. The time it names, if any, is still ahead, and so is a session id safe to pass on.
\<close>

theorem opencode_reports_once:
  "reports_ok parse False {} (oc_run parse ctx (sync_generation ctx opencode_new) es)"
  by (rule oc_run_ok) (simp_all add: oc_inv_def opencode_new_def sync_generation_def Let_def observe_command_def split: option.split)

end
