(* ===== verification/Recovery_Loop.thy ===== *)
theory Recovery_Loop
  imports Opencode_Adapter "HOL-Library.AList"
begin

text \<open>
  The whole recovery plugin: which adapter watches a pane (\<^verbatim>\<open>plugins/nightcrow-recovery/src/provider/mod.rs\<close>), the main loop
  (\<^verbatim>\<open>runloop.rs\<close>) and the two ends of its line stream (\<^verbatim>\<open>runloop_io.rs\<close>).

  \<^item> The table of panes is an association list; the order in which a tick visits it is an argument.
  \<^item> A step of the loop is one message or none, with the two clocks as they are read on it. \<open>provider_env\<close> is what
    an adapter finds when it looks: Codex's files, and the bytes the OpenCode server answered with.
  \<^item> Writing to the standard output may fail, which ends the plugin: what reaches the host is a prefix of what \<open>plugin_run\<close> emits.
\<close>

section \<open>Which adapter\<close>

datatype provider = CodexProvider codex | OpenCodeProvider opencode

record provider_env =
  pv_codex :: codex_env
  pv_raw :: "u8 list option"
  pv_port :: "rstring option"

definition first_word :: "rstring \<Rightarrow> rstring option" where
  "first_word command0 =
     (let command = dropWhile is_whitespace command0
      in case command of
           [] \<Rightarrow> None
         | quote # quoted \<Rightarrow>
             if quote = 34 \<or> quote = 39 then
               if quote \<in> set quoted then
                 let word = takeWhile (\<lambda>c. c \<noteq> quote) quoted;
                     trailing = drop (length word + 1) quoted
                 in if trailing \<noteq> [] \<and> \<not> is_whitespace (hd trailing) then None
                    else if word \<noteq> [] then Some word else None
               else None
             else (case split_whitespace command of [] \<Rightarrow> None | w # _ \<Rightarrow> Some w))"

definition detect :: "rstring option \<Rightarrow> provider option" where
  "detect command =
     Option.bind command (\<lambda>c.
     Option.bind (first_word c) (\<lambda>word.
     Option.bind (file_name word) (\<lambda>program.
       if program = lit ''codex'' then Some (CodexProvider (\<lambda>_. None))
       else if program = lit ''opencode'' then Some (OpenCodeProvider opencode_new)
       else None)))"

fun provider_name :: "provider \<Rightarrow> rstring" where
  "provider_name (CodexProvider _) = lit ''codex''"
| "provider_name (OpenCodeProvider _) = lit ''opencode''"

fun provider_on_output :: "provider_env \<Rightarrow> pane_context \<Rightarrow> rstring \<Rightarrow> int \<Rightarrow> provider \<Rightarrow> limit_event option \<times> provider" where
  "provider_on_output env ctx text now (CodexProvider c) = map_prod id CodexProvider (codex_on_output (pv_codex env) ctx text now c)"
| "provider_on_output env ctx text now (OpenCodeProvider c) = map_prod id OpenCodeProvider (opencode_on_output ctx text now c)"

fun provider_poll :: "provider_env \<Rightarrow> pane_context \<Rightarrow> int \<Rightarrow> provider \<Rightarrow> limit_event option \<times> provider" where
  "provider_poll env ctx now (CodexProvider c) = map_prod id CodexProvider (codex_poll (pv_codex env) ctx now c)"
| "provider_poll env ctx now (OpenCodeProvider c) =
     map_prod id OpenCodeProvider (opencode_poll (ce_parse (pv_codex env)) (snd (fetch_status (pv_port env) (pv_raw env) (sync_generation ctx c))) ctx now c)"

fun provider_on_exit :: "pane_context \<Rightarrow> provider \<Rightarrow> provider" where
  "provider_on_exit ctx (CodexProvider c) = CodexProvider (codex_on_exit ctx c)"
| "provider_on_exit ctx (OpenCodeProvider c) = OpenCodeProvider (opencode_on_exit ctx c)"

fun provider_resume :: "provider \<Rightarrow> resume_fn" where
  "provider_resume (CodexProvider c) = codex_resume c"
| "provider_resume (OpenCodeProvider c) = opencode_resume"

section \<open>The loop\<close>

definition MAX_TRACKED_PANES :: nat where
  "MAX_TRACKED_PANES = 64"

record watch =
  wa_recovery :: pane_recovery
  wa_provider :: provider
  wa_ctx :: pane_context

type_synonym watches = "(pane_token \<times> watch) list"

definition plugin_log :: "log_level \<Rightarrow> rstring \<Rightarrow> plugin_command" where
  "plugin_log level message = Log PROTOCOL_VERSION level message"

definition farewell :: "watches \<Rightarrow> plugin_command list" where
  "farewell panes =
     (let unfinished = length (filter (\<lambda>(_, w). rc_state (wa_recovery w) \<noteq> Idle) panes)
      in if 0 < unfinished then
           [plugin_log LogInfo (lit ''stopping with '' @ dec_str unfinished @ lit '' pane(s) mid-recovery after ''
              @ dec_str (unat (sum_list (map (\<lambda>(_, w). rc_attempt (wa_recovery w)) panes))) @ lit '' resume attempt(s)'')]
         else [])"

definition open_pane ::
  "pane_token \<Rightarrow> pane_generation \<Rightarrow> rstring option \<Rightarrow> rstring \<Rightarrow> watches \<Rightarrow> plugin_command list \<times> watches" where
  "open_pane token generation command cwd panes =
     (let ctx = \<lparr>ctx_token = token, ctx_generation = generation, ctx_cwd = cwd, ctx_command = command\<rparr>
      in case map_of panes token of
           Some w \<Rightarrow> ([], AList.update token (w\<lparr>wa_ctx := ctx\<rparr>) panes)
         | None \<Rightarrow>
             (case detect command of
                None \<Rightarrow> ([], panes)
              | Some provider \<Rightarrow>
                  if MAX_TRACKED_PANES \<le> length panes then
                    ([plugin_log LogWarn (lit ''already watching 64 panes; not watching another'')], panes)
                  else
                    ([plugin_log LogInfo (lit ''watching a '' @ provider_name provider @ lit '' pane'')],
                     AList.update token \<lparr>wa_recovery = recovery_new token generation, wa_provider = provider, wa_ctx = ctx\<rparr> panes)))"

text \<open>What a message does to the watch of its pane, once the slot's table has it.\<close>

definition tell_watch ::
  "provider_env \<Rightarrow> plugin_event \<Rightarrow> int \<Rightarrow> instant \<Rightarrow> watch \<Rightarrow> plugin_command list option \<times> watch" where
  "tell_watch env event now_epoch now w =
     (case on_event event (wa_recovery w) of
        (None, r) \<Rightarrow> (None, w\<lparr>wa_recovery := r\<rparr>)
      | (Some commands, r) \<Rightarrow>
          let ctx = (wa_ctx w)\<lparr>ctx_generation := rc_generation r\<rparr>;
              (limit, provider) =
                (case event of
                   PaneOutput _ _ _ text \<Rightarrow> provider_on_output env ctx text now_epoch (wa_provider w)
                 | PaneExited _ _ _ \<Rightarrow> (None, provider_on_exit ctx (wa_provider w))
                 | _ \<Rightarrow> (None, wa_provider w));
              (more, r) = (case limit of None \<Rightarrow> ([], r) | Some l \<Rightarrow> note_limit l now_epoch now r)
          in (Some (commands @ more), \<lparr>wa_recovery = r, wa_provider = provider, wa_ctx = ctx\<rparr>))"

definition on_host_event ::
  "provider_env \<Rightarrow> plugin_event \<Rightarrow> int \<Rightarrow> instant \<Rightarrow> watches \<Rightarrow> plugin_command list \<times> watches" where
  "on_host_event env event now_epoch now panes0 =
     (case ev_token event of
        None \<Rightarrow> ([], panes0)
      | Some token \<Rightarrow>
          let (opened, panes) =
                (case event of
                   PaneOpened _ _ generation _ command cwd \<Rightarrow> open_pane token generation command cwd panes0
                 | _ \<Rightarrow> ([], panes0))
          in case map_of panes token of
               None \<Rightarrow> (opened, panes)
             | Some w \<Rightarrow>
                 (case tell_watch env event now_epoch now w of
                    (None, w) \<Rightarrow> (opened, AList.update token w panes)
                  | (Some commands, w) \<Rightarrow>
                      (opened @ commands,
                       (case event of PaneClosed _ _ _ \<Rightarrow> AList.delete token panes | _ \<Rightarrow> AList.update token w panes))))"

definition tick_watch :: "provider_env \<Rightarrow> int \<Rightarrow> instant \<Rightarrow> watch \<Rightarrow> plugin_command list \<times> watch" where
  "tick_watch env epoch now w =
     (let (limit, provider) = provider_poll env (wa_ctx w) epoch (wa_provider w);
          (noted, r) = (case limit of None \<Rightarrow> ([], wa_recovery w) | Some l \<Rightarrow> note_limit l epoch now (wa_recovery w));
          (ticked, r) = recovery_tick (provider_resume provider) (wa_ctx w) epoch now r
      in (noted @ ticked, w\<lparr>wa_recovery := r, wa_provider := provider\<rparr>))"

fun tick_panes ::
  "(pane_token \<Rightarrow> provider_env) \<Rightarrow> int \<Rightarrow> instant \<Rightarrow> pane_token list \<Rightarrow> watches \<Rightarrow> plugin_command list \<times> watches" where
  "tick_panes env epoch now [] panes = ([], panes)"
| "tick_panes env epoch now (token # tokens) panes =
     (case map_of panes token of
        None \<Rightarrow> tick_panes env epoch now tokens panes
      | Some w \<Rightarrow>
          let (commands, w) = tick_watch (env token) epoch now w;
              (more, panes) = tick_panes env epoch now tokens (AList.update token w panes)
          in (commands @ more, panes))"

datatype loop_message = Host plugin_event | HostGarbage rstring | HostGone

record loop_step =
  ls_message :: "loop_message option"
  ls_env :: "pane_token \<Rightarrow> provider_env"
  ls_event_epoch :: int
  ls_event_now :: instant
  ls_tick_env :: "pane_token \<Rightarrow> provider_env"
  ls_tick_epoch :: int
  ls_tick_now :: instant
  ls_order :: "pane_token list"

definition ends_plugin :: "loop_step \<Rightarrow> bool" where
  "ends_plugin st = (case ls_message st of Some HostGone \<Rightarrow> True | Some (Host (Shutdown _)) \<Rightarrow> True | _ \<Rightarrow> False)"

definition loop_message_step :: "loop_step \<Rightarrow> watches \<Rightarrow> plugin_command list \<times> watches" where
  "loop_message_step st panes =
     (case ls_message st of
        Some (Host event) \<Rightarrow>
          on_host_event (case ev_token event of None \<Rightarrow> ls_env st (PaneToken []) | Some t \<Rightarrow> ls_env st t) event
            (ls_event_epoch st) (ls_event_now st) panes
      | Some (HostGarbage reason) \<Rightarrow> ([plugin_log LogWarn reason], panes)
      | _ \<Rightarrow> ([], panes))"

text \<open>The commands in the order they are emitted, each with the instant of the step that emitted it.\<close>

fun plugin_run :: "loop_step list \<Rightarrow> watches \<Rightarrow> (instant \<times> plugin_command) list" where
  "plugin_run [] panes = []"
| "plugin_run (st # sts) panes =
     (if ends_plugin st then map (Pair (ls_event_now st)) (farewell panes)
      else
        let (told, panes) = loop_message_step st panes;
            (ticked, panes) = tick_panes (ls_tick_env st) (ls_tick_epoch st) (ls_tick_now st) (ls_order st) panes
        in map (Pair (ls_event_now st)) told @ map (Pair (ls_tick_now st)) ticked @ plugin_run sts panes)"

definition run_plugin :: "instant \<Rightarrow> loop_step list \<Rightarrow> (instant \<times> plugin_command) list" where
  "run_plugin start sts = (start, plugin_log LogInfo (lit ''nightcrow-recovery watching panes'')) # plugin_run sts []"

section \<open>Lines in and lines out\<close>

text \<open>One line of the host, as the reading thread passes it on; \<open>show_error\<close> renders an error.\<close>

definition stdin_message ::
  "(rstring \<Rightarrow> plugin_event option) \<Rightarrow> (protocol_error \<Rightarrow> rstring) \<Rightarrow> rstring \<Rightarrow> loop_message option" where
  "stdin_message from_str show_error line =
     (if str_trim line = [] then None
      else Some (case decode_event from_str line of
             Inr event \<Rightarrow> Host event
           | Inl e \<Rightarrow> HostGarbage (lit ''ignoring a host line: '' @ show_error e)))"

text \<open>The reading thread: the lines until one cannot be read (\<open>None\<close>), then the end.\<close>

fun stdin_messages ::
  "(rstring \<Rightarrow> plugin_event option) \<Rightarrow> (protocol_error \<Rightarrow> rstring) \<Rightarrow> rstring option list \<Rightarrow> loop_message list" where
  "stdin_messages from_str show_error (Some line # ls) =
     (case stdin_message from_str show_error line of None \<Rightarrow> [] | Some m \<Rightarrow> [m]) @ stdin_messages from_str show_error ls"
| "stdin_messages from_str show_error _ = [HostGone]"

text \<open>\<^verbatim>\<open>emit\<close>: the line written, without its newline, or an error that ends the plugin.\<close>

definition emit_line ::
  "(plugin_command \<Rightarrow> rstring option) \<Rightarrow> (protocol_error \<Rightarrow> rstring) \<Rightarrow> plugin_command \<Rightarrow> protocol_error + rstring" where
  "emit_line to_string show_error command =
     (case encode_command to_string command of
        Inr line \<Rightarrow> Inr line
      | Inl e \<Rightarrow> encode_command to_string (plugin_log LogError (lit ''dropped an unencodable command: '' @ show_error e)))"

section \<open>What a pane's commands can be\<close>

fun tame :: "plugin_command \<Rightarrow> bool" where
  "tame (Status _ _ _ _ _ _ _) = True"
| "tame (Log _ _ _) = True"
| "tame _ = False"

lemma tame_goto [simp]: "list_all tame (fst (goto st s))"
  by (simp add: fst_goto status_def)

lemma tame_cancel [simp]: "list_all tame (fst (recovery_cancel s))"
  by (simp add: recovery_cancel_def Let_def)

lemma tame_new_spawn [simp]: "list_all tame (fst (new_spawn g s))"
  by (simp add: new_spawn_def confirm_resume_def Let_def)

lemma tame_on_event: "on_event ev s = (Some cs, s') \<Longrightarrow> list_all tame cs"
  by (auto simp: on_event_def Let_def case_prod_beta split: option.splits plugin_event.splits if_splits)

lemma tame_fst_on_event: "fst (on_event ev s) = Some cs \<Longrightarrow> list_all tame cs"
  using tame_on_event [of ev s cs "snd (on_event ev s)"] by (simp add: prod_eq_iff)

lemma tame_arm [simp]: "list_all tame (fst (arm_backoff e t s))" "list_all tame (fst (arm_wait e t s))"
  by (simp_all add: arm_backoff_def arm_wait_def split: option.split)

lemma tame_note_limit [simp]: "list_all tame (fst (note_limit l e t s))"
  by (simp add: note_limit_def Let_def case_prod_beta)

lemma tame_tick_wait [simp]: "list_all tame (fst (tick_wait e t s))"
  by (simp add: tick_wait_def Let_def case_prod_beta arm_wait_after_failure_def split: option.split)

lemma tame_try_resume: "c \<in> set (fst (try_resume resume ctx e t s)) \<Longrightarrow> tame c \<or> is_relaunch c"
proof -
  have "list_all (\<lambda>c. tame c \<or> is_relaunch c) (fst (try_resume resume ctx e t s))"
    using tame_goto [unfolded list_all_iff] tame_cancel [of s, unfolded list_all_iff] tame_arm(1) [unfolded list_all_iff]
    by (auto simp: list_all_iff try_resume_def relaunch_def spend_attempt_def arm_wait_after_failure_def Let_def case_prod_beta
        split: option.split resume_plan.split)
  then show "c \<in> set (fst (try_resume resume ctx e t s)) \<Longrightarrow> tame c \<or> is_relaunch c" by (simp add: list_all_iff)
qed

lemma tame_or_relaunch: "c \<in> set (fst (recovery_tick resume ctx e t s)) \<Longrightarrow> tame c \<or> is_relaunch c"
  using tame_tick_wait [of e t s] tame_try_resume [of c resume ctx e t]
  by (auto simp: recovery_tick_def Let_def case_prod_beta list_all_iff split: if_splits)

lemma tame_not_relaunch: "tame c \<Longrightarrow> \<not> is_relaunch c"
  by (cases c) auto

lemma tame_relaunches: "list_all tame cs \<Longrightarrow> relaunches cs = 0"
  by (auto simp: relaunches_def filter_empty_conv list_all_iff dest: tame_not_relaunch)

lemma goto_keeps [simp]:
  "rc_token (snd (goto st s)) = rc_token s" "rc_alive (snd (goto st s)) = rc_alive s" "rc_generation (snd (goto st s)) = rc_generation s"
  by simp_all

lemma cancel_keeps [simp]:
  "rc_token (snd (recovery_cancel s)) = rc_token s" "rc_alive (snd (recovery_cancel s)) = rc_alive s"
  "rc_generation (snd (recovery_cancel s)) = rc_generation s"
  by (simp_all add: snd_cancel)

lemma arm_keeps [simp]:
  "rc_token (snd (arm_backoff e t s)) = rc_token s" "rc_alive (snd (arm_backoff e t s)) = rc_alive s"
  "rc_generation (snd (arm_backoff e t s)) = rc_generation s"
  by (simp_all add: arm_backoff_def)

lemma note_limit_keeps [simp]:
  "rc_token (snd (note_limit l e t s)) = rc_token s" "rc_alive (snd (note_limit l e t s)) = rc_alive s"
  "rc_generation (snd (note_limit l e t s)) = rc_generation s"
  by (simp_all add: note_limit_def arm_wait_def Let_def case_prod_beta split: option.split)

lemma try_resume_keeps [simp]:
  "rc_token (snd (try_resume resume ctx e t s)) = rc_token s" "rc_alive (snd (try_resume resume ctx e t s)) = rc_alive s"
  "rc_generation (snd (try_resume resume ctx e t s)) = rc_generation s"
  by (simp_all add: try_resume_def relaunch_def spend_attempt_def arm_wait_after_failure_def Let_def case_prod_beta
      split: option.split resume_plan.split)

lemma recovery_tick_keeps [simp]:
  "rc_token (snd (recovery_tick resume ctx e t s)) = rc_token s" "rc_alive (snd (recovery_tick resume ctx e t s)) = rc_alive s"
  "rc_generation (snd (recovery_tick resume ctx e t s)) = rc_generation s"
  by (simp_all add: recovery_tick_def Let_def case_prod_beta)

lemma new_spawn_keeps:
  "rc_token (snd (new_spawn g s)) = rc_token s" "rc_generation (snd (new_spawn g s)) = max g (rc_generation s)"
  "rc_alive (snd (new_spawn g s)) = (rc_generation s < g \<or> rc_alive s)"
  by (auto simp: new_spawn_def confirm_resume_def Let_def)

lemma on_event_keeps: "rc_token (snd (on_event ev s)) = rc_token s"
  by (simp add: on_event_def Let_def case_prod_beta new_spawn_keeps split: option.split plugin_event.split)

lemma on_event_dead:
  assumes "\<not> rc_alive (snd (on_event ev s))"
  shows "\<not> rc_alive s \<and> rc_generation (snd (on_event ev s)) = rc_generation s
    \<or> (\<exists>v t g. ev = PaneExited v t g \<and> rc_generation (snd (on_event ev s)) = g)"
  using assms
  by (cases ev) (auto simp: on_event_def Let_def case_prod_beta new_spawn_keeps max_def split: if_splits)

section \<open>One pane through the loop\<close>

text \<open>
  What a watch knows: its machine is at the slot it is filed under, no relaunch is nearer than 15 seconds to the last
  one, and a process it believes dead is one the host said had ended, in the generation the machine is at.
\<close>

definition watch_ok :: "pane_token \<Rightarrow> instant \<Rightarrow> instant \<Rightarrow> plugin_event set \<Rightarrow> watch \<Rightarrow> bool" where
  "watch_ok tok t0 clock seen w \<longleftrightarrow> rc_token (wa_recovery w) = tok \<and> spaced t0 clock (wa_recovery w)
     \<and> (\<not> rc_alive (wa_recovery w) \<longrightarrow> (\<exists>v. PaneExited v tok (rc_generation (wa_recovery w)) \<in> seen))"

definition session_args :: "rstring list \<Rightarrow> bool" where
  "session_args args \<longleftrightarrow> args_are_safe args
     \<and> (case args of [flag, i] \<Rightarrow> flag = RESUME_SUBCOMMAND \<and> valid_session_id i \<or> flag = RESUME_FLAG \<and> validated_session_id i = Some i
        | _ \<Rightarrow> False)"

text \<open>What the plugin may say to the host: reports, and a relaunch of a dead process into a session it knows by id.\<close>

fun allowed_command :: "plugin_event set \<Rightarrow> plugin_command \<Rightarrow> bool" where
  "allowed_command seen (Relaunch v t g args) \<longleftrightarrow> v = PROTOCOL_VERSION \<and> (\<exists>v. PaneExited v t g \<in> seen) \<and> session_args args"
| "allowed_command seen c = tame c"

fun asks_for :: "pane_token \<Rightarrow> plugin_command \<Rightarrow> bool" where
  "asks_for tok (Relaunch _ t _ _) = (t = tok)"
| "asks_for tok _ = False"

lemma validated_id_safe: "validated_session_id i = Some j \<Longrightarrow> j = i \<and> args_are_safe [RESUME_FLAG, i]"
  by (auto simp: args_are_safe_def validated_session_id_def OPENCODE_MAX_SESSION_ID_BYTES_def list_all_iff
      PLUGIN_MAX_RESUME_ARGS_def PLUGIN_MAX_RESUME_ARG_LEN_def RESUME_FLAG_def plugin_safe_arg_char_def
      is_ascii_alphanumeric_def char_len_def utf8_bytes_def split: if_splits)

lemma provider_resume_plan:
  assumes "provider_resume p ctx limit alive = Some (RelaunchPlan args)"
  shows "session_args args"
proof (cases p)
  case (CodexProvider c)
  with assms show ?thesis by (auto simp: session_args_def valid_id_safe dest: codex_resume_plan)
next
  case (OpenCodeProvider c)
  with assms obtain i j where "args = [RESUME_FLAG, j]" "validated_session_id i = Some j"
    by (auto simp: opencode_resume_def bind_eq_Some_conv split: if_splits option.splits)
  with validated_id_safe [of i j] show ?thesis by (simp add: session_args_def)
qed

lemma allowed_tame [simp]: "tame c \<Longrightarrow> allowed_command seen c"
  by (cases c) auto

lemma allowed_mono: "allowed_command seen c \<Longrightarrow> seen \<subseteq> seen' \<Longrightarrow> allowed_command seen' c"
  by (cases c) auto

lemma tame_asks: "tame c \<Longrightarrow> \<not> asks_for tok c"
  by (cases c) auto

lemma spaced_later: "spaced t0 clock s \<Longrightarrow> clock \<le> t \<Longrightarrow> spaced t0 t s"
  by (auto simp: spaced_def)

lemma watch_ok_later: "watch_ok tok t0 clock seen w \<Longrightarrow> clock \<le> t \<Longrightarrow> seen \<subseteq> seen' \<Longrightarrow> watch_ok tok t0 t seen' w"
  by (auto simp: watch_ok_def intro: spaced_later)

lemma spaced_note_limit:
  assumes "spaced t0 clock s" "clock \<le> t" "t0 \<le> clock"
  shows "spaced t0 t (snd (note_limit l e t s))"
  using spaced_step [OF assms(1), of "NoteLimit l e t"] assms by (simp add: rc_step_def)

lemma spaced_on_event:
  assumes "spaced t0 clock s" "clock \<le> t" "t0 \<le> clock"
  shows "spaced t0 t (snd (on_event ev s))"
proof -
  have "relaunches (fst (rc_apply s (HostEvent ev t))) = 0" by (rule relaunches_host)
  with spaced_step [OF assms(1), of "HostEvent ev t"] assms show ?thesis by (simp add: rc_step_def case_prod_beta)
qed

lemma tell_watch_tame: "fst (tell_watch env ev e t w) = Some cs \<Longrightarrow> list_all tame cs"
  by (auto simp: tell_watch_def Let_def case_prod_beta tame_fst_on_event split: option.splits)

lemma tell_watch_ok:
  assumes "watch_ok tok t0 clock seen w" "clock \<le> t" "t0 \<le> clock" "ev_token ev = Some tok"
  shows "watch_ok tok t0 t (insert ev seen) (snd (tell_watch env ev e t w))"
proof -
  let ?r = "snd (on_event ev (wa_recovery w))"
  have r: "rc_token ?r = tok" "spaced t0 t ?r"
    using assms by (simp_all add: watch_ok_def on_event_keeps spaced_on_event [OF _ assms(2, 3)])
  have "\<exists>v. PaneExited v tok (rc_generation ?r) \<in> insert ev seen" if "\<not> rc_alive ?r"
    using on_event_dead [OF that] assms(1, 4) that
    by (elim disjE exE conjE) (auto simp: watch_ok_def)
  then show ?thesis
    using r spaced_note_limit [of t0 t ?r t] assms(2, 3)
    by (auto simp: watch_ok_def tell_watch_def Let_def case_prod_beta split: option.split prod.splits)
qed

lemma tick_watch_ok:
  assumes "watch_ok tok t0 clock seen w" "clock \<le> t" "t0 \<le> clock"
  shows "list_all (allowed_command seen) (fst (tick_watch env e t w))
    \<and> list_all (\<lambda>c. is_relaunch c \<longrightarrow> asks_for tok c) (fst (tick_watch env e t w))
    \<and> (relaunches (fst (tick_watch env e t w)) = 0 \<and> watch_ok tok t0 t seen (snd (tick_watch env e t w))
       \<or> relaunches (fst (tick_watch env e t w)) = 1 \<and> t0 + from_secs 15 \<le> t
         \<and> watch_ok tok t t seen (snd (tick_watch env e t w)))"
proof -
  let ?w = "wa_recovery w"
  define limit where "limit = fst (provider_poll env (wa_ctx w) e (wa_provider w))"
  define p where "p = snd (provider_poll env (wa_ctx w) e (wa_provider w))"
  define noted where "noted = (case limit of None \<Rightarrow> [] | Some l \<Rightarrow> fst (note_limit l e t ?w))"
  define r where "r = (case limit of None \<Rightarrow> ?w | Some l \<Rightarrow> snd (note_limit l e t ?w))"
  let ?res = "provider_resume p" and ?ctx = "wa_ctx w"
  obtain ticked r' where k: "recovery_tick ?res ?ctx e t r = (ticked, r')" by fastforce
  have out: "tick_watch env e t w = (noted @ ticked, w\<lparr>wa_recovery := r', wa_provider := p\<rparr>)"
    using k by (simp add: tick_watch_def limit_def p_def noted_def r_def Let_def case_prod_beta split: option.splits)
  have r: "rc_token r = tok" "rc_alive r = rc_alive ?w" "rc_generation r = rc_generation ?w" "spaced t0 t r" "list_all tame noted"
    using assms(1) spaced_note_limit [OF _ assms(2, 3)] spaced_later [OF _ assms(2)]
    by (simp_all add: watch_ok_def r_def noted_def split: option.split)
  have r': "rc_token r' = tok" "rc_alive r' = rc_alive r" "rc_generation r' = rc_generation r"
    using recovery_tick_keeps [of ?res ?ctx e t r] k r(1) by simp_all
  have sp: "relaunches ticked = 0 \<and> spaced t0 t r' \<or> relaunches ticked = 1 \<and> t0 + from_secs 15 \<le> t \<and> spaced t t r'"
    using spaced_step [OF r(4), of "Tick ?res ?ctx e t"] k assms(2, 3) by (simp add: rc_step_def)
  have req: "allowed_command seen c \<and> (is_relaunch c \<longrightarrow> asks_for tok c)" if "c \<in> set ticked" for c
  proof (cases c)
    case (Relaunch v tk g args)
    then have "Relaunch v tk g args \<in> set (fst (rc_apply r (Tick ?res ?ctx e t)))" using that k by simp
    from relaunch_request [OF this, of "[]" "[]"] have a: "v = PROTOCOL_VERSION" "tk = tok" "g = rc_generation r" "\<not> rc_alive r"
      "\<exists>limit. ?res ?ctx limit False = Some (RelaunchPlan args)"
      using r(1) by auto
    show ?thesis using a Relaunch assms(1) r(2, 3) provider_resume_plan by (auto simp: watch_ok_def)
  qed (use that k tame_or_relaunch [of c ?res ?ctx e t r] in auto)
  have "list_all (allowed_command seen) (noted @ ticked)" "list_all (\<lambda>c. is_relaunch c \<longrightarrow> asks_for tok c) (noted @ ticked)"
    using req r(5) by (auto simp: list_all_iff dest: tame_not_relaunch)
  moreover have "relaunches (noted @ ticked) = relaunches ticked" using tame_relaunches [OF r(5)] by simp
  moreover have "watch_ok tok s0 t seen (w\<lparr>wa_recovery := r', wa_provider := p\<rparr>) = spaced s0 t r'" for s0
    using assms(1) r(2, 3) r' by (simp add: watch_ok_def)
  ultimately show ?thesis using sp by (simp add: out)
qed

section \<open>The whole table\<close>

text \<open>\<open>T k\<close> is when a relaunch was last asked for slot \<open>k\<close>, or when the plugin began.\<close>

definition table_ok :: "(pane_token \<Rightarrow> instant) \<Rightarrow> instant \<Rightarrow> plugin_event set \<Rightarrow> watches \<Rightarrow> bool" where
  "table_ok T clock seen panes \<longleftrightarrow> (\<forall>k. T k \<le> clock) \<and> (\<forall>k w. map_of panes k = Some w \<longrightarrow> watch_ok k (T k) clock seen w)"

definition asked :: "pane_token \<Rightarrow> plugin_command list \<Rightarrow> nat" where
  "asked k cs = length (filter (asks_for k) cs)"

definition asked_at :: "instant \<Rightarrow> plugin_command list \<Rightarrow> (pane_token \<Rightarrow> instant) \<Rightarrow> (pane_token \<Rightarrow> instant) \<Rightarrow> bool" where
  "asked_at t cs T T' \<longleftrightarrow> (\<forall>k. asked k cs = 0 \<and> T' k = T k \<or> asked k cs = 1 \<and> T k + from_secs 15 \<le> t \<and> T' k = t)"

lemma asked_simps [simp]: "asked k [] = 0" "asked k (a @ b) = asked k a + asked k b"
  by (simp_all add: asked_def)

lemma asked_at_append:
  assumes "asked_at t a T T1" "asked_at t b T1 T2"
  shows "asked_at t (a @ b) T T2"
  unfolding asked_at_def
proof
  fix k
  have "asked k a = 0 \<and> T1 k = T k \<or> asked k a = 1 \<and> T k + from_secs 15 \<le> t \<and> T1 k = t"
    "asked k b = 0 \<and> T2 k = T1 k \<or> asked k b = 1 \<and> T1 k + from_secs 15 \<le> t \<and> T2 k = t"
    using assms by (auto simp: asked_at_def)
  then show "asked k (a @ b) = 0 \<and> T2 k = T k \<or> asked k (a @ b) = 1 \<and> T k + from_secs 15 \<le> t \<and> T2 k = t"
    by (auto simp: from_secs_def)
qed

lemma asked_tame: "list_all tame cs \<Longrightarrow> asked k cs = 0"
  by (auto simp: asked_def filter_empty_conv list_all_iff dest: tame_asks)

lemma asks_is_relaunch: "asks_for k c \<Longrightarrow> is_relaunch c"
  by (cases c) auto

lemma asks_one: "asks_for k c \<Longrightarrow> asks_for k' c \<Longrightarrow> k = k'"
  by (cases c) auto

lemma asked_watch:
  assumes "list_all (\<lambda>c. is_relaunch c \<longrightarrow> asks_for tok c) cs"
  shows "asked k cs = (if k = tok then relaunches cs else 0)"
proof -
  have "filter (asks_for tok) cs = filter is_relaunch cs"
    using assms by (auto simp: list_all_iff dest: asks_is_relaunch intro!: filter_cong)
  moreover have "filter (asks_for k) cs = []" if "k \<noteq> tok"
    using assms that by (auto simp: list_all_iff filter_empty_conv dest: asks_is_relaunch asks_one)
  ultimately show ?thesis by (simp add: asked_def relaunches_def)
qed

lemma table_ok_later: "table_ok T clock seen panes \<Longrightarrow> clock \<le> t \<Longrightarrow> seen \<subseteq> seen' \<Longrightarrow> table_ok T t seen' panes"
  unfolding table_ok_def by (meson le_trans watch_ok_later)

lemma table_ok_update:
  "table_ok T clock seen panes \<Longrightarrow> watch_ok tok (T tok) clock seen w \<Longrightarrow> table_ok T clock seen (AList.update tok w panes)"
  by (auto simp: table_ok_def update_conv')

lemma tick_panes_ok:
  assumes "table_ok T t seen panes"
  shows "list_all (allowed_command seen) (fst (tick_panes env e t order panes))
    \<and> (\<exists>T'. asked_at t (fst (tick_panes env e t order panes)) T T' \<and> table_ok T' t seen (snd (tick_panes env e t order panes)))"
  using assms
proof (induction order arbitrary: T panes)
  case Nil
  then show ?case by (auto simp: asked_at_def)
next
  case (Cons tok order)
  show ?case
  proof (cases "map_of panes tok")
    case None
    with Cons show ?thesis by simp
  next
    case (Some w)
    obtain cs w' where c: "tick_watch (env tok) e t w = (cs, w')" by fastforce
    obtain more panes' where m: "tick_panes env e t order (AList.update tok w' panes) = (more, panes')" by fastforce
    have "watch_ok tok (T tok) t seen w" "T tok \<le> t" using Cons.prems Some by (auto simp: table_ok_def)
    note st = tick_watch_ok [OF this(1) order_refl this(2), of "env tok" e, unfolded c fst_conv snd_conv]
    define T1 where "T1 = (if relaunches cs = 0 then T else T(tok := t))"
    have one: "asked_at t cs T T1"
      using st unfolding asked_at_def T1_def by (auto simp: asked_watch split: if_splits)
    have "watch_ok tok (T1 tok) t seen w'" using st by (auto simp: T1_def)
    moreover have "table_ok T1 t seen (AList.delete tok panes)"
      using Cons.prems by (auto simp: T1_def table_ok_def delete_conv')
    ultimately have "table_ok T1 t seen (AList.update tok w' panes)"
      by (auto simp: table_ok_def update_conv' delete_conv' split: if_splits)
    from Cons.IH [OF this, unfolded m fst_conv snd_conv] obtain T2
      where T2: "list_all (allowed_command seen) more" "asked_at t more T1 T2" "table_ok T2 t seen panes'" by blast
    have "asked_at t (cs @ more) T T2" using one T2(2) by (rule asked_at_append)
    with T2 st Some c m show ?thesis by auto
  qed
qed

lemma new_watch_ok:
  "T tok \<le> t \<Longrightarrow> watch_ok tok (T tok) t seen \<lparr>wa_recovery = recovery_new tok g, wa_provider = p, wa_ctx = ctx\<rparr>"
  using rc_inv_new [of tok g] by (simp add: watch_ok_def spaced_def) (simp add: recovery_new_def)

lemma open_pane_ok:
  assumes "table_ok T t seen panes"
  shows "list_all tame (fst (open_pane tok g command cwd panes)) \<and> table_ok T t seen (snd (open_pane tok g command cwd panes))"
proof (cases "map_of panes tok")
  case None
  have "T tok \<le> t" using assms by (simp add: table_ok_def)
  with None assms show ?thesis
    by (auto simp: open_pane_def Let_def plugin_log_def intro!: table_ok_update new_watch_ok split: option.split)
next
  case (Some w)
  then have "watch_ok tok (T tok) t seen w" using assms by (simp add: table_ok_def)
  then have "watch_ok tok (T tok) t seen (w\<lparr>wa_ctx := c\<rparr>)" for c by (simp add: watch_ok_def)
  with Some assms show ?thesis by (simp add: open_pane_def Let_def table_ok_update)
qed

lemma on_host_event_ok:
  assumes "table_ok T clock seen panes" "clock \<le> t"
  shows "list_all tame (fst (on_host_event env ev e t panes))
    \<and> table_ok T t (insert ev seen) (snd (on_host_event env ev e t panes))"
proof (cases "ev_token ev")
  case None
  with table_ok_later [OF assms, of "insert ev seen"] show ?thesis by (auto simp: on_host_event_def)
next
  case (Some tok)
  let ?seen = "insert ev seen"
  obtain opened ps where o: "(case ev of PaneOpened _ _ g _ command cwd \<Rightarrow> open_pane tok g command cwd panes | _ \<Rightarrow> ([], panes)) = (opened, ps)"
    by fastforce
  have "table_ok T t ?seen panes" using assms by (rule table_ok_later) auto
  then have ps: "list_all tame opened" "table_ok T t ?seen ps"
    using o open_pane_ok [of T t ?seen panes tok] by (auto split: plugin_event.splits simp: prod_eq_iff)
  show ?thesis
  proof (cases "map_of ps tok")
    case None
    with Some o ps show ?thesis by (simp add: on_host_event_def)
  next
    case (Some w)
    then have w: "watch_ok tok (T tok) t ?seen w" "T tok \<le> t" using ps(2) by (auto simp: table_ok_def)
    obtain cs w' where c: "tell_watch env ev e t w = (cs, w')" by fastforce
    have w': "watch_ok tok (T tok) t ?seen w'"
      using tell_watch_ok [OF w(1) order_refl w(2) \<open>ev_token ev = Some tok\<close>, of env e] c by simp
    have "table_ok T t ?seen (AList.update tok w' ps)" "table_ok T t ?seen (AList.delete tok ps)"
      using ps(2) w' by (auto simp: table_ok_update) (auto simp: table_ok_def delete_conv')
    then show ?thesis
      using Some \<open>ev_token ev = Some tok\<close> o c ps tell_watch_tame [of env ev e t w]
      by (auto simp: on_host_event_def Let_def list_all_iff split: option.split plugin_event.split)
  qed
qed

fun host_event :: "loop_step \<Rightarrow> plugin_event set" where
  "host_event st = (case ls_message st of Some (Host ev) \<Rightarrow> {ev} | _ \<Rightarrow> {})"

definition host_events :: "loop_step list \<Rightarrow> plugin_event set" where
  "host_events sts = \<Union> (host_event ` set sts)"

lemma message_step_ok:
  assumes "table_ok T clock seen panes" "clock \<le> ls_event_now st"
  shows "list_all tame (fst (loop_message_step st panes))
    \<and> table_ok T (ls_event_now st) (host_event st \<union> seen) (snd (loop_message_step st panes))"
  using on_host_event_ok [OF assms] table_ok_later [OF assms order_refl]
  by (auto simp: loop_message_step_def plugin_log_def split: option.split loop_message.split)

definition step_times :: "loop_step list \<Rightarrow> instant list" where
  "step_times sts = concat (map (\<lambda>st. [ls_event_now st, ls_tick_now st]) sts)"

definition request_times :: "pane_token \<Rightarrow> (instant \<times> plugin_command) list \<Rightarrow> instant list" where
  "request_times tok out = map fst (filter (\<lambda>(_, c). asks_for tok c) out)"

lemma request_times_simps [simp]:
  "request_times tok [] = []" "request_times tok (a @ b) = request_times tok a @ request_times tok b"
  "request_times tok (map (Pair t) cs) = replicate (asked tok cs) t"
  by (simp_all add: request_times_def asked_def filter_map comp_def map_replicate_const)

lemma tame_farewell: "list_all tame (farewell panes)"
  by (simp add: farewell_def Let_def plugin_log_def)

lemma plugin_run_ok:
  assumes "table_ok T clock seen panes" "sorted (clock # step_times sts)"
  shows "sorted_wrt (\<lambda>a b. a + from_secs 15 \<le> b) (request_times tok (plugin_run sts panes))
    \<and> (\<forall>t \<in> set (request_times tok (plugin_run sts panes)). T tok + from_secs 15 \<le> t)
    \<and> list_all (\<lambda>(_, c). allowed_command (seen \<union> host_events sts) c) (plugin_run sts panes)"
  using assms
proof (induction sts arbitrary: T clock seen panes)
  case Nil
  then show ?case by simp
next
  case (Cons st sts)
  show ?case
  proof (cases "ends_plugin st")
    case True
    with tame_farewell [of panes] show ?thesis
      by (simp add: asked_tame list_all_iff)
  next
    case False
    obtain told ps where m: "loop_message_step st panes = (told, ps)" by fastforce
    obtain ticked qs where k: "tick_panes (ls_tick_env st) (ls_tick_epoch st) (ls_tick_now st) (ls_order st) ps = (ticked, qs)"
      by fastforce
    have times: "clock \<le> ls_event_now st" "ls_event_now st \<le> ls_tick_now st" "sorted (ls_tick_now st # step_times sts)"
      using Cons.prems(2) by (auto simp: step_times_def)
    have told: "list_all tame told" "table_ok T (ls_event_now st) (host_event st \<union> seen) ps"
      using message_step_ok [OF Cons.prems(1) times(1)] m by auto
    then have "table_ok T (ls_tick_now st) (host_event st \<union> seen) ps" using times(2) by (auto intro: table_ok_later)
    from tick_panes_ok [OF this, of "ls_tick_env st" "ls_tick_epoch st" "ls_order st", unfolded k fst_conv snd_conv] obtain T'
      where T': "list_all (allowed_command (host_event st \<union> seen)) ticked" "asked_at (ls_tick_now st) ticked T T'"
        "table_ok T' (ls_tick_now st) (host_event st \<union> seen) qs" by blast
    note IH = Cons.IH [OF T'(3) times(3)]
    have run: "plugin_run (st # sts) panes =
        map (Pair (ls_event_now st)) told @ map (Pair (ls_tick_now st)) ticked @ plugin_run sts qs"
      using False m k by simp
    have "asked tok ticked = 0 \<and> T' tok = T tok \<or> asked tok ticked = 1 \<and> T tok + from_secs 15 \<le> ls_tick_now st \<and> T' tok = ls_tick_now st"
      using T'(2) by (simp add: asked_at_def)
    then have "sorted_wrt (\<lambda>a b. a + from_secs 15 \<le> b) (request_times tok (plugin_run (st # sts) panes))
        \<and> (\<forall>t \<in> set (request_times tok (plugin_run (st # sts) panes)). T tok + from_secs 15 \<le> t)"
      unfolding run using IH asked_tame [OF told(1)] by (auto simp: from_secs_def)
    moreover have "host_event st \<union> seen \<union> host_events sts = seen \<union> host_events (st # sts)" by (auto simp: host_events_def)
    then have "list_all (\<lambda>(_, c). allowed_command (seen \<union> host_events (st # sts)) c) (plugin_run (st # sts) panes)"
      unfolding run using IH told(1) T'(1) by (auto simp: list_all_iff host_events_def intro: allowed_mono)
    ultimately show ?thesis by blast
  qed
qed

subsection \<open>How many panes are watched\<close>

fun tables :: "loop_step list \<Rightarrow> watches \<Rightarrow> watches list" where
  "tables [] panes = [panes]"
| "tables (st # sts) panes =
     panes # (if ends_plugin st then []
       else let panes = snd (loop_message_step st panes)
            in panes # tables sts (snd (tick_panes (ls_tick_env st) (ls_tick_epoch st) (ls_tick_now st) (ls_order st) panes)))"

definition tracked_ok :: "watches \<Rightarrow> bool" where
  "tracked_ok panes \<longleftrightarrow> length panes \<le> MAX_TRACKED_PANES \<and> distinct (map fst panes)"

lemma length_update_old: "map_of al k = Some v \<Longrightarrow> length (AList.update k w al) = length al"
  by (induction al) auto

lemma length_update_new: "map_of al k = None \<Longrightarrow> length (AList.update k w al) = Suc (length al)"
  by (induction al) auto

lemma tracked_update: "tracked_ok panes \<Longrightarrow> map_of panes k = Some v \<Longrightarrow> tracked_ok (AList.update k w panes)"
  by (simp add: tracked_ok_def length_update_old distinct_update)

lemma tracked_delete: "tracked_ok panes \<Longrightarrow> tracked_ok (AList.delete k panes)"
  using length_delete_le [of k panes] by (simp add: tracked_ok_def distinct_delete)

lemma tracked_open_pane: "tracked_ok panes \<Longrightarrow> tracked_ok (snd (open_pane tok g command cwd panes))"
  by (auto simp: open_pane_def Let_def tracked_update split: option.split)
    (auto simp: tracked_ok_def length_update_new distinct_update)

lemma tracked_host_event: "tracked_ok panes \<Longrightarrow> tracked_ok (snd (on_host_event env ev e t panes))"
  by (auto simp: on_host_event_def Let_def case_prod_beta tracked_update tracked_delete tracked_open_pane
      split: option.split plugin_event.split)

lemma tracked_message: "tracked_ok panes \<Longrightarrow> tracked_ok (snd (loop_message_step st panes))"
  by (auto simp: loop_message_step_def tracked_host_event split: option.split loop_message.split)

lemma tracked_tick: "tracked_ok panes \<Longrightarrow> tracked_ok (snd (tick_panes env e t order panes))"
  by (induction order arbitrary: panes) (auto simp: Let_def case_prod_beta tracked_update split: option.split)

lemma tracked_tables: "tracked_ok panes \<Longrightarrow> list_all tracked_ok (tables sts panes)"
  by (induction sts arbitrary: panes) (simp_all add: Let_def tracked_message tracked_tick)

section \<open>What the host hears\<close>

text \<open>
  \<^bold>\<open>C8\<close>. The recovery plugin as a whole, over any run of its loop with a clock that does not run backwards: whatever the host,
  the files and the OpenCode server say, two relaunches it asks of one slot are at least 15 seconds apart, even when the
  slot is closed and opened again in between. All it ever sends besides reports and log lines is a relaunch of a process the host has said
  is gone, in that generation, with no other arguments than \<^verbatim>\<open>resume\<close> or \<^verbatim>\<open>--session\<close> and one session id, which pass
  every check the plugin and the host make of arguments, but for the operator's own list. It never types, never asks for a pane it was not given, and watches at most 64.
\<close>

theorem plugin_asks_sparingly:
  assumes "sorted (start # step_times sts)"
  shows "sorted_wrt (\<lambda>a b. a + from_secs 15 \<le> b) (request_times tok (run_plugin start sts))
    \<and> list_all (\<lambda>(_, c). allowed_command (host_events sts) c) (run_plugin start sts)
    \<and> list_all tracked_ok (tables sts [])"
proof -
  have "table_ok (\<lambda>_. start) start {} []" by (simp add: table_ok_def)
  from plugin_run_ok [OF this assms, of tok] have
    "sorted_wrt (\<lambda>a b. a + from_secs 15 \<le> b) (request_times tok (plugin_run sts []))"
    "list_all (\<lambda>(_, c). allowed_command (host_events sts) c) (plugin_run sts [])" by simp_all
  moreover have "list_all tracked_ok (tables sts [])" by (rule tracked_tables) (simp add: tracked_ok_def)
  ultimately show ?thesis by (simp add: run_plugin_def plugin_log_def request_times_def)
qed

subsection \<open>A run\<close>

text \<open>
  A pane opens, its session's file appears, it prints that the limit is hit and exits, and an hour later it is relaunched into
  its session.
\<close>

definition run_env :: provider_env where
  "run_env = \<lparr>pv_codex = sibling_env sibling_tree, pv_raw = None, pv_port = None\<rparr>"

definition run_step :: "plugin_event option \<Rightarrow> nat \<Rightarrow> loop_step" where
  "run_step ev secs = \<lparr>ls_message = map_option Host ev, ls_env = (\<lambda>_. run_env), ls_event_epoch = int secs,
     ls_event_now = from_secs secs, ls_tick_env = (\<lambda>_. run_env), ls_tick_epoch = int secs, ls_tick_now = from_secs secs,
     ls_order = [PaneToken [97]]\<rparr>"

definition sample_steps :: "loop_step list" where
  "sample_steps =
     [run_step (Some (PaneOpened 3 (PaneToken [97]) 1 None (Some (lit ''codex'')) [])) 100,
      run_step (Some (PaneOutput 3 (PaneToken [97]) 1 (lit ''you've hit your usage limit''))) 120,
      run_step (Some (PaneExited 3 (PaneToken [97]) 1)) 121,
      run_step None 4000]"

definition after_sample :: "loop_step list \<Rightarrow> plugin_command list" where
  "after_sample sts = filter is_relaunch (map snd (run_plugin 0 sts))"

lemma sample_word: "first_word (lit ''codex'') = Some (lit ''codex'')" "file_name (lit ''codex'') = Some (lit ''codex'')"
proof -
  show "first_word (lit ''codex'') = Some (lit ''codex'')"
    by (simp add: first_word_def is_whitespace_def) (subst split_whitespace.simps, simp add: is_whitespace_def Let_def)
  show "file_name (lit ''codex'') = Some (lit ''codex'')"
    by code_simp
qed

lemma sample_detect: "detect (Some (lit ''codex'')) = Some (CodexProvider (\<lambda>_. None))"
  by (simp add: detect_def sample_word del: lit_simps)

definition sample_rollout :: rel_path where
  "sample_rollout = [lit ''2026'', lit ''01'', lit ''02'', lit ''rollout-'' @ sibling_id @ lit ''.jsonl'']"

lemma sample_candidate:
  "candidate_rollouts sibling_tree 100 = [sample_rollout]"
  by code_simp

lemma sample_filename: "session_id_from_filename (last sample_rollout) = Some sibling_id"
  by code_simp

lemma sample_valid: "valid_session_id sibling_id" "args_are_safe [RESUME_SUBCOMMAND, sibling_id]"
  by code_simp+

lemma sample_needle:
  "list_ex (\<lambda>needle. sublist needle (lit ''you've hit your usage limit'')) USAGE_LIMIT_NEEDLES"
  "str_len (lit ''you've hit your usage limit'') = 27"
  by code_simp+

definition sample_codex :: "rstring \<Rightarrow> bool \<Rightarrow> codex" where
  "sample_codex text latched = [PaneToken [97] \<mapsto> (codex_pane_new 1 100)\<lparr>cp_bound := Some sample_rollout, cp_session_id := Some sibling_id, cp_output_tail := text, cp_output_latched := latched\<rparr>]"

lemma sample_first_poll:
  "codex_poll (sibling_env sibling_tree) \<lparr>ctx_token = PaneToken [97], ctx_generation = 1, ctx_cwd = [], ctx_command = c\<rparr> 100 (\<lambda>_. None)
     = (None, sample_codex [] False)"
  by (simp add: codex_poll_def codex_state_for_def tail_rollout_def bind_rollout_def sibling_env_def codex_pane_new_def
      sample_candidate sample_filename read_appended_def sample_codex_def)

lemma sample_later_poll:
  "codex_poll (sibling_env sibling_tree) \<lparr>ctx_token = PaneToken [97], ctx_generation = 1, ctx_cwd = [], ctx_command = c\<rparr> n
     (sample_codex text latched) = (None, sample_codex text latched)"
  by (simp add: codex_poll_def codex_state_for_def tail_rollout_def sibling_env_def codex_pane_new_def read_appended_def sample_codex_def)

lemma sample_output:
  "codex_on_output (sibling_env sibling_tree) \<lparr>ctx_token = PaneToken [97], ctx_generation = 1, ctx_cwd = [], ctx_command = c\<rparr>
     (lit ''you've hit your usage limit'') n (sample_codex [] False) =
   (Some (usage (Some sibling_id) None OUTPUT_DETAIL), sample_codex (lit ''you've hit your usage limit'') True)"
  using sample_needle
  by (simp add: codex_on_output_def codex_state_for_def pane_output_seen_def push_output_tail_def sibling_env_def codex_pane_new_def
      sample_codex_def OUTPUT_TAIL_BYTES_def del: lit_simps)

lemma sample_exit:
  "codex_on_exit \<lparr>ctx_token = PaneToken [97], ctx_generation = 1, ctx_cwd = [], ctx_command = c\<rparr> (sample_codex text True) = sample_codex [] False"
  by (simp add: codex_on_exit_def rearm_output_def sample_codex_def codex_pane_new_def)

lemma sample_resume_plan:
  "codex_resume (sample_codex text latched) ctx (usage (Some sibling_id) r d) False = Some (RelaunchPlan [RESUME_SUBCOMMAND, sibling_id])"
  by (simp add: codex_resume_def sample_valid)

definition sample_context :: pane_context where
  "sample_context = \<lparr>ctx_token = PaneToken [97], ctx_generation = 1, ctx_cwd = [], ctx_command = Some (lit ''codex'')\<rparr>"

definition sample_watch :: "pane_recovery \<Rightarrow> rstring \<Rightarrow> bool \<Rightarrow> watches" where
  "sample_watch r text latched =
     [(PaneToken [97], \<lparr>wa_recovery = r, wa_provider = CodexProvider (sample_codex text latched), wa_ctx = sample_context\<rparr>)]"

definition sample_waiting :: "nat \<Rightarrow> bool \<Rightarrow> pane_recovery" where
  "sample_waiting n alive = \<lparr>rc_token = PaneToken [97], rc_generation = 1, rc_state = Backoff,
     rc_limit = Some (usage (Some sibling_id) None OUTPUT_DETAIL), rc_wait = Some ((backoff 1 120 (from_secs 120))\<lparr>rw_last_epoch := int n, rw_last_mono := from_secs n\<rparr>), rc_attempt = 0,
     rc_alive = alive, rc_detail = Some OUTPUT_DETAIL, rc_resumed_at = None\<rparr>"

lemma sample_idle_tick: "recovery_tick resume ctx e t (recovery_new tok g) = ([], recovery_new tok g)"
  by (simp add: recovery_tick_def tick_wait_def recovery_new_def)

lemma sample_open:
  "loop_message_step (run_step (Some (PaneOpened 3 (PaneToken [97]) 1 None (Some (lit ''codex'')) [])) 100) [] =
    ([plugin_log LogInfo (lit ''watching a '' @ lit ''codex'' @ lit '' pane'')],
     [(PaneToken [97], \<lparr>wa_recovery = recovery_new (PaneToken [97]) 1, wa_provider = CodexProvider (\<lambda>_. None), wa_ctx = sample_context\<rparr>)])"
  by (simp add: run_step_def loop_message_step_def on_host_event_def open_pane_def sample_detect Let_def
      MAX_TRACKED_PANES_def tell_watch_def on_event_def new_spawn_def recovery_new_def sample_context_def del: lit_simps)

lemma sample_open_tick:
  "tick_panes (\<lambda>_. run_env) 100 t [PaneToken [97]]
     [(PaneToken [97], \<lparr>wa_recovery = recovery_new (PaneToken [97]) 1, wa_provider = CodexProvider (\<lambda>_. None), wa_ctx = sample_context\<rparr>)] =
   ([], sample_watch (recovery_new (PaneToken [97]) 1) [] False)"
  by (simp add: tick_watch_def run_env_def sample_context_def sample_first_poll sample_idle_tick sample_watch_def Let_def)

lemma sample_tick:
  "tick_panes (\<lambda>_. run_env) e t [PaneToken [97]] (sample_watch r text latched) =
     (let (cs, r') = recovery_tick (codex_resume (sample_codex text latched)) sample_context e t r in (cs, sample_watch r' text latched))"
  by (simp add: tick_watch_def run_env_def sample_context_def sample_later_poll sample_watch_def Let_def case_prod_beta)

lemma sample_limit_step:
  "loop_message_step (run_step (Some (PaneOutput 3 (PaneToken [97]) 1 (lit ''you've hit your usage limit''))) 120)
     (sample_watch (recovery_new (PaneToken [97]) 1) [] False) =
   (fst (note_limit (usage (Some sibling_id) None OUTPUT_DETAIL) 120 (from_secs 120) (recovery_new (PaneToken [97]) 1)),
    sample_watch (sample_waiting 120 True) (lit ''you've hit your usage limit'') True)"
  by (simp add: run_step_def loop_message_step_def on_host_event_def sample_watch_def tell_watch_def on_event_def new_spawn_def
      recovery_new_def sample_context_def run_env_def sample_output note_limit_def goto_def is_same_episode_def arm_wait_def
      resets_at_def arm_backoff_def MAX_RESUME_ATTEMPTS_def sample_waiting_def backoff_def Let_def del: lit_simps)

lemma sample_exit_step:
  "loop_message_step (run_step (Some (PaneExited 3 (PaneToken [97]) 1)) n) (sample_watch (sample_waiting 120 True) text True) =
   ([], sample_watch (sample_waiting 120 False) [] False)"
  by (simp add: run_step_def loop_message_step_def on_host_event_def sample_watch_def tell_watch_def on_event_def new_spawn_def
      sample_context_def sample_exit sample_waiting_def Let_def)

lemma sample_backoff: "rw_planned (backoff 1 120 (from_secs 120)) = from_secs 30" "rw_deadline_epoch (backoff 1 120 (from_secs 120)) = 150"
  by (simp_all add: backoff_def backoff_secs_def BACKOFF_BASE_SECS_def BACKOFF_MAX_SECS_def wait_evals)

lemma sample_wait_tick:
  assumes "120 \<le> m" "m \<le> n" "n < 150"
  shows "recovery_tick resume ctx (int n) (from_secs n) (sample_waiting m alive) = ([], sample_waiting n alive)"
proof -
  have "wrap64 (int n - int m) = int n - int m" "wrap64 (int (n - m)) = int (n - m)" using assms by simp_all
  then have "poll_jump ((backoff 1 120 (from_secs 120))\<lparr>rw_last_epoch := int m, rw_last_mono := from_secs m\<rparr>) (int n) (from_secs n) = 0"
    using assms by (simp add: poll_jump_def Let_def from_secs_def as_secs_def flip: diff_mult_distrib)
  then show ?thesis using assms sample_backoff
    by (simp add: recovery_tick_def tick_wait_def sample_waiting_def poll_def Let_def JUMP_TOLERANCE_SECS_def)
qed

lemma sample_relaunch_tick:
  "filter is_relaunch (fst (recovery_tick (codex_resume (sample_codex text latched)) sample_context 4000 (from_secs 4000) (sample_waiting 121 False)))
     = [Relaunch 3 (PaneToken [97]) 1 [RESUME_SUBCOMMAND, sibling_id]]"
  using sample_backoff
  by (simp add: recovery_tick_def tick_wait_def sample_waiting_def poll_def poll_jump_def Let_def JUMP_TOLERANCE_SECS_def
      from_secs_def as_secs_def goto_def status_def try_resume_def sample_resume_plan relaunch_def sample_context_def sample_valid
      spend_attempt_def MAX_RESUME_ATTEMPTS_def PROTOCOL_VERSION_def del: lit_simps)

lemma run_step_simps:
  "ls_tick_env (run_step ev n) = (\<lambda>_. run_env)" "ls_tick_epoch (run_step ev n) = int n" "ls_tick_now (run_step ev n) = from_secs n"
  "ls_order (run_step ev n) = [PaneToken [97]]" "ls_event_now (run_step ev n) = from_secs n"
  "loop_message_step (run_step None n) panes = ([], panes)"
  "ends_plugin (run_step (Some (PaneOpened v tok g x c d)) n) = False" "ends_plugin (run_step (Some (PaneOutput v tok g text)) n) = False"
  "ends_plugin (run_step (Some (PaneExited v tok g)) n) = False" "ends_plugin (run_step None n) = False"
  by (simp_all add: run_step_def loop_message_step_def ends_plugin_def)

lemma tame_filter: "list_all tame cs \<Longrightarrow> filter is_relaunch cs = []"
  using tame_relaunches by (auto simp: relaunches_def)

lemma sample_run: "after_sample sample_steps = [Relaunch 3 (PaneToken [97]) 1 [RESUME_SUBCOMMAND, sibling_id]]"
proof -
  obtain cs r where last: "recovery_tick (codex_resume (sample_codex [] False)) sample_context 4000 (from_secs 4000) (sample_waiting 121 False) = (cs, r)"
    "filter is_relaunch cs = [Relaunch 3 (PaneToken [97]) 1 [RESUME_SUBCOMMAND, sibling_id]]"
    using sample_relaunch_tick [of "[]" False] by (metis prod.collapse)
  have "plugin_run sample_steps [] =
      map (Pair (from_secs 100)) [plugin_log LogInfo (lit ''watching a '' @ lit ''codex'' @ lit '' pane'')]
      @ map (Pair (from_secs 120))
          (fst (note_limit (usage (Some sibling_id) None OUTPUT_DETAIL) 120 (from_secs 120) (recovery_new (PaneToken [97]) 1)))
      @ map (Pair (from_secs 4000)) cs"
    using sample_wait_tick [of 120 120] sample_wait_tick [of 120 121] last(1)
    by (simp add: sample_steps_def run_step_simps sample_open sample_open_tick sample_limit_step sample_exit_step sample_tick Let_def
        del: lit_simps tick_panes.simps)
  then show ?thesis
    using last(2) tame_filter [OF tame_note_limit]
    by (simp add: after_sample_def run_plugin_def plugin_log_def comp_def)
qed

theorem plugin_asks_sparingly_witness:
  "after_sample sample_steps = [Relaunch 3 (PaneToken [97]) 1 [RESUME_SUBCOMMAND, sibling_id]]
   \<and> list_all (\<lambda>(_, c). allowed_command (host_events sample_steps) c) (run_plugin 0 sample_steps)"
proof -
  have "sorted (0 # step_times sample_steps)"
    by (simp add: step_times_def sample_steps_def run_step_def from_secs_def)
  from plugin_asks_sparingly [OF this, of "PaneToken [97]"] sample_run show ?thesis by blast
qed

end
