(* ===== verification/Spec2Isabelle.thy ===== *)
theory Spec2Isabelle
  imports Worker_Properties Hub_Session Plugin_Pump Session_Watch Terminal_Link Key_Input Event_Stream Catalog_Membership Hub_View Replay_Refinement Plugin_Guard Size_Owner Pane_Recovery Path_Gate Daemon_Frame Login_Limiter Web_Sessions Log_Rotation Recovery_Loop
begin

text \<open>
  A verification library for nightcrow, a terminal multiplexer for coding sessions: a daemon keeps a session of repositories, each
  with a hub of terminal panes; terminal clients and a browser attach to it; plugins run as child processes and may act on panes within limits.
  The library models the Rust code under \<^verbatim>\<open>src/src\<close> and \<^verbatim>\<open>src/plugins/nightcrow-recovery/src\<close>; the paths in the theories'
  introductions leave the first \<^verbatim>\<open>src\<close> out.

  \<^bold>\<open>How the parts interact.\<close> A hub has one worker thread and a lock around the state it shares with its connections. A client's message goes
  through the hub's session into bounded queues; the worker takes them, drives the processes behind the panes, records their output for
  replay, and announces what happened to every client's bounded channel. A plugin's lines are read by a pump, judged by a guard, and done by
  the worker. The daemon tags what a hub tells a client with its repository and sends it in frames; the client files it by repository and
  drains it on its render tick. Beside the hubs, the session keeps the list of repositories and the preferences, and a watcher tells
  every attached client of a change. The browser comes in through a web server with its own logins.

  \<^bold>\<open>Shared theories.\<close> \<open>Prelude\<close> (integers, strings as code points, clocks), \<open>Contracts\<close> (the locales \<open>event_machine\<close> and
  \<open>rate_window\<close>), \<open>Codec\<close> (byte and decimal encodings, bounded channels, the locale \<open>codec\<close>), \<open>Ordered_Map\<close> (\<^verbatim>\<open>BTreeMap\<close>, the
  locale \<open>ordered_map\<close>), \<open>Unix_Path\<close>, \<open>Output_Text\<close> (UTF-8 decoding; what a plugin is shown of a pane's output).

  \<^bold>\<open>Panes and their processes.\<close>
  \<^item> \<open>Pane_Identity\<close>: \<^verbatim>\<open>backend/identity.rs\<close>, \<^verbatim>\<open>backend/slot.rs\<close>. Tokens, generations, the slot table, the command line of a relaunch.
  \<^item> \<open>Pty_Backend\<close>: \<^verbatim>\<open>backend/pty*.rs\<close>. The input queue and its writer, the drain, spawning, relaunching, releasing.
  \<^item> \<open>Stream_Boundary\<close>, \<open>Pane_Emulator\<close>: \<^verbatim>\<open>runtime/emulator\<close>. Where a stream may be cut; what surrounds the terminal library.

  \<^bold>\<open>The hub.\<close>
  \<^item> \<open>Terminal_Frame\<close>: \<^verbatim>\<open>session/terminal/frame.rs\<close>. Messages, clamped sizes, the binary output frame.
  \<^item> \<open>Hub_Shared\<close>, \<open>Hub_Connect\<close>, \<open>Replay_Chunks\<close>, \<open>Hub_Output\<close>: everything done under the hub's lock, a client coming and leaving, and what is
    recorded of output. \<open>Replay_Refinement\<close> relates the record to the history of each pane; \<open>Hub_View\<close> interleaves worker and clients and
    shows that a client that has read its channel knows the hub.
  \<^item> \<open>Hub_Plugins\<close>, \<open>Hub_Worker\<close>: the worker's loop with slots, holds, relaunches, start-up, reloads. \<open>Worker_Invariant\<close> and \<open>Worker_Safety\<close> carry the
    invariant tying its books together through every step; \<open>Worker_Properties\<close> states what follows.
  \<^item> \<open>Hub_Session\<close>: \<^verbatim>\<open>session/terminal/session.rs\<close>. What each client message does, the queues to the worker.
  \<^item> \<open>Size_Owner\<close>: \<^verbatim>\<open>session/size_owner*.rs\<close>. Whose screen the terminals are fitted to, and the generations that make a stale resize fail.

  \<^bold>\<open>Plugins.\<close>
  \<^item> \<open>Plugin_Protocol\<close>, \<open>Plugin_Pump\<close>, \<open>Plugin_Guard\<close>: \<^verbatim>\<open>plugin/protocol.rs\<close>, \<^verbatim>\<open>host_pump.rs\<close>, \<^verbatim>\<open>guard*.rs\<close>. Lines off a pipe, the judgement of a command, the budgets.
  \<^item> The bundled recovery plugin: \<open>Reset_Wait\<close> (\<^verbatim>\<open>wait.rs\<close>), \<open>Pane_Recovery\<close> (\<^verbatim>\<open>state*.rs\<close>, the machine of one pane), \<open>Codex_Rollout\<close> and
    \<open>Codex_Adapter\<close> (\<^verbatim>\<open>provider/codex*.rs\<close>), \<open>Opencode_Adapter\<close> (\<^verbatim>\<open>provider/opencode*.rs\<close>), \<open>Recovery_Loop\<close> (\<^verbatim>\<open>provider/mod.rs\<close>, \<^verbatim>\<open>runloop*.rs\<close>, the
    whole plugin). What holds of one machine is lifted to the loop by an invariant on its table.

  \<^bold>\<open>The session and its transports.\<close>
  \<^item> \<open>Catalog_Membership\<close>, \<open>Viewer_Prefs\<close>, \<open>Session_Projects\<close>: \<^verbatim>\<open>session/catalog\<close>, \<^verbatim>\<open>session/prefs\<close>, \<^verbatim>\<open>session/operations.rs\<close>, \<^verbatim>\<open>workspace/persistence.rs\<close>.
  \<^item> \<open>Daemon_Frame\<close>, \<open>Session_Watch\<close>, \<open>Terminal_Link\<close>: \<^verbatim>\<open>daemon/frame.rs\<close>; \<^verbatim>\<open>clients.rs\<close>, \<^verbatim>\<open>watch.rs\<close>, \<^verbatim>\<open>requests.rs\<close>; \<^verbatim>\<open>terminals.rs\<close>,
    \<^verbatim>\<open>wire.rs\<close>, \<^verbatim>\<open>terminal_link*\<close>, \<^verbatim>\<open>backend/hub.rs\<close>. \<open>Key_Input\<close>: \<^verbatim>\<open>input/*.rs\<close>, from a key to the bytes a pane is sent.
  \<^item> \<open>Login_Limiter\<close>, \<open>Web_Sessions\<close>, \<open>Web_Request\<close>, \<open>Event_Stream\<close>: \<^verbatim>\<open>web/common\<close>. \<open>Path_Gate\<close>: \<^verbatim>\<open>git/path/mod.rs\<close>.
  \<^item> \<open>Log_Rotation\<close>: \<^verbatim>\<open>platform/logging/rotation.rs\<close>.

  \<^bold>\<open>How a state is read.\<close> A struct is a record with a prefix of its own on the fields; an enum a datatype; a counter or generation kept at its
  width a word, a length or time a natural number with saturation and wrap-around written out. A \<^verbatim>\<open>Result\<close> is a sum. Everything done under one hold of a lock is
  one function, so an interleaving is a list of steps; an operation that holds a lock twice is two. What the operating system, the clock, a
  library or the environment decides is an argument, so a theorem holds for whatever they answer, or names what it asks of them.

  \<^bold>\<open>What the lemmas show.\<close> Each component has an invariant kept by its operations (lifted to runs by \<open>event_machine\<close> or by induction over the steps),
  the exact behaviour of its operations on every branch, and where it keeps a promise to another part, an abstract statement of it: the
  view of a hub, the history of a pane, the history of size requests, the lines of a byte stream, the session as it was told. The marked
  theorems are the properties; the other theorems are kept as facts about the components.

  \<^bold>\<open>Termination.\<close> Loops are recursive functions with a measure. Only the loop that fills a replay frame is a partial function, since in
  the code it could index out of bounds or stop making progress; \<open>replay_chunks_total\<close> shows that it returns. No definition takes fuel except
  \<open>decode_many\<close> and \<open>read_frames\<close>, which only state round trips and are given the number of frames to read.

  \<^bold>\<open>Not modelled.\<close> Drawing and the event loop of the terminal client (\<^verbatim>\<open>ui\<close>, \<^verbatim>\<open>application\<close>, \<^verbatim>\<open>app\<close>, \<^verbatim>\<open>runtime/terminal\<close>): view state of one screen. Git
  (\<^verbatim>\<open>git\<close> beside the path gate) and repository watching: calls into libgit2 and notify. Routing and JSON bodies of the viewer's server
  (\<^verbatim>\<open>web/viewer\<close>), web push, the command line, self update, configuration parsing, process and socket handling of the daemon, the platform layer: calls to
  libraries and the operating system around the parts above. The memory plugin: queries to SQLite. The terminal library's grid and its
  serialisation are parameters. Log lines and metrics are left out, except what a plugin logs to its host. The TypeScript viewer is another program.
\<close>

end
